(* ===== verification/Pmf_Prelude.thy ===== *)
theory Pmf_Prelude
  imports Main "HOL-Library.Word"
begin

text \<open>
  Shared vocabulary of the development: the error numbers the library reports, the
  wrap-around arithmetic of the C integer types \<^verbatim>\<open>uint64_t\<close>, \<^verbatim>\<open>size_t\<close> and
  \<^verbatim>\<open>uint32_t\<close>, and the generic list facts the component theories use.

  File offsets and sizes are natural numbers. Every addition, subtraction or conversion of
  the source that can leave the range of its C type is written with \<open>add64\<close>, \<open>sub64\<close> or
  \<open>u32\<close>, so the wrap-around is part of the model.
\<close>

unbundle bit_operations_syntax

section \<open>Error numbers\<close>

text \<open>The values of Linux's \<^verbatim>\<open>errno.h\<close>; 0 is success, as in the source.\<close>

type_synonym errno = nat

abbreviation (input) EPERM :: errno where "EPERM \<equiv> 1"
abbreviation (input) ENOENT :: errno where "ENOENT \<equiv> 2"
abbreviation (input) EIO :: errno where "EIO \<equiv> 5"
abbreviation (input) ENXIO :: errno where "ENXIO \<equiv> 6"
abbreviation (input) EBADF :: errno where "EBADF \<equiv> 9"
abbreviation (input) ENOMEM :: errno where "ENOMEM \<equiv> 12"
abbreviation (input) EACCES :: errno where "EACCES \<equiv> 13"
abbreviation (input) EFAULT :: errno where "EFAULT \<equiv> 14"
abbreviation (input) EBUSY :: errno where "EBUSY \<equiv> 16"
abbreviation (input) EEXIST :: errno where "EEXIST \<equiv> 17"
abbreviation (input) EXDEV :: errno where "EXDEV \<equiv> 18"
abbreviation (input) ENOTDIR :: errno where "ENOTDIR \<equiv> 20"
abbreviation (input) EISDIR :: errno where "EISDIR \<equiv> 21"
abbreviation (input) EINVAL :: errno where "EINVAL \<equiv> 22"
abbreviation (input) ENFILE :: errno where "ENFILE \<equiv> 23"
abbreviation (input) EFBIG :: errno where "EFBIG \<equiv> 27"
abbreviation (input) ENOSPC :: errno where "ENOSPC \<equiv> 28"
abbreviation (input) ERANGE :: errno where "ERANGE \<equiv> 34"
abbreviation (input) ENAMETOOLONG :: errno where "ENAMETOOLONG \<equiv> 36"
abbreviation (input) ENOTEMPTY :: errno where "ENOTEMPTY \<equiv> 39"
abbreviation (input) ELOOP :: errno where "ELOOP \<equiv> 40"
abbreviation (input) EOPNOTSUPP :: errno where "EOPNOTSUPP \<equiv> 95"

section \<open>Unsigned arithmetic of the C types\<close>

named_theorems wrap_simps \<open>equations that remove a wrap-around that does not happen\<close>

definition W64 :: nat where
  "W64 = 18446744073709551616"

definition W32 :: nat where
  "W32 = 4294967296"

definition UINT64_MAX :: nat where
  "UINT64_MAX = W64 - 1"

definition UINT32_MAX :: nat where
  "UINT32_MAX = W32 - 1"

definition add64 :: "nat \<Rightarrow> nat \<Rightarrow> nat" where
  "add64 a b = (a + b) mod W64"

definition sub64 :: "nat \<Rightarrow> nat \<Rightarrow> nat" where
  "sub64 a b = (a + W64 - b) mod W64"

definition u32 :: "nat \<Rightarrow> nat" where
  "u32 a = a mod W32"

lemma W64_pos [simp]: "0 < W64"
  by (simp add: W64_def)

lemma W32_pos [simp]: "0 < W32"
  by (simp add: W32_def)

lemma W32_less_W64: "W32 < W64"
  by (simp add: W32_def W64_def)

lemma W64_power: "W64 = 2 ^ 64"
  by (simp add: W64_def)

lemma W32_power: "W32 = 2 ^ 32"
  by (simp add: W32_def)

lemma add64_exact [wrap_simps]: "a + b < W64 \<Longrightarrow> add64 a b = a + b"
  by (simp add: add64_def)

lemma add64_less [simp]: "add64 a b < W64"
  by (simp add: add64_def)

lemma sub64_less [simp]: "sub64 a b < W64"
  by (simp add: sub64_def)

lemma sub64_exact [wrap_simps]:
  assumes "b \<le> a" and "a < W64"
  shows "sub64 a b = a - b"
proof -
  have "a + W64 - b = (a - b) + W64"
    using assms(1) by simp
  moreover have "(a - b + W64) mod W64 = a - b"
    using assms(2) by simp
  ultimately show ?thesis
    by (simp only: sub64_def)
qed

lemma u32_exact [wrap_simps]: "a < W32 \<Longrightarrow> u32 a = a"
  by (simp add: u32_def)

section \<open>Lists\<close>

lemma list_all_update:
  "list_all P xs \<Longrightarrow> P x \<Longrightarrow> list_all P (xs[i := x])"
  by (auto simp: list_all_iff dest!: set_update_subset_insert [THEN subsetD])

lemma nth_size_less [termination_simp]:
  "i < length xs \<Longrightarrow> size (xs ! i) < Suc (size_list size xs)"
  by (simp add: less_Suc_eq_le size_list_estimation' [OF nth_mem])

section \<open>The C allocator\<close>

text \<open>
  \<^verbatim>\<open>pf_malloc\<close>, \<^verbatim>\<open>pf_calloc\<close> and \<^verbatim>\<open>pf_realloc\<close> wrap the allocator of the C library. Whether
  the next call succeeds is given by a list of answers; the empty list is an allocator that
  never fails.
\<close>

type_synonym answers = "bool list"

definition pf_calloc :: "answers \<Rightarrow> bool \<times> answers" where
  "pf_calloc os = (case os of [] \<Rightarrow> (True, []) | a # as \<Rightarrow> (a, as))"

lemma pf_calloc_Nil [simp]: "pf_calloc [] = (True, [])"
  by (simp add: pf_calloc_def)

section \<open>Results of code that runs in a transaction\<close>

text \<open>
  A step inside a transaction returns a value, or aborts the transaction with an error number
  (\<open>Inl\<close>). \<open>None\<close> is undefined behaviour or a loop that does not end.
\<close>

type_synonym 'a tx_result = "(errno + 'a) option"

definition tx_bind :: "'a tx_result \<Rightarrow> ('a \<Rightarrow> 'b tx_result) \<Rightarrow> 'b tx_result" where
  "tx_bind r f = (case r of None \<Rightarrow> None | Some (Inl e) \<Rightarrow> Some (Inl e) | Some (Inr x) \<Rightarrow> f x)"

abbreviation tx_ret :: "'a \<Rightarrow> 'a tx_result" where
  "tx_ret x \<equiv> Some (Inr x)"

abbreviation tx_fail :: "errno \<Rightarrow> 'a tx_result" where
  "tx_fail e \<equiv> Some (Inl e)"

lemma tx_bind_simps [simp]:
  "tx_bind None f = None" "tx_bind (tx_fail e) f = tx_fail e" "tx_bind (tx_ret x) f = f x"
  by (simp_all add: tx_bind_def)

lemma tx_bind_ret: "tx_bind r f = tx_ret y \<longleftrightarrow> (\<exists>x. r = tx_ret x \<and> f x = tx_ret y)"
  by (auto simp: tx_bind_def split: option.splits sum.splits)

lemma tx_bind_mono [partial_function_mono]:
  assumes mf: "mono_option B" and mg: "\<And>y. mono_option (\<lambda>f. C y f)"
  shows "mono_option (\<lambda>f. tx_bind (B f) (\<lambda>y. C y f))"
proof (rule monotoneI)
  fix f g :: "'a \<Rightarrow> 'b option"
  assume fg: "fun_ord option_ord f g"
  from mf fg have B: "option_ord (B f) (B g)"
    by (rule monotoneD [of _ _ _ f g])
  from mg have C: "\<And>y. option_ord (C y f) (C y g)"
    by (rule monotoneD) (rule fg)
  show "option_ord (tx_bind (B f) (\<lambda>y. C y f)) (tx_bind (B g) (\<lambda>y. C y g))"
  proof (cases "B f")
    case None
    then show ?thesis by (simp add: flat_ord_def)
  next
    case (Some r)
    then have "B g = Some r"
      using B by (auto simp: flat_ord_def)
    with Some C show ?thesis
      by (cases r) (auto simp: flat_ord_def)
  qed
qed

end
