(* ===== verification/Blocks.thy ===== *)
theory Blocks
  imports Pmf_Prelude
begin

text \<open>
  Block sizes (\<^verbatim>\<open>blocks.c\<close>, \<^verbatim>\<open>blocks.h\<close>): the table of data block sizes the allocator is
  asked for, the choice of a block for a request, and the rounding of file intervals to
  whole blocks.

  The source keeps the table and the alignment in two static variables that only
  \<open>set_block_size\<close> writes; they are the record \<open>block_conf\<close> here. Rounding uses a bit mask,
  so it is modelled on 64-bit words.
\<close>

section \<open>The block size table\<close>

record pmem_block_info =
  bi_size :: nat
  bi_units_per_block :: nat
  bi_class_id :: nat

record block_conf =
  metadata_block :: pmem_block_info
  data_blocks :: "pmem_block_info list"  \<comment> \<open>the entries before the terminator\<close>
  block_alignment :: nat

definition MIN_BLOCK_SIZE :: nat where
  "MIN_BLOCK_SIZE = 16384"

definition METADATA_BLOCK_SIZE :: nat where
  "METADATA_BLOCK_SIZE = 4096"

definition CONST_BLOCK_N_UNITS :: nat where
  "CONST_BLOCK_N_UNITS = 16"

definition default_conf :: block_conf where
  "default_conf = \<lparr>
     metadata_block =
       \<lparr>bi_size = METADATA_BLOCK_SIZE, bi_units_per_block = 128, bi_class_id = 0\<rparr>,
     data_blocks =
       [\<lparr>bi_size = MIN_BLOCK_SIZE, bi_units_per_block = 128, bi_class_id = 0\<rparr>,
        \<lparr>bi_size = 256 * 1024, bi_units_per_block = 16, bi_class_id = 0\<rparr>,
        \<lparr>bi_size = 2 * 1024 * 1024, bi_units_per_block = 8, bi_class_id = 0\<rparr>],
     block_alignment = MIN_BLOCK_SIZE\<rparr>"

definition metadata_block_info :: "block_conf \<Rightarrow> pmem_block_info" where
  "metadata_block_info c = metadata_block c"

text \<open>
  \<^verbatim>\<open>set_block_size\<close> overwrites entry 0 and turns entry 1 into the terminator, which leaves
  one entry.
\<close>

definition set_block_size :: "nat \<Rightarrow> block_conf \<Rightarrow> block_conf" where
  "set_block_size sz c = c\<lparr>
     data_blocks := [(hd (data_blocks c))\<lparr>bi_size := sz, bi_units_per_block := CONST_BLOCK_N_UNITS\<rparr>],
     block_alignment := sz\<rparr>"

definition MAX_BLOCK_SIZE :: "block_conf \<Rightarrow> nat" where
  "MAX_BLOCK_SIZE c = UINT32_MAX - UINT32_MAX mod block_alignment c"

text \<open>
  The loop of \<open>data_block_info\<close>. Its third argument is the entry before the current one;
  \<open>None\<close> there is the address before the table, so a result \<open>None\<close> is the out-of-bounds
  pointer \<^verbatim>\<open>data_blocks - 1\<close>.
\<close>

fun data_block_info_loop ::
  "nat \<Rightarrow> nat \<Rightarrow> pmem_block_info option \<Rightarrow> pmem_block_info list \<Rightarrow> pmem_block_info option" where
  "data_block_info_loop sz limit prev [] = prev"
| "data_block_info_loop sz limit prev (b # bs) =
     (if limit < bi_size b then prev
      else if sz \<le> bi_size b then Some b
      else data_block_info_loop sz limit (Some b) bs)"

definition data_block_info :: "block_conf \<Rightarrow> nat \<Rightarrow> nat \<Rightarrow> pmem_block_info option" where
  "data_block_info c sz limit = data_block_info_loop sz limit None (data_blocks c)"

section \<open>Allocation classes\<close>

text \<open>
  Every block size is registered with the object store as an allocation class of its own. The
  call \<^verbatim>\<open>pmemobj_ctl_set\<close> is the parameter \<open>ctl_set\<close> (class number, unit size, units per block)
  and the macro \<^verbatim>\<open>POBJ_CLASS_ID\<close> the parameter \<open>class_id\<close>. The model is of the build with
  allocation classes.
\<close>

definition METADATA_ID :: nat where
  "METADATA_ID = 128"

definition FIRST_BLOCK_ID :: nat where
  "FIRST_BLOCK_ID = 129"

definition set_alloc_class ::
  "(nat \<Rightarrow> nat \<Rightarrow> nat \<Rightarrow> int) \<Rightarrow> (nat \<Rightarrow> nat) \<Rightarrow> pmem_block_info \<Rightarrow> nat \<Rightarrow> int \<times> pmem_block_info" where
  "set_alloc_class ctl_set class_id b i =
     (let ret = ctl_set i (bi_size b) (bi_units_per_block b) in
      if ret \<noteq> 0 then (ret, b) else (0, b\<lparr>bi_class_id := class_id i\<rparr>))"

fun set_alloc_classes ::
  "(nat \<Rightarrow> nat \<Rightarrow> nat \<Rightarrow> int) \<Rightarrow> (nat \<Rightarrow> nat) \<Rightarrow> nat \<Rightarrow> pmem_block_info list
    \<Rightarrow> int \<times> pmem_block_info list" where
  "set_alloc_classes ctl_set class_id i [] = (0, [])"
| "set_alloc_classes ctl_set class_id i (b # bs) =
     (case set_alloc_class ctl_set class_id b i of
        (ret, b') \<Rightarrow>
          if ret \<noteq> 0 then (ret, b' # bs)
          else (case set_alloc_classes ctl_set class_id (Suc i) bs of (ret', bs') \<Rightarrow> (ret', b' # bs')))"

definition initialize_alloc_classes ::
  "(nat \<Rightarrow> nat \<Rightarrow> nat \<Rightarrow> int) \<Rightarrow> (nat \<Rightarrow> nat) \<Rightarrow> block_conf \<Rightarrow> int \<times> block_conf" where
  "initialize_alloc_classes ctl_set class_id c =
     (case set_alloc_class ctl_set class_id (metadata_block c) METADATA_ID of
        (ret, mb) \<Rightarrow>
          if ret \<noteq> 0 then (ret, c\<lparr>metadata_block := mb\<rparr>)
          else (case set_alloc_classes ctl_set class_id FIRST_BLOCK_ID (data_blocks c) of
                  (ret', bs) \<Rightarrow> (ret', c\<lparr>metadata_block := mb, data_blocks := bs\<rparr>)))"

section \<open>Rounding\<close>

definition block_rounddown :: "block_conf \<Rightarrow> nat \<Rightarrow> nat" where
  "block_rounddown c n =
     unat ((word_of_nat n :: 64 word) AND NOT (word_of_nat (block_alignment c) - 1))"

definition block_roundup :: "block_conf \<Rightarrow> nat \<Rightarrow> nat" where
  "block_roundup c n = block_rounddown c (sub64 (add64 n (block_alignment c)) 1)"

definition expand_to_full_pages :: "block_conf \<Rightarrow> nat \<Rightarrow> nat \<Rightarrow> nat \<times> nat" where
  "expand_to_full_pages c offset len =
     (let len1 = add64 len (offset mod block_alignment c);
          offset1 = offset - offset mod block_alignment c
      in (offset1, block_roundup c len1))"

section \<open>Library start-up\<close>

text \<open>
  The part of \<^verbatim>\<open>libpmemfile_posix_init\<close> that reads the environment. \<^verbatim>\<open>PMEMFILE_BLOCK_SIZE\<close>
  is \<open>None\<close> when unset, else the number \<^verbatim>\<open>strtoull\<close> returns with a flag that says the text
  is empty or has trailing characters. \<^verbatim>\<open>PMEMFILE_OVERALLOCATE_ON_APPEND\<close> is its text. The
  result is the block table and the flag \<^verbatim>\<open>pmemfile_overallocate_on_append\<close>.
\<close>

definition posix_block_size :: "(bool \<times> nat) option \<Rightarrow> nat" where
  "posix_block_size env =
     (case env of
        None \<Rightarrow> 0
      | Some (malformed, blk_size) \<Rightarrow>
          if malformed \<or> blk_size = UINT64_MAX \<or> blk_size < MIN_BLOCK_SIZE then 0
          else if MAX_BLOCK_SIZE default_conf < blk_size then MAX_BLOCK_SIZE default_conf
          else block_roundup default_conf blk_size)"

definition libpmemfile_posix_init ::
  "(bool \<times> nat) option \<Rightarrow> string option \<Rightarrow> block_conf \<times> bool" where
  "libpmemfile_posix_init block_size_env overallocate_env =
     (let bs = posix_block_size block_size_env in
      if bs = 0 then
        (default_conf,
         \<not> (case overallocate_env of None \<Rightarrow> False | Some e \<Rightarrow> e \<noteq> [] \<and> hd e = CHR ''0''))
      else (set_block_size bs default_conf, False))"

section \<open>Registration of the classes\<close>

lemma set_alloc_classes_sizes:
  "set_alloc_classes ctl_set class_id i bs = (ret, bs') \<Longrightarrow> map bi_size bs' = map bi_size bs"
  by (induction bs arbitrary: i bs')
     (auto simp: set_alloc_class_def Let_def split: prod.splits if_splits)

lemma set_alloc_classes_ids:
  "set_alloc_classes ctl_set class_id i bs = (0, bs') \<Longrightarrow>
   map bi_class_id bs' = map class_id [i..<i + length bs]"
proof (induction bs arbitrary: i bs')
  case (Cons b bs)
  then obtain bs1 where "set_alloc_classes ctl_set class_id (Suc i) bs = (0, bs1)"
    "bs' = b\<lparr>bi_class_id := class_id i\<rparr> # bs1"
    by (auto simp: set_alloc_class_def Let_def split: prod.splits if_splits)
  with Cons.IH [OF this(1)] show ?case
    by (simp add: upt_conv_Cons del: upt_Suc)
qed simp

section \<open>Rounding with a power-of-two alignment\<close>

lemma unat_and_not_mask:
  fixes x :: "64 word"
  shows "unat (x AND NOT (mask k)) = unat x - unat x mod 2 ^ k"
proof -
  have "x = (x AND NOT (mask k)) + (x AND mask k)"
    by (subst disjunctive_add) (auto simp: bit_simps intro: bit_eqI)
  then have diff: "x AND NOT (mask k) = x - take_bit k x"
    by (simp add: take_bit_eq_mask algebra_simps)
  have mod: "unat (take_bit k x) = unat x mod 2 ^ k"
    by (simp add: unsigned_take_bit_eq flip: take_bit_eq_mod)
  have "unat x mod 2 ^ k \<le> unat x"
    by simp
  then show ?thesis
    by (simp add: diff unat_sub word_le_nat_alt flip: mod)
qed

definition pow2_conf :: "block_conf \<Rightarrow> nat \<Rightarrow> bool" where
  "pow2_conf c k \<longleftrightarrow> k < 64 \<and> block_alignment c = 2 ^ k"

lemma default_conf_pow2: "pow2_conf default_conf 14"
  by (simp add: pow2_conf_def default_conf_def MIN_BLOCK_SIZE_def)

lemma block_rounddown_eq:
  assumes "pow2_conf c k" and "n < W64"
  shows "block_rounddown c n = n - n mod 2 ^ k"
proof -
  have "(word_of_nat (block_alignment c) - 1 :: 64 word) = mask k"
    using assms(1) by (simp add: pow2_conf_def mask_eq_exp_minus_1)
  moreover have "unat (word_of_nat n :: 64 word) = n"
    using assms(2) by (simp add: W64_power unat_of_nat)
  ultimately show ?thesis
    by (simp add: block_rounddown_def unat_and_not_mask)
qed

lemma block_roundup_eq:
  assumes "pow2_conf c k" and "n + 2 ^ k \<le> W64"
  shows "block_roundup c n = (n + (2 ^ k - 1)) - (n + (2 ^ k - 1)) mod 2 ^ k"
proof -
  define a :: nat where "a = 2 ^ k"
  have a: "0 < a" "n + a \<le> W64"
    using assms(2) by (simp_all add: a_def)
  have "sub64 (add64 n a) 1 = n + (a - 1)"
  proof (cases "n + a = W64")
    case True
    with a show ?thesis
      by (simp add: add64_def sub64_def)
  next
    case False
    with a have "n + a < W64" by simp
    with a show ?thesis
      by (simp add: add64_exact sub64_exact)
  qed
  moreover have "n + (a - 1) < W64"
    using a by linarith
  ultimately show ?thesis
    using assms(1) block_rounddown_eq [OF assms(1), of "n + (a - 1)"]
    by (simp add: block_roundup_def pow2_conf_def a_def)
qed

lemma roundup_bounds:
  fixes a n :: nat
  assumes "0 < a" and "m = n + (a - 1) - (n + (a - 1)) mod a"
  shows "a dvd m" and "n \<le> m" and "m < n + a"
proof -
  show "a dvd m"
    unfolding assms(2) by (rule dvd_minus_mod)
  have "(n + (a - 1)) mod a < a"
    using assms(1) by simp
  then show "n \<le> m" and "m < n + a"
    unfolding assms(2) using assms(1) by linarith+
qed

lemma block_roundup_props:
  assumes "pow2_conf c k" and "n + 2 ^ k \<le> W64"
  shows "2 ^ k dvd block_roundup c n" and "n \<le> block_roundup c n"
    and "block_roundup c n < n + 2 ^ k"
  using roundup_bounds [OF _ block_roundup_eq [OF assms]] by simp_all

section \<open>Properties\<close>

lemma expand_to_full_pages_bounds:
  assumes "pow2_conf c k" and "offset + len + 2 ^ k \<le> W64"
    and "expand_to_full_pages c offset len = (offset', len')"
  shows "2 ^ k dvd offset' \<and> 2 ^ k dvd len' \<and> offset' \<le> offset \<and> offset < offset' + 2 ^ k
    \<and> offset + len \<le> offset' + len' \<and> offset' + len' < offset + len + 2 ^ k"
proof -
  have o': "offset' = offset - offset mod 2 ^ k"
    and l': "len' = block_roundup c (add64 len (offset mod 2 ^ k))"
    using assms(1,3) by (auto simp: expand_to_full_pages_def pow2_conf_def Let_def)
  have "offset mod 2 ^ k \<le> offset" "offset mod 2 ^ k < (2::nat) ^ k" by simp_all
  then have bound: "len + offset mod 2 ^ k + 2 ^ k \<le> W64"
    using assms(2) by linarith
  moreover from this have "len + offset mod 2 ^ k < W64"
    by (metis add_leD1 le_neq_implies_less less_add_same_cancel1 not_less zero_less_power zero_less_numeral)
  ultimately have l'': "len' = block_roundup c (len + offset mod 2 ^ k)"
    using l' by (simp add: add64_exact)
  note r = block_roundup_props [OF assms(1) bound, folded l'']
  have "2 ^ k dvd offset'"
    unfolding o' by (rule dvd_minus_mod)
  moreover have "offset' \<le> offset" "offset < offset' + 2 ^ k"
    using o' \<open>offset mod 2 ^ k < 2 ^ k\<close> by linarith+
  moreover have "offset + len \<le> offset' + len'" "offset' + len' < offset + len + 2 ^ k"
    using o' r(2,3) \<open>offset mod 2 ^ k \<le> offset\<close> by linarith+
  ultimately show ?thesis
    using r(1) by blast
qed

text \<open>Claim C34. with a power-of-two block alignment (the default is 16 KiB) and an interval
  whose rounded end fits 64 bits, \<open>expand_to_full_pages\<close> returns an aligned interval that
  contains the requested one and is less than one block longer at either end.\<close>

theorem expand_to_full_pages_covers:
  assumes "pow2_conf c k" and "offset + len + 2 ^ k \<le> W64"
    and "expand_to_full_pages c offset len = (offset', len')"
  shows "2 ^ k dvd offset' \<and> 2 ^ k dvd len' \<and> offset' \<le> offset \<and> offset < offset' + 2 ^ k
    \<and> offset + len \<le> offset' + len' \<and> offset' + len' < offset + len + 2 ^ k"
  by (rule expand_to_full_pages_bounds [OF assms])

theorem expand_to_full_pages_covers_witness:
  "expand_to_full_pages default_conf 20000 5 = (16384, 16384)
   \<and> 2 ^ 14 dvd (16384::nat) \<and> 20000 + 5 \<le> 16384 + (16384::nat)"
proof -
  have e: "expand_to_full_pages default_conf 20000 5 = (16384, 16384)"
    by (simp add: expand_to_full_pages_def block_roundup_def block_rounddown_def default_conf_def
        MIN_BLOCK_SIZE_def add64_def sub64_def W64_def)
  have "20000 + 5 + 2 ^ 14 \<le> W64"
    by (simp add: W64_def)
  from expand_to_full_pages_covers [OF default_conf_pow2 this e] e show ?thesis
    by blast
qed

text \<open>A block size that is a multiple of 16 KiB but no power of two is accepted from
  the environment and breaks the rounding: \<^verbatim>\<open>PMEMFILE_BLOCK_SIZE=40000\<close> selects 49152-byte
  blocks, and rounding one such block up gives 81920, which is not a multiple of the block
  size. The comment of \<^verbatim>\<open>expand_to_full_pages\<close> promises aligned offsets.\<close>

theorem block_roundup_not_aligned:
  "block_alignment (fst (libpmemfile_posix_init (Some (False, 40000)) None)) = 49152
   \<and> snd (expand_to_full_pages (fst (libpmemfile_posix_init (Some (False, 40000)) None)) 0 49152)
       mod 49152 \<noteq> 0"
  by (simp add: libpmemfile_posix_init_def posix_block_size_def Let_def set_block_size_def
      expand_to_full_pages_def block_roundup_def block_rounddown_def default_conf_def
      MIN_BLOCK_SIZE_def MAX_BLOCK_SIZE_def UINT32_MAX_def UINT64_MAX_def W32_def
      add64_def sub64_def W64_def)

lemma data_block_info_loop_spec:
  assumes "sorted_wrt (<) (map bi_size (p # bs))" and "bi_size p \<le> limit" and "bi_size p < sz"
  shows "\<exists>b \<in> set (p # bs). data_block_info_loop sz limit (Some p) bs = Some b \<and> bi_size b \<le> limit
     \<and> (if sz \<le> bi_size b then \<forall>b' \<in> set (p # bs). sz \<le> bi_size b' \<longrightarrow> bi_size b \<le> bi_size b'
        else \<forall>b' \<in> set (p # bs). bi_size b' \<le> limit \<longrightarrow> bi_size b' \<le> bi_size b)"
  using assms
proof (induction bs arbitrary: p)
  case Nil
  then show ?case by simp
next
  case (Cons q bs)
  consider "limit < bi_size q" | "bi_size q \<le> limit" "sz \<le> bi_size q"
    | "bi_size q \<le> limit" "bi_size q < sz" by linarith
  then show ?case
  proof cases
    case 1
    with Cons.prems show ?thesis by (fastforce simp: not_le)
  next
    case 2
    with Cons.prems show ?thesis by (fastforce simp: not_le)
  next
    case 3
    with Cons.prems have "sorted_wrt (<) (map bi_size (q # bs))" by simp
    from Cons.IH [OF this 3] 3 Cons.prems show ?thesis
      by (fastforce split: if_splits)
  qed
qed

text \<open>Claim C33. for a table in increasing order whose smallest block is within the limit, the
  chosen block is within the limit; it is the smallest block that holds the request when one
  within the limit does, and the largest block within the limit otherwise.\<close>

theorem data_block_info_best_fit:
  assumes "sorted_wrt (<) (map bi_size (data_blocks c))" and "data_blocks c \<noteq> []"
    and "bi_size (hd (data_blocks c)) \<le> limit"
  shows "\<exists>b \<in> set (data_blocks c). data_block_info c sz limit = Some b \<and> bi_size b \<le> limit
     \<and> (if sz \<le> bi_size b
        then \<forall>b' \<in> set (data_blocks c). sz \<le> bi_size b' \<longrightarrow> bi_size b \<le> bi_size b'
        else \<forall>b' \<in> set (data_blocks c). bi_size b' \<le> limit \<longrightarrow> bi_size b' \<le> bi_size b)"
proof -
  obtain p bs where pb: "data_blocks c = p # bs"
    using assms(2) by (cases "data_blocks c") auto
  show ?thesis
  proof (cases "sz \<le> bi_size p")
    case True
    with assms pb show ?thesis
      by (fastforce simp: data_block_info_def not_less)
  next
    case False
    then have "data_block_info c sz limit = data_block_info_loop sz limit (Some p) bs"
      using assms(3) pb by (simp add: data_block_info_def)
    with False assms pb show ?thesis
      using data_block_info_loop_spec [of p bs limit sz] by (simp only: list.sel not_le)
  qed
qed

theorem data_block_info_best_fit_witness:
  "\<exists>b \<in> set (data_blocks default_conf). data_block_info default_conf 300000 1000000 = Some b
     \<and> bi_size b \<le> 1000000"
  using data_block_info_best_fit [of default_conf 1000000 300000]
  by (fastforce simp: default_conf_def MIN_BLOCK_SIZE_def)

lemma default_conf_sorted: "sorted_wrt (<) (map bi_size (data_blocks default_conf))"
  by (simp add: default_conf_def MIN_BLOCK_SIZE_def)

text \<open>A limit below the smallest block size makes the source return the entry before the
  table.\<close>

lemma data_block_info_out_of_bounds:
  "data_blocks c = b # bs \<Longrightarrow> limit < bi_size b \<Longrightarrow> data_block_info c sz limit = None"
  by (simp add: data_block_info_def)

end
