(* ===== verification/Offset_Mapping_Correct.thy ===== *)
theory Offset_Mapping_Correct
  imports Offset_Mapping
begin

text \<open>
  What the offset map promises. A tree of depth \<open>k\<close> represents a function from the units
  \<open>0 ..< 16 ^ k\<close> to blocks (\<open>look\<close>), a unit being \<^verbatim>\<open>MIN_BLOCK_SIZE\<close> bytes. \<open>entry_ok\<close> is the
  shape the operations keep: full arrays, the right depth, no inner entry without a block.
\<close>

section \<open>The function a tree represents\<close>

fun entry_ok :: "nat \<Rightarrow> 'b entry \<Rightarrow> bool" where
  "entry_ok k (Leaf x) = True"
| "entry_ok 0 (Node cs) = False"
| "entry_ok (Suc k) (Node cs) =
     (length cs = 16 \<and> (\<forall>c \<in> set cs. entry_ok k c) \<and> (\<exists>c \<in> set cs. c \<noteq> Leaf None))"

fun look :: "nat \<Rightarrow> 'b entry \<Rightarrow> nat \<Rightarrow> 'b option" where
  "look k (Leaf x) u = x"
| "look 0 (Node cs) u = None"
| "look (Suc k) (Node cs) u = look k (cs ! (u div 16 ^ k)) (u mod 16 ^ k)"

definition alook :: "nat \<Rightarrow> 'b entry list \<Rightarrow> nat \<Rightarrow> 'b option" where
  "alook k cs u = look k (cs ! (u div 16 ^ k)) (u mod 16 ^ k)"

lemma look_Node [simp]: "look (Suc k) (Node cs) u = alook k cs u"
  by (simp add: alook_def)

declare look.simps(3) [simp del]

lemma alook_update:
  "j < length cs \<Longrightarrow>
   alook k (cs[j := e]) u = (if u div 16 ^ k = j then look k e (u mod 16 ^ k) else alook k cs u)"
  by (auto simp: alook_def nth_list_update)

lemma div_pow_bound: "u < n * 16 ^ k \<Longrightarrow> u div 16 ^ k < (n::nat)"
  by (simp add: less_mult_imp_div_less)

text \<open>
  \<open>clear_for\<close>: the units that are about to be written are free, or they are being cleared and
  every block among them is cleared as a whole.
\<close>

definition clear_for :: "'b option \<Rightarrow> (nat \<Rightarrow> 'b option) \<Rightarrow> nat \<Rightarrow> nat \<Rightarrow> nat \<Rightarrow> bool" where
  "clear_for block L n p r \<longleftrightarrow>
     (\<forall>u b. u < n \<longrightarrow> p \<le> u \<longrightarrow> u < p + r \<longrightarrow> L u = Some b \<longrightarrow>
        block = None \<and> (\<forall>u'. u' < n \<longrightarrow> L u' = Some b \<longrightarrow> p \<le> u' \<and> u' < p + r))"

lemma clear_for_step:
  assumes "clear_for block L n p r" and "q \<le> r"
    and "\<And>u. u < n \<Longrightarrow> L' u = (if p \<le> u \<and> u < p + q then block else L u)"
  shows "clear_for block L' n (p + q) (r - q)"
  unfolding clear_for_def
proof (intro allI impI)
  fix u b
  assume u: "u < n" "p + q \<le> u" "u < p + q + (r - q)" "L' u = Some b"
  then have L: "L u = Some b" and r: "p \<le> u" "u < p + r"
    using assms(2,3) by auto
  then have *: "block = None" "\<And>u'. u' < n \<Longrightarrow> L u' = Some b \<Longrightarrow> p \<le> u' \<and> u' < p + r"
    using assms(1) u(1) unfolding clear_for_def by blast+
  show "block = None \<and> (\<forall>u'. u' < n \<longrightarrow> L' u' = Some b \<longrightarrow>
      p + q \<le> u' \<and> u' < p + q + (r - q))"
  proof (intro conjI allI impI)
    fix u' assume u': "u' < n" "L' u' = Some b"
    then have "L u' = Some b" "\<not> (p \<le> u' \<and> u' < p + q)"
      using assms(3) [of u'] *(1) by (auto split: if_splits)
    then show "p + q \<le> u'" "u' < p + q + (r - q)"
      using *(2) [OF u'(1)] assms(2) by auto
  qed (rule *(1))
qed

lemma clear_for_sub:
  assumes "clear_for block L n p r" and "(i + 1) * w \<le> n" and "i = p div w" and "0 < w" and "0 < r"
    and "\<And>v. v < w \<Longrightarrow> L' v = L (i * w + v)"
  shows "clear_for block L' w (p mod w) (min r (w - p mod w))"
  unfolding clear_for_def
proof (intro allI impI)
  fix v b
  assume v: "v < w" "p mod w \<le> v" "v < p mod w + min r (w - p mod w)" "L' v = Some b"
  have p: "p = i * w + p mod w"
    using assms(3) by (simp add: div_mult_mod_eq)
  have range: "p \<le> i * w + v \<and> i * w + v < p + r"
    using v p by linarith
  have n: "i * w + v < n" if "v < w" for v
    using that assms(2) by (simp add: add_mult_distrib)
  have L: "L (i * w + v) = Some b"
    using v assms(6) by simp
  then have *: "block = None" "\<And>u'. u' < n \<Longrightarrow> L u' = Some b \<Longrightarrow> p \<le> u' \<and> u' < p + r"
    using assms(1) n [OF v(1)] range unfolding clear_for_def by blast+
  show "block = None \<and> (\<forall>v'. v' < w \<longrightarrow> L' v' = Some b \<longrightarrow>
      p mod w \<le> v' \<and> v' < p mod w + min r (w - p mod w))"
  proof (intro conjI allI impI)
    fix v' assume v': "v' < w" "L' v' = Some b"
    then have "L (i * w + v') = Some b" using assms(6) by simp
    from *(2) [OF n [OF v'(1)] this] v'(1) p
    show "p mod w \<le> v'" "v' < p mod w + min r (w - p mod w)" by linarith+
  qed (rule *(1))
qed

section \<open>Writing a range\<close>

text \<open>
  \<open>quiet\<close>: the allocator does not fail, or is not needed because every unit of the range already
  belongs to a block.
\<close>

definition quiet :: "answers \<Rightarrow> (nat \<Rightarrow> 'b option) \<Rightarrow> nat \<Rightarrow> nat \<Rightarrow> bool" where
  "quiet os L p r \<longleftrightarrow> os = [] \<or> (\<forall>u. p \<le> u \<and> u < p + r \<longrightarrow> L u \<noteq> None)"

definition set_range_post ::
  "'b option \<Rightarrow> 'b entry list \<Rightarrow> nat \<Rightarrow> nat \<Rightarrow> nat \<Rightarrow> nat \<Rightarrow> answers
    \<Rightarrow> (nat \<times> 'b entry list \<times> answers) option \<Rightarrow> bool" where
  "set_range_post block es n k p r os res \<longleftrightarrow>
     (\<exists>ret es' os'. res = Some (ret, es', os') \<and> length es' = n \<and> (quiet os (alook k es) p r \<longrightarrow> ret = 0 \<and> os' = os)
        \<and> (ret = 0 \<longrightarrow> (\<forall>e \<in> set es'. entry_ok k e)
             \<and> (\<forall>u < n * 16 ^ k.
                   alook k es' u = (if p \<le> u \<and> u < p + r then block else alook k es u))))"

lemma set_range_post_step:
  assumes "set_range_post block es1 n k (p + q) (r - q) os1 res" and "q \<le> r"
    and "quiet os (alook k es) p r \<Longrightarrow> os1 = os" and "p + r \<le> n * 16 ^ k"
    and "\<And>u. u < n * 16 ^ k \<Longrightarrow>
           alook k es1 u = (if p \<le> u \<and> u < p + q then block else alook k es u)"
  shows "set_range_post block es n k p r os res"
proof -
  from assms(1) obtain ret es' os' where res: "res = Some (ret, es', os')" "length es' = n"
    and o: "quiet os1 (alook k es1) (p + q) (r - q) \<longrightarrow> ret = 0 \<and> os' = os1"
    and z: "ret = 0 \<longrightarrow> (\<forall>e \<in> set es'. entry_ok k e) \<and> (\<forall>u < n * 16 ^ k. alook k es' u =
        (if p + q \<le> u \<and> u < p + q + (r - q) then block else alook k es1 u))"
    unfolding set_range_post_def by blast
  have "alook k es' u = (if p \<le> u \<and> u < p + r then block else alook k es u)"
    if "ret = 0" "u < n * 16 ^ k" for u
    using z that assms(2) assms(5) [OF that(2)] by auto
  moreover have "quiet os1 (alook k es1) (p + q) (r - q)" if "quiet os (alook k es) p r"
    using that assms(2-5) unfolding quiet_def by auto
  ultimately show ?thesis
    using res o z assms(3) unfolding set_range_post_def by blast
qed

text \<open>Writing one array entry is writing the units of its range.\<close>

lemma alook_write_child:
  assumes "i < length es" and "w = 16 ^ k" and "i = p div w" and "q = min r (w - p mod w)" and "0 < r"
    and "\<And>v. v < w \<Longrightarrow>
      look k e v = (if p mod w \<le> v \<and> v < p mod w + q then block else look k (es ! i) v)"
  shows "alook k (es[i := e]) u = (if p \<le> u \<and> u < p + q then block else alook k es u)"
proof -
  have w: "0 < w" using assms(2) by simp
  have p: "p = i * w + p mod w" and u: "u = (u div w) * w + u mod w"
    using assms(3) by (simp_all add: div_mult_mod_eq)
  have q: "p mod w + q \<le> w"
    using mod_less_divisor [OF w, of p] assms(4) by linarith
  show ?thesis
  proof (cases "u div w = i")
    case True
    with u have "u = i * w + u mod w" by simp
    with p have "(p mod w \<le> u mod w \<and> u mod w < p mod w + q) = (p \<le> u \<and> u < p + q)"
      by (metis add.assoc nat_add_left_cancel_le nat_add_left_cancel_less)
    moreover have "alook k es u = look k (es ! i) (u mod w)"
      using True assms(2) by (simp add: alook_def)
    ultimately show ?thesis
      using True assms(1,2) assms(6) [of "u mod w"] w by (simp add: alook_update)
  next
    case False
    have "\<not> (p \<le> u \<and> u < p + q)"
    proof
      assume "p \<le> u \<and> u < p + q"
      then have "i * w \<le> u" "u < (i + 1) * w"
        using p q by (simp_all add: add_mult_distrib)
      then have "u div w = i"
        using w by (metis Suc_eq_plus1 div_nat_eqI mult.commute)
      with False show False ..
    qed
    then show ?thesis
      using False assms(1,2) by (auto simp: alook_update)
  qed
qed

lemma look_check_and_free_range:
  assumes "length cs = 16" and "v < 16 * 16 ^ k"
  shows "look (Suc k) (check_and_free_range cs) v = alook k cs v"
proof -
  have "cs ! (v div 16 ^ k) \<in> set cs"
    using assms div_pow_bound by (metis nth_mem)
  then show ?thesis
    by (auto simp: check_and_free_range_def alook_def)
qed

lemma entry_ok_check_and_free_range:
  "length cs = 16 \<Longrightarrow> \<forall>c \<in> set cs. entry_ok k c \<Longrightarrow> entry_ok (Suc k) (check_and_free_range cs)"
  by (auto simp: check_and_free_range_def)

lemma entry_ok_Node_written:
  assumes "length cs = 16" and "\<forall>c \<in> set cs. entry_ok k c" and "v < 16 * 16 ^ k"
    and "alook k cs v = Some b"
  shows "entry_ok (Suc k) (Node cs)"
proof -
  have "cs ! (v div 16 ^ k) \<in> set cs"
    using assms div_pow_bound by (metis nth_mem)
  moreover have "cs ! (v div 16 ^ k) \<noteq> Leaf None"
    using assms(4) by (auto simp: alook_def)
  ultimately show ?thesis
    using assms by auto
qed

lemma new_children_props:
  "length new_children = 16" "\<forall>c \<in> set new_children. entry_ok k c"
  "v < 16 * 16 ^ k \<Longrightarrow> alook k new_children v = None"
  using div_pow_bound [of v 16 k] by (simp_all add: new_children_def N_CHILDREN_def alook_def)

definition set_range_pre ::
  "'b option \<Rightarrow> 'b entry list \<Rightarrow> nat \<Rightarrow> nat \<Rightarrow> nat \<Rightarrow> nat \<Rightarrow> nat \<Rightarrow> bool" where
  "set_range_pre block es n k i p r \<longleftrightarrow>
     (\<forall>e \<in> set es. entry_ok k e) \<and> length es = n \<and> (0 < r \<longrightarrow> i = p div 16 ^ k)
     \<and> p + r \<le> n * 16 ^ k \<and> clear_for block (alook k es) (n * 16 ^ k) p r"

abbreviation bytes :: "nat \<Rightarrow> nat" where
  "bytes u \<equiv> u * MIN_BLOCK_SIZE"

lemma MIN_BLOCK_SIZE_pos [simp]: "0 < MIN_BLOCK_SIZE" "MIN_BLOCK_SIZE \<noteq> 0"
  by (simp_all add: MIN_BLOCK_SIZE_def)

lemma bytes_mod: "bytes a mod bytes b = bytes (a mod b)"
  by (simp add: mult_mod_left)

lemma bytes_min: "min (bytes a) (bytes b) = bytes (min a b)"
  by (simp add: min_def)

lemma bytes_div: "bytes a div bytes b = a div b"
  by (simp add: div_mult_mult2)

lemma bytes_range_div: "bytes (16 * w) div N_CHILDREN = bytes w"
  by (simp add: N_CHILDREN_def mult.assoc)

lemma set_range_loop_done [simp]: "set_range_loop block os es i off 0 w = Some (0, es, os)"
  by (simp add: set_range_loop.simps)

lemma set_range_loop_full:
  "0 < w \<Longrightarrow> i < length es \<Longrightarrow> p mod w = 0 \<Longrightarrow> w \<le> r \<Longrightarrow>
   set_range_loop block os es i (bytes p) (bytes r) (bytes w) =
   set_range_loop block os (es[i := Leaf block]) (Suc i) (bytes (p + w)) (bytes (r - w)) (bytes w)"
  by (subst set_range_loop.simps)
     (simp add: bytes_mod flip: diff_mult_distrib add_mult_distrib)

lemma set_range_loop_part:
  assumes "0 < r" "0 < w" "i < length es" "\<not> (p mod (16 * w) = 0 \<and> 16 * w \<le> r)"
    "q = min r (16 * w - p mod (16 * w))"
  shows "set_range_loop block os es i (bytes p) (bytes r) (bytes (16 * w)) =
    (case check_and_allocate_range (es ! i) os of (ret, e, os1) \<Rightarrow>
        if ret \<noteq> 0 then Some (ret, es, os1) else (case e of Leaf _ \<Rightarrow> None | Node cs \<Rightarrow>
          (case set_range_loop block os1 cs (p mod (16 * w) div w) (bytes (p mod (16 * w))) (bytes q) (bytes w) of
             None \<Rightarrow> None
           | Some (ret2, cs', os2) \<Rightarrow>
               if ret2 \<noteq> 0 then Some (ret2, es[i := Node cs'], os2)
               else set_range_loop block os2
                 (es[i := if block = None then check_and_free_range cs' else Node cs'])
                 (Suc i) (bytes (p + q)) (bytes (r - q)) (bytes (16 * w)))))"
proof -
  have "\<not> (bytes p mod bytes (16 * w) = 0 \<and> bytes (16 * w) \<le> bytes r)"
    using assms(4) by (simp add: bytes_mod)
  moreover have "min (bytes r) (bytes (16 * w) - bytes (p mod (16 * w))) = bytes q"
    unfolding assms(5) diff_mult_distrib [symmetric] bytes_min ..
  ultimately show ?thesis
    using assms(1-3) by (subst set_range_loop.simps)
      (simp only: Let_def bytes_mod bytes_range_div bytes_div flip: diff_mult_distrib add_mult_distrib,
       simp)
qed

lemma in_units_bound: "i < n \<Longrightarrow> v < w \<Longrightarrow> i * w + v < n * (w::nat)"
  by (metis add.commute less_le_trans mult_Suc mult_le_mono1 nat_add_left_cancel_less Suc_leI)

text \<open>A partly covered entry is not a leaf with a block, because blocks are written as a whole.\<close>

lemma partial_entry_not_block:
  assumes "set_range_pre block es n k i p r" and "0 < r" and "i < n"
    and "\<not> (p mod 16 ^ k = 0 \<and> 16 ^ k \<le> r)"
  shows "es ! i \<noteq> Leaf (Some b)"
proof
  assume leaf: "es ! i = Leaf (Some b)"
  define w :: nat where "w = 16 ^ k"
  have w: "0 < w" and i: "i = p div w" and clear: "clear_for block (alook k es) (n * w) p r"
    using assms(1,2) by (auto simp: set_range_pre_def w_def)
  have p: "p = i * w + p mod w" and pw: "p mod w < w"
    using i w by (simp_all add: div_mult_mod_eq)
  have L: "alook k es (i * w + v) = Some b" if "v < w" for v
    using that leaf w by (simp add: alook_def w_def)
  have *: "p \<le> i * w + v \<and> i * w + v < p + r" if "v < w" for v
  proof -
    have "p < n * w" "alook k es p = Some b" "p < p + r"
      using L [OF pw] p in_units_bound [OF assms(3) pw] assms(2) by simp_all
    with clear L [OF that] in_units_bound [OF assms(3) that] show ?thesis
      unfolding clear_for_def by blast
  qed
  from * [of 0] * [of "w - 1"] w p have "p mod w = 0" "w \<le> r"
    by auto
  with assms(4) show False
    by (simp add: w_def)
qed

lemma set_range_post_error:
  "ret \<noteq> 0 \<Longrightarrow> length es' = n \<Longrightarrow> \<not> quiet os (alook k es) p r \<Longrightarrow>
   set_range_post block es n k p r os (Some (ret, es', os'))"
  by (simp add: set_range_post_def)

text \<open>The array below an entry that is covered in part: its own, or a fresh one.\<close>

lemma check_and_allocate_range_cases:
  assumes "entry_ok (Suc k) e" and "\<And>b. e \<noteq> Leaf (Some b)"
  obtains (error) os1 where "check_and_allocate_range e os = (1, e, os1)" "os \<noteq> []" "e = Leaf None"
  | (node) cs os1 where "check_and_allocate_range e os = (0, Node cs, os1)" "os = [] \<or> e \<noteq> Leaf None \<Longrightarrow> os1 = os"
      "length cs = 16" "\<forall>c \<in> set cs. entry_ok k c"
      "\<And>v. v < 16 * 16 ^ k \<Longrightarrow> alook k cs v = look (Suc k) e v"
proof (cases e)
  case (Leaf x)
  with assms(2) have e: "e = Leaf None" by (cases x) auto
  show thesis
  proof (cases os)
    case Nil
    then show thesis
      using e new_children_props
      by (intro node [of new_children "[]"]) (simp_all add: check_and_allocate_range_def pf_calloc_def)
  next
    case (Cons a os')
    show thesis
    proof (cases a)
      case True
      with Cons e new_children_props show thesis
        by (intro node [of new_children os']) (simp_all add: check_and_allocate_range_def pf_calloc_def)
    next
      case False
      with Cons e error [of os'] show thesis
        by (simp add: check_and_allocate_range_def pf_calloc_def)
    qed
  qed
next
  case (Node cs)
  with assms(1) show thesis
    by (intro node [of cs os]) (simp_all add: check_and_allocate_range_def)
qed

text \<open>The state of the loop after an entry has been written, whatever it was replaced by.\<close>

lemma set_range_pre_next:
  assumes pre: "set_range_pre block es n k i p r" and "0 < r" and w: "w = 16 ^ k"
    and q: "q = min r (w - p mod w)" and "entry_ok k e"
    and e: "\<And>v. v < w \<Longrightarrow>
      look k e v = (if p mod w \<le> v \<and> v < p mod w + q then block else look k (es ! i) v)"
  shows "set_range_pre block (es[i := e]) n k (Suc i) (p + q) (r - q)"
    and "alook k (es[i := e]) u = (if p \<le> u \<and> u < p + q then block else alook k es u)"
proof -
  have i: "i = p div w" "i < length es" and len: "length es = n" and pr: "p + r \<le> n * w"
    and clear: "clear_for block (alook k es) (n * w) p r"
    using pre assms(2) div_pow_bound [of p n k] by (auto simp: set_range_pre_def w)
  note upd = alook_write_child [OF i(2) w i(1) q assms(2) e]
  then show "alook k (es[i := e]) u = (if p \<le> u \<and> u < p + q then block else alook k es u)" .
  have "Suc i = (p + q) div w" if "q < r"
  proof -
    have pw: "p mod w < w" by (simp add: w)
    have "q = w - p mod w"
      using that by (simp add: q min_def split: if_splits)
    then have "p + q = Suc i * w"
      using pw div_mult_mod_eq [of p w, folded i(1)] mult_Suc [of i w] by linarith
    then show ?thesis by (simp add: w)
  qed
  then show "set_range_pre block (es[i := e]) n k (Suc i) (p + q) (r - q)"
    using pre assms(5) len pr clear_for_step [OF clear _ upd] q
    by (auto simp: set_range_pre_def w dest!: set_update_subset_insert [THEN subsetD])
qed

text \<open>The state of the recursive call for an entry that is covered in part.\<close>

lemma set_range_pre_sub:
  assumes pre: "set_range_pre block es n (Suc k) i p r" and "0 < r" and w: "w = 16 ^ Suc k"
    and "length cs = 16" and "\<forall>c \<in> set cs. entry_ok k c"
    and cs: "\<And>v. v < w \<Longrightarrow> alook k cs v = look (Suc k) (es ! i) v"
  shows "set_range_pre block cs 16 k (p mod w div 16 ^ k) (p mod w) (min r (w - p mod w))"
proof -
  have i: "i = p div w" "i < n" and clear: "clear_for block (alook (Suc k) es) (n * w) p r"
    using pre assms(2) div_pow_bound [of p n "Suc k"] by (auto simp: set_range_pre_def w)
  have w0: "0 < w" by (simp add: w)
  have "alook k cs v = alook (Suc k) es (i * w + v)" if "v < w" for v
    using that cs w0 unfolding alook_def [of "Suc k"] w [symmetric] by simp
  moreover have "(i + 1) * w \<le> n * w"
    using i(2) by (intro mult_le_mono1) simp
  ultimately have "clear_for block (alook k cs) w (p mod w) (min r (w - p mod w))"
    using clear_for_sub [OF clear _ i(1) w0 assms(2)] by blast
  moreover have "p mod w + min r (w - p mod w) \<le> w"
    using mod_less_divisor [OF w0, of p] by linarith
  ultimately show ?thesis
    using assms(4,5) by (simp add: set_range_pre_def w)
qed

lemma quiet_sub:
  assumes pre: "set_range_pre block es n (Suc k) i p r" and "0 < r" and w: "w = 16 ^ Suc k"
    and "quiet os (alook (Suc k) es) p r"
  shows "os = [] \<or> es ! i \<noteq> Leaf None"
    and "(\<And>v. v < w \<Longrightarrow> alook k cs v = look (Suc k) (es ! i) v) \<Longrightarrow>
      quiet os (alook k cs) (p mod w) (min r (w - p mod w))"
proof -
  have i: "i = p div w" using pre assms(2) by (simp add: set_range_pre_def w)
  have w0: "0 < w" and pw: "p mod w < w" by (simp_all add: w)
  have p: "p = i * w + p mod w" by (simp add: i)
  have L: "look (Suc k) (es ! i) v = alook (Suc k) es (i * w + v)" if "v < w" for v
    using that w0 unfolding alook_def [of "Suc k"] w [symmetric] by simp
  have Q: "os = [] \<or> look (Suc k) (es ! i) v \<noteq> None" if "p mod w \<le> v" "v < w" "v < p mod w + r" for v
    using that assms(4) p unfolding quiet_def L [OF that(2)]
    by (metis add.assoc nat_add_left_cancel_le nat_add_left_cancel_less)
  from Q [of "p mod w"] pw assms(2) show "os = [] \<or> es ! i \<noteq> Leaf None"
    by auto
  show "quiet os (alook k cs) (p mod w) (min r (w - p mod w))"
    if "\<And>v. v < w \<Longrightarrow> alook k cs v = look (Suc k) (es ! i) v"
    using Q that by (auto simp: quiet_def)
qed

lemma set_range_written_entry:
  assumes "length cs' = 16" and "\<forall>c \<in> set cs'. entry_ok k c" and "v0 < 16 * 16 ^ k"
    and "alook k cs' v0 = block"
    and "e = (if block = None then check_and_free_range cs' else Node cs')"
  shows "entry_ok (Suc k) e" and "v < 16 * 16 ^ k \<Longrightarrow> look (Suc k) e v = alook k cs' v"
  using assms entry_ok_Node_written [OF assms(1-3)]
  by (cases block; simp add: entry_ok_check_and_free_range look_check_and_free_range)+

lemma set_range_loop_part_correct:
  fixes block :: "'b option"
  assumes sub: "\<And>(es :: 'b entry list) n i p r os. set_range_pre block es n k i p r \<Longrightarrow>
      set_range_post block es n k p r os
        (set_range_loop block os es i (bytes p) (bytes r) (bytes (16 ^ k)))"
    and rest: "\<And>es i p r' os. r' < r \<Longrightarrow> set_range_pre block es n (Suc k) i p r' \<Longrightarrow>
      set_range_post block es n (Suc k) p r' os
        (set_range_loop block os es i (bytes p) (bytes r') (bytes (16 ^ Suc k)))"
    and pre: "set_range_pre block es n (Suc k) i p r" and r: "0 < r"
    and part: "\<not> (p mod 16 ^ Suc k = 0 \<and> 16 ^ Suc k \<le> r)"
  shows "set_range_post block es n (Suc k) p r os
    (set_range_loop block os es i (bytes p) (bytes r) (bytes (16 ^ Suc k)))"
proof -
  define w :: nat where "w = 16 ^ Suc k"
  define q where "q = min r (w - p mod w)"
  have w: "w = 16 * 16 ^ k" and pw: "p mod w < w" and q: "0 < q" "q \<le> r"
    using r by (simp_all add: w_def q_def)
  have i: "i < n" and len: "length es = n" and ok: "entry_ok (Suc k) (es ! i)"
    and pr: "p + r \<le> n * 16 ^ Suc k"
    using pre r div_pow_bound [of p n "Suc k"] by (auto simp: set_range_pre_def)
  note loop = set_range_loop_part [OF r _ i [folded len] part [folded w_def, unfolded w]
      q_def [unfolded w], of block os, folded w, simplified]
  note noalloc = quiet_sub [OF pre r w_def, of os, folded q_def]
  from ok partial_entry_not_block [OF pre r i part] show ?thesis
  proof (cases rule: check_and_allocate_range_cases [where os = os])
    case (error os1)
    then show ?thesis
      using loop noalloc(1) by (auto simp: len intro!: set_range_post_error simp flip: w)
  next
    case (node cs os1)
    from sub [OF set_range_pre_sub [OF pre r w_def node(3,4)], of os1] node(5)
    obtain ret2 cs' os2 where
      run: "set_range_loop block os1 cs (p mod w div 16 ^ k) (bytes (p mod w)) (bytes q) (bytes (16 ^ k))
        = Some (ret2, cs', os2)"
      and cs': "length cs' = 16" "quiet os1 (alook k cs) (p mod w) q \<Longrightarrow> ret2 = 0 \<and> os2 = os1"
        "ret2 = 0 \<Longrightarrow> \<forall>c \<in> set cs'. entry_ok k c"
        "ret2 = 0 \<Longrightarrow> v < w \<Longrightarrow> alook k cs' v =
          (if p mod w \<le> v \<and> v < p mod w + q then block else alook k cs v)" for v
      by (auto simp: set_range_post_def q_def w)
    have quiet: "ret2 = 0 \<and> os2 = os" if "quiet os (alook (Suc k) es) p r"
      using noalloc(1) [OF that] noalloc(2) [OF that, of cs] node(2,5) cs'(2) by (simp add: w)
    show ?thesis
    proof (cases "ret2 = 0")
      case False
      with loop node(1) run quiet show ?thesis
        by (auto simp: len intro!: set_range_post_error simp flip: w)
    next
      case True
      define e where "e = (if block = None then check_and_free_range cs' else Node cs')"
      have "alook k cs' (p mod w) = block"
        using cs'(4) [OF True pw] q by simp
      note e = set_range_written_entry [OF cs'(1) cs'(3) [OF True] pw [unfolded w] this [unfolded w] e_def]
      have "look (Suc k) e v =
          (if p mod w \<le> v \<and> v < p mod w + q then block else look (Suc k) (es ! i) v)" if "v < w" for v
        using that e(2) cs'(4) [OF True] node(5) by (simp add: w)
      note next_pre = set_range_pre_next [OF pre r w_def q_def e(1) this]
      show ?thesis
        using set_range_post_step [OF rest [OF _ next_pre(1), of os2] q(2) _ pr next_pre(2), of os]
          loop node(1) run True quiet q by (simp add: e_def flip: w)
    qed
  qed
qed

lemma set_range_loop_correct:
  "set_range_pre block es n k i p r \<Longrightarrow> set_range_post block es n k p r os
    (set_range_loop block os es i (bytes p) (bytes r) (bytes (16 ^ k)))"
proof (induction k arbitrary: es n i p r os rule: less_induct)
  case outer: (less k)
  from outer.prems show ?case
  proof (induction r arbitrary: es i p os rule: less_induct)
    case (less r)
    then have i: "0 < r \<longrightarrow> i < length es"
      using div_pow_bound [of p n k] by (auto simp: set_range_pre_def)
    consider (empty) "r = 0" | (full) "0 < r" "p mod 16 ^ k = 0" "16 ^ k \<le> r"
      | (part) k' where "0 < r" "k = Suc k'" "\<not> (p mod 16 ^ k = 0 \<and> 16 ^ k \<le> r)"
      by (cases k) auto
    then show ?case
    proof cases
      case empty
      with less.prems show ?thesis
        by (auto simp: set_range_post_def set_range_pre_def)
    next
      case full
      then have q: "16 ^ k = min r (16 ^ k - p mod 16 ^ k)" by simp
      note next_pre = set_range_pre_next [OF less.prems full(1) refl q, of "Leaf block"]
      have "r - 16 ^ k < r" "0 < (16 :: nat) ^ k" "i < length es" "entry_ok k (Leaf block)"
        "\<And>v. v < 16 ^ k \<Longrightarrow> look k (Leaf block) v = (if p mod 16 ^ k \<le> v \<and> v < p mod 16 ^ k + 16 ^ k
           then block else look k (es ! i) v)"
        using full i by simp_all
      note * = this and next_pre = next_pre [OF this(4,5)]
      show ?thesis
        unfolding set_range_loop_full [OF *(2,3) full(2,3)]
        by (rule set_range_post_step [OF less.IH [OF *(1) next_pre(1)] full(3) refl _ next_pre(2)])
           (use less.prems in \<open>simp_all add: set_range_pre_def\<close>)
    next
      case (part k')
      note outer.IH [OF lessI [of k', folded part(2)]] less.IH [unfolded part(2)] less.prems [unfolded part(2)]
      from set_range_loop_part_correct [OF this part(1) part(3) [unfolded part(2)]] show ?thesis
        by (simp only: part(2))
    qed
  qed
qed

section \<open>The whole map\<close>

definition om_depth :: "'b offset_map \<Rightarrow> nat" where
  "om_depth m = (range_length_bits m - MIN_BLOCK_BITS) div N_CHILDREN_POW"

definition om_ok :: "'b offset_map \<Rightarrow> bool" where
  "om_ok m \<longleftrightarrow> range_length_bits m = MIN_BLOCK_BITS + N_CHILDREN_POW * om_depth m \<and> om_depth m \<le> 13
     \<and> entry_ok (om_depth m) (om_entry m) \<and> (\<forall>b. om_entry m \<noteq> Leaf (Some b))"

definition om_look :: "'b offset_map \<Rightarrow> nat \<Rightarrow> 'b option" where
  "om_look m u = (if u < 16 ^ om_depth m then look (om_depth m) (om_entry m) u else None)"

lemma power_bits: "2 ^ (MIN_BLOCK_BITS + N_CHILDREN_POW * k) = bytes (16 ^ k)"
  by (simp add: MIN_BLOCK_BITS_def N_CHILDREN_POW_def MIN_BLOCK_SIZE_def power_add power_mult)

lemma om_depth_update [simp]: "om_depth (m\<lparr>om_entry := e\<rparr>) = om_depth m"
  by (simp add: om_depth_def)

lemma om_depth_bits:
  "range_length_bits m = MIN_BLOCK_BITS + N_CHILDREN_POW * k \<Longrightarrow> om_depth m = k"
  by (simp add: om_depth_def N_CHILDREN_POW_def)

lemma om_okI:
  assumes "range_length_bits m = MIN_BLOCK_BITS + N_CHILDREN_POW * k" "k \<le> 13"
    "entry_ok k (om_entry m)" "\<And>b. om_entry m \<noteq> Leaf (Some b)"
  shows "om_ok m"
  using assms om_depth_bits [OF assms(1)] by (simp add: om_ok_def)

lemma offset_map_new_ok:
  "offset_map_new [] = Some (m, os) \<Longrightarrow> om_ok m \<and> om_look m u = None"
  by (auto simp: offset_map_new_def pf_calloc_def om_ok_def om_look_def om_depth_def)

lemma look_new_level:
  assumes "entry_ok k e" "u < 16 * 16 ^ k"
  shows "alook k (new_children[0 := e]) u = (if u < 16 ^ k then look k e u else None)"
proof (cases "u < 16 ^ k")
  case True
  then show ?thesis by (simp add: alook_def new_children_props)
next
  case False
  then have "u div 16 ^ k \<noteq> 0" by (simp add: div_eq_0_iff)
  then show ?thesis
    using False assms(2) by (auto simp: alook_update new_children_props)
qed

lemma add_new_level_ok:
  assumes "om_ok m" "om_depth m \<le> 12" "add_new_level m os = (ret, m', os')"
  shows "ret = 0 \<Longrightarrow> om_ok m' \<and> om_depth m' = Suc (om_depth m) \<and> om_look m' = om_look m"
    and "os = [] \<Longrightarrow> ret = 0 \<and> os' = []"
proof -
  define k where "k = om_depth m"
  have bits: "range_length_bits m = MIN_BLOCK_BITS + N_CHILDREN_POW * k" and k: "k \<le> 12"
    and e: "entry_ok k (om_entry m)" "\<And>b. om_entry m \<noteq> Leaf (Some b)"
    using assms(1,2) by (simp_all add: om_ok_def k_def)
  have b64: "\<not> 64 < range_length_bits m"
    using bits k by (simp add: MIN_BLOCK_BITS_def N_CHILDREN_POW_def)
  have bits': "range_length_bits m' = MIN_BLOCK_BITS + N_CHILDREN_POW * Suc k" if "ret = 0"
    using add_new_level_bits [of m os m' os'] assms(3) that bits by (simp add: N_CHILDREN_POW_def)
  show "os = [] \<Longrightarrow> ret = 0 \<and> os' = []"
    using assms(3) b64 by (auto simp: add_new_level_def Let_def pf_calloc_def split: if_splits)
  show "om_ok m' \<and> om_depth m' = Suc (om_depth m) \<and> om_look m' = om_look m" if "ret = 0"
  proof (cases "om_entry m = Leaf None")
    case True
    then have "om_entry m' = Leaf None"
      using assms(3) b64 by (auto simp: add_new_level_def Let_def)
    then show ?thesis
      using True bits' [OF that] k om_depth_bits [OF bits' [OF that]]
      by (auto simp: om_ok_def om_look_def k_def)
  next
    case False
    then have e': "om_entry m' = Node (new_children[0 := om_entry m])"
      using assms(3) b64 that by (auto simp: add_new_level_def Let_def split: if_splits prod.splits)
    have "entry_ok (Suc k) (om_entry m')"
      unfolding e' using e False new_children_props
      by (auto dest!: set_update_subset_insert [THEN subsetD] simp: set_update_memI)
    then show ?thesis
      using look_new_level [OF e(1)] e' bits' [OF that] k om_depth_bits [OF bits' [OF that]]
      by (auto simp: om_ok_def om_look_def fun_eq_iff k_def)
  qed
qed

lemma range_bytes_bound: "k \<le> 12 \<Longrightarrow> bytes (16 ^ k) < W64" "bytes (16 ^ 13) = 4 * W64"
proof -
  assume "k \<le> 12"
  then have "bytes (16 ^ k) \<le> bytes (16 ^ 12)"
    by (intro mult_le_mono1 power_increasing) simp_all
  also have "\<dots> < W64" by (simp add: MIN_BLOCK_SIZE_def W64_def)
  finally show "bytes (16 ^ k) < W64" .
qed (simp add: MIN_BLOCK_SIZE_def W64_def)

lemma om_bits_less_64: "om_ok m \<Longrightarrow> range_length_bits m < 64 \<longleftrightarrow> om_depth m \<le> 12"
  by (auto simp: om_ok_def MIN_BLOCK_BITS_def N_CHILDREN_POW_def)

lemma om_capacity:
  assumes "om_ok m" "om_depth m \<le> 12"
  shows "add64 (max_map_offset m) MIN_BLOCK_SIZE = bytes (16 ^ om_depth m)"
proof -
  have "max_map_offset m = bytes (16 ^ om_depth m) - MIN_BLOCK_SIZE"
    using assms om_bits_less_64 [OF assms(1)] power_bits [of "om_depth m"]
    by (simp add: max_map_offset_def om_ok_def)
  then show ?thesis
    using range_bytes_bound(1) [OF assms(2)] by (simp add: add64_def)
qed

lemma grow_ok:
  assumes "om_ok m" "e < W64" "grow m e os = (ret, m', os')"
  shows "(ret = 0 \<longrightarrow> om_ok m' \<and> om_look m' = om_look m \<and> e < bytes (16 ^ om_depth m'))
    \<and> (os = [] \<longrightarrow> ret = 0 \<and> os' = [])"
  using assms
proof (induction m e os rule: grow.induct)
  case (1 m e os)
  show ?case
  proof (cases "om_depth m \<le> 12 \<and> bytes (16 ^ om_depth m) \<le> e")
    case True
    then have cond: "range_length_bits m < 64 \<and> add64 (max_map_offset m) MIN_BLOCK_SIZE \<le> e"
      using 1(2) by (simp add: om_bits_less_64 om_capacity)
    obtain r1 m1 os1 where step: "add_new_level m os = (r1, m1, os1)"
      by (metis prod_cases3)
    note lvl = add_new_level_ok [OF 1(2) _ step]
    show ?thesis
    proof (cases "r1 = 0")
      case r1: True
      have "grow m1 e os1 = (ret, m', os')"
        using 1(4) cond step r1 by (subst (asm) grow.simps) simp
      then show ?thesis
        using 1(1) [OF cond step [symmetric] refl] r1 lvl True 1(3) by auto
    next
      case False
      then show ?thesis
        using 1(4) cond step lvl True by (subst (asm) grow.simps) auto
    qed
  next
    case False
    then have "\<not> (range_length_bits m < 64 \<and> add64 (max_map_offset m) MIN_BLOCK_SIZE \<le> e)"
      using 1(2) by (auto simp: om_bits_less_64 om_capacity)
    then have m': "ret = 0" "m' = m" "os' = os"
      using 1(4) by (auto simp: grow.simps)
    have "e < bytes (16 ^ om_depth m)"
    proof (cases "om_depth m \<le> 12")
      case False
      then have "om_depth m = 13" using 1(2) by (simp add: om_ok_def)
      then show ?thesis using range_bytes_bound(2) 1(3) by simp
    qed (use \<open>\<not> (om_depth m \<le> 12 \<and> _)\<close> in simp)
    with m' 1(2) show ?thesis by simp
  qed
qed

text \<open>\<open>write_units L p r b\<close>: the function \<open>L\<close> with the units \<open>p ..< p + r\<close> set to \<open>b\<close>.\<close>

definition write_units :: "(nat \<Rightarrow> 'b option) \<Rightarrow> nat \<Rightarrow> nat \<Rightarrow> 'b option \<Rightarrow> nat \<Rightarrow> 'b option" where
  "write_units L p r b u = (if p \<le> u \<and> u < p + r then b else L u)"

text \<open>The root array written by \<^verbatim>\<open>insert_block\<close> and \<^verbatim>\<open>remove_block\<close>.\<close>

lemma clear_for_cong:
  "(\<And>u. u < n \<Longrightarrow> L u = L' u) \<Longrightarrow> clear_for block L n p r \<longleftrightarrow> clear_for block L' n p r"
  unfolding clear_for_def by (metis (no_types))

lemma set_range_root:
  assumes "length cs = 16" "\<forall>c \<in> set cs. entry_ok k c" "p + r \<le> 16 ^ Suc k"
    and L: "\<And>u. u < 16 ^ Suc k \<Longrightarrow> alook k cs u = L u"
    and clear: "clear_for block L (16 ^ Suc k) p r"
    and bits: "bits = MIN_BLOCK_BITS + N_CHILDREN_POW * Suc k"
  obtains ret cs' os' where
    "set_range block os cs (bytes p) (bytes r) (2 ^ (bits - N_CHILDREN_POW)) = Some (ret, cs', os')"
    "length cs' = 16" "quiet os L p r \<Longrightarrow> ret = 0 \<and> os' = os"
    "ret = 0 \<Longrightarrow> \<forall>c \<in> set cs'. entry_ok k c"
    "\<And>u. ret = 0 \<Longrightarrow> u < 16 ^ Suc k \<Longrightarrow> alook k cs' u = write_units L p r block u"
proof -
  have "clear_for block (alook k cs) (16 ^ Suc k) p r"
    using clear clear_for_cong [OF L, of "16 ^ Suc k"] by simp
  then have "set_range_pre block cs 16 k (p div 16 ^ k) p r"
    using assms(1-3) by (simp add: set_range_pre_def)
  from set_range_loop_correct [OF this, of os]
  have "set_range_post block cs 16 k p r os
      (set_range block os cs (bytes p) (bytes r) (2 ^ (bits - N_CHILDREN_POW)))"
    by (simp add: set_range_def power_bits bytes_div bits)
  then obtain ret cs' os' where run:
    "set_range block os cs (bytes p) (bytes r) (2 ^ (bits - N_CHILDREN_POW)) = Some (ret, cs', os')"
    "length cs' = 16" "quiet os (alook k cs) p r \<longrightarrow> ret = 0 \<and> os' = os"
    "ret = 0 \<longrightarrow> (\<forall>c \<in> set cs'. entry_ok k c) \<and> (\<forall>u < 16 * 16 ^ k.
      alook k cs' u = (if p \<le> u \<and> u < p + r then block else alook k cs u))"
    unfolding set_range_post_def by blast
  have "quiet os (alook k cs) p r" if "quiet os L p r"
    using that L assms(3) unfolding quiet_def by (metis less_le_trans)
  with run(3) have "quiet os L p r \<Longrightarrow> ret = 0 \<and> os' = os" by blast
  then show thesis
    by (rule that [OF run(1,2)]) (use run(4) L in \<open>simp_all add: write_units_def\<close>)
qed

lemma om_look_array:
  "om_entry m = Node cs \<Longrightarrow> om_depth m = Suc k \<Longrightarrow> u < 16 ^ Suc k \<Longrightarrow> om_look m u = alook k cs u"
  by (simp add: om_look_def)

lemma om_written:
  assumes "om_ok m" "om_depth m = Suc k" "p + r \<le> 16 ^ Suc k"
    "\<And>u. u < 16 ^ Suc k \<Longrightarrow> look (Suc k) e u = write_units (om_look m) p r b u"
    "entry_ok (Suc k) e" "\<And>b. e \<noteq> Leaf (Some b)"
  shows "om_ok (m\<lparr>om_entry := e\<rparr>) \<and> om_look (m\<lparr>om_entry := e\<rparr>) = write_units (om_look m) p r b"
proof -
  have "om_look (m\<lparr>om_entry := e\<rparr>) u = write_units (om_look m) p r b u" for u
    using assms(2-4) by (simp add: om_look_def [of "m\<lparr>om_entry := e\<rparr>"])
      (auto simp: write_units_def om_look_def)
  with assms show ?thesis by (auto simp: om_ok_def)
qed

lemma insert_block_run:
  assumes m: "om_ok m" and r: "0 < r" and "bytes (p + r) < W64"
    and free: "\<And>u. p \<le> u \<Longrightarrow> u < p + r \<Longrightarrow> om_look m u = None"
  shows "case insert_block m b (bytes p) (bytes r) os of
      None \<Rightarrow> os \<noteq> []
    | Some (ret, m', os') \<Rightarrow>
        (ret = 0 \<longrightarrow> om_ok m' \<and> om_look m' = write_units (om_look m) p r (Some b))
        \<and> (os = [] \<longrightarrow> ret = 0 \<and> os' = [])"
proof -
  obtain r1 m1 os1 where g: "grow m (bytes (p + r)) os = (r1, m1, os1)"
    by (metis prod_cases3)
  have e: "add64 (bytes p) (bytes r) = bytes (p + r)"
    using assms(3) by (simp add: add64_exact add_mult_distrib)
  note grown = grow_ok [OF m assms(3) g]
  show ?thesis
  proof (cases "r1 = 0")
    case False
    with g e grown show ?thesis by (simp add: insert_block_def)
  next
    case True
    with grown have m1: "om_ok m1" "om_look m1 = om_look m" "bytes (p + r) < bytes (16 ^ om_depth m1)"
      and os1: "os = [] \<longrightarrow> os1 = []" by auto
    from m1(3) r obtain k where k: "om_depth m1 = Suc k" and pr: "p + r \<le> 16 ^ Suc k"
      by (cases "om_depth m1") auto
    have bits: "range_length_bits m1 = MIN_BLOCK_BITS + N_CHILDREN_POW * Suc k"
      and ok: "entry_ok (Suc k) (om_entry m1)" "\<And>b. om_entry m1 \<noteq> Leaf (Some b)"
      using m1(1) k by (simp_all add: om_ok_def)
    from ok show ?thesis
    proof (cases rule: check_and_allocate_range_cases [where os = os1])
      case (error os2)
      with g e True os1 show ?thesis by (simp add: insert_block_def)
    next
      case (node cs os2)
      have L: "alook k cs u = om_look m u" if "u < 16 ^ Suc k" for u
        using node(5) [of u] that k unfolding m1(2) [symmetric] by (simp add: om_look_def)
      have clear: "clear_for (Some b) (om_look m) (16 ^ Suc k) p r"
        using free by (auto simp: clear_for_def)
      show ?thesis
      proof (rule set_range_root [OF node(3,4) pr L clear bits, where os = os2])
        fix ret cs' os3
        assume run: "set_range (Some b) os2 cs (bytes p) (bytes r)
            (2 ^ (range_length_bits m1 - N_CHILDREN_POW)) = Some (ret, cs', os3)"
          and cs': "length cs' = 16" "quiet os2 (om_look m) p r \<Longrightarrow> ret = 0 \<and> os3 = os2"
          "ret = 0 \<Longrightarrow> \<forall>c \<in> set cs'. entry_ok k c"
          "\<And>u. ret = 0 \<Longrightarrow> u < 16 ^ Suc k \<Longrightarrow> alook k cs' u = write_units (om_look m) p r (Some b) u"
        have "om_ok (m1\<lparr>om_entry := Node cs'\<rparr>) \<and>
            om_look (m1\<lparr>om_entry := Node cs'\<rparr>) = write_units (om_look m1) p r (Some b)" if "ret = 0"
        proof (rule om_written [OF m1(1) k pr])
          have "p < 16 * 16 ^ k" using r pr by simp
          moreover have "alook k cs' p = Some b"
            using cs'(4) that r pr by (simp add: write_units_def)
          ultimately show "entry_ok (Suc k) (Node cs')"
            by (rule entry_ok_Node_written [OF cs'(1) cs'(3) [OF that]])
        qed (use cs'(4) that m1(2) in simp_all)
        moreover have "ret = 0 \<and> os3 = []" if "os = []"
          using that os1 node(2) cs'(2) by (simp add: quiet_def)
        moreover have "insert_block m b (bytes p) (bytes r) os =
            Some (ret, m1\<lparr>om_entry := Node cs'\<rparr>, os3)"
          using g e True node(1) run by (simp add: insert_block_def)
        ultimately show ?thesis
          using m1(2) by simp
      qed
    qed
  qed
qed

lemma look_only_first_child:
  assumes "length rest = 15" "\<forall>c \<in> set rest. c = Leaf None" "u < 16 ^ Suc k"
  shows "alook k (e # rest) u = (if u < 16 ^ k then look k e u else None)"
proof (cases "u < 16 ^ k")
  case True
  then show ?thesis by (simp add: alook_def)
next
  case False
  then obtain j where j: "u div 16 ^ k = Suc j"
    by (metis div_eq_0_iff not0_implies_Suc power_not_zero zero_neq_numeral)
  moreover have "u div 16 ^ k < 16"
    using assms(3) by (intro div_pow_bound) simp
  ultimately have "rest ! j = Leaf None"
    using assms(1,2) by simp
  then show ?thesis
    using False j by (simp add: alook_def)
qed

lemma shrink_ok:
  "om_ok m \<Longrightarrow> om_ok (shrink m) \<and> om_look (shrink m) = om_look m"
proof (induction m rule: shrink.induct)
  case (1 m)
  define k where "k = om_depth m"
  have bits: "range_length_bits m = MIN_BLOCK_BITS + N_CHILDREN_POW * k"
    and k: "k \<le> 13" and e: "entry_ok k (om_entry m)" "\<And>b. om_entry m \<noteq> Leaf (Some b)"
    using 1(2) by (auto simp: om_ok_def k_def)
  show ?case
  proof (cases "om_entry m")
    case (Leaf x)
    then have "om_entry m = Leaf None" using e by (cases x) auto
    then show ?thesis
      using 1(2) by (auto simp: shrink.simps [of m] om_ok_def om_look_def om_depth_def)
  next
    case (Node cs)
    then obtain k1 where k1: "k = Suc k1" "length cs = 16" "\<forall>c \<in> set cs. entry_ok k1 c"
      using e by (cases k) auto
    show ?thesis
    proof (cases "\<exists>gs rest. cs = Node gs # rest \<and> (\<forall>c \<in> set rest. c = Leaf None)")
      case False
      then have "shrink m = m"
        using Node by (auto simp: shrink.simps [of m] split: list.splits entry.splits)
      with 1(2) show ?thesis by simp
    next
      case True
      then obtain gs rest where cs: "cs = Node gs # rest" "\<forall>c \<in> set rest. c = Leaf None" by blast
      define m1 where "m1 = m\<lparr>om_entry := Node gs, range_length_bits := range_length_bits m - N_CHILDREN_POW\<rparr>"
      have bits1: "range_length_bits m1 = MIN_BLOCK_BITS + N_CHILDREN_POW * k1" and e1: "om_entry m1 = Node gs"
        by (simp_all add: m1_def bits k1)
      have depth: "om_depth m1 = k1" by (rule om_depth_bits [OF bits1])
      have ok1: "om_ok m1"
        using k1 k cs by (intro om_okI [OF bits1]) (simp_all add: e1)
      have "om_look m1 = om_look m"
        using look_only_first_child [OF _ cs(2), of _ k1 "Node gs"] k1(2) cs(1) k1(1)
        by (auto simp: om_look_def fun_eq_iff depth e1 Node simp flip: k_def)
      moreover have cond: "MIN_BLOCK_BITS < range_length_bits m"
        using bits k1 by (simp add: N_CHILDREN_POW_def)
      moreover have "shrink m = shrink m1"
        using Node cs cond by (subst shrink.simps) (simp add: m1_def)
      ultimately show ?thesis
        using 1(1) [OF cond Node cs(1) refl cs(2), folded m1_def, OF ok1] by simp
    qed
  qed
qed

text \<open>
  A block is removed as it was inserted: all its units, and no unit of another block. Then no
  allocation is made, so \<^verbatim>\<open>remove_block\<close> does not fail.
\<close>

lemma remove_block_run:
  assumes m: "om_ok m" and r: "0 < r"
    and b: "\<And>u. om_look m u = Some b \<longleftrightarrow> p \<le> u \<and> u < p + r"
  shows "\<exists>m'. remove_block m (bytes p) (bytes r) os = Some (0, m', os)
    \<and> om_ok m' \<and> om_look m' = write_units (om_look m) p r None"
proof -
  have b': "om_look m p = Some b" "om_look m (p + r - 1) = Some b" using b r by auto
  then have pr: "p + r \<le> 16 ^ om_depth m"
    using r by (auto simp: om_look_def split: if_splits)
  obtain cs where cs: "om_entry m = Node cs"
    using m b'(1) by (cases "om_entry m"; cases "om_depth m") (auto simp: om_ok_def om_look_def split: if_splits)
  then obtain k where k: "om_depth m = Suc k" "length cs = 16" "\<forall>c \<in> set cs. entry_ok k c"
    using m by (cases "om_depth m") (auto simp: om_ok_def)
  have bits: "range_length_bits m = MIN_BLOCK_BITS + N_CHILDREN_POW * Suc k"
    using m k by (simp add: om_ok_def)
  have clear: "clear_for None (om_look m) (16 ^ Suc k) p r"
    using b unfolding clear_for_def by (metis option.inject)
  have L: "alook k cs u = om_look m u" if "u < 16 ^ Suc k" for u
    using that by (simp add: om_look_array [OF cs k(1)])
  have quiet: "quiet os (om_look m) p r"
    unfolding quiet_def by (metis b option.distinct(1))
  show ?thesis
  proof (rule set_range_root [OF k(2,3) pr [unfolded k(1)] L clear bits, where os = os])
    fix ret cs' os'
    assume run: "set_range None os cs (bytes p) (bytes r) (2 ^ (range_length_bits m - N_CHILDREN_POW))
        = Some (ret, cs', os')"
      and cs': "length cs' = 16" "quiet os (om_look m) p r \<Longrightarrow> ret = 0 \<and> os' = os"
      "ret = 0 \<Longrightarrow> \<forall>c \<in> set cs'. entry_ok k c"
      "\<And>u. ret = 0 \<Longrightarrow> u < 16 ^ Suc k \<Longrightarrow> alook k cs' u = write_units (om_look m) p r None u"
    have ret: "ret = 0" "os' = os" using cs'(2) [OF quiet] by auto
    have "om_ok (m\<lparr>om_entry := check_and_free_range cs'\<rparr>) \<and>
      om_look (m\<lparr>om_entry := check_and_free_range cs'\<rparr>) = write_units (om_look m) p r None"
    proof (rule om_written [OF m k(1) pr [unfolded k(1)]])
      show "entry_ok (Suc k) (check_and_free_range cs')"
        using cs'(1) cs'(3) [OF ret(1)] by (rule entry_ok_check_and_free_range)
      show "check_and_free_range cs' \<noteq> Leaf (Some b)" for b
        by (simp add: check_and_free_range_def)
      show "look (Suc k) (check_and_free_range cs') u = write_units (om_look m) p r None u"
        if "u < 16 ^ Suc k" for u
        using that cs'(4) [OF ret(1) that] look_check_and_free_range [OF cs'(1), of u k] by simp
    qed
    moreover have "remove_block m (bytes p) (bytes r) os =
        Some (0, shrink (m\<lparr>om_entry := check_and_free_range cs'\<rparr>), os)"
      using cs run ret by (simp add: remove_block_def)
    ultimately show ?thesis
      using shrink_ok [of "m\<lparr>om_entry := check_and_free_range cs'\<rparr>"] by auto
  qed
qed

section \<open>Lookup\<close>

text \<open>\<open>closest L n\<close> is the block of the greatest unit below \<open>n\<close> that has one.\<close>

fun closest :: "(nat \<Rightarrow> 'b option) \<Rightarrow> nat \<Rightarrow> 'b option" where
  "closest L 0 = None"
| "closest L (Suc u) = (case L u of Some b \<Rightarrow> Some b | None \<Rightarrow> closest L u)"

lemma closest_append:
  "(\<And>v. v < c \<Longrightarrow> L (a + v) = L' v) \<Longrightarrow>
   closest L (a + c) = (case closest L' c of Some b \<Rightarrow> Some b | None \<Rightarrow> closest L a)"
  by (induction c) (auto split: option.splits)

lemma closest_None: "closest L n = None \<longleftrightarrow> (\<forall>u < n. L u = None)"
  by (induction n) (auto simp: less_Suc_eq split: option.splits)

lemma closest_empty [simp]: "closest (\<lambda>_. None) n = None"
  by (simp add: closest_None)

lemma closest_skip: "a \<le> c \<Longrightarrow> (\<And>v. a \<le> v \<Longrightarrow> v < c \<Longrightarrow> L v = None) \<Longrightarrow> closest L c = closest L a"
  using closest_append [of "c - a" L a "\<lambda>_. None"] by simp

lemma entry_ok_has_block:
  "entry_ok k e \<Longrightarrow> e \<noteq> Leaf None \<Longrightarrow> \<exists>v < 16 ^ k. look k e v \<noteq> None"
proof (induction k e rule: entry_ok.induct)
  case (3 k cs)
  then obtain j where j: "j < 16" "cs ! j \<noteq> Leaf None" "length cs = 16"
    by (auto simp: in_set_conv_nth)
  then obtain v where v: "v < 16 ^ k" "look k (cs ! j) v \<noteq> None"
    using 3 by (metis entry_ok.simps(3) nth_mem)
  have "j * 16 ^ k + v < 16 ^ Suc k"
    using in_units_bound [OF j(1) v(1)] by simp
  moreover have "look (Suc k) (Node cs) (j * 16 ^ k + v) \<noteq> None"
    using v by (simp add: alook_def)
  ultimately show ?case by blast
qed (auto intro: exI [of _ 0])

lemma alook_child: "v < 16 ^ k \<Longrightarrow> alook k cs (i * 16 ^ k + v) = look k (cs ! i) v"
  by (simp add: alook_def)

lemma scan_left_ok:
  "length cs = 16 \<Longrightarrow> \<forall>c \<in> set cs. entry_ok k c \<Longrightarrow> i \<le> 16 \<Longrightarrow>
   scan_left cs i = (case closest (alook k cs) (i * 16 ^ k) of Some b \<Rightarrow> Found b | None \<Rightarrow> Exhausted)"
proof (induction cs i arbitrary: k rule: scan_left.induct)
  case (2 cs i)
  then have i: "i < length cs" and ok: "entry_ok k (cs ! i)" by auto
  have step: "closest (alook k cs) (Suc i * 16 ^ k) =
      (case closest (look k (cs ! i)) (16 ^ k) of Some b \<Rightarrow> Some b | None \<Rightarrow> closest (alook k cs) (i * 16 ^ k))"
    using closest_append [of "16 ^ k" "alook k cs" "i * 16 ^ k" "look k (cs ! i)"]
    by (simp add: alook_child) (simp add: add.commute)
  show ?case
  proof (cases "cs ! i")
    case (Leaf x)
    have "closest (look k (Leaf x)) (16 ^ k) = x"
      by (cases "16 ^ k :: nat") (simp, cases x, auto simp: closest_None)
    then show ?thesis
      using Leaf i step 2 by (cases x) auto
  next
    case (Node ds)
    with ok obtain k1 where k: "k = Suc k1" "length ds = 16" "\<forall>c \<in> set ds. entry_ok k1 c"
      by (cases k) auto
    from entry_ok_has_block [OF ok] Node obtain b where b: "closest (look k (cs ! i)) (16 ^ k) = Some b"
      using closest_None [of "look k (cs ! i)" "16 ^ k"] by auto
    have "look k (cs ! i) = alook k1 ds" using Node k by (auto simp: fun_eq_iff)
    with b have "scan_left ds N_CHILDREN = Found b"
      using 2(2) [OF i Node k(2,3)] by (simp add: k N_CHILDREN_def)
    with step b Node i show ?thesis by simp
  qed
qed simp

text \<open>\<open>first L a n\<close> is the block of the lowest unit of \<open>a ..< a + n\<close> that has one.\<close>

fun first :: "(nat \<Rightarrow> 'b option) \<Rightarrow> nat \<Rightarrow> nat \<Rightarrow> 'b option" where
  "first L a 0 = None"
| "first L a (Suc n) = (case L a of Some b \<Rightarrow> Some b | None \<Rightarrow> first L (Suc a) n)"

lemma first_append:
  "first L a (c + d) = (case first L a c of Some b \<Rightarrow> Some b | None \<Rightarrow> first L (a + c) d)"
  by (induction c arbitrary: a) (auto split: option.splits)

lemma first_shift:
  "(\<And>v. v < n \<Longrightarrow> L (a + v) = L' (a' + v)) \<Longrightarrow> first L a n = first L' a' n"
proof (induction n arbitrary: a a')
  case (Suc n)
  have "first L (Suc a) n = first L' (Suc a') n"
    using Suc.prems [of "Suc _"] by (intro Suc.IH) auto
  with Suc.prems [of 0] show ?case by (simp split: option.split)
qed simp

lemma first_None: "first L a n = None \<longleftrightarrow> (\<forall>v < n. L (a + v) = None)"
  by (induction n arbitrary: a) (auto simp: less_Suc_eq_0_disj split: option.splits)

lemma first_Some:
  "first L a n = Some b \<Longrightarrow> \<exists>v < n. L (a + v) = Some b \<and> (\<forall>w < v. L (a + w) = None)"
proof (induction n arbitrary: a)
  case (Suc n)
  show ?case
  proof (cases "L a")
    case None
    with Suc obtain v where "v < n" "L (Suc a + v) = Some b" "\<forall>w < v. L (Suc a + w) = None"
      by fastforce
    with None show ?thesis
      by (intro exI [of _ "Suc v"]) (auto simp: less_Suc_eq_0_disj)
  next
    case (Some c)
    with Suc.prems show ?thesis by (intro exI [of _ 0]) auto
  qed
qed simp

lemma scan_right_ok:
  "length cs = 16 \<Longrightarrow> \<forall>c \<in> set cs. entry_ok k c \<Longrightarrow> i \<le> 16 \<Longrightarrow>
   scan_right cs i = first (alook k cs) (i * 16 ^ k) ((16 - i) * 16 ^ k)"
proof (induction cs i arbitrary: k rule: scan_right.induct)
  case (1 cs i)
  show ?case
  proof (cases "i < 16")
    case False
    with 1 show ?thesis by (simp add: scan_right.simps)
  next
    case True
    with 1 have i: "i < length cs" and ok: "entry_ok k (cs ! i)" by auto
    have "(16 - i) * 16 ^ k = 16 ^ k + (16 - Suc i) * 16 ^ k"
      using True by (metis Suc_diff_Suc mult_Suc)
    moreover have "first (alook k cs) (i * 16 ^ k) (16 ^ k) = first (look k (cs ! i)) 0 (16 ^ k)"
      by (rule first_shift) (simp add: alook_child)
    ultimately have step: "first (alook k cs) (i * 16 ^ k) ((16 - i) * 16 ^ k) =
      (case first (look k (cs ! i)) 0 (16 ^ k) of Some b \<Rightarrow> Some b
       | None \<Rightarrow> first (alook k cs) (Suc i * 16 ^ k) ((16 - Suc i) * 16 ^ k))"
      by (simp only: first_append mult_Suc add.commute [of "16 ^ k" "i * 16 ^ k"])
    show ?thesis
    proof (cases "cs ! i")
      case (Leaf x)
      have "first (look k (Leaf x)) 0 (16 ^ k) = x"
        by (cases "16 ^ k :: nat") (simp, cases x, auto simp: first_None)
      then show ?thesis
        using Leaf i step 1 True by (cases x) (simp_all add: scan_right.simps [of cs i])
    next
      case (Node ds)
      with ok obtain k1 where k: "k = Suc k1" "length ds = 16" "\<forall>c \<in> set ds. entry_ok k1 c"
        by (cases k) auto
      from entry_ok_has_block [OF ok] Node obtain b where b: "first (look k (cs ! i)) 0 (16 ^ k) = Some b"
        using first_None [of "look k (cs ! i)" 0 "16 ^ k"] by auto
      have "look k (cs ! i) = alook k1 ds" using Node k by (auto simp: fun_eq_iff)
      with b have "scan_right ds 0 = Some b"
        using 1(2) [OF i Node k(2,3)] by (simp add: k)
      with step b Node i show ?thesis by (simp add: scan_right.simps [of cs i])
    qed
  qed
qed

definition located :: "(nat \<Rightarrow> 'b option) \<Rightarrow> nat \<Rightarrow> 'b entry list \<Rightarrow> nat \<Rightarrow> nat \<Rightarrow> nat \<Rightarrow> bool" where
  "located L u cs i k a \<longleftrightarrow> entry_ok (Suc k) (Node cs) \<and> i < 16 \<and> cs ! i = Leaf (L u)
     \<and> a + i * 16 ^ k \<le> u \<and> u < a + Suc i * 16 ^ k
     \<and> (\<forall>v < 16 * 16 ^ k. L (a + v) = alook k cs v)"

lemma descend_ok:
  assumes "entry_ok k e" "\<And>v. v < 16 ^ k \<Longrightarrow> L (a + v) = look k e v" "a \<le> u" "u < a + 16 ^ k"
    "16 ^ k dvd a" "off div MIN_BLOCK_SIZE = u"
  shows "\<exists>pos'. descend pos e (MIN_BLOCK_BITS + N_CHILDREN_POW * k) off = Some (L u, pos')
    \<and> (pos' = pos \<and> e = Leaf (L u) \<or> (\<exists>cs i k a. pos' = Some (cs, i) \<and> located L u cs i k a))"
  using assms(1-5)
proof (induction k arbitrary: e a pos)
  case 0
  then obtain x where "e = Leaf x" by (cases e) auto
  moreover from 0 have "u = a" by simp
  ultimately show ?case using 0(2) [of 0] by simp
next
  case (Suc k)
  show ?case
  proof (cases e)
    case (Leaf x)
    with Suc.prems(2) [of "u - a"] Suc.prems(3,4) show ?thesis by auto
  next
    case (Node cs)
    define i where "i = (u - a) div 16 ^ k"
    have i: "i < 16" using Suc.prems(4,3) by (simp add: i_def div_pow_bound)
    have "u - a = i * 16 ^ k + (u - a) mod 16 ^ k" by (simp only: i_def div_mult_mod_eq)
    moreover have "(u - a) mod 16 ^ k < 16 ^ k" by simp
    ultimately have ui: "a + i * 16 ^ k \<le> u" "u < a + i * 16 ^ k + 16 ^ k"
      using Suc.prems(3) by linarith+
    from Suc.prems(5) obtain c where c: "a = 16 ^ Suc k * c" by (rule dvdE)
    have "u div 16 ^ k = (16 * c) + i"
      using ui by (intro div_nat_eqI) (simp_all add: c algebra_simps)
    then have index: "(off div 2 ^ (MIN_BLOCK_BITS + N_CHILDREN_POW * Suc k - N_CHILDREN_POW)) mod N_CHILDREN = i"
      using i power_bits [of k] assms(6)
      by (simp add: N_CHILDREN_def div_mult2_eq mult.commute [of "16 ^ k"])
    have len: "length cs = 16" and ok: "entry_ok k (cs ! i)" using Suc.prems(1) Node i by auto
    have L: "L (a + i * 16 ^ k + v) = look k (cs ! i) v" if "v < 16 ^ k" for v
      using Suc.prems(2) [of "i * 16 ^ k + v"] in_units_bound [OF i that] that Node
      by (simp add: alook_child add.assoc)
    have "16 ^ k dvd a + i * 16 ^ k" by (simp add: c)
    note sub = Suc.IH [OF ok L ui this, of "Some (cs, i)"]
    have "located L u cs i k a" if "cs ! i = Leaf (L u)"
      using that Suc.prems(1,2) Node i ui by (simp add: located_def add.commute add.left_commute)
    moreover have "descend pos e (MIN_BLOCK_BITS + N_CHILDREN_POW * Suc k) off =
        descend (Some (cs, i)) (cs ! i) (MIN_BLOCK_BITS + N_CHILDREN_POW * k) off"
      unfolding Node descend.simps Let_def index using len i by simp
    ultimately show ?thesis
      using sub by metis
  qed
qed

text \<open>The \<^verbatim>\<open>prev\<close> pointers agree with the map: they name the block before the first unit of a block.\<close>

definition prev_ok :: "('b \<Rightarrow> 'b option) \<Rightarrow> (nat \<Rightarrow> 'b option) \<Rightarrow> bool" where
  "prev_ok prev L \<longleftrightarrow>
     (\<forall>u b. L u = Some b \<and> (u = 0 \<or> L (u - 1) \<noteq> Some b) \<longrightarrow> prev b = closest L u)"

lemma located_closest:
  assumes loc: "located L u cs i k a" and "L u = None" and prev: "prev_ok prev L"
  shows "(case scan_left cs i of
             Found b \<Rightarrow> Some (Some b)
           | Stray \<Rightarrow> None
           | Exhausted \<Rightarrow>
               (case scan_right cs (Suc i) of
                  Some b \<Rightarrow> Some (prev b)
                | None \<Rightarrow> Some None)) = Some (closest L (Suc u))"
proof -
  have len: "length cs = 16" and ok: "\<forall>c \<in> set cs. entry_ok k c" and i: "i < 16"
    and tight: "entry_ok (Suc k) (Node cs)" and leaf: "cs ! i = Leaf None"
    and u: "a + i * 16 ^ k \<le> u" "u < a + Suc i * 16 ^ k"
    and L: "\<And>v. v < 16 * 16 ^ k \<Longrightarrow> L (a + v) = alook k cs v"
    using loc assms(2) by (auto simp: located_def)
  have empty: "alook k cs v = None" if "i * 16 ^ k \<le> v" "v < Suc i * 16 ^ k" for v
  proof -
    have "v div 16 ^ k = i" using that by (intro div_nat_eqI) (simp_all add: mult.commute)
    then show ?thesis by (simp add: alook_def leaf)
  qed
  have "Suc i * 16 ^ k \<le> 16 * (16 ^ k :: nat)" using i by (intro mult_le_mono1) simp
  then have below: "v < 16 * 16 ^ k" if "v < Suc i * 16 ^ k" for v
    using that by (rule less_le_trans [rotated])
  have "L v = None" if "a + i * 16 ^ k \<le> v" "v < Suc u" for v
  proof -
    have v: "v = a + (v - a)" "i * 16 ^ k \<le> v - a" "v - a < Suc i * 16 ^ k"
      using that u(2) by linarith+
    show ?thesis
      using empty [OF v(2,3)] L [OF below [OF v(3)]] v(1) by simp
  qed
  then have "closest L (Suc u) = closest L (a + i * 16 ^ k)"
    using u by (intro closest_skip) simp_all
  also have "\<dots> = (case closest (alook k cs) (i * 16 ^ k) of Some b \<Rightarrow> Some b | None \<Rightarrow> closest L a)"
    using L [OF below] by (intro closest_append) simp
  finally have goal: "closest L (Suc u) = \<dots>" .
  show ?thesis
  proof (cases "closest (alook k cs) (i * 16 ^ k)")
    case (Some b)
    with goal scan_left_ok [OF len ok, of i] i show ?thesis by simp
  next
    case None
    with goal scan_left_ok [OF len ok, of i] i
    have left: "scan_left cs i = Exhausted" and goal: "closest L (Suc u) = closest L a" by simp_all
    have low: "alook k cs v = None" if "v < Suc i * 16 ^ k" for v
      using None empty [of v] that by (cases "v < i * 16 ^ k") (simp_all add: closest_None)
    have count: "Suc i * 16 ^ k + (16 - Suc i) * 16 ^ k = 16 * 16 ^ k"
      using i by (metis add_mult_distrib le_add_diff_inverse Suc_leI)
    obtain v where v: "v < 16 * 16 ^ k" "alook k cs v \<noteq> None"
      using entry_ok_has_block [OF tight] by auto
    obtain b where b: "first (alook k cs) (Suc i * 16 ^ k) ((16 - Suc i) * 16 ^ k) = Some b"
    proof (cases "first (alook k cs) (Suc i * 16 ^ k) ((16 - Suc i) * 16 ^ k)")
      case None
      have ge: "Suc i * 16 ^ k \<le> v" using low [of v] v(2) by force
      then have "v - Suc i * 16 ^ k < (16 - Suc i) * 16 ^ k" using v(1) count by linarith
      with None ge have "alook k cs v = None"
        by (metis first_None le_add_diff_inverse)
      with v show thesis by simp
    qed
    from first_Some [OF this] obtain v where v: "v < (16 - Suc i) * 16 ^ k"
      "alook k cs (Suc i * 16 ^ k + v) = Some b" "\<forall>w < v. alook k cs (Suc i * 16 ^ k + w) = None"
      by blast
    define x where "x = Suc i * 16 ^ k + v"
    have x: "x < 16 * 16 ^ k" "0 < x" "alook k cs x = Some b" using v count by (simp_all add: x_def)
    have none: "alook k cs y = None" if "y < x" for y
      using that v(3) low x_def by (metis le_add_diff_inverse linorder_not_less nat_add_left_cancel_less)
    have "L (a + x) = Some b" "L (a + x - 1) \<noteq> Some b"
      using x none [of "x - 1"] L [of x] L [of "x - 1"] by simp_all
    then have "prev b = closest L (a + x)"
      using prev unfolding prev_ok_def by blast
    also have "\<dots> = closest L a"
      using none L x(1) by (intro closest_skip) (auto simp: le_iff_add)
    finally show ?thesis
      using left goal b scan_right_ok [OF len ok, of "Suc i"] i by simp
  qed
qed

lemma min_units:
  assumes "0 < n"
  shows "min a (bytes n - MIN_BLOCK_SIZE) div MIN_BLOCK_SIZE = min (a div MIN_BLOCK_SIZE) (n - 1)"
proof -
  have *: "bytes n - MIN_BLOCK_SIZE = bytes (n - 1)" by (simp add: diff_mult_distrib)
  show ?thesis
  proof (cases "a \<le> bytes (n - 1)")
    case True
    then have "a div MIN_BLOCK_SIZE \<le> n - 1"
      using div_le_mono [OF True, of MIN_BLOCK_SIZE] by simp
    with True * show ?thesis by simp
  next
    case False
    then have "n - 1 \<le> a div MIN_BLOCK_SIZE"
      using div_le_mono [of "bytes (n - 1)" a MIN_BLOCK_SIZE] by simp
    with False * show ?thesis by simp
  qed
qed

lemma block_find_closest_ok:
  assumes m: "om_ok m" and prev: "prev_ok prev (om_look m)" and off: "offset < W64"
  shows "block_find_closest prev m offset = Some (closest (om_look m) (Suc (offset div MIN_BLOCK_SIZE)))"
proof -
  define k where "k = om_depth m"
  define off where "off = min offset (max_map_offset m)"
  define u where "u = off div MIN_BLOCK_SIZE"
  have bits: "range_length_bits m = MIN_BLOCK_BITS + N_CHILDREN_POW * k" and e: "entry_ok k (om_entry m)"
    and root: "\<And>b. om_entry m \<noteq> Leaf (Some b)" and k13: "k \<le> 13"
    using m by (auto simp: om_ok_def k_def)
  have cap: "u = min (offset div MIN_BLOCK_SIZE) (16 ^ k - 1)"
  proof (cases "k = 13")
    case True
    then have "off = min offset (bytes (2 ^ 50) - MIN_BLOCK_SIZE)"
      using bits by (simp add: off_def max_map_offset_def UINT64_MAX_def W64_def MIN_BLOCK_SIZE_def
          MIN_BLOCK_BITS_def N_CHILDREN_POW_def)
    moreover have "offset div MIN_BLOCK_SIZE \<le> 2 ^ 50 - 1"
      using off by (simp add: W64_def MIN_BLOCK_SIZE_def)
    moreover have "min (offset div MIN_BLOCK_SIZE) (2 ^ 50 - 1) = off div MIN_BLOCK_SIZE"
      unfolding calculation(1) by (rule min_units [symmetric]) simp
    ultimately show ?thesis using True by (simp add: u_def)
  next
    case False
    then have "range_length_bits m < 64"
      using bits k13 by (simp add: MIN_BLOCK_BITS_def N_CHILDREN_POW_def)
    then show ?thesis
      using power_bits [of k] bits by (simp add: u_def off_def max_map_offset_def min_units)
  qed
  then have u: "u < 16 ^ k" by (simp add: min_less_iff_disj)
  have "closest (om_look m) (Suc (offset div MIN_BLOCK_SIZE)) = closest (om_look m) (Suc u)"
    using cap by (intro closest_skip) (auto simp: om_look_def min_def simp flip: k_def split: if_splits)
  moreover have "\<exists>pos. descend None (om_entry m) (range_length_bits m) off = Some (om_look m u, pos)
    \<and> (pos = None \<and> om_entry m = Leaf (om_look m u)
       \<or> (\<exists>cs i k a. pos = Some (cs, i) \<and> located (om_look m) u cs i k a))"
    unfolding bits using e u
    by (intro descend_ok [where a = 0]) (simp_all add: u_def om_look_def flip: k_def)
  ultimately show ?thesis
  proof (elim exE conjE disjE)
    fix pos
    assume goal: "closest (om_look m) (Suc (offset div MIN_BLOCK_SIZE)) = closest (om_look m) (Suc u)"
      and run: "descend None (om_entry m) (range_length_bits m) off = Some (om_look m u, pos)"
    show ?thesis if "pos = None" "om_entry m = Leaf (om_look m u)"
    proof -
      have "om_entry m = Leaf None" using that(2) root by (cases "om_look m u") auto
      then have "om_look m = (\<lambda>_. None)" by (simp add: om_look_def fun_eq_iff)
      then show ?thesis
        using goal run that(1) by (simp add: block_find_closest_def flip: off_def)
    qed
    show ?thesis if "pos = Some (cs, i)" "located (om_look m) u cs i j a" for cs i j a
    proof (cases "om_look m u")
      case None
      with goal run that located_closest [OF that(2) None prev] show ?thesis
        by (simp only: block_find_closest_def Let_def flip: off_def) simp
    next
      case (Some b)
      with goal run that show ?thesis
        by (simp add: block_find_closest_def flip: off_def)
    qed
  qed
qed

section \<open>The contract of the map\<close>

text \<open>
  What the code that uses the map relies on: an index of blocks by unit, into which a block is
  put as a run of free units and from which it is taken as a whole.
\<close>

locale block_index =
  fixes index_ok :: "'m \<Rightarrow> bool"
    and index_look :: "'m \<Rightarrow> nat \<Rightarrow> 'b option"
    and index_insert :: "'m \<Rightarrow> 'b \<Rightarrow> nat \<Rightarrow> nat \<Rightarrow> answers \<Rightarrow> (nat \<times> 'm \<times> answers) option"
    and index_remove :: "'m \<Rightarrow> nat \<Rightarrow> nat \<Rightarrow> answers \<Rightarrow> (nat \<times> 'm \<times> answers) option"
  assumes insert_total: "index_ok m \<Longrightarrow> 0 < r \<Longrightarrow> bytes (p + r) < W64 \<Longrightarrow>
      (\<And>u. p \<le> u \<Longrightarrow> u < p + r \<Longrightarrow> index_look m u = None) \<Longrightarrow>
      \<exists>m'. index_insert m b (bytes p) (bytes r) [] = Some (0, m', []) \<and> index_ok m'
        \<and> index_look m' = write_units (index_look m) p r (Some b)"
    and remove_total: "index_ok m \<Longrightarrow> 0 < r \<Longrightarrow>
      (\<And>u. index_look m u = Some b \<longleftrightarrow> p \<le> u \<and> u < p + r) \<Longrightarrow>
      \<exists>m'. index_remove m (bytes p) (bytes r) os = Some (0, m', os) \<and> index_ok m'
        \<and> index_look m' = write_units (index_look m) p r None"
begin

text \<open>Inserting a fresh block and removing it again leaves the represented function as it was.\<close>

lemma insert_remove:
  assumes "index_ok m" "0 < r" "bytes (p + r) < W64"
    and "\<And>u. p \<le> u \<Longrightarrow> u < p + r \<Longrightarrow> index_look m u = None" and "\<And>u. index_look m u \<noteq> Some b"
  shows "\<exists>m' m''. index_insert m b (bytes p) (bytes r) [] = Some (0, m', []) \<and>
    index_remove m' (bytes p) (bytes r) os = Some (0, m'', os) \<and> index_ok m''
    \<and> index_look m'' = index_look m"
proof -
  obtain m' where m': "index_insert m b (bytes p) (bytes r) [] = Some (0, m', [])" "index_ok m'"
    "index_look m' = write_units (index_look m) p r (Some b)"
    using insert_total assms(1-4) by blast
  have "index_look m' u = Some b \<longleftrightarrow> p \<le> u \<and> u < p + r" for u
    using m'(3) assms(5) [of u] by (auto simp: write_units_def)
  from remove_total [OF m'(2) assms(2) this] obtain m'' where
    m'': "index_remove m' (bytes p) (bytes r) os = Some (0, m'', os)" "index_ok m''"
    "index_look m'' = write_units (index_look m') p r None" by blast
  have "index_look m'' u = index_look m u" for u
    using m''(3) m'(3) assms(4) [of u] by (auto simp: write_units_def)
  with m' m'' show ?thesis by blast
qed

text \<open>Blocks with disjoint runs can be inserted one after another.\<close>

fun insert_runs :: "'m \<Rightarrow> ('b \<times> nat \<times> nat) list \<Rightarrow> answers \<Rightarrow> (nat \<times> 'm \<times> answers) option" where
  "insert_runs m [] os = Some (0, m, os)"
| "insert_runs m ((b, p, r) # xs) os =
     (case index_insert m b (bytes p) (bytes r) os of
        None \<Rightarrow> None
      | Some (ret, m', os') \<Rightarrow> if ret \<noteq> 0 then Some (ret, m', os') else insert_runs m' xs os')"

lemma insert_runs_total:
  assumes "index_ok m"
    and "\<And>b p r u. (b, p, r) \<in> set xs \<Longrightarrow>
      0 < r \<and> bytes (p + r) < W64 \<and> (p \<le> u \<and> u < p + r \<longrightarrow> index_look m u = None)"
    and "pairwise (\<lambda>(b, p, r) (b', p', r'). p + r \<le> p' \<or> p' + r' \<le> p) (set xs)" and "distinct xs"
  shows "\<exists>m'. insert_runs m xs [] = Some (0, m', []) \<and> index_ok m'
    \<and> index_look m' = fold (\<lambda>(b, p, r) L. write_units L p r (Some b)) xs (index_look m)"
  using assms
proof (induction xs arbitrary: m)
  case (Cons x xs)
  obtain b p r where x: "x = (b, p, r)" by (cases x)
  obtain m' where m': "index_insert m b (bytes p) (bytes r) [] = Some (0, m', [])" "index_ok m'"
    "index_look m' = write_units (index_look m) p r (Some b)"
    using insert_total [of m r p b] Cons.prems(1,2) x by (metis list.set_intros(1))
  have "0 < r' \<and> bytes (p' + r') < W64 \<and> (p' \<le> u \<and> u < p' + r' \<longrightarrow> index_look m' u = None)"
    if "(b', p', r') \<in> set xs" for b' p' r' u
  proof -
    have "p + r \<le> p' \<or> p' + r' \<le> p"
      using pairwiseD [OF Cons.prems(3), of x "(b', p', r')"] that x Cons.prems(4) by auto
    with Cons.prems(2) [of b' p' r' u] that m'(3) show ?thesis
      by (auto simp: write_units_def)
  qed
  from Cons.IH [OF m'(2) this] Cons.prems(3,4) m' x show ?case
    by (auto simp: pairwise_insert)
qed simp

end

interpretation om: block_index om_ok om_look insert_block remove_block
proof
  show "\<exists>m'. insert_block m b (bytes p) (bytes r) [] = Some (0, m', []) \<and> om_ok m'
      \<and> om_look m' = write_units (om_look m) p r (Some b)"
    if "om_ok m" "0 < r" "bytes (p + r) < W64" "\<And>u. p \<le> u \<Longrightarrow> u < p + r \<Longrightarrow> om_look m u = None"
    for m :: "'a offset_map" and r p b
    using insert_block_run [OF that, where b = b and os = "[]"] by (auto split: option.splits)
qed (rule remove_block_run)

section \<open>Properties\<close>

text \<open>
  Claim C19. With an allocator that does not fail, \<^verbatim>\<open>insert_block\<close> succeeds on free units, and
  the map afterwards has the block at exactly the block's units and what it had elsewhere.
\<close>

theorem insert_block_correct:
  assumes "om_ok m" and "0 < r" and "bytes (p + r) < W64"
    and "\<forall>u. p \<le> u \<and> u < p + r \<longrightarrow> om_look m u = None"
  shows "\<exists>m'. insert_block m b (bytes p) (bytes r) [] = Some (0, m', []) \<and> om_ok m'
    \<and> (\<forall>u. om_look m' u = (if p \<le> u \<and> u < p + r then Some b else om_look m u))"
  using om.insert_total [OF assms(1-3), of b] assms(4) by (auto simp: write_units_def fun_eq_iff)

lemma om_new_ok: "om_ok \<lparr>om_entry = Leaf None, range_length_bits = 14\<rparr>"
  by (auto simp: om_ok_def om_depth_def MIN_BLOCK_BITS_def)

lemma om_new_look: "om_look \<lparr>om_entry = Leaf None, range_length_bits = n\<rparr> u = None"
  by (simp add: om_look_def)

theorem insert_block_correct_witness:
  "\<exists>m'. insert_block \<lparr>om_entry = Leaf None, range_length_bits = 14\<rparr> (7 :: nat) (bytes 5) (bytes 2) []
      = Some (0, m', []) \<and> om_look m' 6 = Some 7 \<and> om_look m' 7 = None"
  using insert_block_correct [OF om_new_ok, of 2 5 "7 :: nat"]
  by (auto simp: om_new_look MIN_BLOCK_SIZE_def W64_def)

text \<open>
  Claim C21. A block that was inserted as a whole is removed as a whole: \<^verbatim>\<open>remove_block\<close>
  succeeds, whatever the allocator answers and without asking it, and only the block's units
  become free. (Its callers do not look at the result.)
\<close>

theorem remove_block_never_fails:
  assumes "om_ok m" and "0 < r" and "\<forall>u. om_look m u = Some b \<longleftrightarrow> p \<le> u \<and> u < p + r"
  shows "\<exists>m'. remove_block m (bytes p) (bytes r) os = Some (0, m', os) \<and> om_ok m'
    \<and> (\<forall>u. om_look m' u = (if p \<le> u \<and> u < p + r then None else om_look m u))"
  using om.remove_total [OF assms(1,2), of b p os] assms(3) by (auto simp: write_units_def fun_eq_iff)

definition one_block_map :: "nat offset_map" where
  "one_block_map = \<lparr>om_entry = Node (new_children[1 := Leaf (Some 7)]), range_length_bits = 18\<rparr>"

lemma one_block_map_depth: "om_depth one_block_map = Suc 0"
  by (simp add: om_depth_def one_block_map_def MIN_BLOCK_BITS_def N_CHILDREN_POW_def)

lemma one_block_map_ok: "om_ok one_block_map"
proof -
  have "alook 0 (new_children[1 := Leaf (Some 7)]) 1 = Some (7 :: nat)"
    by (simp add: alook_update new_children_props)
  then have "entry_ok (Suc 0) (om_entry one_block_map)"
    unfolding one_block_map_def offset_map.simps
    by (rule entry_ok_Node_written [rotated 3])
       (auto simp: new_children_props dest!: set_update_subset_insert [THEN subsetD])
  then show ?thesis
    by (simp add: om_ok_def one_block_map_depth)
       (simp add: one_block_map_def MIN_BLOCK_BITS_def N_CHILDREN_POW_def)
qed

lemma one_block_map_look: "om_look one_block_map u = (if u = 1 then Some 7 else None)"
  using one_block_map_depth by (auto simp: om_look_def one_block_map_def alook_update new_children_props)

theorem remove_block_never_fails_witness:
  "\<exists>m'. remove_block one_block_map (bytes 1) (bytes 1) [False] = Some (0, m', [False])
    \<and> om_look m' 1 = None"
proof -
  have "\<forall>u. om_look one_block_map u = Some 7 \<longleftrightarrow> 1 \<le> u \<and> u < 1 + 1"
    by (auto simp: one_block_map_look split: if_splits)
  from remove_block_never_fails [OF one_block_map_ok _ this, of "[False]"] show ?thesis
    by auto
qed

text \<open>
  Claim C20. \<^verbatim>\<open>block_find_closest\<close> returns the block that holds the offset or, when the offset
  is in a hole, the last block before it, and no block when there is none; the search leaves no
  array and reads no block pointer as an array. The \<^verbatim>\<open>prev\<close> fields must name the preceding block.
\<close>

theorem block_find_closest_correct:
  assumes "om_ok m" and "prev_ok prev (om_look m)" and "offset < W64"
  shows "block_find_closest prev m offset
    = Some (closest (om_look m) (Suc (offset div MIN_BLOCK_SIZE)))"
  using assms by (rule block_find_closest_ok)

theorem block_find_closest_correct_witness:
  "prev_ok (\<lambda>_. None) (om_look one_block_map)
   \<and> block_find_closest (\<lambda>_. None) one_block_map (bytes 3) = Some (Some 7)
   \<and> block_find_closest (\<lambda>_. None) one_block_map 5 = Some None"
proof -
  have prev: "prev_ok (\<lambda>_. None) (om_look one_block_map)"
    by (auto simp: prev_ok_def one_block_map_look)
  have "bytes 3 < W64" "5 < W64" "Suc (bytes 3 div MIN_BLOCK_SIZE) = 4" "Suc (5 div MIN_BLOCK_SIZE) = 1"
    by (simp_all add: MIN_BLOCK_SIZE_def W64_def)
  then show ?thesis
    using prev block_find_closest_correct [OF one_block_map_ok prev, of "bytes 3"]
      block_find_closest_correct [OF one_block_map_ok prev, of 5]
    by (simp add: one_block_map_look eval_nat_numeral)
qed

text \<open>
  When the array of the root cannot be allocated, \<^verbatim>\<open>insert_block\<close> on an empty map does
  not report an error: it goes on with a null pointer.
\<close>

theorem insert_block_ignores_allocation_failure:
  "insert_block \<lparr>om_entry = Leaf None, range_length_bits = 14\<rparr> b 0 MIN_BLOCK_SIZE [False] = None"
  by (simp add: insert_block_def grow.simps add_new_level_def max_map_offset_def add64_def W64_def
      MIN_BLOCK_SIZE_def check_and_allocate_range_def pf_calloc_def N_CHILDREN_POW_def)

end
