(* ===== verification/Block_Array.thy ===== *)
theory Block_Array
  imports Offset_Mapping_Correct
begin

text \<open>
  Block descriptors of a file (\<^verbatim>\<open>block_array.c\<close>). A file has a chain of arrays of block
  descriptors: the array stored in the inode (number 0 here) and further arrays allocated on
  demand. The descriptors in use are linked in file order. All free descriptors are at the end of
  one array, the first of the chain after the one in the inode if there is one.

  A descriptor is addressed by its array and index. \<open>pfile\<close> holds what the functions of this part
  read and write: the persistent arrays, descriptors and block contents, and from
  \<^verbatim>\<open>struct pmemfile_vinode\<close> the pointer to the first free descriptor, the pointer to the first
  block and the offset map. The answers of the C allocator (used by the offset map) are part of
  the state. Persistent memory comes from a \<open>store\<close>, whose allocation functions see what is
  allocated and return a new address or fail with an error number.
\<close>

section \<open>Data\<close>

type_synonym byte = "8 word"

datatype bptr = BP (arr_of: nat) (idx_of: nat)

record block_desc =
  bd_data :: "nat option"
  bd_size :: nat
  bd_flags :: nat
  bd_offset :: nat
  bd_next :: "bptr option"
  bd_prev :: "bptr option"

record block_array =
  ba_next :: "nat option"
  ba_length :: nat

record pfile =
  descs :: "bptr \<Rightarrow> block_desc"
  arrays :: "nat \<Rightarrow> block_array option"
  datas :: "nat \<Rightarrow> byte list option"
  first_free :: "bptr option"
  first_block :: "bptr option"
  blocks :: "bptr offset_map option"
  allocs :: answers
  invalidations :: nat

record store =
  alloc_array :: "(nat \<Rightarrow> block_array option) \<Rightarrow> errno + nat"
  alloc_data :: "(nat \<Rightarrow> byte list option) \<Rightarrow> nat \<Rightarrow> errno + nat \<times> byte list"

definition zero_desc :: block_desc where
  "zero_desc = \<lparr>bd_data = None, bd_size = 0, bd_flags = 0, bd_offset = 0, bd_next = None, bd_prev = None\<rparr>"

definition set_desc :: "bptr \<Rightarrow> (block_desc \<Rightarrow> block_desc) \<Rightarrow> pfile \<Rightarrow> pfile" where
  "set_desc p f v = v\<lparr>descs := (descs v)(p := f (descs v p))\<rparr>"

text \<open>The sizes of \<^verbatim>\<open>struct pmemfile_block_array\<close> and \<^verbatim>\<open>struct pmemfile_block_desc\<close>.\<close>

definition SIZEOF_BLOCK_ARRAY :: nat where
  "SIZEOF_BLOCK_ARRAY = 32"

definition SIZEOF_BLOCK_DESC :: nat where
  "SIZEOF_BLOCK_DESC = 64"

section \<open>Operations\<close>

text \<open>The loop of \<open>update_first_block_info\<close>, with the number of remaining entries.\<close>

fun skip_used :: "pfile \<Rightarrow> nat \<Rightarrow> nat \<Rightarrow> nat \<Rightarrow> nat" where
  "skip_used v a idx 0 = idx"
| "skip_used v a idx (Suc n) = (if bd_size (descs v (BP a idx)) \<noteq> 0 then skip_used v a (Suc idx) n else idx)"

definition update_first_block_info :: "pfile \<Rightarrow> pfile option" where
  "update_first_block_info v =
     (if first_free v \<noteq> None then Some v
      else
        (case arrays v 0 of
           None \<Rightarrow> None
         | Some r0 \<Rightarrow>
             let a = (case ba_next r0 of None \<Rightarrow> 0 | Some a \<Rightarrow> a) in
             (case arrays v a of
                None \<Rightarrow> None
              | Some r \<Rightarrow> Some (v\<lparr>first_free := Some (BP a (skip_used v a 0 (ba_length r)))\<rparr>))))"

definition has_free_block_entry :: "pfile \<Rightarrow> bool option" where
  "has_free_block_entry v =
     (case first_free v of
        None \<Rightarrow> None
      | Some (BP a idx) \<Rightarrow> (case arrays v a of None \<Rightarrow> None | Some r \<Rightarrow> Some (idx < ba_length r)))"

definition allocate_new_block_array :: "block_conf \<Rightarrow> store \<Rightarrow> pfile \<Rightarrow> pfile tx_result" where
  "allocate_new_block_array c st v =
     (case alloc_array st (arrays v) of
        Inl e \<Rightarrow> tx_fail e
      | Inr new \<Rightarrow>
          (case arrays v 0 of
             None \<Rightarrow> None
           | Some r0 \<Rightarrow>
               tx_ret (v\<lparr>descs := (\<lambda>p. if arr_of p = new then zero_desc else descs v p),
                      arrays := (arrays v)
                        (new \<mapsto> \<lparr>ba_next = ba_next r0,
                                  ba_length = u32 ((bi_size (metadata_block_info c) - SIZEOF_BLOCK_ARRAY)
                                    div SIZEOF_BLOCK_DESC)\<rparr>,
                         0 \<mapsto> r0\<lparr>ba_next := Some new\<rparr>),
                      first_free := Some (BP new 0)\<rparr>)))"

definition acquire_new_entry :: "block_conf \<Rightarrow> store \<Rightarrow> pfile \<Rightarrow> (bptr \<times> pfile) tx_result" where
  "acquire_new_entry c st v =
     (case has_free_block_entry v of
        None \<Rightarrow> None
      | Some free \<Rightarrow>
          tx_bind (if free then tx_ret v else allocate_new_block_array c st v) (\<lambda>v1.
          case first_free v1 of
            None \<Rightarrow> None
          | Some (BP a idx) \<Rightarrow> tx_ret (BP a idx, v1\<lparr>first_free := Some (BP a (Suc idx))\<rparr>)))"

text \<open>Linking a new descriptor after \<open>prev\<close>, or at the front.\<close>

definition link_new :: "bptr \<Rightarrow> bptr option \<Rightarrow> pfile \<Rightarrow> pfile" where
  "link_new block prev v1 =
     (case prev of
        None \<Rightarrow>
          (case first_block v1 of
             None \<Rightarrow> v1
           | Some fb \<Rightarrow>
               set_desc fb (\<lambda>d. d\<lparr>bd_prev := Some block\<rparr>)
                 (set_desc block (\<lambda>d. d\<lparr>bd_next := Some fb\<rparr>) v1))\<lparr>first_block := Some block\<rparr>
      | Some p \<Rightarrow>
          let v2 = set_desc block (\<lambda>d. d\<lparr>bd_prev := Some p\<rparr>) v1;
              v3 = set_desc block (\<lambda>d. d\<lparr>bd_next := bd_next (descs v2 p)\<rparr>) v2;
              v4 = set_desc p (\<lambda>d. d\<lparr>bd_next := Some block\<rparr>) v3
          in case bd_next (descs v4 block) of
               None \<Rightarrow> v4
             | Some n \<Rightarrow> set_desc n (\<lambda>d. d\<lparr>bd_prev := Some block\<rparr>) v4)"

definition block_list_insert_after ::
  "block_conf \<Rightarrow> store \<Rightarrow> pfile \<Rightarrow> bptr option \<Rightarrow> (bptr \<times> pfile) tx_result" where
  "block_list_insert_after c st v prev =
     (case update_first_block_info v of
        None \<Rightarrow> None
      | Some v0 \<Rightarrow>
          tx_bind (acquire_new_entry c st v0) (\<lambda>(block, v1). tx_ret (block, link_new block prev v1)))"

definition last_used_block :: "pfile \<Rightarrow> bptr option" where
  "last_used_block v =
     (case first_free v of
        None \<Rightarrow> None
      | Some (BP a idx) \<Rightarrow> if idx = 0 then None else Some (BP a (idx - 1)))"

definition unlink_block :: "bptr \<Rightarrow> pfile \<Rightarrow> pfile" where
  "unlink_block block v =
     (let v1 = (case bd_prev (descs v block) of
                  None \<Rightarrow> v
                | Some p \<Rightarrow> set_desc p (\<lambda>d. d\<lparr>bd_next := bd_next (descs v block)\<rparr>) v)
      in (case bd_next (descs v1 block) of
            None \<Rightarrow> v1
          | Some n \<Rightarrow> set_desc n (\<lambda>d. d\<lparr>bd_prev := bd_prev (descs v1 block)\<rparr>) v1))"

definition relocate_block :: "bptr \<Rightarrow> bptr \<Rightarrow> pfile \<Rightarrow> pfile" where
  "relocate_block dst src v =
     (let v1 = (case bd_prev (descs v src) of
                  None \<Rightarrow> v
                | Some p \<Rightarrow> set_desc p (\<lambda>d. d\<lparr>bd_next := Some dst\<rparr>) v);
          v2 = (case bd_next (descs v1 src) of
                  None \<Rightarrow> v1
                | Some n \<Rightarrow> set_desc n (\<lambda>d. d\<lparr>bd_prev := Some dst\<rparr>) v1)
      in set_desc dst (\<lambda>_. descs v2 src) v2)"

definition is_first_block_array_empty :: "pfile \<Rightarrow> bool" where
  "is_first_block_array_empty v =
     (case first_free v of None \<Rightarrow> False | Some (BP a idx) \<Rightarrow> idx = 0 \<and> a \<noteq> 0)"

definition remove_first_block_array :: "pfile \<Rightarrow> pfile option" where
  "remove_first_block_array v =
     (case arrays v 0 of
        None \<Rightarrow> None
      | Some r0 \<Rightarrow>
          (case ba_next r0 of
             None \<Rightarrow> None
           | Some to_remove \<Rightarrow>
               (case arrays v to_remove of
                  None \<Rightarrow> None
                | Some r \<Rightarrow>
                    let arrs = (arrays v)(0 \<mapsto> r0\<lparr>ba_next := ba_next r\<rparr>);
                        a = (case ba_next r of None \<Rightarrow> 0 | Some a \<Rightarrow> a)
                    in (case arrs a of
                          None \<Rightarrow> None
                        | Some ra \<Rightarrow>
                            Some (v\<lparr>arrays := arrs(to_remove := None),
                                    first_free := Some (BP a (ba_length ra))\<rparr>)))))"

text \<open>
  Inserting a block in the offset map, and removing one; the code of the callers ignores the
  result of a removal. The source passes the descriptor, whose offset and size are read here.
\<close>

definition map_insert :: "bptr \<Rightarrow> pfile \<Rightarrow> (nat \<times> pfile) option" where
  "map_insert b v =
     (case blocks v of
        None \<Rightarrow> None
      | Some m \<Rightarrow>
          (case insert_block m b (bd_offset (descs v b)) (bd_size (descs v b)) (allocs v) of
             None \<Rightarrow> None
           | Some (e, m', os) \<Rightarrow> Some (e, v\<lparr>blocks := Some m', allocs := os\<rparr>)))"

definition map_remove :: "bptr \<Rightarrow> pfile \<Rightarrow> pfile option" where
  "map_remove b v =
     (case blocks v of
        None \<Rightarrow> None
      | Some m \<Rightarrow>
          (case remove_block m (bd_offset (descs v b)) (bd_size (descs v b)) (allocs v) of
             None \<Rightarrow> None
           | Some (e, m', os) \<Rightarrow> Some (v\<lparr>blocks := Some m', allocs := os\<rparr>)))"

text \<open>
  The three parts of \<open>block_list_remove\<close>: taking the block out of the list and freeing its data;
  moving the last descriptor in use into the gap; giving that last descriptor back.
\<close>

definition drop_block :: "bptr \<Rightarrow> pfile \<Rightarrow> pfile" where
  "drop_block block v =
     (let v1 = unlink_block block v;
          v2 = (if first_block v1 = Some block
                then v1\<lparr>first_block := bd_next (descs v1 block)\<rparr> else v1)
      in case bd_data (descs v2 block) of
           None \<Rightarrow> v2
         | Some oid \<Rightarrow> v2\<lparr>datas := (datas v2)(oid := None)\<rparr>)"

definition fill_gap :: "bptr \<Rightarrow> bptr \<Rightarrow> pfile \<Rightarrow> pfile tx_result" where
  "fill_gap block moving v =
     (if moving = block then tx_ret v
      else
        let v1 = (if first_block v = Some moving then v\<lparr>first_block := Some block\<rparr> else v) in
        case map_remove moving v1 of
          None \<Rightarrow> None
        | Some v2 \<Rightarrow>
            (case map_insert block (relocate_block block moving v2) of
               None \<Rightarrow> None
             | Some (e, v3) \<Rightarrow> if e \<noteq> 0 then tx_fail ENOMEM else tx_ret v3))"

definition give_back :: "bptr \<Rightarrow> pfile \<Rightarrow> pfile option" where
  "give_back moving v =
     (let v1 = set_desc moving (\<lambda>_. zero_desc) v;
          v2 = v1\<lparr>first_free := map_option (\<lambda>p. BP (arr_of p) (idx_of p - 1)) (first_free v1)\<rparr>
      in if is_first_block_array_empty v2 then remove_first_block_array v2 else Some v2)"

text \<open>The result is the block before the removed one, or the descriptor it was moved to.\<close>

definition block_list_remove :: "pfile \<Rightarrow> bptr \<Rightarrow> (bptr option \<times> pfile) tx_result" where
  "block_list_remove v block =
     (case update_first_block_info v of
        None \<Rightarrow> None
      | Some v0 \<Rightarrow>
          (case last_used_block v0 of
             None \<Rightarrow> None
           | Some moving \<Rightarrow>
               let prev = bd_prev (descs (unlink_block block v0) block);
                   prev1 = (if prev = Some moving then Some block else prev)
               in tx_bind (fill_gap block moving (drop_block block v0)) (\<lambda>v1.
                  case give_back moving v1 of
                    None \<Rightarrow> None
                  | Some v2 \<Rightarrow> tx_ret (prev1, v2))))"

end
