(* ===== verification/Block_List.thy ===== *)
theory Block_List
  imports Block_Array
begin

text \<open>
  Correctness of the block descriptors. The descriptors of a file represent the list of its
  blocks in file order; \<open>slots_ok\<close> says which descriptors of the arrays are in use. Inserting and
  removing a block refine insertion and removal in that list, although a removal moves another
  descriptor to fill the gap.
\<close>

section \<open>Doubly linked segments\<close>

definition hd_or :: "'a list \<Rightarrow> 'a option \<Rightarrow> 'a option" where
  "hd_or xs n = (case xs of [] \<Rightarrow> n | x # _ \<Rightarrow> Some x)"

definition last_or :: "'a list \<Rightarrow> 'a option \<Rightarrow> 'a option" where
  "last_or xs p = (if xs = [] then p else Some (last xs))"

lemma hd_or_simps [simp]:
  "hd_or [] n = n" "hd_or (x # xs) n = Some x"
  by (simp_all add: hd_or_def)

lemma last_or_simps [simp]:
  "last_or [] p = p" "last_or (xs @ [x]) p = Some x" "last_or (x # xs) p = last_or xs (Some x)"
  by (auto simp: last_or_def)

lemma hd_or_append: "hd_or (xs @ ys) n = hd_or xs (hd_or ys n)"
  by (cases xs) auto

lemma last_or_append: "last_or (xs @ ys) p = last_or ys (last_or xs p)"
  by (auto simp: last_or_def)

lemma hd_or_map: "hd_or (map f xs) (map_option f n) = map_option f (hd_or xs n)"
  by (cases xs) auto

lemma last_or_map: "last_or (map f xs) (map_option f n) = map_option f (last_or xs n)"
  by (auto simp: last_or_def last_map)

lemma last_or_mem: "last_or xs None = Some x \<Longrightarrow> x \<in> set xs"
  by (auto simp: last_or_def split: if_splits)

lemma hd_or_mem: "hd_or xs None = Some x \<Longrightarrow> x \<in> set xs"
  by (cases xs) auto

fun seg :: "(bptr \<Rightarrow> block_desc) \<Rightarrow> bptr option \<Rightarrow> bptr list \<Rightarrow> bptr option \<Rightarrow> bool" where
  "seg d p [] n \<longleftrightarrow> True"
| "seg d p (x # xs) n \<longleftrightarrow> bd_prev (d x) = p \<and> bd_next (d x) = hd_or xs n \<and> seg d (Some x) xs n"

lemma seg_append:
  "seg d p (xs @ ys) n \<longleftrightarrow> seg d p xs (hd_or ys n) \<and> seg d (last_or xs p) ys n"
  by (induction xs arbitrary: p) (auto simp: hd_or_append)

lemma seg_mid:
  assumes "seg d p (ys @ x # zs) n"
  shows "bd_prev (d x) = last_or ys p" and "bd_next (d x) = hd_or zs n"
  using assms by (simp_all add: seg_append)

lemma seg_cong:
  assumes "\<And>x. x \<in> set xs \<Longrightarrow> bd_prev (d x) = bd_prev (d' x) \<and> bd_next (d x) = bd_next (d' x)"
  shows "seg d p xs n = seg d' p xs n"
  using assms by (induction xs arbitrary: p) auto

text \<open>Storing a pointer in the descriptors next to a gap.\<close>

definition link_next :: "bptr option \<Rightarrow> bptr option \<Rightarrow> (bptr \<Rightarrow> block_desc) \<Rightarrow> bptr \<Rightarrow> block_desc" where
  "link_next q n d = (case q of None \<Rightarrow> d | Some p \<Rightarrow> d(p := (d p)\<lparr>bd_next := n\<rparr>))"

definition link_prev :: "bptr option \<Rightarrow> bptr option \<Rightarrow> (bptr \<Rightarrow> block_desc) \<Rightarrow> bptr \<Rightarrow> block_desc" where
  "link_prev q p d = (case q of None \<Rightarrow> d | Some n \<Rightarrow> d(n := (d n)\<lparr>bd_prev := p\<rparr>))"

lemma link_next_prev [simp]: "bd_prev (link_next q n d x) = bd_prev (d x)"
  by (auto simp: link_next_def split: option.splits)

lemma link_prev_next [simp]: "bd_next (link_prev q n d x) = bd_next (d x)"
  by (auto simp: link_prev_def split: option.splits)

lemma link_next_other [simp]: "q \<noteq> Some x \<Longrightarrow> link_next q n d x = d x"
  by (auto simp: link_next_def split: option.splits)

lemma link_prev_other [simp]: "q \<noteq> Some x \<Longrightarrow> link_prev q n d x = d x"
  by (auto simp: link_prev_def split: option.splits)

lemma link_next_next: "bd_next (link_next q n d x) = (if q = Some x then n else bd_next (d x))"
  by (auto simp: link_next_def split: option.splits)

lemma link_prev_prev: "bd_prev (link_prev q p d x) = (if q = Some x then p else bd_prev (d x))"
  by (auto simp: link_prev_def split: option.splits)

text \<open>What a link update leaves alone: everything but the links.\<close>

datatype extent = Ext (ext_off: nat) (ext_size: nat) (ext_flags: nat) (ext_data: "nat option")

definition payload :: "block_desc \<Rightarrow> extent" where
  "payload d = Ext (bd_offset d) (bd_size d) (bd_flags d) (bd_data d)"

lemma link_payload [simp]:
  "payload (link_next q n d x) = payload (d x)" "payload (link_prev q n d x) = payload (d x)"
  by (auto simp: payload_def link_next_def link_prev_def split: option.splits)

lemma seg_link_next:
  assumes "seg d p xs n" and "distinct xs" and "q = last_or xs None"
  shows "seg (link_next q n' d) p xs n'"
  using assms
proof (induction xs arbitrary: p)
  case (Cons x xs)
  show ?case
  proof (cases "xs = []")
    case True
    then show ?thesis using Cons.prems by (simp add: last_or_def link_next_next)
  next
    case False
    have q: "q = last_or xs None" "q = Some (last xs)" "x \<noteq> last xs"
      using Cons.prems False last_in_set [OF False] by (auto simp: last_or_def)
    have "link_next q n' d x = d x"
      by (rule link_next_other) (use q(2,3) in simp)
    moreover have "hd_or xs n = hd_or xs n'"
      using False by (cases xs) auto
    ultimately show ?thesis
      using Cons.IH [of "Some x"] Cons.prems q(1) by simp
  qed
qed simp

lemma seg_link_prev:
  assumes "seg d p xs n" and "distinct xs" and "q = hd_or xs None"
  shows "seg (link_prev q p' d) p' xs n"
proof (cases xs)
  case (Cons x xs')
  have "seg (link_prev q p' d) (Some x) xs' n = seg d (Some x) xs' n"
  proof (rule seg_cong)
    fix y assume "y \<in> set xs'"
    then have "q \<noteq> Some y"
      using assms(2,3) Cons by auto
    then show "bd_prev (link_prev q p' d y) = bd_prev (d y) \<and> bd_next (link_prev q p' d y) = bd_next (d y)"
      by simp
  qed
  then show ?thesis
    using assms Cons by (simp add: link_prev_prev)
qed simp

text \<open>Inserting a descriptor between two parts, and taking one out.\<close>

lemma seg_insert:
  assumes "seg d None (ys @ zs) None" and "distinct (ys @ zs)" and "b \<notin> set (ys @ zs)"
    and d': "\<And>x. x \<noteq> b \<Longrightarrow> d' x = link_prev (hd_or zs None) (Some b) (link_next (last_or ys None) (Some b) d) x"
    and b: "bd_prev (d' b) = last_or ys None" "bd_next (d' b) = hd_or zs None"
  shows "seg d' None (ys @ b # zs) None"
proof -
  have s: "seg d None ys (hd_or zs None)" "seg d (last_or ys None) zs None"
    using assms(1) by (simp_all add: seg_append)
  have "seg (link_next (last_or ys None) (Some b) d) None ys (Some b)"
    using seg_link_next [OF s(1) _ refl] assms(2) by simp
  moreover have "seg d' None ys (Some b) = seg (link_next (last_or ys None) (Some b) d) None ys (Some b)"
  proof (rule seg_cong)
    fix x assume "x \<in> set ys"
    then have "x \<noteq> b" "hd_or zs None \<noteq> Some x"
      using assms(2,3) hd_or_mem [of zs x] by auto
    then show "bd_prev (d' x) = bd_prev (link_next (last_or ys None) (Some b) d x) \<and>
      bd_next (d' x) = bd_next (link_next (last_or ys None) (Some b) d x)"
      using d' [of x] by simp
  qed
  moreover have "seg (link_prev (hd_or zs None) (Some b) d) (Some b) zs None"
    using seg_link_prev [OF s(2) _ refl] assms(2) by simp
  moreover have "seg d' (Some b) zs None = seg (link_prev (hd_or zs None) (Some b) d) (Some b) zs None"
  proof (rule seg_cong)
    fix x assume "x \<in> set zs"
    then have "x \<noteq> b" and l: "last_or ys None \<noteq> Some x"
      using assms(2,3) last_or_mem [of ys x] by auto
    then show "bd_prev (d' x) = bd_prev (link_prev (hd_or zs None) (Some b) d x) \<and>
      bd_next (d' x) = bd_next (link_prev (hd_or zs None) (Some b) d x)"
      using d' [of x] l by (simp add: link_prev_prev link_next_next)
  qed
  ultimately show ?thesis
    using b by (simp add: seg_append)
qed

lemma seg_remove:
  assumes "seg d None (ys @ b # zs) None" and "distinct (ys @ b # zs)"
  shows "seg (link_prev (hd_or zs None) (last_or ys None) (link_next (last_or ys None) (hd_or zs None) d))
    None (ys @ zs) None"
proof -
  define d1 where "d1 = link_next (last_or ys None) (hd_or zs None) d"
  define d2 where "d2 = link_prev (hd_or zs None) (last_or ys None) d1"
  have s: "seg d None ys (Some b)" "seg d (Some b) zs None"
    using assms(1) by (simp_all add: seg_append)
  have "seg d1 None ys (hd_or zs None)"
    unfolding d1_def using seg_link_next [OF s(1) _ refl] assms(2) by simp
  moreover have "seg d2 None ys (hd_or zs None) = seg d1 None ys (hd_or zs None)"
  proof (rule seg_cong)
    fix x assume "x \<in> set ys"
    then have "hd_or zs None \<noteq> Some x"
      using assms(2) hd_or_mem [of zs x] by auto
    then show "bd_prev (d2 x) = bd_prev (d1 x) \<and> bd_next (d2 x) = bd_next (d1 x)"
      by (simp add: d2_def)
  qed
  moreover have "seg d1 (Some b) zs None = seg d (Some b) zs None"
  proof (rule seg_cong)
    fix x assume "x \<in> set zs"
    then have "last_or ys None \<noteq> Some x"
      using assms(2) last_or_mem [of ys x] by auto
    then show "bd_prev (d1 x) = bd_prev (d x) \<and> bd_next (d1 x) = bd_next (d x)"
      by (simp add: d1_def)
  qed
  moreover have "seg d1 (Some b) zs None \<Longrightarrow> seg d2 (last_or ys None) zs None"
    unfolding d2_def by (rule seg_link_prev) (use assms(2) in auto)
  ultimately show ?thesis
    using s(2) by (simp add: seg_append flip: d1_def d2_def)
qed

text \<open>Moving a descriptor to another address.\<close>

lemma seg_relocate:
  assumes "seg d None (ys @ m # zs) None" and "distinct (ys @ m # zs)" and "b \<notin> set (ys @ m # zs)"
    and d': "\<And>x. x \<noteq> b \<Longrightarrow> d' x = link_prev (hd_or zs None) (Some b) (link_next (last_or ys None) (Some b) d) x"
    and b: "bd_prev (d' b) = last_or ys None" "bd_next (d' b) = hd_or zs None"
  shows "seg d' None (ys @ b # zs) None"
proof -
  define d1 where "d1 = link_prev (hd_or zs None) (last_or ys None) (link_next (last_or ys None) (hd_or zs None) d)"
  have "seg d1 None (ys @ zs) None"
    unfolding d1_def by (rule seg_remove [OF assms(1,2)])
  then show ?thesis
  proof (rule seg_insert)
    fix x assume x: "x \<noteq> b"
    have "last_or ys None \<noteq> hd_or zs None \<or> last_or ys None = None"
      using assms(2) last_or_mem [of ys] hd_or_mem [of zs] by (cases "last_or ys None") auto
    then show "d' x = link_prev (hd_or zs None) (Some b) (link_next (last_or ys None) (Some b) d1) x"
      unfolding d' [OF x] d1_def
      by (cases "last_or ys None"; cases "hd_or zs None") (auto simp: link_prev_def link_next_def)
  qed (use assms b in auto)
qed

section \<open>Used descriptors\<close>

fun arr_chain :: "(nat \<Rightarrow> block_array option) \<Rightarrow> nat list \<Rightarrow> nat option \<Rightarrow> bool" where
  "arr_chain h [] s \<longleftrightarrow> s = None"
| "arr_chain h (a # as) s \<longleftrightarrow> s = Some a \<and>
     (case h a of None \<Rightarrow> False | Some r \<Rightarrow> 0 < ba_length r \<and> arr_chain h as (ba_next r))"

text \<open>The array with the free descriptors, given the arrays after the one in the inode.\<close>

definition open_arr :: "nat list \<Rightarrow> nat" where
  "open_arr rest = (case rest of [] \<Rightarrow> 0 | a # _ \<Rightarrow> a)"

lemma open_arr_simps [simp]: "open_arr [] = 0" "open_arr (a # as) = a"
  by (simp_all add: open_arr_def)

definition arr_len :: "pfile \<Rightarrow> nat \<Rightarrow> nat" where
  "arr_len v a = (case arrays v a of None \<Rightarrow> 0 | Some r \<Rightarrow> ba_length r)"

definition used_slots :: "pfile \<Rightarrow> nat list \<Rightarrow> nat \<Rightarrow> bptr set" where
  "used_slots v rest i =
     {p. arr_of p \<in> set (0 # rest) \<and> idx_of p < (if arr_of p = open_arr rest then i else arr_len v (arr_of p))}"

definition slots_ok :: "pfile \<Rightarrow> nat list \<Rightarrow> nat \<Rightarrow> bptr list \<Rightarrow> bool" where
  "slots_ok v rest i ps \<longleftrightarrow> distinct (0 # rest) \<and> arr_chain (arrays v) (0 # rest) (Some 0)
     \<and> i \<le> arr_len v (open_arr rest) \<and> (rest \<noteq> [] \<longrightarrow> 0 < i)
     \<and> distinct ps \<and> set ps = used_slots v rest i
     \<and> (\<forall>j. i \<le> j \<and> j < arr_len v (open_arr rest) \<longrightarrow> descs v (BP (open_arr rest) j) = zero_desc)
     \<and> (first_free v = None \<or> first_free v = Some (BP (open_arr rest) i))"

definition linked :: "pfile \<Rightarrow> bptr list \<Rightarrow> bool" where
  "linked v ps \<longleftrightarrow> first_block v = hd_or ps None \<and> seg (descs v) None ps None"

definition sized :: "pfile \<Rightarrow> bptr list \<Rightarrow> bool" where
  "sized v ps \<longleftrightarrow> (\<forall>p \<in> set ps. bd_size (descs v p) \<noteq> 0)"

text \<open>What is relied on of the object store: a new object does not overlap a live one.\<close>

definition store_ok :: "store \<Rightarrow> bool" where
  "store_ok st \<longleftrightarrow> (\<forall>h a. alloc_array st h = Inr a \<longrightarrow> h a = None) \<and>
     (\<forall>h n oid bs. alloc_data st h n = Inr (oid, bs) \<longrightarrow> h oid = None \<and> length bs = n)"

definition meta_len :: "block_conf \<Rightarrow> nat" where
  "meta_len c = u32 ((bi_size (metadata_block_info c) - SIZEOF_BLOCK_ARRAY) div SIZEOF_BLOCK_DESC)"

lemma arr_chain_len:
  "arr_chain (arrays v) as s \<Longrightarrow> a \<in> set as \<Longrightarrow> \<exists>r. arrays v a = Some r \<and> 0 < ba_length r"
  by (induction as arbitrary: s) (auto split: option.splits)

lemma arr_chain_frame:
  "(\<And>a. a \<in> set as \<Longrightarrow> h a = h' a) \<Longrightarrow> arr_chain h as s = arr_chain h' as s"
  by (induction as arbitrary: s) (auto split: option.splits)

lemma open_arr_mem: "open_arr rest \<in> set (0 # rest)"
  by (cases rest) auto

lemma slots_ok_cong:
  assumes "slots_ok v rest i ps" and "arrays v' = arrays v" and "first_free v' = first_free v"
    and "\<And>p. p \<notin> set ps \<Longrightarrow> descs v' p = descs v p" and "set ps' = set ps" and "distinct ps'"
  shows "slots_ok v' rest i ps'"
proof -
  have l: "arr_len v' = arr_len v" "used_slots v' rest i = used_slots v rest i"
    using assms(2) by (auto simp: arr_len_def used_slots_def fun_eq_iff)
  have "descs v' (BP (open_arr rest) j) = zero_desc"
    if "i \<le> j" "j < arr_len v (open_arr rest)" for j
  proof -
    have "(BP (open_arr rest) j) \<notin> set ps"
      using assms(1) that(1) by (auto simp: slots_ok_def used_slots_def)
    then show ?thesis
      using assms(1,4) that by (simp add: slots_ok_def)
  qed
  then show ?thesis
    using assms(1,2,3,5,6) l unfolding slots_ok_def by simp
qed

lemma skip_used_eq:
  assumes "k \<le> i" and "i \<le> k + n" and "\<And>j. k \<le> j \<Longrightarrow> j < i \<Longrightarrow> bd_size (descs v (BP a j)) \<noteq> 0"
    and "i < k + n \<Longrightarrow> bd_size (descs v (BP a i)) = 0"
  shows "skip_used v a k n = i"
  using assms
proof (induction n arbitrary: k)
  case (Suc n)
  show ?case
  proof (cases "k = i")
    case True
    then show ?thesis using Suc.prems(4) by simp
  next
    case False
    then have "k < i"
      using Suc.prems(1) by simp
    then show ?thesis
      using Suc.IH [of "Suc k"] Suc.prems by simp
  qed
qed simp

lemma update_first_block_info_ok:
  assumes "slots_ok v rest i ps" and "sized v ps"
  shows "update_first_block_info v = Some (v\<lparr>first_free := Some (BP (open_arr rest) i)\<rparr>)"
proof (cases "first_free v")
  case (Some p)
  then have "first_free v = Some (BP (open_arr rest) i)"
    using assms(1) by (auto simp: slots_ok_def)
  then show ?thesis
    by (simp add: update_first_block_info_def)
next
  case None
  define a where "a = open_arr rest"
  have ch: "arr_chain (arrays v) (0 # rest) (Some 0)" and i: "i \<le> arr_len v a"
    and z: "\<And>j. i \<le> j \<Longrightarrow> j < arr_len v a \<Longrightarrow> descs v (BP a j) = zero_desc"
    and used: "set ps = used_slots v rest i"
    using assms(1) by (auto simp: slots_ok_def a_def)
  obtain r0 where r0: "arrays v 0 = Some r0" "arr_chain (arrays v) rest (ba_next r0)"
    using ch by (auto split: option.splits)
  have a: "(case ba_next r0 of None \<Rightarrow> 0 | Some a \<Rightarrow> a) = a"
    using r0(2) by (cases rest) (auto simp: a_def)
  obtain r where r: "arrays v a = Some r"
    using arr_chain_len [OF ch] open_arr_mem [of rest] by (auto simp: a_def)
  have "skip_used v a 0 (ba_length r) = i"
  proof (rule skip_used_eq)
    fix j assume "j < i"
    then have "(BP a j) \<in> set ps"
      using used open_arr_mem [of rest] by (simp add: used_slots_def a_def)
    then show "bd_size (descs v (BP a j)) \<noteq> 0"
      using assms(2) by (simp add: sized_def)
  qed (use i z r in \<open>simp_all add: arr_len_def zero_desc_def\<close>)
  then show ?thesis
    using None r0(1) a r by (simp add: update_first_block_info_def a_def)
qed

lemma acquire_old:
  assumes "slots_ok v rest i ps" and "first_free v = Some (BP (open_arr rest) i)"
    and "i < arr_len v (open_arr rest)"
  shows "acquire_new_entry c st v =
      tx_ret (BP (open_arr rest) i, v\<lparr>first_free := Some (BP (open_arr rest) (Suc i))\<rparr>)"
    and "slots_ok (v\<lparr>first_free := Some (BP (open_arr rest) (Suc i))\<rparr>) rest (Suc i) (BP (open_arr rest) i # ps)"
    and "(BP (open_arr rest) i) \<notin> set ps" and "descs v (BP (open_arr rest) i) = zero_desc"
proof -
  obtain r where r: "arrays v (open_arr rest) = Some r" "i < ba_length r"
    using assms(3) by (auto simp: arr_len_def split: option.splits)
  show "acquire_new_entry c st v =
      tx_ret (BP (open_arr rest) i, v\<lparr>first_free := Some (BP (open_arr rest) (Suc i))\<rparr>)"
    using r assms(2) by (simp add: acquire_new_entry_def has_free_block_entry_def)
  show n: "(BP (open_arr rest) i) \<notin> set ps" and "descs v (BP (open_arr rest) i) = zero_desc"
    using assms(1,3) by (auto simp: slots_ok_def used_slots_def)
  have l: "arr_len (v\<lparr>first_free := x\<rparr>) = arr_len v" for x
    by (simp add: arr_len_def fun_eq_iff)
  have "used_slots (v\<lparr>first_free := Some (BP (open_arr rest) (Suc i))\<rparr>) rest (Suc i) =
      insert (BP (open_arr rest) i) (used_slots v rest i)"
  proof (rule set_eqI)
    fix p
    show "p \<in> used_slots (v\<lparr>first_free := Some (BP (open_arr rest) (Suc i))\<rparr>) rest (Suc i) \<longleftrightarrow>
        p \<in> insert (BP (open_arr rest) i) (used_slots v rest i)"
      using open_arr_mem [of rest]
      by (cases p; cases "arr_of p = open_arr rest") (simp_all add: used_slots_def l less_Suc_eq disj_commute)
  qed
  then show "slots_ok (v\<lparr>first_free := Some (BP (open_arr rest) (Suc i))\<rparr>) rest (Suc i) (BP (open_arr rest) i # ps)"
    using assms(1,3) n unfolding slots_ok_def by (simp add: l)
qed

definition with_new_array :: "block_conf \<Rightarrow> pfile \<Rightarrow> nat \<Rightarrow> block_array \<Rightarrow> pfile" where
  "with_new_array c v new r0 =
     v\<lparr>descs := (\<lambda>p. if arr_of p = new then zero_desc else descs v p),
       arrays := (arrays v)(new \<mapsto> \<lparr>ba_next = ba_next r0, ba_length = meta_len c\<rparr>,
         0 \<mapsto> r0\<lparr>ba_next := Some new\<rparr>),
       first_free := Some (BP new (Suc 0))\<rparr>"

lemma acquire_new:
  assumes "slots_ok v rest i ps" and "first_free v = Some (BP (open_arr rest) i)"
    and "i = arr_len v (open_arr rest)" and "alloc_array st (arrays v) = Inr new"
    and "arrays v new = None" and "0 < meta_len c"
  obtains r0 where "arrays v 0 = Some r0"
    and "acquire_new_entry c st v = tx_ret (BP new 0, with_new_array c v new r0)"
    and "slots_ok (with_new_array c v new r0) (new # rest) 1 (BP new 0 # ps)"
    and "\<And>p. p \<in> set ps \<Longrightarrow> arr_of p \<noteq> new"
proof -
  have ch: "arr_chain (arrays v) (0 # rest) (Some 0)" and d: "distinct (0 # rest)" "distinct ps"
    and used: "set ps = used_slots v rest i"
    using assms(1) by (auto simp: slots_ok_def)
  obtain r0 where r0: "arrays v 0 = Some r0" "0 < ba_length r0" "arr_chain (arrays v) rest (ba_next r0)"
    using ch by (auto split: option.splits)
  have new: "new \<notin> set (0 # rest)"
  proof
    assume "new \<in> set (0 # rest)"
    from arr_chain_len [OF ch this] assms(5) show False
      by simp
  qed
  have notin: "arr_of p \<noteq> new" if "p \<in> set ps" for p
  proof -
    have "arr_of p \<in> set (0 # rest)"
      using that unfolding used used_slots_def by auto
    with new show ?thesis by metis
  qed
  from arr_chain_len [OF ch open_arr_mem] obtain r where r0': "arrays v (open_arr rest) = Some r"
    by blast
  then have r: "arrays v (open_arr rest) = Some r" "i = ba_length r"
    unfolding assms(3) by (simp_all add: arr_len_def)
  define w where "w = with_new_array c v new r0"
  have acq: "acquire_new_entry c st v = tx_ret (BP new 0, w)"
    using assms(2,4) r r0(1)
    by (simp add: acquire_new_entry_def has_free_block_entry_def allocate_new_block_array_def
        w_def with_new_array_def meta_len_def)
  have len: "arr_len w a = (if a = new then meta_len c else arr_len v a)" for a
    using new r0(1) by (auto simp: arr_len_def w_def with_new_array_def)
  have "arr_chain (arrays w) rest (ba_next r0) = arr_chain (arrays v) rest (ba_next r0)"
    using new d(1) by (intro arr_chain_frame) (auto simp: w_def with_new_array_def)
  then have ch': "arr_chain (arrays w) (0 # new # rest) (Some 0)"
    using r0(2,3) new assms(6) by (auto simp: w_def with_new_array_def)
  have us: "used_slots w (new # rest) 1 = insert (BP new 0) (used_slots v rest i)"
  proof (rule set_eqI)
    fix p :: bptr
    obtain a j where p: "p = BP a j"
      by (cases p)
    show "p \<in> used_slots w (new # rest) 1 \<longleftrightarrow> p \<in> insert (BP new 0) (used_slots v rest i)"
      using new assms(3) by (cases "a = new") (simp_all add: p used_slots_def len)
  qed
  have n0: "BP new 0 \<notin> set ps"
    using notin [of "BP new 0"] by auto
  have "slots_ok w (new # rest) 1 (BP new 0 # ps)"
    unfolding slots_ok_def
  proof (intro conjI)
    show "distinct (0 # new # rest)" "arr_chain (arrays w) (0 # new # rest) (Some 0)"
      "distinct (BP new 0 # ps)" "1 \<le> arr_len w (open_arr (new # rest))"
      "set (BP new 0 # ps) = used_slots w (new # rest) 1"
      using d new ch' n0 len [of new] assms(6) us used by simp_all
  qed (simp_all add: w_def with_new_array_def)
  with acq r0(1) notin show thesis
    by (intro that) (simp_all add: w_def)
qed

text \<open>A fresh descriptor, in either case.\<close>

definition same_rest :: "pfile \<Rightarrow> pfile \<Rightarrow> bool" where
  "same_rest v w \<longleftrightarrow> datas v = datas w \<and> blocks v = blocks w \<and> allocs v = allocs w
     \<and> invalidations v = invalidations w"

lemma acquire_new_entry_ok:
  assumes "slots_ok v rest i ps" and "first_free v = Some (BP (open_arr rest) i)"
    and "store_ok st" and "0 < meta_len c"
  shows "(\<exists>e. acquire_new_entry c st v = tx_fail e \<and> alloc_array st (arrays v) = Inl e) \<or>
     (\<exists>b w rest' i'. acquire_new_entry c st v = tx_ret (b, w) \<and> slots_ok w rest' i' (b # ps) \<and>
        b \<notin> set ps \<and> descs w b = zero_desc \<and> (\<forall>p\<in>set ps. descs w p = descs v p) \<and>
        first_block w = first_block v \<and> same_rest w v)"
proof (cases "i < arr_len v (open_arr rest)")
  case True
  note a = acquire_old [OF assms(1,2) True]
  show ?thesis
    using a by (intro disjI2 exI [of _ "BP (open_arr rest) i"]
        exI [of _ "v\<lparr>first_free := Some (BP (open_arr rest) (Suc i))\<rparr>"] exI [of _ rest] exI [of _ "Suc i"])
      (simp add: same_rest_def)
next
  case False
  then have i: "i = arr_len v (open_arr rest)"
    using assms(1) by (simp add: slots_ok_def)
  show ?thesis
  proof (cases "alloc_array st (arrays v)")
    case (Inl e)
    obtain r where r: "arrays v (open_arr rest) = Some r"
      using arr_chain_len [OF _ open_arr_mem, of v rest "Some 0"] assms(1) by (auto simp: slots_ok_def)
    have "acquire_new_entry c st v = tx_fail e"
      using assms(2) Inl r i
      by (simp add: acquire_new_entry_def has_free_block_entry_def allocate_new_block_array_def arr_len_def)
    with Inl show ?thesis by blast
  next
    case (Inr new)
    have n: "arrays v new = None"
      using assms(3) Inr by (simp add: store_ok_def)
    obtain r0 where r0: "acquire_new_entry c st v = tx_ret (BP new 0, with_new_array c v new r0)"
      "slots_ok (with_new_array c v new r0) (new # rest) 1 (BP new 0 # ps)"
      "\<And>p. p \<in> set ps \<Longrightarrow> arr_of p \<noteq> new"
      by (rule acquire_new [OF assms(1,2) i Inr n assms(4)]) blast
    have "\<forall>p\<in>set ps. descs (with_new_array c v new r0) p = descs v p"
      using r0(3) by (simp add: with_new_array_def)
    moreover have "BP new 0 \<notin> set ps"
      using r0(2) by (simp add: slots_ok_def)
    ultimately show ?thesis
      using r0(1,2)
      by (intro disjI2 exI [of _ "BP new 0"] exI [of _ "with_new_array c v new r0"]
          exI [of _ "new # rest"] exI [of _ 1]) (simp add: same_rest_def with_new_array_def)
  qed
qed

section \<open>Insertion\<close>

lemma link_new_descs:
  assumes "linked v (ys @ zs)" and "b \<notin> set (ys @ zs)" and "distinct (ys @ zs)" and "descs v b = zero_desc"
  defines "w \<equiv> link_new b (last_or ys None) v"
  shows "descs w b = zero_desc\<lparr>bd_prev := last_or ys None, bd_next := hd_or zs None\<rparr>"
    and "\<And>x. x \<noteq> b \<Longrightarrow>
      descs w x = link_prev (hd_or zs None) (Some b) (link_next (last_or ys None) (Some b) (descs v)) x"
    and "first_block w = hd_or (ys @ b # zs) None"
    and "arrays w = arrays v" and "first_free w = first_free v" and "same_rest w v"
proof -
  have s: "seg (descs v) None (ys @ zs) None" "first_block v = hd_or (ys @ zs) None"
    using assms(1) by (simp_all add: linked_def)
  have "(descs w b = zero_desc\<lparr>bd_prev := last_or ys None, bd_next := hd_or zs None\<rparr>) \<and>
    (\<forall>x. x \<noteq> b \<longrightarrow> descs w x =
       link_prev (hd_or zs None) (Some b) (link_next (last_or ys None) (Some b) (descs v)) x) \<and>
    first_block w = hd_or (ys @ b # zs) None \<and>
    arrays w = arrays v \<and> first_free w = first_free v \<and> same_rest w v"
  proof (cases "last_or ys None")
    case None
    then have ys: "ys = []"
      by (auto simp: last_or_def split: if_splits)
    show ?thesis
    proof (cases zs)
      case Nil
      then show ?thesis
        using s ys assms(4)
        by (simp add: w_def link_new_def link_prev_def link_next_def same_rest_def zero_desc_def)
    next
      case (Cons z zs')
      have "z \<noteq> b" using assms(2) Cons by auto
      then show ?thesis
        using s ys Cons assms(4)
        by (simp add: w_def link_new_def set_desc_def link_prev_def link_next_def same_rest_def
            zero_desc_def)
    qed
  next
    case (Some p)
    have p: "p \<in> set ys" "p \<noteq> b"
      using last_or_mem [OF Some] assms(2) by auto
    obtain ys' where ys: "ys = ys' @ [p]"
      using Some by (cases ys rule: rev_cases) (auto simp: last_or_def)
    have pn: "bd_next (descs v p) = hd_or zs None"
      using seg_mid(2) [of "descs v" None ys' p zs None] s(1) ys by simp
    have fb: "first_block v = hd_or (ys @ b # zs) None"
      using s(2) ys by (cases ys') auto
    show ?thesis
    proof (cases zs)
      case Nil
      then show ?thesis
        using p(2) pn fb assms(4) Some
        by (simp add: w_def link_new_def set_desc_def link_prev_def link_next_def same_rest_def Let_def
            zero_desc_def)
    next
      case (Cons z zs')
      have z: "z \<noteq> b" "z \<noteq> p"
        using assms(2,3) Cons p(1) by auto
      then show ?thesis
        using p(2) pn fb assms(4) Some Cons
        by (simp add: w_def link_new_def set_desc_def link_prev_def link_next_def same_rest_def Let_def
            zero_desc_def)
    qed
  qed
  then show "descs w b = zero_desc\<lparr>bd_prev := last_or ys None, bd_next := hd_or zs None\<rparr>"
    and "\<And>x. x \<noteq> b \<Longrightarrow>
      descs w x = link_prev (hd_or zs None) (Some b) (link_next (last_or ys None) (Some b) (descs v)) x"
    and "first_block w = hd_or (ys @ b # zs) None"
    and "arrays w = arrays v" and "first_free w = first_free v" and "same_rest w v"
    by simp_all
qed

text \<open>
  The outcome of an insertion between \<open>ys\<close> and \<open>zs\<close>: the list has the new descriptor there, and
  no block changed but for its links.
\<close>

definition inserted :: "pfile \<Rightarrow> bptr list \<Rightarrow> bptr list \<Rightarrow> bptr \<Rightarrow> pfile \<Rightarrow> bool" where
  "inserted v ys zs b w \<longleftrightarrow> b \<notin> set (ys @ zs) \<and> (\<exists>rest i. slots_ok w rest i (ys @ b # zs)) \<and>
     linked w (ys @ b # zs) \<and> payload (descs w b) = payload zero_desc \<and>
     (\<forall>p \<in> set (ys @ zs). payload (descs w p) = payload (descs v p)) \<and> same_rest w v"

lemma block_list_insert_after_ok:
  assumes "slots_ok v rest i (ys @ zs)" and "linked v (ys @ zs)" and "sized v (ys @ zs)"
    and "store_ok st" and "0 < meta_len c"
  shows "(\<exists>e. block_list_insert_after c st v (last_or ys None) = tx_fail e \<and>
       alloc_array st (arrays v) = Inl e) \<or>
     (\<exists>b w. block_list_insert_after c st v (last_or ys None) = tx_ret (b, w) \<and> inserted v ys zs b w)"
proof -
  define v0 where "v0 = v\<lparr>first_free := Some (BP (open_arr rest) i)\<rparr>"
  have u: "update_first_block_info v = Some v0"
    unfolding v0_def by (rule update_first_block_info_ok [OF assms(1,3)])
  have d: "distinct (ys @ zs)"
    using assms(1) by (simp add: slots_ok_def)
  have s0: "slots_ok v0 rest i (ys @ zs)"
    using assms(1) by (simp add: slots_ok_def v0_def used_slots_def arr_len_def)
  have f0: "first_free v0 = Some (BP (open_arr rest) i)" and a0: "arrays v0 = arrays v"
    and e0: "descs v0 = descs v" "first_block v0 = first_block v" "same_rest v0 v"
    by (simp_all add: v0_def same_rest_def)
  show ?thesis
    using acquire_new_entry_ok [OF s0 f0 assms(4,5)]
  proof (elim disjE exE conjE)
    fix e assume "acquire_new_entry c st v0 = tx_fail e" "alloc_array st (arrays v0) = Inl e"
    then show ?thesis
      using u a0 by (simp add: block_list_insert_after_def)
  next
    fix b w rest' i'
    assume acq: "acquire_new_entry c st v0 = tx_ret (b, w)" and sw: "slots_ok w rest' i' (b # ys @ zs)"
      and b: "b \<notin> set (ys @ zs)" and z: "descs w b = zero_desc"
      and same: "\<forall>p\<in>set (ys @ zs). descs w p = descs v0 p"
      and fb: "first_block w = first_block v0" and sr: "same_rest w v0"
    have lw: "linked w (ys @ zs)"
      using assms(2) same e0 fb seg_cong [of "ys @ zs" "descs w" "descs v"] by (simp add: linked_def)
    define w' where "w' = link_new b (last_or ys None) w"
    note ld = link_new_descs [OF lw b d z, folded w'_def]
    have "slots_ok w' rest' i' (ys @ b # zs)"
    proof (rule slots_ok_cong [OF sw ld(4,5)])
      fix p assume p: "p \<notin> set (b # ys @ zs)"
      then have "hd_or zs None \<noteq> Some p" "last_or ys None \<noteq> Some p"
        using hd_or_mem [of zs p] last_or_mem [of ys p] by auto
      then show "descs w' p = descs w p"
        using ld(2) [of p] p by simp
    qed (use b d in auto)
    moreover have "linked w' (ys @ b # zs)"
      unfolding linked_def
    proof
      show "seg (descs w') None (ys @ b # zs) None"
        using lw by (intro seg_insert [OF _ d b ld(2)]) (simp_all add: linked_def ld(1))
    qed (rule ld(3))
    moreover have "payload (descs w' p) = payload (descs v p)" if "p \<in> set (ys @ zs)" for p
    proof -
      have "p \<noteq> b"
        using b that by auto
      from ld(2) [OF this] show ?thesis
        using same that e0(1) by simp
    qed
    moreover have "payload (descs w' b) = payload zero_desc"
      by (simp add: ld(1) payload_def)
    moreover have "same_rest w' v"
      using ld(6) sr e0(3) by (simp add: same_rest_def)
    ultimately have "inserted v ys zs b w'"
      using b unfolding inserted_def by blast
    then show ?thesis
      using u acq by (auto simp: block_list_insert_after_def w'_def)
  qed
qed

section \<open>Removal\<close>

text \<open>\<open>mapped v ps\<close>: the offset map finds exactly the blocks \<open>ps\<close>.\<close>

definition in_block :: "block_desc \<Rightarrow> nat \<Rightarrow> bool" where
  "in_block d x \<longleftrightarrow> bd_offset d \<le> x \<and> x < bd_offset d + bd_size d"

definition mapped :: "pfile \<Rightarrow> bptr list \<Rightarrow> bool" where
  "mapped v ps \<longleftrightarrow> (\<exists>m. blocks v = Some m \<and> om_ok m \<and>
     (\<forall>u p. om_look m u = Some p \<longleftrightarrow> p \<in> set ps \<and> in_block (descs v p) (bytes u)))"

text \<open>A block of whole units within the range of file offsets.\<close>

definition whole_units :: "block_desc \<Rightarrow> bool" where
  "whole_units d \<longleftrightarrow> (\<exists>p r. bd_offset d = bytes p \<and> bd_size d = bytes r \<and> 0 < r \<and> bytes (p + r) < W64)"

lemma in_block_payload: "payload d = payload e \<Longrightarrow> in_block d x = in_block e x"
  by (simp add: payload_def in_block_def)

lemma whole_units_payload: "payload d = payload e \<Longrightarrow> whole_units d = whole_units e"
  by (simp add: payload_def whole_units_def)

lemma in_block_units:
  assumes "bd_offset d = bytes p" and "bd_size d = bytes r"
  shows "in_block d (bytes u) \<longleftrightarrow> p \<le> u \<and> u < p + r"
  by (simp add: in_block_def assms flip: add_mult_distrib)

lemma unlink_block_descs:
  assumes "seg (descs v) None (ys @ b # zs) None" and "distinct (ys @ b # zs)"
  shows "unlink_block b v = v\<lparr>descs := link_prev (hd_or zs None) (last_or ys None)
      (link_next (last_or ys None) (hd_or zs None) (descs v))\<rparr>"
    and "descs (unlink_block b v) b = descs v b"
proof -
  note m = seg_mid [OF assms(1)]
  have n: "last_or ys None \<noteq> Some b" "hd_or zs None \<noteq> Some b"
    using assms(2) last_or_mem [of ys b] hd_or_mem [of zs b] by auto
  show eq: "unlink_block b v = v\<lparr>descs := link_prev (hd_or zs None) (last_or ys None)
      (link_next (last_or ys None) (hd_or zs None) (descs v))\<rparr>"
    using m n
    by (cases "last_or ys None"; cases "hd_or zs None")
      (simp_all add: unlink_block_def set_desc_def link_next_def link_prev_def Let_def)
  show "descs (unlink_block b v) b = descs v b"
    unfolding eq using n by simp
qed

lemma relocate_block_descs:
  assumes "seg (descs v) None (us @ m # ws) None" and "distinct (us @ m # ws)" and "b \<notin> set (us @ m # ws)"
  shows "\<And>x. x \<noteq> b \<Longrightarrow> descs (relocate_block b m v) x =
      link_prev (hd_or ws None) (Some b) (link_next (last_or us None) (Some b) (descs v)) x"
    and "descs (relocate_block b m v) b = descs v m"
    and "relocate_block b m v = v\<lparr>descs := descs (relocate_block b m v)\<rparr>"
proof -
  note mm = seg_mid [OF assms(1)]
  have n: "last_or us None \<noteq> Some m" "hd_or ws None \<noteq> Some m"
    using assms(2) last_or_mem [of us m] hd_or_mem [of ws m] by auto
  have eq: "relocate_block b m v = v\<lparr>descs := (link_prev (hd_or ws None) (Some b)
      (link_next (last_or us None) (Some b) (descs v)))(b := descs v m)\<rparr>"
    using mm n
    by (cases "last_or us None"; cases "hd_or ws None")
      (simp_all add: relocate_block_def set_desc_def link_next_def link_prev_def Let_def)
  show "\<And>x. x \<noteq> b \<Longrightarrow> descs (relocate_block b m v) x =
      link_prev (hd_or ws None) (Some b) (link_next (last_or us None) (Some b) (descs v)) x"
    and "descs (relocate_block b m v) b = descs v m"
    and "relocate_block b m v = v\<lparr>descs := descs (relocate_block b m v)\<rparr>"
    by (simp_all add: eq)
qed

text \<open>The offset map follows a block that moves to another descriptor.\<close>

lemma map_remove_ok:
  assumes "mapped v ps" and "p \<in> set ps" and "whole_units (descs v p)" and "distinct ps"
  obtains m where "map_remove p v = Some (v\<lparr>blocks := Some m\<rparr>)" and "om_ok m"
    and "\<And>u q. om_look m u = Some q \<longleftrightarrow> q \<in> set ps \<and> q \<noteq> p \<and> in_block (descs v q) (bytes u)"
proof -
  obtain o' r where u: "bd_offset (descs v p) = bytes o'" "bd_size (descs v p) = bytes r" "0 < r"
    using assms(3) by (auto simp: whole_units_def)
  obtain m where m: "blocks v = Some m" "om_ok m"
    "\<And>u q. om_look m u = Some q \<longleftrightarrow> q \<in> set ps \<and> in_block (descs v q) (bytes u)"
    using assms(1) by (auto simp: mapped_def)
  have iff: "om_look m u = Some p \<longleftrightarrow> o' \<le> u \<and> u < o' + r" for u
    using m(3) [of u p] assms(2) in_block_units [OF u(1,2)] by simp
  obtain m' where m': "remove_block m (bytes o') (bytes r) (allocs v) = Some (0, m', allocs v)" "om_ok m'"
    "om_look m' = write_units (om_look m) o' r None"
    using om.remove_total [OF m(2) u(3) iff] by blast
  have "om_look m' w = Some q \<longleftrightarrow> q \<in> set ps \<and> q \<noteq> p \<and> in_block (descs v q) (bytes w)" for w q
  proof (cases "o' \<le> w \<and> w < o' + r")
    case True
    then have "om_look m w = Some p"
      using iff by simp
    then have "\<not> (q \<in> set ps \<and> q \<noteq> p \<and> in_block (descs v q) (bytes w))"
      using m(3) [of w q] by auto
    then show ?thesis
      using True m'(3) by (simp add: write_units_def)
  next
    case False
    then have "om_look m w \<noteq> Some p"
      using iff by simp
    then show ?thesis
      using False m(3) [of w q] m'(3) by (auto simp: write_units_def)
  qed
  moreover have "map_remove p v = Some (v\<lparr>blocks := Some m'\<rparr>)"
    using m(1) m'(1) u by (simp add: map_remove_def)
  ultimately show thesis
    using m'(2) by (intro that)
qed

lemma map_insert_ok:
  assumes "blocks v = Some m" and "om_ok m" and "allocs v = []" and "whole_units (descs v p)"
    and "\<And>u. in_block (descs v p) (bytes u) \<Longrightarrow> om_look m u = None"
  obtains m' where "map_insert p v = Some (0, v\<lparr>blocks := Some m'\<rparr>)" and "om_ok m'"
    and "\<And>u q. om_look m' u = Some q \<longleftrightarrow>
      (if in_block (descs v p) (bytes u) then q = p else om_look m u = Some q)"
proof -
  obtain o' r where u: "bd_offset (descs v p) = bytes o'" "bd_size (descs v p) = bytes r" "0 < r"
    "bytes (o' + r) < W64"
    using assms(4) by (auto simp: whole_units_def)
  have free: "om_look m w = None" if "o' \<le> w" "w < o' + r" for w
    using assms(5) [of w] in_block_units [OF u(1,2), of w] that by simp
  obtain m' where m': "insert_block m p (bytes o') (bytes r) [] = Some (0, m', [])" "om_ok m'"
    "om_look m' = write_units (om_look m) o' r (Some p)"
    using om.insert_total [OF assms(2) u(3,4) free] by blast
  have "om_look m' w = Some q \<longleftrightarrow>
      (if in_block (descs v p) (bytes w) then q = p else om_look m w = Some q)" for w q
    using in_block_units [OF u(1,2), of w] m'(3) by (auto simp: write_units_def)
  moreover have "map_insert p v = Some (0, v\<lparr>blocks := Some m'\<rparr>)"
    using assms(1,3) m'(1) u by (simp add: map_insert_def)
  ultimately show thesis
    using m'(2) by (intro that)
qed

text \<open>Giving back the last descriptor in use.\<close>

definition last_slot :: "nat list \<Rightarrow> nat \<Rightarrow> bptr" where
  "last_slot rest i = BP (open_arr rest) (i - 1)"

lemma last_slot_used:
  assumes "slots_ok v rest i ps" and "ps \<noteq> []"
  shows "0 < i" and "last_slot rest i \<in> set ps"
proof -
  show i: "0 < i"
  proof (cases "rest = []")
    case True
    from assms(2) obtain p where "p \<in> set ps"
      by (cases ps) auto
    then have "p \<in> used_slots v rest i"
      using assms(1) by (simp add: slots_ok_def)
    then show ?thesis
      using True by (auto simp: used_slots_def)
  next
    case False
    then show ?thesis
      using assms(1) by (simp add: slots_ok_def)
  qed
  then show "last_slot rest i \<in> set ps"
    using assms(1) open_arr_mem [of rest] by (simp add: slots_ok_def used_slots_def last_slot_def)
qed

lemma used_slots_pred:
  assumes "0 < i"
  shows "used_slots v rest (i - 1) = used_slots v rest i - {last_slot rest i}"
proof (rule set_eqI)
  fix p
  show "p \<in> used_slots v rest (i - 1) \<longleftrightarrow> p \<in> used_slots v rest i - {last_slot rest i}"
    using assms by (cases p; cases "arr_of p = open_arr rest") (auto simp: used_slots_def last_slot_def)
qed

lemma slots_ok_pred:
  assumes "slots_ok v rest i ps" and "0 < i" and "rest \<noteq> [] \<Longrightarrow> 1 < i"
    and "arrays w = arrays v" and "first_free w = Some (BP (open_arr rest) (i - 1))"
    and "descs w (last_slot rest i) = zero_desc" and "\<And>p. p \<notin> set ps \<Longrightarrow> descs w p = descs v p"
    and "distinct ps'" and "set ps' = set ps - {last_slot rest i}"
  shows "slots_ok w rest (i - 1) ps'"
proof -
  have l: "arr_len w = arr_len v" "used_slots w rest j = used_slots v rest j" for j
    using assms(4) by (simp_all add: arr_len_def used_slots_def fun_eq_iff)
  have "descs w (BP (open_arr rest) j) = zero_desc"
    if "i - 1 \<le> j" "j < arr_len v (open_arr rest)" for j
  proof (cases "j = i - 1")
    case True
    then show ?thesis using assms(6) by (simp add: last_slot_def)
  next
    case False
    then have j: "i \<le> j"
      using that(1) by simp
    then have "BP (open_arr rest) j \<notin> set ps"
      using assms(1) by (simp add: slots_ok_def used_slots_def)
    then show ?thesis
      using assms(1,7) j that(2) by (simp add: slots_ok_def)
  qed
  then show ?thesis
    using assms(1,2,3,4,5,8,9) used_slots_pred [OF assms(2), of v rest]
    unfolding slots_ok_def by (auto simp: l)
qed

lemma remove_first_ok:
  assumes "slots_ok v (a # as) 1 ps" and "arrays w = arrays v" and "first_free w = Some (BP a 0)"
    and "distinct ps'" and "set ps' = set ps - {BP a 0}"
  obtains x where "remove_first_block_array w = Some x" and "slots_ok x as (arr_len x (open_arr as)) ps'"
    and "descs x = descs w" and "first_block x = first_block w" and "same_rest x w"
proof -
  have ch: "arr_chain (arrays v) (0 # a # as) (Some 0)" and d: "distinct (0 # a # as)"
    and used: "set ps = used_slots v (a # as) 1"
    using assms(1) by (simp_all add: slots_ok_def)
  obtain r0 r where r: "arrays v 0 = Some r0" "0 < ba_length r0" "ba_next r0 = Some a"
    "arrays v a = Some r" "arr_chain (arrays v) as (ba_next r)"
    using ch by (auto split: option.splits)
  define arrs where "arrs = (arrays v)(0 \<mapsto> r0\<lparr>ba_next := ba_next r\<rparr>)"
  have oa: "(case ba_next r of None \<Rightarrow> 0 | Some a \<Rightarrow> a) = open_arr as"
    using r(5) by (cases as) auto
  have "arr_chain arrs as (ba_next r) = arr_chain (arrays v) as (ba_next r)"
    using d by (intro arr_chain_frame) (auto simp: arrs_def)
  then have ch1: "arr_chain arrs (0 # as) (Some 0)"
    using r by (simp add: arrs_def)
  obtain ra where ra: "arrs (open_arr as) = Some ra" "0 < ba_length ra"
    using arr_chain_len [of "w\<lparr>arrays := arrs\<rparr>" "0 # as" "Some 0", OF _ open_arr_mem] ch1 by auto
  define x where "x = w\<lparr>arrays := arrs(a := None), first_free := Some (BP (open_arr as) (ba_length ra))\<rparr>"
  have eq: "remove_first_block_array w = Some x"
    using assms(2) r(1,3,4) oa ra(1)
    by (simp add: remove_first_block_array_def arrs_def x_def)
  have a: "a \<notin> set (0 # as)" "open_arr as \<noteq> a"
    using d open_arr_mem [of as] by auto
  have "arr_chain (arrs(a := None)) (0 # as) (Some 0) = arr_chain arrs (0 # as) (Some 0)"
    using a by (intro arr_chain_frame) auto
  then have ch2: "arr_chain (arrays x) (0 # as) (Some 0)"
    using ch1 by (simp add: x_def)
  have len: "arr_len x (open_arr as) = ba_length ra"
    using ra(1) a(2) by (simp add: arr_len_def x_def)
  have lens: "arr_len x b = arr_len v b" if "b \<noteq> a" for b
    using that r(1) by (simp add: arr_len_def x_def arrs_def)
  have us: "used_slots x as (arr_len x (open_arr as)) = set ps'"
  proof (rule set_eqI)
    fix p
    show "p \<in> used_slots x as (arr_len x (open_arr as)) \<longleftrightarrow> p \<in> set ps'"
    proof (cases "arr_of p = a")
      case True
      then show ?thesis
        using a(1) by (cases p) (auto simp: assms(5) used used_slots_def)
    next
      case False
      then show ?thesis
        using lens [OF False] lens [OF a(2)]
        by (cases p) (auto simp: assms(5) used used_slots_def)
    qed
  qed
  have "slots_ok x as (arr_len x (open_arr as)) ps'"
    unfolding slots_ok_def
  proof (intro conjI)
    show "distinct (0 # as)" "arr_chain (arrays x) (0 # as) (Some 0)" "distinct ps'"
      "set ps' = used_slots x as (arr_len x (open_arr as))"
      using d ch2 assms(4) us by simp_all
  qed (use ra(2) len in \<open>auto simp: x_def\<close>)
  then show thesis
    using eq by (intro that [of x]) (simp_all add: x_def same_rest_def)
qed

lemma give_back_ok:
  assumes "slots_ok v rest i ps" and "ps \<noteq> []" and "arrays w = arrays v"
    and "first_free w = Some (BP (open_arr rest) i)" and "\<And>p. p \<notin> set ps \<Longrightarrow> descs w p = descs v p"
    and "distinct ps'" and "set ps' = set ps - {last_slot rest i}"
  obtains x rest' i' where "give_back (last_slot rest i) w = Some x"
    and "slots_ok x rest' i' ps'" and "descs x = (descs w)(last_slot rest i := zero_desc)"
    and "first_block x = first_block w" and "same_rest x w"
proof -
  define w9 where "w9 = (set_desc (last_slot rest i) (\<lambda>_. zero_desc) w)\<lparr>first_free :=
      Some (BP (open_arr rest) (i - 1))\<rparr>"
  have gb: "give_back (last_slot rest i) w =
      (if is_first_block_array_empty w9 then remove_first_block_array w9 else Some w9)"
    using assms(4) by (simp add: give_back_def w9_def set_desc_def)
  note i = last_slot_used [OF assms(1,2)]
  have w9: "arrays w9 = arrays v" "first_free w9 = Some (BP (open_arr rest) (i - 1))"
    "descs w9 = (descs w)(last_slot rest i := zero_desc)" "first_block w9 = first_block w"
    "same_rest w9 w"
    using assms(3,4) by (simp_all add: w9_def set_desc_def same_rest_def)
  show thesis
  proof (cases "rest = [] \<or> 1 < i")
    case True
    have "slots_ok w9 rest (i - 1) ps'"
      by (rule slots_ok_pred [OF assms(1) i(1) _ w9(1,2) _ _ assms(6,7)])
        (use True i(2) w9(3) assms(5) in auto)
    moreover have "\<not> is_first_block_array_empty w9"
      using True w9(2) by (auto simp: is_first_block_array_empty_def)
    ultimately show ?thesis
      using gb w9 by (intro that [of w9]) auto
  next
    case False
    then obtain a as where rest: "rest = a # as" and i1: "i = 1"
      using i(1) by (cases rest) auto
    have "a \<noteq> 0"
      using assms(1) rest by (auto simp: slots_ok_def)
    then have e: "is_first_block_array_empty w9"
      using w9(2) rest i1 by (simp add: is_first_block_array_empty_def)
    obtain x where x: "remove_first_block_array w9 = Some x"
      "slots_ok x as (arr_len x (open_arr as)) ps'" "descs x = descs w9"
      "first_block x = first_block w9" "same_rest x w9"
      by (rule remove_first_ok [of v a as ps w9 ps'])
        (use assms(1,6,7) rest i1 w9(1,2) in \<open>simp_all add: last_slot_def\<close>)
    show ?thesis
      using gb e x w9(3,4,5) by (intro that [of x]) (simp_all add: same_rest_def)
  qed
qed

definition removed :: "pfile \<Rightarrow> bptr list \<Rightarrow> bptr \<Rightarrow> bptr list \<Rightarrow> pfile \<Rightarrow> bptr list \<Rightarrow> bptr list \<Rightarrow> bool" where
  "removed v ys b zs w ys' zs' \<longleftrightarrow>
     (\<exists>rest i. slots_ok w rest i (ys' @ zs')) \<and> linked w (ys' @ zs') \<and> mapped w (ys' @ zs') \<and>
     map (payload \<circ> descs w) ys' = map (payload \<circ> descs v) ys \<and>
     map (payload \<circ> descs w) zs' = map (payload \<circ> descs v) zs \<and> allocs w = [] \<and>
     invalidations w = invalidations v \<and> datas w = (case bd_data (descs v b) of None \<Rightarrow> datas v | Some oid \<Rightarrow> (datas v)(oid := None))"

lemma mapped_unique:
  "mapped v ps \<Longrightarrow> p \<in> set ps \<Longrightarrow> q \<in> set ps \<Longrightarrow> in_block (descs v p) (bytes u) \<Longrightarrow>
     in_block (descs v q) (bytes u) \<Longrightarrow> p = q"
  unfolding mapped_def by (metis option.inject)

lemma mapped_cong:
  assumes "mapped v ps" and "blocks w = blocks v" and "set qs = set ps"
    and "\<And>p. p \<in> set ps \<Longrightarrow> payload (descs w p) = payload (descs v p)"
  shows "mapped w qs"
proof -
  have "p \<in> set ps \<and> in_block (descs w p) x \<longleftrightarrow> p \<in> set ps \<and> in_block (descs v p) x" for p x
    using assms(4) [of p] in_block_payload by blast
  then show ?thesis
    using assms(1,2,3) unfolding mapped_def by simp
qed

text \<open>Filling the gap: the last descriptor in use moves to the descriptor of the removed block.\<close>

lemma fill_gap_ok:
  assumes l: "linked v (us @ mv # ws)" "distinct (us @ mv # ws)" and b: "b \<notin> set (us @ mv # ws)"
    and m: "mapped v (us @ mv # ws)" and wu: "whole_units (descs v mv)" and al: "allocs v = []"
  obtains v6 where "fill_gap b mv v = tx_ret v6"
    and "linked v6 (us @ b # ws)" and "mapped v6 (us @ b # ws)"
    and "payload (descs v6 b) = payload (descs v mv)"
    and "\<And>p. p \<noteq> b \<Longrightarrow> payload (descs v6 p) = payload (descs v p)"
    and "\<And>p. p \<notin> set (b # us @ ws) \<Longrightarrow> descs v6 p = descs v p"
    and "arrays v6 = arrays v" and "first_free v6 = first_free v" and "datas v6 = datas v" and "allocs v6 = []"
    and "invalidations v6 = invalidations v"
proof -
  define v4 where "v4 = (if first_block v = Some mv then v\<lparr>first_block := Some b\<rparr> else v)"
  have v4: "descs v4 = descs v" "blocks v4 = blocks v" "allocs v4 = []" "arrays v4 = arrays v"
    "first_free v4 = first_free v" "datas v4 = datas v" "invalidations v4 = invalidations v"
    using al by (simp_all add: v4_def)
  have fb4: "first_block v4 = hd_or (us @ b # ws) None"
    using l by (cases us) (auto simp: v4_def linked_def)
  have m4: "mapped v4 (us @ mv # ws)"
    by (rule mapped_cong [OF m]) (simp_all add: v4)
  obtain m1 where m1: "map_remove mv v4 = Some (v4\<lparr>blocks := Some m1\<rparr>)" "om_ok m1"
    "\<And>u q. om_look m1 u = Some q \<longleftrightarrow>
       q \<in> set (us @ mv # ws) \<and> q \<noteq> mv \<and> in_block (descs v4 q) (bytes u)"
    by (rule map_remove_ok [OF m4]) (use wu l(2) v4 in auto)
  define v5 where "v5 = v4\<lparr>blocks := Some m1\<rparr>"
  have sv5: "seg (descs v5) None (us @ mv # ws) None"
    using l(1) v4(1) by (simp add: v5_def linked_def)
  note rd = relocate_block_descs [OF sv5 l(2) b]
  define v5' where "v5' = relocate_block b mv v5"
  have v5': "blocks v5' = Some m1" "allocs v5' = []" "arrays v5' = arrays v" "first_free v5' = first_free v"
    "datas v5' = datas v" "invalidations v5' = invalidations v" "first_block v5' = hd_or (us @ b # ws) None"
    unfolding v5'_def by (subst rd(3), simp add: v5_def v4 fb4)+
  have db: "descs v5' b = descs v mv"
    using rd(2) by (simp add: v5'_def v5_def v4)
  have do: "descs v5' x = link_prev (hd_or ws None) (Some b) (link_next (last_or us None) (Some b) (descs v)) x"
    if "x \<noteq> b" for x
    using rd(1) [OF that] by (simp add: v5'_def v5_def v4)
  have pay: "payload (descs v5' p) = payload (descs v p)" if "p \<noteq> b" for p
    using do [OF that] by simp
  have free: "om_look m1 u = None" if "in_block (descs v5' b) (bytes u)" for u
  proof (rule ccontr)
    assume "om_look m1 u \<noteq> None"
    then obtain q where "om_look m1 u = Some q"
      by auto
    then show False
      using m1(3) [of u q] that mapped_unique [OF m4, of q mv u] by (auto simp: db v4)
  qed
  have wb: "whole_units (descs v5' b)"
    using wu db by simp
  obtain m2 where m2: "map_insert b v5' = Some (0, v5'\<lparr>blocks := Some m2\<rparr>)" "om_ok m2"
    "\<And>u q. om_look m2 u = Some q \<longleftrightarrow>
       (if in_block (descs v5' b) (bytes u) then q = b else om_look m1 u = Some q)"
    by (rule map_insert_ok [OF v5'(1) m1(2) v5'(2) wb free]) (assumption, rule that)
  define v6 where "v6 = v5'\<lparr>blocks := Some m2\<rparr>"
  have "seg (descs v6) None (us @ b # ws) None"
    by (rule seg_relocate [OF _ l(2) b, of "descs v"])
      (use l(1) do db seg_mid [of "descs v" None us mv ws None] in \<open>auto simp: v6_def linked_def\<close>)
  then have lk: "linked v6 (us @ b # ws)"
    using v5'(7) by (simp add: linked_def v6_def)
  have mp: "mapped v6 (us @ b # ws)"
  proof -
    have "om_look m2 u = Some q \<longleftrightarrow> q \<in> set (us @ b # ws) \<and> in_block (descs v5' q) (bytes u)" for u q
    proof (cases "in_block (descs v5' b) (bytes u)")
      case True
      then have "in_block (descs v4 mv) (bytes u)"
        by (simp add: db v4)
      then have "q = b" if "q \<in> set (us @ b # ws)" "in_block (descs v5' q) (bytes u)"
      proof -
        have "q = mv" if "q \<noteq> b"
          using that \<open>q \<in> set (us @ b # ws)\<close> \<open>in_block (descs v5' q) (bytes u)\<close> pay [OF that]
            mapped_unique [OF m4, of q mv u] \<open>in_block (descs v4 mv) (bytes u)\<close>
            in_block_payload [of "descs v5' q" "descs v q"] by (auto simp: v4)
        then show ?thesis
          using that l(2) b by auto
      qed
      with True show ?thesis
        using m2(3) [of u q] by auto
    next
      case False
      have "q \<in> set (us @ mv # ws) \<and> q \<noteq> mv \<and> in_block (descs v4 q) (bytes u) \<longleftrightarrow>
          q \<in> set (us @ b # ws) \<and> in_block (descs v5' q) (bytes u)"
      proof (cases "q = b")
        case True
        then show ?thesis using False b by auto
      next
        case qb: False
        then show ?thesis
          using l(2) in_block_payload [OF pay [OF qb]] by (auto simp: v4)
      qed
      then show ?thesis
        using False m2(3) [of u q] m1(3) [of u q] by simp
    qed
    then show ?thesis
      using m2(2) by (simp add: mapped_def v6_def)
  qed
  have fr: "descs v6 p = descs v p" if "p \<notin> set (b # us @ ws)" for p
  proof -
    have "hd_or ws None \<noteq> Some p" "last_or us None \<noteq> Some p" "p \<noteq> b"
      using that hd_or_mem [of ws p] last_or_mem [of us p] by auto
    then show ?thesis
      using do [of p] by (simp add: v6_def)
  qed
  show thesis
  proof (rule that [of v6])
    have "mv \<noteq> b"
      using b by auto
    then show "fill_gap b mv v = tx_ret v6"
      using m1(1) m2(1)
      by (simp add: fill_gap_def Let_def v6_def flip: v4_def v5_def) (simp flip: v5'_def)
  qed (use lk mp v5' db pay fr in \<open>auto simp: v6_def\<close>)
qed

lemma block_list_remove_ok:
  assumes so: "slots_ok v rest i (ys @ b # zs)" and lk: "linked v (ys @ b # zs)"
    and sz: "sized v (ys @ b # zs)" and mp: "mapped v (ys @ zs)" and al: "allocs v = []"
    and wu: "\<And>p. p \<in> set (ys @ zs) \<Longrightarrow> whole_units (descs v p)"
  shows "\<exists>w ys' zs'. block_list_remove v b = tx_ret (last_or ys' None, w) \<and> removed v ys b zs w ys' zs'"
proof -
  define v0 where "v0 = v\<lparr>first_free := Some (BP (open_arr rest) i)\<rparr>"
  have u: "update_first_block_info v = Some v0"
    unfolding v0_def by (rule update_first_block_info_ok [OF so sz])
  have s0: "slots_ok v0 rest i (ys @ b # zs)"
    using so by (simp add: slots_ok_def v0_def used_slots_def arr_len_def)
  have dis: "distinct (ys @ b # zs)"
    using so by (simp add: slots_ok_def)
  define mv where "mv = last_slot rest i"
  have mv: "0 < i" "mv \<in> set (ys @ b # zs)"
    using last_slot_used [OF so] by (simp_all add: mv_def)
  have lu: "last_used_block v0 = Some mv"
    using mv(1) by (simp add: last_used_block_def v0_def mv_def last_slot_def)
  have sv: "seg (descs v0) None (ys @ b # zs) None"
    using lk by (simp add: linked_def v0_def)
  note ul = unlink_block_descs [OF sv dis]
  define v1 where "v1 = unlink_block b v0"
  have b1: "descs v1 b = descs v b" "bd_prev (descs v b) = last_or ys None" "bd_next (descs v b) = hd_or zs None"
    using ul(2) seg_mid [OF sv] by (simp_all add: v1_def v0_def)
  have v1: "arrays v1 = arrays v" "first_free v1 = Some (BP (open_arr rest) i)" "datas v1 = datas v"
    "blocks v1 = blocks v" "allocs v1 = []" "invalidations v1 = invalidations v" "first_block v1 = hd_or (ys @ b # zs) None"
    unfolding v1_def ul(1) using lk al by (simp_all add: v0_def linked_def)
  have sg1: "seg (descs v1) None (ys @ zs) None"
    unfolding v1_def ul(1) using seg_remove [OF sv dis] by simp
  have pay1: "payload (descs v1 p) = payload (descs v p)" for p
    unfolding v1_def ul(1) by (simp add: v0_def)
  have fr1: "descs v1 p = descs v p" if "p \<notin> set (ys @ b # zs)" for p
  proof -
    have "hd_or zs None \<noteq> Some p" "last_or ys None \<noteq> Some p"
      using that hd_or_mem [of zs p] last_or_mem [of ys p] by auto
    then show ?thesis
      unfolding v1_def ul(1) by (simp add: v0_def)
  qed
  define v3 where "v3 = drop_block b v0"
  have v3: "arrays v3 = arrays v" "first_free v3 = Some (BP (open_arr rest) i)"
    "blocks v3 = blocks v" "allocs v3 = []" "descs v3 = descs v1" "invalidations v3 = invalidations v"
    "datas v3 = (case bd_data (descs v b) of None \<Rightarrow> datas v | Some oid \<Rightarrow> (datas v)(oid := None))"
    using v1 b1(1) by (simp_all add: v3_def drop_block_def Let_def flip: v1_def split: option.splits)
  have fb3: "first_block v3 = hd_or (ys @ zs) None"
    using v1(7) b1 dis by (cases ys) (auto simp: v3_def drop_block_def Let_def simp flip: v1_def split: option.splits)
  have lk3: "linked v3 (ys @ zs)"
    using fb3 sg1 v3(5) by (simp add: linked_def)
  have mp3: "mapped v3 (ys @ zs)"
    by (rule mapped_cong [OF mp v3(3)]) (simp_all add: v3(5) pay1)
  have rm: "block_list_remove v b = tx_bind (fill_gap b mv v3) (\<lambda>w. case give_back mv w of None \<Rightarrow> None
      | Some x \<Rightarrow> tx_ret (if last_or ys None = Some mv then Some b else last_or ys None, x))"
    using b1 by (simp add: block_list_remove_def u lu v3_def Let_def flip: v1_def cong: option.case_cong)
  show ?thesis
  proof (cases "mv = b")
    case True
    have set: "set (ys @ zs) = set (ys @ b # zs) - {last_slot rest i}"
      using dis True by (auto simp: mv_def)
    have fr3: "descs v3 p = descs v p" if "p \<notin> set (ys @ b # zs)" for p
      using fr1 [OF that] v3(5) by simp
    obtain x rest' i' where x: "give_back (last_slot rest i) v3 = Some x"
      "slots_ok x rest' i' (ys @ zs)" "descs x = (descs v3)(last_slot rest i := zero_desc)"
      "first_block x = first_block v3" "same_rest x v3"
      by (rule give_back_ok [OF so _ v3(1,2) fr3 _ set]) (use dis in auto)
    have "last_or ys None \<noteq> Some b"
      using dis last_or_mem [of ys b] by auto
    then have eq: "block_list_remove v b = tx_ret (last_or ys None, x)"
      using x(1) True by (simp add: rm fill_gap_def flip: mv_def)
    have px: "payload (descs x p) = payload (descs v p)" if "p \<in> set (ys @ zs)" for p
      using that set x(3) v3(5) pay1 by auto
    have "seg (descs x) None (ys @ zs) None = seg (descs v3) None (ys @ zs) None"
      using set by (intro seg_cong) (auto simp: x(3))
    then have "linked x (ys @ zs)"
      using lk3 x(4) by (simp add: linked_def)
    moreover have "mapped x (ys @ zs)"
      by (rule mapped_cong [OF mp]) (use x(5) v3(3) px in \<open>simp_all add: same_rest_def\<close>)
    ultimately have "removed v ys b zs x ys zs"
      using x(2,5) px v3(4,6,7) unfolding removed_def by (auto simp: same_rest_def)
    then show ?thesis
      using eq by blast
  next
    case False
    define ren where "ren = (\<lambda>p. if p = mv then b else p)"
    have "mv \<in> set (ys @ zs)"
      using mv(2) False by auto
    then obtain us ws where sp: "ys @ zs = us @ mv # ws"
      by (meson split_list)
    have du: "distinct (us @ mv # ws)" and bu: "b \<notin> set (us @ mv # ws)"
      using dis unfolding sp [symmetric] by auto
    have ren: "map ren ys @ map ren zs = us @ b # ws"
      unfolding map_append [symmetric] sp using du by (auto simp: ren_def intro!: map_idI)
    have wm: "whole_units (descs v3 mv)"
      using wu [of mv] \<open>mv \<in> set (ys @ zs)\<close> whole_units_payload [OF pay1, of mv] v3(5) by simp
    obtain v6 where f: "fill_gap b mv v3 = tx_ret v6" "linked v6 (us @ b # ws)" "mapped v6 (us @ b # ws)"
      "payload (descs v6 b) = payload (descs v3 mv)"
      "\<And>p. p \<noteq> b \<Longrightarrow> payload (descs v6 p) = payload (descs v3 p)"
      "\<And>p. p \<notin> set (b # us @ ws) \<Longrightarrow> descs v6 p = descs v3 p"
      "arrays v6 = arrays v3" "first_free v6 = first_free v3" "datas v6 = datas v3" "allocs v6 = []" "invalidations v6 = invalidations v3"
      by (rule fill_gap_ok [OF lk3 [unfolded sp] du bu mp3 [unfolded sp] wm v3(4)]) blast
    have all: "set (ys @ b # zs) = insert mv (set (us @ b # ws))"
      using arg_cong [OF sp, of set] by auto
    have set: "set (us @ b # ws) = set (ys @ b # zs) - {last_slot rest i}"
      unfolding all using du bu by (auto simp flip: mv_def)
    have fr6: "descs v6 p = descs v p" if "p \<notin> set (ys @ b # zs)" for p
    proof -
      have "p \<notin> set (b # us @ ws)"
        using that unfolding all by simp
      then show ?thesis
        using f(6) [of p] fr1 [OF that] v3(5) by simp
    qed
    have a6: "arrays v6 = arrays v" "first_free v6 = Some (BP (open_arr rest) i)"
      using f(7,8) v3(1,2) by simp_all
    have d6: "distinct (us @ b # ws)"
      using du bu by auto
    obtain x rest' i' where x: "give_back (last_slot rest i) v6 = Some x"
      "slots_ok x rest' i' (us @ b # ws)" "descs x = (descs v6)(last_slot rest i := zero_desc)"
      "first_block x = first_block v6" "same_rest x v6"
      by (rule give_back_ok [OF so _ a6 fr6 d6 set]) auto
    have "last_or (map ren ys) None = map_option ren (last_or ys None)"
      using last_or_map [of ren ys None] by simp
    also have "\<dots> = (if last_or ys None = Some mv then Some b else last_or ys None)"
      by (cases "last_or ys None") (auto simp: ren_def)
    finally have eq: "block_list_remove v b = tx_ret (last_or (map ren ys) None, x)"
      using x(1) f(1) by (simp add: rm flip: mv_def)
    have px: "payload (descs x p) = payload (descs v6 p)" if "p \<in> set (us @ b # ws)" for p
      using that set x(3) by auto
    have pr: "payload (descs x (ren p)) = payload (descs v p)" if "p \<in> set (ys @ zs)" for p
    proof -
      have rp: "ren p \<in> set (us @ b # ws)"
        using that unfolding ren [symmetric] by auto
      show ?thesis
      proof (cases "p = mv")
        case True
        then show ?thesis
          using px [OF rp] f(4) pay1 [of mv] v3(5) by (simp add: ren_def)
      next
        case pm: False
        moreover have "p \<noteq> b"
          using that dis by auto
        ultimately show ?thesis
          using px [OF rp] f(5) [of p] pay1 [of p] v3(5) by (simp add: ren_def)
      qed
    qed
    have "seg (descs x) None (us @ b # ws) None = seg (descs v6) None (us @ b # ws) None"
      using set by (intro seg_cong) (auto simp: x(3))
    then have "linked x (us @ b # ws)"
      using f(2) x(4) by (simp add: linked_def)
    moreover have "mapped x (us @ b # ws)"
      by (rule mapped_cong [OF f(3)]) (use x(5) px in \<open>simp_all add: same_rest_def\<close>)
    moreover have "\<exists>rest i. slots_ok x rest i (us @ b # ws)"
      using x(2) by blast
    ultimately have "removed v ys b zs x (map ren ys) (map ren zs)"
      using x(5) pr f(9-11) v3(6,7) unfolding removed_def ren by (simp add: same_rest_def)
    then show ?thesis
      using eq by blast
  qed
qed

end
