(* ===== verification/Data.thy ===== *)
theory Data
  imports Block_List
begin

text \<open>
  File data (\<^verbatim>\<open>data.c\<close>): finding blocks, allocating an interval of a file, reading and writing a
  range, punching a hole, and rebuilding the offset map from the block descriptors. This theory
  holds the definitions.

  Assertions of the source that can fail, null pointers and reads outside a block give \<open>None\<close>.
  The inode's size and the flag \<^verbatim>\<open>pmemfile_overallocate_on_append\<close> are arguments. The poisoning of
  new blocks in debug builds is left out.
\<close>

section \<open>Lookup\<close>

definition BLOCK_INITIALIZED :: nat where
  "BLOCK_INITIALIZED = 1"

definition block_cache_insert_block_in_tx :: "bptr \<Rightarrow> pfile \<Rightarrow> pfile tx_result" where
  "block_cache_insert_block_in_tx block v =
     (case map_insert block v of
        None \<Rightarrow> None
      | Some (err, v') \<Rightarrow> if err \<noteq> 0 then tx_fail err else tx_ret v')"

definition find_closest_block :: "pfile \<Rightarrow> nat \<Rightarrow> bptr option option" where
  "find_closest_block v off =
     (case blocks v of
        None \<Rightarrow> None
      | Some m \<Rightarrow> block_find_closest (\<lambda>p. bd_prev (descs v p)) m off)"

definition find_last_block :: "pfile \<Rightarrow> bptr option option" where
  "find_last_block v = find_closest_block v UINT64_MAX"

definition is_offset_in_block :: "pfile \<Rightarrow> bptr option \<Rightarrow> nat \<Rightarrow> bool" where
  "is_offset_in_block v block offset =
     (case block of
        None \<Rightarrow> False
      | Some p \<Rightarrow> bd_offset (descs v p) \<le> offset \<and>
                  offset < add64 (bd_offset (descs v p)) (bd_size (descs v p)))"

definition is_block_data_initialized :: "block_desc \<Rightarrow> bool" where
  "is_block_data_initialized d \<longleftrightarrow> bd_flags d AND BLOCK_INITIALIZED \<noteq> 0"

definition find_closest_block_with_hint :: "pfile \<Rightarrow> nat \<Rightarrow> bptr option \<Rightarrow> bptr option option" where
  "find_closest_block_with_hint v offset last_block =
     (if is_offset_in_block v last_block offset then Some last_block else find_closest_block v offset)"

section \<open>Rebuilding the offset map\<close>

text \<open>
  The inner loop over one array, with the number of remaining entries. The result is the error
  code, the map, the first block so far and the answers left.
\<close>

fun rebuild_array ::
  "pfile \<Rightarrow> nat \<Rightarrow> nat \<Rightarrow> nat \<Rightarrow> bptr offset_map \<Rightarrow> bptr option \<Rightarrow> answers
    \<Rightarrow> (nat \<times> bptr offset_map \<times> bptr option \<times> answers) option" where
  "rebuild_array v a i 0 m fst_b os = Some (0, m, fst_b, os)"
| "rebuild_array v a i (Suc n) m fst_b os =
     (let block = BP a i; d = descs v block in
      if bd_size d = 0 then Some (0, m, fst_b, os)
      else
        (case insert_block m block (bd_offset d) (bd_size d) os of
           None \<Rightarrow> None
         | Some (err, m', os') \<Rightarrow>
             if err \<noteq> 0 then Some (err, m', fst_b, os')
             else
               rebuild_array v a (Suc i) n m'
                 (case fst_b of
                    None \<Rightarrow> Some block
                  | Some f \<Rightarrow> if bd_offset d < bd_offset (descs v f) then Some block else fst_b) os'))"

partial_function (option) rebuild_arrays ::
  "pfile \<Rightarrow> nat option \<Rightarrow> bptr offset_map \<Rightarrow> bptr option \<Rightarrow> answers
    \<Rightarrow> (nat \<times> bptr offset_map \<times> bptr option \<times> answers) option" where
  "rebuild_arrays v arr m fst_b os =
     (case arr of
        None \<Rightarrow> Some (0, m, fst_b, os)
      | Some a \<Rightarrow>
          (case arrays v a of
             None \<Rightarrow> None
           | Some r \<Rightarrow>
               (case rebuild_array v a 0 (ba_length r) m fst_b os of
                  None \<Rightarrow> None
                | Some (err, m', fst_b', os') \<Rightarrow>
                    if err \<noteq> 0 then Some (err, m', fst_b', os')
                    else rebuild_arrays v (ba_next r) m' fst_b' os')))"

declare rebuild_arrays.simps [code]

definition vinode_rebuild_block_tree :: "pfile \<Rightarrow> (nat \<times> pfile) option" where
  "vinode_rebuild_block_tree v =
     (case offset_map_new (allocs v) of
        None \<Rightarrow> None
      | Some (m, os) \<Rightarrow>
          (case rebuild_arrays v (Some 0) m None os of
             None \<Rightarrow> None
           | Some (err, m', fst_b, os') \<Rightarrow>
               if err \<noteq> 0 then Some (err, v\<lparr>allocs := os'\<rparr>)
               else Some (0, v\<lparr>first_block := fst_b, blocks := Some m', allocs := os'\<rparr>)))"

section \<open>Allocation\<close>

definition file_allocate_block_data :: "store \<Rightarrow> bptr \<Rightarrow> pmem_block_info \<Rightarrow> pfile \<Rightarrow> pfile tx_result" where
  "file_allocate_block_data st block info v =
     (case alloc_data st (datas v) (bi_size info) of
        Inl e \<Rightarrow> tx_fail e
      | Inr (oid, bs) \<Rightarrow>
          tx_ret ((set_desc block (\<lambda>d. d\<lparr>bd_data := Some oid, bd_size := u32 (bi_size info), bd_flags := 0\<rparr>) v)
                  \<lparr>datas := (datas v)(oid \<mapsto> bs)\<rparr>))"

definition is_append :: "pfile \<Rightarrow> nat \<Rightarrow> nat \<Rightarrow> nat \<Rightarrow> bool option" where
  "is_append v isize offset sz =
     (if add64 offset sz \<le> isize then Some False
      else
        (case find_last_block v of
           None \<Rightarrow> None
         | Some None \<Rightarrow> Some True
         | Some (Some b) \<Rightarrow>
             Some (add64 (bd_offset (descs v b)) (bd_size (descs v b)) < add64 offset sz)))"

definition overallocate_size :: "nat \<Rightarrow> nat" where
  "overallocate_size sz =
     (if sz \<le> 4096 then 16 * 1024
      else if sz \<le> 64 * 1024 then 256 * 1024
      else if sz \<le> 1024 * 1024 then 4 * 1024 * 1024
      else if sz \<le> 64 * 1024 * 1024 then 64 * 1024 * 1024
      else sz)"

text \<open>
  The four places of the loop that add a block have the same five lines: a block of at most
  \<open>limit\<close> bytes for a request of \<open>sz\<close> bytes is put at \<open>offset\<close>, after \<open>prev\<close> in the list.
\<close>

definition add_block ::
  "block_conf \<Rightarrow> store \<Rightarrow> nat \<Rightarrow> nat \<Rightarrow> nat \<Rightarrow> bptr option \<Rightarrow> pfile \<Rightarrow> (bptr \<times> pfile) tx_result" where
  "add_block c st offset sz limit prev v =
     (case data_block_info c sz limit of
        None \<Rightarrow> None
      | Some info \<Rightarrow>
          tx_bind (block_list_insert_after c st v prev) (\<lambda>(block, v1).
          tx_bind (file_allocate_block_data st block info
                    (set_desc block (\<lambda>d. d\<lparr>bd_offset := offset\<rparr>) v1)) (\<lambda>v2.
          tx_bind (block_cache_insert_block_in_tx block v2) (\<lambda>v3. tx_ret (block, v3)))))"

text \<open>
  One round of the loop: \<open>None\<close> inside is \<^verbatim>\<open>break\<close>, else the new block, offset, size and space.
\<close>

definition allocate_step ::
  "block_conf \<Rightarrow> store \<Rightarrow> pfile \<Rightarrow> bptr option \<Rightarrow> nat \<Rightarrow> nat \<Rightarrow> nat
    \<Rightarrow> (pfile \<times> bptr option \<times> nat \<times> nat \<times> nat) option tx_result" where
  "allocate_step c st v block offset sz space =
     (let added = (\<lambda>(b, w). tx_ret (Some (w, Some b, offset, sz, space + bd_size (descs w b)))) in
      if is_offset_in_block v block offset then
        (case block of
           None \<Rightarrow> None
         | Some p \<Rightarrow>
             let available = bd_size (descs v p) - (offset - bd_offset (descs v p)) in
             if sz \<le> available then tx_ret None
             else tx_ret (Some (v, block, add64 offset available, sz - available, space)))
      else
        (case block of
           None \<Rightarrow>
             (case first_block v of
                None \<Rightarrow> tx_bind (add_block c st offset sz (MAX_BLOCK_SIZE c) None v) added
              | Some f \<Rightarrow>
                  let first_offset = bd_offset (descs v f);
                      count = (if add64 offset sz > first_offset
                               then u32 (sub64 first_offset offset) else sz)
                  in tx_bind (add_block c st offset sz count None v) added)
         | Some p \<Rightarrow>
             (case bd_next (descs v p) of
                None \<Rightarrow> tx_bind (add_block c st offset sz (MAX_BLOCK_SIZE c) block v) added
              | Some n \<Rightarrow>
                  let hole_count = sub64 (bd_offset (descs v n)) offset in
                  if hole_count > 0
                  then tx_bind (add_block c st offset sz hole_count block v) added
                  else tx_ret (Some (v, Some n, offset, sz, space)))))"

partial_function (option) allocate_loop ::
  "block_conf \<Rightarrow> store \<Rightarrow> pfile \<Rightarrow> bptr option \<Rightarrow> nat \<Rightarrow> nat \<Rightarrow> nat \<Rightarrow> (nat \<times> pfile) tx_result" where
  "allocate_loop c st v block offset sz space =
     tx_bind (allocate_step c st v block offset sz space) (\<lambda>r.
     case r of
       None \<Rightarrow> tx_ret (space, v)
     | Some (v', block', offset', sz', space') \<Rightarrow>
         if sz' > 0 then allocate_loop c st v' block' offset' sz' space' else tx_ret (space', v'))"

declare allocate_loop.simps [code]

text \<open>The result is the space that was allocated.\<close>

definition vinode_allocate_interval ::
  "block_conf \<Rightarrow> store \<Rightarrow> bool \<Rightarrow> nat \<Rightarrow> pfile \<Rightarrow> nat \<Rightarrow> nat \<Rightarrow> (nat \<times> pfile) tx_result" where
  "vinode_allocate_interval c st overallocate isize v offset sz =
     (case (if overallocate then is_append v isize offset sz else Some False) of
        None \<Rightarrow> None
      | Some over \<Rightarrow>
          let sz1 = (if over then overallocate_size sz else sz) in
          (case expand_to_full_pages c offset sz1 of
             (offset2, sz2) \<Rightarrow>
               (case find_closest_block v offset2 of
                  None \<Rightarrow> None
                | Some block \<Rightarrow> allocate_loop c st v block offset2 sz2 0)))"

text \<open>The loop of \<open>vinode_is_interval_allocated\<close> from a block on; the result is \<^verbatim>\<open>iterator\<close>.\<close>

partial_function (option) allocated_until :: "pfile \<Rightarrow> bptr \<Rightarrow> nat \<Rightarrow> nat option" where
  "allocated_until v block end_offset =
     (let iter = add64 (bd_offset (descs v block)) (bd_size (descs v block)) in
      case bd_next (descs v block) of
        None \<Rightarrow> Some iter
      | Some n \<Rightarrow>
          if iter < end_offset \<and> is_offset_in_block v (Some n) iter
          then allocated_until v n end_offset else Some iter)"

declare allocated_until.simps [code]

definition vinode_is_interval_allocated :: "pfile \<Rightarrow> nat \<Rightarrow> nat \<Rightarrow> bptr option \<Rightarrow> bool option" where
  "vinode_is_interval_allocated v offset sz block =
     (let found = (if is_offset_in_block v block offset then Some block else find_closest_block v offset) in
      case found of
        None \<Rightarrow> None
      | Some b \<Rightarrow>
          if \<not> is_offset_in_block v b offset then Some False
          else
            (case b of
               None \<Rightarrow> None
             | Some p \<Rightarrow> map_option (\<lambda>iter. add64 offset sz \<le> iter) (allocated_until v p (add64 offset sz))))"

section \<open>Reading and writing\<close>

definition write_range :: "byte list \<Rightarrow> nat \<Rightarrow> byte list \<Rightarrow> byte list" where
  "write_range bs start xs = take start bs @ xs @ drop (start + length xs) bs"

definition find_following_block :: "pfile \<Rightarrow> bptr option \<Rightarrow> bptr option" where
  "find_following_block v block =
     (case block of Some p \<Rightarrow> bd_next (descs v p) | None \<Rightarrow> first_block v)"

text \<open>The data of a block; a null pointer or freed data is \<open>None\<close>.\<close>

definition block_data :: "pfile \<Rightarrow> bptr \<Rightarrow> byte list option" where
  "block_data v p = (case bd_data (descs v p) of None \<Rightarrow> None | Some oid \<Rightarrow> datas v oid)"

definition set_block_data :: "pfile \<Rightarrow> bptr \<Rightarrow> byte list \<Rightarrow> pfile" where
  "set_block_data v p bs =
     (case bd_data (descs v p) of None \<Rightarrow> v | Some oid \<Rightarrow> v\<lparr>datas := (datas v)(oid \<mapsto> bs)\<rparr>)"

definition read_block_range :: "pfile \<Rightarrow> bptr option \<Rightarrow> nat \<Rightarrow> nat \<Rightarrow> byte list option" where
  "read_block_range v block offset len =
     (case block of
        None \<Rightarrow> Some (replicate len 0)
      | Some p \<Rightarrow>
          if is_block_data_initialized (descs v p) then
            (case block_data v p of
               None \<Rightarrow> None
             | Some bs \<Rightarrow> if offset + len \<le> length bs then Some (take len (drop offset bs)) else None)
          else Some (replicate len 0))"

definition write_block_range :: "pfile \<Rightarrow> bptr \<Rightarrow> nat \<Rightarrow> byte list \<Rightarrow> pfile option" where
  "write_block_range v block offset buf =
     (case block_data v block of
        None \<Rightarrow> None
      | Some bs \<Rightarrow>
          let d = descs v block; len = length buf in
          if length bs < offset + len \<or> bd_size d < offset + len then None
          else
            let bs1 = (if is_block_data_initialized d then bs
                       else
                         write_range (write_range bs 0 (replicate offset 0)) (offset + len)
                           (replicate (bd_size d - (offset + len)) 0));
                v1 = set_block_data v block (write_range bs1 offset buf)
            in Some (if is_block_data_initialized d then v1
                     else set_desc block (\<lambda>d. d\<lparr>bd_flags := bd_flags d OR BLOCK_INITIALIZED\<rparr>) v1))"

datatype cpy_direction = read_from_blocks | write_to_blocks

text \<open>
  The loop of \<open>iterate_on_file_range\<close>. For a write, \<open>buf\<close> holds the bytes still to be written;
  for a read, \<open>got\<close> holds the bytes read so far.
\<close>

partial_function (option) iterate_loop ::
  "cpy_direction \<Rightarrow> pfile \<Rightarrow> bptr option \<Rightarrow> bptr option \<Rightarrow> nat \<Rightarrow> nat \<Rightarrow> byte list \<Rightarrow> byte list
    \<Rightarrow> (bptr option \<times> pfile \<times> byte list) option" where
  "iterate_loop dir v block last_block offset len buf got =
     (if len = 0 then Some (last_block, v, got)
      else
        (case (if is_offset_in_block v block offset then block else None) of
           None \<Rightarrow>
             if dir = write_to_blocks then None
             else
               (let next_block = find_following_block v block;
                    count = (case next_block of
                               None \<Rightarrow> len
                             | Some n \<Rightarrow> min len (sub64 (bd_offset (descs v n)) offset));
                    block' = (if next_block = None then block else next_block)
                in case read_block_range v None 0 count of
                     None \<Rightarrow> None
                   | Some xs \<Rightarrow>
                       iterate_loop dir v block' last_block (add64 offset count) (len - count) buf (got @ xs))
         | Some p \<Rightarrow>
             (let in_block_start = offset - bd_offset (descs v p);
                  in_block_len = min len (bd_size (descs v p) - in_block_start)
              in if dir = read_from_blocks then
                   (case read_block_range v (Some p) in_block_start in_block_len of
                      None \<Rightarrow> None
                    | Some xs \<Rightarrow>
                        iterate_loop dir v (bd_next (descs v p)) (Some p) (add64 offset in_block_len)
                          (len - in_block_len) buf (got @ xs))
                 else
                   (case write_block_range v p in_block_start (take in_block_len buf) of
                      None \<Rightarrow> None
                    | Some w \<Rightarrow>
                        iterate_loop dir w (bd_next (descs w p)) (Some p) (add64 offset in_block_len)
                          (len - in_block_len) (drop in_block_len buf) got))))"

declare iterate_loop.simps [code]

definition iterate_on_file_range ::
  "pfile \<Rightarrow> bptr option \<Rightarrow> nat \<Rightarrow> nat \<Rightarrow> byte list \<Rightarrow> cpy_direction
    \<Rightarrow> (bptr option \<times> pfile \<times> byte list) option" where
  "iterate_on_file_range v starting_block offset len buf dir =
     iterate_loop dir v starting_block starting_block offset len buf []"

section \<open>Punching holes\<close>

definition is_block_contained_by_interval :: "block_desc \<Rightarrow> nat \<Rightarrow> nat \<Rightarrow> bool" where
  "is_block_contained_by_interval d start len \<longleftrightarrow>
     start \<le> bd_offset d \<and> add64 (bd_offset d) (bd_size d) \<le> add64 start len"

definition is_interval_contained_by_block :: "block_desc \<Rightarrow> nat \<Rightarrow> nat \<Rightarrow> bool" where
  "is_interval_contained_by_block d start len \<longleftrightarrow>
     bd_offset d < start \<and> add64 (bd_offset d) (bd_size d) > add64 start len"

definition is_block_at_right_edge :: "block_desc \<Rightarrow> nat \<Rightarrow> nat \<Rightarrow> bool" where
  "is_block_at_right_edge d start len \<longleftrightarrow> add64 (bd_offset d) (bd_size d) > add64 start len"

text \<open>Zeroing a part of a block's data, if the block is initialized.\<close>

definition zero_block_range :: "pfile \<Rightarrow> bptr \<Rightarrow> nat \<Rightarrow> nat \<Rightarrow> pfile option" where
  "zero_block_range v p start n =
     (if is_block_data_initialized (descs v p) then
        (case block_data v p of
           None \<Rightarrow> None
         | Some bs \<Rightarrow>
             if start + n \<le> length bs then Some (set_block_data v p (write_range bs start (replicate n 0)))
             else None)
      else Some v)"

partial_function (option) remove_loop ::
  "pfile \<Rightarrow> bptr option \<Rightarrow> nat \<Rightarrow> nat \<Rightarrow> nat \<Rightarrow> (nat \<times> pfile) tx_result" where
  "remove_loop v block offset len space =
     (case block of
        None \<Rightarrow> tx_ret (space, v)
      | Some p \<Rightarrow>
          let d = descs v p in
          if add64 (bd_offset d) (bd_size d) \<le> offset then tx_ret (space, v)
          else if is_block_contained_by_interval d offset len then
            (case map_remove p v of
               None \<Rightarrow> None
             | Some v1 \<Rightarrow>
                 tx_bind (block_list_remove v1 p) (\<lambda>(prev, v2).
                   remove_loop v2 prev offset len (space + bd_size d)))
          else if is_interval_contained_by_block d offset len then
            (case zero_block_range v p (offset - bd_offset d) len of
               None \<Rightarrow> None
             | Some v1 \<Rightarrow> tx_ret (space, v1))
          else if is_block_at_right_edge d offset len then
            (case zero_block_range v p 0 (sub64 (add64 offset len) (bd_offset d)) of
               None \<Rightarrow> None
             | Some v1 \<Rightarrow> remove_loop v1 (bd_prev (descs v1 p)) offset len space)
          else
            (let block_offset = offset - bd_offset d in
             case zero_block_range v p block_offset (bd_size d - block_offset) of
               None \<Rightarrow> None
             | Some v1 \<Rightarrow> remove_loop v1 (bd_prev (descs v1 p)) offset len space))"

declare remove_loop.simps [code]

text \<open>The result is the space that was freed.\<close>

definition vinode_remove_interval :: "pfile \<Rightarrow> nat \<Rightarrow> nat \<Rightarrow> (nat \<times> pfile) tx_result" where
  "vinode_remove_interval v offset len =
     (let v1 = v\<lparr>invalidations := invalidations v + 1\<rparr> in
      case find_closest_block v1 (sub64 (add64 offset len) 1) of
        None \<Rightarrow> None
      | Some block \<Rightarrow> remove_loop v1 block offset len 0)"

end
