(* ===== verification/File_Inv.thy ===== *)
theory File_Inv
  imports Data
begin

text \<open>
  The invariant of a file's data and its abstract view: a list of extents in file order, each an
  offset, a size, flags and the address of its data. The bytes of the file are a function of the
  extents and the data objects.
\<close>

section \<open>Extents\<close>

type_synonym data_heap = "nat \<Rightarrow> byte list option"

definition covers :: "extent \<Rightarrow> nat \<Rightarrow> bool" where
  "covers e x \<longleftrightarrow> ext_off e \<le> x \<and> x < ext_off e + ext_size e"

definition ext_init :: "extent \<Rightarrow> bool" where
  "ext_init e \<longleftrightarrow> ext_flags e AND BLOCK_INITIALIZED \<noteq> 0"

definition ext_bytes :: "data_heap \<Rightarrow> extent \<Rightarrow> byte list" where
  "ext_bytes D e = the (D (the (ext_data e)))"

definition ext_byte :: "data_heap \<Rightarrow> extent \<Rightarrow> nat \<Rightarrow> byte" where
  "ext_byte D e x = (if ext_init e then ext_bytes D e ! (x - ext_off e) else 0)"

text \<open>The byte of a file at an offset; holes and uninitialized blocks read as zero.\<close>

definition content :: "data_heap \<Rightarrow> extent list \<Rightarrow> nat \<Rightarrow> byte" where
  "content D L x = (case find (\<lambda>e. covers e x) L of None \<Rightarrow> 0 | Some e \<Rightarrow> ext_byte D e x)"

definition has_data :: "data_heap \<Rightarrow> extent \<Rightarrow> bool" where
  "has_data D e \<longleftrightarrow> (case ext_data e of None \<Rightarrow> False
     | Some oid \<Rightarrow> (case D oid of None \<Rightarrow> False | Some bs \<Rightarrow> length bs = ext_size e))"

definition ext_ok :: "nat \<Rightarrow> data_heap \<Rightarrow> extent \<Rightarrow> bool" where
  "ext_ok A D e \<longleftrightarrow> A dvd ext_off e \<and> A dvd ext_size e \<and> 0 < ext_size e \<and> ext_size e < W32 \<and>
     ext_off e + ext_size e < W64 \<and> has_data D e"

definition ext_before :: "extent \<Rightarrow> extent \<Rightarrow> bool" where
  "ext_before e f \<longleftrightarrow> ext_off e + ext_size e \<le> ext_off f"

definition exts_ok :: "nat \<Rightarrow> data_heap \<Rightarrow> extent list \<Rightarrow> bool" where
  "exts_ok A D L \<longleftrightarrow> (\<forall>e \<in> set L. ext_ok A D e) \<and> sorted_wrt ext_before L \<and> distinct (map ext_data L)"

definition space_of :: "extent list \<Rightarrow> nat" where
  "space_of L = sum_list (map ext_size L)"

definition exts :: "pfile \<Rightarrow> bptr list \<Rightarrow> extent list" where
  "exts v ps = map (\<lambda>p. payload (descs v p)) ps"

definition file_ok :: "nat \<Rightarrow> pfile \<Rightarrow> bptr list \<Rightarrow> bool" where
  "file_ok A v ps \<longleftrightarrow> (\<exists>rest i. slots_ok v rest i ps) \<and> linked v ps \<and> mapped v ps \<and>
     exts_ok A (datas v) (exts v ps) \<and> allocs v = []"

lemma exts_append [simp]: "exts v (xs @ ys) = exts v xs @ exts v ys"
  by (simp add: exts_def)

lemma exts_Cons [simp]: "exts v (x # ys) = payload (descs v x) # exts v ys"
  by (simp add: exts_def)

lemma exts_Nil [simp]: "exts v [] = []"
  by (simp add: exts_def)

lemma ext_payload [simp]:
  "ext_off (payload d) = bd_offset d" "ext_size (payload d) = bd_size d"
  "ext_flags (payload d) = bd_flags d" "ext_data (payload d) = bd_data d"
  by (simp_all add: payload_def)

lemma covers_payload [simp]: "covers (payload d) x = in_block d x"
  by (simp add: covers_def in_block_def)

lemma ext_before_payload [simp]:
  "ext_before (payload d) (payload e) \<longleftrightarrow> bd_offset d + bd_size d \<le> bd_offset e"
  by (simp add: ext_before_def)

lemma ext_ok_bounds:
  assumes "ext_ok A D e"
  shows "A dvd ext_off e" "A dvd ext_size e" "0 < ext_size e" "ext_size e < W32"
    "ext_off e + ext_size e < W64"
  using assms by (simp_all add: ext_ok_def)

lemma ext_ok_data:
  assumes "ext_ok A D e"
  obtains oid bs where "ext_data e = Some oid" and "D oid = Some bs" and "length bs = ext_size e"
  using assms by (auto simp: ext_ok_def has_data_def split: option.splits)

text \<open>At most one extent covers an offset.\<close>

lemma exts_ok_split:
  assumes "exts_ok A D (L1 @ e # L2)" and "covers e x"
  shows "\<And>f. f \<in> set L1 \<Longrightarrow> \<not> covers f x" and "\<And>f. f \<in> set L2 \<Longrightarrow> \<not> covers f x"
  using assms unfolding exts_ok_def
  by (fastforce simp: sorted_wrt_append covers_def ext_before_def)+

lemma find_append: "find P (xs @ ys) = (case find P xs of None \<Rightarrow> find P ys | Some x \<Rightarrow> Some x)"
  by (induction xs) auto

lemma find_covers:
  assumes "exts_ok A D L" and "e \<in> set L" and "covers e x"
  shows "find (\<lambda>e. covers e x) L = Some e"
proof -
  obtain L1 L2 where L: "L = L1 @ e # L2"
    using assms(2) by (meson split_list)
  have "find (\<lambda>e. covers e x) L1 = None"
    using exts_ok_split(1) [OF assms(1) [unfolded L] assms(3)] by (simp add: find_None_iff)
  then show ?thesis
    using assms(3) by (simp add: L find_append)
qed

lemma content_covered:
  "exts_ok A D L \<Longrightarrow> e \<in> set L \<Longrightarrow> covers e x \<Longrightarrow> content D L x = ext_byte D e x"
  by (simp add: content_def find_covers)

lemma content_hole: "(\<And>e. e \<in> set L \<Longrightarrow> \<not> covers e x) \<Longrightarrow> content D L x = 0"
  by (simp add: content_def find_None_iff [THEN iffD2])

text \<open>New uninitialized extents do not change the content.\<close>

definition grown :: "data_heap \<Rightarrow> extent list \<Rightarrow> data_heap \<Rightarrow> extent list \<Rightarrow> bool" where
  "grown D L D' L' \<longleftrightarrow> set L \<subseteq> set L' \<and> (\<forall>e \<in> set L' - set L. ext_flags e = 0) \<and>
     (\<forall>oid bs. D oid = Some bs \<longrightarrow> D' oid = Some bs)"

lemma grown_refl [simp]: "grown D L D L"
  by (simp add: grown_def)

lemma grown_trans: "grown D L D1 L1 \<Longrightarrow> grown D1 L1 D2 L2 \<Longrightarrow> grown D L D2 L2"
  unfolding grown_def by blast

lemma ext_byte_uninit: "ext_flags e = 0 \<Longrightarrow> ext_byte D e x = 0"
  by (simp add: ext_byte_def ext_init_def)

lemma ext_byte_cong:
  "ext_ok A D e \<Longrightarrow> (\<And>oid. ext_data e = Some oid \<Longrightarrow> D' oid = D oid) \<Longrightarrow> ext_byte D' e x = ext_byte D e x"
  by (auto simp: ext_byte_def ext_bytes_def elim: ext_ok_data)

lemma grown_content:
  assumes "exts_ok A D L" and "exts_ok A D' L'" and "grown D L D' L'"
  shows "content D' L' x = content D L x"
proof (cases "\<exists>e \<in> set L. covers e x")
  case True
  then obtain e where e: "e \<in> set L" "covers e x"
    by blast
  have ok: "ext_ok A D e"
    using assms(1) e(1) by (simp add: exts_ok_def)
  have "ext_byte D' e x = ext_byte D e x"
  proof (rule ext_byte_cong [OF ok])
    fix oid assume "ext_data e = Some oid"
    then show "D' oid = D oid"
      using ok assms(3) by (auto simp: grown_def elim!: ext_ok_data)
  qed
  then show ?thesis
    using content_covered [OF assms(1) e] content_covered [OF assms(2) _ e(2)] assms(3) e(1)
    by (auto simp: grown_def)
next
  case False
  then have z: "content D L x = 0"
    by (intro content_hole) blast
  show ?thesis
  proof (cases "\<exists>e \<in> set L'. covers e x")
    case True
    then obtain e where e: "e \<in> set L'" "covers e x"
      by blast
    then have "ext_flags e = 0"
      using assms(3) False by (auto simp: grown_def)
    then show ?thesis
      using content_covered [OF assms(2) e] z by (simp add: ext_byte_uninit)
  next
    case False
    then show ?thesis
      using z by (metis content_hole)
  qed
qed

section \<open>Finding the block of an offset\<close>

text \<open>The blocks that start before an offset.\<close>

definition starts_before :: "pfile \<Rightarrow> nat \<Rightarrow> bptr list \<Rightarrow> bptr list" where
  "starts_before v x ps = takeWhile (\<lambda>p. bd_offset (descs v p) < x) ps"

lemma file_ok_ext:
  assumes "file_ok A v ps" and "p \<in> set ps"
  shows "ext_ok A (datas v) (payload (descs v p))"
  using assms by (auto simp: file_ok_def exts_ok_def exts_def)

lemma file_ok_bounds:
  assumes "file_ok A v ps" and "p \<in> set ps"
  shows "A dvd bd_offset (descs v p)" "A dvd bd_size (descs v p)" "0 < bd_size (descs v p)"
    "bd_size (descs v p) < W32" "bd_offset (descs v p) + bd_size (descs v p) < W64"
  using ext_ok_bounds [OF file_ok_ext [OF assms]] by simp_all

lemma file_ok_order:
  assumes "file_ok A v (xs @ p # ys)"
  shows "q \<in> set xs \<Longrightarrow> bd_offset (descs v q) + bd_size (descs v q) \<le> bd_offset (descs v p)"
    and "q \<in> set ys \<Longrightarrow> bd_offset (descs v p) + bd_size (descs v p) \<le> bd_offset (descs v q)"
  using assms by (auto simp: file_ok_def exts_ok_def exts_def sorted_wrt_append)

lemma file_ok_distinct: "file_ok A v ps \<Longrightarrow> distinct ps"
  by (auto simp: file_ok_def slots_ok_def)

lemma file_ok_sized: "file_ok A v ps \<Longrightarrow> sized v ps"
  using file_ok_bounds(3) by (fastforce simp: sized_def)

lemma file_ok_whole_units:
  assumes "file_ok A v ps" and "p \<in> set ps" and "MIN_BLOCK_SIZE dvd A"
  shows "whole_units (descs v p)"
proof -
  note b = file_ok_bounds [OF assms(1,2)]
  obtain o' where o': "bd_offset (descs v p) = bytes o'"
    using dvd_trans [OF assms(3) b(1)] by (metis dvd_div_mult_self)
  obtain r where r: "bd_size (descs v p) = bytes r"
    using dvd_trans [OF assms(3) b(2)] by (metis dvd_div_mult_self)
  have "0 < r" "bytes (o' + r) < W64"
    using b(3,5) by (simp_all add: o' r add_mult_distrib)
  with o' r show ?thesis
    by (auto simp: whole_units_def)
qed

lemma starts_before_split:
  assumes "file_ok A v ps"
  obtains zs where "ps = starts_before v x ps @ zs"
    and "\<And>p. p \<in> set (starts_before v x ps) \<Longrightarrow> bd_offset (descs v p) < x"
    and "\<And>p. p \<in> set zs \<Longrightarrow> x \<le> bd_offset (descs v p)"
proof -
  define zs where "zs = dropWhile (\<lambda>p. bd_offset (descs v p) < x) ps"
  have ps: "ps = starts_before v x ps @ zs"
    by (simp add: starts_before_def zs_def)
  have "x \<le> bd_offset (descs v p)" if "p \<in> set zs" for p
  proof (cases zs)
    case Nil
    then show ?thesis using that by simp
  next
    case (Cons z zs')
    have z: "x \<le> bd_offset (descs v z)"
    proof -
      have "\<not> bd_offset (descs v z) < x"
        using Cons unfolding zs_def by (rule dropWhile_eq_Cons_conv [THEN iffD1, THEN conjunct2])
      then show ?thesis by simp
    qed
    have "file_ok A v (starts_before v x ps @ z # zs')"
      using assms ps Cons by simp
    from file_ok_order(2) [OF this, of p] z that Cons show ?thesis
      by auto
  qed
  moreover have "bd_offset (descs v p) < x" if "p \<in> set (starts_before v x ps)" for p
    using that by (auto simp: starts_before_def dest: set_takeWhileD)
  ultimately show thesis
    using ps by (intro that)
qed

lemma starts_before_eqI:
  assumes "ps = ys @ zs" and "\<And>p. p \<in> set ys \<Longrightarrow> bd_offset (descs v p) < x"
    and "\<And>p. p \<in> set zs \<Longrightarrow> x \<le> bd_offset (descs v p)"
  shows "starts_before v x ps = ys"
proof -
  have "takeWhile (\<lambda>p. bd_offset (descs v p) < x) zs = []"
    using assms(3) [of "hd zs"] by (cases zs) auto
  then show ?thesis
    using assms(1,2) by (simp add: starts_before_def takeWhile_append2)
qed

lemma offset_units:
  assumes "MIN_BLOCK_SIZE dvd o'"
  shows "o' < bytes (Suc n) \<longleftrightarrow> o' \<le> bytes n"
proof -
  obtain k where "o' = MIN_BLOCK_SIZE * k"
    using assms by blast
  then have o': "o' = bytes k"
    by (simp add: mult.commute)
  have "bytes k < bytes (Suc n) \<longleftrightarrow> k \<le> n"
    by (simp only: mult_less_cancel2 MIN_BLOCK_SIZE_pos less_Suc_eq_le) simp
  moreover have "bytes k \<le> bytes n \<longleftrightarrow> k \<le> n"
    by (simp only: mult_le_cancel2 MIN_BLOCK_SIZE_pos) simp
  ultimately show ?thesis
    by (simp only: o')
qed

lemma closest_is_last:
  assumes f: "file_ok A v ps" and al: "MIN_BLOCK_SIZE dvd A"
    and m: "blocks v = Some m" "\<And>u p. om_look m u = Some p \<longleftrightarrow> p \<in> set ps \<and> in_block (descs v p) (bytes u)"
  shows "closest (om_look m) n = last_or (starts_before v (bytes n) ps) None"
proof (induction n)
  case 0
  have "starts_before v 0 ps = []"
    by (simp add: starts_before_def takeWhile_eq_Nil_iff)
  then show ?case by simp
next
  case (Suc n)
  have dv: "MIN_BLOCK_SIZE dvd bd_offset (descs v p)" if "p \<in> set ps" for p
    using file_ok_bounds(1) [OF f that] al dvd_trans by blast
  show ?case
  proof (cases "om_look m n")
    case (Some b)
    then have b: "b \<in> set ps" "in_block (descs v b) (bytes n)"
      using m(2) by auto
    obtain xs ys where ps: "ps = xs @ b # ys"
      using b(1) by (meson split_list)
    have "starts_before v (bytes (Suc n)) ps = xs @ [b]"
    proof (rule starts_before_eqI)
      fix p assume p: "p \<in> set (xs @ [b])"
      then have "bd_offset (descs v p) \<le> bytes n"
        using file_ok_order(1) [OF f [unfolded ps], of p] b(2) by (auto simp: in_block_def)
      then show "bd_offset (descs v p) < bytes (Suc n)"
        using offset_units [OF dv, of p n] p ps by auto
    next
      fix p assume p: "p \<in> set ys"
      then have "\<not> bd_offset (descs v p) \<le> bytes n"
        using file_ok_order(2) [OF f [unfolded ps], of p] b(2) by (auto simp: in_block_def)
      then show "bytes (Suc n) \<le> bd_offset (descs v p)"
        using offset_units [OF dv, of p n] p ps by auto
    qed (simp add: ps)
    then show ?thesis
      using Some by simp
  next
    case None
    have "starts_before v (bytes (Suc n)) ps = starts_before v (bytes n) ps"
      unfolding starts_before_def
    proof (rule takeWhile_cong)
      fix p assume p: "p \<in> set ps"
      have "bd_offset (descs v p) \<noteq> bytes n"
        using m(2) [of n p] None p file_ok_bounds(3) [OF f p] by (auto simp: in_block_def)
      then show "(bd_offset (descs v p) < bytes (Suc n)) = (bd_offset (descs v p) < bytes n)"
        using offset_units [OF dv [OF p], of n] by auto
    qed simp
    then show ?thesis
      using None Suc.IH by simp
  qed
qed

lemma find_closest_block_ok:
  assumes f: "file_ok A v ps" and al: "MIN_BLOCK_SIZE dvd A" and x: "x < W64"
  shows "find_closest_block v x = Some (last_or (starts_before v (Suc x) ps) None)"
proof -
  obtain m where m: "blocks v = Some m" "om_ok m"
    "\<And>u p. om_look m u = Some p \<longleftrightarrow> p \<in> set ps \<and> in_block (descs v p) (bytes u)"
    using f by (auto simp: file_ok_def mapped_def)
  note cl = closest_is_last [OF f al m(1,3)]
  have dv: "MIN_BLOCK_SIZE dvd bd_offset (descs v p)" if "p \<in> set ps" for p
    using file_ok_bounds(1) [OF f that] al dvd_trans by blast
  have "prev_ok (\<lambda>p. bd_prev (descs v p)) (om_look m)"
    unfolding prev_ok_def
  proof (intro allI impI, elim conjE)
    fix u b assume u: "om_look m u = Some b" and d: "u = 0 \<or> om_look m (u - 1) \<noteq> Some b"
    then have b: "b \<in> set ps" "in_block (descs v b) (bytes u)"
      using m(3) by auto
    have "bytes u = bd_offset (descs v b)"
    proof (rule ccontr)
      assume "bytes u \<noteq> bd_offset (descs v b)"
      then have lt: "bd_offset (descs v b) < bytes u"
        using b(2) by (simp add: in_block_def)
      then obtain w where w: "u = Suc w"
        by (cases u) auto
      have "in_block (descs v b) (bytes w)"
        using lt b(2) offset_units [OF dv [OF b(1)], of w] w by (auto simp: in_block_def)
      then show False
        using d m(3) [of w b] b(1) w by simp
    qed
    moreover obtain xs ys where ps: "ps = xs @ b # ys"
      using b(1) by (meson split_list)
    ultimately have "starts_before v (bytes u) ps = xs"
      by (intro starts_before_eqI [of _ xs "b # ys"])
        (use file_ok_order [OF f [unfolded ps]] file_ok_bounds(3) [OF f] ps in fastforce)+
    moreover have "bd_prev (descs v b) = last_or xs None"
      using f seg_mid(1) [of "descs v" None xs b ys None] by (simp add: file_ok_def linked_def ps)
    ultimately show "bd_prev (descs v b) = closest (om_look m) u"
      using cl by simp
  qed
  from block_find_closest_ok [OF m(2) this x]
  have "find_closest_block v x = Some (last_or (starts_before v (bytes (Suc (x div MIN_BLOCK_SIZE))) ps) None)"
    unfolding find_closest_block_def m(1) option.case cl .
  moreover have "starts_before v (bytes (Suc (x div MIN_BLOCK_SIZE))) ps = starts_before v (Suc x) ps"
    unfolding starts_before_def
  proof (rule takeWhile_cong)
    fix p assume p: "p \<in> set ps"
    obtain k where k: "bd_offset (descs v p) = bytes k"
      using dv [OF p] by (metis dvd_div_mult_self)
    have "bytes k < bytes (Suc (x div MIN_BLOCK_SIZE)) \<longleftrightarrow> k \<le> x div MIN_BLOCK_SIZE"
      by (simp only: mult_less_cancel2 MIN_BLOCK_SIZE_pos less_Suc_eq_le) simp
    moreover have "k \<le> x div MIN_BLOCK_SIZE \<longleftrightarrow> bytes k \<le> x"
      by (simp add: less_eq_div_iff_mult_less_eq)
    ultimately show "(bd_offset (descs v p) < bytes (Suc (x div MIN_BLOCK_SIZE))) = (bd_offset (descs v p) < Suc x)"
      by (simp only: k less_Suc_eq_le)
  qed simp
  ultimately show ?thesis
    by simp
qed

lemma is_offset_in_block_ok:
  assumes "file_ok A v ps" and "\<And>p. b = Some p \<Longrightarrow> p \<in> set ps"
  shows "is_offset_in_block v b x \<longleftrightarrow> (\<exists>p. b = Some p \<and> in_block (descs v p) x)"
proof (cases b)
  case (Some p)
  then show ?thesis
    using file_ok_bounds(5) [OF assms(1) assms(2)]
    by (simp add: is_offset_in_block_def in_block_def add64_exact)
qed (simp add: is_offset_in_block_def)

text \<open>Blocks that start at or before an offset and do not hold it end before it.\<close>

lemma blocks_end_before:
  assumes "file_ok A v (ys @ zs)" and "\<And>y. y \<in> set ys \<Longrightarrow> bd_offset (descs v y) \<le> x"
    and "\<not> (ys \<noteq> [] \<and> in_block (descs v (last ys)) x)" and "p \<in> set ys"
  shows "bd_offset (descs v p) + bd_size (descs v p) \<le> x"
proof -
  obtain ys' l where ys: "ys = ys' @ [l]"
    using assms(4) by (cases ys rule: rev_cases) auto
  have l: "bd_offset (descs v l) + bd_size (descs v l) \<le> x"
    using assms(2) [of l] assms(3) by (auto simp: ys in_block_def)
  have "bd_offset (descs v p) + bd_size (descs v p) \<le> bd_offset (descs v l)" if "p \<in> set ys'"
    using file_ok_order(1) [of A v ys' l zs p] assms(1) that by (simp add: ys)
  then show ?thesis
    using l assms(4) ys by auto
qed

section \<open>Adding a block\<close>

definition store_fails :: "store \<Rightarrow> errno \<Rightarrow> bool" where
  "store_fails st e \<longleftrightarrow> (\<exists>h. alloc_array st h = Inl e) \<or> (\<exists>h n. alloc_data st h n = Inl e)"

text \<open>A free interval between two parts of the list that a new block fits in.\<close>

definition gap_for :: "nat \<Rightarrow> pfile \<Rightarrow> bptr list \<Rightarrow> bptr list \<Rightarrow> nat \<Rightarrow> nat \<Rightarrow> bool" where
  "gap_for A v ys zs offset n \<longleftrightarrow> A dvd offset \<and> A dvd n \<and> 0 < n \<and> n < W32 \<and> offset + n < W64 \<and>
     (\<forall>p \<in> set ys. bd_offset (descs v p) + bd_size (descs v p) \<le> offset) \<and>
     (\<forall>p \<in> set zs. offset + n \<le> bd_offset (descs v p))"

definition block_added ::
  "nat \<Rightarrow> pfile \<Rightarrow> bptr list \<Rightarrow> bptr list \<Rightarrow> nat \<Rightarrow> nat \<Rightarrow> bptr \<Rightarrow> pfile \<Rightarrow> bool" where
  "block_added A v ys zs offset n b w \<longleftrightarrow> file_ok A w (ys @ b # zs) \<and>
     (\<exists>oid bs. exts w (ys @ b # zs) = exts v ys @ Ext offset n 0 (Some oid) # exts v zs \<and>
        datas v oid = None \<and> datas w = (datas v)(oid \<mapsto> bs) \<and> length bs = n) \<and>
     invalidations w = invalidations v"

text \<open>The extent lists before and after.\<close>

lemma exts_ok_insert:
  assumes "file_ok A v (ys @ zs)" and "gap_for A v ys zs offset n" and "datas v oid = None" and "length bs = n"
  shows "exts_ok A ((datas v)(oid \<mapsto> bs)) (exts v ys @ Ext offset n 0 (Some oid) # exts v zs)"
proof -
  have ok: "exts_ok A (datas v) (exts v ys @ exts v zs)"
    using assms(1) by (simp add: file_ok_def)
  have fresh: "ext_data e \<noteq> Some oid" "ext_ok A ((datas v)(oid \<mapsto> bs)) e"
    if "e \<in> set (exts v ys @ exts v zs)" for e
  proof -
    have e: "ext_ok A (datas v) e"
      using ok that by (simp add: exts_ok_def)
    then obtain oid' bs' where "ext_data e = Some oid'" "datas v oid' = Some bs'" "length bs' = ext_size e"
      by (rule ext_ok_data)
    then show "ext_data e \<noteq> Some oid" "ext_ok A ((datas v)(oid \<mapsto> bs)) e"
      using e assms(3) by (auto simp: ext_ok_def has_data_def)
  qed
  have new: "ext_ok A ((datas v)(oid \<mapsto> bs)) (Ext offset n 0 (Some oid))"
    using assms(2,4) by (simp add: ext_ok_def has_data_def gap_for_def)
  have srt: "sorted_wrt ext_before (exts v ys @ Ext offset n 0 (Some oid) # exts v zs)"
    using ok assms(2)
    by (auto simp: exts_ok_def sorted_wrt_append gap_for_def ext_before_def exts_def)
  have ds: "distinct (map ext_data (exts v ys @ Ext offset n 0 (Some oid) # exts v zs))"
  proof -
    have "Some oid \<notin> ext_data ` set (exts v ys @ exts v zs)"
      using fresh(1) by (metis imageE)
    then show ?thesis
      using ok by (auto simp: exts_ok_def)
  qed
  have "\<forall>e \<in> set (exts v ys @ Ext offset n 0 (Some oid) # exts v zs). ext_ok A ((datas v)(oid \<mapsto> bs)) e"
    using fresh(2) new by auto
  then show ?thesis
    using srt ds unfolding exts_ok_def by blast
qed

lemma add_block_ok:
  assumes f: "file_ok A v (ys @ zs)" and al: "MIN_BLOCK_SIZE dvd A" and st: "store_ok st"
    and ml: "0 < meta_len c" and info: "data_block_info c sz limit = Some info"
    and gap: "gap_for A v ys zs offset (bi_size info)"
  shows "(\<exists>e. add_block c st offset sz limit (last_or ys None) v = tx_fail e \<and> store_fails st e) \<or>
     (\<exists>b w. add_block c st offset sz limit (last_or ys None) v = tx_ret (b, w) \<and>
        block_added A v ys zs offset (bi_size info) b w)"
proof -
  obtain rest i where so: "slots_ok v rest i (ys @ zs)"
    using f by (auto simp: file_ok_def)
  have lk: "linked v (ys @ zs)"
    using f by (simp add: file_ok_def)
  note ins = block_list_insert_after_ok [OF so lk file_ok_sized [OF f] st ml]
  show ?thesis
    using ins
  proof (elim disjE exE conjE)
    fix e assume "block_list_insert_after c st v (last_or ys None) = tx_fail e" "alloc_array st (arrays v) = Inl e"
    then show ?thesis
      using info by (auto simp: add_block_def store_fails_def)
  next
    fix b v1 assume eq1: "block_list_insert_after c st v (last_or ys None) = tx_ret (b, v1)"
      and "inserted v ys zs b v1"
    then obtain rest' i' where ib: "b \<notin> set (ys @ zs)" "slots_ok v1 rest' i' (ys @ b # zs)"
      "linked v1 (ys @ b # zs)" "payload (descs v1 b) = payload zero_desc"
      "\<And>p. p \<in> set (ys @ zs) \<Longrightarrow> payload (descs v1 p) = payload (descs v p)" "same_rest v1 v"
      by (auto simp: inserted_def)
    define n where "n = bi_size info"
    define v1' where "v1' = set_desc b (\<lambda>d. d\<lparr>bd_offset := offset\<rparr>) v1"
    have d1: "datas v1' = datas v"
      using ib(6) by (simp add: v1'_def set_desc_def same_rest_def)
    show ?thesis
    proof (cases "alloc_data st (datas v) n")
      case (Inl e)
      then have "add_block c st offset sz limit (last_or ys None) v = tx_fail e"
        using info eq1 d1 by (simp add: add_block_def file_allocate_block_data_def n_def flip: v1'_def)
      then show ?thesis
        using Inl by (auto simp: store_fails_def)
    next
      case (Inr x)
      then obtain oid bs where x: "alloc_data st (datas v) n = Inr (oid, bs)"
        by (cases x) auto
      have ob: "datas v oid = None" "length bs = n"
        using st x by (auto simp: store_ok_def)
      define v2 where "v2 = (set_desc b (\<lambda>d. d\<lparr>bd_data := Some oid, bd_size := u32 n, bd_flags := 0\<rparr>) v1')
                  \<lparr>datas := (datas v)(oid \<mapsto> bs)\<rparr>"
      have fa: "file_allocate_block_data st b info v1' = tx_ret v2"
        using x d1 by (simp add: file_allocate_block_data_def v2_def n_def)
      have n32: "u32 n = n"
        using gap by (simp add: gap_for_def n_def u32_exact)
      have pb: "payload (descs v2 b) = Ext offset n 0 (Some oid)"
        by (simp add: v2_def v1'_def set_desc_def payload_def n32)
      have po: "payload (descs v2 p) = payload (descs v p)" if "p \<in> set (ys @ zs)" for p
        using ib(1,5) that by (auto simp: v2_def v1'_def set_desc_def)
      have v2: "arrays v2 = arrays v1" "first_free v2 = first_free v1" "first_block v2 = first_block v1"
        "blocks v2 = blocks v" "allocs v2 = []" "invalidations v2 = invalidations v"
        "\<And>p. p \<noteq> b \<Longrightarrow> descs v2 p = descs v1 p"
        using ib(6) f by (simp_all add: v2_def v1'_def set_desc_def same_rest_def file_ok_def)
      have dis: "distinct (ys @ b # zs)"
        using ib(2) by (simp add: slots_ok_def)
      have s2: "slots_ok v2 rest' i' (ys @ b # zs)"
        by (rule slots_ok_cong [OF ib(2) v2(1,2)]) (use v2(7) dis in auto)
      have "seg (descs v2) None (ys @ b # zs) None = seg (descs v1) None (ys @ b # zs) None"
        by (rule seg_cong) (simp add: v2_def v1'_def set_desc_def)
      then have l2: "linked v2 (ys @ b # zs)"
        using ib(3) v2(3) by (simp add: linked_def)
      obtain m where m: "blocks v = Some m" "om_ok m"
        "\<And>u p. om_look m u = Some p \<longleftrightarrow> p \<in> set (ys @ zs) \<and> in_block (descs v p) (bytes u)"
        using f by (auto simp: file_ok_def mapped_def)
      have inb: "in_block (descs v2 b) y \<longleftrightarrow> offset \<le> y \<and> y < offset + n" for y
        using covers_payload [of "descs v2 b" y] by (simp add: pb covers_def)
      have excl: "\<not> in_block (descs v p) y" if "p \<in> set (ys @ zs)" "in_block (descs v2 b) y" for p y
      proof
        assume p: "in_block (descs v p) y"
        have y: "offset \<le> y" "y < offset + n"
          using that(2) by (simp_all add: inb)
        have "bd_offset (descs v p) + bd_size (descs v p) \<le> offset \<or> offset + n \<le> bd_offset (descs v p)"
          using that(1) gap by (auto simp: gap_for_def n_def)
        then show False
          using y p by (auto simp: in_block_def)
      qed
      have free: "om_look m u = None" if "in_block (descs v2 b) (bytes u)" for u
        using m(3) [of u] excl [OF _ that] by (cases "om_look m u") auto
      have wu: "whole_units (descs v2 b)"
      proof -
        have "MIN_BLOCK_SIZE dvd offset" "MIN_BLOCK_SIZE dvd n" "0 < n" "offset + n < W64"
          using gap al dvd_trans by (auto simp: gap_for_def n_def)
        then obtain o' r where "offset = MIN_BLOCK_SIZE * o'" "n = MIN_BLOCK_SIZE * r" "0 < r"
          by (metis dvdE gr0I mult_0_right not_less_zero)
        moreover have "bd_offset (descs v2 b) = offset" "bd_size (descs v2 b) = n"
          using arg_cong [OF pb, of ext_off] arg_cong [OF pb, of ext_size] by simp_all
        ultimately show ?thesis
          using \<open>offset + n < W64\<close> unfolding whole_units_def
          by (intro exI [of _ o'] exI [of _ r]) (simp add: algebra_simps)
      qed
      have b2: "blocks v2 = Some m"
        using v2(4) m(1) by simp
      obtain m' where m': "map_insert b v2 = Some (0, v2\<lparr>blocks := Some m'\<rparr>)" "om_ok m'"
        "\<And>u q. om_look m' u = Some q \<longleftrightarrow>
          (if in_block (descs v2 b) (bytes u) then q = b else om_look m u = Some q)"
        by (rule map_insert_ok [OF b2 m(2) v2(5) wu free]) (assumption, rule that)
      define w where "w = v2\<lparr>blocks := Some m'\<rparr>"
      have "om_look m' u = Some q \<longleftrightarrow> q \<in> set (ys @ b # zs) \<and> in_block (descs v2 q) (bytes u)" for u q
      proof (cases "q = b")
        case True
        then show ?thesis
          using m'(3) [of u q] m(3) [of u b] ib(1) by auto
      next
        case False
        then show ?thesis
          using m'(3) [of u q] m(3) [of u q] excl [of q "bytes u"] in_block_payload [OF po, of q "bytes u"]
          by auto
      qed
      then have mp: "mapped w (ys @ b # zs)"
        using m'(2) by (simp add: mapped_def w_def)
      have ex: "exts w (ys @ b # zs) = exts v ys @ Ext offset n 0 (Some oid) # exts v zs"
        using po pb by (auto simp: exts_def w_def)
      have dw: "datas w = (datas v)(oid \<mapsto> bs)"
        by (simp add: w_def v2_def)
      have "exts_ok A (datas w) (exts w (ys @ b # zs))"
        unfolding ex dw by (rule exts_ok_insert [OF f gap [folded n_def] ob])
      moreover have "slots_ok w rest' i' (ys @ b # zs)"
        by (rule slots_ok_cong [OF s2]) (use dis in \<open>simp_all add: w_def\<close>)
      moreover have "linked w (ys @ b # zs)"
        using l2 by (simp add: linked_def w_def)
      moreover have "allocs w = []"
        using v2(5) by (simp add: w_def)
      ultimately have "file_ok A w (ys @ b # zs)"
        using mp unfolding file_ok_def by blast
      then have "block_added A v ys zs offset n b w"
        using ex dw ob v2(6) unfolding block_added_def by (auto simp: w_def)
      moreover have "add_block c st offset sz limit (last_or ys None) v = tx_ret (b, w)"
        using info eq1 fa m'(1)
        by (simp add: add_block_def block_cache_insert_block_in_tx_def w_def flip: v1'_def)
      ultimately show ?thesis
        unfolding n_def by blast
    qed
  qed
qed

section \<open>Lookup with a hint and allocated intervals\<close>

lemma allocated_until_ok:
  assumes f: "file_ok A v (ys @ p # zs)"
  shows "\<exists>it. allocated_until v p e = Some it \<and> bd_offset (descs v p) + bd_size (descs v p) \<le> it \<and>
     (\<forall>x. bd_offset (descs v p) \<le> x \<and> x < it \<longrightarrow> (\<exists>q \<in> set (p # zs). in_block (descs v q) x)) \<and>
     (it < e \<longrightarrow> (\<forall>q \<in> set (ys @ p # zs). \<not> in_block (descs v q) it))"
  using assms
proof (induction zs arbitrary: ys p)
  case Nil
  have b: "bd_offset (descs v p) + bd_size (descs v p) < W64"
    using file_ok_bounds(5) [OF Nil, of p] by simp
  have "bd_next (descs v p) = None"
    using Nil by (simp add: file_ok_def linked_def seg_append)
  moreover have "\<not> in_block (descs v q) (bd_offset (descs v p) + bd_size (descs v p))" if "q \<in> set (ys @ [p])" for q
    using that file_ok_order(1) [OF Nil, of q] by (auto simp: in_block_def)
  ultimately show ?case
    using b by (subst allocated_until.simps) (auto simp: add64_exact in_block_def)
next
  case (Cons n zs)
  let ?it = "bd_offset (descs v p) + bd_size (descs v p)"
  have b: "?it < W64"
    using file_ok_bounds(5) [OF Cons.prems, of p] by simp
  have nx: "bd_next (descs v p) = Some n"
    using Cons.prems by (simp add: file_ok_def linked_def seg_append)
  have io: "is_offset_in_block v (Some n) ?it \<longleftrightarrow> in_block (descs v n) ?it"
    using is_offset_in_block_ok [OF Cons.prems, of "Some n"] by simp
  have f': "file_ok A v ((ys @ [p]) @ n # zs)"
    using Cons.prems by simp
  have np: "?it \<le> bd_offset (descs v n)"
    using file_ok_order(2) [OF Cons.prems, of n] by simp
  show ?case
  proof (cases "?it < e \<and> in_block (descs v n) ?it")
    case True
    then have eq: "?it = bd_offset (descs v n)"
      using np by (simp add: in_block_def)
    obtain it where it: "allocated_until v n e = Some it" "bd_offset (descs v n) + bd_size (descs v n) \<le> it"
      "\<And>x. bd_offset (descs v n) \<le> x \<Longrightarrow> x < it \<Longrightarrow> \<exists>q \<in> set (n # zs). in_block (descs v q) x"
      "it < e \<longrightarrow> (\<forall>q \<in> set ((ys @ [p]) @ n # zs). \<not> in_block (descs v q) it)"
      using Cons.IH [OF f'] by blast
    have "allocated_until v p e = Some it"
      using nx b io True it(1) by (subst allocated_until.simps) (simp add: add64_exact Let_def)
    moreover have "\<exists>q \<in> set (p # n # zs). in_block (descs v q) x" if "bd_offset (descs v p) \<le> x" "x < it" for x
    proof (cases "x < ?it")
      case False
      then have "\<exists>q \<in> set (n # zs). in_block (descs v q) x"
        using that(2) eq by (intro it(3)) simp_all
      then show ?thesis by auto
    qed (use that in \<open>auto simp: in_block_def\<close>)
    moreover have "?it \<le> it"
      using it(2) eq by simp
    ultimately show ?thesis
      using it(4) by (intro exI [of _ it]) auto
  next
    case False
    have "\<not> in_block (descs v q) ?it" if "?it < e" "q \<in> set (ys @ p # n # zs)" for q
    proof -
      from that(2) have "q \<in> set ys \<or> q = p \<or> q \<in> set (n # zs)"
        by auto
      then show ?thesis
      proof (elim disjE)
        assume "q \<in> set (n # zs)"
        then have "bd_offset (descs v n) \<le> bd_offset (descs v q)"
          using file_ok_order(2) [OF f', of q] by auto
        moreover have "?it < bd_offset (descs v n)"
          using False that(1) np file_ok_bounds(3) [OF Cons.prems, of n] by (auto simp: in_block_def)
        ultimately show ?thesis
          by (simp add: in_block_def)
      qed (use file_ok_order(1) [OF Cons.prems, of q] in \<open>auto simp: in_block_def\<close>)
    qed
    moreover have "allocated_until v p e = Some ?it"
      using nx b io False by (subst allocated_until.simps) (auto simp: add64_exact Let_def)
    ultimately show ?thesis
      by (intro exI [of _ ?it]) (auto simp: in_block_def)
  qed
qed

lemma hinted_block_ok:
  assumes f: "file_ok A v ps" and al: "MIN_BLOCK_SIZE dvd A" and x: "x < W64"
    and h: "\<And>p. hint = Some p \<Longrightarrow> p \<in> set ps"
  shows "find_closest_block_with_hint v x hint = Some (last_or (starts_before v (Suc x) ps) None)"
proof (cases "is_offset_in_block v hint x")
  case True
  then obtain p where p: "hint = Some p" "p \<in> set ps" "in_block (descs v p) x"
    using is_offset_in_block_ok [OF f h] h by auto
  then obtain ys zs where ps: "ps = ys @ p # zs"
    by (auto simp: in_set_conv_decomp)
  have "starts_before v (Suc x) ps = ys @ [p]"
  proof (rule starts_before_eqI)
    show "ps = (ys @ [p]) @ zs"
      using ps by simp
    show "bd_offset (descs v q) < Suc x" if "q \<in> set (ys @ [p])" for q
      using that p(3) file_ok_order(1) [OF f [unfolded ps], of q] by (auto simp: in_block_def)
    show "Suc x \<le> bd_offset (descs v q)" if "q \<in> set zs" for q
      using that p(3) file_ok_order(2) [OF f [unfolded ps], of q] by (auto simp: in_block_def)
  qed
  then show ?thesis
    using True p(1) by (simp add: find_closest_block_with_hint_def last_or_def)
next
  case False
  then show ?thesis
    using find_closest_block_ok [OF f al x] by (simp add: find_closest_block_with_hint_def)
qed

lemma interval_allocated_ok:
  assumes f: "file_ok A v ps" and al: "MIN_BLOCK_SIZE dvd A" and b: "offset + sz < W64" "0 < sz"
    and h: "\<And>p. hint = Some p \<Longrightarrow> p \<in> set ps"
  shows "vinode_is_interval_allocated v offset sz hint =
     Some (\<forall>x. offset \<le> x \<and> x < offset + sz \<longrightarrow> (\<exists>p \<in> set ps. in_block (descs v p) x))"
proof -
  obtain zs where zs: "ps = starts_before v (Suc offset) ps @ zs"
    "\<And>p. p \<in> set (starts_before v (Suc offset) ps) \<Longrightarrow> bd_offset (descs v p) < Suc offset"
    "\<And>p. p \<in> set zs \<Longrightarrow> Suc offset \<le> bd_offset (descs v p)"
    by (rule starts_before_split [OF f]) (rule that)
  define ys where "ys = starts_before v (Suc offset) ps"
  have fb: "(if is_offset_in_block v hint offset then Some hint else find_closest_block v offset) = Some (last_or ys None)"
    using hinted_block_ok [OF f al _ h, of offset hint] b by (simp add: find_closest_block_with_hint_def ys_def)
  show ?thesis
  proof (cases "ys \<noteq> [] \<and> in_block (descs v (last ys)) offset")
    case True
    then obtain ys' p where p: "ys = ys' @ [p]" "in_block (descs v p) offset"
      by (cases ys rule: rev_cases) auto
    have ps: "ps = ys' @ p # zs"
      using zs(1) p(1) by (simp add: ys_def)
    have io: "is_offset_in_block v (Some p) offset"
      using is_offset_in_block_ok [OF f, of "Some p" offset] p(2) ps by simp
    obtain it where it: "allocated_until v p (offset + sz) = Some it"
      "\<And>x. bd_offset (descs v p) \<le> x \<Longrightarrow> x < it \<Longrightarrow> \<exists>q \<in> set (p # zs). in_block (descs v q) x"
      "it < offset + sz \<Longrightarrow> q \<in> set ps \<Longrightarrow> \<not> in_block (descs v q) it"
      "bd_offset (descs v p) + bd_size (descs v p) \<le> it" for q
      using allocated_until_ok [OF f [unfolded ps], of "offset + sz"] unfolding ps by blast
    have "offset + sz \<le> it \<longleftrightarrow> (\<forall>x. offset \<le> x \<and> x < offset + sz \<longrightarrow> (\<exists>q \<in> set ps. in_block (descs v q) x))"
    proof
      assume le: "offset + sz \<le> it"
      have "\<exists>q \<in> set (p # zs). in_block (descs v q) x" if "offset \<le> x" "x < offset + sz" for x
        by (rule it(2)) (use that le p(2) in \<open>auto simp: in_block_def\<close>)
      then show "\<forall>x. offset \<le> x \<and> x < offset + sz \<longrightarrow> (\<exists>q \<in> set ps. in_block (descs v q) x)"
        by (auto simp: ps)
    next
      assume "\<forall>x. offset \<le> x \<and> x < offset + sz \<longrightarrow> (\<exists>q \<in> set ps. in_block (descs v q) x)"
      moreover have "offset \<le> it"
        using it(4) p(2) by (simp add: in_block_def)
      ultimately show "offset + sz \<le> it"
        using it(3) by (meson not_less)
    qed
    then show ?thesis
      using fb io it(1) p(1) b(1) by (simp add: vinode_is_interval_allocated_def add64_exact)
  next
    case False
    have none: "\<not> in_block (descs v q) offset" if "q \<in> set ps" for q
    proof (cases "q \<in> set ys")
      case True
      then show ?thesis
        using blocks_end_before [of A v ys zs offset q] f zs(1,2) False by (auto simp: ys_def in_block_def less_Suc_eq_le)
    next
      case False
      then have "q \<in> set zs"
        using that zs(1) by (metis Un_iff set_append ys_def)
      then show ?thesis
        using zs(3) [of q] by (simp add: in_block_def)
    qed
    have "\<not> is_offset_in_block v (last_or ys None) offset"
      using is_offset_in_block_ok [OF f, of "last_or ys None" offset] none zs(1)
      by (auto simp: last_or_def ys_def split: if_splits) (metis Un_iff last_in_set set_append)+
    then show ?thesis
      using fb none b(2) by (auto simp: vinode_is_interval_allocated_def intro!: exI [of _ offset])
  qed
qed

section \<open>The space of a file\<close>

lemma space_of_below:
  assumes "sorted_wrt ext_before L" and "\<forall>e \<in> set L. k \<le> ext_off e \<and> ext_off e + ext_size e \<le> m" and "k \<le> m"
  shows "k + space_of L \<le> m"
  using assms
proof (induction L arbitrary: k)
  case (Cons e L)
  have "ext_off e + ext_size e + space_of L \<le> m"
    by (rule Cons.IH) (use Cons.prems in \<open>auto simp: ext_before_def\<close>)
  then show ?case
    using Cons.prems(2) by (simp add: space_of_def)
qed (simp add: space_of_def)

lemma space_of_bound: "exts_ok A D L \<Longrightarrow> space_of L < W64"
proof -
  assume ok: "exts_ok A D L"
  then have "\<forall>e \<in> set L. 0 \<le> ext_off e \<and> ext_off e + ext_size e \<le> W64 - 1"
    by (fastforce simp: exts_ok_def ext_ok_def)
  from space_of_below [OF _ this] ok have "0 + space_of L \<le> W64 - 1"
    by (simp add: exts_ok_def)
  then show ?thesis
    by (simp add: W64_def)
qed

end
