(* ===== verification/Data_Alloc.thy ===== *)
theory Data_Alloc
  imports File_Inv
begin

text \<open>
  Allocation of an interval of a file: \<open>vinode_allocate_interval\<close> ends, fills every hole of the
  interval with uninitialized blocks, keeps the blocks and the content of the file, and reports
  the space it took.
\<close>

section \<open>The block table\<close>

definition conf_ok :: "block_conf \<Rightarrow> nat \<Rightarrow> bool" where
  "conf_ok c A \<longleftrightarrow> MIN_BLOCK_SIZE dvd A \<and> A < W32 \<and> (\<exists>k. pow2_conf c k \<and> A = 2 ^ k) \<and>
     data_blocks c \<noteq> [] \<and> bi_size (hd (data_blocks c)) = A \<and>
     (\<forall>b \<in> set (data_blocks c). A dvd bi_size b \<and> 0 < bi_size b \<and> bi_size b < W32) \<and> 0 < meta_len c"

lemma data_block_info_loop_some:
  "data_block_info_loop sz limit (Some p) bs = Some b \<Longrightarrow> bi_size p \<le> limit \<Longrightarrow>
     (b = p \<or> b \<in> set bs) \<and> bi_size b \<le> limit"
  by (induction bs arbitrary: p) (auto split: if_splits)

lemma data_block_info_loop_total: "\<exists>b. data_block_info_loop sz limit (Some p) bs = Some b"
  by (induction bs arbitrary: p) auto

lemma data_block_info_ok:
  assumes "conf_ok c A" and "A \<le> limit"
  obtains info where "data_block_info c sz limit = Some info" and "A dvd bi_size info"
    and "0 < bi_size info" and "bi_size info < W32" and "bi_size info \<le> limit"
proof -
  obtain b bs where bs: "data_blocks c = b # bs" "bi_size b = A"
    using assms(1) by (cases "data_blocks c") (auto simp: conf_ok_def)
  have "\<exists>info \<in> set (data_blocks c). data_block_info c sz limit = Some info \<and> bi_size info \<le> limit"
  proof (cases "sz \<le> bi_size b")
    case True
    then show ?thesis
      using bs assms(2) by (simp add: data_block_info_def)
  next
    case False
    then have e: "data_block_info c sz limit = data_block_info_loop sz limit (Some b) bs"
      using bs assms(2) by (simp add: data_block_info_def)
    obtain b' where "data_block_info_loop sz limit (Some b) bs = Some b'"
      using data_block_info_loop_total by blast
    with data_block_info_loop_some [OF this] e bs assms(2) show ?thesis
      by auto
  qed
  then show thesis
    using assms(1) that by (auto simp: conf_ok_def)
qed

lemma conf_ok_max: 
  assumes "conf_ok c A"
  shows "A \<le> MAX_BLOCK_SIZE c"
proof -
  have A: "block_alignment c = A" "0 < A" "A < W32"
    using assms by (auto simp: conf_ok_def pow2_conf_def)
  have "A \<le> UINT32_MAX"
    using A(3) by (simp add: UINT32_MAX_def)
  moreover have "UINT32_MAX mod A + A \<le> UINT32_MAX"
  proof -
    have "UINT32_MAX mod A + A * (UINT32_MAX div A) = UINT32_MAX"
      by simp
    moreover have "A * 1 \<le> A * (UINT32_MAX div A)"
      using \<open>A \<le> UINT32_MAX\<close> A(2) by (intro mult_le_mono2) (simp add: div_greater_zero_iff Suc_leI)
    ultimately show ?thesis by linarith
  qed
  ultimately show ?thesis
    using A(1) by (simp add: MAX_BLOCK_SIZE_def)
qed

lemma conf_ok_dvd: "conf_ok c A \<Longrightarrow> A dvd W32"
proof -
  assume "conf_ok c A"
  then obtain k where k: "A = 2 ^ k" "A < W32"
    by (auto simp: conf_ok_def)
  then have "k \<le> 32"
    unfolding W32_power using power_less_imp_less_exp [of "2::nat" k 32] by simp
  then show "A dvd W32"
    unfolding W32_power k(1) by (rule le_imp_power_dvd)
qed

section \<open>The loop\<close>

definition alloc_post ::
  "nat \<Rightarrow> store \<Rightarrow> pfile \<Rightarrow> bptr list \<Rightarrow> nat \<Rightarrow> nat \<Rightarrow> nat \<Rightarrow> (nat \<times> pfile) tx_result \<Rightarrow> bool" where
  "alloc_post A st v ps offset sz space res \<longleftrightarrow>
     (\<exists>e. res = tx_fail e \<and> store_fails st e) \<or>
     (\<exists>space' v' ps'. res = tx_ret (space', v') \<and> file_ok A v' ps' \<and>
        grown (datas v) (exts v ps) (datas v') (exts v' ps') \<and>
        (\<forall>x. offset \<le> x \<and> x < offset + sz \<longrightarrow> (\<exists>e \<in> set (exts v' ps'). covers e x)) \<and>
        space' + space_of (exts v ps) = space + space_of (exts v' ps') \<and>
        invalidations v' = invalidations v \<and> set ps \<subseteq> set ps')"

definition alloc_inv :: "nat \<Rightarrow> pfile \<Rightarrow> bptr list \<Rightarrow> bptr list \<Rightarrow> nat \<Rightarrow> nat \<Rightarrow> bool" where
  "alloc_inv A v ys zs offset sz \<longleftrightarrow> file_ok A v (ys @ zs) \<and> A dvd offset \<and> A dvd sz \<and> 0 < sz \<and>
     offset + sz + W32 < W64 \<and> (\<forall>p \<in> set ys. bd_offset (descs v p) \<le> offset) \<and>
     (\<forall>p \<in> set zs. offset \<le> bd_offset (descs v p)) \<and>
     (ys = [] \<longrightarrow> (\<forall>p \<in> set zs. offset < bd_offset (descs v p)) \<and>
        (zs = [] \<or> offset + sz \<le> bd_offset (descs v (hd zs)) \<or>
         (bd_offset (descs v (hd zs)) - offset) mod W32 \<noteq> 0))"

lemma alloc_post_skip:
  assumes "alloc_post A st v ps (offset + n) (sz - n) space res" and "n \<le> sz"
    and "\<And>x. offset \<le> x \<Longrightarrow> x < offset + n \<Longrightarrow> \<exists>e \<in> set (exts v ps). covers e x"
  shows "alloc_post A st v ps offset sz space res"
  using assms(1) unfolding alloc_post_def
proof (elim disjE exE conjE)
  fix space' v' ps'
  assume r: "res = tx_ret (space', v')" "file_ok A v' ps'"
    "grown (datas v) (exts v ps) (datas v') (exts v' ps')"
    "\<forall>x. offset + n \<le> x \<and> x < offset + n + (sz - n) \<longrightarrow> (\<exists>e \<in> set (exts v' ps'). covers e x)"
    "space' + space_of (exts v ps) = space + space_of (exts v' ps')" "invalidations v' = invalidations v"
    "set ps \<subseteq> set ps'"
  have "\<exists>e \<in> set (exts v' ps'). covers e x" if "offset \<le> x" "x < offset + sz" for x
  proof (cases "x < offset + n")
    case True
    then show ?thesis
      using assms(3) [OF that(1)] r(3) by (auto simp: grown_def)
  next
    case False
    then show ?thesis
      using r(4) that assms(2) by auto
  qed
  then show "(\<exists>e. res = tx_fail e \<and> store_fails st e) \<or>
     (\<exists>space' v' ps'. res = tx_ret (space', v') \<and> file_ok A v' ps' \<and>
        grown (datas v) (exts v ps) (datas v') (exts v' ps') \<and>
        (\<forall>x. offset \<le> x \<and> x < offset + sz \<longrightarrow> (\<exists>e \<in> set (exts v' ps'). covers e x)) \<and>
        space' + space_of (exts v ps) = space + space_of (exts v' ps') \<and>
        invalidations v' = invalidations v \<and> set ps \<subseteq> set ps')"
    using r by blast
qed blast

lemma block_added_grown:
  assumes "block_added A v ys zs offset n b w"
  shows "grown (datas v) (exts v (ys @ zs)) (datas w) (exts w (ys @ b # zs))"
    and "space_of (exts w (ys @ b # zs)) = space_of (exts v (ys @ zs)) + n"
    and "bd_size (descs w b) = n" and "bd_offset (descs w b) = offset"
    and "\<And>p. p \<in> set (ys @ zs) \<Longrightarrow> payload (descs w p) = payload (descs v p)"
proof -
  obtain oid bs where ob: "exts w (ys @ b # zs) = exts v ys @ Ext offset n 0 (Some oid) # exts v zs"
    "datas v oid = None" "datas w = (datas v)(oid \<mapsto> bs)"
    using assms by (auto simp: block_added_def)
  show "grown (datas v) (exts v (ys @ zs)) (datas w) (exts w (ys @ b # zs))"
    unfolding ob(1) grown_def using ob(2,3) by auto
  show "space_of (exts w (ys @ b # zs)) = space_of (exts v (ys @ zs)) + n"
    unfolding ob(1) by (simp add: space_of_def)
  have l: "exts w ys = exts v ys" "payload (descs w b) = Ext offset n 0 (Some oid)" "exts w zs = exts v zs"
    using ob(1) by (simp_all add: exts_def)
  show "bd_size (descs w b) = n" "bd_offset (descs w b) = offset"
    using l(2) by (simp_all add: payload_def)
  show "\<And>p. p \<in> set (ys @ zs) \<Longrightarrow> payload (descs w p) = payload (descs v p)"
    using l(1,3) by (auto simp: exts_def)
qed

lemma payload_offset: "payload d = payload e \<Longrightarrow> bd_offset d = bd_offset e \<and> bd_size d = bd_size e"
  by (simp add: payload_def)

text \<open>A round that adds a block at the offset, followed by the rest of the loop.\<close>

lemma alloc_added:
  assumes inv: "alloc_inv A v ys zs offset sz" and nb: "ys \<noteq> [] \<Longrightarrow> \<not> in_block (descs v (last ys)) offset"
    and c: "conf_ok c A" and st: "store_ok st"
    and lim: "A \<le> limit" "\<And>p. p \<in> set zs \<Longrightarrow> offset + limit \<le> bd_offset (descs v p)"
    and rest: "\<And>w b space'. alloc_inv A w (ys @ [b]) zs offset sz \<Longrightarrow> in_block (descs w b) offset \<Longrightarrow>
      alloc_post A st w (ys @ b # zs) offset sz space' (allocate_loop c st w (Some b) offset sz space')"
  shows "alloc_post A st v (ys @ zs) offset sz space
     (tx_bind (add_block c st offset sz limit (last_or ys None) v)
       (\<lambda>(b, w). allocate_loop c st w (Some b) offset sz (space + bd_size (descs w b))))"
proof -
  have f: "file_ok A v (ys @ zs)" and od: "A dvd offset" "A dvd sz" "0 < sz" "offset + sz + W32 < W64"
    using inv by (simp_all add: alloc_inv_def)
  have al: "MIN_BLOCK_SIZE dvd A" and ml: "0 < meta_len c"
    using c by (simp_all add: conf_ok_def)
  obtain info where info: "data_block_info c sz limit = Some info" "A dvd bi_size info"
    "0 < bi_size info" "bi_size info < W32" "bi_size info \<le> limit"
    by (rule data_block_info_ok [OF c lim(1)])
  have "offset + bi_size info \<le> bd_offset (descs v p)" if "p \<in> set zs" for p
    using lim(2) [OF that] info(5) by linarith
  moreover have "bd_offset (descs v p) + bd_size (descs v p) \<le> offset" if "p \<in> set ys" for p
    by (rule blocks_end_before [OF f]) (use inv nb that in \<open>auto simp: alloc_inv_def\<close>)
  ultimately have gap: "gap_for A v ys zs offset (bi_size info)"
    using od info unfolding gap_for_def by auto
  show ?thesis
    using add_block_ok [OF f al st ml info(1) gap]
  proof (elim disjE exE conjE)
    fix e assume "add_block c st offset sz limit (last_or ys None) v = tx_fail e" "store_fails st e"
    then show ?thesis
      by (simp add: alloc_post_def)
  next
    fix b w assume eq: "add_block c st offset sz limit (last_or ys None) v = tx_ret (b, w)"
      and ba: "block_added A v ys zs offset (bi_size info) b w"
    note g = block_added_grown [OF ba]
    have fw: "file_ok A w (ys @ b # zs)" "invalidations w = invalidations v"
      using ba by (simp_all add: block_added_def)
    have iw: "alloc_inv A w (ys @ [b]) zs offset sz"
      using inv fw(1) g(4) payload_offset [OF g(5)] unfolding alloc_inv_def by auto
    have ib: "in_block (descs w b) offset"
      using g(3,4) info(3) by (simp add: in_block_def)
    have p: "alloc_post A st w (ys @ b # zs) offset sz (space + bi_size info)
        (allocate_loop c st w (Some b) offset sz (space + bi_size info))"
      by (rule rest [OF iw ib])
    have "alloc_post A st v (ys @ zs) offset sz space
        (allocate_loop c st w (Some b) offset sz (space + bi_size info))"
      using p unfolding alloc_post_def
    proof (elim disjE exE conjE)
      fix space' v' ps'
      assume r: "allocate_loop c st w (Some b) offset sz (space + bi_size info) = tx_ret (space', v')"
        "file_ok A v' ps'" "grown (datas w) (exts w (ys @ b # zs)) (datas v') (exts v' ps')"
        "\<forall>x. offset \<le> x \<and> x < offset + sz \<longrightarrow> (\<exists>e \<in> set (exts v' ps'). covers e x)"
        "space' + space_of (exts w (ys @ b # zs)) = space + bi_size info + space_of (exts v' ps')"
        "invalidations v' = invalidations w" "set (ys @ b # zs) \<subseteq> set ps'"
      show "(\<exists>e. allocate_loop c st w (Some b) offset sz (space + bi_size info) = tx_fail e \<and> store_fails st e) \<or>
       (\<exists>space' v' ps'. allocate_loop c st w (Some b) offset sz (space + bi_size info) = tx_ret (space', v') \<and>
        file_ok A v' ps' \<and> grown (datas v) (exts v (ys @ zs)) (datas v') (exts v' ps') \<and>
        (\<forall>x. offset \<le> x \<and> x < offset + sz \<longrightarrow> (\<exists>e \<in> set (exts v' ps'). covers e x)) \<and>
        space' + space_of (exts v (ys @ zs)) = space + space_of (exts v' ps') \<and>
        invalidations v' = invalidations v \<and> set (ys @ zs) \<subseteq> set ps')"
        using r grown_trans [OF g(1) r(3)] g(2) fw(2)
        by (intro disjI2 exI [of _ space'] exI [of _ v'] exI [of _ ps']) simp
    qed blast
    then show ?thesis
      using eq g(3) by simp
  qed
qed

lemma offset_in_last:
  assumes "file_ok A v (ys @ zs)"
  shows "is_offset_in_block v (last_or ys None) x \<longleftrightarrow> ys \<noteq> [] \<and> in_block (descs v (last ys)) x"
  using is_offset_in_block_ok [OF assms, of "last_or ys None" x] last_or_mem [of ys]
  by (auto simp: last_or_def split: if_splits)

lemma linked_last_next:
  assumes "linked v (ys @ zs)" and "ys \<noteq> []"
  shows "bd_next (descs v (last ys)) = hd_or zs None"
proof -
  obtain ys' p where ys: "ys = ys' @ [p]"
    using assms(2) by (cases ys rule: rev_cases) auto
  then show ?thesis
    using assms(1) seg_mid(2) [of "descs v" None ys' p zs None] by (simp add: linked_def)
qed

text \<open>The loop adds a block with a given limit when it does not stop, skip or move on.\<close>

definition hole_limit_of :: "block_conf \<Rightarrow> pfile \<Rightarrow> bptr option \<Rightarrow> nat \<Rightarrow> nat \<Rightarrow> nat" where
  "hole_limit_of c v block offset sz =
     (case block of
       None \<Rightarrow> (case first_block v of None \<Rightarrow> MAX_BLOCK_SIZE c
         | Some f \<Rightarrow> (if add64 offset sz > bd_offset (descs v f)
              then u32 (sub64 (bd_offset (descs v f)) offset) else sz))
     | Some p \<Rightarrow> (case bd_next (descs v p) of None \<Rightarrow> MAX_BLOCK_SIZE c
         | Some n \<Rightarrow> sub64 (bd_offset (descs v n)) offset))"

lemma allocate_loop_add:
  assumes "\<not> is_offset_in_block v block offset" and "0 < sz"
    and "limit = hole_limit_of c v block offset sz" and "0 < limit"
  shows "allocate_loop c st v block offset sz space =
     tx_bind (add_block c st offset sz limit block v)
       (\<lambda>(b, w). allocate_loop c st w (Some b) offset sz (space + bd_size (descs w b)))"
proof -
  have step: "allocate_step c st v block offset sz space =
     tx_bind (add_block c st offset sz limit block v)
       (\<lambda>(b, w). tx_ret (Some (w, Some b, offset, sz, space + bd_size (descs w b))))"
  proof (cases block)
    case None
    then show ?thesis
      using assms by (cases "first_block v") (simp_all add: allocate_step_def Let_def hole_limit_of_def)
  next
    case (Some p)
    then show ?thesis
      using assms by (cases "bd_next (descs v p)") (simp_all add: allocate_step_def Let_def hole_limit_of_def)
  qed
  show ?thesis
  proof (cases "add_block c st offset sz limit block v")
    case (Some r)
    then show ?thesis
      using assms(2) by (subst allocate_loop.simps) (cases r; simp add: step case_prod_beta)
  qed (subst allocate_loop.simps, simp add: step)
qed

text \<open>
  The cases of a round. \<open>alloc_goal\<close> is what is proved of the loop from a state on.
\<close>

definition alloc_goal ::
  "block_conf \<Rightarrow> store \<Rightarrow> nat \<Rightarrow> pfile \<Rightarrow> bptr list \<Rightarrow> bptr list \<Rightarrow> nat \<Rightarrow> nat \<Rightarrow> bool" where
  "alloc_goal c st A v ys zs offset sz \<longleftrightarrow> (\<forall>space.
     alloc_post A st v (ys @ zs) offset sz space (allocate_loop c st v (last_or ys None) offset sz space))"

lemma alloc_case_skip:
  assumes inv: "alloc_inv A v ys zs offset sz" and ys: "ys = ys' @ [p]" and ib: "in_block (descs v p) offset"
    and next_goal: "\<And>n. 0 < n \<Longrightarrow> n < sz \<Longrightarrow> alloc_inv A v ys zs (offset + n) (sz - n) \<Longrightarrow>
      alloc_goal c st A v ys zs (offset + n) (sz - n)"
  shows "alloc_goal c st A v ys zs offset sz"
  unfolding alloc_goal_def
proof
  fix space
  have f: "file_ok A v (ys @ zs)" and od: "A dvd offset" "offset + sz + W32 < W64"
    using inv by (simp_all add: alloc_inv_def)
  have iob: "is_offset_in_block v (last_or ys None) offset"
    using offset_in_last [OF f] ys ib by simp
  have pm: "p \<in> set (ys @ zs)"
    by (simp add: ys)
  define n where "n = bd_size (descs v p) - (offset - bd_offset (descs v p))"
  have n: "0 < n" "offset + n = bd_offset (descs v p) + bd_size (descs v p)"
    using ib by (auto simp: n_def in_block_def)
  have cov: "\<exists>e \<in> set (exts v (ys @ zs)). covers e x" if "offset \<le> x" "x < offset + n" for x
    using that n(2) ib pm by (intro bexI [of _ "payload (descs v p)"]) (auto simp: in_block_def exts_def)
  show "alloc_post A st v (ys @ zs) offset sz space (allocate_loop c st v (last_or ys None) offset sz space)"
  proof (cases "sz \<le> n")
    case True
    have "allocate_loop c st v (last_or ys None) offset sz space = tx_ret (space, v)"
      using iob True by (subst allocate_loop.simps) (simp add: allocate_step_def ys Let_def n_def)
    moreover have "\<forall>x. offset \<le> x \<and> x < offset + sz \<longrightarrow> (\<exists>e \<in> set (exts v (ys @ zs)). covers e x)"
      using cov True by auto
    ultimately show ?thesis
      using f unfolding alloc_post_def
      by (intro disjI2 exI [of _ space] exI [of _ v] exI [of _ "ys @ zs"]) simp
  next
    case False
    have ad: "add64 offset n = offset + n"
      using od(2) False by (simp add: add64_exact)
    have go: "allocate_loop c st v (last_or ys None) offset sz space =
        allocate_loop c st v (last_or ys None) (offset + n) (sz - n) space"
      using iob False ad
      by (subst allocate_loop.simps) (simp add: allocate_step_def ys Let_def flip: n_def)
    have dn: "A dvd n" "A dvd offset + n"
      using file_ok_bounds(1,2) [OF f pm] od(1) n(2) ib by (auto simp: n_def in_block_def)
    have "alloc_inv A v ys zs (offset + n) (sz - n)"
      using inv dn False n ys file_ok_order(2) [of A v ys' p zs] f
      unfolding alloc_inv_def by auto
    then have "alloc_post A st v (ys @ zs) (offset + n) (sz - n) space
        (allocate_loop c st v (last_or ys None) (offset + n) (sz - n) space)"
      using next_goal n(1) False by (auto simp: alloc_goal_def)
    then show ?thesis
      unfolding go by (rule alloc_post_skip) (use False cov in auto)
  qed
qed

text \<open>The limit of the new block when the offset is in a hole of a given length.\<close>

lemma hole_limit:
  assumes c: "conf_ok c A" and d: "A dvd gap" "A dvd sz" "0 < sz" and lt: "0 < gap"
    and hole: "sz \<le> gap \<or> gap mod W32 \<noteq> 0"
  shows "A \<le> (if sz > gap then u32 gap else sz)" and "(if sz > gap then u32 gap else sz) \<le> gap"
proof -
  have "A dvd gap mod W32"
    using d(1) conf_ok_dvd [OF c] by (simp add: dvd_mod)
  then show "A \<le> (if sz > gap then u32 gap else sz)"
    using hole d(2,3) by (auto simp: u32_def intro: dvd_imp_le)
qed (auto simp: u32_def)

lemma alloc_case_hole:
  assumes inv: "alloc_inv A v ys zs offset sz" and nb: "ys \<noteq> [] \<Longrightarrow> \<not> in_block (descs v (last ys)) offset"
    and c: "conf_ok c A" and st: "store_ok st"
    and ne: "ys \<noteq> [] \<Longrightarrow> zs \<noteq> [] \<Longrightarrow> bd_offset (descs v (hd zs)) \<noteq> offset"
    and next_goal: "\<And>w b. alloc_inv A w (ys @ [b]) zs offset sz \<Longrightarrow> in_block (descs w b) offset \<Longrightarrow>
      alloc_goal c st A w (ys @ [b]) zs offset sz"
  shows "alloc_goal c st A v ys zs offset sz"
  unfolding alloc_goal_def
proof
  fix space
  have f: "file_ok A v (ys @ zs)" and od: "A dvd offset" "A dvd sz" "0 < sz" "offset + sz + W32 < W64"
    and ge: "\<forall>p \<in> set zs. offset \<le> bd_offset (descs v p)"
    using inv by (simp_all add: alloc_inv_def)
  have A0: "0 < A"
    using od(2,3) by (auto intro: gr0I)
  have lk: "linked v (ys @ zs)"
    using f by (simp add: file_ok_def)
  have iob: "\<not> is_offset_in_block v (last_or ys None) offset"
    using offset_in_last [OF f, of offset] nb by auto
  have rest: "alloc_post A st w (ys @ b # zs) offset sz space' (allocate_loop c st w (Some b) offset sz space')"
    if "alloc_inv A w (ys @ [b]) zs offset sz" "in_block (descs w b) offset" for w b space'
    using next_goal [OF that] by (simp add: alloc_goal_def)
  note added = alloc_added [OF inv nb c st _ _ rest]
  have fst: "ys = [] \<Longrightarrow> first_block v = hd_or zs None" "ys \<noteq> [] \<Longrightarrow> bd_next (descs v (last ys)) = hd_or zs None"
    using lk linked_last_next [OF lk] by (simp_all add: linked_def)
  show "alloc_post A st v (ys @ zs) offset sz space (allocate_loop c st v (last_or ys None) offset sz space)"
  proof (cases zs)
    case Nil
    have "allocate_loop c st v (last_or ys None) offset sz space =
        tx_bind (add_block c st offset sz (MAX_BLOCK_SIZE c) (last_or ys None) v)
          (\<lambda>(b, w). allocate_loop c st w (Some b) offset sz (space + bd_size (descs w b)))"
      by (rule allocate_loop_add [OF iob od(3)])
        (use fst Nil conf_ok_max [OF c] A0 in \<open>auto simp: last_or_def hole_limit_of_def\<close>)
    then show ?thesis
      using added [of "MAX_BLOCK_SIZE c" space] conf_ok_max [OF c] Nil by auto
  next
    case (Cons z zs')
    have zm: "z \<in> set (ys @ zs)"
      by (simp add: Cons)
    note bz = file_ok_bounds [OF f zm]
    define gap where "gap = bd_offset (descs v z) - offset"
    have oz: "offset < bd_offset (descs v z)"
      using inv ne Cons by (cases "ys = []") (auto simp: alloc_inv_def le_less)
    then have sub: "sub64 (bd_offset (descs v z)) offset = gap" and gap0: "0 < gap"
      and dg: "A dvd gap"
      using bz(1,5) od(1) by (simp_all add: sub64_exact gap_def)
    have after: "offset + gap \<le> bd_offset (descs v p)" if "p \<in> set zs" for p
      using file_ok_order(2) [of A v ys z zs' p] f that oz by (auto simp: Cons gap_def)
    define limit where "limit = (if ys = [] then if sz > gap then u32 gap else sz else gap)"
    have ad: "add64 offset sz > bd_offset (descs v z) \<longleftrightarrow> sz > gap"
      using od(4) oz by (auto simp: add64_exact gap_def)
    have "A \<le> limit \<and> limit \<le> gap"
    proof (cases "ys = []")
      case True
      have hole: "sz \<le> gap \<or> gap mod W32 \<noteq> 0"
        using inv True Cons oz by (auto simp: alloc_inv_def gap_def)
      show ?thesis
        using hole_limit [OF c dg od(2,3) gap0 hole] True by (simp add: limit_def)
    next
      case False
      then show ?thesis
        using dvd_imp_le [OF dg gap0] by (simp add: limit_def)
    qed
    moreover have "allocate_loop c st v (last_or ys None) offset sz space =
        tx_bind (add_block c st offset sz limit (last_or ys None) v)
          (\<lambda>(b, w). allocate_loop c st w (Some b) offset sz (space + bd_size (descs w b)))"
      by (rule allocate_loop_add [OF iob od(3)])
        (use fst Cons sub gap0 ad calculation A0 in \<open>auto simp: last_or_def limit_def hole_limit_of_def\<close>)
    ultimately show ?thesis
      using added [of limit space] order_trans [OF _ after] by simp
  qed
qed

lemma alloc_case_next:
  assumes inv: "alloc_inv A v ys (z # zs) offset sz" and nb: "ys \<noteq> []" "\<not> in_block (descs v (last ys)) offset"
    and z: "bd_offset (descs v z) = offset"
    and next_goal: "alloc_inv A v (ys @ [z]) zs offset sz \<Longrightarrow> in_block (descs v z) offset \<Longrightarrow>
      alloc_goal c st A v (ys @ [z]) zs offset sz"
  shows "alloc_goal c st A v ys (z # zs) offset sz"
  unfolding alloc_goal_def
proof
  fix space
  have f: "file_ok A v (ys @ z # zs)" and sz: "0 < sz"
    using inv by (simp_all add: alloc_inv_def)
  have lk: "linked v (ys @ z # zs)"
    using f by (simp add: file_ok_def)
  note bz = file_ok_bounds [OF f, of z]
  have iob: "\<not> is_offset_in_block v (Some (last ys)) offset"
    using offset_in_last [OF f, of offset] nb by (simp add: last_or_def)
  have "sub64 (bd_offset (descs v z)) offset = 0"
    using z bz(5) by (simp add: sub64_exact)
  then have "allocate_loop c st v (last_or ys None) offset sz space = allocate_loop c st v (Some z) offset sz space"
    using iob nb(1) linked_last_next [OF lk nb(1)] sz
    by (subst allocate_loop.simps) (simp add: allocate_step_def Let_def last_or_def)
  moreover have "alloc_inv A v (ys @ [z]) zs offset sz"
    using inv z unfolding alloc_inv_def by auto
  moreover have "in_block (descs v z) offset"
    using z bz(3) by (simp add: in_block_def)
  ultimately show "alloc_post A st v (ys @ z # zs) offset sz space
      (allocate_loop c st v (last_or ys None) offset sz space)"
    using next_goal by (simp add: alloc_goal_def)
qed

lemma allocate_loop_ok:
  assumes c: "conf_ok c A" and st: "store_ok st"
  shows "alloc_inv A v ys zs offset sz \<Longrightarrow> alloc_goal c st A v ys zs offset sz"
proof (induction "2 * sz + (if ys \<noteq> [] \<and> in_block (descs v (last ys)) offset then 0 else 1)"
    arbitrary: v ys zs offset sz rule: less_induct)
  case less
  show ?case
  proof (cases "ys \<noteq> [] \<and> in_block (descs v (last ys)) offset")
    case True
    then obtain ys' p where ys: "ys = ys' @ [p]" and ib: "in_block (descs v p) offset"
      by (cases ys rule: rev_cases) auto
    show ?thesis
      by (rule alloc_case_skip [OF less.prems ys ib], rule less.hyps) auto
  next
    case False
    have more: "alloc_goal c st A w (ys @ [b]) zs' offset sz"
      if "alloc_inv A w (ys @ [b]) zs' offset sz" "in_block (descs w b) offset" for w b zs'
      by (rule less.hyps [OF _ that(1)]) (use that(2) False in simp)
    show ?thesis
    proof (cases "ys \<noteq> [] \<and> zs \<noteq> [] \<and> bd_offset (descs v (hd zs)) = offset")
      case True
      then obtain z zs' where zs: "zs = z # zs'" "bd_offset (descs v z) = offset"
        by (cases zs) auto
      show ?thesis
        unfolding zs(1)
        by (rule alloc_case_next [OF _ _ _ zs(2) more]) (use less.prems zs(1) True False in auto)
    next
      case nz: False
      show ?thesis
        by (rule alloc_case_hole [OF less.prems _ c st _ more]) (use False nz in auto)
    qed
  qed
qed

section \<open>The interval\<close>

lemma overallocate_size_bounds: "sz \<le> overallocate_size sz" "overallocate_size sz \<le> sz + 67108864"
  by (auto simp: overallocate_size_def)

lemma is_append_total:
  assumes "file_ok A v ps" and "MIN_BLOCK_SIZE dvd A"
  shows "\<exists>b. is_append v isize offset sz = Some b"
proof -
  have "find_last_block v = Some (last_or (starts_before v (Suc UINT64_MAX) ps) None)"
    unfolding find_last_block_def
    by (rule find_closest_block_ok [OF assms]) (simp add: UINT64_MAX_def W64_def)
  then show ?thesis
    by (auto simp: is_append_def split: option.splits)
qed

text \<open>
  The hole before the first block must not be a multiple of 4 GiB: the source keeps its length in
  32 bits.
\<close>

definition first_hole_ok :: "nat \<Rightarrow> pfile \<Rightarrow> bptr list \<Rightarrow> nat \<Rightarrow> bool" where
  "first_hole_ok A v ps offset \<longleftrightarrow> (case ps of [] \<Rightarrow> True
     | p # _ \<Rightarrow> bd_offset (descs v p) \<le> offset \<or>
         (bd_offset (descs v p) - (offset - offset mod A)) mod W32 \<noteq> 0)"

lemma allocate_interval_ok:
  assumes f: "file_ok A v ps" and c: "conf_ok c A" and st: "store_ok st" and sz: "0 < sz"
    and b: "offset + sz \<le> 2 ^ 63" and hole: "first_hole_ok A v ps offset"
  shows "alloc_post A st v ps offset sz 0 (vinode_allocate_interval c st overallocate isize v offset sz)"
proof -
  have al: "MIN_BLOCK_SIZE dvd A"
    using c by (simp add: conf_ok_def)
  obtain k where k: "pow2_conf c k" "A = 2 ^ k"
    using c by (auto simp: conf_ok_def)
  obtain over where over: "(if overallocate then is_append v isize offset sz else Some False) = Some over"
    using is_append_total [OF f al, of isize offset sz] by (cases overallocate) auto
  define sz1 where "sz1 = (if over then overallocate_size sz else sz)"
  have s1: "sz \<le> sz1" "sz1 \<le> sz + 67108864"
    using overallocate_size_bounds [of sz] by (auto simp: sz1_def)
  have A32: "A < W32"
    using c by (simp add: conf_ok_def)
  have bd: "offset + sz1 + 2 ^ k \<le> W64"
    using b s1 A32 k(2) by (simp add: W64_def W32_def)
  obtain o2 s2 where ex: "expand_to_full_pages c offset sz1 = (o2, s2)"
    by fastforce
  note e = expand_to_full_pages_bounds [OF k(1) bd ex, folded k(2)]
  have o2: "o2 = offset - offset mod A"
    using ex k by (auto simp: expand_to_full_pages_def Let_def pow2_conf_def)
  have le: "o2 \<le> offset" "offset + sz1 \<le> o2 + s2" "o2 + s2 < offset + sz1 + A" "A dvd o2" "A dvd s2"
    using e by auto
  have o2b: "o2 < W64"
    using le(1) b by (simp add: W64_def)
  define ys where "ys = starts_before v (Suc o2) ps"
  obtain zs where zs: "ps = ys @ zs" "\<And>p. p \<in> set ys \<Longrightarrow> bd_offset (descs v p) < Suc o2"
    "\<And>p. p \<in> set zs \<Longrightarrow> Suc o2 \<le> bd_offset (descs v p)"
    using starts_before_split [OF f, of "Suc o2"] unfolding ys_def by blast
  have cl: "find_closest_block v o2 = Some (last_or ys None)"
    unfolding ys_def by (rule find_closest_block_ok [OF f al o2b])
  have hd: "(bd_offset (descs v (hd zs)) - o2) mod W32 \<noteq> 0" if "ys = []" "zs \<noteq> []"
  proof -
    have m: "hd zs \<in> set ps" "hd zs \<in> set zs"
      using that zs(1) by simp_all
    have "\<not> bd_offset (descs v (hd zs)) \<le> offset"
    proof
      assume "bd_offset (descs v (hd zs)) \<le> offset"
      moreover obtain q where q: "bd_offset (descs v (hd zs)) = A * q"
        using file_ok_bounds(1) [OF f m(1)] by blast
      ultimately have "q \<le> offset div A"
        using k(2) by (metis div_le_mono nonzero_mult_div_cancel_left power_not_zero zero_neq_numeral)
      then have "A * q \<le> o2"
        unfolding o2 minus_mod_eq_mult_div by (rule mult_le_mono2)
      then show False
        using zs(3) [OF m(2)] q by simp
    qed
    then show ?thesis
      using hole that zs(1) o2 by (cases ps) (auto simp: first_hole_ok_def)
  qed
  have "alloc_inv A v ys zs o2 s2"
    unfolding alloc_inv_def
    using f zs hd le b sz s1 A32
    by (auto simp: W64_def W32_def less_Suc_eq_le Suc_le_eq intro: less_imp_le)
  from allocate_loop_ok [OF c st this]
  have p: "alloc_post A st v ps o2 s2 0 (allocate_loop c st v (last_or ys None) o2 s2 0)"
    by (simp add: alloc_goal_def zs(1))
  have "vinode_allocate_interval c st overallocate isize v offset sz =
      allocate_loop c st v (last_or ys None) o2 s2 0"
    using over ex cl by (simp add: vinode_allocate_interval_def Let_def sz1_def)
  moreover have "o2 \<le> x \<and> x < o2 + s2" if "offset \<le> x \<and> x < offset + sz" for x
    using that le s1 by auto
  ultimately show ?thesis
    using p unfolding alloc_post_def by (elim disjE) (simp, metis)
qed

text \<open>The postcondition in terms of the content of the file.\<close>

lemma alloc_post_allocated:
  assumes "alloc_post A st v ps offset sz 0 res" and "file_ok A v ps"
  shows "(\<exists>e. res = tx_fail e \<and> store_fails st e) \<or>
     (\<exists>space v' ps'. res = tx_ret (space, v') \<and> file_ok A v' ps' \<and>
        (\<forall>x. offset \<le> x \<and> x < offset + sz \<longrightarrow> (\<exists>p \<in> set ps'. in_block (descs v' p) x)) \<and>
        content (datas v') (exts v' ps') = content (datas v) (exts v ps) \<and>
        space_of (exts v' ps') = space_of (exts v ps) + space \<and>
        invalidations v' = invalidations v \<and> set ps \<subseteq> set ps')"
  using assms(1) unfolding alloc_post_def
proof (elim disjE exE conjE)
  fix space' v' ps'
  assume r: "res = tx_ret (space', v')" and f: "file_ok A v' ps'"
    and g: "grown (datas v) (exts v ps) (datas v') (exts v' ps')"
    and c: "\<forall>x. offset \<le> x \<and> x < offset + sz \<longrightarrow> (\<exists>e \<in> set (exts v' ps'). covers e x)"
    and s: "space' + space_of (exts v ps) = 0 + space_of (exts v' ps')"
    and i: "invalidations v' = invalidations v" "set ps \<subseteq> set ps'"
  have "content (datas v') (exts v' ps') = content (datas v) (exts v ps)"
    using grown_content [OF _ _ g] assms(2) f by (auto simp: file_ok_def fun_eq_iff)
  moreover have "\<forall>x. offset \<le> x \<and> x < offset + sz \<longrightarrow> (\<exists>p \<in> set ps'. in_block (descs v' p) x)"
    using c by (auto simp: exts_def covers_def payload_def in_block_def)
  ultimately show ?thesis
    using r f s i by (intro disjI2 exI [of _ space'] exI [of _ v'] exI [of _ ps']) simp
qed auto

end
