(* ===== verification/Data_IO.thy ===== *)
theory Data_IO
  imports File_Inv
begin

text \<open>
  Reading and writing the data of a file: \<open>iterate_on_file_range\<close> against the content of the
  file, for ranges without a hole between two of their blocks, and the effect of a hole there.
\<close>

section \<open>Changing the data of one block\<close>

text \<open>\<open>same_shape w v\<close>: only flags of blocks and bytes of data objects differ.\<close>

definition same_shape :: "pfile \<Rightarrow> pfile \<Rightarrow> bool" where
  "same_shape w v \<longleftrightarrow> (\<forall>q. descs w q = (descs v q)\<lparr>bd_flags := bd_flags (descs w q)\<rparr>) \<and>
     arrays w = arrays v \<and> first_free w = first_free v \<and> first_block w = first_block v \<and>
     blocks w = blocks v \<and> allocs w = allocs v \<and> invalidations w = invalidations v"

lemma same_shape_descs:
  assumes "same_shape w v"
  shows "bd_offset (descs w q) = bd_offset (descs v q)" "bd_size (descs w q) = bd_size (descs v q)"
    "bd_next (descs w q) = bd_next (descs v q)" "bd_prev (descs w q) = bd_prev (descs v q)"
    "bd_data (descs w q) = bd_data (descs v q)"
proof -
  have e: "descs w q = (descs v q)\<lparr>bd_flags := bd_flags (descs w q)\<rparr>"
    using assms by (simp add: same_shape_def)
  show "bd_offset (descs w q) = bd_offset (descs v q)" "bd_size (descs w q) = bd_size (descs v q)"
    "bd_next (descs w q) = bd_next (descs v q)" "bd_prev (descs w q) = bd_prev (descs v q)"
    "bd_data (descs w q) = bd_data (descs v q)"
    by (subst e, simp)+
qed

lemma same_shape_refl [simp]: "same_shape v v"
  by (simp add: same_shape_def)

lemma same_shape_trans:
  assumes "same_shape u w" and "same_shape w v"
  shows "same_shape u v"
proof -
  have "descs u q = (descs v q)\<lparr>bd_flags := bd_flags (descs u q)\<rparr>" for q
  proof -
    have "descs u q = (descs w q)\<lparr>bd_flags := bd_flags (descs u q)\<rparr>"
      "descs w q = (descs v q)\<lparr>bd_flags := bd_flags (descs w q)\<rparr>"
      using assms by (simp_all add: same_shape_def)
    then show ?thesis
      by (metis block_desc.surjective block_desc.update_convs(3))
  qed
  then show ?thesis
    using assms by (simp add: same_shape_def)
qed

lemma same_shape_in_block: "same_shape w v \<Longrightarrow> in_block (descs w q) x = in_block (descs v q) x"
  by (simp add: in_block_def same_shape_descs)

lemma same_shape_offset_in_block:
  "same_shape w v \<Longrightarrow> is_offset_in_block w b x = is_offset_in_block v b x"
  by (simp add: is_offset_in_block_def same_shape_descs split: option.splits)

text \<open>Storing new bytes, and possibly the flag, in block \<open>p\<close>.\<close>

definition put_block :: "pfile \<Rightarrow> bptr \<Rightarrow> byte list \<Rightarrow> nat \<Rightarrow> pfile" where
  "put_block v p bs f = set_desc p (\<lambda>d. d\<lparr>bd_flags := f\<rparr>) (set_block_data v p bs)"

lemma put_block_simps:
  assumes "bd_data (descs v p) = Some oid"
  shows "datas (put_block v p bs f) = (datas v)(oid \<mapsto> bs)"
    and "descs (put_block v p bs f) = (descs v)(p := (descs v p)\<lparr>bd_flags := f\<rparr>)"
    and "same_shape (put_block v p bs f) v"
  using assms by (auto simp: put_block_def set_block_data_def set_desc_def same_shape_def)

lemma block_dataE:
  assumes "file_ok A v ps" and "p \<in> set ps"
  obtains oid bs where "bd_data (descs v p) = Some oid" and "datas v oid = Some bs"
    and "length bs = bd_size (descs v p)" and "block_data v p = Some bs"
proof -
  obtain oid bs where "bd_data (descs v p) = Some oid" "datas v oid = Some bs"
    "length bs = bd_size (descs v p)"
    using ext_ok_data [OF file_ok_ext [OF assms]] by auto
  then show thesis
    by (intro that) (simp_all add: block_data_def)
qed

lemma file_ok_data_distinct:
  assumes "file_ok A v ps" and "p \<in> set ps" and "q \<in> set ps" and "bd_data (descs v p) = bd_data (descs v q)"
  shows "p = q"
proof -
  have "distinct (map (\<lambda>p. bd_data (descs v p)) ps)"
    using assms(1) by (simp add: file_ok_def exts_ok_def exts_def comp_def)
  then show ?thesis
    using assms(2-4) by (auto simp: distinct_map inj_on_def)
qed

lemma file_ok_unique:
  assumes "file_ok A v ps" and "p \<in> set ps" and "q \<in> set ps" and "in_block (descs v p) x" and "in_block (descs v q) x"
  shows "p = q"
proof -
  obtain xs ys where ps: "ps = xs @ p # ys"
    using assms(2) by (meson split_list)
  have "q \<notin> set xs" "q \<notin> set ys"
    using file_ok_order [OF assms(1) [unfolded ps], of q] assms(4,5) by (auto simp: in_block_def)
  then show ?thesis
    using assms(3) ps by auto
qed

lemma content_in_block:
  assumes "file_ok A v ps" and "p \<in> set ps" and "in_block (descs v p) x"
  shows "content (datas v) (exts v ps) x = ext_byte (datas v) (payload (descs v p)) x"
  using assms by (intro content_covered) (auto simp: file_ok_def exts_def)

lemma content_no_block:
  "(\<And>p. p \<in> set ps \<Longrightarrow> \<not> in_block (descs v p) x) \<Longrightarrow> content D (exts v ps) x = 0"
  by (rule content_hole) (auto simp: exts_def)

lemma put_block_ok:
  assumes f: "file_ok A v ps" and p: "p \<in> set ps" and bs: "length bs = bd_size (descs v p)"
  shows "file_ok A (put_block v p bs fl) ps"
    and "content (datas (put_block v p bs fl)) (exts (put_block v p bs fl) ps) x =
      (if in_block (descs v p) x
       then if fl AND BLOCK_INITIALIZED \<noteq> 0 then bs ! (x - bd_offset (descs v p)) else 0
       else content (datas v) (exts v ps) x)"
proof -
  define w where "w = put_block v p bs fl"
  obtain oid bs0 where o: "bd_data (descs v p) = Some oid" "datas v oid = Some bs0"
    by (rule block_dataE [OF f p]) blast
  note ps = put_block_simps [OF o(1), of bs fl, folded w_def]
  note sh = same_shape_descs [OF ps(3)]
  have other: "bd_data (descs v q) \<noteq> Some oid" if "q \<in> set ps" "q \<noteq> p" for q
    using file_ok_data_distinct [OF f that(1) p] that(2) o(1) by auto
  have eo: "ext_ok A (datas w) (payload (descs w q))" if q: "q \<in> set ps" for q
  proof (cases "q = p")
    case True
    then show ?thesis
      using file_ok_ext [OF f p] bs o(1) by (simp add: ext_ok_def has_data_def sh ps(1))
  next
    case False
    then show ?thesis
      using file_ok_ext [OF f q] other [OF q False] ps(1,2)
      by (auto simp: ext_ok_def has_data_def split: option.splits)
  qed
  have srt: "sorted_wrt ext_before (exts w ps)" "distinct (map ext_data (exts w ps))"
    using f sh by (simp_all add: file_ok_def exts_ok_def exts_def sorted_wrt_map comp_def)
  have fw: "file_ok A w ps"
    unfolding file_ok_def
  proof (intro conjI)
    obtain rest i where "slots_ok v rest i ps"
      using f by (auto simp: file_ok_def)
    then have "slots_ok w rest i ps"
      by (rule slots_ok_cong) (use ps p file_ok_distinct [OF f] in \<open>auto simp: same_shape_def\<close>)
    then show "\<exists>rest i. slots_ok w rest i ps"
      by blast
    show "linked w ps"
      using f ps(3) seg_cong [of ps "descs w" "descs v" None None] sh
      by (simp add: file_ok_def linked_def same_shape_def)
    show "mapped w ps"
      using f ps(3) by (simp add: file_ok_def mapped_def same_shape_def same_shape_in_block [OF ps(3)])
    show "exts_ok A (datas w) (exts w ps)"
      unfolding exts_ok_def using eo srt by (auto simp: exts_def)
    show "allocs w = []"
      using f ps(3) by (simp add: file_ok_def same_shape_def)
  qed
  then show "file_ok A (put_block v p bs fl) ps"
    by (simp add: w_def)
  have "content (datas w) (exts w ps) x =
      (if in_block (descs v p) x
       then if fl AND BLOCK_INITIALIZED \<noteq> 0 then bs ! (x - bd_offset (descs v p)) else 0
       else content (datas v) (exts v ps) x)"
  proof (cases "\<exists>q \<in> set ps. in_block (descs v q) x")
    case True
    then obtain q where q: "q \<in> set ps" "in_block (descs v q) x"
      by blast
    have cw: "content (datas w) (exts w ps) x = ext_byte (datas w) (payload (descs w q)) x"
      using content_in_block [OF fw q(1)] q(2) same_shape_in_block [OF ps(3)] by simp
    show ?thesis
    proof (cases "q = p")
      case True
      then show ?thesis
        using cw q(2) o(1) ps(1,2) by (simp add: ext_byte_def ext_init_def ext_bytes_def)
    next
      case False
      have np: "\<not> in_block (descs v p) x"
        using file_ok_unique [OF f p q(1)] q(2) False by auto
      have "ext_byte (datas w) (payload (descs w q)) x = ext_byte (datas v) (payload (descs v q)) x"
      proof -
        have "descs w q = descs v q"
          using False ps(2) by simp
        moreover have "ext_byte (datas w) (payload (descs v q)) x = ext_byte (datas v) (payload (descs v q)) x"
          by (rule ext_byte_cong [OF file_ok_ext [OF f q(1)]]) (use other [OF q(1) False] ps(1) in auto)
        ultimately show ?thesis by simp
      qed
      then show ?thesis
        using cw content_in_block [OF f q] np by simp
    qed
  next
    case False
    then have "content (datas w) (exts w ps) x = 0" "content (datas v) (exts v ps) x = 0"
      using content_no_block [of ps w x] content_no_block [of ps v x] same_shape_in_block [OF ps(3)] by blast+
    then show ?thesis
      using False p by auto
  qed
  then show "content (datas (put_block v p bs fl)) (exts (put_block v p bs fl) ps) x =
      (if in_block (descs v p) x
       then if fl AND BLOCK_INITIALIZED \<noteq> 0 then bs ! (x - bd_offset (descs v p)) else 0
       else content (datas v) (exts v ps) x)"
    by (simp add: w_def)
qed

lemma length_write_range [simp]:
  "start + length xs \<le> length bs \<Longrightarrow> length (write_range bs start xs) = length bs"
  by (simp add: write_range_def)

lemma nth_write_range:
  assumes "start + length xs \<le> length bs" and "i < length bs"
  shows "write_range bs start xs ! i =
    (if start \<le> i \<and> i < start + length xs then xs ! (i - start) else bs ! i)"
  using assms by (auto simp: write_range_def nth_append)

lemma put_block_same_flags:
  "set_block_data v p bs = put_block v p bs (bd_flags (descs v p))"
  by (auto simp: put_block_def set_desc_def set_block_data_def split: option.splits)

lemma initialized_flag: "(n OR BLOCK_INITIALIZED) AND BLOCK_INITIALIZED \<noteq> (0 :: nat)"
proof -
  have "odd (n OR 1)"
    by (simp add: even_or_iff)
  then have "(n OR 1) mod 2 = 1"
    by (simp only: odd_iff_mod_2_eq_one)
  then show ?thesis
    unfolding BLOCK_INITIALIZED_def and_one_eq by simp
qed

text \<open>What a byte of a block reads as, in a file.\<close>

lemma block_byte:
  assumes "file_ok A v ps" and "p \<in> set ps" and "in_block (descs v p) x" and "block_data v p = Some bs"
  shows "content (datas v) (exts v ps) x =
    (if is_block_data_initialized (descs v p) then bs ! (x - bd_offset (descs v p)) else 0)"
  using content_in_block [OF assms(1-3)] assms(4)
  by (auto simp: ext_byte_def ext_init_def ext_bytes_def is_block_data_initialized_def block_data_def
      split: option.splits)

lemma write_block_range_ok:
  assumes f: "file_ok A v ps" and p: "p \<in> set ps" and n: "start + length buf \<le> bd_size (descs v p)"
  obtains w where "write_block_range v p start buf = Some w" and "file_ok A w ps" and "same_shape w v"
    and "\<And>x. content (datas w) (exts w ps) x =
      (if bd_offset (descs v p) + start \<le> x \<and> x < bd_offset (descs v p) + start + length buf
       then buf ! (x - (bd_offset (descs v p) + start)) else content (datas v) (exts v ps) x)"
proof -
  obtain oid bs where o: "bd_data (descs v p) = Some oid" "datas v oid = Some bs"
    "length bs = bd_size (descs v p)" "block_data v p = Some bs"
    by (rule block_dataE [OF f p])
  define init where "init = is_block_data_initialized (descs v p)"
  define bs1 where "bs1 = (if init then bs
     else write_range (write_range bs 0 (replicate start 0)) (start + length buf)
            (replicate (bd_size (descs v p) - (start + length buf)) 0))"
  define fl where "fl = (if init then bd_flags (descs v p) else bd_flags (descs v p) OR BLOCK_INITIALIZED)"
  define w where "w = put_block v p (write_range bs1 start buf) fl"
  have l1: "length bs1 = bd_size (descs v p)"
    using n o(3) by (auto simp: bs1_def)
  have fi: "fl AND BLOCK_INITIALIZED \<noteq> 0"
    using initialized_flag by (auto simp: fl_def init_def is_block_data_initialized_def)
  have eq: "write_block_range v p start buf = Some w"
  proof (cases init)
    case True
    then show ?thesis
      using o n by (simp add: write_block_range_def init_def w_def bs1_def fl_def put_block_same_flags)
  next
    case False
    then show ?thesis
      using o n by (simp add: write_block_range_def init_def w_def bs1_def fl_def put_block_def
          set_desc_def set_block_data_def Let_def)
  qed
  have lw: "length (write_range bs1 start buf) = bd_size (descs v p)"
    using n l1 by simp
  note po = put_block_ok [OF f p lw, of fl, folded w_def]
  have b1: "bs1 ! i = (if init then bs ! i else 0)"
    if "i < bd_size (descs v p)" "\<not> (start \<le> i \<and> i < start + length buf)" for i
    using that n o(3) by (auto simp: bs1_def nth_write_range)
  show thesis
  proof (rule that [OF eq po(1)])
    show "same_shape w v"
      unfolding w_def by (rule put_block_simps(3) [OF o(1)])
    fix x
    show "content (datas w) (exts w ps) x =
      (if bd_offset (descs v p) + start \<le> x \<and> x < bd_offset (descs v p) + start + length buf
       then buf ! (x - (bd_offset (descs v p) + start)) else content (datas v) (exts v ps) x)"
    proof (cases "in_block (descs v p) x")
      case True
      then have i: "x - bd_offset (descs v p) < bd_size (descs v p)" "bd_offset (descs v p) \<le> x"
        by (auto simp: in_block_def)
      then have r: "start \<le> x - bd_offset (descs v p) \<and> x - bd_offset (descs v p) < start + length buf \<longleftrightarrow>
          bd_offset (descs v p) + start \<le> x \<and> x < bd_offset (descs v p) + start + length buf"
        by auto
      have "content (datas v) (exts v ps) x = (if init then bs ! (x - bd_offset (descs v p)) else 0)"
        using block_byte [OF f p True o(4)] by (simp add: init_def)
      then show ?thesis
        using po(2) [of x] True fi nth_write_range [of start buf bs1 "x - bd_offset (descs v p)"]
          n l1 i b1 [OF i(1)] r by (simp add: diff_diff_left)
    next
      case False
      then show ?thesis
        using po(2) [of x] n by (auto simp: in_block_def)
    qed
  qed
qed

lemma zero_block_range_ok:
  assumes f: "file_ok A v ps" and p: "p \<in> set ps" and n: "start + n \<le> bd_size (descs v p)"
  obtains w where "zero_block_range v p start n = Some w" and "file_ok A w ps" and "same_shape w v"
    and "\<And>x. content (datas w) (exts w ps) x =
      (if bd_offset (descs v p) + start \<le> x \<and> x < bd_offset (descs v p) + start + n
       then 0 else content (datas v) (exts v ps) x)"
proof -
  obtain oid bs where o: "bd_data (descs v p) = Some oid" "datas v oid = Some bs"
    "length bs = bd_size (descs v p)" "block_data v p = Some bs"
    by (rule block_dataE [OF f p])
  show thesis
  proof (cases "is_block_data_initialized (descs v p)")
    case init: True
    define w where "w = put_block v p (write_range bs start (replicate n 0)) (bd_flags (descs v p))"
    have eq: "zero_block_range v p start n = Some w"
      using o n init by (simp add: zero_block_range_def w_def put_block_same_flags)
    have lw: "length (write_range bs start (replicate n 0)) = bd_size (descs v p)"
      using n o(3) by simp
    note po = put_block_ok [OF f p lw, of "bd_flags (descs v p)", folded w_def]
    show ?thesis
    proof (rule that [OF eq po(1)])
      show "same_shape w v"
        unfolding w_def by (rule put_block_simps(3) [OF o(1)])
      fix x
      show "content (datas w) (exts w ps) x =
        (if bd_offset (descs v p) + start \<le> x \<and> x < bd_offset (descs v p) + start + n
         then 0 else content (datas v) (exts v ps) x)"
      proof (cases "in_block (descs v p) x")
        case True
        then have i: "x - bd_offset (descs v p) < bd_size (descs v p)" "bd_offset (descs v p) \<le> x"
          by (auto simp: in_block_def)
        have c: "content (datas v) (exts v ps) x = bs ! (x - bd_offset (descs v p))"
          using block_byte [OF f p True o(4)] init by simp
        have "bd_flags (descs v p) AND BLOCK_INITIALIZED \<noteq> 0"
          using init by (simp add: is_block_data_initialized_def)
        then have "content (datas w) (exts w ps) x =
            write_range bs start (replicate n 0) ! (x - bd_offset (descs v p))"
          using po(2) [of x] True by simp
        also have "\<dots> = (if start \<le> x - bd_offset (descs v p) \<and> x - bd_offset (descs v p) < start + n
            then 0 else bs ! (x - bd_offset (descs v p)))"
          using nth_write_range [of start "replicate n 0" bs "x - bd_offset (descs v p)"] n o(3) i by auto
        finally show ?thesis
          using c i(2) by auto
      next
        case False
        then show ?thesis
          using po(2) [of x] n by (auto simp: in_block_def)
      qed
    qed
  next
    case False
    then have eq: "zero_block_range v p start n = Some v"
      by (simp add: zero_block_range_def)
    have z: "content (datas v) (exts v ps) x = 0"
      if "bd_offset (descs v p) + start \<le> x" "x < bd_offset (descs v p) + start + n" for x
    proof -
      have "in_block (descs v p) x"
        using that n by (auto simp: in_block_def)
      then show ?thesis
        using block_byte [OF f p _ o(4)] False by simp
    qed
    show ?thesis
      by (rule that [OF eq f]) (use z in auto)
  qed
qed

section \<open>Reading\<close>

text \<open>The bytes of a range.\<close>

definition range_of :: "pfile \<Rightarrow> bptr list \<Rightarrow> nat \<Rightarrow> nat \<Rightarrow> byte list" where
  "range_of v ps offset n = map (content (datas v) (exts v ps)) [offset..<offset + n]"

lemma range_of_append: "m \<le> n \<Longrightarrow> range_of v ps offset m @ range_of v ps (offset + m) (n - m) = range_of v ps offset n"
proof -
  assume "m \<le> n"
  then have "[offset..<offset + n] = [offset..<offset + m] @ [offset + m..<offset + m + (n - m)]"
    using upt_add_eq_append [of offset "offset + m" "n - m"] by simp
  then show ?thesis
    by (simp add: range_of_def)
qed

lemma range_of_hole:
  assumes "\<And>x p. offset \<le> x \<Longrightarrow> x < offset + n \<Longrightarrow> p \<in> set ps \<Longrightarrow> \<not> in_block (descs v p) x"
  shows "range_of v ps offset n = replicate n 0"
proof (rule nth_equalityI)
  fix i assume "i < length (range_of v ps offset n)"
  then have i: "i < n"
    by (simp add: range_of_def)
  have "content (datas v) (exts v ps) (offset + i) = 0"
    by (rule content_no_block) (use assms i in auto)
  then show "range_of v ps offset n ! i = replicate n 0 ! i"
    using i by (simp add: range_of_def)
qed (simp add: range_of_def)

lemma read_block_range_ok:
  assumes f: "file_ok A v ps" and p: "p \<in> set ps" and n: "start + n \<le> bd_size (descs v p)"
  shows "read_block_range v (Some p) start n = Some (range_of v ps (bd_offset (descs v p) + start) n)"
proof -
  obtain oid bs where o: "bd_data (descs v p) = Some oid" "datas v oid = Some bs"
    "length bs = bd_size (descs v p)" "block_data v p = Some bs"
    by (rule block_dataE [OF f p])
  have c: "content (datas v) (exts v ps) (bd_offset (descs v p) + start + i) =
      (if is_block_data_initialized (descs v p) then bs ! (start + i) else 0)" if "i < n" for i
    using block_byte [OF f p _ o(4), of "bd_offset (descs v p) + start + i"] that n
    by (simp add: in_block_def)
  show ?thesis
  proof (cases "is_block_data_initialized (descs v p)")
    case True
    have "take n (drop start bs) = range_of v ps (bd_offset (descs v p) + start) n"
      using n o(3) True c by (intro nth_equalityI) (simp_all add: range_of_def)
    then show ?thesis
      using True o n by (simp add: read_block_range_def)
  next
    case False
    then have "replicate n 0 = range_of v ps (bd_offset (descs v p) + start) n"
      using c by (intro nth_equalityI) (simp_all add: range_of_def)
    then show ?thesis
      using False by (simp add: read_block_range_def)
  qed
qed

text \<open>Consecutive blocks that both meet the range before \<open>e\<close> touch.\<close>

fun contiguous :: "pfile \<Rightarrow> bptr list \<Rightarrow> nat \<Rightarrow> bool" where
  "contiguous v (p # q # r) e \<longleftrightarrow>
     (bd_offset (descs v q) < e \<longrightarrow> bd_offset (descs v p) + bd_size (descs v p) = bd_offset (descs v q)) \<and>
     contiguous v (q # r) e"
| "contiguous v _ e \<longleftrightarrow> True"

lemma iterate_done [simp]: "iterate_loop dir v b l off 0 buf got = Some (l, v, got)"
  by (subst iterate_loop.simps) simp

lemma iterate_hole:
  assumes "0 < len" and "\<not> is_offset_in_block v b off"
    and "\<And>n. find_following_block v b = Some n \<Longrightarrow> len \<le> sub64 (bd_offset (descs v n)) off"
  shows "iterate_loop read_from_blocks v b l off len buf got = Some (l, v, got @ replicate len 0)"
  using assms
  by (subst iterate_loop.simps)
    (cases "find_following_block v b"; simp add: Let_def read_block_range_def min_def)

lemma iterate_read_block:
  assumes f: "file_ok A v ps" and p: "p \<in> set ps" and ib: "in_block (descs v p) off" and len: "0 < len"
    and n: "n = min len (bd_offset (descs v p) + bd_size (descs v p) - off)" and b: "off + len < W64"
  shows "iterate_loop read_from_blocks v (Some p) l off len buf got =
     iterate_loop read_from_blocks v (bd_next (descs v p)) (Some p) (off + n) (len - n) buf
       (got @ range_of v ps off n)"
proof -
  have io: "is_offset_in_block v (Some p) off"
    using is_offset_in_block_ok [OF f, of "Some p"] p ib by auto
  have o: "bd_offset (descs v p) \<le> off" "off < bd_offset (descs v p) + bd_size (descs v p)"
    using ib by (simp_all add: in_block_def)
  then have n': "min len (bd_size (descs v p) - (off - bd_offset (descs v p))) = n"
    using n by simp
  have r: "read_block_range v (Some p) (off - bd_offset (descs v p)) n = Some (range_of v ps off n)"
    using read_block_range_ok [OF f p, of "off - bd_offset (descs v p)" n] n o by simp
  have a: "add64 off n = off + n"
    using b n by (simp add: add64_exact min_def)
  show ?thesis
    using len io n' r a by (subst iterate_loop.simps) (simp add: Let_def)
qed

lemma hd_following:
  assumes "linked v (ys @ z # zs)"
  shows "find_following_block v (Some z) = hd_or zs None"
  using assms seg_mid(2) [of "descs v" None ys z zs None] by (simp add: linked_def find_following_block_def)

lemma iterate_read_from:
  assumes "file_ok A v (ys @ zs)" and "contiguous v zs (off + len)" and "off + len < W64"
    and "\<And>y. y \<in> set ys \<Longrightarrow> bd_offset (descs v y) + bd_size (descs v y) \<le> off"
    and "zs \<noteq> [] \<Longrightarrow> in_block (descs v (hd zs)) off \<or> off + len \<le> bd_offset (descs v (hd zs))"
  shows "\<exists>lb. iterate_loop read_from_blocks v (hd_or zs None) l off len buf got =
      Some (lb, v, got @ range_of v (ys @ zs) off len) \<and> (lb = l \<or> lb \<in> Some ` set (ys @ zs))"
  using assms
proof (induction zs arbitrary: ys off len l got)
  case Nil
  show ?case
  proof (cases "len = 0")
    case False
    have "len \<le> sub64 (bd_offset (descs v n)) off" if "find_following_block v None = Some n" for n
    proof -
      have "n \<in> set ys"
        using that Nil.prems(1) hd_or_mem [of ys n]
        by (simp add: find_following_block_def file_ok_def linked_def)
      then have "bd_offset (descs v n) < off"
        using Nil.prems(4) file_ok_bounds(3) [OF Nil.prems(1), of n] by force
      then show ?thesis
        using Nil.prems(3) by (simp add: sub64_def)
    qed
    then have "iterate_loop read_from_blocks v None l off len buf got = Some (l, v, got @ replicate len 0)"
      using False by (intro iterate_hole) (simp_all add: is_offset_in_block_def)
    moreover have "range_of v ys off len = replicate len 0"
      by (rule range_of_hole) (use Nil.prems(4) in \<open>fastforce simp: in_block_def\<close>)
    ultimately show ?thesis
      by simp
  qed (simp add: range_of_def)
next
  case (Cons z zs)
  note f = Cons.prems(1)
  have zm: "z \<in> set (ys @ z # zs)"
    by simp
  have ords: "bd_offset (descs v z) + bd_size (descs v z) \<le> bd_offset (descs v q)" if "q \<in> set zs" for q
    using file_ok_order(2) [OF f that] .
  have lk: "linked v (ys @ z # zs)"
    using f by (simp add: file_ok_def)
  have nx: "bd_next (descs v z) = hd_or zs None"
    using hd_following [OF lk] by (simp add: find_following_block_def)
  show ?case
  proof (cases "len = 0")
    case len: False
    show ?thesis
    proof (cases "in_block (descs v z) off")
      case True
      define n where "n = min len (bd_offset (descs v z) + bd_size (descs v z) - off)"
      have step: "iterate_loop read_from_blocks v (Some z) l off len buf got =
         iterate_loop read_from_blocks v (hd_or zs None) (Some z) (off + n) (len - n) buf
           (got @ range_of v (ys @ z # zs) off n)"
        using iterate_read_block [OF f zm True _ n_def Cons.prems(3)] len nx by simp
      show ?thesis
      proof (cases "len \<le> bd_offset (descs v z) + bd_size (descs v z) - off")
        case True
        then have "n = len"
          by (simp add: n_def)
        then show ?thesis
          using step by simp
      next
        case False
        have n: "off + n = bd_offset (descs v z) + bd_size (descs v z)" "n < len"
          using False True by (auto simp: n_def in_block_def min_def)
        have e: "off + n + (len - n) = off + len"
          using n(2) by simp
        have "\<exists>lb. iterate_loop read_from_blocks v (hd_or zs None) (Some z) (off + n) (len - n) buf
            (got @ range_of v (ys @ z # zs) off n) =
            Some (lb, v, (got @ range_of v (ys @ z # zs) off n) @ range_of v ((ys @ [z]) @ zs) (off + n) (len - n)) \<and>
            (lb = Some z \<or> lb \<in> Some ` set ((ys @ [z]) @ zs))"
        proof (rule Cons.IH)
          show "file_ok A v ((ys @ [z]) @ zs)"
            using f by simp
          show "contiguous v zs (off + n + (len - n))"
            unfolding e using Cons.prems(2) by (cases zs) auto
          show "off + n + (len - n) < W64"
            unfolding e by (rule Cons.prems(3))
          show "bd_offset (descs v y) + bd_size (descs v y) \<le> off + n" if "y \<in> set (ys @ [z])" for y
            using that Cons.prems(4) [of y] n(1) by auto
          show "in_block (descs v (hd zs)) (off + n) \<or> off + n + (len - n) \<le> bd_offset (descs v (hd zs))"
            if "zs \<noteq> []"
          proof -
            from that obtain q r where zs: "zs = q # r"
              by (cases zs) auto
            have "0 < bd_size (descs v q)"
              using file_ok_bounds(3) [OF f, of q] zs by simp
            then show ?thesis
              unfolding e using Cons.prems(2) n(1) by (auto simp: zs in_block_def)
          qed
        qed
        then show ?thesis
          using step range_of_append [of n len v "ys @ z # zs" off] n(2) by auto
      qed
    next
      case False
      then have ge: "off + len \<le> bd_offset (descs v z)"
        using Cons.prems(5) by simp
      have "iterate_loop read_from_blocks v (Some z) l off len buf got = Some (l, v, got @ replicate len 0)"
      proof (rule iterate_hole)
        show "\<not> is_offset_in_block v (Some z) off"
          using is_offset_in_block_ok [OF f, of "Some z"] False by auto
        show "len \<le> sub64 (bd_offset (descs v n)) off" if "find_following_block v (Some z) = Some n" for n
        proof -
          have "n \<in> set zs"
            using that hd_following [OF lk] hd_or_mem [of zs n] by simp
          then have "off + len \<le> bd_offset (descs v n)" "bd_offset (descs v n) < W64"
            using ords [of n] ge file_ok_bounds(5) [OF f, of n] by auto
          then show ?thesis
            by (simp add: sub64_exact)
        qed
      qed (use len in simp)
      moreover have "range_of v (ys @ z # zs) off len = replicate len 0"
      proof (rule range_of_hole)
        fix x p assume "off \<le> x" "x < off + len" "p \<in> set (ys @ z # zs)"
        then show "\<not> in_block (descs v p) x"
          using Cons.prems(4) [of p] ords [of p] ge by (auto simp: in_block_def)
      qed
      ultimately show ?thesis
        by auto
    qed
  qed (simp add: range_of_def)
qed

lemma contiguous_mono: "contiguous v (p # zs) e \<Longrightarrow> contiguous v zs e"
  by (cases zs) auto

text \<open>Reading from the block found for the offset.\<close>

lemma iterate_read_ok:
  assumes f: "file_ok A v (ys @ zs)" and b: "off + len < W64"
    and ys: "\<And>y. y \<in> set ys \<Longrightarrow> bd_offset (descs v y) \<le> off"
    and zs: "\<And>z. z \<in> set zs \<Longrightarrow> off < bd_offset (descs v z)"
    and con: "contiguous v (filter (\<lambda>p. off < bd_offset (descs v p) + bd_size (descs v p)) (ys @ zs)) (off + len)"
  shows "\<exists>lb. iterate_loop read_from_blocks v (last_or ys None) l off len buf [] =
      Some (lb, v, range_of v (ys @ zs) off len) \<and> (lb = l \<or> lb \<in> Some ` set (ys @ zs))"
proof (cases "len = 0")
  case len: False
  have lk: "linked v (ys @ zs)"
    using f by (simp add: file_ok_def)
  have fz: "filter (\<lambda>p. off < bd_offset (descs v p) + bd_size (descs v p)) zs = zs"
    using zs by (intro filter_True) force
  show ?thesis
  proof (cases "ys \<noteq> [] \<and> in_block (descs v (last ys)) off")
    case True
    then obtain ys' p where yp: "ys = ys' @ [p]" and ib: "in_block (descs v p) off"
      by (cases ys rule: rev_cases) auto
    have f': "file_ok A v (ys' @ p # zs)"
      using f yp by simp
    have e: "bd_offset (descs v y) + bd_size (descs v y) \<le> off" if "y \<in> set ys'" for y
      using file_ok_order(1) [OF f' that] ib by (simp add: in_block_def)
    then have "filter (\<lambda>p. off < bd_offset (descs v p) + bd_size (descs v p)) ys' = []"
      by (auto simp: filter_empty_conv not_less)
    then have "contiguous v (p # zs) (off + len)"
      using con fz ib by (simp add: yp in_block_def)
    from iterate_read_from [OF f' this b e, of l buf "[]"] ib show ?thesis
      by (simp add: yp)
  next
    case False
    have e: "bd_offset (descs v y) + bd_size (descs v y) \<le> off" if "y \<in> set ys" for y
      by (rule blocks_end_before [OF f ys False that])
    then have "filter (\<lambda>p. off < bd_offset (descs v p) + bd_size (descs v p)) ys = []"
      by (auto simp: filter_empty_conv not_less)
    then have con': "contiguous v zs (off + len)"
      using con fz by simp
    have nib: "\<not> is_offset_in_block v (last_or ys None) off"
      using is_offset_in_block_ok [OF f, of "last_or ys None" off] last_or_mem [of ys] False
      by (auto simp: last_or_def split: if_splits)
    have ff: "find_following_block v (last_or ys None) = hd_or zs None"
    proof (cases ys rule: rev_cases)
      case Nil
      then show ?thesis
        using lk by (simp add: find_following_block_def linked_def)
    next
      case (snoc ys' p)
      then show ?thesis
        using hd_following [of v ys' p zs] lk by simp
    qed
    show ?thesis
    proof (cases zs)
      case Nil
      have "iterate_loop read_from_blocks v (last_or ys None) l off len buf [] = Some (l, v, [] @ replicate len 0)"
        by (rule iterate_hole) (use len nib ff Nil in auto)
      moreover have "range_of v (ys @ zs) off len = replicate len 0"
        by (rule range_of_hole) (use e Nil in \<open>fastforce simp: in_block_def\<close>)
      ultimately show ?thesis
        by simp
    next
      case (Cons z zs')
      have oz: "off < bd_offset (descs v z)" "bd_offset (descs v z) < W64"
        using zs [of z] file_ok_bounds(5) [OF f, of z] Cons by auto
      define n where "n = min len (bd_offset (descs v z) - off)"
      have sub: "min len (sub64 (bd_offset (descs v z)) off) = n"
        using oz by (simp add: sub64_exact n_def)
      have "add64 off n = off + n"
        using b by (simp add: add64_exact n_def min_def)
      then have step: "iterate_loop read_from_blocks v (last_or ys None) l off len buf [] =
          iterate_loop read_from_blocks v (hd_or zs None) l (off + n) (len - n) buf (replicate n 0)"
        using len nib ff sub Cons
        by (subst iterate_loop.simps) (simp add: Let_def read_block_range_def)
      have hole: "range_of v (ys @ zs) off n = replicate n 0"
      proof (rule range_of_hole)
        fix x p assume "off \<le> x" "x < off + n" "p \<in> set (ys @ zs)"
        moreover have "bd_offset (descs v z) \<le> bd_offset (descs v p)" if "p \<in> set zs"
          using that file_ok_order(2) [of A v ys z zs' p] f Cons by auto
        ultimately show "\<not> in_block (descs v p) x"
          using e [of p] by (auto simp: in_block_def n_def)
      qed
      have "n \<le> len"
        by (simp add: n_def)
      then have "off + n + (len - n) = off + len"
        by simp
      moreover have "in_block (descs v z) (off + n) \<or> off + n + (len - n) \<le> bd_offset (descs v z)"
      proof (cases "len \<le> bd_offset (descs v z) - off")
        case True
        then show ?thesis using oz by (simp add: n_def) linarith
      next
        case False
        then show ?thesis
          using oz file_ok_bounds(3) [OF f, of z] Cons by (simp add: n_def in_block_def)
      qed
      moreover have "bd_offset (descs v y) + bd_size (descs v y) \<le> off + n" if "y \<in> set ys" for y
        using e [OF that] by simp
      ultimately have "\<exists>lb. iterate_loop read_from_blocks v (hd_or zs None) l (off + n) (len - n) buf (replicate n 0) =
          Some (lb, v, replicate n 0 @ range_of v (ys @ zs) (off + n) (len - n)) \<and>
          (lb = l \<or> lb \<in> Some ` set (ys @ zs))"
        using con' b Cons by (intro iterate_read_from [OF f]) auto
      then show ?thesis
        using step range_of_append [OF \<open>n \<le> len\<close>, of v "ys @ zs" off] hole by auto
    qed
  qed
qed (simp add: range_of_def)

section \<open>Writing\<close>

lemma iterate_write_block:
  assumes f: "file_ok A v ps" and p: "p \<in> set ps" and ib: "in_block (descs v p) off" and len: "0 < len"
    and n: "n = min len (bd_offset (descs v p) + bd_size (descs v p) - off)" and b: "off + len < W64"
    and buf: "length buf = len"
  obtains w where "iterate_loop write_to_blocks v (Some p) l off len buf got =
      iterate_loop write_to_blocks w (bd_next (descs w p)) (Some p) (off + n) (len - n) (drop n buf) got"
    and "file_ok A w ps" and "same_shape w v"
    and "\<And>x. content (datas w) (exts w ps) x =
      (if off \<le> x \<and> x < off + n then buf ! (x - off) else content (datas v) (exts v ps) x)"
proof -
  have io: "is_offset_in_block v (Some p) off"
    using is_offset_in_block_ok [OF f, of "Some p"] p ib by auto
  have o: "bd_offset (descs v p) \<le> off" "off < bd_offset (descs v p) + bd_size (descs v p)"
    using ib by (simp_all add: in_block_def)
  then have n': "min len (bd_size (descs v p) - (off - bd_offset (descs v p))) = n"
    using n by simp
  have lt: "length (take n buf) = n"
    using buf n by simp
  have st: "off - bd_offset (descs v p) + length (take n buf) \<le> bd_size (descs v p)"
  proof -
    have "n \<le> bd_offset (descs v p) + bd_size (descs v p) - off"
      using n by simp
    then show ?thesis
      unfolding lt using o by linarith
  qed
  obtain w where w: "write_block_range v p (off - bd_offset (descs v p)) (take n buf) = Some w"
    "file_ok A w ps" "same_shape w v"
    "\<And>x. content (datas w) (exts w ps) x =
      (if bd_offset (descs v p) + (off - bd_offset (descs v p)) \<le> x \<and>
          x < bd_offset (descs v p) + (off - bd_offset (descs v p)) + length (take n buf)
       then take n buf ! (x - (bd_offset (descs v p) + (off - bd_offset (descs v p))))
       else content (datas v) (exts v ps) x)"
    by (rule write_block_range_ok [OF f p st]) (rule that)
  have a: "add64 off n = off + n"
    using b n by (simp add: add64_exact min_def)
  have "iterate_loop write_to_blocks v (Some p) l off len buf got =
      iterate_loop write_to_blocks w (bd_next (descs w p)) (Some p) (off + n) (len - n) (drop n buf) got"
    using len io n' w(1) a by (subst iterate_loop.simps) (simp add: Let_def)
  then show thesis
    using w(2,3,4) o lt by (intro that [of w]) auto
qed

lemma iterate_write_from:
  assumes "file_ok A v (ys @ zs)" and "off + len < W64" and "length buf = len"
    and "\<And>x. off \<le> x \<Longrightarrow> x < off + len \<Longrightarrow> \<exists>p \<in> set zs. in_block (descs v p) x"
    and "\<And>y. y \<in> set ys \<Longrightarrow> bd_offset (descs v y) + bd_size (descs v y) \<le> off"
    and "0 < len \<Longrightarrow> zs \<noteq> [] \<and> in_block (descs v (hd zs)) off"
  shows "\<exists>lb w. iterate_loop write_to_blocks v (hd_or zs None) l off len buf got = Some (lb, w, got) \<and>
      file_ok A w (ys @ zs) \<and> same_shape w v \<and> (lb = l \<or> lb \<in> Some ` set (ys @ zs)) \<and>
      (\<forall>x. content (datas w) (exts w (ys @ zs)) x =
        (if off \<le> x \<and> x < off + len then buf ! (x - off) else content (datas v) (exts v (ys @ zs)) x))"
  using assms
proof (induction zs arbitrary: v ys off len l buf)
  case Nil
  then show ?case
    by (cases "len = 0") auto
next
  case (Cons z zs)
  note f = Cons.prems(1)
  have zm: "z \<in> set (ys @ z # zs)"
    by simp
  show ?case
  proof (cases "len = 0")
    case True
    then show ?thesis
      using f by auto
  next
    case len: False
    then have ib: "in_block (descs v z) off"
      using Cons.prems(6) by simp
    define n where "n = min len (bd_offset (descs v z) + bd_size (descs v z) - off)"
    obtain w where w: "iterate_loop write_to_blocks v (Some z) l off len buf got =
        iterate_loop write_to_blocks w (bd_next (descs w z)) (Some z) (off + n) (len - n) (drop n buf) got"
      "file_ok A w (ys @ z # zs)" "same_shape w v"
      "\<And>x. content (datas w) (exts w (ys @ z # zs)) x =
        (if off \<le> x \<and> x < off + n then buf ! (x - off) else content (datas v) (exts v (ys @ z # zs)) x)"
      using len by (auto intro: iterate_write_block [OF f zm ib _ n_def Cons.prems(2,3), of l got])
    note sh = same_shape_descs [OF w(3)]
    have lk: "linked w (ys @ z # zs)"
      using w(2) by (simp add: file_ok_def)
    have nx: "bd_next (descs w z) = hd_or zs None"
      using hd_following [OF lk] by (simp add: find_following_block_def)
    have nl: "n \<le> len"
      by (simp add: n_def)
    have e: "off + n + (len - n) = off + len"
      using nl by simp
    have "\<exists>lb u. iterate_loop write_to_blocks w (hd_or zs None) (Some z) (off + n) (len - n) (drop n buf) got =
        Some (lb, u, got) \<and> file_ok A u ((ys @ [z]) @ zs) \<and> same_shape u w \<and>
        (lb = Some z \<or> lb \<in> Some ` set ((ys @ [z]) @ zs)) \<and>
        (\<forall>x. content (datas u) (exts u ((ys @ [z]) @ zs)) x =
          (if off + n \<le> x \<and> x < off + n + (len - n) then drop n buf ! (x - (off + n))
           else content (datas w) (exts w ((ys @ [z]) @ zs)) x))"
    proof (cases "len - n = 0")
      case True
      then show ?thesis
        using w(2) by auto
    next
      case False
      then have oz: "off + n = bd_offset (descs v z) + bd_size (descs v z)"
        using ib by (auto simp: n_def in_block_def min_def split: if_splits)
      have cov: "\<exists>p \<in> set zs. in_block (descs w p) x" if "off + n \<le> x" "x < off + n + (len - n)" for x
      proof -
        have "\<exists>p \<in> set (z # zs). in_block (descs v p) x"
          using Cons.prems(4) [of x] that e by simp
        moreover have "\<not> in_block (descs v z) x"
          using that(1) oz by (simp add: in_block_def)
        ultimately show ?thesis
          by (auto simp: same_shape_in_block [OF w(3)])
      qed
      show ?thesis
      proof (rule Cons.IH)
        show "file_ok A w ((ys @ [z]) @ zs)"
          using w(2) by simp
        show "off + n + (len - n) < W64"
          unfolding e by (rule Cons.prems(2))
        show "length (drop n buf) = len - n"
          using Cons.prems(3) by simp
        show "bd_offset (descs w y) + bd_size (descs w y) \<le> off + n" if "y \<in> set (ys @ [z])" for y
          using that Cons.prems(5) [of y] oz by (auto simp: sh)
        show "zs \<noteq> [] \<and> in_block (descs w (hd zs)) (off + n)"
        proof -
          obtain p where p: "p \<in> set zs" "in_block (descs w p) (off + n)"
            using cov [of "off + n"] False by auto
          then obtain q r where zs: "zs = q # r"
            by (cases zs) auto
          have "p = q"
          proof (rule ccontr)
            assume "p \<noteq> q"
            then have "p \<in> set r"
              using p(1) zs by simp
            then have "bd_offset (descs w q) + bd_size (descs w q) \<le> bd_offset (descs w p)"
              using file_ok_order(2) [of A w "ys @ [z]" q r p] w(2) zs by simp
            moreover have "bd_offset (descs w z) + bd_size (descs w z) \<le> bd_offset (descs w q)"
              using file_ok_order(2) [OF w(2), of q] zs by simp
            moreover have "0 < bd_size (descs w q)"
              using file_ok_bounds(3) [OF w(2), of q] zs by simp
            ultimately show False
              using p(2) oz by (simp add: in_block_def sh)
          qed
          then show ?thesis
            using p(2) zs by simp
        qed
      qed (use cov in auto)
    qed
    then obtain lb u where u: "iterate_loop write_to_blocks w (hd_or zs None) (Some z) (off + n) (len - n) (drop n buf) got =
        Some (lb, u, got)" "file_ok A u (ys @ z # zs)" "same_shape u w"
      "lb = Some z \<or> lb \<in> Some ` set (ys @ z # zs)"
      "\<And>x. content (datas u) (exts u (ys @ z # zs)) x =
          (if off + n \<le> x \<and> x < off + n + (len - n) then drop n buf ! (x - (off + n))
           else content (datas w) (exts w (ys @ z # zs)) x)"
      by auto
    have "content (datas u) (exts u (ys @ z # zs)) x =
        (if off \<le> x \<and> x < off + len then buf ! (x - off) else content (datas v) (exts v (ys @ z # zs)) x)" for x
    proof (cases "off + n \<le> x \<and> x < off + len")
      case True
      then have "drop n buf ! (x - (off + n)) = buf ! (x - off)"
        using Cons.prems(3) nl by (subst nth_drop) auto
      then show ?thesis
        using True u(5) [of x] e by simp
    next
      case False
      then show ?thesis
        using u(5) [of x] e w(4) [of x] nl by auto
    qed
    then show ?thesis
      using w(1) nx u(1,2,4) same_shape_trans [OF u(3) w(3)]
      by (intro exI [of _ lb] exI [of _ u]) auto
  qed
qed

end
