(* ===== verification/Data_Remove.thy ===== *)
theory Data_Remove
  imports Data_IO
begin

text \<open>
  Punching a hole: \<open>vinode_remove_interval\<close> ends, makes the interval read as zeros, keeps every
  other byte of the file, and reports the space it freed. Rebuilding the offset map from the
  descriptors gives back the invariant.
\<close>

section \<open>Removing a block\<close>

lemma exts_ok_remove:
  assumes "exts_ok A D (L1 @ e # L2)" and "ext_data e = Some oid"
  shows "exts_ok A (D(oid := None)) (L1 @ L2)"
    and "content (D(oid := None)) (L1 @ L2) x = (if covers e x then 0 else content D (L1 @ e # L2) x)"
proof -
  have other: "ext_data f \<noteq> Some oid" if "f \<in> set (L1 @ L2)" for f
  proof -
    have "distinct (map ext_data (L1 @ e # L2))"
      using assms(1) by (simp add: exts_ok_def)
    then show ?thesis
      using that assms(2) by (auto simp: image_iff)
  qed
  have okf: "ext_ok A D f" if "f \<in> set (L1 @ L2)" for f
    using assms(1) that by (auto simp: exts_ok_def)
  have "ext_ok A (D(oid := None)) f" if "f \<in> set (L1 @ L2)" for f
    using okf [OF that] other [OF that] by (auto simp: ext_ok_def has_data_def split: option.splits)
  then show ok: "exts_ok A (D(oid := None)) (L1 @ L2)"
    using assms(1) by (auto simp: exts_ok_def sorted_wrt_append)
  show "content (D(oid := None)) (L1 @ L2) x = (if covers e x then 0 else content D (L1 @ e # L2) x)"
  proof (cases "covers e x")
    case True
    show ?thesis
    proof -
      have "\<not> covers f x" if "f \<in> set (L1 @ L2)" for f
        using that exts_ok_split(1,2) [OF assms(1) True, of f] by auto
      then have "content (D(oid := None)) (L1 @ L2) x = 0"
        by (rule content_hole)
      with True show ?thesis by simp
    qed
  next
    case False
    show ?thesis
    proof (cases "\<exists>f \<in> set (L1 @ L2). covers f x")
      case True
      then obtain f where f: "f \<in> set (L1 @ L2)" "covers f x"
        by blast
      have "content (D(oid := None)) (L1 @ L2) x = ext_byte (D(oid := None)) f x"
        by (rule content_covered [OF ok f])
      also have "\<dots> = ext_byte D f x"
        by (rule ext_byte_cong [OF okf [OF f(1)]]) (use other [OF f(1)] in auto)
      also have "\<dots> = content D (L1 @ e # L2) x"
        using f by (intro content_covered [OF assms(1), symmetric]) auto
      finally show ?thesis
        using False by simp
    next
      case none: False
      then have "content (D(oid := None)) (L1 @ L2) x = 0" "content D (L1 @ e # L2) x = 0"
        using False by (intro content_hole; auto)+
      then show ?thesis
        using False by simp
    qed
  qed
qed

lemma remove_block_ok:
  assumes f: "file_ok A v (ys @ p # zs)" and al: "MIN_BLOCK_SIZE dvd A"
  obtains v1 w ys' zs' where "map_remove p v = Some v1"
    and "block_list_remove v1 p = tx_ret (last_or ys' None, w)"
    and "file_ok A w (ys' @ zs')" and "exts w ys' = exts v ys" and "exts w zs' = exts v zs"
    and "invalidations w = invalidations v"
    and "\<And>x. content (datas w) (exts w (ys' @ zs')) x =
      (if in_block (descs v p) x then 0 else content (datas v) (exts v (ys @ p # zs)) x)"
proof -
  have pm: "p \<in> set (ys @ p # zs)"
    by simp
  note wu = file_ok_whole_units [OF f _ al]
  have mp: "mapped v (ys @ p # zs)" and dis: "distinct (ys @ p # zs)" and al0: "allocs v = []"
    using f file_ok_distinct [OF f] by (simp_all add: file_ok_def)
  obtain m where m: "map_remove p v = Some (v\<lparr>blocks := Some m\<rparr>)" "om_ok m"
    "\<And>u q. om_look m u = Some q \<longleftrightarrow> q \<in> set (ys @ p # zs) \<and> q \<noteq> p \<and> in_block (descs v q) (bytes u)"
    by (rule map_remove_ok [OF mp pm wu [OF pm] dis]) (rule that)
  define v1 where "v1 = v\<lparr>blocks := Some m\<rparr>"
  have d1: "descs v1 = descs v" "datas v1 = datas v" "invalidations v1 = invalidations v"
    by (simp_all add: v1_def)
  obtain rest i where so: "slots_ok v rest i (ys @ p # zs)"
    using f by (auto simp: file_ok_def)
  have s1: "slots_ok v1 rest i (ys @ p # zs)"
    by (rule slots_ok_cong [OF so]) (use dis in \<open>simp_all add: v1_def\<close>)
  have l1: "linked v1 (ys @ p # zs)"
    using f by (simp add: v1_def file_ok_def linked_def)
  have z1: "sized v1 (ys @ p # zs)"
    using file_ok_sized [OF f] by (simp add: sized_def d1)
  have "q \<in> set (ys @ p # zs) \<and> q \<noteq> p \<longleftrightarrow> q \<in> set (ys @ zs)" for q
    using dis by auto
  then have m1: "mapped v1 (ys @ zs)"
    using m(2,3) unfolding mapped_def by (auto simp: v1_def)
  have a1: "allocs v1 = []"
    using al0 by (simp add: v1_def)
  have w1: "whole_units (descs v1 q)" if "q \<in> set (ys @ zs)" for q
    using wu [of q] that by (auto simp: d1)
  obtain w ys' zs' where r: "block_list_remove v1 p = tx_ret (last_or ys' None, w)"
    "removed v1 ys p zs w ys' zs'"
    using block_list_remove_ok [OF s1 l1 z1 m1 a1 w1] by blast
  obtain oid bs where o: "bd_data (descs v p) = Some oid"
    by (rule block_dataE [OF f pm]) blast
  have ex: "exts w ys' = exts v ys" "exts w zs' = exts v zs"
    using r(2) d1 by (simp_all add: removed_def exts_def comp_def)
  have dw: "datas w = (datas v)(oid := None)" and iw: "invalidations w = invalidations v"
    using r(2) o d1 by (simp_all add: removed_def)
  have eo: "exts_ok A (datas v) (exts v ys @ payload (descs v p) # exts v zs)"
    using f by (simp add: file_ok_def)
  have od: "ext_data (payload (descs v p)) = Some oid"
    using o by simp
  note er = exts_ok_remove [OF eo od]
  have "file_ok A w (ys' @ zs')"
    using r(2) er(1) ex dw unfolding file_ok_def removed_def by auto
  moreover have "content (datas w) (exts w (ys' @ zs')) x =
      (if in_block (descs v p) x then 0 else content (datas v) (exts v (ys @ p # zs)) x)" for x
    using er(2) [of x] ex dw by simp
  ultimately show thesis
    using m(1) r(1) ex iw by (intro that [of v1 ys' w zs']) (simp_all add: v1_def)
qed

section \<open>The loop\<close>

lemma same_shape_space: "same_shape w v \<Longrightarrow> space_of (exts w ps) = space_of (exts v ps)"
  by (simp add: space_of_def exts_def comp_def same_shape_descs)

definition zeroed :: "nat \<Rightarrow> nat \<Rightarrow> (nat \<Rightarrow> byte) \<Rightarrow> nat \<Rightarrow> byte" where
  "zeroed offset len g = (\<lambda>x. if offset \<le> x \<and> x < offset + len then 0 else g x)"

definition remove_post ::
  "nat \<Rightarrow> pfile \<Rightarrow> bptr list \<Rightarrow> nat \<Rightarrow> nat \<Rightarrow> nat \<Rightarrow> (nat \<times> pfile) tx_result \<Rightarrow> bool" where
  "remove_post A v ps offset len space res \<longleftrightarrow>
     (\<exists>space' v' ps'. res = tx_ret (space', v') \<and> file_ok A v' ps' \<and>
        content (datas v') (exts v' ps') = zeroed offset len (content (datas v) (exts v ps)) \<and>
        space' + space_of (exts v' ps') = space + space_of (exts v ps) \<and>
        invalidations v' = invalidations v \<and> ext_off ` set (exts v' ps') \<subseteq> ext_off ` set (exts v ps))"

text \<open>Stopping when every block of the interval that is left reads as zeros.\<close>

lemma remove_post_stop:
  assumes "file_ok A v ps" and "\<And>x p. offset \<le> x \<Longrightarrow> x < offset + len \<Longrightarrow> p \<in> set ps \<Longrightarrow>
      in_block (descs v p) x \<Longrightarrow> content (datas v) (exts v ps) x = 0"
  shows "remove_post A v ps offset len space (tx_ret (space, v))"
proof -
  have "content (datas v) (exts v ps) x = 0" if "offset \<le> x" "x < offset + len" for x
    using assms(2) [OF that] content_no_block [of ps v x "datas v"] by blast
  then have "content (datas v) (exts v ps) = zeroed offset len (content (datas v) (exts v ps))"
    by (auto simp: zeroed_def)
  then show ?thesis
    using assms(1) unfolding remove_post_def by blast
qed

lemma remove_post_step:
  assumes "remove_post A w ps' offset len (space + k) res"
    and "\<And>x. content (datas w) (exts w ps') x =
      (if a \<le> x \<and> x < b then 0 else content (datas v) (exts v ps) x)"
    and "offset \<le> a" and "b \<le> offset + len" and "k + space_of (exts w ps') = space_of (exts v ps)"
    and "invalidations w = invalidations v" and "ext_off ` set (exts w ps') \<subseteq> ext_off ` set (exts v ps)"
  shows "remove_post A v ps offset len space res"
proof -
  have z: "zeroed offset len (content (datas w) (exts w ps')) = zeroed offset len (content (datas v) (exts v ps))"
  proof
    fix x
    show "zeroed offset len (content (datas w) (exts w ps')) x = zeroed offset len (content (datas v) (exts v ps)) x"
      using assms(2) [of x] assms(3,4) by (auto simp: zeroed_def)
  qed
  obtain space' v' ps'' where r: "res = tx_ret (space', v')" "file_ok A v' ps''"
    "content (datas v') (exts v' ps'') = zeroed offset len (content (datas w) (exts w ps'))"
    "space' + space_of (exts v' ps'') = space + k + space_of (exts w ps')"
    "invalidations v' = invalidations w" "ext_off ` set (exts v' ps'') \<subseteq> ext_off ` set (exts w ps')"
    using assms(1) unfolding remove_post_def by blast
  have "space' + space_of (exts v' ps'') = space + space_of (exts v ps)"
    using r(4) assms(5) by linarith
  moreover have "ext_off ` set (exts v' ps'') \<subseteq> ext_off ` set (exts v ps)"
    using r(6) assms(7) by (rule subset_trans)
  ultimately show ?thesis
    unfolding remove_post_def by (intro exI [of _ space'] exI [of _ v'] exI [of _ ps'']) (simp add: r z assms(6))
qed

definition remove_inv :: "nat \<Rightarrow> pfile \<Rightarrow> bptr list \<Rightarrow> bptr list \<Rightarrow> nat \<Rightarrow> nat \<Rightarrow> bool" where
  "remove_inv A v ys zs offset len \<longleftrightarrow> file_ok A v (ys @ zs) \<and>
     (\<forall>y \<in> set ys. bd_offset (descs v y) < offset + len) \<and>
     (\<forall>z \<in> set zs. \<forall>x. offset \<le> x \<and> x < offset + len \<and> in_block (descs v z) x \<longrightarrow>
        content (datas v) (exts v (ys @ zs)) x = 0)"

lemma remove_inv_stop:
  assumes inv: "remove_inv A v ys zs offset len"
    and ys: "\<And>y x. y \<in> set ys \<Longrightarrow> offset \<le> x \<Longrightarrow> x < offset + len \<Longrightarrow> \<not> in_block (descs v y) x"
  shows "remove_post A v (ys @ zs) offset len space (tx_ret (space, v))"
  by (rule remove_post_stop) (use inv ys in \<open>auto simp: remove_inv_def\<close>)

text \<open>The loop after a step that zeroed a part of the last block.\<close>

lemma remove_inv_shape:
  assumes inv: "remove_inv A v (ys @ [p]) zs offset len" and f: "file_ok A w (ys @ p # zs)" and sh: "same_shape w v"
    and c: "\<And>x. content (datas w) (exts w (ys @ p # zs)) x =
      (if a \<le> x \<and> x < b then 0 else content (datas v) (exts v (ys @ p # zs)) x)"
    and ab: "\<And>x. offset \<le> x \<Longrightarrow> x < offset + len \<Longrightarrow> in_block (descs v p) x \<Longrightarrow> a \<le> x \<and> x < b"
  shows "remove_inv A w ys (p # zs) offset len"
  using inv f c ab unfolding remove_inv_def
  by (auto simp: same_shape_in_block [OF sh] same_shape_descs [OF sh])

lemma zeroed_part:
  assumes inv: "remove_inv A v (ys @ [p]) zs offset len" and b: "start + n \<le> bd_size (descs v p)"
    and r: "offset \<le> bd_offset (descs v p) + start" "bd_offset (descs v p) + start + n \<le> offset + len"
    and all: "\<And>x. offset \<le> x \<Longrightarrow> x < offset + len \<Longrightarrow> in_block (descs v p) x \<Longrightarrow>
      bd_offset (descs v p) + start \<le> x \<and> x < bd_offset (descs v p) + start + n"
  obtains w where "zero_block_range v p start n = Some w" and "bd_prev (descs w p) = last_or ys None"
    and "remove_inv A w ys (p # zs) offset len" and "same_shape w v"
    and "\<And>res. remove_post A w (ys @ p # zs) offset len space res \<Longrightarrow>
      remove_post A v (ys @ p # zs) offset len space res"
proof -
  have f: "file_ok A v (ys @ p # zs)"
    using inv by (simp add: remove_inv_def)
  have pm: "p \<in> set (ys @ p # zs)"
    by simp
  obtain w where w: "zero_block_range v p start n = Some w" "file_ok A w (ys @ p # zs)" "same_shape w v"
    "\<And>x. content (datas w) (exts w (ys @ p # zs)) x =
      (if bd_offset (descs v p) + start \<le> x \<and> x < bd_offset (descs v p) + start + n
       then 0 else content (datas v) (exts v (ys @ p # zs)) x)"
    by (rule zero_block_range_ok [OF f pm b]) (rule that)
  have "bd_prev (descs w p) = last_or ys None"
    using w(2) seg_mid(1) [of "descs w" None ys p zs None] by (simp add: file_ok_def linked_def)
  moreover have "remove_inv A w ys (p # zs) offset len"
    by (rule remove_inv_shape [OF inv w(2,3,4) all])
  moreover have "remove_post A v (ys @ p # zs) offset len space res"
    if "remove_post A w (ys @ p # zs) offset len space res" for res
  proof (rule remove_post_step [where k = 0, OF _ w(4) r])
    show "remove_post A w (ys @ p # zs) offset len (space + 0) res"
      using that by simp
    show "0 + space_of (exts w (ys @ p # zs)) = space_of (exts v (ys @ p # zs))"
      by (simp only: add_0 same_shape_space [OF w(3)])
    show "invalidations w = invalidations v"
      using w(3) by (simp add: same_shape_def)
    show "ext_off ` set (exts w (ys @ p # zs)) \<subseteq> ext_off ` set (exts v (ys @ p # zs))"
      by (simp add: exts_def image_Un image_image payload_def same_shape_descs [OF w(3)])
  qed
  ultimately show thesis
    using w(1,3) by (intro that)
qed

lemma remove_step_contained:
  assumes inv: "remove_inv A v (ys @ [p]) zs offset len" and al: "MIN_BLOCK_SIZE dvd A"
    and b: "offset \<le> bd_offset (descs v p)" "bd_offset (descs v p) + bd_size (descs v p) \<le> offset + len"
  obtains v1 w ys' zs' where "map_remove p v = Some v1" and "block_list_remove v1 p = tx_ret (last_or ys' None, w)"
    and "length ys' = length ys" and "remove_inv A w ys' zs' offset len"
    and "\<And>res. remove_post A w (ys' @ zs') offset len (space + bd_size (descs v p)) res \<Longrightarrow>
      remove_post A v (ys @ p # zs) offset len space res"
proof -
  have f: "file_ok A v (ys @ p # zs)"
    using inv by (simp add: remove_inv_def)
  obtain v1 w ys' zs' where w: "map_remove p v = Some v1"
    "block_list_remove v1 p = tx_ret (last_or ys' None, w)"
    "file_ok A w (ys' @ zs')" "exts w ys' = exts v ys" "exts w zs' = exts v zs"
    "invalidations w = invalidations v"
    "\<And>x. content (datas w) (exts w (ys' @ zs')) x =
      (if in_block (descs v p) x then 0 else content (datas v) (exts v (ys @ p # zs)) x)"
    by (rule remove_block_ok [OF f al]) (rule that)
  have len: "length ys' = length ys"
    using arg_cong [OF w(4), of length] by (simp add: exts_def)
  have off: "\<exists>q \<in> set qs. payload (descs v q) = payload (descs w y)"
    if "y \<in> set qs'" "exts w qs' = exts v qs" for y qs qs'
  proof -
    have "payload (descs w y) \<in> set (exts v qs)"
      using that(1) unfolding that(2) [symmetric] by (auto simp: exts_def)
    then show ?thesis
      by (auto simp: exts_def)
  qed
  have "bd_offset (descs w y) < offset + len" if "y \<in> set ys'" for y
    using off [OF that w(4)] inv by (force simp: remove_inv_def payload_def)
  moreover have "content (datas w) (exts w (ys' @ zs')) x = 0"
    if "z \<in> set zs'" "offset \<le> x" "x < offset + len" "in_block (descs w z) x" for z x
  proof -
    from off [OF that(1) w(5)] obtain q where "q \<in> set zs" "payload (descs v q) = payload (descs w z)"
      by blast
    then have "content (datas v) (exts v (ys @ p # zs)) x = 0"
      using inv that(2,3,4) in_block_payload [of "descs v q" "descs w z" x] by (auto simp: remove_inv_def)
    then show ?thesis
      using w(7) [of x] by simp
  qed
  ultimately have "remove_inv A w ys' zs' offset len"
    using w(3) unfolding remove_inv_def by blast
  moreover have "remove_post A v (ys @ p # zs) offset len space res"
    if "remove_post A w (ys' @ zs') offset len (space + bd_size (descs v p)) res" for res
    by (rule remove_post_step [OF that w(7) [unfolded in_block_def] b])
      (auto simp: w(4,5,6) space_of_def)
  ultimately show thesis
    using w(1,2) len by (intro that)
qed

lemma remove_loop_ok:
  assumes al: "MIN_BLOCK_SIZE dvd A" and bound: "offset + len < W64" "0 < len"
  shows "remove_inv A v ys zs offset len \<Longrightarrow>
    remove_post A v (ys @ zs) offset len space (remove_loop v (last_or ys None) offset len space)"
proof (induction "length ys" arbitrary: v ys zs space)
  case 0
  then show ?case
    using remove_inv_stop [OF 0(2)] by (subst remove_loop.simps) simp
next
  case (Suc n)
  obtain ys' p where ys: "ys = ys' @ [p]"
    using Suc(2) by (cases ys rule: rev_cases) auto
  have inv: "remove_inv A v (ys' @ [p]) zs offset len"
    using Suc.prems ys by simp
  have f: "file_ok A v (ys' @ p # zs)" and lt: "bd_offset (descs v p) < offset + len"
    using inv by (simp_all add: remove_inv_def)
  note b = file_ok_bounds [OF f, of p]
  define d where "d = descs v p"
  have e: "add64 (bd_offset d) (bd_size d) = bd_offset d + bd_size d" "add64 offset len = offset + len"
    using b(5) bound by (simp_all add: add64_exact d_def)
  have before: "bd_offset (descs v y) + bd_size (descs v y) \<le> bd_offset d" if "y \<in> set ys'" for y
    using file_ok_order(1) [OF f that] by (simp add: d_def)
  have loop: "remove_loop v (last_or ys None) offset len space = remove_loop v (Some p) offset len space"
    by (simp add: ys)
  have pp: "ys @ zs = ys' @ p # zs"
    by (simp add: ys)
  consider (stop) "bd_offset d + bd_size d \<le> offset"
    | (inside) "offset < bd_offset d + bd_size d" "offset \<le> bd_offset d" "bd_offset d + bd_size d \<le> offset + len"
    | (around) "bd_offset d < offset" "offset + len < bd_offset d + bd_size d"
    | (right) "offset \<le> bd_offset d" "offset + len < bd_offset d + bd_size d"
    | (left) "offset < bd_offset d + bd_size d" "bd_offset d < offset" "bd_offset d + bd_size d \<le> offset + len"
    by linarith
  then show ?case
  proof cases
    case stop
    have "remove_loop v (last_or ys None) offset len space = tx_ret (space, v)"
      unfolding loop by (subst remove_loop.simps) (use stop e in \<open>simp add: Let_def flip: d_def\<close>)
    moreover have "\<not> in_block (descs v y) x" if "y \<in> set ys" "offset \<le> x" for y x
      using that before [of y] stop by (auto simp: ys in_block_def d_def)
    ultimately show ?thesis
      using remove_inv_stop [OF Suc.prems] by simp
  next
    case inside
    obtain v1 w ys'' zs'' where w: "map_remove p v = Some v1"
      "block_list_remove v1 p = tx_ret (last_or ys'' None, w)"
      "length ys'' = length ys'" "remove_inv A w ys'' zs'' offset len"
      "\<And>res. remove_post A w (ys'' @ zs'') offset len (space + bd_size d) res \<Longrightarrow>
        remove_post A v (ys' @ p # zs) offset len space res"
      by (rule remove_step_contained [OF inv al inside(2,3) [unfolded d_def], of space, folded d_def]) (rule that)
    have "remove_loop v (last_or ys None) offset len space =
        remove_loop w (last_or ys'' None) offset len (space + bd_size d)"
      unfolding loop
      by (subst remove_loop.simps)
        (use inside e w(1,2) in \<open>simp add: is_block_contained_by_interval_def Let_def flip: d_def\<close>)
    then show ?thesis
      using w(5) [OF Suc.hyps(1) [OF _ w(4)]] w(3) Suc(2) by (simp add: pp ys)
  next
    case around
    obtain w where w: "zero_block_range v p (offset - bd_offset d) len = Some w"
      "remove_inv A w ys' (p # zs) offset len" "same_shape w v"
      "\<And>res. remove_post A w (ys' @ p # zs) offset len space res \<Longrightarrow>
        remove_post A v (ys' @ p # zs) offset len space res"
      by (rule zeroed_part [OF inv, of "offset - bd_offset d" len space])
        (use around that in \<open>auto simp: d_def in_block_def\<close>)
    have "remove_loop v (last_or ys None) offset len space = tx_ret (space, w)"
      unfolding loop
      by (subst remove_loop.simps)
        (use around e w(1) bound in \<open>simp add: is_block_contained_by_interval_def
          is_interval_contained_by_block_def Let_def flip: d_def\<close>)
    moreover have "remove_post A w (ys' @ p # zs) offset len space (tx_ret (space, w))"
    proof (rule remove_inv_stop [OF w(2)])
      fix y x assume "y \<in> set ys'" "offset \<le> x"
      then show "\<not> in_block (descs w y) x"
        using before [of y] around(1) by (simp add: in_block_def same_shape_descs [OF w(3)])
    qed
    ultimately show ?thesis
      using w(4) by (simp add: pp)
  next
    case right
    have n: "sub64 (offset + len) (bd_offset d) = offset + len - bd_offset d"
      using lt bound by (intro sub64_exact) (simp_all add: d_def)
    obtain w where w: "zero_block_range v p 0 (offset + len - bd_offset d) = Some w"
      "bd_prev (descs w p) = last_or ys' None" "remove_inv A w ys' (p # zs) offset len"
      "\<And>res. remove_post A w (ys' @ p # zs) offset len space res \<Longrightarrow>
        remove_post A v (ys' @ p # zs) offset len space res"
      by (rule zeroed_part [OF inv, of 0 "offset + len - bd_offset d" space])
        (use right lt that in \<open>auto simp: d_def in_block_def\<close>)
    have "remove_loop v (last_or ys None) offset len space = remove_loop w (last_or ys' None) offset len space"
      unfolding loop
      by (subst remove_loop.simps)
        (use right e w(1,2) n bound lt in \<open>simp add: is_block_contained_by_interval_def
          is_interval_contained_by_block_def is_block_at_right_edge_def Let_def flip: d_def\<close>)
    then show ?thesis
      using w(4) [OF Suc.hyps(1) [OF _ w(3)]] Suc(2) by (simp add: pp ys)
  next
    case left
    have n: "bd_offset d + (offset - bd_offset d) + (bd_size d - (offset - bd_offset d)) = bd_offset d + bd_size d"
      using left by simp
    obtain w where w: "zero_block_range v p (offset - bd_offset d) (bd_size d - (offset - bd_offset d)) = Some w"
      "bd_prev (descs w p) = last_or ys' None" "remove_inv A w ys' (p # zs) offset len"
      "\<And>res. remove_post A w (ys' @ p # zs) offset len space res \<Longrightarrow>
        remove_post A v (ys' @ p # zs) offset len space res"
      by (rule zeroed_part [OF inv, of "offset - bd_offset d" "bd_size d - (offset - bd_offset d)" space])
        (use left n that in \<open>auto simp: d_def in_block_def\<close>)
    have "remove_loop v (last_or ys None) offset len space = remove_loop w (last_or ys' None) offset len space"
      unfolding loop
      by (subst remove_loop.simps)
        (use left e w(1,2) bound in \<open>simp add: is_block_contained_by_interval_def
          is_interval_contained_by_block_def is_block_at_right_edge_def Let_def flip: d_def\<close>)
    then show ?thesis
      using w(4) [OF Suc.hyps(1) [OF _ w(3)]] Suc(2) by (simp add: pp ys)
  qed
qed

lemma remove_interval_ok:
  assumes f: "file_ok A v ps" and al: "MIN_BLOCK_SIZE dvd A" and b: "offset + len < W64" "0 < len"
  shows "\<exists>space v' ps'. vinode_remove_interval v offset len = tx_ret (space, v') \<and> file_ok A v' ps' \<and>
     content (datas v') (exts v' ps') = zeroed offset len (content (datas v) (exts v ps)) \<and>
     space + space_of (exts v' ps') = space_of (exts v ps) \<and> invalidations v' = invalidations v + 1 \<and>
     ext_off ` set (exts v' ps') \<subseteq> ext_off ` set (exts v ps)"
proof -
  define v1 where "v1 = v\<lparr>invalidations := invalidations v + 1\<rparr>"
  have e1: "exts v1 = exts v" "datas v1 = datas v" "descs v1 = descs v"
    by (simp_all add: v1_def exts_def fun_eq_iff)
  obtain rest i where "slots_ok v rest i ps"
    using f by (auto simp: file_ok_def)
  then have "slots_ok v1 rest i ps"
    by (rule slots_ok_cong) (use file_ok_distinct [OF f] in \<open>simp_all add: v1_def\<close>)
  then have f1: "file_ok A v1 ps"
    using f unfolding file_ok_def linked_def mapped_def e1 by (auto simp: v1_def)
  have x: "sub64 (add64 offset len) 1 = offset + len - 1"
    using b by (simp add: add64_exact sub64_exact)
  define ys where "ys = starts_before v1 (Suc (offset + len - 1)) ps"
  have cl: "find_closest_block v1 (offset + len - 1) = Some (last_or ys None)"
    unfolding ys_def by (rule find_closest_block_ok [OF f1 al]) (use b in simp)
  obtain zs where zs: "ps = ys @ zs" "\<And>p. p \<in> set ys \<Longrightarrow> bd_offset (descs v1 p) < Suc (offset + len - 1)"
    "\<And>p. p \<in> set zs \<Longrightarrow> Suc (offset + len - 1) \<le> bd_offset (descs v1 p)"
    using starts_before_split [OF f1, of "Suc (offset + len - 1)"] unfolding ys_def by blast
  have inv: "remove_inv A v1 ys zs offset len"
    using f1 zs b(2) unfolding remove_inv_def by (fastforce simp: in_block_def)
  have "remove_post A v1 ps offset len 0 (remove_loop v1 (last_or ys None) offset len 0)"
    using remove_loop_ok [OF al b inv, of 0] zs(1) by simp
  moreover have "vinode_remove_interval v offset len = remove_loop v1 (last_or ys None) offset len 0"
    unfolding vinode_remove_interval_def Let_def v1_def [symmetric] x cl by simp
  ultimately show ?thesis
    unfolding remove_post_def e1 by (auto simp: v1_def)
qed

section \<open>Rebuilding the offset map\<close>

text \<open>
  The persistent part of the invariant: what is known of a file whose \<^verbatim>\<open>vinode\<close> has just been
  created.
\<close>

definition stored_ok :: "nat \<Rightarrow> pfile \<Rightarrow> bptr list \<Rightarrow> bool" where
  "stored_ok A v ps \<longleftrightarrow> (\<exists>rest i. slots_ok v rest i ps) \<and> seg (descs v) None ps None \<and>
     exts_ok A (datas v) (exts v ps) \<and> allocs v = []"

text \<open>The map and the first block after the descriptors \<open>S\<close> were inserted.\<close>

definition map_rebuilt :: "pfile \<Rightarrow> bptr set \<Rightarrow> bptr offset_map \<Rightarrow> bptr option \<Rightarrow> bool" where
  "map_rebuilt v S m fst_b \<longleftrightarrow> om_ok m \<and>
     (\<forall>u p. om_look m u = Some p \<longleftrightarrow> p \<in> S \<and> in_block (descs v p) (bytes u)) \<and>
     (case fst_b of None \<Rightarrow> S = {}
      | Some f \<Rightarrow> f \<in> S \<and> (\<forall>q \<in> S. bd_offset (descs v f) \<le> bd_offset (descs v q)))"

definition disjoint_blocks :: "pfile \<Rightarrow> bptr set \<Rightarrow> bool" where
  "disjoint_blocks v P \<longleftrightarrow> (\<forall>p \<in> P. whole_units (descs v p) \<and> bd_size (descs v p) \<noteq> 0) \<and>
     (\<forall>p \<in> P. \<forall>q \<in> P. \<forall>x. in_block (descs v p) x \<and> in_block (descs v q) x \<longrightarrow> p = q)"

lemma map_rebuilt_insert:
  assumes r: "map_rebuilt v S m fst_b" and P: "disjoint_blocks v P" "S \<subseteq> P" "p \<in> P" "p \<notin> S"
  obtains m' where "insert_block m p (bd_offset (descs v p)) (bd_size (descs v p)) [] = Some (0, m', [])"
    and "map_rebuilt v (insert p S) m' (case fst_b of None \<Rightarrow> Some p
      | Some f \<Rightarrow> if bd_offset (descs v p) < bd_offset (descs v f) then Some p else fst_b)"
proof -
  obtain o' n where u: "bd_offset (descs v p) = bytes o'" "bd_size (descs v p) = bytes n" "0 < n"
    "bytes (o' + n) < W64"
    using P(1,3) by (auto simp: disjoint_blocks_def whole_units_def)
  have om: "om_ok m" and look: "\<And>u q. om_look m u = Some q \<longleftrightarrow> q \<in> S \<and> in_block (descs v q) (bytes u)"
    using r by (simp_all add: map_rebuilt_def)
  have uniq: "q = p" if "q \<in> S" "in_block (descs v q) x" "in_block (descs v p) x" for q x
    using P(1,2,3) that unfolding disjoint_blocks_def by blast
  have free: "om_look m w = None" if "o' \<le> w" "w < o' + n" for w
  proof (cases "om_look m w")
    case (Some q)
    then have "q = p"
      using look [of w q] uniq [of q "bytes w"] in_block_units [OF u(1,2), of w] that by auto
    then show ?thesis
      using Some look P(4) by auto
  qed simp
  obtain m' where m': "insert_block m p (bytes o') (bytes n) [] = Some (0, m', [])" "om_ok m'"
    "om_look m' = write_units (om_look m) o' n (Some p)"
    using om.insert_total [OF om u(3,4) free] by blast
  have "om_look m' w = Some q \<longleftrightarrow> q \<in> insert p S \<and> in_block (descs v q) (bytes w)" for w q
  proof (cases "o' \<le> w \<and> w < o' + n")
    case True
    then have "in_block (descs v p) (bytes w)"
      using in_block_units [OF u(1,2)] by simp
    then show ?thesis
      using True m'(3) uniq [of q "bytes w"] by (auto simp: write_units_def)
  next
    case False
    then have "\<not> in_block (descs v p) (bytes w)"
      using in_block_units [OF u(1,2)] by simp
    then show ?thesis
      using False m'(3) look [of w q] by (auto simp: write_units_def)
  qed
  then have "map_rebuilt v (insert p S) m' (case fst_b of None \<Rightarrow> Some p
      | Some f \<Rightarrow> if bd_offset (descs v p) < bd_offset (descs v f) then Some p else fst_b)"
    using m'(2) r by (force simp: map_rebuilt_def split: option.splits)
  then show thesis
    using m'(1) u by (intro that) simp_all
qed

lemma rebuild_array_ok:
  assumes "map_rebuilt v S m fst_b" and "disjoint_blocks v P" and "S \<subseteq> P" and "k \<le> n"
    and "\<And>j. i \<le> j \<Longrightarrow> j < i + k \<Longrightarrow> BP a j \<in> P - S" and "k < n \<Longrightarrow> bd_size (descs v (BP a (i + k))) = 0"
  shows "\<exists>m' fst_b'. rebuild_array v a i n m fst_b [] = Some (0, m', fst_b', []) \<and>
    map_rebuilt v (S \<union> BP a ` {i..<i + k}) m' fst_b'"
  using assms
proof (induction n arbitrary: i k m fst_b S)
  case 0
  then show ?case by simp
next
  case (Suc n)
  show ?case
  proof (cases k)
    case 0
    then show ?thesis
      using Suc.prems by simp
  next
    case (Suc k')
    have p: "BP a i \<in> P" "BP a i \<notin> S"
      using Suc.prems(5) [of i] Suc by auto
    have sz: "bd_size (descs v (BP a i)) \<noteq> 0"
      using Suc.prems(2) p(1) by (simp add: disjoint_blocks_def)
    define fst1 where "fst1 = (case fst_b of None \<Rightarrow> Some (BP a i)
      | Some f \<Rightarrow> if bd_offset (descs v (BP a i)) < bd_offset (descs v f) then Some (BP a i) else fst_b)"
    obtain m1 where m1: "insert_block m (BP a i) (bd_offset (descs v (BP a i))) (bd_size (descs v (BP a i))) [] =
        Some (0, m1, [])" "map_rebuilt v (insert (BP a i) S) m1 fst1"
      unfolding fst1_def by (rule map_rebuilt_insert [OF Suc.prems(1,2,3) p])
    have "\<exists>m' fst_b'. rebuild_array v a (Suc i) n m1 fst1 [] = Some (0, m', fst_b', []) \<and>
        map_rebuilt v (insert (BP a i) S \<union> BP a ` {Suc i..<Suc i + k'}) m' fst_b'"
    proof (rule Suc.IH [OF m1(2) Suc.prems(2)])
      show "insert (BP a i) S \<subseteq> P" "k' \<le> n"
        using p(1) Suc.prems(3,4) Suc by auto
      show "BP a j \<in> P - insert (BP a i) S" if "Suc i \<le> j" "j < Suc i + k'" for j
        using Suc.prems(5) [of j] that Suc by auto
      show "bd_size (descs v (BP a (Suc i + k'))) = 0" if "k' < n"
        using Suc.prems(6) that Suc by simp
    qed
    moreover have "insert (BP a i) S \<union> BP a ` {Suc i..<Suc i + k'} = S \<union> BP a ` {i..<i + k}"
    proof -
      have "{i..<i + k} = insert i {Suc i..<Suc i + k'}"
        using Suc by auto
      then show ?thesis by auto
    qed
    moreover have "rebuild_array v a i (Suc n) m fst_b [] = rebuild_array v a (Suc i) n m1 fst1 []"
      using sz m1(1) by (simp add: Let_def fst1_def)
    ultimately show ?thesis
      by simp
  qed
qed

lemma rebuild_arrays_ok:
  assumes "arr_chain (arrays v) as arr" and "distinct as" and "disjoint_blocks v P"
    and "map_rebuilt v S m fst_b" and "S \<subseteq> P"
    and "\<And>a. a \<in> set as \<Longrightarrow> k a \<le> arr_len v a"
    and "\<And>a j. a \<in> set as \<Longrightarrow> j < k a \<Longrightarrow> BP a j \<in> P - S"
    and "\<And>a. a \<in> set as \<Longrightarrow> k a < arr_len v a \<Longrightarrow> bd_size (descs v (BP a (k a))) = 0"
  shows "\<exists>m' fst_b'. rebuild_arrays v arr m fst_b [] = Some (0, m', fst_b', []) \<and>
    map_rebuilt v (S \<union> (\<Union>a \<in> set as. BP a ` {..<k a})) m' fst_b'"
  using assms
proof (induction as arbitrary: arr m fst_b S)
  case Nil
  then show ?case
    by (subst rebuild_arrays.simps) simp
next
  case (Cons a as)
  obtain r where r: "arr = Some a" "arrays v a = Some r" "arr_chain (arrays v) as (ba_next r)"
    using Cons.prems(1) by (auto split: option.splits)
  have len: "arr_len v a = ba_length r"
    using r(2) by (simp add: arr_len_def)
  obtain m1 fst1 where m1: "rebuild_array v a 0 (ba_length r) m fst_b [] = Some (0, m1, fst1, [])"
    "map_rebuilt v (S \<union> BP a ` {0..<0 + k a}) m1 fst1"
    using rebuild_array_ok [OF Cons.prems(4,3,5), of "k a" "ba_length r" 0 a] Cons.prems(6-8) [of a] len
    by auto
  have "\<exists>m' fst_b'. rebuild_arrays v (ba_next r) m1 fst1 [] = Some (0, m', fst_b', []) \<and>
      map_rebuilt v ((S \<union> BP a ` {0..<0 + k a}) \<union> (\<Union>a \<in> set as. BP a ` {..<k a})) m' fst_b'"
  proof (rule Cons.IH [OF r(3) _ Cons.prems(3) m1(2)])
    show "S \<union> BP a ` {0..<0 + k a} \<subseteq> P"
      using Cons.prems(5,7) by auto
    show "BP b j \<in> P - (S \<union> BP a ` {0..<0 + k a})" if "b \<in> set as" "j < k b" for b j
      using Cons.prems(2,7) that by auto
  qed (use Cons.prems(2,6,8) in auto)
  moreover have "rebuild_arrays v arr m fst_b [] = rebuild_arrays v (ba_next r) m1 fst1 []"
    by (subst rebuild_arrays.simps) (simp add: r m1(1))
  moreover have "(S \<union> BP a ` {0..<0 + k a}) \<union> (\<Union>a \<in> set as. BP a ` {..<k a}) =
      S \<union> (\<Union>a \<in> set (a # as). BP a ` {..<k a})"
    by (auto simp: lessThan_atLeast0)
  ultimately show ?case
    by simp
qed

lemma stored_disjoint:
  assumes st: "stored_ok A v ps" and al: "MIN_BLOCK_SIZE dvd A"
  shows "disjoint_blocks v (set ps)"
proof -
  have e: "exts_ok A (datas v) (exts v ps)"
    using st by (simp add: stored_ok_def)
  have eo: "ext_ok A (datas v) (payload (descs v p))" if "p \<in> set ps" for p
    using e that by (auto simp: exts_ok_def exts_def)
  have "whole_units (descs v p) \<and> bd_size (descs v p) \<noteq> 0" if "p \<in> set ps" for p
  proof -
    note b = ext_ok_bounds [OF eo [OF that], simplified]
    obtain o' r where "bd_offset (descs v p) = MIN_BLOCK_SIZE * o'" "bd_size (descs v p) = MIN_BLOCK_SIZE * r"
      using dvd_trans [OF al b(1)] dvd_trans [OF al b(2)] by (auto elim!: dvdE)
    then show ?thesis
      using b(3,5) unfolding whole_units_def
      by (intro conjI exI [of _ o'] exI [of _ r]) (auto simp: algebra_simps)
  qed
  moreover have "p = q" if "p \<in> set ps" "q \<in> set ps" "in_block (descs v p) x" "in_block (descs v q) x" for p q x
  proof -
    have "distinct (map (\<lambda>p. bd_data (descs v p)) ps)"
      using e by (simp add: exts_ok_def exts_def comp_def)
    moreover have "payload (descs v p) = payload (descs v q)"
      using find_covers [OF e, of "payload (descs v p)" x] find_covers [OF e, of "payload (descs v q)" x] that
      by (auto simp: exts_def)
    ultimately show ?thesis
      using that(1,2) by (auto simp: distinct_map inj_on_def payload_def)
  qed
  ultimately show ?thesis
    unfolding disjoint_blocks_def by blast
qed

lemma rebuild_block_tree_ok:
  assumes st: "stored_ok A v ps" and al: "MIN_BLOCK_SIZE dvd A"
  shows "\<exists>w. vinode_rebuild_block_tree v = Some (0, w) \<and> file_ok A w ps \<and>
    descs w = descs v \<and> datas w = datas v \<and> arrays w = arrays v"
proof -
  obtain rest i where so: "slots_ok v rest i ps"
    using st by (auto simp: stored_ok_def)
  have so': "distinct (0 # rest)" "arr_chain (arrays v) (0 # rest) (Some 0)" "i \<le> arr_len v (open_arr rest)"
    "set ps = used_slots v rest i"
    "\<And>j. i \<le> j \<Longrightarrow> j < arr_len v (open_arr rest) \<Longrightarrow> descs v (BP (open_arr rest) j) = zero_desc"
    using so by (auto simp: slots_ok_def)
  define k where "k = (\<lambda>a. if a = open_arr rest then i else arr_len v a)"
  define m0 :: "bptr offset_map" where "m0 = \<lparr>om_entry = Leaf None, range_length_bits = MIN_BLOCK_BITS\<rparr>"
  have r0: "map_rebuilt v {} m0 None"
    by (simp add: om_new_ok map_rebuilt_def m0_def om_new_look MIN_BLOCK_BITS_def)
  have used: "(\<Union>a \<in> set (0 # rest). BP a ` {..<k a}) = set ps"
  proof (rule set_eqI)
    fix p
    show "p \<in> (\<Union>a \<in> set (0 # rest). BP a ` {..<k a}) \<longleftrightarrow> p \<in> set ps"
      unfolding so'(4) by (cases p) (auto simp: used_slots_def k_def)
  qed
  have "\<exists>m' fst_b'. rebuild_arrays v (Some 0) m0 None [] = Some (0, m', fst_b', []) \<and>
      map_rebuilt v ({} \<union> (\<Union>a \<in> set (0 # rest). BP a ` {..<k a})) m' fst_b'"
  proof (rule rebuild_arrays_ok [OF so'(2,1) stored_disjoint [OF st al] r0])
    show "k a \<le> arr_len v a" for a
      using so'(3) by (simp add: k_def)
    show "BP a j \<in> set ps - {}" if "a \<in> set (0 # rest)" "j < k a" for a j
      using that used by auto
    show "bd_size (descs v (BP a (k a))) = 0" if "k a < arr_len v a" for a
      using that so'(5) [of i] by (auto simp: k_def zero_desc_def split: if_splits)
  qed simp
  then obtain m f where m: "rebuild_arrays v (Some 0) m0 None [] = Some (0, m, f, [])" "map_rebuilt v (set ps) m f"
    unfolding used by auto
  define w where "w = v\<lparr>first_block := f, blocks := Some m, allocs := []\<rparr>"
  have "vinode_rebuild_block_tree v = Some (0, w)"
    using m(1) st
    by (simp add: vinode_rebuild_block_tree_def offset_map_new_def w_def stored_ok_def flip: m0_def)
  moreover have "f = hd_or ps None"
  proof (cases ps)
    case Nil
    then show ?thesis
      using m(2) by (auto simp: map_rebuilt_def split: option.splits)
  next
    case (Cons p ps')
    then obtain q where q: "f = Some q" "q \<in> set ps" "bd_offset (descs v q) \<le> bd_offset (descs v p)"
      using m(2) by (auto simp: map_rebuilt_def split: option.splits)
    have "bd_offset (descs v p) + bd_size (descs v p) \<le> bd_offset (descs v r)" if "r \<in> set ps'" for r
      using st that Cons by (auto simp: stored_ok_def exts_ok_def exts_def)
    moreover have "bd_size (descs v p) \<noteq> 0"
      using stored_disjoint [OF st al] Cons by (simp add: disjoint_blocks_def)
    ultimately have "q \<notin> set ps'"
      using q(3) by force
    then show ?thesis
      using q(1,2) Cons by simp
  qed
  moreover have "slots_ok w rest i ps"
    by (rule slots_ok_cong [OF so]) (use so in \<open>simp_all add: w_def slots_ok_def\<close>)
  moreover have "mapped w ps"
    using m(2) by (simp add: mapped_def w_def map_rebuilt_def)
  ultimately have "vinode_rebuild_block_tree v = Some (0, w)" "file_ok A w ps"
    using st by (auto simp: file_ok_def stored_ok_def linked_def w_def exts_def)
  then show ?thesis
    by (auto simp: w_def)
qed

end
