(* ===== verification/Sample_Files.thy ===== *)
theory Sample_Files
  imports File_Inv
begin

text \<open>
  Example files for the witnesses: a file without blocks, and files with 16 KiB blocks at given
  multiples of 16 KiB, all described in the array of the inode. Block \<open>i\<close> holds the byte \<open>i + 1\<close>.
\<close>

definition inode_arrays :: "nat \<Rightarrow> block_array option" where
  "inode_arrays = [0 \<mapsto> \<lparr>ba_next = None, ba_length = 8\<rparr>]"

definition empty_file :: pfile where
  "empty_file = \<lparr>descs = \<lambda>_. zero_desc, arrays = inode_arrays, datas = Map.empty, first_free = None,
     first_block = None, blocks = Some \<lparr>om_entry = Leaf None, range_length_bits = 14\<rparr>, allocs = [],
     invalidations = 0\<rparr>"

lemma empty_file_slots: "slots_ok empty_file [] 0 []"
  by (auto simp: slots_ok_def empty_file_def inode_arrays_def arr_len_def used_slots_def)

lemma empty_file_ok: "file_ok A empty_file []"
proof -
  have "linked empty_file []" "mapped empty_file []" "exts_ok A (datas empty_file) (exts empty_file [])"
    "allocs empty_file = []"
    by (simp_all add: empty_file_def linked_def mapped_def om_new_ok om_new_look exts_ok_def)
  then show ?thesis
    using empty_file_slots unfolding file_ok_def by blast
qed

lemma empty_file_content: "content (datas empty_file) (exts empty_file []) x = 0"
  by (simp add: content_def)

definition sample_ptrs :: "nat list \<Rightarrow> bptr list" where
  "sample_ptrs us = map (BP 0) [0..<length us]"

definition sample_desc :: "nat list \<Rightarrow> nat \<Rightarrow> block_desc" where
  "sample_desc us i = \<lparr>bd_data = Some i, bd_size = MIN_BLOCK_SIZE, bd_flags = 1, bd_offset = bytes (us ! i),
     bd_next = (if Suc i < length us then Some (BP 0 (Suc i)) else None),
     bd_prev = (if 0 < i then Some (BP 0 (i - 1)) else None)\<rparr>"

definition sample_map :: "nat list \<Rightarrow> bptr offset_map" where
  "sample_map us = \<lparr>om_entry = Node (map (\<lambda>u. Leaf (map_of (zip us (sample_ptrs us)) u)) [0..<16]),
     range_length_bits = 18\<rparr>"

definition sample_file :: "nat list \<Rightarrow> pfile" where
  "sample_file us = \<lparr>
     descs = \<lambda>p. if arr_of p = 0 \<and> idx_of p < length us then sample_desc us (idx_of p) else zero_desc,
     arrays = inode_arrays,
     datas = \<lambda>i. if i < length us then Some (replicate MIN_BLOCK_SIZE (of_nat (i + 1))) else None,
     first_free = None, first_block = Some (BP 0 0), blocks = Some (sample_map us), allocs = [],
     invalidations = 0\<rparr>"

definition sample_ok :: "nat list \<Rightarrow> bool" where
  "sample_ok us \<longleftrightarrow> us \<noteq> [] \<and> sorted_wrt (<) us \<and> length us \<le> 8 \<and> (\<forall>u \<in> set us. u < 16)"

lemma sample_desc_at [simp]: "i < length us \<Longrightarrow> descs (sample_file us) (BP 0 i) = sample_desc us i"
  by (simp add: sample_file_def)

lemma sample_slots:
  assumes "sample_ok us"
  shows "slots_ok (sample_file us) [] (length us) (sample_ptrs us)"
proof -
  have "set (sample_ptrs us) = used_slots (sample_file us) [] (length us)"
  proof (rule set_eqI)
    fix p
    show "p \<in> set (sample_ptrs us) \<longleftrightarrow> p \<in> used_slots (sample_file us) [] (length us)"
      by (cases p) (auto simp: sample_ptrs_def used_slots_def)
  qed
  moreover have "distinct (sample_ptrs us)"
    by (simp add: sample_ptrs_def distinct_map inj_on_def)
  moreover have "arr_chain (arrays (sample_file us)) [0] (Some 0)" "arr_len (sample_file us) 0 = 8"
    by (simp_all add: sample_file_def inode_arrays_def arr_len_def)
  ultimately show ?thesis
    using assms by (simp add: slots_ok_def sample_ok_def) (simp add: sample_file_def)
qed

lemma sample_seg:
  "i \<le> length us \<Longrightarrow>
   seg (descs (sample_file us)) (if 0 < i then Some (BP 0 (i - 1)) else None) (map (BP 0) [i..<length us]) None"
proof (induction "length us - i" arbitrary: i)
  case 0
  then show ?case by simp
next
  case (Suc n)
  then have i: "i < length us"
    by simp
  have "hd_or (map (BP 0) [Suc i..<length us]) None = (if Suc i < length us then Some (BP 0 (Suc i)) else None)"
    by (simp add: upt_rec)
  then show ?case
    using i Suc(1) [of "Suc i"] Suc(2) by (simp add: upt_rec sample_desc_def)
qed

lemma sample_linked:
  assumes "sample_ok us"
  shows "linked (sample_file us) (sample_ptrs us)"
proof -
  have "hd_or (sample_ptrs us) None = Some (BP 0 0)"
    using assms by (cases us) (simp_all add: sample_ok_def sample_ptrs_def upt_rec)
  then show ?thesis
    using sample_seg [of 0 us] by (simp add: linked_def sample_ptrs_def) (simp add: sample_file_def)
qed

lemma sample_map_ok:
  assumes "sample_ok us"
  shows "om_ok (sample_map us)" and "om_look (sample_map us) u = map_of (zip us (sample_ptrs us)) u"
proof -
  define cs where "cs = map (\<lambda>u. Leaf (map_of (zip us (sample_ptrs us)) u)) [0..<16]"
  have dep: "om_depth (sample_map us) = Suc 0"
    by (simp add: om_depth_def sample_map_def MIN_BLOCK_BITS_def N_CHILDREN_POW_def)
  have dis: "distinct us" "length (sample_ptrs us) = length us"
    using assms by (auto simp: sample_ok_def sample_ptrs_def strict_sorted_iff)
  have nth: "cs ! u = Leaf (map_of (zip us (sample_ptrs us)) u)" if "u < 16" for u
    using that by (simp add: cs_def)
  have "hd us < 16" "hd us \<in> set us"
    using assms by (simp_all add: sample_ok_def)
  moreover from this have "map_of (zip us (sample_ptrs us)) (hd us) \<noteq> None"
    using dis(2) map_of_zip_is_None [of us "sample_ptrs us" "hd us"] by auto
  ultimately have "\<exists>c \<in> set cs. c \<noteq> Leaf None"
    by (auto simp: cs_def)
  then have "entry_ok (Suc 0) (Node cs)"
    by (auto simp: cs_def)
  then show "om_ok (sample_map us)"
    using dep by (simp add: om_ok_def sample_map_def cs_def MIN_BLOCK_BITS_def N_CHILDREN_POW_def)
  show "om_look (sample_map us) u = map_of (zip us (sample_ptrs us)) u"
  proof (cases "u < 16")
    case True
    then show ?thesis
      using dep nth by (simp add: om_look_def sample_map_def alook_def flip: cs_def)
  next
    case False
    then have "map_of (zip us (sample_ptrs us)) u = None"
      using assms dis map_of_zip_is_None [of us "sample_ptrs us" u] by (auto simp: sample_ok_def)
    then show ?thesis
      using False dep by (simp add: om_look_def)
  qed
qed

lemma sample_in_block:
  "i < length us \<Longrightarrow> in_block (descs (sample_file us) (BP 0 i)) (bytes u) \<longleftrightarrow> us ! i = u"
  using in_block_units [of "sample_desc us i" "us ! i" 1 u] by (auto simp: sample_desc_def)

lemma sample_mapped:
  assumes "sample_ok us"
  shows "mapped (sample_file us) (sample_ptrs us)"
proof -
  have dis: "distinct us" "length (sample_ptrs us) = length us"
    using assms by (auto simp: sample_ok_def sample_ptrs_def strict_sorted_iff)
  have "om_look (sample_map us) u = Some p \<longleftrightarrow>
      p \<in> set (sample_ptrs us) \<and> in_block (descs (sample_file us) p) (bytes u)" for u p
  proof -
    have "map_of (zip us (sample_ptrs us)) u = Some p \<longleftrightarrow> (u, p) \<in> set (zip us (sample_ptrs us))"
      using dis by simp
    also have "\<dots> \<longleftrightarrow> (\<exists>i < length us. us ! i = u \<and> BP 0 i = p)"
      using dis(2) by (auto simp: in_set_conv_nth sample_ptrs_def)
    also have "\<dots> \<longleftrightarrow> p \<in> set (sample_ptrs us) \<and> in_block (descs (sample_file us) p) (bytes u)"
      using sample_in_block [of _ us u] by (auto simp: sample_ptrs_def)
    finally show ?thesis
      using sample_map_ok(2) [OF assms, of u] by simp
  qed
  then show ?thesis
    using sample_map_ok(1) [OF assms] by (simp add: mapped_def) (simp add: sample_file_def)
qed

lemma sample_exts:
  "exts (sample_file us) (sample_ptrs us) = map (\<lambda>i. Ext (bytes (us ! i)) MIN_BLOCK_SIZE 1 (Some i)) [0..<length us]"
  by (auto simp: exts_def sample_ptrs_def payload_def sample_desc_def)

lemma sample_file_ok:
  assumes "sample_ok us"
  shows "file_ok MIN_BLOCK_SIZE (sample_file us) (sample_ptrs us)"
proof -
  note e = sample_exts [of us]
  have d: "datas (sample_file us) i = Some (replicate MIN_BLOCK_SIZE (of_nat (i + 1)))" if "i < length us" for i
    using that by (simp add: sample_file_def)
  have u: "us ! i < 16" if "i < length us" for i
    using assms that by (simp add: sample_ok_def)
  have "ext_ok MIN_BLOCK_SIZE (datas (sample_file us)) (Ext (bytes (us ! i)) MIN_BLOCK_SIZE 1 (Some i))"
    if "i < length us" for i
    using d [OF that] u [OF that]
    by (simp add: ext_ok_def has_data_def) (simp add: MIN_BLOCK_SIZE_def W32_def W64_def)
  moreover have "bytes (us ! i) + MIN_BLOCK_SIZE \<le> bytes (us ! j)" if "i < j" "j < length us" for i j
  proof -
    have "us ! i < us ! j"
      using assms that by (auto simp: sample_ok_def sorted_wrt_iff_nth_less)
    then have "bytes (Suc (us ! i)) \<le> bytes (us ! j)"
      by (intro mult_le_mono1) simp
    then show ?thesis by simp
  qed
  ultimately have "exts_ok MIN_BLOCK_SIZE (datas (sample_file us)) (exts (sample_file us) (sample_ptrs us))"
    unfolding e exts_ok_def
    by (auto simp: sorted_wrt_iff_nth_less ext_before_def distinct_map inj_on_def)
  then show ?thesis
    using sample_slots [OF assms] sample_linked [OF assms] sample_mapped [OF assms]
    unfolding file_ok_def by (auto simp: sample_file_def)
qed

text \<open>A store that always succeeds: the address is the number of the smallest free one below 100.\<close>

definition sample_store :: store where
  "sample_store = \<lparr>
     alloc_array = \<lambda>h. (case find (\<lambda>a. h a = None) [0..<100] of None \<Rightarrow> Inl ENOMEM | Some a \<Rightarrow> Inr a),
     alloc_data = \<lambda>h n. (case find (\<lambda>a. h a = None) [0..<100] of
        None \<Rightarrow> Inl ENOMEM | Some a \<Rightarrow> Inr (a, replicate n 0))\<rparr>"

lemma sample_store_ok: "store_ok sample_store"
  by (auto simp: store_ok_def sample_store_def find_Some_iff split: option.splits)

lemma sample_space: "space_of (exts (sample_file us) (sample_ptrs us)) = MIN_BLOCK_SIZE * length us"
  by (simp add: sample_exts space_of_def o_def sum_list_triv)

lemma sample_past_end:
  assumes "sample_ok us" and "bytes (Suc (last us)) \<le> x"
  shows "content (datas (sample_file us)) (exts (sample_file us) (sample_ptrs us)) x = 0"
proof -
  have "bytes (us ! i) + MIN_BLOCK_SIZE \<le> x" if "i < length us" for i
  proof -
    have "us ! i \<le> last us"
      using assms(1) that
      by (cases "i = length us - 1") (auto simp: sample_ok_def last_conv_nth sorted_wrt_iff_nth_less less_imp_le)
    then have "bytes (us ! i) \<le> bytes (last us)"
      by (intro mult_le_mono1) simp
    then have "bytes (us ! i) + MIN_BLOCK_SIZE \<le> bytes (last us) + MIN_BLOCK_SIZE"
      by (rule add_right_mono)
    also have "\<dots> \<le> x"
      using assms(2) by (simp add: add.commute)
    finally show ?thesis .
  qed
  then have "find (\<lambda>e. covers e x) (exts (sample_file us) (sample_ptrs us)) = None"
    by (auto simp: sample_exts find_None_iff covers_def not_less)
  then show ?thesis
    by (simp add: content_def)
qed

lemma sample_content:
  assumes "sample_ok us" and "i < length us" and "bytes (us ! i) \<le> x" and "x < bytes (Suc (us ! i))"
  shows "content (datas (sample_file us)) (exts (sample_file us) (sample_ptrs us)) x = of_nat (i + 1)"
proof -
  let ?e = "Ext (bytes (us ! i)) MIN_BLOCK_SIZE 1 (Some i)"
  have ok: "exts_ok MIN_BLOCK_SIZE (datas (sample_file us)) (exts (sample_file us) (sample_ptrs us))"
    using sample_file_ok [OF assms(1)] by (simp add: file_ok_def)
  have m: "?e \<in> set (exts (sample_file us) (sample_ptrs us))" and c: "covers ?e x"
    using assms(2-4) by (auto simp: sample_exts covers_def)
  have "ext_byte (datas (sample_file us)) ?e x = of_nat (i + 1)"
    using assms(2-4) by (simp add: ext_byte_def ext_init_def ext_bytes_def BLOCK_INITIALIZED_def sample_file_def)
  then show ?thesis
    using content_covered [OF ok m c] by simp
qed

end
