(* ===== verification/File_Data.thy ===== *)
theory File_Data
  imports Data_Alloc Data_Remove Sample_Files
begin

text \<open>
  Properties of the block list (\<^verbatim>\<open>block_array.c\<close>) and of the file data (\<^verbatim>\<open>data.c\<close>), over the
  invariant \<open>file_ok\<close> of a file and its content as a function from offsets to bytes.
\<close>

section \<open>The block list\<close>

text \<open>
  Claim C22. Inserting a block after the last block of \<open>ys\<close> implements insertion into a sequence: the
  call aborts only with the error of the allocation of a block array, and otherwise the list of the
  file is \<open>ys\<close>, a descriptor that was not in use and is still empty, and \<open>zs\<close>; the links in both
  directions, the arrays of descriptors and their number of used entries agree with that
  list, and no other block's offset, size, flags or data changed.
\<close>

theorem block_list_insert_after_refines:
  assumes "slots_ok v rest i (ys @ zs)" and "linked v (ys @ zs)" and "sized v (ys @ zs)"
    and "store_ok st" and "0 < meta_len c"
  shows "(\<exists>e. block_list_insert_after c st v (last_or ys None) = tx_fail e \<and> alloc_array st (arrays v) = Inl e) \<or>
     (\<exists>b w. block_list_insert_after c st v (last_or ys None) = tx_ret (b, w) \<and>
        b \<notin> set (ys @ zs) \<and> (\<exists>rest i. slots_ok w rest i (ys @ b # zs)) \<and> linked w (ys @ b # zs) \<and>
        payload (descs w b) = payload zero_desc \<and>
        (\<forall>p \<in> set (ys @ zs). payload (descs w p) = payload (descs v p)) \<and> same_rest w v)"
  using block_list_insert_after_ok [OF assms] by (simp add: inserted_def)

lemma sample_sized: "sample_ok us \<Longrightarrow> sized (sample_file us) (sample_ptrs us)"
  by (rule file_ok_sized [OF sample_file_ok])

lemma sample_ptrs_two: "sample_ptrs [a, b] = [BP 0 0] @ [BP 0 1]" "sample_ptrs [a, b] = [] @ BP 0 0 # [BP 0 1]"
  by (simp_all add: sample_ptrs_def upt_rec)

lemma sample_02: "sample_ok [0, 2]"
  by (simp add: sample_ok_def)

lemma meta_len_default: "meta_len default_conf = 63"
  by (simp add: meta_len_def metadata_block_info_def default_conf_def METADATA_BLOCK_SIZE_def u32_def W32_def
      SIZEOF_BLOCK_ARRAY_def SIZEOF_BLOCK_DESC_def)

theorem block_list_insert_after_refines_witness:
  "slots_ok (sample_file [0, 2]) [] 2 ([BP 0 0] @ [BP 0 1]) \<and> linked (sample_file [0, 2]) ([BP 0 0] @ [BP 0 1]) \<and>
   sized (sample_file [0, 2]) ([BP 0 0] @ [BP 0 1]) \<and> store_ok sample_store \<and> 0 < meta_len default_conf \<and>
   ((\<exists>e. block_list_insert_after default_conf sample_store (sample_file [0, 2]) (last_or [BP 0 0] None) = tx_fail e \<and>
       alloc_array sample_store (arrays (sample_file [0, 2])) = Inl e) \<or>
    (\<exists>b w. block_list_insert_after default_conf sample_store (sample_file [0, 2]) (last_or [BP 0 0] None) = tx_ret (b, w) \<and>
        b \<notin> set ([BP 0 0] @ [BP 0 1]) \<and> (\<exists>rest i. slots_ok w rest i ([BP 0 0] @ b # [BP 0 1])) \<and>
        linked w ([BP 0 0] @ b # [BP 0 1]) \<and> payload (descs w b) = payload zero_desc \<and>
        (\<forall>p \<in> set ([BP 0 0] @ [BP 0 1]). payload (descs w p) = payload (descs (sample_file [0, 2]) p)) \<and>
        same_rest w (sample_file [0, 2])))"
proof -
  have h: "slots_ok (sample_file [0, 2]) [] 2 ([BP 0 0] @ [BP 0 1])" "linked (sample_file [0, 2]) ([BP 0 0] @ [BP 0 1])"
    "sized (sample_file [0, 2]) ([BP 0 0] @ [BP 0 1])" "0 < meta_len default_conf"
    using sample_slots [OF sample_02] sample_linked [OF sample_02] sample_sized [OF sample_02]
    by (simp_all add: sample_ptrs_two(1) meta_len_default numeral_2_eq_2)
  show ?thesis
    using h sample_store_ok block_list_insert_after_refines [OF h(1-3) sample_store_ok h(4)] by blast
qed

text \<open>
  Claim C23. Dropping a block from the offset map and then from the list never fails and implements
  removal from a sequence: the blocks before and after keep their offset, size, flags and data and
  their order, even though the last used descriptor moves into the gap so that used descriptors
  stay at the front of their array, and a block array that becomes empty is freed. The invariant
  of the file holds again, the result is the predecessor, and the bytes of the block read as zero.
\<close>

theorem block_list_remove_refines:
  assumes "file_ok A v (ys @ p # zs)" and "MIN_BLOCK_SIZE dvd A"
  shows "\<exists>v1 w ys' zs'. map_remove p v = Some v1 \<and> block_list_remove v1 p = tx_ret (last_or ys' None, w) \<and>
     file_ok A w (ys' @ zs') \<and> exts w ys' = exts v ys \<and> exts w zs' = exts v zs \<and>
     (\<forall>x. content (datas w) (exts w (ys' @ zs')) x =
        (if in_block (descs v p) x then 0 else content (datas v) (exts v (ys @ p # zs)) x))"
proof -
  obtain v1 w ys' zs' where "map_remove p v = Some v1" "block_list_remove v1 p = tx_ret (last_or ys' None, w)"
    "file_ok A w (ys' @ zs')" "exts w ys' = exts v ys" "exts w zs' = exts v zs"
    "\<And>x. content (datas w) (exts w (ys' @ zs')) x =
      (if in_block (descs v p) x then 0 else content (datas v) (exts v (ys @ p # zs)) x)"
    by (rule remove_block_ok [OF assms]) (rule that)
  then show ?thesis by blast
qed

lemma sample_02_ok: "file_ok MIN_BLOCK_SIZE (sample_file [0, 2]) ([] @ BP 0 0 # [BP 0 1])"
  using sample_file_ok [OF sample_02] by (simp only: sample_ptrs_two(2))

theorem block_list_remove_refines_witness:
  "file_ok MIN_BLOCK_SIZE (sample_file [0, 2]) ([] @ BP 0 0 # [BP 0 1]) \<and> MIN_BLOCK_SIZE dvd MIN_BLOCK_SIZE \<and>
   (\<exists>v1 w ys' zs'. map_remove (BP 0 0) (sample_file [0, 2]) = Some v1 \<and>
     block_list_remove v1 (BP 0 0) = tx_ret (last_or ys' None, w) \<and> file_ok MIN_BLOCK_SIZE w (ys' @ zs') \<and>
     exts w ys' = [] \<and> exts w zs' = exts (sample_file [0, 2]) [BP 0 1])"
proof -
  have "\<exists>v1 w ys' zs'. map_remove (BP 0 0) (sample_file [0, 2]) = Some v1 \<and>
     block_list_remove v1 (BP 0 0) = tx_ret (last_or ys' None, w) \<and> file_ok MIN_BLOCK_SIZE w (ys' @ zs') \<and>
     exts w ys' = exts (sample_file [0, 2]) [] \<and> exts w zs' = exts (sample_file [0, 2]) [BP 0 1]"
    using block_list_remove_refines [OF sample_02_ok dvd_refl] by blast
  then show ?thesis
    using sample_02_ok by (simp add: exts_def)
qed

section \<open>Allocation\<close>


lemma conf_ok_default: "conf_ok default_conf MIN_BLOCK_SIZE"
proof -
  have "\<exists>k. pow2_conf default_conf k \<and> MIN_BLOCK_SIZE = 2 ^ k"
    using default_conf_pow2 by (intro exI [of _ 14]) (simp add: MIN_BLOCK_SIZE_def)
  then show ?thesis
    by (simp add: conf_ok_def meta_len_default) (simp add: default_conf_def MIN_BLOCK_SIZE_def W32_def)
qed


text \<open>
  Claim C39. A hole of a multiple of 4 GiB before the first block breaks the allocation: the length of
  the hole is cast to 32 bits, becomes 0, and no block of the configuration fits. The search
  for one returns the entry before the table of blocks, so an allocation that starts at an aligned offset
  and reaches past the first block has undefined behaviour.
\<close>

theorem vinode_allocate_interval_wide_hole:
  assumes "file_ok A v (p # ps)" and "conf_ok c A" and "A dvd offset" and "0 < k"
    and "bd_offset (descs v p) = offset + k * W32" and "bd_offset (descs v p) < offset + sz"
    and "offset + sz \<le> 2 ^ 63"
  shows "vinode_allocate_interval c st False isize v offset sz = None"
proof -
  obtain n where n: "pow2_conf c n" "A = 2 ^ n" and A: "MIN_BLOCK_SIZE dvd A" "A < W32"
    using assms(2) by (auto simp: conf_ok_def)
  have "offset + sz + 2 ^ n \<le> W64"
    using assms(7) A(2) n(2) by (simp add: W32_def W64_def)
  moreover obtain offset' sz' where e: "expand_to_full_pages c offset sz = (offset', sz')"
    by fastforce
  ultimately have b: "2 ^ n dvd offset'" "offset' \<le> offset" "offset < offset' + 2 ^ n" "offset + sz \<le> offset' + sz'"
    "offset' + sz' < offset + sz + 2 ^ n"
    using expand_to_full_pages_bounds [OF n(1)] by blast+
  have "offset' = offset"
    using e assms(3) n by (simp add: expand_to_full_pages_def pow2_conf_def Let_def)
  then have o': "offset' = offset" "offset + sz \<le> offset + sz'" "offset + sz' < W64" "0 < sz'"
    using b assms(4,5,6,7) A(2) n(2) by (simp_all add: W32_def W64_def)
  have lk: "first_block v = Some p"
    using assms(1) by (simp add: file_ok_def linked_def)
  have "starts_before v (Suc offset) (p # ps) = []"
    using assms(4,5) by (simp add: starts_before_def W32_def)
  then have cl: "find_closest_block v offset = Some None"
    using find_closest_block_ok [OF assms(1) A(1), of offset] o'(3) by simp
  have gt: "bd_offset (descs v p) < add64 offset sz'"
    using assms(6) o'(2,3) by (simp add: add64_exact)
  have "sub64 (bd_offset (descs v p)) offset = k * W32"
    using assms(5,6,7) by (simp add: sub64_def W64_def)
  then have "u32 (sub64 (bd_offset (descs v p)) offset) = 0"
    by (simp add: u32_def)
  moreover have "data_block_info c sz' 0 = None"
    using assms(2) by (cases "data_blocks c") (auto simp: conf_ok_def data_block_info_def)
  ultimately have "allocate_step c st v None offset sz' 0 = None"
    using lk gt by (simp add: allocate_step_def is_offset_in_block_def add_block_def)
  then have "allocate_loop c st v None offset sz' 0 = None"
    by (subst allocate_loop.simps) simp
  then show ?thesis
    using e cl o'(1) by (simp add: vinode_allocate_interval_def)
qed

text \<open>A file with one block at 4 GiB, with the map that the insertion builds.\<close>

definition far_file :: "bptr offset_map \<Rightarrow> pfile" where
  "far_file m = (sample_file [0])\<lparr>
     descs := (descs (sample_file [0]))(BP 0 0 := (sample_desc [0] 0)\<lparr>bd_offset := W32\<rparr>), blocks := Some m\<rparr>"

lemma far_file_ok: "\<exists>m. file_ok MIN_BLOCK_SIZE (far_file m) [BP 0 0]"
proof -
  define m0 :: "bptr offset_map" where "m0 = \<lparr>om_entry = Leaf None, range_length_bits = 14\<rparr>"
  have d: "descs (far_file m0) (BP 0 0) = (sample_desc [0] 0)\<lparr>bd_offset := W32\<rparr>"
    by (simp add: far_file_def)
  have w: "whole_units (descs (far_file m0) (BP 0 0))"
    unfolding whole_units_def d
    by (intro exI [of _ "2 ^ 18"] exI [of _ 1]) (simp add: sample_desc_def MIN_BLOCK_SIZE_def W32_def W64_def)
  have v0: "blocks (far_file m0) = Some m0" "om_ok m0" "allocs (far_file m0) = []" "\<And>u. om_look m0 u = None"
    by (simp_all add: far_file_def sample_file_def m0_def om_new_ok om_new_look)
  obtain m where m: "om_ok m" "\<And>u q. om_look m u = Some q \<longleftrightarrow>
      (if in_block (descs (far_file m0) (BP 0 0)) (bytes u) then q = BP 0 0 else om_look m0 u = Some q)"
    by (rule map_insert_ok [OF v0(1-3) w v0(4)]) (rule that)
  have so: "slots_ok (sample_file [0]) [] 1 [BP 0 0]"
    using sample_slots [of "[0]"] by (simp add: sample_ok_def sample_ptrs_def)
  have "slots_ok (far_file m) [] 1 [BP 0 0]"
    using so by (auto simp: slots_ok_def far_file_def used_slots_def arr_len_def)
  moreover have "linked (far_file m) [BP 0 0]"
    by (simp add: linked_def far_file_def sample_file_def sample_desc_def)
  moreover have "mapped (far_file m) [BP 0 0]"
    using m unfolding mapped_def by (auto simp: far_file_def m0_def om_new_look split: if_splits)
  moreover have "exts_ok MIN_BLOCK_SIZE (datas (far_file m)) (exts (far_file m) [BP 0 0])"
    by (simp add: exts_ok_def exts_def payload_def far_file_def sample_desc_def sample_file_def ext_ok_def has_data_def
        MIN_BLOCK_SIZE_def W32_def W64_def)
  ultimately show ?thesis
    by (auto simp: file_ok_def far_file_def sample_file_def)
qed

theorem vinode_allocate_interval_wide_hole_witness:
  "\<exists>v. file_ok MIN_BLOCK_SIZE v [BP 0 0] \<and> conf_ok default_conf MIN_BLOCK_SIZE \<and> bd_offset (descs v (BP 0 0)) = 1 * W32 \<and>
     vinode_allocate_interval default_conf sample_store False 0 v 0 (W32 + 1) = None"
proof -
  obtain m where f: "file_ok MIN_BLOCK_SIZE (far_file m) [BP 0 0]"
    using far_file_ok by blast
  have o': "bd_offset (descs (far_file m) (BP 0 0)) = 0 + 1 * W32"
    by (simp add: far_file_def)
  have "bd_offset (descs (far_file m) (BP 0 0)) < 0 + (W32 + 1)" "0 + (W32 + 1) \<le> 2 ^ 63"
    by (simp_all add: o' W32_def)
  from vinode_allocate_interval_wide_hole [OF f conf_ok_default _ _ o' this, of sample_store 0] f o' conf_ok_default
  show ?thesis
    by (intro exI [of _ "far_file m"]) simp
qed

text \<open>
  Claim C25. The check that precedes a write agrees with the file: for a block hint that is a block of the
  file, or none, it terminates and answers yes exactly when every offset of the interval lies in a block.
\<close>

theorem vinode_is_interval_allocated_correct:
  assumes "file_ok A v ps" and "MIN_BLOCK_SIZE dvd A" and "offset + sz < W64" and "0 < sz"
    and "\<And>p. hint = Some p \<Longrightarrow> p \<in> set ps"
  shows "vinode_is_interval_allocated v offset sz hint =
     Some (\<forall>x. offset \<le> x \<and> x < offset + sz \<longrightarrow> (\<exists>p \<in> set ps. in_block (descs v p) x))"
  by (rule interval_allocated_ok [OF assms])

theorem vinode_is_interval_allocated_correct_witness:
  "file_ok MIN_BLOCK_SIZE (sample_file [0, 2]) (sample_ptrs [0, 2]) \<and> BP 0 1 \<in> set (sample_ptrs [0, 2]) \<and>
   vinode_is_interval_allocated (sample_file [0, 2]) 100 20000 (Some (BP 0 1)) =
     Some (\<forall>x. 100 \<le> x \<and> x < 100 + 20000 \<longrightarrow>
        (\<exists>p \<in> set (sample_ptrs [0, 2]). in_block (descs (sample_file [0, 2]) p) x))"
proof -
  have "100 + 20000 < W64" "0 < (20000::nat)" "BP 0 1 \<in> set (sample_ptrs [0, 2])"
    by (simp_all add: W64_def sample_ptrs_two)
  with vinode_is_interval_allocated_correct [OF sample_file_ok [OF sample_02] dvd_refl this(1,2), of "Some (BP 0 1)"]
    sample_file_ok [OF sample_02]
  show ?thesis by simp
qed

section \<open>Punching holes and rebuilding the map\<close>

text \<open>
  Claim C12. Removing an interval of a file terminates without an error, keeps the invariant, makes
  exactly the bytes of the interval read as zero and leaves all others as they were, whether a block is
  inside the interval, contains it or overlaps it at either end. The result is exactly the number of
  bytes by which the blocks shrank, and pointers to blocks cached by open files are invalidated.
\<close>

theorem vinode_remove_interval_correct:
  assumes "file_ok A v ps" and "MIN_BLOCK_SIZE dvd A" and "offset + len < W64" and "0 < len"
  shows "\<exists>space v' ps'. vinode_remove_interval v offset len = tx_ret (space, v') \<and> file_ok A v' ps' \<and>
     (\<forall>x. content (datas v') (exts v' ps') x =
        (if offset \<le> x \<and> x < offset + len then 0 else content (datas v) (exts v ps) x)) \<and>
     space + space_of (exts v' ps') = space_of (exts v ps) \<and> invalidations v' = invalidations v + 1"
  using remove_interval_ok [OF assms] unfolding zeroed_def by fastforce

theorem vinode_remove_interval_correct_witness:
  "file_ok MIN_BLOCK_SIZE (sample_file [0, 2]) (sample_ptrs [0, 2]) \<and>
   (\<exists>space v' ps'. vinode_remove_interval (sample_file [0, 2]) 100 40000 = tx_ret (space, v') \<and>
     file_ok MIN_BLOCK_SIZE v' ps' \<and> content (datas v') (exts v' ps') 40000 = 0)"
proof -
  have "100 + 40000 < W64" "0 < (40000::nat)"
    by (simp_all add: W64_def)
  from vinode_remove_interval_correct [OF sample_file_ok [OF sample_02] dvd_refl this] sample_file_ok [OF sample_02]
  show ?thesis by fastforce
qed

text \<open>
  Claim C24. Rebuilding the offset map from the stored block arrays, which happens on the first use
  of a file and after an aborted transaction, terminates without an error and restores
  the invariant of the file, whatever map and first block were cached before: the stored
  descriptors, arrays and data determine the rest.
\<close>

theorem vinode_rebuild_block_tree_correct:
  assumes "file_ok A v ps" and "MIN_BLOCK_SIZE dvd A"
  shows "\<exists>w. vinode_rebuild_block_tree (v\<lparr>blocks := m, first_block := b\<rparr>) = Some (0, w) \<and> file_ok A w ps \<and>
    descs w = descs v \<and> datas w = datas v \<and> arrays w = arrays v"
proof -
  define v0 where "v0 = v\<lparr>blocks := m, first_block := b\<rparr>"
  obtain rest i where "slots_ok v rest i ps"
    using assms(1) by (auto simp: file_ok_def)
  then have "slots_ok v0 rest i ps"
    by (rule slots_ok_cong) (use file_ok_distinct [OF assms(1)] in \<open>simp_all add: v0_def\<close>)
  moreover have "exts v0 = exts v"
    by (simp add: exts_def v0_def fun_eq_iff)
  ultimately have "stored_ok A v0 ps"
    using assms(1) unfolding stored_ok_def file_ok_def linked_def by (auto simp: v0_def)
  from rebuild_block_tree_ok [OF this assms(2)] show ?thesis
    by (simp add: v0_def)
qed

theorem vinode_rebuild_block_tree_correct_witness:
  "file_ok MIN_BLOCK_SIZE (sample_file [0, 2]) (sample_ptrs [0, 2]) \<and>
   (\<exists>w. vinode_rebuild_block_tree ((sample_file [0, 2])\<lparr>blocks := None, first_block := None\<rparr>) = Some (0, w) \<and>
     file_ok MIN_BLOCK_SIZE w (sample_ptrs [0, 2]))"
  using vinode_rebuild_block_tree_correct [OF sample_file_ok [OF sample_02] dvd_refl, of None None]
    sample_file_ok [OF sample_02] by blast

end
