(* ===== verification/Inode.thy ===== *)
theory Inode
  imports Pmf_Prelude
begin

text \<open>
  The persistent inode (\<^verbatim>\<open>layout.h\<close>, \<^verbatim>\<open>inode.h\<close>). A field that changes outside of transactions has
  two slots, and one bit per field selects the slot in use. The array of two is a function on
  that bit. Padding is left out; the union with the file's data is modelled in the theories
  of its variants.
\<close>

section \<open>The record\<close>

record pmemfile_time =
  sec :: int
  nsec :: int

record inode_slots =
  sl_atime :: bool
  sl_ctime :: bool
  sl_mtime :: bool
  sl_nlink :: bool
  sl_size :: bool
  sl_allocated_space :: bool
  sl_flags :: bool

record inode =
  i_version :: nat
  i_uid :: nat
  i_gid :: nat
  suspended_references :: nat
  i_flags :: "bool \<Rightarrow> nat"
  i_allocated_space :: "bool \<Rightarrow> nat"
  i_size :: "bool \<Rightarrow> nat"
  i_nlink :: "bool \<Rightarrow> nat"
  i_atime :: "bool \<Rightarrow> pmemfile_time"
  i_ctime :: "bool \<Rightarrow> pmemfile_time"
  i_mtime :: "bool \<Rightarrow> pmemfile_time"
  slots :: inode_slots

definition PMEMFILE_INODE_VERSION :: "nat \<Rightarrow> nat" where
  "PMEMFILE_INODE_VERSION a = (4476489 :: nat) OR push_bit 24 (a + 48)"

section \<open>Slots\<close>

text \<open>The other value of a bit, which the source computes as \<^verbatim>\<open>(b + 1) % 2\<close>.\<close>

definition inode_next_atime_slot :: "inode \<Rightarrow> bool" where
  "inode_next_atime_slot i = (\<not> sl_atime (slots i))"

definition inode_next_mtime_slot :: "inode \<Rightarrow> bool" where
  "inode_next_mtime_slot i = (\<not> sl_mtime (slots i))"

definition inode_next_ctime_slot :: "inode \<Rightarrow> bool" where
  "inode_next_ctime_slot i = (\<not> sl_ctime (slots i))"

definition inode_next_nlink_slot :: "inode \<Rightarrow> bool" where
  "inode_next_nlink_slot i = (\<not> sl_nlink (slots i))"

definition inode_next_size_slot :: "inode \<Rightarrow> bool" where
  "inode_next_size_slot i = (\<not> sl_size (slots i))"

definition inode_next_allocated_space_slot :: "inode \<Rightarrow> bool" where
  "inode_next_allocated_space_slot i = (\<not> sl_allocated_space (slots i))"

definition inode_next_flags_slot :: "inode \<Rightarrow> bool" where
  "inode_next_flags_slot i = (\<not> sl_flags (slots i))"

text \<open>The field in use; the source also has versions that return its address.\<close>

definition inode_get_atime :: "inode \<Rightarrow> pmemfile_time" where
  "inode_get_atime i = i_atime i (sl_atime (slots i))"

definition inode_get_mtime :: "inode \<Rightarrow> pmemfile_time" where
  "inode_get_mtime i = i_mtime i (sl_mtime (slots i))"

definition inode_get_ctime :: "inode \<Rightarrow> pmemfile_time" where
  "inode_get_ctime i = i_ctime i (sl_ctime (slots i))"

definition inode_get_nlink :: "inode \<Rightarrow> nat" where
  "inode_get_nlink i = i_nlink i (sl_nlink (slots i))"

definition inode_get_size :: "inode \<Rightarrow> nat" where
  "inode_get_size i = i_size i (sl_size (slots i))"

definition inode_get_allocated_space :: "inode \<Rightarrow> nat" where
  "inode_get_allocated_space i = i_allocated_space i (sl_allocated_space (slots i))"

definition inode_get_flags :: "inode \<Rightarrow> nat" where
  "inode_get_flags i = i_flags i (sl_flags (slots i))"

section \<open>Updates in a transaction\<close>

text \<open>A transaction restores the slot in use when it aborts, so it is overwritten in place.\<close>

definition inode_tx_set_atime :: "pmemfile_time \<Rightarrow> inode \<Rightarrow> inode" where
  "inode_tx_set_atime tm i = i\<lparr>i_atime := (i_atime i)(sl_atime (slots i) := tm)\<rparr>"

definition inode_tx_set_mtime :: "pmemfile_time \<Rightarrow> inode \<Rightarrow> inode" where
  "inode_tx_set_mtime tm i = i\<lparr>i_mtime := (i_mtime i)(sl_mtime (slots i) := tm)\<rparr>"

definition inode_tx_set_ctime :: "pmemfile_time \<Rightarrow> inode \<Rightarrow> inode" where
  "inode_tx_set_ctime tm i = i\<lparr>i_ctime := (i_ctime i)(sl_ctime (slots i) := tm)\<rparr>"

definition inode_tx_inc_nlink :: "inode \<Rightarrow> inode" where
  "inode_tx_inc_nlink i = i\<lparr>i_nlink := (i_nlink i)(sl_nlink (slots i) := add64 (inode_get_nlink i) 1)\<rparr>"

definition inode_tx_dec_nlink :: "inode \<Rightarrow> inode" where
  "inode_tx_dec_nlink i = i\<lparr>i_nlink := (i_nlink i)(sl_nlink (slots i) := sub64 (inode_get_nlink i) 1)\<rparr>"

definition inode_tx_set_size :: "nat \<Rightarrow> inode \<Rightarrow> inode" where
  "inode_tx_set_size sz i = i\<lparr>i_size := (i_size i)(sl_size (slots i) := sz)\<rparr>"

definition inode_tx_set_allocated_space :: "nat \<Rightarrow> inode \<Rightarrow> inode" where
  "inode_tx_set_allocated_space sz i =
     (if inode_get_allocated_space i = sz then i
      else i\<lparr>i_allocated_space := (i_allocated_space i)(sl_allocated_space (slots i) := sz)\<rparr>)"

definition inode_tx_set_flags :: "nat \<Rightarrow> inode \<Rightarrow> inode" where
  "inode_tx_set_flags f i = i\<lparr>i_flags := (i_flags i)(sl_flags (slots i) := f)\<rparr>"

section \<open>File types\<close>

definition PMEMFILE_S_IFMT :: nat where "PMEMFILE_S_IFMT = 61440"
definition PMEMFILE_S_IFDIR :: nat where "PMEMFILE_S_IFDIR = 16384"
definition PMEMFILE_S_IFREG :: nat where "PMEMFILE_S_IFREG = 32768"
definition PMEMFILE_S_IFLNK :: nat where "PMEMFILE_S_IFLNK = 40960"
definition PMEMFILE_S_LONGSYMLINK :: nat where "PMEMFILE_S_LONGSYMLINK = 65536"

definition PMEMFILE_S_ISTYPE :: "nat \<Rightarrow> nat \<Rightarrow> bool" where
  "PMEMFILE_S_ISTYPE mode type_bits \<longleftrightarrow> mode AND PMEMFILE_S_IFMT = type_bits"

definition inode_is_dir :: "inode \<Rightarrow> bool" where
  "inode_is_dir i = PMEMFILE_S_ISTYPE (inode_get_flags i) PMEMFILE_S_IFDIR"

definition inode_is_regular_file :: "inode \<Rightarrow> bool" where
  "inode_is_regular_file i = PMEMFILE_S_ISTYPE (inode_get_flags i) PMEMFILE_S_IFREG"

definition inode_is_symlink :: "inode \<Rightarrow> bool" where
  "inode_is_symlink i = PMEMFILE_S_ISTYPE (inode_get_flags i) PMEMFILE_S_IFLNK"

definition inode_is_longsymlink :: "inode \<Rightarrow> bool" where
  "inode_is_longsymlink i \<longleftrightarrow> inode_is_symlink i \<and> inode_get_flags i AND PMEMFILE_S_LONGSYMLINK \<noteq> 0"

section \<open>A new inode\<close>

definition zero_time :: pmemfile_time where
  "zero_time = \<lparr>sec = 0, nsec = 0\<rparr>"

definition zero_inode :: inode where
  "zero_inode = \<lparr>i_version = 0, i_uid = 0, i_gid = 0, suspended_references = 0, i_flags = \<lambda>_. 0,
     i_allocated_space = \<lambda>_. 0, i_size = \<lambda>_. 0, i_nlink = \<lambda>_. 0, i_atime = \<lambda>_. zero_time,
     i_ctime = \<lambda>_. zero_time, i_mtime = \<lambda>_. zero_time,
     slots = \<lparr>sl_atime = False, sl_ctime = False, sl_mtime = False, sl_nlink = False, sl_size = False,
       sl_allocated_space = False, sl_flags = False\<rparr>\<rparr>"

text \<open>
  The allocated object is zeroed. The arguments are the size of a metadata block, the effective
  ids of the caller's credentials, the time and the flags. The header of a new block array or directory
  inside the inode, which only depends on constants, is part of the theories of these components.
\<close>

definition inode_alloc :: "nat \<Rightarrow> nat \<Rightarrow> nat \<Rightarrow> pmemfile_time \<Rightarrow> nat \<Rightarrow> inode" where
  "inode_alloc meta_size euid egid t flags =
     (let i = zero_inode\<lparr>i_version := PMEMFILE_INODE_VERSION 2,
                i_flags := (i_flags zero_inode)(False := flags), i_ctime := (i_ctime zero_inode)(False := t),
                i_mtime := (i_mtime zero_inode)(False := t), i_atime := (i_atime zero_inode)(False := t),
                i_nlink := (i_nlink zero_inode)(False := 0), i_uid := euid, i_gid := egid\<rparr>
      in if inode_is_dir i then i\<lparr>i_size := (i_size i)(False := meta_size)\<rparr> else i)"

section \<open>Lemmas\<close>

named_theorems inode_simps \<open>reading a field after an update of an inode\<close>

lemmas inode_get_defs = inode_get_atime_def inode_get_mtime_def inode_get_ctime_def inode_get_nlink_def
  inode_get_size_def inode_get_allocated_space_def inode_get_flags_def

lemmas inode_tx_set_defs = inode_tx_set_atime_def inode_tx_set_mtime_def inode_tx_set_ctime_def
  inode_tx_set_size_def inode_tx_set_allocated_space_def inode_tx_set_flags_def
  inode_tx_inc_nlink_def inode_tx_dec_nlink_def

lemma get_size_after [inode_simps]:
  "inode_get_size (inode_tx_set_size sz i) = sz"
  "inode_get_size (inode_tx_set_allocated_space sp i) = inode_get_size i"
  "inode_get_size (inode_tx_set_mtime tm i) = inode_get_size i"
  "inode_get_size (inode_tx_set_ctime tm i) = inode_get_size i"
  "inode_get_size (inode_tx_set_atime tm i) = inode_get_size i"
  by (simp_all add: inode_get_defs inode_tx_set_defs)

lemma get_allocated_space_after [inode_simps]:
  "inode_get_allocated_space (inode_tx_set_size sz i) = inode_get_allocated_space i"
  "inode_get_allocated_space (inode_tx_set_allocated_space sp i) = sp"
  "inode_get_allocated_space (inode_tx_set_mtime tm i) = inode_get_allocated_space i"
  "inode_get_allocated_space (inode_tx_set_ctime tm i) = inode_get_allocated_space i"
  "inode_get_allocated_space (inode_tx_set_atime tm i) = inode_get_allocated_space i"
  by (simp_all add: inode_get_defs inode_tx_set_defs)

lemma get_flags_after [inode_simps]:
  "inode_get_flags (inode_tx_set_size sz i) = inode_get_flags i"
  "inode_get_flags (inode_tx_set_allocated_space sp i) = inode_get_flags i"
  "inode_get_flags (inode_tx_set_mtime tm i) = inode_get_flags i"
  "inode_get_flags (inode_tx_set_ctime tm i) = inode_get_flags i"
  "inode_get_flags (inode_tx_set_atime tm i) = inode_get_flags i"
  by (simp_all add: inode_get_defs inode_tx_set_defs)

end
