(* ===== verification/Vinode.thy ===== *)
theory Vinode
  imports File_Data Inode
begin

text \<open>
  The volatile inode (\<^verbatim>\<open>struct pmemfile_vinode\<close> of \<^verbatim>\<open>inode.h\<close>) of a regular file, open files
  (\<^verbatim>\<open>file.h\<close>), the snapshots taken around transactions and the rebuilding of the offset map on first use
  (\<^verbatim>\<open>inode.c\<close>). The blocks and the caches of blocks are the \<open>pfile\<close> of the block list. Locks are
  left out: each operation is one step of the thread that holds them.
\<close>

section \<open>Definitions\<close>

record vinode =
  vdata :: pfile
  vi_inode :: inode
  vi_atime :: pmemfile_time
  atime_dirty :: bool
  snap_first_free :: "bptr option"
  snap_first_block :: "bptr option"

definition PFILE_READ :: nat where "PFILE_READ = 1"
definition PFILE_WRITE :: nat where "PFILE_WRITE = 2"
definition PFILE_NOATIME :: nat where "PFILE_NOATIME = 4"
definition PFILE_APPEND :: nat where "PFILE_APPEND = 8"
definition PFILE_PATH :: nat where "PFILE_PATH = 16"

record pmemfile_file =
  f_flags :: nat
  f_offset :: nat
  block_pointer_cache :: "bptr option"
  invalidation_observed :: nat

text \<open>
  A file that has not seen the last removal of blocks forgets its pointer; reading and writing
  through the file start with this step.
\<close>

definition refresh_cache :: "pfile \<Rightarrow> pmemfile_file \<Rightarrow> pmemfile_file" where
  "refresh_cache v f =
     (if invalidation_observed f \<noteq> invalidations v
      then f\<lparr>block_pointer_cache := None, invalidation_observed := invalidations v\<rparr> else f)"

definition vinode_is_dir :: "vinode \<Rightarrow> bool" where
  "vinode_is_dir w = inode_is_dir (vi_inode w)"

definition vinode_is_regular_file :: "vinode \<Rightarrow> bool" where
  "vinode_is_regular_file w = inode_is_regular_file (vi_inode w)"

definition vinode_is_symlink :: "vinode \<Rightarrow> bool" where
  "vinode_is_symlink w = inode_is_symlink (vi_inode w)"

definition vinode_snapshot :: "vinode \<Rightarrow> vinode" where
  "vinode_snapshot w = w\<lparr>snap_first_free := first_free (vdata w), snap_first_block := first_block (vdata w)\<rparr>"

text \<open>
  The argument is the vinode with the persistent data that libpmemobj restored and the volatile
  fields as the transaction left them.
\<close>

definition vinode_restore_on_abort :: "vinode \<Rightarrow> vinode" where
  "vinode_restore_on_abort w =
     w\<lparr>vdata := (vdata w)\<lparr>first_free := snap_first_free w, first_block := snap_first_block w, blocks := None\<rparr>\<rparr>"

text \<open>
  The result is 0 or the negated error number. After a successful rebuild the loop of the
  source tests the map again and, with no other thread, leaves.
\<close>

definition vinode_rdlock_with_block_tree :: "vinode \<Rightarrow> (int \<times> vinode) option" where
  "vinode_rdlock_with_block_tree w =
     (if blocks (vdata w) \<noteq> None then Some (0, w)
      else
        (case vinode_rebuild_block_tree (vdata w) of
           None \<Rightarrow> None
         | Some (err, v) \<Rightarrow> Some (- int err, w\<lparr>vdata := v\<rparr>)))"

section \<open>The invariant\<close>

text \<open>
  The blocks are well formed, and either the map agrees with them or there is none yet. The inode
  records the space of all blocks, and nothing but zeros is stored past the end of the file.
\<close>

definition vinode_content :: "vinode \<Rightarrow> bptr list \<Rightarrow> nat \<Rightarrow> byte" where
  "vinode_content w ps = content (datas (vdata w)) (exts (vdata w) ps)"

definition vinode_ok :: "nat \<Rightarrow> vinode \<Rightarrow> bptr list \<Rightarrow> bool" where
  "vinode_ok A w ps \<longleftrightarrow>
     (file_ok A (vdata w) ps \<or> blocks (vdata w) = None \<and> stored_ok A (vdata w) ps) \<and>
     vinode_is_regular_file w \<and>
     inode_get_allocated_space (vi_inode w) = space_of (exts (vdata w) ps) \<and>
     inode_get_size (vi_inode w) \<le> 2 ^ 63 \<and>
     (\<forall>x. inode_get_size (vi_inode w) \<le> x \<longrightarrow> vinode_content w ps x = 0)"

text \<open>A cached pointer to a block is a block of the file unless the cache is out of date.\<close>

definition file_cache_ok :: "pmemfile_file \<Rightarrow> vinode \<Rightarrow> bptr list \<Rightarrow> bool" where
  "file_cache_ok f w ps \<longleftrightarrow> (invalidation_observed f = invalidations (vdata w) \<longrightarrow>
     (\<forall>p. block_pointer_cache f = Some p \<longrightarrow> p \<in> set ps))"

lemma refresh_cache_simps [simp]:
  "f_offset (refresh_cache v f) = f_offset f" "f_flags (refresh_cache v f) = f_flags f"
  "invalidation_observed (refresh_cache v f) = invalidations v"
  by (simp_all add: refresh_cache_def)

lemma refresh_cache_ok:
  assumes "file_cache_ok f w ps" and "invalidations v = invalidations (vdata w)"
    and "block_pointer_cache (refresh_cache v f) = Some p"
  shows "p \<in> set ps"
  using assms by (auto simp: refresh_cache_def file_cache_ok_def split: if_splits)

lemma file_ok_stored: "file_ok A v ps \<Longrightarrow> stored_ok A v ps"
  by (auto simp: file_ok_def stored_ok_def linked_def)

lemma file_ok_blocks: "file_ok A v ps \<Longrightarrow> blocks v \<noteq> None"
  by (auto simp: file_ok_def mapped_def)

lemma vinode_ok_stored: "vinode_ok A w ps \<Longrightarrow> stored_ok A (vdata w) ps"
  by (auto simp: vinode_ok_def intro: file_ok_stored)

lemma rebuild_frame:
  assumes "vinode_rebuild_block_tree v = Some (e, w)"
  shows "invalidations w = invalidations v" and "first_free w = first_free v"
  using assms by (auto simp: vinode_rebuild_block_tree_def split: option.splits prod.splits if_splits)

lemma exts_cong: "descs v' = descs v \<Longrightarrow> exts v' = exts v"
  by (simp add: exts_def fun_eq_iff)

text \<open>After the lock is taken, the map is there and nothing else changed.\<close>

lemma tree_ready:
  assumes w: "vinode_ok A w ps" and al: "MIN_BLOCK_SIZE dvd A"
  obtains v where
    "(if blocks (vdata w) = None then vinode_rebuild_block_tree (vdata w) else Some (0, vdata w)) = Some (0, v)"
    and "file_ok A v ps" and "descs v = descs (vdata w)" and "datas v = datas (vdata w)"
    and "invalidations v = invalidations (vdata w)" and "first_free v = first_free (vdata w)"
    and "vinode_ok A (w\<lparr>vdata := v\<rparr>) ps"
proof (cases "blocks (vdata w)")
  case None
  then have "stored_ok A (vdata w) ps"
    using w by (simp add: vinode_ok_stored)
  then obtain v where v: "vinode_rebuild_block_tree (vdata w) = Some (0, v)" "file_ok A v ps"
    "descs v = descs (vdata w)" "datas v = datas (vdata w)"
    using rebuild_block_tree_ok [OF _ al] by blast
  show thesis
  proof (rule that)
    show "vinode_ok A (w\<lparr>vdata := v\<rparr>) ps"
      using w v(2) exts_cong [OF v(3)] v(4) by (simp add: vinode_ok_def vinode_content_def vinode_is_regular_file_def)
  qed (use v None rebuild_frame [OF v(1)] in simp_all)
next
  case (Some m)
  then have "file_ok A (vdata w) ps"
    using w by (simp add: vinode_ok_def)
  then show thesis
    using that [of "vdata w"] w Some by simp
qed

lemma rdlock_with_block_tree_ok:
  assumes w: "vinode_ok A w ps" and al: "MIN_BLOCK_SIZE dvd A"
  obtains v where "vinode_rdlock_with_block_tree w = Some (0, w\<lparr>vdata := v\<rparr>)" and "file_ok A v ps"
    and "descs v = descs (vdata w)" and "datas v = datas (vdata w)"
    and "invalidations v = invalidations (vdata w)" and "first_free v = first_free (vdata w)"
    and "vinode_ok A (w\<lparr>vdata := v\<rparr>) ps"
proof -
  obtain v where v:
    "(if blocks (vdata w) = None then vinode_rebuild_block_tree (vdata w) else Some (0, vdata w)) = Some (0, v)"
    "file_ok A v ps" "descs v = descs (vdata w)" "datas v = datas (vdata w)"
    "invalidations v = invalidations (vdata w)" "first_free v = first_free (vdata w)"
    "vinode_ok A (w\<lparr>vdata := v\<rparr>) ps"
    by (rule tree_ready [OF assms]) (rule that)
  moreover have "vinode_rdlock_with_block_tree w = Some (0, w\<lparr>vdata := v\<rparr>)"
    using v(1) by (auto simp: vinode_rdlock_with_block_tree_def split: if_splits)
  ultimately show thesis
    by (intro that)
qed

text \<open>An aborted transaction leaves the blocks as they were and drops the map.\<close>

lemma stored_ok_dropped:
  assumes "stored_ok A v ps"
  shows "stored_ok A (v\<lparr>first_block := b, blocks := None, invalidations := n\<rparr>) ps"
proof -
  obtain rest i where "slots_ok v rest i ps"
    using assms by (auto simp: stored_ok_def)
  moreover have "distinct ps"
    using calculation by (simp add: slots_ok_def)
  ultimately have "slots_ok (v\<lparr>first_block := b, blocks := None, invalidations := n\<rparr>) rest i ps"
    by (elim slots_ok_cong) simp_all
  then show ?thesis
    using assms exts_cong [of "v\<lparr>first_block := b, blocks := None, invalidations := n\<rparr>" v]
    by (auto simp: stored_ok_def)
qed

lemma restore_on_abort_ok:
  assumes w: "vinode_ok A w ps" and s: "snap_first_free w = first_free (vdata w)"
  shows "vinode_ok A (vinode_restore_on_abort (w\<lparr>vdata := (vdata w)\<lparr>invalidations := n\<rparr>\<rparr>)) ps"
    and "vinode_content (vinode_restore_on_abort (w\<lparr>vdata := (vdata w)\<lparr>invalidations := n\<rparr>\<rparr>)) ps =
      vinode_content w ps"
proof -
  define v where "v = (vdata w)\<lparr>first_block := snap_first_block w, blocks := None, invalidations := n\<rparr>"
  have r: "vinode_restore_on_abort (w\<lparr>vdata := (vdata w)\<lparr>invalidations := n\<rparr>\<rparr>) = w\<lparr>vdata := v\<rparr>"
    using s by (simp add: vinode_restore_on_abort_def v_def)
  have v: "exts v = exts (vdata w)" "datas v = datas (vdata w)" "blocks v = None"
    by (simp_all add: v_def exts_def fun_eq_iff)
  have "stored_ok A v ps"
    unfolding v_def by (rule stored_ok_dropped [OF vinode_ok_stored [OF w]])
  then show "vinode_ok A (vinode_restore_on_abort (w\<lparr>vdata := (vdata w)\<lparr>invalidations := n\<rparr>\<rparr>)) ps"
    unfolding r using w v by (simp add: vinode_ok_def vinode_content_def vinode_is_regular_file_def)
  show "vinode_content (vinode_restore_on_abort (w\<lparr>vdata := (vdata w)\<lparr>invalidations := n\<rparr>\<rparr>)) ps = vinode_content w ps"
    unfolding r using v by (simp add: vinode_content_def)
qed

section \<open>An example\<close>

definition sample_inode :: "nat \<Rightarrow> nat \<Rightarrow> inode" where
  "sample_inode sz space = (inode_alloc METADATA_BLOCK_SIZE 0 0 zero_time (PMEMFILE_S_IFREG + 420))
     \<lparr>i_size := (\<lambda>_. sz), i_allocated_space := (\<lambda>_. space)\<rparr>"

definition sample_vinode :: "nat list \<Rightarrow> vinode" where
  "sample_vinode us = \<lparr>vdata = sample_file us,
     vi_inode = sample_inode (MIN_BLOCK_SIZE + bytes (last us)) (MIN_BLOCK_SIZE * length us),
     vi_atime = zero_time, atime_dirty = False, snap_first_free = None, snap_first_block = None\<rparr>"

lemma sample_inode_simps [simp]:
  "inode_get_size (sample_inode sz space) = sz" "inode_get_allocated_space (sample_inode sz space) = space"
  "inode_is_regular_file (sample_inode sz space)" "\<not> inode_is_dir (sample_inode sz space)"
proof -
  have "inode_get_flags (sample_inode sz space) = PMEMFILE_S_IFREG + 420"
    by (simp add: sample_inode_def inode_alloc_def inode_get_flags_def zero_inode_def Let_def)
  then show "inode_is_regular_file (sample_inode sz space)" "\<not> inode_is_dir (sample_inode sz space)"
    by (simp_all add: inode_is_regular_file_def inode_is_dir_def PMEMFILE_S_ISTYPE_def PMEMFILE_S_IFREG_def
        PMEMFILE_S_IFMT_def PMEMFILE_S_IFDIR_def)
qed (simp_all add: sample_inode_def inode_get_defs)

lemma sample_vinode_ok:
  assumes "sample_ok us"
  shows "vinode_ok MIN_BLOCK_SIZE (sample_vinode us) (sample_ptrs us)"
proof -
  have "last us < 16"
    using assms by (auto simp: sample_ok_def)
  then have "MIN_BLOCK_SIZE + bytes (last us) \<le> 2 ^ 63"
    by (simp add: MIN_BLOCK_SIZE_def)
  then show ?thesis
    using sample_file_ok [OF assms] sample_space [of us] sample_past_end [OF assms]
    by (simp add: vinode_ok_def sample_vinode_def vinode_is_regular_file_def vinode_content_def)
qed

end
