(* ===== verification/Read.thy ===== *)
theory Read
  imports Vinode
begin

text \<open>
  Reading (\<^verbatim>\<open>read.c\<close>). A call returns the bytes it puts into the buffers, one list per buffer; -1
  with \<^verbatim>\<open>errno\<close> is \<open>Inl\<close>. The clock is an argument. Arrays of \<^verbatim>\<open>iovec\<close> have at least the number of
  elements the caller says, and buffers have room for their length.
\<close>

section \<open>Definitions\<close>

definition SSIZE_MAX :: nat where
  "SSIZE_MAX = 2 ^ 63 - 1"

record iovec =
  iov_base :: "byte list option"
  iov_len :: nat

definition vinode_read :: "vinode \<Rightarrow> nat \<Rightarrow> bptr option \<Rightarrow> nat \<Rightarrow> (byte list \<times> bptr option) option" where
  "vinode_read w offset last_block count =
     (let sz = inode_get_size (vi_inode w) in
      if sz \<le> offset then Some ([], last_block)
      else
        let count1 = (if sz - offset < count then sz - offset else count) in
        case find_closest_block_with_hint (vdata w) offset last_block of
          None \<Rightarrow> None
        | Some block \<Rightarrow>
            (case iterate_on_file_range (vdata w) block offset count1 [] read_from_blocks of
               None \<Rightarrow> None
             | Some (block1, v, bs) \<Rightarrow> Some (bs, if block1 \<noteq> None then block1 else last_block)))"

definition time_cmp :: "pmemfile_time \<Rightarrow> pmemfile_time \<Rightarrow> int" where
  "time_cmp t1 t2 =
     (if sec t1 < sec t2 then -1
      else if sec t1 > sec t2 then 1
      else if nsec t1 < nsec t2 then -1
      else if nsec t1 > nsec t2 then 1
      else 0)"

text \<open>The error of the check, or 0.\<close>

definition pmemfile_preadv_args_check :: "pmemfile_file \<Rightarrow> vinode \<Rightarrow> iovec list option \<Rightarrow> int \<Rightarrow> errno" where
  "pmemfile_preadv_args_check f w iov iovcnt =
     (if \<not> vinode_is_regular_file w then (if vinode_is_dir w then EISDIR else EINVAL)
      else if f_flags f AND PFILE_READ = 0 then EBADF
      else
        (case iov of
           None \<Rightarrow> (if iovcnt > 0 then EFAULT else 0)
         | Some xs \<Rightarrow> (if \<exists>io \<in> set (take (nat iovcnt) xs). iov_base io = None then EFAULT else 0)))"

text \<open>The loop over the buffers; \<open>ret\<close> bytes were read before.\<close>

fun pmemfile_preadv_internal ::
  "vinode \<Rightarrow> bptr option \<Rightarrow> nat \<Rightarrow> nat \<Rightarrow> iovec list \<Rightarrow> (nat \<times> byte list list \<times> bptr option) option" where
  "pmemfile_preadv_internal w last_block offset r [] = Some (r, [], last_block)"
| "pmemfile_preadv_internal w last_block offset r (io # iov) =
     (let len = (if SSIZE_MAX < add64 r (iov_len io) then SSIZE_MAX - r else iov_len io) in
      case vinode_read w offset last_block len of
        None \<Rightarrow> None
      | Some (bs, last_block1) \<Rightarrow>
          if length bs \<noteq> len then Some (r + length bs, [bs], last_block1)
          else
            (case pmemfile_preadv_internal w last_block1 (add64 offset (length bs)) (r + length bs) iov of
               None \<Rightarrow> None
             | Some (r', bss, last_block2) \<Rightarrow> Some (r', bs # bss, last_block2)))"

definition handle_atime :: "pmemfile_time \<Rightarrow> nat \<Rightarrow> vinode \<Rightarrow> vinode" where
  "handle_atime tm file_flags w =
     (if file_flags AND PFILE_NOATIME \<noteq> 0 then w
      else
        let tm1d = tm\<lparr>sec := sec tm - 86400\<rparr>; atime = vi_atime w in
        if time_cmp atime tm1d \<ge> 0 \<and> time_cmp atime (inode_get_ctime (vi_inode w)) \<ge> 0 \<and>
           time_cmp atime (inode_get_mtime (vi_inode w)) \<ge> 0
        then w
        else w\<lparr>vi_atime := tm, atime_dirty := True\<rparr>)"

text \<open>
  The elements of the array that the loops visit. The arguments check has refused a null array
  with a positive count.
\<close>

definition visited_iov :: "iovec list option \<Rightarrow> int \<Rightarrow> iovec list" where
  "visited_iov iov iovcnt = (case iov of None \<Rightarrow> [] | Some xs \<Rightarrow> take (nat iovcnt) xs)"

definition advance_file :: "pmemfile_file \<Rightarrow> nat \<Rightarrow> bptr option \<Rightarrow> pmemfile_file" where
  "advance_file f r last_block =
     (if r > 0 then f\<lparr>f_offset := add64 (f_offset f) r, block_pointer_cache := last_block\<rparr>
      else f\<lparr>block_pointer_cache := None\<rparr>)"

text \<open>
  When the map cannot be rebuilt the result of the lock function is returned; it is -1, and
  \<^verbatim>\<open>errno\<close> is what the failed allocation set.
\<close>

definition pmemfile_readv_under_filelock ::
  "pmemfile_time \<Rightarrow> pmemfile_file \<Rightarrow> vinode \<Rightarrow> iovec list option \<Rightarrow> int
    \<Rightarrow> ((errno + nat \<times> byte list list) \<times> pmemfile_file \<times> vinode) option" where
  "pmemfile_readv_under_filelock tm f w iov iovcnt =
     (let err = pmemfile_preadv_args_check f w iov iovcnt in
      if err \<noteq> 0 then Some (Inl err, f, w)
      else if iovcnt = 0 then Some (Inr (0, []), f, w)
      else
        (case vinode_rdlock_with_block_tree w of
           None \<Rightarrow> None
         | Some (r, w1) \<Rightarrow>
             if r \<noteq> 0 then Some (Inl ENOMEM, f, w1)
             else
               let f1 = refresh_cache (vdata w1) f in
               case pmemfile_preadv_internal w1 (block_pointer_cache f1) (f_offset f1) 0 (visited_iov iov iovcnt) of
                    None \<Rightarrow> None
                  | Some (r', bss, last_block) \<Rightarrow>
                      Some (Inr (r', bss), advance_file f1 r' last_block,
                            handle_atime tm (f_flags f1) w1)))"

text \<open>The pool and the file may be null pointers.\<close>

definition pmemfile_readv ::
  "bool \<Rightarrow> pmemfile_time \<Rightarrow> pmemfile_file option \<Rightarrow> vinode \<Rightarrow> iovec list option \<Rightarrow> int
    \<Rightarrow> ((errno + nat \<times> byte list list) \<times> pmemfile_file option \<times> vinode) option" where
  "pmemfile_readv pfp tm f w iov iovcnt =
     (if \<not> pfp then Some (Inl EFAULT, f, w)
      else
        (case f of
           None \<Rightarrow> Some (Inl EFAULT, f, w)
         | Some g \<Rightarrow> map_option (\<lambda>(r, g', w'). (r, Some g', w')) (pmemfile_readv_under_filelock tm g w iov iovcnt)))"

definition pmemfile_read ::
  "bool \<Rightarrow> pmemfile_time \<Rightarrow> pmemfile_file option \<Rightarrow> vinode \<Rightarrow> byte list option \<Rightarrow> nat
    \<Rightarrow> ((errno + nat \<times> byte list list) \<times> pmemfile_file option \<times> vinode) option" where
  "pmemfile_read pfp tm f w buf count =
     pmemfile_readv pfp tm f w (Some [\<lparr>iov_base = buf, iov_len = count\<rparr>]) 1"

definition pmemfile_preadv ::
  "bool \<Rightarrow> pmemfile_time \<Rightarrow> pmemfile_file option \<Rightarrow> vinode \<Rightarrow> iovec list option \<Rightarrow> int \<Rightarrow> int
    \<Rightarrow> ((errno + nat \<times> byte list list) \<times> vinode) option" where
  "pmemfile_preadv pfp tm f w iov iovcnt offset =
     (if \<not> pfp then Some (Inl EFAULT, w)
      else
        (case f of
           None \<Rightarrow> Some (Inl EFAULT, w)
         | Some g \<Rightarrow>
             if offset < 0 then Some (Inl EINVAL, w)
             else
               let err = pmemfile_preadv_args_check g w iov iovcnt in
               if err \<noteq> 0 then Some (Inl err, w)
               else if iovcnt = 0 then Some (Inr (0, []), w)
               else
                 (case vinode_rdlock_with_block_tree w of
                    None \<Rightarrow> None
                  | Some (r, w1) \<Rightarrow>
                      if r \<noteq> 0 then Some (Inl ENOMEM, w1)
                      else
                        let last_block = (if invalidation_observed g \<noteq> invalidations (vdata w1) then None
                                          else block_pointer_cache g)
                        in map_option (\<lambda>(r', bss, _). (Inr (r', bss), handle_atime tm (f_flags g) w1))
                             (pmemfile_preadv_internal w1 last_block (nat offset) 0 (visited_iov iov iovcnt)))))"

definition pmemfile_pread ::
  "bool \<Rightarrow> pmemfile_time \<Rightarrow> pmemfile_file option \<Rightarrow> vinode \<Rightarrow> byte list option \<Rightarrow> nat \<Rightarrow> int
    \<Rightarrow> ((errno + nat \<times> byte list list) \<times> vinode) option" where
  "pmemfile_pread pfp tm f w buf count offset =
     pmemfile_preadv pfp tm f w (Some [\<lparr>iov_base = buf, iov_len = count\<rparr>]) 1 offset"

section \<open>Reading the content\<close>

text \<open>
  The loop over blocks handles a hole before the first block it meets and after the last one; between
  two blocks of the range there must be none.
\<close>

definition readable :: "pfile \<Rightarrow> bptr list \<Rightarrow> nat \<Rightarrow> nat \<Rightarrow> bool" where
  "readable v ps offset len \<longleftrightarrow>
     contiguous v (filter (\<lambda>p. offset < bd_offset (descs v p) + bd_size (descs v p)) ps) (offset + len)"

lemma contiguous_less: "contiguous v qs e \<Longrightarrow> e' \<le> e \<Longrightarrow> contiguous v qs e'"
  by (induction qs rule: induct_list012) auto

lemma contiguous_filter:
  assumes "contiguous v qs e"
    and "sorted_wrt (\<lambda>p q. bd_offset (descs v p) + bd_size (descs v p) \<le> bd_offset (descs v q)) qs"
  shows "contiguous v (filter (\<lambda>p. off < bd_offset (descs v p) + bd_size (descs v p)) qs) e"
  using assms
proof (induction qs)
  case (Cons p qs)
  show ?case
  proof (cases "off < bd_offset (descs v p) + bd_size (descs v p)")
    case True
    have "off < bd_offset (descs v q) + bd_size (descs v q)" if "q \<in> set qs" for q
      using Cons.prems(2) that True by fastforce
    then show ?thesis
      using True Cons.prems(1) by (simp add: filter_True)
  next
    case False
    then show ?thesis
      using Cons contiguous_mono by simp
  qed
qed simp

lemma file_ok_sorted:
  "file_ok A v ps \<Longrightarrow> sorted_wrt (\<lambda>p q. bd_offset (descs v p) + bd_size (descs v p) \<le> bd_offset (descs v q)) ps"
  by (auto simp: file_ok_def exts_ok_def exts_def sorted_wrt_map ext_before_def payload_def elim: sorted_wrt_mono_rel [rotated])

lemma readable_sub:
  assumes f: "file_ok A v ps" and r: "readable v ps offset len" and n: "offset \<le> o'" "o' + n' \<le> offset + len"
  shows "readable v ps o' n'"
proof -
  let ?F = "\<lambda>k p. k < bd_offset (descs v p) + bd_size (descs v p)"
  have "contiguous v (filter (?F offset) ps) (o' + n')"
    using r n(2) contiguous_less by (simp add: readable_def)
  then have "contiguous v (filter (?F o') (filter (?F offset) ps)) (o' + n')"
    by (rule contiguous_filter) (rule sorted_wrt_filter [OF file_ok_sorted [OF f]])
  moreover have "filter (?F o') (filter (?F offset) ps) = filter (?F o') ps"
    using n(1) by (auto simp: filter_filter intro!: filter_cong)
  ultimately show ?thesis
    by (simp add: readable_def)
qed

lemma hinted_split:
  assumes f: "file_ok A v ps" and al: "MIN_BLOCK_SIZE dvd A" and x: "x < W64"
    and h: "\<And>p. hint = Some p \<Longrightarrow> p \<in> set ps"
  obtains ys zs where "ps = ys @ zs" and "find_closest_block_with_hint v x hint = Some (last_or ys None)"
    and "\<And>y. y \<in> set ys \<Longrightarrow> bd_offset (descs v y) \<le> x" and "\<And>z. z \<in> set zs \<Longrightarrow> x < bd_offset (descs v z)"
proof -
  obtain zs where "ps = starts_before v (Suc x) ps @ zs"
    "\<And>p. p \<in> set (starts_before v (Suc x) ps) \<Longrightarrow> bd_offset (descs v p) < Suc x"
    "\<And>p. p \<in> set zs \<Longrightarrow> Suc x \<le> bd_offset (descs v p)"
    by (rule starts_before_split [OF f]) (rule that)
  then show thesis
    using hinted_block_ok [OF f al x h] by (intro that [of "starts_before v (Suc x) ps" zs]) (auto simp: less_Suc_eq_le Suc_le_eq)
qed

lemma range_of_length [simp]: "length (range_of v ps offset n) = n"
  by (simp add: range_of_def)

lemma vinode_read_ok:
  assumes f: "file_ok A (vdata w) ps" and al: "MIN_BLOCK_SIZE dvd A" and b: "inode_get_size (vi_inode w) < W64"
    and h: "\<And>p. hint = Some p \<Longrightarrow> p \<in> set ps" and r: "readable (vdata w) ps offset count"
  obtains lb where "vinode_read w offset hint count =
      Some (range_of (vdata w) ps offset (min count (inode_get_size (vi_inode w) - offset)), lb)"
    and "\<And>p. lb = Some p \<Longrightarrow> p \<in> set ps"
proof (cases "inode_get_size (vi_inode w) \<le> offset")
  case True
  then show thesis
    using that [of hint] h by (simp add: vinode_read_def range_of_def)
next
  case False
  define n where "n = min count (inode_get_size (vi_inode w) - offset)"
  have n: "(if inode_get_size (vi_inode w) - offset < count then inode_get_size (vi_inode w) - offset else count) = n"
    "offset + n < W64" "n \<le> count" "offset < W64"
    using b False by (auto simp: n_def)
  obtain ys zs where ps: "ps = ys @ zs" "find_closest_block_with_hint (vdata w) offset hint = Some (last_or ys None)"
    "\<And>y. y \<in> set ys \<Longrightarrow> bd_offset (descs (vdata w) y) \<le> offset"
    "\<And>z. z \<in> set zs \<Longrightarrow> offset < bd_offset (descs (vdata w) z)"
    by (rule hinted_split [OF f al n(4) h]) (assumption, rule that)
  have c: "contiguous (vdata w)
      (filter (\<lambda>p. offset < bd_offset (descs (vdata w) p) + bd_size (descs (vdata w) p)) (ys @ zs)) (offset + n)"
    using readable_sub [OF f r, of offset n] n(3) by (simp add: readable_def ps(1))
  from iterate_read_ok [OF f [unfolded ps(1)] n(2) ps(3,4) c, of "last_or ys None" "[]"]
  obtain lb where lb: "iterate_loop read_from_blocks (vdata w) (last_or ys None) (last_or ys None) offset n [] [] =
      Some (lb, vdata w, range_of (vdata w) ps offset n)" "lb = last_or ys None \<or> lb \<in> Some ` set ps"
    unfolding ps(1) by blast
  have "p \<in> set ps" if "lb = Some p" for p
    using that lb(2) ps(1) by (auto simp: last_or_def split: if_splits)
  moreover have "vinode_read w offset hint count =
      Some (range_of (vdata w) ps offset n, if lb \<noteq> None then lb else hint)"
    using False n(1) ps(2) lb(1) by (simp add: vinode_read_def iterate_on_file_range_def Let_def)
  ultimately show thesis
    using h by (intro that [of "if lb \<noteq> None then lb else hint"]) (auto simp: n_def split: if_splits)
qed

lemma range_of_split: "range_of v ps offset n @ range_of v ps (offset + n) m = range_of v ps offset (n + m)"
  using range_of_append [of n "n + m" v ps offset] by simp

definition iov_total :: "iovec list \<Rightarrow> nat" where
  "iov_total iov = sum_list (map iov_len iov)"

lemma preadv_internal_ok:
  assumes f: "file_ok A (vdata w) ps" and al: "MIN_BLOCK_SIZE dvd A" and b: "inode_get_size (vi_inode w) < W64"
    and "\<And>p. hint = Some p \<Longrightarrow> p \<in> set ps" and "readable (vdata w) ps offset (iov_total iov)"
    and "r + iov_total iov \<le> SSIZE_MAX" and "offset + iov_total iov < W64"
  shows "\<exists>bss lb. pmemfile_preadv_internal w hint offset r iov =
      Some (r + min (iov_total iov) (inode_get_size (vi_inode w) - offset), bss, lb) \<and>
    concat bss = range_of (vdata w) ps offset (min (iov_total iov) (inode_get_size (vi_inode w) - offset)) \<and>
    (\<forall>p. lb = Some p \<longrightarrow> p \<in> set ps)"
  using assms(4-)
proof (induction iov arbitrary: hint offset r)
  case Nil
  then show ?case
    by (simp add: iov_total_def range_of_def)
next
  case (Cons io iov)
  let ?sz = "inode_get_size (vi_inode w)"
  let ?n = "iov_len io"
  have t: "iov_total (io # iov) = ?n + iov_total iov"
    by (simp add: iov_total_def)
  have "add64 r ?n = r + ?n"
    using Cons.prems(3) t by (intro add64_exact) (simp add: SSIZE_MAX_def W64_def)
  then have len: "(if SSIZE_MAX < add64 r ?n then SSIZE_MAX - r else ?n) = ?n"
    using Cons.prems(3) t by simp
  have rd: "readable (vdata w) ps offset ?n"
    using readable_sub [OF f Cons.prems(2), of offset ?n] t by simp
  obtain lb where lb: "vinode_read w offset hint ?n = Some (range_of (vdata w) ps offset (min ?n (?sz - offset)), lb)"
    "\<And>p. lb = Some p \<Longrightarrow> p \<in> set ps"
    by (rule vinode_read_ok [OF f al b Cons.prems(1) rd]) (assumption, rule that)
  show ?case
  proof (cases "min ?n (?sz - offset) = ?n")
    case False
    then have "min (iov_total (io # iov)) (?sz - offset) = ?sz - offset" "min ?n (?sz - offset) = ?sz - offset"
      "?sz - offset \<noteq> ?n"
      using t by auto
    then show ?thesis
      using lb len by (intro exI [of _ "[range_of (vdata w) ps offset (?sz - offset)]"] exI [of _ lb]) simp
  next
    case True
    have a: "add64 offset ?n = offset + ?n"
      using Cons.prems(4) t by (intro add64_exact) simp
    have "readable (vdata w) ps (offset + ?n) (iov_total iov)"
      using readable_sub [OF f Cons.prems(2), of "offset + ?n" "iov_total iov"] t by simp
    moreover have "r + ?n + iov_total iov \<le> SSIZE_MAX" "offset + ?n + iov_total iov < W64"
      using Cons.prems(3,4) t by simp_all
    ultimately obtain bss lb' where ih: "pmemfile_preadv_internal w lb (offset + ?n) (r + ?n) iov =
        Some (r + ?n + min (iov_total iov) (?sz - (offset + ?n)), bss, lb')"
      "concat bss = range_of (vdata w) ps (offset + ?n) (min (iov_total iov) (?sz - (offset + ?n)))"
      "\<forall>p. lb' = Some p \<longrightarrow> p \<in> set ps"
      using Cons.IH [of lb "offset + ?n" "r + ?n"] lb(2) by blast
    have m: "?n + min (iov_total iov) (?sz - (offset + ?n)) = min (iov_total (io # iov)) (?sz - offset)"
      using True t by linarith
    then have "concat (range_of (vdata w) ps offset ?n # bss) =
        range_of (vdata w) ps offset (min (iov_total (io # iov)) (?sz - offset))"
      using ih(2) range_of_split [of "vdata w" ps offset ?n "min (iov_total iov) (?sz - (offset + ?n))"] by simp
    moreover have "pmemfile_preadv_internal w hint offset r (io # iov) =
        Some (r + min (iov_total (io # iov)) (?sz - offset), range_of (vdata w) ps offset ?n # bss, lb')"
      using lb(1) len True ih(1) a m by (simp add: add.assoc)
    ultimately show ?thesis
      using ih(3) by blast
  qed
qed

lemma handle_atime_frame:
  "vdata (handle_atime tm fl w) = vdata w" "vi_inode (handle_atime tm fl w) = vi_inode w"
  by (simp_all add: handle_atime_def Let_def)

lemma handle_atime_ok:
  "vinode_ok A (handle_atime tm fl w) ps = vinode_ok A w ps"
  "vinode_content (handle_atime tm fl w) ps = vinode_content w ps"
  by (simp_all add: vinode_ok_def vinode_content_def vinode_is_regular_file_def handle_atime_frame)

lemma args_check_ok:
  assumes "vinode_ok A w ps" and "f_flags f AND PFILE_READ \<noteq> 0" and "\<forall>io \<in> set iov. iov_base io \<noteq> None"
  shows "pmemfile_preadv_args_check f w (Some iov) (int (length iov)) = 0"
  using assms by (auto simp: pmemfile_preadv_args_check_def vinode_ok_def)

section \<open>Properties\<close>


definition reading_file :: "nat \<Rightarrow> pmemfile_file" where
  "reading_file offset = \<lparr>f_flags = PFILE_READ, f_offset = offset, block_pointer_cache = None, invalidation_observed = 0\<rparr>"

definition buffer_of :: "nat \<Rightarrow> iovec" where
  "buffer_of n = \<lparr>iov_base = Some [], iov_len = n\<rparr>"

lemma reading_file_simps [simp]:
  "f_offset (reading_file x) = x" "f_flags (reading_file x) AND PFILE_READ \<noteq> 0"
  "f_flags (reading_file x) AND PFILE_NOATIME = 0" "file_cache_ok (reading_file x) w ps"
  by (simp_all add: reading_file_def PFILE_READ_def PFILE_NOATIME_def file_cache_ok_def)

lemma iov_total_buffers [simp]: "iov_total [] = 0" "iov_total (buffer_of n # iov) = n + iov_total iov"
  by (simp_all add: iov_total_def buffer_of_def)

lemma sample_01: "sample_ok [0, 1]"
  by (simp add: sample_ok_def)

lemma readable_sample_01: "readable (sample_file [0, 1]) (sample_ptrs [0, 1]) x n"
proof -
  have "contiguous (sample_file [0, 1]) [BP 0 0, BP 0 1] (x + n)"
    by (simp add: sample_desc_def)
  then have "contiguous (sample_file [0, 1])
      (filter (\<lambda>p. x < bd_offset (descs (sample_file [0, 1]) p) + bd_size (descs (sample_file [0, 1]) p)) [BP 0 0, BP 0 1]) (x + n)"
    by (rule contiguous_filter) (simp add: sample_desc_def)
  then show ?thesis
    by (simp only: readable_def sample_ptrs_two) simp
qed


text \<open>
  Claim C40. A read that starts in one block, crosses a hole and reaches the next block loses the data of
  that block: after the first block the loop already points to the second one, and when it finds itself in the
  hole it looks for the block following that one. A file with the byte 1 in its first
  16 KiB, a hole of 16 KiB and the byte 2 in the 16 KiB after it is read as 16 KiB of ones and 32 KiB of zeros.
\<close>

theorem pmemfile_read_skips_block_after_hole:
  "vinode_ok MIN_BLOCK_SIZE (sample_vinode [0, 2]) (sample_ptrs [0, 2]) \<and>
   vinode_content (sample_vinode [0, 2]) (sample_ptrs [0, 2]) 32768 = 2 \<and>
   vinode_content (sample_vinode [0, 2]) (sample_ptrs [0, 2]) 49151 = 2 \<and>
   (\<exists>f' w'. pmemfile_read True zero_time (Some (reading_file 0)) (sample_vinode [0, 2]) (Some []) 49152 =
     Some (Inr (49152, [replicate 16384 1 @ replicate 32768 0]), Some f', w'))"
proof -
  let ?v = "sample_file [0, 2]"
  have ok: "file_ok MIN_BLOCK_SIZE ?v (sample_ptrs [0, 2])" and w: "vinode_ok MIN_BLOCK_SIZE (sample_vinode [0, 2]) (sample_ptrs [0, 2])"
    by (rule sample_file_ok [OF sample_02], rule sample_vinode_ok [OF sample_02])
  have c: "vinode_content (sample_vinode [0, 2]) (sample_ptrs [0, 2]) x = 2" if "32768 \<le> x" "x < 49152" for x
    using sample_content [OF sample_02, of 1 x] that
    by (simp add: vinode_content_def sample_vinode_def MIN_BLOCK_SIZE_def)
  have "starts_before ?v (Suc 0) (sample_ptrs [0, 2]) = [BP 0 0]"
    by (simp add: starts_before_def sample_ptrs_two sample_desc_def)
  then have cl: "find_closest_block_with_hint ?v 0 None = Some (Some (BP 0 0))"
    using hinted_block_ok [OF ok dvd_refl, of 0 None] by simp
  have b0: "read_block_range ?v (Some (BP 0 0)) 0 16384 = Some (replicate 16384 1)"
    by (simp add: read_block_range_def is_block_data_initialized_def BLOCK_INITIALIZED_def block_data_def
        sample_desc_def) (simp add: sample_file_def MIN_BLOCK_SIZE_def)
  have "iterate_loop read_from_blocks ?v (Some (BP 0 1)) (Some (BP 0 0)) 16384 32768 [] (replicate 16384 1) =
      Some (Some (BP 0 0), ?v, replicate 16384 1 @ replicate 32768 0)"
    by (subst iterate_loop.simps) (simp add: sample_desc_def MIN_BLOCK_SIZE_def is_offset_in_block_def
        find_following_block_def read_block_range_def add64_def W64_def Let_def)
  then have "iterate_on_file_range ?v (Some (BP 0 0)) 0 49152 [] read_from_blocks =
      Some (Some (BP 0 0), ?v, replicate 16384 1 @ replicate 32768 0)"
    unfolding iterate_on_file_range_def
    using b0 by (subst iterate_loop.simps) (simp add: sample_desc_def MIN_BLOCK_SIZE_def is_offset_in_block_def
        add64_def W64_def Let_def)
  then have r: "vinode_read (sample_vinode [0, 2]) 0 None 49152 = Some (replicate 16384 1 @ replicate 32768 0, Some (BP 0 0))"
    using cl by (simp add: vinode_read_def sample_vinode_def MIN_BLOCK_SIZE_def)
  have lk: "vinode_rdlock_with_block_tree (sample_vinode [0, 2]) = Some (0, sample_vinode [0, 2])"
    by (simp add: vinode_rdlock_with_block_tree_def sample_vinode_def) (simp add: sample_file_def)
  have ac: "pmemfile_preadv_args_check (reading_file 0) (sample_vinode [0, 2]) (Some [\<lparr>iov_base = Some [], iov_len = 49152\<rparr>]) 1 = 0"
    using args_check_ok [OF w, of "reading_file 0" "[\<lparr>iov_base = Some [], iov_len = 49152\<rparr>]"] by simp
  have ca: "refresh_cache ?v (reading_file 0) = reading_file 0" "vdata (sample_vinode [0, 2]) = ?v"
    by (simp_all add: refresh_cache_def reading_file_def sample_vinode_def) (simp add: sample_file_def)
  have "\<exists>f' w'. pmemfile_read True zero_time (Some (reading_file 0)) (sample_vinode [0, 2]) (Some []) 49152 =
     Some (Inr (49152, [replicate 16384 1 @ replicate 32768 0]), Some f', w')"
    using r lk ac
    by (simp add: pmemfile_read_def pmemfile_readv_def pmemfile_readv_under_filelock_def visited_iov_def ca)
      (simp add: reading_file_def add64_def W64_def SSIZE_MAX_def)
  moreover have "vinode_content (sample_vinode [0, 2]) (sample_ptrs [0, 2]) 32768 = 2"
    "vinode_content (sample_vinode [0, 2]) (sample_ptrs [0, 2]) 49151 = 2"
    by (rule c; simp)+
  ultimately show ?thesis
    by (intro conjI w)
qed

end
