(* ===== verification/Write.thy ===== *)
theory Write
  imports Read
begin

text \<open>
  Writing (\<^verbatim>\<open>write.c\<close>). Buffers hold at least as many bytes as their length says. The two readings of
  the clock are arguments. The check of allocated intervals that only debug builds make, and the
  assertions about it, are left out.
\<close>

section \<open>Definitions\<close>

definition vinode_write :: "pfile \<Rightarrow> nat \<Rightarrow> bptr option \<Rightarrow> byte list \<Rightarrow> (pfile \<times> bptr option) option" where
  "vinode_write v offset last_block buf =
     (case find_closest_block_with_hint v offset last_block of
        None \<Rightarrow> None
      | Some block \<Rightarrow>
          (case iterate_on_file_range v block offset (length buf) buf write_to_blocks of
             None \<Rightarrow> None
           | Some (block1, v1, _) \<Rightarrow> Some (v1, if block1 \<noteq> None then block1 else last_block)))"

definition pmemfile_pwritev_args_check :: "pmemfile_file \<Rightarrow> vinode \<Rightarrow> iovec list option \<Rightarrow> int \<Rightarrow> errno" where
  "pmemfile_pwritev_args_check f w iov iovcnt =
     (if \<not> vinode_is_regular_file w then EINVAL
      else if f_flags f AND PFILE_WRITE = 0 then EBADF
      else
        (case iov of
           None \<Rightarrow> (if iovcnt > 0 then EFAULT else 0)
         | Some xs \<Rightarrow> (if \<exists>io \<in> set (take (nat iovcnt) xs). iov_base io = None then EFAULT else 0)))"

text \<open>The error number and the vinode after the transaction.\<close>

definition pmemfile_allocate_space ::
  "block_conf \<Rightarrow> store \<Rightarrow> bool \<Rightarrow> vinode \<Rightarrow> nat \<Rightarrow> nat \<Rightarrow> (errno \<times> vinode) option" where
  "pmemfile_allocate_space c st over w offset len =
     (let w1 = vinode_snapshot w; i = vi_inode w1 in
      case vinode_allocate_interval c st over (inode_get_size i) (vdata w1) offset len of
        None \<Rightarrow> None
      | Some (Inl e) \<Rightarrow> Some (if e = ENOMEM then ENOSPC else e, vinode_restore_on_abort w1)
      | Some (Inr (space, v)) \<Rightarrow>
          Some (0, w1\<lparr>vdata := v,
                     vi_inode := inode_tx_set_allocated_space (add64 (inode_get_allocated_space i) space) i\<rparr>))"

text \<open>The first loop over the buffers computes how many bytes will be written.\<close>

fun sum_iov_len :: "nat \<Rightarrow> nat \<Rightarrow> iovec list \<Rightarrow> nat" where
  "sum_iov_len offset sum_len [] = sum_len"
| "sum_iov_len offset sum_len (io # iov) =
     (let len1 = (if SSIZE_MAX < iov_len io then SSIZE_MAX else iov_len io);
          len2 = (if SSIZE_MAX < add64 sum_len len1 then SSIZE_MAX - sum_len else len1);
          len = (if add64 (add64 offset sum_len) len2 < offset then sub64 (sub64 UINT64_MAX offset) sum_len else len2)
      in if len \<noteq> iov_len io then add64 sum_len len else sum_iov_len offset (add64 sum_len len) iov)"

definition write_len :: "nat \<Rightarrow> nat \<Rightarrow> nat \<Rightarrow> nat" where
  "write_len offset r len0 =
     (let len1 = (if SSIZE_MAX < len0 then SSIZE_MAX else len0);
          len2 = (if SSIZE_MAX < add64 r len1 then SSIZE_MAX - r else len1)
      in if add64 offset len2 < offset then UINT64_MAX - offset else len2)"

text \<open>
  The second loop writes them. A buffer shorter than its length is read out of bounds. The result has
  the number of bytes, the end offset, the blocks and the last block used.
\<close>

fun write_iov ::
  "pfile \<Rightarrow> bptr option \<Rightarrow> nat \<Rightarrow> nat \<Rightarrow> iovec list \<Rightarrow> (nat \<times> nat \<times> pfile \<times> bptr option) option" where
  "write_iov v last_block offset r [] = Some (r, offset, v, last_block)"
| "write_iov v last_block offset r (io # iov) =
     (let len = write_len offset r (iov_len io) in
      case iov_base io of
           None \<Rightarrow> None
         | Some bs \<Rightarrow>
             if length bs < len then None
             else
               (case (if len > 0 then vinode_write v offset last_block (take len bs) else Some (v, last_block)) of
                  None \<Rightarrow> None
                | Some (v1, last_block1) \<Rightarrow>
                    if len \<noteq> iov_len io then Some (add64 r len, add64 offset len, v1, last_block1)
                    else write_iov v1 last_block1 (add64 offset len) (add64 r len) iov))"

text \<open>
  The modification time is set before the data is written, through the unused slot. When the data is
  written, the time, the size and the access time are set, with one store to the slot numbers.
\<close>

definition start_write :: "pmemfile_time \<Rightarrow> inode \<Rightarrow> inode" where
  "start_write tm i =
     (let mtime_slot = inode_next_mtime_slot i in
      i\<lparr>i_mtime := (i_mtime i)(mtime_slot := tm), slots := (slots i)\<lparr>sl_mtime := mtime_slot\<rparr>\<rparr>)"

definition finish_write :: "pmemfile_time \<Rightarrow> pmemfile_time \<Rightarrow> nat \<Rightarrow> vinode \<Rightarrow> vinode" where
  "finish_write starttm tm offset w =
     (let i = vi_inode w;
          tm_diff = (sec tm - sec starttm) * 1000000000 + nsec tm - nsec starttm;
          update_size = offset > inode_get_size i;
          update_mtime = (tm_diff \<ge> 1000000 \<or> update_size);
          update_atime = (atime_dirty w \<and> (update_mtime \<or> update_size));
          mtime_slot = (if update_mtime then inode_next_mtime_slot i else sl_mtime (slots i));
          atime_slot = (if update_atime then inode_next_atime_slot i else sl_atime (slots i));
          size_slot = (if update_size then inode_next_size_slot i else sl_size (slots i));
          ctime_slot = (if update_size then inode_next_ctime_slot i else sl_ctime (slots i));
          i1 = (if update_mtime then i\<lparr>i_mtime := (i_mtime i)(mtime_slot := tm)\<rparr> else i);
          i2 = (if update_atime then i1\<lparr>i_atime := (i_atime i1)(atime_slot := vi_atime w)\<rparr> else i1);
          i3 = (if update_size
                then i2\<lparr>i_size := (i_size i2)(size_slot := offset), i_ctime := (i_ctime i2)(ctime_slot := tm)\<rparr>
                else i2);
          i4 = (if update_mtime \<or> update_size \<or> update_atime
                then i3\<lparr>slots := (slots i3)\<lparr>sl_atime := atime_slot, sl_ctime := ctime_slot,
                       sl_size := size_slot, sl_mtime := mtime_slot\<rparr>\<rparr>
                else i3)
      in w\<lparr>vi_inode := i4, atime_dirty := (if update_atime then False else atime_dirty w)\<rparr>)"

definition pmemfile_pwritev_internal ::
  "block_conf \<Rightarrow> store \<Rightarrow> bool \<Rightarrow> pmemfile_time \<Rightarrow> pmemfile_time \<Rightarrow> vinode \<Rightarrow> bptr option \<Rightarrow> nat \<Rightarrow> nat \<Rightarrow> iovec list
    \<Rightarrow> ((errno + nat) \<times> vinode \<times> bptr option) option" where
  "pmemfile_pwritev_internal c st over tm1 tm2 w last_block file_flags offset0 iov =
     (case (if blocks (vdata w) = None then vinode_rebuild_block_tree (vdata w) else Some (0, vdata w)) of
        None \<Rightarrow> None
      | Some (err, v0) \<Rightarrow>
          let w0 = w\<lparr>vdata := v0\<rparr> in
          if err \<noteq> 0 then Some (Inl err, w0, last_block)
          else
            let offset = (if file_flags AND PFILE_APPEND \<noteq> 0 then inode_get_size (vi_inode w0) else offset0);
                sum_len = sum_iov_len offset 0 iov
            in if sum_len = 0 then Some (Inr 0, w0, last_block)
               else
                 (case vinode_is_interval_allocated v0 offset sum_len last_block of
                    None \<Rightarrow> None
                  | Some allocated \<Rightarrow>
                      (case (if allocated then Some (0, w0) else pmemfile_allocate_space c st over w0 offset sum_len) of
                         None \<Rightarrow> None
                       | Some (err1, w1) \<Rightarrow>
                           if err1 \<noteq> 0 then Some (Inl err1, w1, last_block)
                           else
                             (case write_iov (vdata w1) last_block offset 0 iov of
                                None \<Rightarrow> None
                              | Some (r, end_offset, v2, last_block1) \<Rightarrow>
                                  Some (Inr r,
                                    finish_write tm1 tm2 end_offset
                                      (w1\<lparr>vdata := v2, vi_inode := start_write tm1 (vi_inode w1)\<rparr>),
                                    last_block1)))))"

definition pmemfile_writev_under_filelock ::
  "block_conf \<Rightarrow> store \<Rightarrow> bool \<Rightarrow> pmemfile_time \<Rightarrow> pmemfile_time \<Rightarrow> pmemfile_file \<Rightarrow> vinode \<Rightarrow> iovec list option \<Rightarrow> int
    \<Rightarrow> ((errno + nat) \<times> pmemfile_file \<times> vinode) option" where
  "pmemfile_writev_under_filelock c st over tm1 tm2 f w iov iovcnt =
     (let err = pmemfile_pwritev_args_check f w iov iovcnt in
      if err \<noteq> 0 then Some (Inl err, f, w)
      else if iovcnt = 0 then Some (Inr 0, f, w)
      else
        let f1 = refresh_cache (vdata w) f in
        case pmemfile_pwritev_internal c st over tm1 tm2 w (block_pointer_cache f1) (f_flags f1) (f_offset f1)
               (visited_iov iov iovcnt) of
          None \<Rightarrow> None
        | Some (Inl e, w1, _) \<Rightarrow> Some (Inl e, advance_file f1 0 None, w1)
        | Some (Inr r, w1, last_block) \<Rightarrow> Some (Inr r, advance_file f1 r last_block, w1))"

definition pmemfile_writev ::
  "block_conf \<Rightarrow> store \<Rightarrow> bool \<Rightarrow> pmemfile_time \<Rightarrow> pmemfile_time \<Rightarrow> bool \<Rightarrow> pmemfile_file option \<Rightarrow> vinode
    \<Rightarrow> iovec list option \<Rightarrow> int \<Rightarrow> ((errno + nat) \<times> pmemfile_file option \<times> vinode) option" where
  "pmemfile_writev c st over tm1 tm2 pfp f w iov iovcnt =
     (if \<not> pfp then Some (Inl EFAULT, f, w)
      else
        (case f of
           None \<Rightarrow> Some (Inl EFAULT, f, w)
         | Some g \<Rightarrow>
             map_option (\<lambda>(r, g', w'). (r, Some g', w'))
               (pmemfile_writev_under_filelock c st over tm1 tm2 g w iov iovcnt)))"

definition pmemfile_write ::
  "block_conf \<Rightarrow> store \<Rightarrow> bool \<Rightarrow> pmemfile_time \<Rightarrow> pmemfile_time \<Rightarrow> bool \<Rightarrow> pmemfile_file option \<Rightarrow> vinode
    \<Rightarrow> byte list option \<Rightarrow> nat \<Rightarrow> ((errno + nat) \<times> pmemfile_file option \<times> vinode) option" where
  "pmemfile_write c st over tm1 tm2 pfp f w buf count =
     pmemfile_writev c st over tm1 tm2 pfp f w (Some [\<lparr>iov_base = buf, iov_len = count\<rparr>]) 1"

definition pmemfile_pwritev ::
  "block_conf \<Rightarrow> store \<Rightarrow> bool \<Rightarrow> pmemfile_time \<Rightarrow> pmemfile_time \<Rightarrow> bool \<Rightarrow> pmemfile_file option \<Rightarrow> vinode
    \<Rightarrow> iovec list option \<Rightarrow> int \<Rightarrow> int \<Rightarrow> ((errno + nat) \<times> vinode) option" where
  "pmemfile_pwritev c st over tm1 tm2 pfp f w iov iovcnt offset =
     (if \<not> pfp then Some (Inl EFAULT, w)
      else
        (case f of
           None \<Rightarrow> Some (Inl EFAULT, w)
         | Some g \<Rightarrow>
             if offset < 0 then Some (Inl EINVAL, w)
             else
               let err = pmemfile_pwritev_args_check g w iov iovcnt in
               if err \<noteq> 0 then Some (Inl err, w)
               else if iovcnt = 0 then Some (Inr 0, w)
               else
                 let last_block = (if invalidation_observed g \<noteq> invalidations (vdata w) then None
                                   else block_pointer_cache g)
                 in map_option (\<lambda>(r, w1, _). (r, w1))
                      (pmemfile_pwritev_internal c st over tm1 tm2 w last_block (f_flags g) (nat offset)
                        (visited_iov iov iovcnt))))"

definition pmemfile_pwrite ::
  "block_conf \<Rightarrow> store \<Rightarrow> bool \<Rightarrow> pmemfile_time \<Rightarrow> pmemfile_time \<Rightarrow> bool \<Rightarrow> pmemfile_file option \<Rightarrow> vinode
    \<Rightarrow> byte list option \<Rightarrow> nat \<Rightarrow> int \<Rightarrow> ((errno + nat) \<times> vinode) option" where
  "pmemfile_pwrite c st over tm1 tm2 pfp f w buf count offset =
     pmemfile_pwritev c st over tm1 tm2 pfp f w (Some [\<lparr>iov_base = buf, iov_len = count\<rparr>]) 1 offset"

section \<open>The inode after a write\<close>

lemma start_write_get:
  "inode_get_size (start_write tm i) = inode_get_size i"
  "inode_get_allocated_space (start_write tm i) = inode_get_allocated_space i"
  "inode_get_flags (start_write tm i) = inode_get_flags i"
  "inode_get_mtime (start_write tm i) = tm"
  by (simp_all add: start_write_def inode_get_defs Let_def)

lemma finish_write_get:
  "inode_get_size (vi_inode (finish_write t1 t2 x w)) = max x (inode_get_size (vi_inode w))"
  "inode_get_allocated_space (vi_inode (finish_write t1 t2 x w)) = inode_get_allocated_space (vi_inode w)"
  "inode_get_flags (vi_inode (finish_write t1 t2 x w)) = inode_get_flags (vi_inode w)"
  "vdata (finish_write t1 t2 x w) = vdata w"
  by (auto simp: finish_write_def inode_get_defs Let_def inode_next_size_slot_def max_def)

lemma finish_write_mtime:
  assumes "inode_get_size (vi_inode w) < x"
  shows "inode_get_mtime (vi_inode (finish_write t1 t2 x w)) = t2"
    and "inode_get_ctime (vi_inode (finish_write t1 t2 x w)) = t2"
  using assms by (simp_all add: finish_write_def inode_get_defs Let_def)

section \<open>The bytes written\<close>

text \<open>The bytes of the buffers in order, and a content in which they replace those from an offset on.\<close>

definition iov_bytes :: "iovec list \<Rightarrow> byte list" where
  "iov_bytes iov = concat (map (\<lambda>io. take (iov_len io) (the (iov_base io))) iov)"

definition iov_ok :: "iovec \<Rightarrow> bool" where
  "iov_ok io \<longleftrightarrow> (case iov_base io of None \<Rightarrow> False | Some bs \<Rightarrow> iov_len io \<le> length bs)"

definition patched :: "nat \<Rightarrow> byte list \<Rightarrow> (nat \<Rightarrow> byte) \<Rightarrow> nat \<Rightarrow> byte" where
  "patched offset bs g = (\<lambda>x. if offset \<le> x \<and> x < offset + length bs then bs ! (x - offset) else g x)"

lemma patched_append: "patched (offset + length as) bs (patched offset as g) = patched offset (as @ bs) g"
  by (auto simp: patched_def fun_eq_iff nth_append)

lemma iov_bytes_length: "\<forall>io \<in> set iov. iov_ok io \<Longrightarrow> length (iov_bytes iov) = iov_total iov"
  by (induction iov) (auto simp: iov_bytes_def iov_total_def iov_ok_def split: option.splits)

lemma iov_total_Cons [simp]: "iov_total (io # iov) = iov_len io + iov_total iov"
  by (simp add: iov_total_def)

lemma iov_bytes_Cons [simp]: "iov_bytes (io # iov) = take (iov_len io) (the (iov_base io)) @ iov_bytes iov"
  by (simp add: iov_bytes_def)

lemma sum_iov_len_ok:
  assumes "s + iov_total iov \<le> SSIZE_MAX" and "offset + s + iov_total iov < W64"
  shows "sum_iov_len offset s iov = s + iov_total iov"
  using assms
proof (induction iov arbitrary: s)
  case (Cons io iov)
  have a: "add64 s (iov_len io) = s + iov_len io" "add64 (add64 offset s) (iov_len io) = offset + s + iov_len io"
    using Cons.prems by (simp_all add: add64_exact)
  have "sum_iov_len offset s (io # iov) = sum_iov_len offset (s + iov_len io) iov"
    using Cons.prems a by (simp add: Let_def)
  then show ?case
    using Cons.IH [of "s + iov_len io"] Cons.prems by simp
qed (simp add: iov_total_def)

lemma write_len_exact: "r + n \<le> SSIZE_MAX \<Longrightarrow> offset + n < W64 \<Longrightarrow> write_len offset r n = n"
  by (simp add: write_len_def add64_exact SSIZE_MAX_def W64_def)

lemma patched_Nil [simp]: "patched offset [] g = g"
  by (auto simp: patched_def fun_eq_iff)

lemma vinode_write_ok:
  assumes f: "file_ok A v ps" and al: "MIN_BLOCK_SIZE dvd A" and b: "offset + length buf < W64" "0 < length buf"
    and h: "\<And>p. hint = Some p \<Longrightarrow> p \<in> set ps"
    and cov: "\<And>x. offset \<le> x \<Longrightarrow> x < offset + length buf \<Longrightarrow> \<exists>p \<in> set ps. in_block (descs v p) x"
  obtains w lb where "vinode_write v offset hint buf = Some (w, lb)" and "file_ok A w ps" and "same_shape w v"
    and "content (datas w) (exts w ps) = patched offset buf (content (datas v) (exts v ps))"
    and "\<And>p. lb = Some p \<Longrightarrow> p \<in> set ps"
proof -
  have ob: "offset < W64"
    using b by simp
  obtain ys zs where ps: "ps = ys @ zs" "find_closest_block_with_hint v offset hint = Some (last_or ys None)"
    "\<And>y. y \<in> set ys \<Longrightarrow> bd_offset (descs v y) \<le> offset" "\<And>z. z \<in> set zs \<Longrightarrow> offset < bd_offset (descs v z)"
    by (rule hinted_split [OF f al ob h]) (assumption, rule that)
  obtain p where p: "p \<in> set ys" "in_block (descs v p) offset"
  proof -
    obtain p where "p \<in> set ps" "in_block (descs v p) offset"
      using cov [of offset] b(2) by auto
    moreover from this have "p \<notin> set zs"
      using ps(4) [of p] by (auto simp: in_block_def)
    ultimately show thesis
      using that ps(1) by auto
  qed
  have "ys \<noteq> [] \<and> in_block (descs v (last ys)) offset"
    using blocks_end_before [OF f [unfolded ps(1)] ps(3), of p] p by (auto simp: in_block_def)
  then obtain ys' l where ys: "ys = ys' @ [l]" "in_block (descs v l) offset"
    by (cases ys rule: rev_cases) auto
  have f': "file_ok A v (ys' @ l # zs)" and e: "ps = ys' @ l # zs"
    using f ps(1) ys(1) by simp_all
  have before: "bd_offset (descs v y) + bd_size (descs v y) \<le> offset" if "y \<in> set ys'" for y
    using file_ok_order(1) [OF f' that] ys(2) by (simp add: in_block_def)
  have cov': "\<exists>p \<in> set (l # zs). in_block (descs v p) x" if x: "offset \<le> x" "x < offset + length buf" for x
  proof -
    obtain q where "q \<in> set ps" "in_block (descs v q) x"
      using cov [OF x] by blast
    moreover from this have "q \<notin> set ys'"
      using before [of q] x(1) by (auto simp: in_block_def)
    ultimately show ?thesis
      using e by auto
  qed
  obtain lb w where w: "iterate_loop write_to_blocks v (Some l) (Some l) offset (length buf) buf [] = Some (lb, w, [])"
    "file_ok A w ps" "same_shape w v" "lb = Some l \<or> lb \<in> Some ` set ps"
    "\<And>x. content (datas w) (exts w ps) x =
      (if offset \<le> x \<and> x < offset + length buf then buf ! (x - offset) else content (datas v) (exts v ps) x)"
    using iterate_write_from [OF f' b(1) refl cov' before, of "Some l" "[]"] ys(2) unfolding e by auto
  have "vinode_write v offset hint buf = Some (w, if lb \<noteq> None then lb else hint)"
    using ps(2) w(1) ys(1) by (simp add: vinode_write_def iterate_on_file_range_def)
  moreover have "content (datas w) (exts w ps) = patched offset buf (content (datas v) (exts v ps))"
    using w(5) by (simp add: patched_def fun_eq_iff)
  moreover have "p \<in> set ps" if "(if lb \<noteq> None then lb else hint) = Some p" for p
    using that w(4) e h by (auto split: if_splits)
  ultimately show thesis
    using w(2,3) by (intro that)
qed

lemma write_iov_ok:
  assumes "file_ok A v ps" and al: "MIN_BLOCK_SIZE dvd A" and "offset + iov_total iov < W64"
    and "r + iov_total iov \<le> SSIZE_MAX" and "\<forall>io \<in> set iov. iov_ok io" and "\<And>p. hint = Some p \<Longrightarrow> p \<in> set ps"
    and "\<And>x. offset \<le> x \<Longrightarrow> x < offset + iov_total iov \<Longrightarrow> \<exists>p \<in> set ps. in_block (descs v p) x"
  shows "\<exists>w lb. write_iov v hint offset r iov = Some (r + iov_total iov, offset + iov_total iov, w, lb) \<and>
    file_ok A w ps \<and> same_shape w v \<and> (\<forall>p. lb = Some p \<longrightarrow> p \<in> set ps) \<and>
    content (datas w) (exts w ps) = patched offset (iov_bytes iov) (content (datas v) (exts v ps))"
  using assms(1,3-)
proof (induction iov arbitrary: v hint offset r)
  case Nil
  then show ?case
    by (simp add: iov_total_def iov_bytes_def)
next
  case (Cons io iov)
  let ?n = "iov_len io"
  obtain bs where bs: "iov_base io = Some bs" "?n \<le> length bs"
    using Cons.prems(4) by (auto simp: iov_ok_def split: option.splits)
  have a: "add64 r ?n = r + ?n" "add64 offset ?n = offset + ?n"
    using Cons.prems(2,3) by (simp_all add: add64_exact SSIZE_MAX_def W64_def)
  have len: "write_len offset r ?n = ?n"
    using Cons.prems(2,3) by (intro write_len_exact) simp_all
  obtain v1 lb1 where w1: "(if ?n > 0 then vinode_write v offset hint (take ?n bs) else Some (v, hint)) = Some (v1, lb1)"
    "file_ok A v1 ps" "same_shape v1 v" "\<And>p. lb1 = Some p \<Longrightarrow> p \<in> set ps"
    "content (datas v1) (exts v1 ps) = patched offset (take ?n bs) (content (datas v) (exts v ps))"
  proof (cases "?n > 0")
    case True
    have l: "length (take ?n bs) = ?n"
      using bs(2) by simp
    have b: "offset + length (take ?n bs) < W64" "0 < length (take ?n bs)"
      using Cons.prems(2) True l by simp_all
    have cov: "\<exists>p \<in> set ps. in_block (descs v p) x" if "offset \<le> x" "x < offset + length (take ?n bs)" for x
      using Cons.prems(6) [of x] that l by simp
    obtain w lb where "vinode_write v offset hint (take ?n bs) = Some (w, lb)" "file_ok A w ps" "same_shape w v"
      "content (datas w) (exts w ps) = patched offset (take ?n bs) (content (datas v) (exts v ps))"
      "\<And>p. lb = Some p \<Longrightarrow> p \<in> set ps"
      by (rule vinode_write_ok [OF Cons.prems(1) al b Cons.prems(5) cov]) (assumption+, rule that)
    then show thesis
      using True by (intro that [of w lb]) simp_all
  next
    case False
    then show thesis
      using Cons.prems(1,5) by (intro that [of v hint]) simp_all
  qed
  have sh: "\<And>p. bd_offset (descs v1 p) = bd_offset (descs v p)" "\<And>p. bd_size (descs v1 p) = bd_size (descs v p)"
    using same_shape_descs [OF w1(3)] by auto
  have "\<exists>p \<in> set ps. in_block (descs v1 p) x" if "offset + ?n \<le> x" "x < offset + ?n + iov_total iov" for x
    using Cons.prems(6) [of x] that by (simp add: in_block_def sh)
  moreover have "offset + ?n + iov_total iov < W64" "r + ?n + iov_total iov \<le> SSIZE_MAX" "\<forall>io \<in> set iov. iov_ok io"
    using Cons.prems(2,3,4) by simp_all
  ultimately obtain w lb where w: "write_iov v1 lb1 (offset + ?n) (r + ?n) iov =
      Some (r + ?n + iov_total iov, offset + ?n + iov_total iov, w, lb)" "file_ok A w ps" "same_shape w v1"
    "\<forall>p. lb = Some p \<longrightarrow> p \<in> set ps"
    "content (datas w) (exts w ps) = patched (offset + ?n) (iov_bytes iov) (content (datas v1) (exts v1 ps))"
    using Cons.IH [OF w1(2) _ _ _ w1(4)] by blast
  have "write_iov v hint offset r (io # iov) =
      Some (r + iov_total (io # iov), offset + iov_total (io # iov), w, lb)"
    using w1(1) w(1) bs a len by (simp only: write_iov.simps Let_def option.case prod.case) (simp add: add.assoc)
  moreover have "content (datas w) (exts w ps) = patched offset (iov_bytes (io # iov)) (content (datas v) (exts v ps))"
    using w(5) w1(5) patched_append [of offset "take ?n bs" "iov_bytes iov"] bs by (simp add: min_absorb2)
  moreover have "same_shape w v"
    by (rule same_shape_trans [OF w(3) w1(3)])
  ultimately show ?case
    using w(2,4) by blast
qed

section \<open>Allocation and the whole write\<close>

text \<open>A vinode in which the blocks and the allocated space changed together.\<close>

lemma vinode_ok_data:
  assumes "vinode_ok A w ps" and "file_ok A v qs" and "vinode_is_regular_file w'" and "vdata w' = v"
    and "inode_get_allocated_space (vi_inode w') = space_of (exts v qs)"
    and "inode_get_size (vi_inode w') \<le> 2 ^ 63"
    and "\<And>x. inode_get_size (vi_inode w') \<le> x \<Longrightarrow> content (datas v) (exts v qs) x = 0"
  shows "vinode_ok A w' qs"
  using assms by (simp add: vinode_ok_def vinode_content_def)

lemma snapshot_ok:
  "vinode_ok A (vinode_snapshot w) ps = vinode_ok A w ps" "vinode_content (vinode_snapshot w) ps = vinode_content w ps"
  "vdata (vinode_snapshot w) = vdata w" "vi_inode (vinode_snapshot w) = vi_inode w"
  "snap_first_free (vinode_snapshot w) = first_free (vdata w)"
  by (simp_all add: vinode_snapshot_def vinode_ok_def vinode_content_def vinode_is_regular_file_def)

lemma restore_snapshot_ok:
  assumes "vinode_ok A w ps"
  shows "vinode_ok A (vinode_restore_on_abort (vinode_snapshot w)) ps"
    and "vinode_content (vinode_restore_on_abort (vinode_snapshot w)) ps = vinode_content w ps"
    and "vi_inode (vinode_restore_on_abort (vinode_snapshot w)) = vi_inode w"
    and "invalidations (vdata (vinode_restore_on_abort (vinode_snapshot w))) = invalidations (vdata w)"
proof -
  have s: "vinode_ok A (vinode_snapshot w) ps" "snap_first_free (vinode_snapshot w) = first_free (vdata (vinode_snapshot w))"
    using assms by (simp_all add: snapshot_ok)
  have e: "(vinode_snapshot w)\<lparr>vdata := (vdata (vinode_snapshot w))\<lparr>invalidations := invalidations (vdata w)\<rparr>\<rparr> = vinode_snapshot w"
    by (simp add: vinode_snapshot_def)
  show "vinode_ok A (vinode_restore_on_abort (vinode_snapshot w)) ps"
    "vinode_content (vinode_restore_on_abort (vinode_snapshot w)) ps = vinode_content w ps"
    using restore_on_abort_ok [OF s, of "invalidations (vdata w)"] unfolding e by (simp_all add: snapshot_ok(2))
  show "vi_inode (vinode_restore_on_abort (vinode_snapshot w)) = vi_inode w"
    "invalidations (vdata (vinode_restore_on_abort (vinode_snapshot w))) = invalidations (vdata w)"
    by (simp_all add: vinode_restore_on_abort_def vinode_snapshot_def)
qed

lemma allocate_space_ok:
  assumes w: "vinode_ok A w ps" and f: "file_ok A (vdata w) ps" and c: "conf_ok c A" and st: "store_ok st"
    and n: "0 < n" and b: "offset + n \<le> 2 ^ 63" and hole: "first_hole_ok A (vdata w) ps offset"
  shows "(\<exists>e w'. pmemfile_allocate_space c st over w offset n = Some (if e = ENOMEM then ENOSPC else e, w') \<and>
      store_fails st e \<and> vinode_ok A w' ps \<and> vinode_content w' ps = vinode_content w ps \<and> vi_inode w' = vi_inode w \<and>
      invalidations (vdata w') = invalidations (vdata w)) \<or>
    (\<exists>w' ps'. pmemfile_allocate_space c st over w offset n = Some (0, w') \<and> vinode_ok A w' ps' \<and>
      file_ok A (vdata w') ps' \<and> vinode_content w' ps' = vinode_content w ps \<and>
      inode_get_size (vi_inode w') = inode_get_size (vi_inode w) \<and>
      invalidations (vdata w') = invalidations (vdata w) \<and> set ps \<subseteq> set ps' \<and>
      (\<forall>x. offset \<le> x \<and> x < offset + n \<longrightarrow> (\<exists>p \<in> set ps'. in_block (descs (vdata w') p) x)))"
  using alloc_post_allocated [OF allocate_interval_ok [OF f c st n b hole, of over "inode_get_size (vi_inode w)"] f]
proof (elim disjE exE conjE)
  fix e
  assume e: "vinode_allocate_interval c st over (inode_get_size (vi_inode w)) (vdata w) offset n = tx_fail e" "store_fails st e"
  then have "pmemfile_allocate_space c st over w offset n =
      Some (if e = ENOMEM then ENOSPC else e, vinode_restore_on_abort (vinode_snapshot w))"
    by (simp add: pmemfile_allocate_space_def snapshot_ok Let_def)
  then show ?thesis
    using e(2) restore_snapshot_ok [OF w] by blast
next
  fix space v' ps'
  assume a: "vinode_allocate_interval c st over (inode_get_size (vi_inode w)) (vdata w) offset n = tx_ret (space, v')"
    "file_ok A v' ps'" "\<forall>x. offset \<le> x \<and> x < offset + n \<longrightarrow> (\<exists>p \<in> set ps'. in_block (descs v' p) x)"
    "content (datas v') (exts v' ps') = content (datas (vdata w)) (exts (vdata w) ps)"
    "space_of (exts v' ps') = space_of (exts (vdata w) ps) + space" "invalidations v' = invalidations (vdata w)"
    "set ps \<subseteq> set ps'"
  define i where "i = inode_tx_set_allocated_space (add64 (inode_get_allocated_space (vi_inode w)) space) (vi_inode w)"
  define w' where "w' = (vinode_snapshot w)\<lparr>vdata := v', vi_inode := i\<rparr>"
  have "space_of (exts v' ps') < W64"
    using a(2) by (auto simp: file_ok_def intro: space_of_bound)
  then have sp: "inode_get_allocated_space i = space_of (exts v' ps')"
    using w a(5) by (simp add: i_def inode_simps vinode_ok_def add64_exact)
  have i: "inode_get_size i = inode_get_size (vi_inode w)" "inode_is_regular_file i = inode_is_regular_file (vi_inode w)"
    by (simp_all add: i_def inode_simps inode_is_regular_file_def)
  have "vinode_ok A w' ps'"
    by (rule vinode_ok_data [OF w a(2)])
      (use w sp i a(4) in \<open>auto simp: w'_def vinode_ok_def vinode_is_regular_file_def vinode_content_def\<close>)
  moreover have "pmemfile_allocate_space c st over w offset n = Some (0, w')"
    using a(1) by (simp add: pmemfile_allocate_space_def snapshot_ok Let_def w'_def i_def)
  ultimately show ?thesis
    using a i by (intro disjI2 exI [of _ w'] exI [of _ ps']) (simp add: w'_def vinode_content_def)
qed

text \<open>The end of a write: the data is there and the inode is updated.\<close>

lemma finish_write_ok:
  fixes t1 t2 :: pmemfile_time
  assumes w: "vinode_ok A w ps" and v: "file_ok A v ps" "same_shape v (vdata w)"
    and c: "content (datas v) (exts v ps) = patched offset bs (vinode_content w ps)"
    and b: "offset + length bs \<le> 2 ^ 63"
  defines "w' \<equiv> finish_write t1 t2 (offset + length bs) (w\<lparr>vdata := v, vi_inode := start_write t1 (vi_inode w)\<rparr>)"
  shows "vinode_ok A w' ps" and "vinode_content w' ps = patched offset bs (vinode_content w ps)"
    and "inode_get_size (vi_inode w') = max (offset + length bs) (inode_get_size (vi_inode w))"
    and "invalidations (vdata w') = invalidations (vdata w)"
proof -
  have d: "vdata w' = v"
    by (simp add: w'_def finish_write_get)
  show sz: "inode_get_size (vi_inode w') = max (offset + length bs) (inode_get_size (vi_inode w))"
    by (simp add: w'_def finish_write_get start_write_get)
  show ct: "vinode_content w' ps = patched offset bs (vinode_content w ps)"
    using c d by (simp add: vinode_content_def)
  show "invalidations (vdata w') = invalidations (vdata w)"
    using v(2) d by (simp add: same_shape_def)
  show "vinode_ok A w' ps"
  proof (rule vinode_ok_data [OF w v(1) _ d])
    show "vinode_is_regular_file w'"
      using w by (simp add: w'_def vinode_ok_def vinode_is_regular_file_def inode_is_regular_file_def
          finish_write_get start_write_get)
    show "inode_get_allocated_space (vi_inode w') = space_of (exts v ps)"
      using w same_shape_space [OF v(2)] by (simp add: w'_def finish_write_get start_write_get vinode_ok_def)
    show "inode_get_size (vi_inode w') \<le> 2 ^ 63"
      using w b sz by (simp add: vinode_ok_def)
    show "content (datas v) (exts v ps) x = 0" if "inode_get_size (vi_inode w') \<le> x" for x
      using that w c sz by (simp add: patched_def vinode_ok_def)
  qed
qed

lemma first_hole_ok_cong:
  "descs v = descs w \<Longrightarrow> first_hole_ok A v ps x = first_hole_ok A w ps x"
  by (simp add: first_hole_ok_def split: list.splits)

definition write_post ::
  "nat \<Rightarrow> store \<Rightarrow> vinode \<Rightarrow> bptr list \<Rightarrow> nat \<Rightarrow> byte list \<Rightarrow> errno + nat \<Rightarrow> vinode \<Rightarrow> bptr option \<Rightarrow> bool" where
  "write_post A st w ps offset bs r w' lb \<longleftrightarrow>
     invalidations (vdata w') = invalidations (vdata w) \<and>
     ((\<exists>e. r = Inl (if e = ENOMEM then ENOSPC else e) \<and> store_fails st e \<and> vinode_ok A w' ps \<and>
         vinode_content w' ps = vinode_content w ps \<and> vi_inode w' = vi_inode w) \<or>
      (\<exists>ps'. r = Inr (length bs) \<and> vinode_ok A w' ps' \<and> set ps \<subseteq> set ps' \<and> (\<forall>p. lb = Some p \<longrightarrow> p \<in> set ps') \<and>
         vinode_content w' ps' = patched offset bs (vinode_content w ps) \<and>
         inode_get_size (vi_inode w') = max (offset + length bs) (inode_get_size (vi_inode w)) \<and>
         (\<forall>x. offset \<le> x \<and> x < offset + length bs \<longrightarrow> (\<exists>p \<in> set ps'. in_block (descs (vdata w') p) x))))"

lemma pwritev_internal_ok:
  assumes w: "vinode_ok A w ps" and c: "conf_ok c A" and st: "store_ok st" "\<not> store_fails st 0"
    and h: "\<And>p. hint = Some p \<Longrightarrow> p \<in> set ps" and iov: "\<forall>io \<in> set iov. iov_ok io" "0 < iov_total iov"
    and off: "offset = (if fl AND PFILE_APPEND \<noteq> 0 then inode_get_size (vi_inode w) else offset0)"
    and b: "offset + iov_total iov \<le> SSIZE_MAX" and hole: "first_hole_ok A (vdata w) ps offset"
  shows "\<exists>r w' lb. pmemfile_pwritev_internal c st over t1 t2 w hint fl offset0 iov = Some (r, w', lb) \<and>
    write_post A st w ps offset (iov_bytes iov) r w' lb \<and>
    ((\<forall>x. offset \<le> x \<and> x < offset + iov_total iov \<longrightarrow> (\<exists>p \<in> set ps. in_block (descs (vdata w) p) x)) \<longrightarrow>
       r = Inr (iov_total iov))"
proof -
  have al: "MIN_BLOCK_SIZE dvd A"
    using c by (simp add: conf_ok_def)
  obtain v where v:
    "(if blocks (vdata w) = None then vinode_rebuild_block_tree (vdata w) else Some (0, vdata w)) = Some (0, v)"
    "file_ok A v ps" "descs v = descs (vdata w)" "datas v = datas (vdata w)"
    "invalidations v = invalidations (vdata w)" "first_free v = first_free (vdata w)" "vinode_ok A (w\<lparr>vdata := v\<rparr>) ps"
    by (rule tree_ready [OF w al]) (rule that)
  define w0 where "w0 = w\<lparr>vdata := v\<rparr>"
  have w0: "vinode_ok A w0 ps" "vi_inode w0 = vi_inode w" "vinode_content w0 ps = vinode_content w ps"
    "invalidations (vdata w0) = invalidations (vdata w)" "file_ok A (vdata w0) ps" "vdata w0 = v"
    using v exts_cong [OF v(3)] by (simp_all add: w0_def vinode_content_def)
  have b': "offset + iov_total iov < W64" "0 + iov_total iov \<le> SSIZE_MAX" "offset + iov_total iov \<le> 2 ^ 63"
    using b by (simp_all add: SSIZE_MAX_def W64_def)
  have sum: "sum_iov_len offset 0 iov = iov_total iov"
    using sum_iov_len_ok [of 0 iov offset] b' by simp
  have len: "length (iov_bytes iov) = iov_total iov"
    by (rule iov_bytes_length [OF iov(1)])
  have finish: "\<exists>r w' lb. (case write_iov (vdata w1) hint offset 0 iov of None \<Rightarrow> None
        | Some (r, end_offset, v2, lb) \<Rightarrow> Some (Inr r, finish_write t1 t2 end_offset
            (w1\<lparr>vdata := v2, vi_inode := start_write t1 (vi_inode w1)\<rparr>), lb)) = Some (r, w', lb) \<and>
      write_post A st w ps offset (iov_bytes iov) r w' lb \<and> r = Inr (iov_total iov)"
    if w1: "vinode_ok A w1 ps1" "file_ok A (vdata w1) ps1" "set ps \<subseteq> set ps1"
      "vinode_content w1 ps1 = vinode_content w ps" "inode_get_size (vi_inode w1) = inode_get_size (vi_inode w)"
      "invalidations (vdata w1) = invalidations (vdata w)"
      "\<And>x. offset \<le> x \<Longrightarrow> x < offset + iov_total iov \<Longrightarrow> \<exists>p \<in> set ps1. in_block (descs (vdata w1) p) x" for w1 ps1
  proof -
    have h1: "\<And>p. hint = Some p \<Longrightarrow> p \<in> set ps1"
      using h w1(3) by blast
    obtain v2 lb where v2: "write_iov (vdata w1) hint offset 0 iov = Some (iov_total iov, offset + iov_total iov, v2, lb)"
      "file_ok A v2 ps1" "same_shape v2 (vdata w1)" "\<forall>p. lb = Some p \<longrightarrow> p \<in> set ps1"
      "content (datas v2) (exts v2 ps1) = patched offset (iov_bytes iov) (vinode_content w1 ps1)"
      using write_iov_ok [where hint = hint, OF w1(2) al b'(1,2) iov(1) h1 w1(7)] by (auto simp: vinode_content_def)
    have "offset + length (iov_bytes iov) \<le> 2 ^ 63"
      using b'(3) len by simp
    note fin = finish_write_ok [OF w1(1) v2(2,3,5) this, of t1 t2, unfolded len]
    have "write_post A st w ps offset (iov_bytes iov) (Inr (iov_total iov))
        (finish_write t1 t2 (offset + iov_total iov) (w1\<lparr>vdata := v2, vi_inode := start_write t1 (vi_inode w1)\<rparr>)) lb"
      unfolding write_post_def using fin w1 v2(4) len same_shape_in_block [OF v2(3)]
      by (intro conjI disjI2 exI [of _ ps1]) (simp_all add: finish_write_get)
    then show ?thesis
      using v2(1) by auto
  qed
  have pw: "pmemfile_pwritev_internal c st over t1 t2 w hint fl offset0 iov =
      (case vinode_is_interval_allocated v offset (iov_total iov) hint of None \<Rightarrow> None
       | Some allocated \<Rightarrow> (case (if allocated then Some (0, w0) else pmemfile_allocate_space c st over w0 offset (iov_total iov)) of
           None \<Rightarrow> None
         | Some (err1, w1) \<Rightarrow>
             if err1 \<noteq> 0 then Some (Inl err1, w1, hint)
             else (case write_iov (vdata w1) hint offset 0 iov of None \<Rightarrow> None
               | Some (r, end_offset, v2, lb) \<Rightarrow> Some (Inr r, finish_write t1 t2 end_offset
                   (w1\<lparr>vdata := v2, vi_inode := start_write t1 (vi_inode w1)\<rparr>), lb))))"
    using iov(2) by (simp only: pmemfile_pwritev_internal_def v(1) option.case prod.case Let_def w0_def [symmetric] w0(2)
        off [symmetric] sum) simp
  note ia = interval_allocated_ok [where hint = hint, OF v(2) al b'(1) iov(2) h]
  show ?thesis
  proof (cases "\<forall>x. offset \<le> x \<and> x < offset + iov_total iov \<longrightarrow> (\<exists>p \<in> set ps. in_block (descs v p) x)")
    case True
    then have ia: "vinode_is_interval_allocated v offset (iov_total iov) hint = Some True"
      using ia by simp
    have "\<And>x. offset \<le> x \<Longrightarrow> x < offset + iov_total iov \<Longrightarrow> \<exists>p \<in> set ps. in_block (descs (vdata w0) p) x"
      using True w0(6) by simp
    from finish [OF w0(1,5) subset_refl w0(3) _ w0(4) this] show ?thesis
      unfolding pw ia by (auto simp: w0(2))
  next
    case False
    then have ia: "vinode_is_interval_allocated v offset (iov_total iov) hint = Some False"
      using ia by (simp only: simp_thms)
    have hole0: "first_hole_ok A (vdata w0) ps offset"
      using hole first_hole_ok_cong [of v "vdata w"] v(3) w0(6) by simp
    from allocate_space_ok [OF w0(1,5) c st(1) iov(2) b'(3) hole0, of over] show ?thesis
    proof (elim disjE exE conjE)
      fix e w'
      assume e: "pmemfile_allocate_space c st over w0 offset (iov_total iov) = Some (if e = ENOMEM then ENOSPC else e, w')"
        "store_fails st e" "vinode_ok A w' ps" "vinode_content w' ps = vinode_content w0 ps" "vi_inode w' = vi_inode w0"
        "invalidations (vdata w') = invalidations (vdata w0)"
      then have "(if e = ENOMEM then ENOSPC else e) \<noteq> 0"
        using st(2) by (cases "e = 0") auto
      then show ?thesis
        unfolding pw ia using e w0 False v(3) by (auto simp: write_post_def)
    next
      fix w1 ps1
      assume w1: "pmemfile_allocate_space c st over w0 offset (iov_total iov) = Some (0, w1)" "vinode_ok A w1 ps1"
        "file_ok A (vdata w1) ps1" "vinode_content w1 ps1 = vinode_content w0 ps"
        "inode_get_size (vi_inode w1) = inode_get_size (vi_inode w0)"
        "invalidations (vdata w1) = invalidations (vdata w0)" "set ps \<subseteq> set ps1"
        "\<forall>x. offset \<le> x \<and> x < offset + iov_total iov \<longrightarrow> (\<exists>p \<in> set ps1. in_block (descs (vdata w1) p) x)"
      have "\<exists>r w' lb. (case write_iov (vdata w1) hint offset 0 iov of None \<Rightarrow> None
        | Some (r, end_offset, v2, lb) \<Rightarrow> Some (Inr r, finish_write t1 t2 end_offset
            (w1\<lparr>vdata := v2, vi_inode := start_write t1 (vi_inode w1)\<rparr>), lb)) = Some (r, w', lb) \<and>
        write_post A st w ps offset (iov_bytes iov) r w' lb \<and> r = Inr (iov_total iov)"
        by (rule finish [OF w1(2,3,7)]) (use w1 w0 in auto)
      then show ?thesis
        unfolding pw ia using w1(1) by auto
    qed
  qed
qed

section \<open>Properties\<close>

text \<open>
  Claim C7. A write through an open file of a regular file, opened for writing, either
  fails with the error of an allocation (\<^verbatim>\<open>ENOSPC\<close> for \<^verbatim>\<open>ENOMEM\<close>) and then leaves the content, the inode
  and the file offset as they were, or writes all bytes of the buffers in order at the offset, or at the
  end of the file when it was opened for appending. No other byte changes, the size grows to the end of
  the write if that is larger, the file offset advances by the number of bytes, and the invariant and
  the cached block pointer stay valid.
\<close>

theorem pmemfile_writev_correct:
  assumes "vinode_ok A w ps" and "conf_ok c A" and "store_ok st" and "\<not> store_fails st 0"
    and "file_cache_ok f w ps" and "f_flags f AND PFILE_WRITE \<noteq> 0" and "\<forall>io \<in> set iov. iov_ok io" and "0 < iov_total iov"
    and "offset = (if f_flags f AND PFILE_APPEND \<noteq> 0 then inode_get_size (vi_inode w) else f_offset f)"
    and "offset + iov_total iov \<le> SSIZE_MAX" and "f_offset f + iov_total iov < W64" and "first_hole_ok A (vdata w) ps offset"
  shows "\<exists>r f' w'. pmemfile_writev c st over t1 t2 True (Some f) w (Some iov) (int (length iov)) = Some (r, Some f', w') \<and>
    ((\<exists>e. r = Inl (if e = ENOMEM then ENOSPC else e) \<and> store_fails st e \<and> vinode_ok A w' ps \<and>
        vinode_content w' ps = vinode_content w ps \<and> vi_inode w' = vi_inode w \<and> f_offset f' = f_offset f) \<or>
     (\<exists>ps'. r = Inr (iov_total iov) \<and> vinode_ok A w' ps' \<and> file_cache_ok f' w' ps' \<and>
        vinode_content w' ps' = patched offset (iov_bytes iov) (vinode_content w ps) \<and>
        inode_get_size (vi_inode w') = max (offset + iov_total iov) (inode_get_size (vi_inode w)) \<and>
        f_offset f' = f_offset f + iov_total iov))"
proof -
  define f1 where "f1 = refresh_cache (vdata w) f"
  have f1: "f_offset f1 = f_offset f" "f_flags f1 = f_flags f" "invalidation_observed f1 = invalidations (vdata w)"
    "\<And>p. block_pointer_cache f1 = Some p \<Longrightarrow> p \<in> set ps"
    using refresh_cache_ok [OF assms(5) refl] by (simp_all add: f1_def)
  have len: "length (iov_bytes iov) = iov_total iov"
    by (rule iov_bytes_length [OF assms(7)])
  have ne: "iov \<noteq> []"
    using assms(8) by (auto simp: iov_total_def)
  have ac: "pmemfile_pwritev_args_check f w (Some iov) (int (length iov)) = 0"
    using assms(1,6,7) by (auto simp: pmemfile_pwritev_args_check_def vinode_ok_def iov_ok_def split: option.splits)
  obtain r w' lb where p: "pmemfile_pwritev_internal c st over t1 t2 w (block_pointer_cache f1) (f_flags f) (f_offset f) iov = Some (r, w', lb)"
    "write_post A st w ps offset (iov_bytes iov) r w' lb"
    using pwritev_internal_ok [where hint = "block_pointer_cache f1", OF assms(1-4) f1(4) assms(7-10,12), of over t1 t2] by blast
  have call: "pmemfile_writev c st over t1 t2 True (Some f) w (Some iov) (int (length iov)) =
      (case r of Inl e \<Rightarrow> Some (Inl e, Some (advance_file f1 0 None), w') | Inr n \<Rightarrow> Some (Inr n, Some (advance_file f1 n lb), w'))"
    using p(1) ac ne f1(1,2)
    by (simp add: pmemfile_writev_def pmemfile_writev_under_filelock_def visited_iov_def f1_def Let_def split: sum.splits)
  have inv: "invalidations (vdata w') = invalidations (vdata w)"
    using p(2) by (simp add: write_post_def)
  from p(2) show ?thesis
    unfolding write_post_def
  proof (elim conjE disjE exE)
    fix e
    assume "r = Inl (if e = ENOMEM then ENOSPC else e)" "store_fails st e" "vinode_ok A w' ps"
      "vinode_content w' ps = vinode_content w ps" "vi_inode w' = vi_inode w"
    then show ?thesis
      using call f1(1) by (intro exI [of _ r] exI [of _ "advance_file f1 0 None"] exI [of _ w']) (auto simp: advance_file_def)
  next
    fix ps'
    assume a: "r = Inr (length (iov_bytes iov))" "vinode_ok A w' ps'" "\<forall>p. lb = Some p \<longrightarrow> p \<in> set ps'"
      "vinode_content w' ps' = patched offset (iov_bytes iov) (vinode_content w ps)"
      "inode_get_size (vi_inode w') = max (offset + length (iov_bytes iov)) (inode_get_size (vi_inode w))"
    have "file_cache_ok (advance_file f1 (iov_total iov) lb) w' ps'"
      using a(3) f1(3) inv assms(8) by (simp add: file_cache_ok_def advance_file_def)
    moreover have "f_offset (advance_file f1 (iov_total iov) lb) = f_offset f + iov_total iov"
      using f1(1) assms(8,11) by (simp add: advance_file_def add64_exact)
    ultimately show ?thesis
      using call a len
      by (intro exI [of _ r] exI [of _ "advance_file f1 (iov_total iov) lb"] exI [of _ w']) auto
  qed
qed

lemma sample_store_errors: "\<not> store_fails sample_store 0"
  by (auto simp: store_fails_def sample_store_def split: option.splits)

definition writing_file :: "nat \<Rightarrow> pmemfile_file" where
  "writing_file offset = \<lparr>f_flags = 3, f_offset = offset, block_pointer_cache = None, invalidation_observed = 0\<rparr>"

definition sample_iov :: "iovec list" where
  "sample_iov = [\<lparr>iov_base = Some [1, 2, 3], iov_len = 2\<rparr>, \<lparr>iov_base = Some [4], iov_len = 1\<rparr>]"

lemma sample_iov_simps [simp]:
  "iov_total sample_iov = 3" "\<forall>io \<in> set sample_iov. iov_ok io" "length sample_iov = 2" "iov_bytes sample_iov = [1, 2, 4]"
  by (simp_all add: sample_iov_def iov_total_def iov_ok_def iov_bytes_def)

lemma writing_file_simps [simp]:
  "f_offset (writing_file x) = x" "f_flags (writing_file x) AND PFILE_WRITE \<noteq> 0"
  "f_flags (writing_file x) AND PFILE_APPEND = 0" "f_flags (writing_file x) AND PFILE_READ \<noteq> 0"
  "file_cache_ok (writing_file x) w ps"
  by (simp_all add: writing_file_def PFILE_WRITE_def PFILE_APPEND_def PFILE_READ_def file_cache_ok_def)

lemma sample_vinode_hole:
  "first_hole_ok MIN_BLOCK_SIZE (vdata (sample_vinode [0, 2])) (sample_ptrs [0, 2]) x"
  by (simp add: first_hole_ok_def sample_vinode_def sample_ptrs_two sample_desc_def)

theorem pmemfile_writev_correct_witness:
  "vinode_ok MIN_BLOCK_SIZE (sample_vinode [0, 2]) (sample_ptrs [0, 2]) \<and> conf_ok default_conf MIN_BLOCK_SIZE \<and>
   store_ok sample_store \<and> \<not> store_fails sample_store 0 \<and>
   (\<exists>r f' w'. pmemfile_writev default_conf sample_store False zero_time zero_time True (Some (writing_file 20000))
       (sample_vinode [0, 2]) (Some sample_iov) 2 = Some (r, Some f', w') \<and>
     ((\<exists>e. r = Inl (if e = ENOMEM then ENOSPC else e)) \<or>
      (\<exists>ps'. r = Inr 3 \<and> vinode_content w' ps' =
         patched 20000 [1, 2, 4] (vinode_content (sample_vinode [0, 2]) (sample_ptrs [0, 2])))))"
proof -
  let ?w = "sample_vinode [0, 2]" and ?f = "writing_file 20000"
  have off: "20000 = (if f_flags ?f AND PFILE_APPEND \<noteq> 0 then inode_get_size (vi_inode ?w) else f_offset ?f)"
    by simp
  have b: "20000 + iov_total sample_iov \<le> SSIZE_MAX" "f_offset ?f + iov_total sample_iov < W64" "0 < iov_total sample_iov"
    by (simp_all add: SSIZE_MAX_def W64_def)
  have l: "int (length sample_iov) = 2"
    by simp
  show ?thesis
    using pmemfile_writev_correct [OF sample_vinode_ok [OF sample_02] conf_ok_default sample_store_ok sample_store_errors
        writing_file_simps(5,2) sample_iov_simps(2) b(3) off b(1,2) sample_vinode_hole, of False zero_time zero_time]
      sample_vinode_ok [OF sample_02] conf_ok_default sample_store_ok sample_store_errors
    unfolding l sample_iov_simps(1,4) by blast
qed

text \<open>A range whose offsets all lie in blocks has no hole between two of its blocks.\<close>

lemma filter_suffix:
  assumes "sorted_wrt (\<lambda>p q. bd_offset (descs v p) + bd_size (descs v p) \<le> bd_offset (descs v q)) ps"
  shows "\<exists>ys. ps = ys @ filter (\<lambda>p. x < bd_offset (descs v p) + bd_size (descs v p)) ps"
  using assms
proof (induction ps)
  case (Cons p ps)
  show ?case
  proof (cases "x < bd_offset (descs v p) + bd_size (descs v p)")
    case True
    have "x < bd_offset (descs v q) + bd_size (descs v q)" if "q \<in> set ps" for q
      using Cons.prems that True by fastforce
    then have "filter (\<lambda>p. x < bd_offset (descs v p) + bd_size (descs v p)) (p # ps) = p # ps"
      using True by (auto intro: filter_True)
    then show ?thesis by (intro exI [of _ "[]"]) simp
  next
    case False
    obtain ys where "ps = ys @ filter (\<lambda>p. x < bd_offset (descs v p) + bd_size (descs v p)) ps"
      using Cons by auto
    then show ?thesis
      using False by (intro exI [of _ "p # ys"]) simp
  qed
qed simp

lemma covered_contiguous:
  assumes cov: "\<And>x. offset \<le> x \<Longrightarrow> x < e \<Longrightarrow> \<exists>p \<in> set ps. in_block (descs v p) x" and f: "file_ok A v ps"
    and ps: "ps = ys @ zs" and after: "\<And>z. z \<in> set zs \<Longrightarrow> offset < bd_offset (descs v z) + bd_size (descs v z)"
  shows "contiguous v zs e"
  using ps after
proof (induction zs arbitrary: ys)
  case (Cons p zs)
  show ?case
  proof (cases zs)
    case (Cons q r)
    let ?x = "bd_offset (descs v p) + bd_size (descs v p)"
    have f1: "file_ok A v (ys @ p # zs)" and f2: "file_ok A v ((ys @ [p]) @ q # r)"
      using f Cons.prems(1) Cons by simp_all
    have "?x = bd_offset (descs v q)" if lt: "bd_offset (descs v q) < e"
    proof (rule ccontr)
      assume "?x \<noteq> bd_offset (descs v q)"
      then have x: "?x < bd_offset (descs v q)"
        using file_ok_order(2) [OF f1, of q] Cons by simp
      then obtain b where b: "b \<in> set ps" "in_block (descs v b) ?x"
        using cov [of ?x] Cons.prems(2) [of p] lt by auto
      have "b \<in> set ys \<or> b = p \<or> b \<in> set (q # r)"
        using b(1) Cons.prems(1) Cons by auto
      then show False
        using b(2) x file_ok_order(1) [OF f1, of b] file_ok_order(2) [OF f2, of b] by (auto simp: in_block_def)
    qed
    moreover have "contiguous v zs e"
      by (rule Cons.IH [of "ys @ [p]"]) (use Cons.prems in auto)
    ultimately show ?thesis
      using Cons by simp
  qed simp
qed simp

lemma covered_readable:
  assumes f: "file_ok A v ps" and cov: "\<And>x. offset \<le> x \<Longrightarrow> x < offset + n \<Longrightarrow> \<exists>p \<in> set ps. in_block (descs v p) x"
  shows "readable v ps offset n"
proof -
  obtain ys where ys: "ps = ys @ filter (\<lambda>p. offset < bd_offset (descs v p) + bd_size (descs v p)) ps"
    using filter_suffix [OF file_ok_sorted [OF f]] by blast
  show ?thesis
    unfolding readable_def by (rule covered_contiguous [OF cov f ys]) auto
qed

text \<open>Reading back a range that is in blocks, through a single buffer.\<close>

lemma pread_covered:
  assumes w: "vinode_ok A w ps" and al: "MIN_BLOCK_SIZE dvd A" and g: "file_cache_ok g w ps" "f_flags g AND PFILE_READ \<noteq> 0"
    and b: "offset + n \<le> SSIZE_MAX" "offset + n \<le> inode_get_size (vi_inode w)"
    and cov: "\<And>x. offset \<le> x \<Longrightarrow> x < offset + n \<Longrightarrow> \<exists>p \<in> set ps. in_block (descs (vdata w) p) x"
  shows "\<exists>w'. pmemfile_pread True tm (Some g) w (Some buf) n (int offset) =
     Some (Inr (n, [map (vinode_content w ps) [offset..<offset + n]]), w')"
proof -
  let ?iov = "[\<lparr>iov_base = Some buf, iov_len = n\<rparr>]"
  obtain v where v: "vinode_rdlock_with_block_tree w = Some (0, w\<lparr>vdata := v\<rparr>)" "file_ok A v ps"
    "descs v = descs (vdata w)" "datas v = datas (vdata w)" "invalidations v = invalidations (vdata w)"
    "first_free v = first_free (vdata w)" "vinode_ok A (w\<lparr>vdata := v\<rparr>) ps"
    by (rule rdlock_with_block_tree_ok [OF w al]) (rule that)
  define w1 where "w1 = w\<lparr>vdata := v\<rparr>"
  define hint where "hint = (if invalidation_observed g \<noteq> invalidations v then None else block_pointer_cache g)"
  have h: "\<And>p. hint = Some p \<Longrightarrow> p \<in> set ps"
    using g(1) v(5) by (auto simp: hint_def file_cache_ok_def split: if_splits)
  have fw: "file_ok A (vdata w1) ps"
    using v(2) by (simp add: w1_def)
  have rd: "readable (vdata w1) ps offset n"
    by (rule covered_readable [OF fw]) (use cov v(3) in \<open>simp add: w1_def\<close>)
  have sz: "inode_get_size (vi_inode w1) < W64" "n = min n (inode_get_size (vi_inode w1) - offset)"
    using w b(2) by (auto simp: vinode_ok_def w1_def W64_def)
  have n: "SSIZE_MAX < add64 0 n \<longleftrightarrow> False"
    using b(1) by (simp add: add64_exact SSIZE_MAX_def W64_def)
  obtain lb where lb: "vinode_read w1 offset hint n = Some (range_of (vdata w1) ps offset n, lb)"
    by (rule vinode_read_ok [where hint = hint, OF fw al sz(1) h rd]) (assumption, use sz(2) that in simp)
  have "pmemfile_preadv_internal w1 hint offset 0 ?iov = Some (n, [range_of (vdata w1) ps offset n], lb)"
    using lb n by simp
  moreover have "range_of (vdata w1) ps offset n = map (vinode_content w ps) [offset..<offset + n]"
    using v(4) exts_cong [OF v(3)] by (simp add: range_of_def vinode_content_def w1_def)
  moreover have "pmemfile_preadv_args_check g w (Some ?iov) 1 = 0"
    using args_check_ok [OF w g(2), of ?iov] by simp
  ultimately show ?thesis
    using v(1) by (simp add: pmemfile_pread_def pmemfile_preadv_def visited_iov_def w1_def hint_def Let_def)
qed

text \<open>
  Claim C6. What was written can be read: after a positioned write of some buffers that returned
  success, a positioned read of the same range through any file open for reading returns exactly the
  bytes of the buffers, whatever holes the file has elsewhere.
\<close>

theorem pmemfile_pwritev_pread_roundtrip:
  assumes "vinode_ok A w ps" and "conf_ok c A" and "store_ok st" and "\<not> store_fails st 0"
    and "file_cache_ok f w ps" and "f_flags f AND PFILE_WRITE \<noteq> 0" and "f_flags f AND PFILE_APPEND = 0"
    and "\<forall>io \<in> set iov. iov_ok io" and "0 < iov_total iov" and "offset + iov_total iov \<le> SSIZE_MAX"
    and "first_hole_ok A (vdata w) ps offset" and "file_cache_ok g w ps" and "f_flags g AND PFILE_READ \<noteq> 0"
    and "pmemfile_pwritev c st over t1 t2 True (Some f) w (Some iov) (int (length iov)) (int offset) = Some (Inr n, w')"
  shows "n = iov_total iov \<and> (\<exists>w''. pmemfile_pread True t3 (Some g) w' (Some buf) n (int offset) =
     Some (Inr (n, [iov_bytes iov]), w''))"
proof -
  define hint where "hint = (if invalidation_observed f \<noteq> invalidations (vdata w) then None else block_pointer_cache f)"
  have h: "\<And>p. hint = Some p \<Longrightarrow> p \<in> set ps"
    using assms(5) by (auto simp: hint_def file_cache_ok_def split: if_splits)
  have al: "MIN_BLOCK_SIZE dvd A"
    using assms(2) by (simp add: conf_ok_def)
  have len: "length (iov_bytes iov) = iov_total iov"
    by (rule iov_bytes_length [OF assms(8)])
  have ne: "iov \<noteq> []"
    using assms(9) by (auto simp: iov_total_def)
  have ac: "pmemfile_pwritev_args_check f w (Some iov) (int (length iov)) = 0"
    using assms(1,6,8) by (auto simp: pmemfile_pwritev_args_check_def vinode_ok_def iov_ok_def split: option.splits)
  have off: "offset = (if f_flags f AND PFILE_APPEND \<noteq> 0 then inode_get_size (vi_inode w) else offset)"
    using assms(7) by simp
  obtain r w1 lb where p: "pmemfile_pwritev_internal c st over t1 t2 w hint (f_flags f) offset iov = Some (r, w1, lb)"
    "write_post A st w ps offset (iov_bytes iov) r w1 lb"
    using pwritev_internal_ok [where hint = hint, OF assms(1-4) h assms(8,9) off assms(10,11), of over t1 t2] by blast
  have "r = Inr n \<and> w1 = w'"
    using assms(14) p(1) ac ne by (simp add: pmemfile_pwritev_def visited_iov_def hint_def Let_def)
  then obtain ps' where ps': "n = iov_total iov" "vinode_ok A w' ps'" "set ps \<subseteq> set ps'"
    "invalidations (vdata w') = invalidations (vdata w)"
    "vinode_content w' ps' = patched offset (iov_bytes iov) (vinode_content w ps)"
    "inode_get_size (vi_inode w') = max (offset + iov_total iov) (inode_get_size (vi_inode w))"
    "\<And>x. offset \<le> x \<Longrightarrow> x < offset + n \<Longrightarrow> \<exists>p \<in> set ps'. in_block (descs (vdata w') p) x"
    using p(2) len by (auto simp: write_post_def)
  have g: "file_cache_ok g w' ps'"
    using assms(12) ps'(3,4) by (auto simp: file_cache_ok_def)
  have "map (vinode_content w' ps') [offset..<offset + n] = iov_bytes iov"
    using ps'(1,5) len by (intro nth_equalityI) (simp_all add: patched_def)
  then show ?thesis
    using pread_covered [OF ps'(2) al g assms(13) _ _ ps'(7), where tm = t3 and buf = buf and offset = offset and n = n] assms(10) ps'(1,6) by simp
qed

lemma sample_write_succeeds:
  "\<exists>w'. pmemfile_pwritev default_conf sample_store False zero_time zero_time True (Some (writing_file 0))
       (sample_vinode [0, 2]) (Some sample_iov) (int (length sample_iov)) (int 40000) = Some (Inr 3, w')"
proof -
  let ?w = "sample_vinode [0, 2]"
  have off: "40000 = (if f_flags (writing_file 0) AND PFILE_APPEND \<noteq> 0 then inode_get_size (vi_inode ?w) else 40000)"
    by simp
  have b: "0 < iov_total sample_iov" "40000 + iov_total sample_iov \<le> SSIZE_MAX"
    by (simp_all add: SSIZE_MAX_def)
  have "in_block (descs (vdata ?w) (BP 0 1)) x" if "40000 \<le> x" "x < 40000 + iov_total sample_iov" for x
    using that by (simp add: sample_vinode_def sample_desc_def in_block_def MIN_BLOCK_SIZE_def)
  then have cov: "\<forall>x. 40000 \<le> x \<and> x < 40000 + iov_total sample_iov \<longrightarrow>
      (\<exists>p \<in> set (sample_ptrs [0, 2]). in_block (descs (vdata ?w) p) x)"
    by (auto simp: sample_ptrs_two)
  obtain w' lb where p: "pmemfile_pwritev_internal default_conf sample_store False zero_time zero_time ?w None
      (f_flags (writing_file 0)) 40000 sample_iov = Some (Inr (iov_total sample_iov), w', lb)"
    using pwritev_internal_ok [where hint = None, OF sample_vinode_ok [OF sample_02] conf_ok_default sample_store_ok
        sample_store_errors _ sample_iov_simps(2) b(1) off b(2) sample_vinode_hole] cov by blast
  have "pmemfile_pwritev_args_check (writing_file 0) ?w (Some sample_iov) 2 = 0"
    using sample_vinode_ok [OF sample_02]
    by (simp add: pmemfile_pwritev_args_check_def vinode_ok_def) (simp add: sample_iov_def)
  then show ?thesis
    using p by (simp add: pmemfile_pwritev_def visited_iov_def Let_def) (simp add: writing_file_def)
qed

theorem pmemfile_pwritev_pread_roundtrip_witness:
  "\<exists>w'. pmemfile_pwritev default_conf sample_store False zero_time zero_time True (Some (writing_file 0))
       (sample_vinode [0, 2]) (Some sample_iov) 2 40000 = Some (Inr 3, w') \<and>
     (\<exists>w''. pmemfile_pread True zero_time (Some (writing_file 0)) w' (Some []) 3 40000 = Some (Inr (3, [[1, 2, 4]]), w''))"
proof -
  obtain w' where w': "pmemfile_pwritev default_conf sample_store False zero_time zero_time True (Some (writing_file 0))
       (sample_vinode [0, 2]) (Some sample_iov) (int (length sample_iov)) (int 40000) = Some (Inr 3, w')"
    using sample_write_succeeds by blast
  have b: "0 < iov_total sample_iov" "40000 + iov_total sample_iov \<le> SSIZE_MAX"
    by (simp_all add: SSIZE_MAX_def)
  show ?thesis
    using pmemfile_pwritev_pread_roundtrip [OF sample_vinode_ok [OF sample_02] conf_ok_default sample_store_ok
        sample_store_errors writing_file_simps(5,2,3) sample_iov_simps(2) b sample_vinode_hole writing_file_simps(5,4) w',
        where ?t3.0 = zero_time and buf = "[]"] w' by auto
qed

end
