(* ===== verification/Slot_Commit.thy ===== *)
theory Slot_Commit
  imports Main
begin

text \<open>
  Persistent memory under power failure, and updates that switch between two slots.

  A store reaches the medium at an unknown time between its execution and the end of a flush of
  its cell that is followed by a drain. The state keeps, for every cell, its value, the values the medium may
  hold, and, when a flush is under way, the values it may hold once the next drain is over.
  This is what the documentation of libpmemobj promises of \<^verbatim>\<open>pmemobj_flush\<close> and \<^verbatim>\<open>pmemobj_drain\<close>;
  cells are words that the processor stores atomically.
\<close>

datatype ('c, 'v) pm_event = Store 'c 'v | Flush 'c | Drain

record ('c, 'v) pm =
  now :: "'c \<Rightarrow> 'v"
  may :: "'c \<Rightarrow> 'v list"
  flushing :: "'c \<Rightarrow> 'v list option"

fun pm_step :: "('c, 'v) pm_event \<Rightarrow> ('c, 'v) pm \<Rightarrow> ('c, 'v) pm" where
  "pm_step (Store c x) s =
     s\<lparr>now := (now s)(c := x), may := (may s)(c := x # may s c),
       flushing := (flushing s)(c := map_option (\<lambda>xs. x # xs) (flushing s c))\<rparr>"
| "pm_step (Flush c) s = s\<lparr>flushing := (flushing s)(c := Some [now s c])\<rparr>"
| "pm_step Drain s =
     s\<lparr>may := (\<lambda>c. case flushing s c of None \<Rightarrow> may s c | Some xs \<Rightarrow> xs), flushing := (\<lambda>_. None)\<rparr>"

definition pm_run :: "('c, 'v) pm_event list \<Rightarrow> ('c, 'v) pm \<Rightarrow> ('c, 'v) pm" where
  "pm_run es s = fold pm_step es s"

text \<open>Everything is on the medium.\<close>

definition pm_clean :: "('c \<Rightarrow> 'v) \<Rightarrow> ('c, 'v) pm" where
  "pm_clean m = \<lparr>now = m, may = \<lambda>c. [m c], flushing = \<lambda>_. None\<rparr>"

text \<open>A content of the medium after a crash.\<close>

definition crash_image :: "('c, 'v) pm \<Rightarrow> ('c \<Rightarrow> 'v) \<Rightarrow> bool" where
  "crash_image s m \<longleftrightarrow> (\<forall>c. m c \<in> set (may s c))"

text \<open>A crash can happen before, between and after the events of a sequence.\<close>

fun may_crash :: "('c, 'v) pm_event list \<Rightarrow> ('c, 'v) pm \<Rightarrow> ('c \<Rightarrow> 'v) \<Rightarrow> bool" where
  "may_crash [] s m = crash_image s m"
| "may_crash (e # es) s m = (crash_image s m \<or> may_crash es (pm_step e s) m)"

text \<open>
  The update of slots: new values are stored in cells that are not in use, these are flushed, and
  after a drain one atomic store to the cell with the slot numbers puts them to use.
\<close>

definition prepare_cells :: "('c \<times> 'v) list \<Rightarrow> 'c list \<Rightarrow> ('c, 'v) pm_event list" where
  "prepare_cells ws fs = map (\<lambda>(c, y). Store c y) ws @ map Flush fs @ [Drain]"

definition slot_commit :: "'c \<Rightarrow> ('c \<times> 'v) list \<Rightarrow> 'c list \<Rightarrow> 'v \<Rightarrow> ('c, 'v) pm_event list" where
  "slot_commit slot_cell ws fs x = prepare_cells ws fs @ [Store slot_cell x, Flush slot_cell, Drain]"

section \<open>Lemmas\<close>

lemma pm_run_simps [simp]: "pm_run [] s = s" "pm_run (e # es) s = pm_run es (pm_step e s)"
  by (simp_all add: pm_run_def)

lemma pm_run_append: "pm_run (es @ fs) s = pm_run fs (pm_run es s)"
  by (simp add: pm_run_def)

lemma may_crash_here: "crash_image s m \<Longrightarrow> may_crash es s m"
  by (cases es) simp_all

lemma may_crash_append: "may_crash (es @ fs) s m \<longleftrightarrow> may_crash es s m \<or> may_crash fs (pm_run es s) m"
  by (induction es arbitrary: s) (auto intro: may_crash_here)

lemma crash_image_clean [simp]: "crash_image (pm_clean m) m' \<longleftrightarrow> m' = m"
  by (auto simp: crash_image_def pm_clean_def)

text \<open>The cells outside \<open>W\<close> are as in \<open>m\<close>, also on the medium.\<close>

definition untouched :: "'c set \<Rightarrow> ('c \<Rightarrow> 'v) \<Rightarrow> ('c, 'v) pm \<Rightarrow> bool" where
  "untouched W m s \<longleftrightarrow>
     (\<forall>c. c \<notin> W \<longrightarrow> now s c = m c \<and> may s c = [m c] \<and> (flushing s c = None \<or> flushing s c = Some [m c]))"

lemma untouched_clean [simp]: "untouched W m (pm_clean m)"
  by (simp add: untouched_def pm_clean_def)

lemma untouched_step:
  assumes "untouched W m s" and "\<And>c x. e = Store c x \<Longrightarrow> c \<in> W"
  shows "untouched W m (pm_step e s)"
  using assms by (cases e) (auto simp: untouched_def split: option.splits)

definition stores_in :: "'c set \<Rightarrow> ('c, 'v) pm_event list \<Rightarrow> bool" where
  "stores_in W es \<longleftrightarrow> (\<forall>c x. Store c x \<in> set es \<longrightarrow> c \<in> W)"

lemma stores_in_Cons: "stores_in W (e # es) \<longleftrightarrow> (\<forall>c x. e = Store c x \<longrightarrow> c \<in> W) \<and> stores_in W es"
  by (auto simp: stores_in_def)

lemma untouched_run: "untouched W m s \<Longrightarrow> stores_in W es \<Longrightarrow> untouched W m (pm_run es s)"
  by (induction es arbitrary: s) (auto simp: stores_in_Cons intro: untouched_step)

lemma untouched_image: "untouched W m s \<Longrightarrow> crash_image s m' \<Longrightarrow> c \<notin> W \<Longrightarrow> m' c = m c"
  by (auto simp: untouched_def crash_image_def dest!: spec [of _ c])

lemma untouched_crash:
  "untouched W m s \<Longrightarrow> stores_in W es \<Longrightarrow> may_crash es s m' \<Longrightarrow> c \<notin> W \<Longrightarrow> m' c = m c"
proof (induction es arbitrary: s)
  case (Cons e es)
  have "untouched W m (pm_step e s)"
    using Cons.prems(2) by (intro untouched_step [OF Cons.prems(1)]) (simp add: stores_in_Cons)
  then show ?case
    using Cons untouched_image [OF Cons.prems(1)] by (auto simp: stores_in_Cons)
qed (auto intro: untouched_image)

lemma run_stores:
  "flushing s = (\<lambda>_. None) \<Longrightarrow>
   now (pm_run (map (\<lambda>(c, y). Store c y) ws) s) = fold (\<lambda>(c, y) m. m(c := y)) ws (now s) \<and>
   flushing (pm_run (map (\<lambda>(c, y). Store c y) ws) s) = (\<lambda>_. None)"
proof (induction ws arbitrary: s)
  case (Cons w ws)
  obtain c y where w: "w = (c, y)"
    by fastforce
  have "flushing (pm_step (Store c y) s) = (\<lambda>_. None)"
    using Cons.prems by (simp add: fun_eq_iff)
  from Cons.IH [OF this] show ?case
    by (simp add: w)
qed simp

lemma run_flushes:
  "now (pm_run (map Flush fs) s) = now s \<and> may (pm_run (map Flush fs) s) = may s \<and>
   flushing (pm_run (map Flush fs) s) = (\<lambda>c. if c \<in> set fs then Some [now s c] else flushing s c)"
  by (induction fs arbitrary: s) (auto simp: fun_eq_iff)

definition written :: "('c \<times> 'v) list \<Rightarrow> ('c \<Rightarrow> 'v) \<Rightarrow> 'c \<Rightarrow> 'v" where
  "written ws m = fold (\<lambda>(c, y) m. m(c := y)) ws m"

lemma prepare_stores: "stores_in (fst ` set ws) (prepare_cells ws fs)"
  by (auto simp: stores_in_def prepare_cells_def intro: rev_image_eqI)

lemma run_prepare:
  assumes "fst ` set ws \<subseteq> set fs"
  shows "pm_run (prepare_cells ws fs) (pm_clean m) = pm_clean (written ws m)"
proof -
  define s1 where "s1 = pm_run (map (\<lambda>(c, y). Store c y) ws) (pm_clean m)"
  have s1: "now s1 = written ws m" "flushing s1 = (\<lambda>_. None)"
    using run_stores [of "pm_clean m" ws] by (simp_all add: s1_def written_def pm_clean_def)
  have un: "untouched (fst ` set ws) m s1"
    unfolding s1_def by (rule untouched_run) (auto simp: stores_in_def intro: rev_image_eqI)
  have "may s1 c = [written ws m c]" if "c \<notin> set fs" for c
  proof -
    have "c \<notin> fst ` set ws"
      using that assms by blast
    then show ?thesis
      using un s1(1) by (simp add: untouched_def)
  qed
  then have "pm_step Drain (pm_run (map Flush fs) s1) = pm_clean (written ws m)"
    using run_flushes [of fs s1] s1 by (simp add: pm_clean_def fun_eq_iff)
  then show ?thesis
    by (simp add: prepare_cells_def pm_run_append s1_def)
qed

lemma written_other: "c \<notin> fst ` set ws \<Longrightarrow> written ws m c = m c"
  by (induction ws arbitrary: m) (auto simp: written_def)

locale slot_store =
  fixes slot_cell :: 'c and sel :: "'v \<Rightarrow> 'f \<Rightarrow> 'c"
  assumes sel_not_slot: "sel x f \<noteq> slot_cell"
begin

lemma commit_final:
  assumes "fst ` set ws \<subseteq> set fs"
  shows "pm_run (slot_commit slot_cell ws fs x) (pm_clean m) = pm_clean ((written ws m)(slot_cell := x))"
  using run_prepare [OF assms, of m]
  by (simp add: slot_commit_def pm_run_append) (simp add: pm_clean_def fun_eq_iff)

text \<open>After a crash at any point, the fields in use are those before or those after the update.\<close>

lemma commit_atomic:
  assumes ws: "fst ` set ws \<subseteq> set fs" "\<And>c f. c \<in> fst ` set ws \<Longrightarrow> c \<noteq> sel (m slot_cell) f" "slot_cell \<notin> fst ` set ws"
    and cr: "may_crash (slot_commit slot_cell ws fs x) (pm_clean m) m'"
  shows "(\<forall>f. m' (sel (m' slot_cell) f) = m (sel (m slot_cell) f)) \<or>
         (\<forall>f. m' (sel (m' slot_cell) f) = ((written ws m)(slot_cell := x)) (sel x f))"
proof -
  have m1: "written ws m slot_cell = m slot_cell" "\<And>f. written ws m (sel (m slot_cell) f) = m (sel (m slot_cell) f)"
    using ws(2,3) by (auto intro!: written_other)
  from cr have "may_crash (prepare_cells ws fs) (pm_clean m) m' \<or>
      may_crash [Store slot_cell x, Flush slot_cell, Drain] (pm_clean (written ws m)) m'"
    by (simp only: slot_commit_def may_crash_append run_prepare [OF ws(1)])
  then show ?thesis
  proof
    assume "may_crash (prepare_cells ws fs) (pm_clean m) m'"
    note un = untouched_crash [OF untouched_clean prepare_stores this]
    have "m' slot_cell = m slot_cell" "\<And>f. m' (sel (m slot_cell) f) = m (sel (m slot_cell) f)"
      using ws(2,3) by (auto intro!: un)
    then show ?thesis by simp
  next
    assume "may_crash [Store slot_cell x, Flush slot_cell, Drain] (pm_clean (written ws m)) m'"
    then have "m' slot_cell = m slot_cell \<or> m' slot_cell = x" "\<And>c. c \<noteq> slot_cell \<Longrightarrow> m' c = written ws m c"
      using m1(1) by (auto simp: crash_image_def pm_clean_def split: if_splits)
    then show ?thesis
      using sel_not_slot m1(2) by auto
  qed
qed

end

end
