(* ===== verification/Write_Crash.thy ===== *)
theory Write_Crash
  imports Write Slot_Commit
begin

text \<open>
  Power failure during a write (\<open>pmemfile_pwritev_internal\<close> of \<^verbatim>\<open>write.c\<close>): the stores, flushes and drains
  of the inode's fields in the order of the source. The cells are the 8-byte words of the inode that a
  write changes; a time is two of them and can be torn. The copying of data between the two updates
  of the inode does not touch these cells.
\<close>

section \<open>Cells of the inode\<close>

datatype time_kind = Atime | Ctime | Mtime

datatype inode_cell = Cell_sec time_kind bool | Cell_nsec time_kind bool | Cell_size bool | Cell_slots

datatype inode_field = Field_sec time_kind | Field_nsec time_kind | Field_size

datatype cell_value = V_int int | V_nat nat | V_slots inode_slots

definition time_slot :: "inode_slots \<Rightarrow> time_kind \<Rightarrow> bool" where
  "time_slot s k = (case k of Atime \<Rightarrow> sl_atime s | Ctime \<Rightarrow> sl_ctime s | Mtime \<Rightarrow> sl_mtime s)"

definition time_of :: "inode \<Rightarrow> time_kind \<Rightarrow> bool \<Rightarrow> pmemfile_time" where
  "time_of i k = (case k of Atime \<Rightarrow> i_atime i | Ctime \<Rightarrow> i_ctime i | Mtime \<Rightarrow> i_mtime i)"

fun inode_cells :: "inode \<Rightarrow> inode_cell \<Rightarrow> cell_value" where
  "inode_cells i (Cell_sec k b) = V_int (sec (time_of i k b))"
| "inode_cells i (Cell_nsec k b) = V_int (nsec (time_of i k b))"
| "inode_cells i (Cell_size b) = V_nat (i_size i b)"
| "inode_cells i Cell_slots = V_slots (slots i)"

text \<open>The cell of a field that the slot numbers select.\<close>

definition selected :: "cell_value \<Rightarrow> inode_field \<Rightarrow> inode_cell" where
  "selected x f =
     (let s = (case x of V_slots s \<Rightarrow> s | _ \<Rightarrow> slots zero_inode) in
      case f of
        Field_sec k \<Rightarrow> Cell_sec k (time_slot s k)
      | Field_nsec k \<Rightarrow> Cell_nsec k (time_slot s k)
      | Field_size \<Rightarrow> Cell_size (sl_size s))"

text \<open>What a recovered inode says: the size and the times.\<close>

definition recovered :: "(inode_cell \<Rightarrow> cell_value) \<Rightarrow> inode_field \<Rightarrow> cell_value" where
  "recovered m f = m (selected (m Cell_slots) f)"

section \<open>The events of a write\<close>

definition store_time :: "time_kind \<Rightarrow> bool \<Rightarrow> pmemfile_time \<Rightarrow> (inode_cell, cell_value) pm_event list" where
  "store_time k b tm = [Store (Cell_sec k b) (V_int (sec tm)), Store (Cell_nsec k b) (V_int (nsec tm))]"

definition flush_time :: "time_kind \<Rightarrow> bool \<Rightarrow> (inode_cell, cell_value) pm_event list" where
  "flush_time k b = [Flush (Cell_sec k b), Flush (Cell_nsec k b)]"

definition start_write_events :: "pmemfile_time \<Rightarrow> inode \<Rightarrow> (inode_cell, cell_value) pm_event list" where
  "start_write_events tm i =
     (let mtime_slot = inode_next_mtime_slot i in
      store_time Mtime mtime_slot tm @ flush_time Mtime mtime_slot @
      [Drain, Store Cell_slots (V_slots ((slots i)\<lparr>sl_mtime := mtime_slot\<rparr>)), Flush Cell_slots, Drain])"

definition finish_write_events ::
  "pmemfile_time \<Rightarrow> pmemfile_time \<Rightarrow> nat \<Rightarrow> vinode \<Rightarrow> (inode_cell, cell_value) pm_event list" where
  "finish_write_events starttm tm offset w =
     (let i = vi_inode w;
          tm_diff = (sec tm - sec starttm) * 1000000000 + nsec tm - nsec starttm;
          update_size = offset > inode_get_size i;
          update_mtime = (tm_diff \<ge> 1000000 \<or> update_size);
          update_atime = (atime_dirty w \<and> (update_mtime \<or> update_size));
          mtime_slot = (if update_mtime then inode_next_mtime_slot i else sl_mtime (slots i));
          atime_slot = (if update_atime then inode_next_atime_slot i else sl_atime (slots i));
          size_slot = (if update_size then inode_next_size_slot i else sl_size (slots i));
          ctime_slot = (if update_size then inode_next_ctime_slot i else sl_ctime (slots i))
      in (if update_mtime then store_time Mtime mtime_slot tm else []) @
         (if update_atime then store_time Atime atime_slot (vi_atime w) else []) @
         (if update_size then Store (Cell_size size_slot) (V_nat offset) # store_time Ctime ctime_slot tm else []) @
         (if update_mtime \<or> update_size \<or> update_atime
          then (if update_atime then flush_time Atime atime_slot else []) @
               (if update_mtime then flush_time Mtime mtime_slot else []) @
               (if update_size then flush_time Ctime ctime_slot @ [Flush (Cell_size size_slot)] else []) @
               [Drain,
                Store Cell_slots (V_slots ((slots i)\<lparr>sl_atime := atime_slot, sl_ctime := ctime_slot,
                  sl_size := size_slot, sl_mtime := mtime_slot\<rparr>)),
                Flush Cell_slots, Drain]
          else []))"

section \<open>Both updates switch slots\<close>

interpretation islots: slot_store Cell_slots selected
proof unfold_locales
  fix x f
  show "selected x f \<noteq> Cell_slots"
    by (cases f) (simp_all add: selected_def Let_def)
qed

lemma selected_inode [simp]:
  "selected (V_slots s) (Field_sec k) = Cell_sec k (time_slot s k)"
  "selected (V_slots s) (Field_nsec k) = Cell_nsec k (time_slot s k)"
  "selected (V_slots s) Field_size = Cell_size (sl_size s)"
  by (simp_all add: selected_def)

text \<open>A sequence of events that is an update of unused slots.\<close>

definition updates_slots :: "(inode_cell, cell_value) pm_event list \<Rightarrow> inode \<Rightarrow> inode \<Rightarrow> bool" where
  "updates_slots es i i' \<longleftrightarrow> (\<exists>ws fs.
     es = slot_commit Cell_slots ws fs (V_slots (slots i')) \<and> fst ` set ws \<subseteq> set fs \<and> Cell_slots \<notin> fst ` set ws \<and>
     (\<forall>c \<in> fst ` set ws. \<forall>f. c \<noteq> selected (inode_cells i Cell_slots) f) \<and>
     inode_cells i' = (written ws (inode_cells i))(Cell_slots := V_slots (slots i')))"

lemma updates_slots_run: "updates_slots es i i' \<Longrightarrow> pm_run es (pm_clean (inode_cells i)) = pm_clean (inode_cells i')"
  using islots.commit_final by (fastforce simp: updates_slots_def)

lemma updates_slots_crash:
  assumes "updates_slots es i i'" and "may_crash es (pm_clean (inode_cells i)) m"
  shows "recovered m = recovered (inode_cells i) \<or> recovered m = recovered (inode_cells i')"
proof -
  from assms(1) obtain ws fs where u: "es = slot_commit Cell_slots ws fs (V_slots (slots i'))" "fst ` set ws \<subseteq> set fs"
    "Cell_slots \<notin> fst ` set ws" "\<forall>c \<in> fst ` set ws. \<forall>f. c \<noteq> selected (inode_cells i Cell_slots) f"
    "inode_cells i' = (written ws (inode_cells i))(Cell_slots := V_slots (slots i'))"
    unfolding updates_slots_def by (elim exE conjE) (rule that)
  have "(\<forall>f. m (selected (m Cell_slots) f) = inode_cells i (selected (inode_cells i Cell_slots) f)) \<or>
      (\<forall>f. m (selected (m Cell_slots) f) = inode_cells i' (selected (V_slots (slots i')) f))"
    unfolding u(5)
    by (rule islots.commit_atomic [OF u(2) _ u(3) assms(2) [unfolded u(1)]]) (rule u(4) [rule_format])
  then show ?thesis
    by (simp add: recovered_def fun_eq_iff)
qed

lemma updates_slotsI:
  assumes "es = slot_commit Cell_slots ws fs (V_slots (slots i'))" and "fst ` set ws \<subseteq> set fs"
    and "Cell_slots \<notin> fst ` set ws"
    and "\<And>k b. Cell_sec k b \<in> fst ` set ws \<or> Cell_nsec k b \<in> fst ` set ws \<Longrightarrow> b \<noteq> time_slot (slots i) k"
    and "\<And>b. Cell_size b \<in> fst ` set ws \<Longrightarrow> b \<noteq> sl_size (slots i)"
    and "inode_cells i' = (written ws (inode_cells i))(Cell_slots := V_slots (slots i'))"
  shows "updates_slots es i i'"
proof -
  have "selected (inode_cells i Cell_slots) f \<notin> fst ` set ws" for f
    using assms(4,5) by (cases f) (simp, blast)+
  then have "\<And>c f. c \<in> fst ` set ws \<Longrightarrow> c \<noteq> selected (inode_cells i Cell_slots) f"
    by blast
  then show ?thesis
    unfolding updates_slots_def by (intro exI conjI ballI allI) (use assms(1,2,3,6) in simp_all)
qed

lemma time_of_start_write:
  "time_of (start_write tm i) k b = (if k = Mtime \<and> b = inode_next_mtime_slot i then tm else time_of i k b)"
  "i_size (start_write tm i) = i_size i"
  by (simp_all add: start_write_def Let_def time_of_def split: time_kind.splits)

lemma start_write_updates: "updates_slots (start_write_events tm i) i (start_write tm i)"
proof -
  define b where "b = inode_next_mtime_slot i"
  define ws where "ws = [(Cell_sec Mtime b, V_int (sec tm)), (Cell_nsec Mtime b, V_int (nsec tm))]"
  show ?thesis
  proof (rule updates_slotsI [of _ ws "map fst ws"])
    show "start_write_events tm i = slot_commit Cell_slots ws (map fst ws) (V_slots (slots (start_write tm i)))"
      by (simp add: start_write_events_def slot_commit_def prepare_cells_def ws_def store_time_def flush_time_def
          start_write_def Let_def b_def)
    show "inode_cells (start_write tm i) = (written ws (inode_cells i))(Cell_slots := V_slots (slots (start_write tm i)))"
    proof
      fix c
      show "inode_cells (start_write tm i) c = ((written ws (inode_cells i))(Cell_slots := V_slots (slots (start_write tm i)))) c"
        by (cases c) (simp_all add: ws_def written_def time_of_start_write b_def)
    qed
  qed (auto simp: ws_def b_def inode_next_mtime_slot_def time_slot_def)
qed

text \<open>The decisions of \<open>finish_write\<close>.\<close>

definition grows :: "nat \<Rightarrow> vinode \<Rightarrow> bool" where
  "grows offset w \<longleftrightarrow> offset > inode_get_size (vi_inode w)"

definition sets_mtime :: "pmemfile_time \<Rightarrow> pmemfile_time \<Rightarrow> nat \<Rightarrow> vinode \<Rightarrow> bool" where
  "sets_mtime t1 t2 offset w \<longleftrightarrow>
     (sec t2 - sec t1) * 1000000000 + nsec t2 - nsec t1 \<ge> 1000000 \<or> grows offset w"

definition finish_cells :: "pmemfile_time \<Rightarrow> pmemfile_time \<Rightarrow> nat \<Rightarrow> vinode \<Rightarrow> (inode_cell \<times> cell_value) list" where
  "finish_cells t1 t2 offset w =
     (let i = vi_inode w; m = inode_next_mtime_slot i; a = inode_next_atime_slot i;
          s = inode_next_size_slot i; c = inode_next_ctime_slot i
      in [(Cell_sec Mtime m, V_int (sec t2)), (Cell_nsec Mtime m, V_int (nsec t2))] @
         (if atime_dirty w
          then [(Cell_sec Atime a, V_int (sec (vi_atime w))), (Cell_nsec Atime a, V_int (nsec (vi_atime w)))] else []) @
         (if grows offset w
          then [(Cell_size s, V_nat offset), (Cell_sec Ctime c, V_int (sec t2)), (Cell_nsec Ctime c, V_int (nsec t2))] else []))"

definition finish_flushes :: "nat \<Rightarrow> vinode \<Rightarrow> inode_cell list" where
  "finish_flushes offset w =
     (let i = vi_inode w; m = inode_next_mtime_slot i; a = inode_next_atime_slot i;
          s = inode_next_size_slot i; c = inode_next_ctime_slot i
      in (if atime_dirty w then [Cell_sec Atime a, Cell_nsec Atime a] else []) @ [Cell_sec Mtime m, Cell_nsec Mtime m] @
         (if grows offset w then [Cell_sec Ctime c, Cell_nsec Ctime c, Cell_size s] else []))"

lemma finish_write_idle:
  assumes "\<not> sets_mtime t1 t2 offset w"
  shows "finish_write_events t1 t2 offset w = []" and "vi_inode (finish_write t1 t2 offset w) = vi_inode w"
  using assms by (simp_all add: sets_mtime_def grows_def finish_write_events_def finish_write_def Let_def)

lemma finish_write_slots:
  assumes "sets_mtime t1 t2 offset w"
  shows "slots (vi_inode (finish_write t1 t2 offset w)) = (slots (vi_inode w))\<lparr>
     sl_atime := (if atime_dirty w then inode_next_atime_slot (vi_inode w) else sl_atime (slots (vi_inode w))),
     sl_ctime := (if grows offset w then inode_next_ctime_slot (vi_inode w) else sl_ctime (slots (vi_inode w))),
     sl_size := (if grows offset w then inode_next_size_slot (vi_inode w) else sl_size (slots (vi_inode w))),
     sl_mtime := inode_next_mtime_slot (vi_inode w)\<rparr>"
  using assms by (auto simp: sets_mtime_def grows_def finish_write_def Let_def)

lemma finish_write_events_commit:
  assumes "sets_mtime t1 t2 offset w"
  shows "finish_write_events t1 t2 offset w = slot_commit Cell_slots (finish_cells t1 t2 offset w)
     (finish_flushes offset w) (V_slots (slots (vi_inode (finish_write t1 t2 offset w))))"
  using assms unfolding finish_write_slots [OF assms]
  by (auto simp: finish_write_events_def sets_mtime_def grows_def slot_commit_def prepare_cells_def
      finish_cells_def finish_flushes_def store_time_def flush_time_def Let_def)

lemma time_of_finish_write:
  assumes "sets_mtime t1 t2 offset w"
  shows "time_of (vi_inode (finish_write t1 t2 offset w)) Mtime b =
      (if b = inode_next_mtime_slot (vi_inode w) then t2 else time_of (vi_inode w) Mtime b)"
    and "time_of (vi_inode (finish_write t1 t2 offset w)) Atime b =
      (if atime_dirty w \<and> b = inode_next_atime_slot (vi_inode w) then vi_atime w else time_of (vi_inode w) Atime b)"
    and "time_of (vi_inode (finish_write t1 t2 offset w)) Ctime b =
      (if grows offset w \<and> b = inode_next_ctime_slot (vi_inode w) then t2 else time_of (vi_inode w) Ctime b)"
    and "i_size (vi_inode (finish_write t1 t2 offset w)) b =
      (if grows offset w \<and> b = inode_next_size_slot (vi_inode w) then offset else i_size (vi_inode w) b)"
  using assms by (auto simp: finish_write_def time_of_def sets_mtime_def grows_def Let_def)

lemma finish_write_updates:
  assumes "sets_mtime t1 t2 offset w"
  shows "updates_slots (finish_write_events t1 t2 offset w) (vi_inode w) (vi_inode (finish_write t1 t2 offset w))"
proof (rule updates_slotsI [OF finish_write_events_commit [OF assms]])
  show "fst ` set (finish_cells t1 t2 offset w) \<subseteq> set (finish_flushes offset w)"
    by (auto simp: finish_cells_def finish_flushes_def Let_def)
  show "Cell_slots \<notin> fst ` set (finish_cells t1 t2 offset w)"
    by (auto simp: finish_cells_def Let_def split: if_splits)
  show "b \<noteq> time_slot (slots (vi_inode w)) k"
    if "Cell_sec k b \<in> fst ` set (finish_cells t1 t2 offset w) \<or> Cell_nsec k b \<in> fst ` set (finish_cells t1 t2 offset w)"
    for k b
    using that by (auto simp: finish_cells_def Let_def time_slot_def inode_next_mtime_slot_def inode_next_atime_slot_def
        inode_next_ctime_slot_def split: if_splits)
  show "b \<noteq> sl_size (slots (vi_inode w))" if "Cell_size b \<in> fst ` set (finish_cells t1 t2 offset w)" for b
    using that by (auto simp: finish_cells_def Let_def inode_next_size_slot_def split: if_splits)
  show "inode_cells (vi_inode (finish_write t1 t2 offset w)) =
      (written (finish_cells t1 t2 offset w) (inode_cells (vi_inode w)))
        (Cell_slots := V_slots (slots (vi_inode (finish_write t1 t2 offset w))))"
  proof
    fix c
    show "inode_cells (vi_inode (finish_write t1 t2 offset w)) c =
        ((written (finish_cells t1 t2 offset w) (inode_cells (vi_inode w)))
          (Cell_slots := V_slots (slots (vi_inode (finish_write t1 t2 offset w))))) c"
    proof (cases c)
      case (Cell_sec k b)
      then show ?thesis
        by (cases k) (simp_all add: written_def finish_cells_def Let_def time_of_finish_write [OF assms])
    next
      case (Cell_nsec k b)
      then show ?thesis
        by (cases k) (simp_all add: written_def finish_cells_def Let_def time_of_finish_write [OF assms])
    qed (simp_all add: written_def finish_cells_def Let_def time_of_finish_write [OF assms])
  qed
qed

lemma finish_write_run:
  "pm_run (finish_write_events t1 t2 offset w) (pm_clean (inode_cells (vi_inode w))) =
   pm_clean (inode_cells (vi_inode (finish_write t1 t2 offset w)))"
  using updates_slots_run [OF finish_write_updates] finish_write_idle by (cases "sets_mtime t1 t2 offset w") simp_all

lemma finish_write_crash:
  assumes "may_crash (finish_write_events t1 t2 offset w) (pm_clean (inode_cells (vi_inode w))) m"
  shows "recovered m = recovered (inode_cells (vi_inode w)) \<or>
    recovered m = recovered (inode_cells (vi_inode (finish_write t1 t2 offset w)))"
proof (cases "sets_mtime t1 t2 offset w")
  case True
  show ?thesis
    by (rule updates_slots_crash [OF finish_write_updates [OF True] assms])
next
  case False
  then show ?thesis
    using assms finish_write_idle [OF False] by simp
qed

section \<open>Properties\<close>

text \<open>
  Claim C3. A power failure at any point of a write leaves an inode that is recovered, field by
  field, to one of three states: the one before the write, the one with only the new modification time
  set before data was copied, or the final one. So a new size never appears without its time of change, and no torn time
  is ever seen. Without a failure everything is on the medium at the end, and the stores
  amount to the updates of the inode that the write makes.
\<close>

theorem write_crash_consistent:
  assumes "vi_inode w1 = start_write t1 i"
    and "may_crash (start_write_events t1 i @ finish_write_events t1 t2 offset w1) (pm_clean (inode_cells i)) m"
  shows "(recovered m = recovered (inode_cells i) \<or> recovered m = recovered (inode_cells (start_write t1 i)) \<or>
      recovered m = recovered (inode_cells (vi_inode (finish_write t1 t2 offset w1)))) \<and>
    pm_run (start_write_events t1 i @ finish_write_events t1 t2 offset w1) (pm_clean (inode_cells i)) =
      pm_clean (inode_cells (vi_inode (finish_write t1 t2 offset w1)))"
proof -
  note run = updates_slots_run [OF start_write_updates, of t1 i]
  have "may_crash (start_write_events t1 i) (pm_clean (inode_cells i)) m \<or>
      may_crash (finish_write_events t1 t2 offset w1) (pm_clean (inode_cells (vi_inode w1))) m"
    using assms(2) run by (simp only: may_crash_append assms(1))
  then have "recovered m = recovered (inode_cells i) \<or> recovered m = recovered (inode_cells (start_write t1 i)) \<or>
      recovered m = recovered (inode_cells (vi_inode (finish_write t1 t2 offset w1)))"
    using updates_slots_crash [OF start_write_updates] finish_write_crash [of t1 t2 offset w1 m] assms(1) by metis
  then show ?thesis
    using run finish_write_run [of t1 t2 offset w1] by (simp only: pm_run_append assms(1))
qed

theorem write_crash_consistent_witness:
  "\<exists>m. may_crash (start_write_events zero_time (sample_inode 10 16384) @
        finish_write_events zero_time \<lparr>sec = 5, nsec = 0\<rparr> 20
          ((sample_vinode [0])\<lparr>vi_inode := start_write zero_time (sample_inode 10 16384)\<rparr>))
        (pm_clean (inode_cells (sample_inode 10 16384))) m \<and>
     (recovered m = recovered (inode_cells (sample_inode 10 16384)) \<or>
      recovered m = recovered (inode_cells (start_write zero_time (sample_inode 10 16384))) \<or>
      recovered m = recovered (inode_cells (vi_inode (finish_write zero_time \<lparr>sec = 5, nsec = 0\<rparr> 20
          ((sample_vinode [0])\<lparr>vi_inode := start_write zero_time (sample_inode 10 16384)\<rparr>)))))"
proof -
  define i where "i = sample_inode 10 16384"
  define w where "w = (sample_vinode [0])\<lparr>vi_inode := start_write zero_time i\<rparr>"
  have w: "vi_inode w = start_write zero_time i"
    by (simp add: w_def)
  have "may_crash (start_write_events zero_time i @ finish_write_events zero_time \<lparr>sec = 5, nsec = 0\<rparr> 20 w)
      (pm_clean (inode_cells i)) (inode_cells i)"
    by (rule may_crash_here) simp
  from write_crash_consistent [OF w this] this show ?thesis
    unfolding i_def w_def by blast
qed

end
