(* ===== verification/Utils.thy ===== *)
theory Utils
  imports Pmf_Prelude
begin

text \<open>
  Strings (\<^verbatim>\<open>utils.c\<close>). A string that ends with a NUL character is the list of the characters before it, so
  the characters of a list are not NUL. A pointer into a string is the rest of the string from there.
\<close>

section \<open>Functions of the C library\<close>

definition slash :: char where
  "slash = CHR ''/''"

fun strchr :: "string \<Rightarrow> char \<Rightarrow> string option" where
  "strchr [] c = None"
| "strchr (x # s) c = (if x = c then Some (x # s) else strchr s c)"

text \<open>The difference of the first characters that differ, the end of a string counting as 0.\<close>

fun strncmp :: "string \<Rightarrow> string \<Rightarrow> nat \<Rightarrow> int" where
  "strncmp [] [] n = 0"
| "strncmp [] (y # t) n = (if n = 0 then 0 else - int (of_char y))"
| "strncmp (x # s) [] n = (if n = 0 then 0 else int (of_char x))"
| "strncmp (x # s) (y # t) n =
     (if n = 0 then 0 else if x = y then strncmp s t (n - 1) else int (of_char x) - int (of_char y))"

section \<open>Functions of the source\<close>

fun is_zeroed :: "nat list \<Rightarrow> bool" where
  "is_zeroed [] = True"
| "is_zeroed (x # a) = (if x \<noteq> 0 then False else is_zeroed a)"

text \<open>\<open>s1[s2n]\<close> is past the end of \<open>s1\<close> only when both strings end before \<open>s2n\<close>, which no caller
  does: the length is at most that of \<open>s2\<close>.\<close>

definition str_compare :: "string \<Rightarrow> string \<Rightarrow> nat \<Rightarrow> int" where
  "str_compare s1 s2 s2n =
     (let r = strncmp s1 s2 s2n in
      if r \<noteq> 0 then r else if s2n < length s1 then 1 else 0)"

definition str_contains :: "string \<Rightarrow> nat \<Rightarrow> char \<Rightarrow> bool" where
  "str_contains s len c = (c \<in> set (take len s))"

definition more_than_1_component :: "string \<Rightarrow> bool" where
  "more_than_1_component path =
     (case strchr path slash of
        None \<Rightarrow> False
      | Some p \<Rightarrow> dropWhile (\<lambda>x. x = slash) p \<noteq> [])"

definition component_length :: "string \<Rightarrow> nat" where
  "component_length path =
     (case strchr path slash of
        None \<Rightarrow> length path
      | Some s \<Rightarrow> length path - length s)"

definition pmfi_strndup :: "answers \<Rightarrow> string \<Rightarrow> nat \<Rightarrow> string option \<times> answers" where
  "pmfi_strndup os c len = (let (ok, os1) = pf_calloc os in (if ok then Some (take len c) else None, os1))"

section \<open>Lemmas\<close>

lemma of_char_pos: "CHR 0x00 \<noteq> x \<Longrightarrow> 0 < (of_char x :: nat)"
  using of_char_eq_iff [where ?'a = nat, of "CHR 0x00" x] by simp

lemma strncmp_zero:
  "CHR 0x00 \<notin> set s \<Longrightarrow> CHR 0x00 \<notin> set t \<Longrightarrow> strncmp s t n = 0 \<longleftrightarrow> take n s = take n t"
  by (induction s t n rule: strncmp.induct) (auto dest: of_char_pos simp: take_Cons' split: if_splits)

lemma str_compare_zero:
  assumes "CHR 0x00 \<notin> set s" and "CHR 0x00 \<notin> set t" and "n \<le> length t"
  shows "str_compare s t n = 0 \<longleftrightarrow> s = take n t"
  using strncmp_zero [OF assms(1,2), of n] assms(3)
  by (auto simp: str_compare_def Let_def min_def split: if_splits)

lemma strchr_split:
  "strchr s c = (case dropWhile (\<lambda>x. x \<noteq> c) s of [] \<Rightarrow> None | y # ys \<Rightarrow> Some (y # ys))"
  by (induction s) auto

lemma component_length_takeWhile: "component_length path = length (takeWhile (\<lambda>x. x \<noteq> slash) path)"
  unfolding component_length_def strchr_split
  by (metis (no_types, lifting) add_diff_cancel_right' append_Nil2 length_append list.exhaust list.simps(4) list.simps(5)
      option.simps(4) option.simps(5) takeWhile_dropWhile_id)

lemma component_length_take: "take (component_length path) path = takeWhile (\<lambda>x. x \<noteq> slash) path"
  unfolding component_length_takeWhile by (simp add: takeWhile_eq_take [symmetric])

end
