(* ===== verification/Truncate.thy ===== *)
theory Truncate
  imports Write
begin

text \<open>
  Changing the size of a file (\<^verbatim>\<open>truncate.c\<close>) and allocating and punching holes
  (\<^verbatim>\<open>fallocate.c\<close>). Functions return the error number and the vinode; for the calls of the API, -1 with
  \<^verbatim>\<open>errno\<close> is \<open>Inl\<close>. \<^verbatim>\<open>pmemfile_truncate\<close>, which finds the file by its path, is not modelled.
\<close>

section \<open>Truncation\<close>

text \<open>The work of the transaction: the new allocated space and the blocks.\<close>

definition truncate_blocks ::
  "block_conf \<Rightarrow> store \<Rightarrow> bool \<Rightarrow> inode \<Rightarrow> pfile \<Rightarrow> nat \<Rightarrow> (nat \<times> pfile) tx_result" where
  "truncate_blocks c st over i v sz =
     tx_bind (vinode_remove_interval v sz (UINT64_MAX - sz)) (\<lambda>(freed, v1).
       let space = sub64 (inode_get_allocated_space i) freed; inode_size = inode_get_size i in
       if inode_size < sz then
         tx_bind (vinode_allocate_interval c st over inode_size v1 inode_size (sz - inode_size)) (\<lambda>(got, v2).
           tx_ret (add64 space got, v2))
       else tx_ret (space, v1))"

definition vinode_truncate ::
  "block_conf \<Rightarrow> store \<Rightarrow> bool \<Rightarrow> pmemfile_time \<Rightarrow> vinode \<Rightarrow> nat \<Rightarrow> (errno \<times> vinode) option" where
  "vinode_truncate c st over tm w sz =
     (case (if blocks (vdata w) = None then vinode_rebuild_block_tree (vdata w) else Some (0, vdata w)) of
        None \<Rightarrow> None
      | Some (err, v0) \<Rightarrow>
          let w0 = w\<lparr>vdata := v0\<rparr> in
          if err \<noteq> 0 then Some (err, w0)
          else
            let w1 = vinode_snapshot w0; i = vi_inode w1 in
            (case truncate_blocks c st over i (vdata w1) sz of
              None \<Rightarrow> None
            | Some (Inl e) \<Rightarrow>
                Some (if e = ENOMEM then EFBIG else e,
                      vinode_restore_on_abort (w1\<lparr>vdata := (vdata w1)\<lparr>invalidations := invalidations (vdata w1) + 1\<rparr>\<rparr>))
            | Some (Inr (space, v2)) \<Rightarrow>
                let i1 = (if inode_get_size i \<noteq> sz
                          then inode_tx_set_ctime tm (inode_tx_set_mtime tm (inode_tx_set_size sz i)) else i)
                in Some (0, w1\<lparr>vdata := v2, vi_inode := inode_tx_set_allocated_space space i1\<rparr>)))"

definition ftruncate_vinode ::
  "block_conf \<Rightarrow> store \<Rightarrow> bool \<Rightarrow> pmemfile_time \<Rightarrow> vinode \<Rightarrow> nat \<Rightarrow> (errno \<times> vinode) option" where
  "ftruncate_vinode c st over tm w len =
     (if \<not> vinode_is_regular_file w then Some (EINVAL, w) else vinode_truncate c st over tm w len)"

definition pmemfile_ftruncate ::
  "block_conf \<Rightarrow> store \<Rightarrow> bool \<Rightarrow> pmemfile_time \<Rightarrow> bool \<Rightarrow> pmemfile_file option \<Rightarrow> vinode \<Rightarrow> int
    \<Rightarrow> ((errno + unit) \<times> vinode) option" where
  "pmemfile_ftruncate c st over tm pfp f w len =
     (if \<not> pfp then Some (Inl EFAULT, w)
      else
        (case f of
           None \<Rightarrow> Some (Inl EFAULT, w)
         | Some g \<Rightarrow>
             if len < 0 then Some (Inl EINVAL, w)
             else if vinode_is_dir w then Some (Inl EINVAL, w)
             else if f_flags g AND PFILE_PATH \<noteq> 0 then Some (Inl EBADF, w)
             else if f_flags g AND PFILE_WRITE = 0 then Some (Inl EINVAL, w)
             else
               map_option (\<lambda>(err, w'). (if err \<noteq> 0 then Inl err else Inr (), w'))
                 (ftruncate_vinode c st over tm w (nat len))))"

section \<open>Allocation and holes\<close>

definition PMEMFILE_FALLOC_FL_KEEP_SIZE :: nat where "PMEMFILE_FALLOC_FL_KEEP_SIZE = 1"
definition PMEMFILE_FALLOC_FL_PUNCH_HOLE :: nat where "PMEMFILE_FALLOC_FL_PUNCH_HOLE = 2"
definition PMEMFILE_FALLOC_FL_COLLAPSE_RANGE :: nat where "PMEMFILE_FALLOC_FL_COLLAPSE_RANGE = 8"
definition PMEMFILE_FALLOC_FL_ZERO_RANGE :: nat where "PMEMFILE_FALLOC_FL_ZERO_RANGE = 16"
definition PMEMFILE_FALLOC_FL_INSERT_RANGE :: nat where "PMEMFILE_FALLOC_FL_INSERT_RANGE = 32"

text \<open>The work of the transaction: the new inode and the blocks.\<close>

definition fallocate_blocks ::
  "block_conf \<Rightarrow> store \<Rightarrow> bool \<Rightarrow> inode \<Rightarrow> pfile \<Rightarrow> nat \<Rightarrow> nat \<Rightarrow> nat \<Rightarrow> nat \<Rightarrow> (inode \<times> pfile) tx_result" where
  "fallocate_blocks c st over i v mode offset len off_plus_len =
     (let space = inode_get_allocated_space i in
      if mode AND PMEMFILE_FALLOC_FL_PUNCH_HOLE \<noteq> 0 then
        tx_bind (vinode_remove_interval v offset len) (\<lambda>(freed, v1).
          tx_ret (inode_tx_set_allocated_space (sub64 space freed) i, v1))
      else
        tx_bind (vinode_allocate_interval c st over (inode_get_size i) v offset len) (\<lambda>(got, v1).
          let i1 = (if mode AND PMEMFILE_FALLOC_FL_KEEP_SIZE = 0 \<and> inode_get_size i < off_plus_len
                    then inode_tx_set_size off_plus_len i else i)
          in tx_ret (inode_tx_set_allocated_space (add64 space got) i1, v1)))"

definition vinode_fallocate ::
  "block_conf \<Rightarrow> store \<Rightarrow> bool \<Rightarrow> vinode \<Rightarrow> nat \<Rightarrow> nat \<Rightarrow> nat \<Rightarrow> (errno \<times> vinode) option" where
  "vinode_fallocate c st over w mode offset0 len0 =
     (if \<not> vinode_is_regular_file w then Some (EBADF, w)
      else
        let off_plus_len = add64 offset0 len0;
            punch = (mode AND PMEMFILE_FALLOC_FL_PUNCH_HOLE \<noteq> 0);
            (offset, len) = (if punch then (offset0, len0) else expand_to_full_pages c offset0 len0)
        in if len = 0 then Some (0, w)
           else
             let w1 = vinode_snapshot w in
             case (if blocks (vdata w1) = None then vinode_rebuild_block_tree (vdata w1) else Some (0, vdata w1)) of
               None \<Rightarrow> None
             | Some (err, v0) \<Rightarrow>
                 let w2 = w1\<lparr>vdata := v0\<rparr> in
                 if err \<noteq> 0 then Some (err, w2)
                 else
                   (case fallocate_blocks c st over (vi_inode w2) (vdata w2) mode offset len off_plus_len of
                      None \<Rightarrow> None
                    | Some (Inl e) \<Rightarrow>
                        Some (if e = ENOMEM then ENOSPC else e,
                          vinode_restore_on_abort (if punch
                            then w2\<lparr>vdata := (vdata w2)\<lparr>invalidations := invalidations (vdata w2) + 1\<rparr>\<rparr> else w2))
                    | Some (Inr (i, v1)) \<Rightarrow> Some (0, w2\<lparr>vdata := v1, vi_inode := i\<rparr>)))"

definition fallocate_check_arguments :: "nat \<Rightarrow> int \<Rightarrow> int \<Rightarrow> errno" where
  "fallocate_check_arguments mode offset len =
     (if len \<le> 0 \<or> offset < 0 then EINVAL
      else if SSIZE_MAX < add64 (nat offset) (nat len) then EFBIG
      else if mode AND PMEMFILE_FALLOC_FL_COLLAPSE_RANGE \<noteq> 0 then EOPNOTSUPP
      else if mode AND PMEMFILE_FALLOC_FL_ZERO_RANGE \<noteq> 0 then EOPNOTSUPP
      else if mode AND PMEMFILE_FALLOC_FL_INSERT_RANGE \<noteq> 0 then EOPNOTSUPP
      else if mode AND PMEMFILE_FALLOC_FL_PUNCH_HOLE \<noteq> 0 then
        (if mode \<noteq> PMEMFILE_FALLOC_FL_PUNCH_HOLE OR PMEMFILE_FALLOC_FL_KEEP_SIZE then EOPNOTSUPP else 0)
      else if mode \<noteq> mode AND PMEMFILE_FALLOC_FL_KEEP_SIZE then EINVAL
      else 0)"

definition pmemfile_fallocate ::
  "block_conf \<Rightarrow> store \<Rightarrow> bool \<Rightarrow> bool \<Rightarrow> pmemfile_file option \<Rightarrow> vinode \<Rightarrow> nat \<Rightarrow> int \<Rightarrow> int
    \<Rightarrow> ((errno + unit) \<times> vinode) option" where
  "pmemfile_fallocate c st over pfp f w mode offset len =
     (if \<not> pfp then Some (Inl EFAULT, w)
      else
        (case f of
           None \<Rightarrow> Some (Inl EFAULT, w)
         | Some g \<Rightarrow>
             let err = fallocate_check_arguments mode offset len in
             if err \<noteq> 0 then Some (Inl err, w)
             else if f_flags g AND PFILE_WRITE = 0 then Some (Inl EBADF, w)
             else
               map_option (\<lambda>(err, w'). (if err \<noteq> 0 then Inl err else Inr (), w'))
                 (vinode_fallocate c st over w mode (nat offset) (nat len))))"

definition pmemfile_posix_fallocate ::
  "block_conf \<Rightarrow> store \<Rightarrow> bool \<Rightarrow> bool \<Rightarrow> pmemfile_file option \<Rightarrow> vinode \<Rightarrow> int \<Rightarrow> int
    \<Rightarrow> ((errno + unit) \<times> vinode) option" where
  "pmemfile_posix_fallocate c st over pfp f w offset len = pmemfile_fallocate c st over pfp f w 0 offset len"

section \<open>Lemmas\<close>

text \<open>
  No block starts a multiple of 4 GiB after the aligned offset; the allocation mishandles such a
  block when it is the first one.
\<close>

definition no_wide_hole :: "nat \<Rightarrow> pfile \<Rightarrow> bptr list \<Rightarrow> nat \<Rightarrow> bool" where
  "no_wide_hole A v ps offset \<longleftrightarrow> (\<forall>k \<in> ext_off ` set (exts v ps).
     k \<le> offset \<or> (k - (offset - offset mod A)) mod W32 \<noteq> 0)"

lemma no_wide_hole_first: "no_wide_hole A v ps offset \<Longrightarrow> first_hole_ok A v ps offset"
  by (auto simp: no_wide_hole_def first_hole_ok_def exts_def payload_def split: list.splits)

lemma first_hole_cong: "exts v' ps = exts v ps \<Longrightarrow> first_hole_ok A v' ps offset = first_hole_ok A v ps offset"
  by (auto simp: first_hole_ok_def exts_def payload_def split: list.splits)

lemma no_wide_hole_mono:
  "no_wide_hole A v ps offset \<Longrightarrow> ext_off ` set (exts v' ps') \<subseteq> ext_off ` set (exts v ps) \<Longrightarrow> no_wide_hole A v' ps' offset"
  unfolding no_wide_hole_def by blast

definition cut_at :: "nat \<Rightarrow> (nat \<Rightarrow> byte) \<Rightarrow> nat \<Rightarrow> byte" where
  "cut_at n g = (\<lambda>x. if x < n then g x else 0)"

lemma truncate_blocks_ok:
  assumes f: "file_ok A v ps" and c: "conf_ok c A" and st: "store_ok st" and b: "sz \<le> SSIZE_MAX"
    and i: "inode_get_allocated_space i = space_of (exts v ps)" "inode_get_size i \<le> 2 ^ 63"
    and z: "\<And>x. inode_get_size i \<le> x \<Longrightarrow> content (datas v) (exts v ps) x = 0"
    and hole: "no_wide_hole A v ps (inode_get_size i)"
  shows "(\<exists>e. truncate_blocks c st over i v sz = tx_fail e \<and> store_fails st e) \<or>
    (\<exists>v' ps'. truncate_blocks c st over i v sz = tx_ret (space_of (exts v' ps'), v') \<and> file_ok A v' ps' \<and>
       content (datas v') (exts v' ps') = cut_at sz (content (datas v) (exts v ps)) \<and>
       invalidations v' = invalidations v + 1)"
proof -
  have al: "MIN_BLOCK_SIZE dvd A"
    using c by (simp add: conf_ok_def)
  have bd: "sz + (UINT64_MAX - sz) = W64 - 1" "sz + (UINT64_MAX - sz) < W64" "0 < UINT64_MAX - sz"
    using b by (simp_all add: UINT64_MAX_def SSIZE_MAX_def W64_def)
  from remove_interval_ok [OF f al bd(2,3)] obtain freed v1 ps1 where r:
    "vinode_remove_interval v sz (UINT64_MAX - sz) = tx_ret (freed, v1)" "file_ok A v1 ps1"
    "content (datas v1) (exts v1 ps1) = zeroed sz (UINT64_MAX - sz) (content (datas v) (exts v ps))"
    "freed + space_of (exts v1 ps1) = space_of (exts v ps)" "invalidations v1 = invalidations v + 1"
    "ext_off ` set (exts v1 ps1) \<subseteq> ext_off ` set (exts v ps)"
    by (elim exE conjE) (rule that)
  have cut: "content (datas v1) (exts v1 ps1) = cut_at sz (content (datas v) (exts v ps))"
  proof
    fix x
    show "content (datas v1) (exts v1 ps1) x = cut_at sz (content (datas v) (exts v ps)) x"
    proof (cases "x < W64 - 1")
      case True
      then show ?thesis
        using r(3) bd(1) by (simp add: zeroed_def cut_at_def)
    next
      case False
      then have "inode_get_size i \<le> x" "sz \<le> x"
        using i(2) b by (simp_all add: W64_def SSIZE_MAX_def)
      then show ?thesis
        using r(3) bd(1) z [of x] False by (simp add: zeroed_def cut_at_def)
    qed
  qed
  have sp: "space_of (exts v ps) < W64"
    using f by (auto simp: file_ok_def intro: space_of_bound)
  then have s1: "sub64 (inode_get_allocated_space i) freed = space_of (exts v1 ps1)"
    using i(1) r(4) by (simp add: sub64_exact)
  show ?thesis
  proof (cases "inode_get_size i < sz")
    case False
    then show ?thesis
      using r(1,2,5) s1 cut by (intro disjI2 exI [of _ v1] exI [of _ ps1]) (simp add: truncate_blocks_def)
  next
    case True
    have n: "0 < sz - inode_get_size i" "inode_get_size i + (sz - inode_get_size i) \<le> 2 ^ 63"
      using True b by (simp_all add: SSIZE_MAX_def)
    have hole1: "first_hole_ok A v1 ps1 (inode_get_size i)"
      by (rule no_wide_hole_first [OF no_wide_hole_mono [OF hole r(6)]])
    from alloc_post_allocated [OF allocate_interval_ok [OF r(2) c st n hole1, of over "inode_get_size i"] r(2)]
    show ?thesis
    proof (elim disjE exE conjE)
      fix e
      assume "vinode_allocate_interval c st over (inode_get_size i) v1 (inode_get_size i) (sz - inode_get_size i) = tx_fail e"
        "store_fails st e"
      then show ?thesis
        using r(1) True by (simp add: truncate_blocks_def Let_def)
    next
      fix space v' ps'
      assume a: "vinode_allocate_interval c st over (inode_get_size i) v1 (inode_get_size i) (sz - inode_get_size i) =
          tx_ret (space, v')" "file_ok A v' ps'"
        "content (datas v') (exts v' ps') = content (datas v1) (exts v1 ps1)"
        "space_of (exts v' ps') = space_of (exts v1 ps1) + space" "invalidations v' = invalidations v1"
      have "space_of (exts v' ps') < W64"
        using a(2) by (auto simp: file_ok_def intro: space_of_bound)
      then have "add64 (space_of (exts v1 ps1)) space = space_of (exts v' ps')"
        using a(4) by (simp add: add64_exact)
      then show ?thesis
        using r(1,5) True s1 a(1,2,3,5) cut
        by (intro disjI2 exI [of _ v'] exI [of _ ps']) (simp add: truncate_blocks_def Let_def)
    qed
  qed
qed

text \<open>The state in which both operations start their transaction.\<close>

lemma tx_start:
  assumes w: "vinode_ok A w ps" and al: "MIN_BLOCK_SIZE dvd A"
  obtains v where
    "(if blocks (vdata w) = None then vinode_rebuild_block_tree (vdata w) else Some (0, vdata w)) = Some (0, v)"
    and "file_ok A v ps" and "exts v ps = exts (vdata w) ps" and "datas v = datas (vdata w)"
    and "invalidations v = invalidations (vdata w)"
    and "vinode_ok A ((vinode_snapshot w)\<lparr>vdata := v\<rparr>) ps" and "vinode_ok A (vinode_snapshot (w\<lparr>vdata := v\<rparr>)) ps"
    and "first_free v = first_free (vdata w)"
proof -
  obtain v where v:
    "(if blocks (vdata w) = None then vinode_rebuild_block_tree (vdata w) else Some (0, vdata w)) = Some (0, v)"
    "file_ok A v ps" "descs v = descs (vdata w)" "datas v = datas (vdata w)"
    "invalidations v = invalidations (vdata w)" "first_free v = first_free (vdata w)" "vinode_ok A (w\<lparr>vdata := v\<rparr>) ps"
    by (rule tree_ready [OF w al]) (rule that)
  have "vinode_ok A ((vinode_snapshot w)\<lparr>vdata := v\<rparr>) ps"
    using v(7) by (simp add: vinode_ok_def vinode_snapshot_def vinode_content_def vinode_is_regular_file_def)
  then show thesis
    using v exts_cong [OF v(3)] by (intro that [of v]) (simp_all add: snapshot_ok)
qed

lemma fallocate_check_arguments_ok:
  assumes "fallocate_check_arguments mode offset len = 0" and "offset < 2 ^ 63" and "len < 2 ^ 63"
  shows "0 < len" and "0 \<le> offset" and "nat offset + nat len \<le> SSIZE_MAX"
    and "mode = 3 \<and> mode AND PMEMFILE_FALLOC_FL_PUNCH_HOLE \<noteq> 0 \<or>
      mode \<in> {0, 1} \<and> mode AND PMEMFILE_FALLOC_FL_PUNCH_HOLE = 0 \<and> (mode AND PMEMFILE_FALLOC_FL_KEEP_SIZE = 0 \<longleftrightarrow> mode = 0)"
proof -
  have p: "0 < len" "0 \<le> offset" "add64 (nat offset) (nat len) \<le> SSIZE_MAX"
    using assms(1) by (auto simp: fallocate_check_arguments_def split: if_splits)
  then show "0 < len" "0 \<le> offset" "nat offset + nat len \<le> SSIZE_MAX"
    using assms(2,3) by (simp_all add: add64_exact W64_def)
  have "mode AND 2 \<noteq> 0 \<and> mode = 3 \<or> mode AND 2 = 0 \<and> mode = mode AND 1"
    using assms(1) by (auto simp: fallocate_check_arguments_def PMEMFILE_FALLOC_FL_PUNCH_HOLE_def
        PMEMFILE_FALLOC_FL_KEEP_SIZE_def split: if_splits)
  then show "mode = 3 \<and> mode AND PMEMFILE_FALLOC_FL_PUNCH_HOLE \<noteq> 0 \<or>
      mode \<in> {0, 1} \<and> mode AND PMEMFILE_FALLOC_FL_PUNCH_HOLE = 0 \<and> (mode AND PMEMFILE_FALLOC_FL_KEEP_SIZE = 0 \<longleftrightarrow> mode = 0)"
    by (auto simp: PMEMFILE_FALLOC_FL_PUNCH_HOLE_def PMEMFILE_FALLOC_FL_KEEP_SIZE_def and_one_eq)
qed

text \<open>An interval that ends below 2^63 still does so when it is expanded to whole blocks.\<close>

lemma expanded_interval:
  assumes c: "conf_ok c A" and n: "0 < n" and b: "offset + n \<le> 2 ^ 63"
    and e: "expand_to_full_pages c offset n = (offset', n')"
  shows "offset' = offset - offset mod A" and "offset' \<le> offset" and "offset + n \<le> offset' + n'" and "0 < n'"
    and "offset' + n' \<le> 2 ^ 63"
proof -
  obtain k where k: "pow2_conf c k" "A = 2 ^ k"
    using c by (auto simp: conf_ok_def)
  have A: "A < W32"
    using c by (simp add: conf_ok_def)
  then have b': "offset + n + 2 ^ k \<le> W64"
    using b k(2) by (simp add: W64_def W32_def)
  note x = expand_to_full_pages_bounds [OF k(1) b' e, folded k(2)]
  show "offset' = offset - offset mod A"
    using e k by (auto simp: expand_to_full_pages_def Let_def pow2_conf_def)
  show le: "offset' \<le> offset" "offset + n \<le> offset' + n'"
    using x by simp_all
  show "0 < n'"
    using le n by simp
  have "k < 32"
    using A k(2) by (simp add: W32_def power_strict_increasing_iff [of "2::nat" k 32, simplified])
  then have "A dvd 2 ^ 63"
    unfolding k(2) by (intro le_imp_power_dvd) simp
  then have d: "A dvd 2 ^ 63" "A dvd offset' + n'"
    using x by simp_all
  show "offset' + n' \<le> 2 ^ 63"
  proof (rule ccontr)
    assume "\<not> offset' + n' \<le> 2 ^ 63"
    moreover have "A dvd (offset' + n') - 2 ^ 63"
      using d by simp
    ultimately have "A \<le> (offset' + n') - 2 ^ 63"
      by (intro dvd_imp_le) simp_all
    then show False
      using x b \<open>\<not> offset' + n' \<le> 2 ^ 63\<close> by linarith
  qed
qed

text \<open>Punching a hole, and allocating an interval of whole blocks, in the transaction.\<close>

lemma punch_blocks_ok:
  assumes f: "file_ok A v ps" and al: "MIN_BLOCK_SIZE dvd A" and n: "0 < n" and b: "offset + n \<le> 2 ^ 63"
    and i: "inode_get_allocated_space i = space_of (exts v ps)" and m: "mode AND PMEMFILE_FALLOC_FL_PUNCH_HOLE \<noteq> 0"
  shows "\<exists>v' ps'. fallocate_blocks c st over i v mode offset n e = tx_ret (inode_tx_set_allocated_space (space_of (exts v' ps')) i, v') \<and>
    file_ok A v' ps' \<and> content (datas v') (exts v' ps') = zeroed offset n (content (datas v) (exts v ps))"
proof -
  have w: "offset + n < W64"
    using b by (simp add: W64_def)
  from remove_interval_ok [OF f al w n] obtain freed v1 ps1 where r:
    "vinode_remove_interval v offset n = tx_ret (freed, v1)" "file_ok A v1 ps1"
    "content (datas v1) (exts v1 ps1) = zeroed offset n (content (datas v) (exts v ps))"
    "freed + space_of (exts v1 ps1) = space_of (exts v ps)"
    by (elim exE conjE) (rule that)
  have "space_of (exts v ps) < W64"
    using f by (auto simp: file_ok_def intro: space_of_bound)
  then have "sub64 (inode_get_allocated_space i) freed = space_of (exts v1 ps1)"
    using i r(4) by (simp add: sub64_exact)
  then show ?thesis
    using r m by (intro exI [of _ v1] exI [of _ ps1]) (simp add: fallocate_blocks_def Let_def)
qed

lemma reserve_blocks_ok:
  assumes f: "file_ok A v ps" and c: "conf_ok c A" and st: "store_ok st" and n: "0 < n" and b: "offset + n \<le> 2 ^ 63"
    and hole: "first_hole_ok A v ps offset"
    and i: "inode_get_allocated_space i = space_of (exts v ps)" and m: "mode AND PMEMFILE_FALLOC_FL_PUNCH_HOLE = 0"
  shows "(\<exists>e. fallocate_blocks c st over i v mode offset n fin = tx_fail e \<and> store_fails st e) \<or>
    (\<exists>v' ps'. fallocate_blocks c st over i v mode offset n fin =
        tx_ret (inode_tx_set_allocated_space (space_of (exts v' ps'))
          (if mode AND PMEMFILE_FALLOC_FL_KEEP_SIZE = 0 \<and> inode_get_size i < fin then inode_tx_set_size fin i else i), v') \<and>
      file_ok A v' ps' \<and> content (datas v') (exts v' ps') = content (datas v) (exts v ps) \<and>
      (\<forall>x. offset \<le> x \<and> x < offset + n \<longrightarrow> (\<exists>p \<in> set ps'. in_block (descs v' p) x)))"
  using alloc_post_allocated [OF allocate_interval_ok [OF f c st n b hole, of over "inode_get_size i"] f]
proof (elim disjE exE conjE)
  fix e
  assume "vinode_allocate_interval c st over (inode_get_size i) v offset n = tx_fail e" "store_fails st e"
  then show ?thesis
    using m by (simp add: fallocate_blocks_def Let_def)
next
  fix space v' ps'
  assume a: "vinode_allocate_interval c st over (inode_get_size i) v offset n = tx_ret (space, v')" "file_ok A v' ps'"
    "\<forall>x. offset \<le> x \<and> x < offset + n \<longrightarrow> (\<exists>p \<in> set ps'. in_block (descs v' p) x)"
    "content (datas v') (exts v' ps') = content (datas v) (exts v ps)"
    "space_of (exts v' ps') = space_of (exts v ps) + space"
  have "space_of (exts v' ps') < W64"
    using a(2) by (auto simp: file_ok_def intro: space_of_bound)
  then have "add64 (inode_get_allocated_space i) space = space_of (exts v' ps')"
    using a(5) i by (simp add: add64_exact)
  then show ?thesis
    using m a(1-4) by (intro disjI2 exI [of _ v'] exI [of _ ps']) (simp add: fallocate_blocks_def Let_def)
qed

text \<open>The whole operation, once the work of the transaction is known.\<close>

lemma fallocate_call:
  assumes w: "vinode_ok A w ps" and n: "0 < n"
    and v: "(if blocks (vdata w) = None then vinode_rebuild_block_tree (vdata w) else Some (0, vdata w)) = Some (0, v)"
    and o: "(if mode AND PMEMFILE_FALLOC_FL_PUNCH_HOLE \<noteq> 0 then (offset0, len0) else expand_to_full_pages c offset0 len0) = (offset, n)"
  shows "vinode_fallocate c st over w mode offset0 len0 =
    (case fallocate_blocks c st over (vi_inode w) v mode offset n (add64 offset0 len0) of
       None \<Rightarrow> None
     | Some (Inl e) \<Rightarrow> Some (if e = ENOMEM then ENOSPC else e, vinode_restore_on_abort
         ((vinode_snapshot w)\<lparr>vdata := (if mode AND PMEMFILE_FALLOC_FL_PUNCH_HOLE \<noteq> 0
            then v\<lparr>invalidations := invalidations v + 1\<rparr> else v)\<rparr>))
     | Some (Inr (i, v1)) \<Rightarrow> Some (0, (vinode_snapshot w)\<lparr>vdata := v1, vi_inode := i\<rparr>))"
proof -
  have r: "vinode_is_regular_file w"
    using w by (simp add: vinode_ok_def)
  have i: "vi_inode ((vinode_snapshot w)\<lparr>vdata := v\<rparr>) = vi_inode w" "n \<noteq> 0"
    using n by (simp_all add: snapshot_ok)
  show ?thesis
    unfolding vinode_fallocate_def Let_def o prod.case snapshot_ok(3) v option.case
    using r i by (cases "mode AND PMEMFILE_FALLOC_FL_PUNCH_HOLE = 0") (simp_all split: option.split sum.split)
qed

text \<open>The vinode after the transaction.\<close>

lemma fallocate_done:
  assumes w: "vinode_ok A w ps" and f: "file_ok A v' ps'" and "inode_is_regular_file j" and "inode_get_size j \<le> 2 ^ 63"
    and "\<And>x. inode_get_size j \<le> x \<Longrightarrow> content (datas v') (exts v' ps') x = 0"
  shows "vinode_ok A ((vinode_snapshot w)\<lparr>vdata := v', vi_inode := inode_tx_set_allocated_space (space_of (exts v' ps')) j\<rparr>) ps'"
  by (rule vinode_ok_data [OF w f])
    (use assms in \<open>simp_all add: inode_simps vinode_is_regular_file_def inode_is_regular_file_def\<close>)

lemma vinode_fallocate_punch_ok:
  assumes w: "vinode_ok A w ps" and al: "MIN_BLOCK_SIZE dvd A" and n: "0 < n" and b: "offset + n \<le> 2 ^ 63"
    and m: "mode AND PMEMFILE_FALLOC_FL_PUNCH_HOLE \<noteq> 0"
  shows "\<exists>w' ps'. vinode_fallocate c st over w mode offset n = Some (0, w') \<and> vinode_ok A w' ps' \<and>
    inode_get_size (vi_inode w') = inode_get_size (vi_inode w) \<and>
    vinode_content w' ps' = zeroed offset n (vinode_content w ps)"
proof -
  obtain v where v:
    "(if blocks (vdata w) = None then vinode_rebuild_block_tree (vdata w) else Some (0, vdata w)) = Some (0, v)"
    "file_ok A v ps" "exts v ps = exts (vdata w) ps" "datas v = datas (vdata w)"
    by (rule tx_start [OF w al]) (rule that)
  have i: "inode_get_allocated_space (vi_inode w) = space_of (exts v ps)"
    and z: "vinode_content w ps = content (datas v) (exts v ps)" "inode_is_regular_file (vi_inode w)"
      "inode_get_size (vi_inode w) \<le> 2 ^ 63"
      "\<And>x. inode_get_size (vi_inode w) \<le> x \<Longrightarrow> content (datas v) (exts v ps) x = 0"
    using w v(3,4) by (simp_all add: vinode_ok_def vinode_content_def vinode_is_regular_file_def)
  obtain v' ps' where r:
    "fallocate_blocks c st over (vi_inode w) v mode offset n (add64 offset n) =
      tx_ret (inode_tx_set_allocated_space (space_of (exts v' ps')) (vi_inode w), v')"
    "file_ok A v' ps'" "content (datas v') (exts v' ps') = zeroed offset n (content (datas v) (exts v ps))"
    using punch_blocks_ok [OF v(2) al n b i m, of c st over "add64 offset n"] by (elim exE conjE) (rule that)
  define w' where
    "w' = (vinode_snapshot w)\<lparr>vdata := v', vi_inode := inode_tx_set_allocated_space (space_of (exts v' ps')) (vi_inode w)\<rparr>"
  have "vinode_ok A w' ps'"
    unfolding w'_def by (rule fallocate_done [OF w r(2)]) (use r z in \<open>simp_all add: zeroed_def\<close>)
  moreover have "vinode_fallocate c st over w mode offset n = Some (0, w')"
    using fallocate_call [OF w n v(1), of mode offset n c offset st over] m r(1) by (simp add: w'_def)
  ultimately show ?thesis
    using r(3) z(1) by (intro exI [of _ w'] exI [of _ ps']) (simp add: w'_def vinode_content_def inode_simps)
qed

lemma vinode_fallocate_reserve_ok:
  assumes w: "vinode_ok A w ps" and c: "conf_ok c A" and st: "store_ok st" and n: "0 < n" and b: "offset + n \<le> 2 ^ 63"
    and hole: "first_hole_ok A (vdata w) ps (offset - offset mod A)" and m: "mode AND PMEMFILE_FALLOC_FL_PUNCH_HOLE = 0"
  shows "(\<exists>e w'. vinode_fallocate c st over w mode offset n = Some (if e = ENOMEM then ENOSPC else e, w') \<and> store_fails st e \<and>
      vinode_ok A w' ps \<and> vinode_content w' ps = vinode_content w ps \<and> vi_inode w' = vi_inode w) \<or>
    (\<exists>w' ps'. vinode_fallocate c st over w mode offset n = Some (0, w') \<and> vinode_ok A w' ps' \<and>
      inode_get_size (vi_inode w') = (if mode AND PMEMFILE_FALLOC_FL_KEEP_SIZE = 0
        then max (inode_get_size (vi_inode w)) (offset + n) else inode_get_size (vi_inode w)) \<and>
      vinode_content w' ps' = vinode_content w ps \<and>
      (\<forall>x. offset \<le> x \<and> x < offset + n \<longrightarrow> (\<exists>p \<in> set ps'. in_block (descs (vdata w') p) x)))"
proof -
  have al: "MIN_BLOCK_SIZE dvd A"
    using c by (simp add: conf_ok_def)
  obtain v where v:
    "(if blocks (vdata w) = None then vinode_rebuild_block_tree (vdata w) else Some (0, vdata w)) = Some (0, v)"
    "file_ok A v ps" "exts v ps = exts (vdata w) ps" "datas v = datas (vdata w)"
    "invalidations v = invalidations (vdata w)" "vinode_ok A ((vinode_snapshot w)\<lparr>vdata := v\<rparr>) ps"
    "vinode_ok A (vinode_snapshot (w\<lparr>vdata := v\<rparr>)) ps" "first_free v = first_free (vdata w)"
    by (rule tx_start [OF w al]) (rule that)
  obtain off k where e: "expand_to_full_pages c offset n = (off, k)"
    by (cases "expand_to_full_pages c offset n")
  note x = expanded_interval [OF c n b e]
  have fin: "add64 offset n = offset + n"
    using b by (simp add: add64_exact W64_def)
  have i: "inode_get_allocated_space (vi_inode w) = space_of (exts v ps)"
    and z: "vinode_content w ps = content (datas v) (exts v ps)" "inode_is_regular_file (vi_inode w)"
      "inode_get_size (vi_inode w) \<le> 2 ^ 63"
      "\<And>x. inode_get_size (vi_inode w) \<le> x \<Longrightarrow> content (datas v) (exts v ps) x = 0"
    using w v(3,4) by (simp_all add: vinode_ok_def vinode_content_def vinode_is_regular_file_def)
  have h: "first_hole_ok A v ps off"
    using hole first_hole_cong [OF v(3)] x(1) by simp
  have o: "(if mode AND PMEMFILE_FALLOC_FL_PUNCH_HOLE \<noteq> 0 then (offset, n) else expand_to_full_pages c offset n) = (off, k)"
    using m e by simp
  note call = fallocate_call [OF w x(4) v(1) o, of st over, unfolded fin]
  define j where "j = (if mode AND PMEMFILE_FALLOC_FL_KEEP_SIZE = 0 \<and> inode_get_size (vi_inode w) < offset + n
    then inode_tx_set_size (offset + n) (vi_inode w) else vi_inode w)"
  have j: "inode_get_size j = (if mode AND PMEMFILE_FALLOC_FL_KEEP_SIZE = 0
      then max (inode_get_size (vi_inode w)) (offset + n) else inode_get_size (vi_inode w))" "inode_is_regular_file j"
    "inode_get_size (vi_inode w) \<le> inode_get_size j" "inode_get_size j \<le> 2 ^ 63"
    using z(2,3) b by (auto simp: j_def inode_simps inode_is_regular_file_def)
  from reserve_blocks_ok [OF v(2) c st x(4,5) h i m, of over "offset + n", folded j_def] show ?thesis
  proof (elim disjE exE conjE)
    fix e
    assume e: "fallocate_blocks c st over (vi_inode w) v mode off k (offset + n) = tx_fail e" "store_fails st e"
    define w' where "w' = vinode_restore_on_abort ((vinode_snapshot w)\<lparr>vdata := v\<rparr>)"
    have sf: "snap_first_free ((vinode_snapshot w)\<lparr>vdata := v\<rparr>) = first_free (vdata ((vinode_snapshot w)\<lparr>vdata := v\<rparr>))"
      using v(8) by (simp add: snapshot_ok)
    have "vinode_ok A w' ps" "vinode_content w' ps = vinode_content w ps"
      using restore_on_abort_ok [OF v(6) sf, of "invalidations v"] z(1) by (simp_all add: w'_def vinode_content_def)
    moreover have "vi_inode w' = vi_inode w"
      by (simp add: w'_def vinode_restore_on_abort_def snapshot_ok)
    ultimately show ?thesis
      using call e m by (intro disjI1 exI [of _ e] exI [of _ w']) (simp add: w'_def)
  next
    fix v' ps'
    assume r: "fallocate_blocks c st over (vi_inode w) v mode off k (offset + n) =
        tx_ret (inode_tx_set_allocated_space (space_of (exts v' ps')) j, v')"
      "file_ok A v' ps'" "content (datas v') (exts v' ps') = content (datas v) (exts v ps)"
      "\<forall>x. off \<le> x \<and> x < off + k \<longrightarrow> (\<exists>p \<in> set ps'. in_block (descs v' p) x)"
    define w' where "w' = (vinode_snapshot w)\<lparr>vdata := v', vi_inode := inode_tx_set_allocated_space (space_of (exts v' ps')) j\<rparr>"
    have "vinode_ok A w' ps'"
      unfolding w'_def by (rule fallocate_done [OF w r(2) j(2,4)]) (use r(3) z(4) j(3) in simp)
    moreover have "\<forall>x. offset \<le> x \<and> x < offset + n \<longrightarrow> (\<exists>p \<in> set ps'. in_block (descs v' p) x)"
      using r(4) x(2,3) by (meson le_trans order_less_le_trans)
    ultimately show ?thesis
      using call r(1,3) z(1) j(1)
      by (intro disjI2 exI [of _ w'] exI [of _ ps']) (simp add: w'_def vinode_content_def inode_simps)
  qed
qed

section \<open>Properties\<close>

text \<open>
  Claim C10. Changing the size of a regular file either fails with an error of an allocation
  (\<^verbatim>\<open>EFBIG\<close> for \<^verbatim>\<open>ENOMEM\<close>) and leaves the content and the inode as they were, or sets the size, keeps all bytes
  before it and makes all others read as zero, so that bytes cut off never come back. The recorded
  space is that of the blocks, the invariant holds again, and cached block pointers of open files are invalidated.
\<close>

theorem vinode_truncate_correct:
  assumes "vinode_ok A w ps" and "conf_ok c A" and "store_ok st" and "\<not> store_fails st 0" and "sz \<le> SSIZE_MAX"
    and "no_wide_hole A (vdata w) ps (inode_get_size (vi_inode w))"
  shows "\<exists>err w'. vinode_truncate c st over tm w sz = Some (err, w') \<and>
    invalidations (vdata w') = invalidations (vdata w) + 1 \<and>
    (if err = 0
     then \<exists>ps'. vinode_ok A w' ps' \<and> inode_get_size (vi_inode w') = sz \<and>
       vinode_content w' ps' = (\<lambda>x. if x < sz then vinode_content w ps x else 0)
     else (\<exists>e. err = (if e = ENOMEM then EFBIG else e) \<and> store_fails st e) \<and> vinode_ok A w' ps \<and>
       vinode_content w' ps = vinode_content w ps \<and> vi_inode w' = vi_inode w)"
proof -
  have al: "MIN_BLOCK_SIZE dvd A"
    using assms(2) by (simp add: conf_ok_def)
  obtain v where v:
    "(if blocks (vdata w) = None then vinode_rebuild_block_tree (vdata w) else Some (0, vdata w)) = Some (0, v)"
    "file_ok A v ps" "exts v ps = exts (vdata w) ps" "datas v = datas (vdata w)"
    "invalidations v = invalidations (vdata w)" "vinode_ok A ((vinode_snapshot w)\<lparr>vdata := v\<rparr>) ps"
    "vinode_ok A (vinode_snapshot (w\<lparr>vdata := v\<rparr>)) ps" "first_free v = first_free (vdata w)"
    by (rule tx_start [OF assms(1) al]) (rule that)
  define w1 where "w1 = vinode_snapshot (w\<lparr>vdata := v\<rparr>)"
  let ?i = "vi_inode w"
  have w1: "vdata w1 = v" "vi_inode w1 = ?i" "vinode_ok A w1 ps" "snap_first_free w1 = first_free (vdata w1)"
    "vinode_content w1 ps = vinode_content w ps"
    using v(3,4,7) by (simp_all add: w1_def vinode_snapshot_def vinode_content_def)
  have i: "inode_get_allocated_space ?i = space_of (exts v ps)" "inode_get_size ?i \<le> 2 ^ 63"
    "\<And>x. inode_get_size ?i \<le> x \<Longrightarrow> content (datas v) (exts v ps) x = 0"
    using assms(1) v(3,4) by (simp_all add: vinode_ok_def vinode_content_def)
  have hole: "no_wide_hole A v ps (inode_get_size ?i)"
    using assms(6) v(3) by (simp add: no_wide_hole_def)
  have call: "vinode_truncate c st over tm w sz = (case truncate_blocks c st over ?i v sz of
      None \<Rightarrow> None
    | Some (Inl e) \<Rightarrow> Some (if e = ENOMEM then EFBIG else e,
        vinode_restore_on_abort (w1\<lparr>vdata := (vdata w1)\<lparr>invalidations := invalidations (vdata w1) + 1\<rparr>\<rparr>))
    | Some (Inr (space, v2)) \<Rightarrow>
        let i1 = (if inode_get_size ?i \<noteq> sz
                  then inode_tx_set_ctime tm (inode_tx_set_mtime tm (inode_tx_set_size sz ?i)) else ?i)
        in Some (0, w1\<lparr>vdata := v2, vi_inode := inode_tx_set_allocated_space space i1\<rparr>))"
    unfolding vinode_truncate_def v(1) option.case prod.case Let_def w1_def [symmetric] w1(1,2) by simp
  have "(\<exists>e. truncate_blocks c st over ?i v sz = tx_fail e \<and> store_fails st e) \<or>
    (\<exists>v' ps'. truncate_blocks c st over ?i v sz = tx_ret (space_of (exts v' ps'), v') \<and> file_ok A v' ps' \<and>
      content (datas v') (exts v' ps') = cut_at sz (content (datas v) (exts v ps)) \<and> invalidations v' = invalidations v + 1)"
    by (rule truncate_blocks_ok [OF v(2) assms(2,3,5) i(1,2) _ hole]) (rule i(3))
  then show ?thesis
  proof (elim disjE exE conjE)
    fix e
    assume e: "truncate_blocks c st over ?i v sz = tx_fail e" "store_fails st e"
    have "(if e = ENOMEM then EFBIG else e) \<noteq> 0"
      using e(2) assms(4) by (cases "e = 0") auto
    then show ?thesis
      unfolding call using e restore_on_abort_ok [OF w1(3,4), of "invalidations (vdata w1) + 1"] w1 v(5)
      by (auto simp: vinode_restore_on_abort_def)
  next
    fix v' ps'
    assume a: "truncate_blocks c st over ?i v sz = tx_ret (space_of (exts v' ps'), v')" "file_ok A v' ps'"
      "content (datas v') (exts v' ps') = cut_at sz (content (datas v) (exts v ps))"
      "invalidations v' = invalidations v + 1"
    define i1 where "i1 = (if inode_get_size ?i \<noteq> sz
        then inode_tx_set_ctime tm (inode_tx_set_mtime tm (inode_tx_set_size sz ?i)) else ?i)"
    define w' where "w' = w1\<lparr>vdata := v', vi_inode := inode_tx_set_allocated_space (space_of (exts v' ps')) i1\<rparr>"
    have i1: "inode_get_size i1 = sz" "inode_is_regular_file i1 = inode_is_regular_file ?i"
      by (simp_all add: i1_def inode_simps inode_is_regular_file_def)
    have ct: "content (datas v') (exts v' ps') = (\<lambda>x. if x < sz then vinode_content w ps x else 0)"
      using a(3) v(3,4) by (simp add: cut_at_def vinode_content_def fun_eq_iff)
    have "vinode_ok A w' ps'"
    proof (rule vinode_ok_data [OF assms(1) a(2)])
      show "inode_get_size (vi_inode w') \<le> 2 ^ 63"
        using assms(5) i1(1) by (simp add: w'_def inode_simps SSIZE_MAX_def)
      show "content (datas v') (exts v' ps') x = 0" if "inode_get_size (vi_inode w') \<le> x" for x
        using that ct i1(1) by (simp add: w'_def inode_simps)
    qed (use assms(1) i1 in \<open>simp_all add: w'_def inode_simps vinode_is_regular_file_def inode_is_regular_file_def vinode_ok_def\<close>)
    then show ?thesis
      unfolding call using a(1,4) v(5) i1(1) ct
      by (intro exI [of _ 0] exI [of _ w']) (auto simp: w'_def i1_def [symmetric] inode_simps vinode_content_def)
  qed
qed

theorem vinode_truncate_correct_witness:
  "vinode_ok MIN_BLOCK_SIZE (sample_vinode [0, 2]) (sample_ptrs [0, 2]) \<and>
   no_wide_hole MIN_BLOCK_SIZE (vdata (sample_vinode [0, 2])) (sample_ptrs [0, 2]) (inode_get_size (vi_inode (sample_vinode [0, 2]))) \<and>
   (\<exists>err w'. vinode_truncate default_conf sample_store False zero_time (sample_vinode [0, 2]) 100 = Some (err, w') \<and>
     (if err = 0 then inode_get_size (vi_inode w') = 100 else vi_inode w' = vi_inode (sample_vinode [0, 2])))"
proof -
  have h: "no_wide_hole MIN_BLOCK_SIZE (vdata (sample_vinode [0, 2])) (sample_ptrs [0, 2])
      (inode_get_size (vi_inode (sample_vinode [0, 2])))"
    by (simp add: no_wide_hole_def sample_vinode_def sample_exts MIN_BLOCK_SIZE_def upt_rec)
  have b: "100 \<le> SSIZE_MAX"
    by (simp add: SSIZE_MAX_def)
  show ?thesis
    using vinode_truncate_correct [OF sample_vinode_ok [OF sample_02] conf_ok_default sample_store_ok sample_store_errors b h,
        of False zero_time] h sample_vinode_ok [OF sample_02]
    by (fastforce split: if_splits)
qed

text \<open>
  Claim C16. \<^verbatim>\<open>pmemfile_fallocate\<close> on a file open for writing returns the error of the argument check, or an
  error of the allocator (\<^verbatim>\<open>ENOSPC\<close> for \<^verbatim>\<open>ENOMEM\<close>), with content and inode as they were. On success,
  punching a hole zeroes exactly the interval and keeps the size; the other modes leave every byte as it is, put every byte of
  the interval into a block, and move the end of the file up to the end of the interval when the mode says so and it is
  below it.
\<close>

theorem pmemfile_fallocate_correct:
  assumes "vinode_ok A w ps" and "conf_ok c A" and "store_ok st" and "\<not> store_fails st 0"
    and "f_flags f AND PFILE_WRITE \<noteq> 0" and "offset < 2 ^ 63" and "len < 2 ^ 63"
    and "first_hole_ok A (vdata w) ps (nat offset - nat offset mod A)"
  shows "\<exists>res w'. pmemfile_fallocate c st over True (Some f) w mode offset len = Some (res, w') \<and>
    (case res of
       Inl err \<Rightarrow> err \<noteq> 0 \<and> vinode_ok A w' ps \<and> vinode_content w' ps = vinode_content w ps \<and> vi_inode w' = vi_inode w \<and>
         (err = fallocate_check_arguments mode offset len \<or> (\<exists>e. err = (if e = ENOMEM then ENOSPC else e) \<and> store_fails st e))
     | Inr _ \<Rightarrow> fallocate_check_arguments mode offset len = 0 \<and> (\<exists>ps'. vinode_ok A w' ps' \<and>
         (if mode AND PMEMFILE_FALLOC_FL_PUNCH_HOLE \<noteq> 0
          then inode_get_size (vi_inode w') = inode_get_size (vi_inode w) \<and>
            vinode_content w' ps' = zeroed (nat offset) (nat len) (vinode_content w ps)
          else inode_get_size (vi_inode w') = (if mode AND PMEMFILE_FALLOC_FL_KEEP_SIZE = 0
              then max (inode_get_size (vi_inode w)) (nat offset + nat len) else inode_get_size (vi_inode w)) \<and>
            vinode_content w' ps' = vinode_content w ps \<and>
            (\<forall>x. nat offset \<le> x \<and> x < nat offset + nat len \<longrightarrow> (\<exists>p \<in> set ps'. in_block (descs (vdata w') p) x)))))"
proof (cases "fallocate_check_arguments mode offset len = 0")
  case False
  then show ?thesis
    using assms(1) by (simp add: pmemfile_fallocate_def)
next
  case True
  note ar = fallocate_check_arguments_ok [OF True assms(6,7)]
  have al: "MIN_BLOCK_SIZE dvd A" and b: "0 < nat len" "nat offset + nat len \<le> 2 ^ 63"
    using assms(2) ar by (simp_all add: conf_ok_def SSIZE_MAX_def)
  have top: "pmemfile_fallocate c st over True (Some f) w mode offset len = map_option (\<lambda>(err, w'). (if err \<noteq> 0 then Inl err else Inr (), w'))
      (vinode_fallocate c st over w mode (nat offset) (nat len))"
    using True assms(5) by (simp add: pmemfile_fallocate_def)
  show ?thesis
  proof (cases "mode AND PMEMFILE_FALLOC_FL_PUNCH_HOLE = 0")
    case False
    obtain w' ps' where "vinode_fallocate c st over w mode (nat offset) (nat len) = Some (0, w')" "vinode_ok A w' ps'"
      "inode_get_size (vi_inode w') = inode_get_size (vi_inode w)"
      "vinode_content w' ps' = zeroed (nat offset) (nat len) (vinode_content w ps)"
      using vinode_fallocate_punch_ok [OF assms(1) al b False, of c st over] by (elim exE conjE) (rule that)
    then show ?thesis
      using False True unfolding top by (intro exI [of _ "Inr ()"] exI [of _ w']) auto
  next
    case m: True
    from vinode_fallocate_reserve_ok [OF assms(1,2,3) b assms(8) m, of over] show ?thesis
    proof (elim disjE exE conjE)
      fix e w'
      assume e: "vinode_fallocate c st over w mode (nat offset) (nat len) = Some (if e = ENOMEM then ENOSPC else e, w')"
        "store_fails st e" "vinode_ok A w' ps" "vinode_content w' ps = vinode_content w ps" "vi_inode w' = vi_inode w"
      have "(if e = ENOMEM then ENOSPC else e) \<noteq> 0"
        using e(2) assms(4) by (cases "e = 0") auto
      then show ?thesis
        using e unfolding top by (intro exI [of _ "Inl (if e = ENOMEM then ENOSPC else e)"] exI [of _ w']) auto
    next
      fix w' ps'
      assume "vinode_fallocate c st over w mode (nat offset) (nat len) = Some (0, w')" "vinode_ok A w' ps'"
        "inode_get_size (vi_inode w') = (if mode AND PMEMFILE_FALLOC_FL_KEEP_SIZE = 0
          then max (inode_get_size (vi_inode w)) (nat offset + nat len) else inode_get_size (vi_inode w))"
        "vinode_content w' ps' = vinode_content w ps"
        "\<forall>x. nat offset \<le> x \<and> x < nat offset + nat len \<longrightarrow> (\<exists>p \<in> set ps'. in_block (descs (vdata w') p) x)"
      then show ?thesis
        using m True unfolding top
        by (intro exI [of _ "Inr ()"] exI [of _ w'])
          (simp only: sum.case option.map prod.case if_True simp_thms HOL.simp_thms, intro conjI exI [of _ ps'], simp_all)
    qed
  qed
qed

theorem pmemfile_fallocate_correct_witness:
  "vinode_ok MIN_BLOCK_SIZE (sample_vinode [0, 2]) (sample_ptrs [0, 2]) \<and>
   first_hole_ok MIN_BLOCK_SIZE (vdata (sample_vinode [0, 2])) (sample_ptrs [0, 2]) (nat 100 - nat 100 mod MIN_BLOCK_SIZE) \<and>
   fallocate_check_arguments 0 100 50000 = 0 \<and>
   (\<exists>res w'. pmemfile_fallocate default_conf sample_store False True
        (Some \<lparr>f_flags = PFILE_WRITE, f_offset = 0, block_pointer_cache = None, invalidation_observed = 0\<rparr>)
        (sample_vinode [0, 2]) 0 100 50000 = Some (res, w') \<and>
     (if res = Inr () then inode_get_size (vi_inode w') = 50100 else vi_inode w' = vi_inode (sample_vinode [0, 2])))"
proof -
  have h: "first_hole_ok MIN_BLOCK_SIZE (vdata (sample_vinode [0, 2])) (sample_ptrs [0, 2]) (nat 100 - nat 100 mod MIN_BLOCK_SIZE)"
    by (simp add: first_hole_ok_def sample_vinode_def sample_ptrs_def sample_file_def sample_desc_def MIN_BLOCK_SIZE_def upt_rec)
  have f: "f_flags \<lparr>f_flags = PFILE_WRITE, f_offset = 0, block_pointer_cache = None, invalidation_observed = 0\<rparr> AND PFILE_WRITE \<noteq> 0"
    by (simp add: PFILE_WRITE_def)
  have "(100::int) < 2 ^ 63" "(50000::int) < 2 ^ 63" "inode_get_size (vi_inode (sample_vinode [0, 2])) = 49152"
    by (simp_all add: sample_vinode_def MIN_BLOCK_SIZE_def)
  moreover have "fallocate_check_arguments 0 100 50000 = 0" "(0::nat) AND PMEMFILE_FALLOC_FL_PUNCH_HOLE = 0"
    "(0::nat) AND PMEMFILE_FALLOC_FL_KEEP_SIZE = 0"
    by (simp_all add: fallocate_check_arguments_def SSIZE_MAX_def add64_def W64_def)
  ultimately show ?thesis
    using pmemfile_fallocate_correct [OF sample_vinode_ok [OF sample_02] conf_ok_default sample_store_ok sample_store_errors f _ _ h,
        of 50000 False 0] h sample_vinode_ok [OF sample_02]
    by (fastforce split: if_splits sum.splits)
qed

end
