(* ===== verification/Creds.thy ===== *)
theory Creds
  imports Pmf_Prelude
begin

text \<open>
  Credentials of the process and the access check (\<^verbatim>\<open>creds.c\<close>, \<^verbatim>\<open>creds.h\<close>). The credentials of
  a pool are a record; each call takes the pool, \<open>None\<close> standing for a null pointer, and returns
  its result (\<open>Inl\<close> an error number for -1 with \<^verbatim>\<open>errno\<close>) with the pool's new credentials. User
  and group ids are 32-bit numbers, file modes and capabilities are sets of bits.

  The array of supplementary groups is C memory: the null pointer, an allocated array, or memory
  that has been freed. Reading freed memory is undefined, which is the result \<open>None\<close>.
\<close>

section \<open>Constants\<close>

definition PMEMFILE_CAP_CHOWN :: nat where "PMEMFILE_CAP_CHOWN = 0"
definition PMEMFILE_CAP_FOWNER :: nat where "PMEMFILE_CAP_FOWNER = 3"
definition PMEMFILE_CAP_FSETID :: nat where "PMEMFILE_CAP_FSETID = 4"

definition PFILE_WANT_READ :: nat where "PFILE_WANT_READ = 1"
definition PFILE_WANT_WRITE :: nat where "PFILE_WANT_WRITE = 2"
definition PFILE_WANT_EXECUTE :: nat where "PFILE_WANT_EXECUTE = 4"
definition PFILE_USE_FACCESS :: nat where "PFILE_USE_FACCESS = 0"
definition PFILE_USE_EACCESS :: nat where "PFILE_USE_EACCESS = 8"
definition PFILE_USE_RACCESS :: nat where "PFILE_USE_RACCESS = 16"
definition PFILE_ACCESS_MASK :: nat where "PFILE_ACCESS_MASK = 24"

definition PMEMFILE_S_IRUSR :: nat where "PMEMFILE_S_IRUSR = 256"
definition PMEMFILE_S_IWUSR :: nat where "PMEMFILE_S_IWUSR = 128"
definition PMEMFILE_S_IXUSR :: nat where "PMEMFILE_S_IXUSR = 64"
definition PMEMFILE_S_IRGRP :: nat where "PMEMFILE_S_IRGRP = 32"
definition PMEMFILE_S_IWGRP :: nat where "PMEMFILE_S_IWGRP = 16"
definition PMEMFILE_S_IXGRP :: nat where "PMEMFILE_S_IXGRP = 8"
definition PMEMFILE_S_IROTH :: nat where "PMEMFILE_S_IROTH = 4"
definition PMEMFILE_S_IWOTH :: nat where "PMEMFILE_S_IWOTH = 2"
definition PMEMFILE_S_IXOTH :: nat where "PMEMFILE_S_IXOTH = 1"
definition PMEMFILE_ACCESSPERMS :: nat where "PMEMFILE_ACCESSPERMS = 511"
definition PMEMFILE_ALLPERMS :: nat where "PMEMFILE_ALLPERMS = 4095"

definition INT_MAX :: nat where "INT_MAX = 2147483647"

text \<open>\<^verbatim>\<open>(pmemfile_uid_t)-1\<close>, the id that stands for no change.\<close>

definition no_id :: nat where "no_id = 4294967295"

section \<open>Data\<close>

datatype gid_mem = Null | Gids "nat list" | Freed

record pmemfile_cred =
  ruid :: nat
  rgid :: nat
  euid :: nat
  egid :: nat
  fsuid :: nat
  fsgid :: nat
  groups :: gid_mem
  groupsnum :: nat
  caps :: int

record inode_perms =
  perm_flags :: nat
  perm_uid :: nat
  perm_gid :: nat

section \<open>Setting and reading ids\<close>

definition pmemfile_setreuid ::
  "pmemfile_cred option \<Rightarrow> nat \<Rightarrow> nat \<Rightarrow> (errno + int) \<times> pmemfile_cred option" where
  "pmemfile_setreuid pfp r e =
     (case pfp of
        None \<Rightarrow> (Inl EFAULT, None)
      | Some c \<Rightarrow>
          if r \<noteq> no_id \<and> r > INT_MAX then (Inl EINVAL, Some c)
          else if e \<noteq> no_id \<and> e > INT_MAX then (Inl EINVAL, Some c)
          else
            let c1 = (if r \<noteq> no_id then c\<lparr>ruid := r\<rparr> else c);
                c2 = (if e \<noteq> no_id then c1\<lparr>euid := e, fsuid := e\<rparr> else c1)
            in (Inr 0, Some c2))"

definition pmemfile_setregid ::
  "pmemfile_cred option \<Rightarrow> nat \<Rightarrow> nat \<Rightarrow> (errno + int) \<times> pmemfile_cred option" where
  "pmemfile_setregid pfp r e =
     (case pfp of
        None \<Rightarrow> (Inl EFAULT, None)
      | Some c \<Rightarrow>
          if r \<noteq> no_id \<and> r > INT_MAX then (Inl EINVAL, Some c)
          else if e \<noteq> no_id \<and> e > INT_MAX then (Inl EINVAL, Some c)
          else
            let c1 = (if r \<noteq> no_id then c\<lparr>rgid := r\<rparr> else c);
                c2 = (if e \<noteq> no_id then c1\<lparr>egid := e, fsgid := e\<rparr> else c1)
            in (Inr 0, Some c2))"

definition pmemfile_setuid ::
  "pmemfile_cred option \<Rightarrow> nat \<Rightarrow> (errno + int) \<times> pmemfile_cred option" where
  "pmemfile_setuid pfp uid = pmemfile_setreuid pfp no_id uid"

definition pmemfile_setgid ::
  "pmemfile_cred option \<Rightarrow> nat \<Rightarrow> (errno + int) \<times> pmemfile_cred option" where
  "pmemfile_setgid pfp gid = pmemfile_setregid pfp no_id gid"

definition pmemfile_seteuid ::
  "pmemfile_cred option \<Rightarrow> nat \<Rightarrow> (errno + int) \<times> pmemfile_cred option" where
  "pmemfile_seteuid pfp uid = pmemfile_setreuid pfp no_id uid"

definition pmemfile_setegid ::
  "pmemfile_cred option \<Rightarrow> nat \<Rightarrow> (errno + int) \<times> pmemfile_cred option" where
  "pmemfile_setegid pfp gid = pmemfile_setregid pfp no_id gid"

definition pmemfile_getuid :: "pmemfile_cred \<Rightarrow> nat" where
  "pmemfile_getuid c = ruid c"

definition pmemfile_getgid :: "pmemfile_cred \<Rightarrow> nat" where
  "pmemfile_getgid c = rgid c"

definition pmemfile_geteuid :: "pmemfile_cred \<Rightarrow> nat" where
  "pmemfile_geteuid c = euid c"

definition pmemfile_getegid :: "pmemfile_cred \<Rightarrow> nat" where
  "pmemfile_getegid c = egid c"

text \<open>The cast of an id to \<^verbatim>\<open>int\<close>.\<close>

definition as_int :: "nat \<Rightarrow> int" where
  "as_int n = (if n \<le> INT_MAX then int n else int n - int W32)"

definition pmemfile_setfsuid ::
  "pmemfile_cred option \<Rightarrow> nat \<Rightarrow> (errno + int) \<times> pmemfile_cred option" where
  "pmemfile_setfsuid pfp uid =
     (case pfp of
        None \<Rightarrow> (Inl EFAULT, None)
      | Some c \<Rightarrow>
          if uid > INT_MAX then (Inl EINVAL, Some c)
          else (Inr (as_int (fsuid c)), Some (c\<lparr>fsuid := uid\<rparr>)))"

definition pmemfile_setfsgid ::
  "pmemfile_cred option \<Rightarrow> nat \<Rightarrow> (errno + int) \<times> pmemfile_cred option" where
  "pmemfile_setfsgid pfp gid =
     (case pfp of
        None \<Rightarrow> (Inl EFAULT, None)
      | Some c \<Rightarrow>
          if gid > INT_MAX then (Inl EINVAL, Some c)
          else (Inr (as_int (fsgid c)), Some (c\<lparr>fsgid := gid\<rparr>)))"

section \<open>Supplementary groups\<close>

text \<open>
  \<open>copy_gids m n\<close> is \<^verbatim>\<open>memcpy\<close> of \<open>n\<close> entries from the array, undefined when the array is not
  there.
\<close>

definition copy_gids :: "gid_mem \<Rightarrow> nat \<Rightarrow> nat list option" where
  "copy_gids m n =
     (if n = 0 then Some []
      else (case m of Gids gs \<Rightarrow> if n \<le> length gs then Some (take n gs) else None | _ \<Rightarrow> None))"

definition pmemfile_getgroups :: "pmemfile_cred option \<Rightarrow> int \<Rightarrow> (errno + nat list) option" where
  "pmemfile_getgroups pfp sz =
     (case pfp of
        None \<Rightarrow> Some (Inl EFAULT)
      | Some c \<Rightarrow>
          if sz < 0 then Some (Inl EINVAL)
          else if groupsnum c > nat sz then Some (Inl EINVAL)
          else (case copy_gids (groups c) (groupsnum c) of
                  None \<Rightarrow> None
                | Some gs \<Rightarrow> Some (Inr gs)))"

text \<open>
  \<^verbatim>\<open>pf_realloc\<close> of an array of ids. Besides the failure that the allocator decides on, a resize of
  an allocated array to no bytes frees it and returns a null pointer, leaving \<^verbatim>\<open>errno\<close> alone: the
  behaviour of \<^verbatim>\<open>realloc\<close> in the GNU C library. The result is the returned pointer, what the old
  pointer refers to afterwards, and \<^verbatim>\<open>errno\<close>.
\<close>

definition realloc_gids ::
  "answers \<Rightarrow> errno \<Rightarrow> gid_mem \<Rightarrow> nat \<Rightarrow> gid_mem \<times> gid_mem \<times> errno \<times> answers" where
  "realloc_gids os en m n =
     (let (ok, os') = pf_calloc os in
      if \<not> ok then (Null, m, ENOMEM, os')
      else if n = 0 \<and> m \<noteq> Null then (Null, Freed, en, os')
      else (Gids (replicate n 0), Freed, en, os'))"

definition pmemfile_setgroups ::
  "answers \<Rightarrow> errno \<Rightarrow> pmemfile_cred option \<Rightarrow> nat list
    \<Rightarrow> ((errno + int) \<times> pmemfile_cred option) option" where
  "pmemfile_setgroups os en pfp gs =
     (case pfp of
        None \<Rightarrow> Some (Inl EFAULT, None)
      | Some c \<Rightarrow>
          if length gs \<noteq> groupsnum c then
            (if groups c = Freed then None
             else
               (case realloc_gids os en (groups c) (length gs) of
                  (r, old, en', _) \<Rightarrow>
                    if r = Null then
                      Some (if en' \<noteq> 0 then Inl en' else Inr 0, Some (c\<lparr>groups := old\<rparr>))
                    else Some (Inr 0, Some (c\<lparr>groups := Gids gs, groupsnum := length gs\<rparr>))))
          else if gs = [] then Some (Inr 0, Some c)
          else
            (case groups c of
               Gids _ \<Rightarrow> Some (Inr 0, Some (c\<lparr>groups := Gids gs\<rparr>))
             | _ \<Rightarrow> None))"

section \<open>Capabilities\<close>

definition known_cap :: "int \<Rightarrow> bool" where
  "known_cap cap \<longleftrightarrow>
     cap = int PMEMFILE_CAP_CHOWN \<or> cap = int PMEMFILE_CAP_FOWNER \<or> cap = int PMEMFILE_CAP_FSETID"

definition pmemfile_setcap ::
  "pmemfile_cred option \<Rightarrow> int \<Rightarrow> (errno + int) \<times> pmemfile_cred option" where
  "pmemfile_setcap pfp cap =
     (case pfp of
        None \<Rightarrow> (Inl EFAULT, None)
      | Some c \<Rightarrow>
          if known_cap cap then (Inr 0, Some (c\<lparr>caps := caps c OR push_bit (nat cap) 1\<rparr>))
          else (Inl EINVAL, Some c))"

definition pmemfile_clrcap ::
  "pmemfile_cred option \<Rightarrow> int \<Rightarrow> (errno + int) \<times> pmemfile_cred option" where
  "pmemfile_clrcap pfp cap =
     (case pfp of
        None \<Rightarrow> (Inl EFAULT, None)
      | Some c \<Rightarrow>
          if known_cap cap then (Inr 0, Some (c\<lparr>caps := caps c AND NOT (push_bit (nat cap) 1)\<rparr>))
          else (Inl EINVAL, Some c))"

section \<open>Copies of the credentials\<close>

text \<open>The result is the return code of the source, 0 or -1, with the copy.\<close>

definition copy_cred :: "answers \<Rightarrow> pmemfile_cred \<Rightarrow> (int \<times> pmemfile_cred) option" where
  "copy_cred os src =
     (if groupsnum src \<noteq> 0 then
        (let (ok, _) = pf_calloc os in
         if \<not> ok then Some (-1, src\<lparr>groups := Null\<rparr>)
         else (case copy_gids (groups src) (groupsnum src) of
                 None \<Rightarrow> None
               | Some gs \<Rightarrow> Some (0, src\<lparr>groups := Gids gs\<rparr>)))
      else Some (0, src\<lparr>groups := Null\<rparr>))"

definition cred_acquire :: "answers \<Rightarrow> pmemfile_cred \<Rightarrow> (int \<times> pmemfile_cred) option" where
  "cred_acquire os c = copy_cred os c"

definition cred_release :: "pmemfile_cred \<Rightarrow> pmemfile_cred" where
  "cred_release c = \<lparr>ruid = 0, rgid = 0, euid = 0, egid = 0, fsuid = 0, fsgid = 0,
     groups = Null, groupsnum = 0, caps = 0\<rparr>"

section \<open>The access check\<close>

text \<open>Credentials that are checked come from \<^verbatim>\<open>copy_cred\<close>, so their array is allocated.\<close>

definition gid_in_list :: "pmemfile_cred \<Rightarrow> nat \<Rightarrow> bool" where
  "gid_in_list c gid =
     (case groups c of Gids gs \<Rightarrow> gid \<in> set (take (groupsnum c) gs) | _ \<Rightarrow> False)"

definition want :: "nat \<Rightarrow> nat \<Rightarrow> nat \<Rightarrow> nat" where
  "want acc w bits = (if acc AND w \<noteq> 0 then bits else 0)"

definition can_access :: "pmemfile_cred \<Rightarrow> inode_perms \<Rightarrow> nat \<Rightarrow> bool" where
  "can_access c perms acc =
     (if caps c AND push_bit PMEMFILE_CAP_FOWNER 1 \<noteq> 0 then True
      else
        let perm = perm_flags perms AND PMEMFILE_ACCESSPERMS;
            acctype = acc AND PFILE_ACCESS_MASK;
            ids =
              (if acctype = PFILE_USE_FACCESS then Some (fsuid c, fsgid c)
               else if acctype = PFILE_USE_EACCESS then Some (euid c, egid c)
               else if acctype = PFILE_USE_RACCESS then Some (ruid c, rgid c)
               else None)
        in
        (case ids of
           None \<Rightarrow> False
         | Some (uid, gid) \<Rightarrow>
             let req =
               (if perm_uid perms = uid then
                  want acc PFILE_WANT_READ PMEMFILE_S_IRUSR
                  OR want acc PFILE_WANT_WRITE PMEMFILE_S_IWUSR
                  OR want acc PFILE_WANT_EXECUTE PMEMFILE_S_IXUSR
                else if perm_gid perms = gid \<or> gid_in_list c (perm_gid perms) then
                  want acc PFILE_WANT_READ PMEMFILE_S_IRGRP
                  OR want acc PFILE_WANT_WRITE PMEMFILE_S_IWGRP
                  OR want acc PFILE_WANT_EXECUTE PMEMFILE_S_IXGRP
                else
                  want acc PFILE_WANT_READ PMEMFILE_S_IROTH
                  OR want acc PFILE_WANT_WRITE PMEMFILE_S_IWOTH
                  OR want acc PFILE_WANT_EXECUTE PMEMFILE_S_IXOTH)
             in perm AND req = req))"

section \<open>The access check against the rule for file modes\<close>

text \<open>
  The rule: the owner is judged by bits 6 to 8 of the mode, a member of the file's group by bits
  3 to 5, everyone else by bits 0 to 2; within three bits, read is the highest and execute the
  lowest.
\<close>

definition mode_class :: "pmemfile_cred \<Rightarrow> inode_perms \<Rightarrow> nat \<times> nat \<Rightarrow> nat" where
  "mode_class c perms = (\<lambda>(uid, gid).
     if perm_uid perms = uid then 6
     else if perm_gid perms = gid \<or> gid_in_list c (perm_gid perms) then 3
     else 0)"

definition acting_ids :: "pmemfile_cred \<Rightarrow> nat \<Rightarrow> (nat \<times> nat) option" where
  "acting_ids c acc =
     (if bit acc 3 then (if bit acc 4 then None else Some (euid c, egid c))
      else if bit acc 4 then Some (ruid c, rgid c)
      else Some (fsuid c, fsgid c))"

lemma want_bit: "w = 2 ^ k \<Longrightarrow> want acc w b = (if bit acc k then b else 0)"
  by (simp add: want_def and_exp_eq_0_iff_not_bit)

lemma and_or_subset: "(x :: nat) AND (a OR b) = a OR b \<longleftrightarrow> x AND a = a \<and> x AND b = b"
  by (auto simp: bit_eq_iff bit_simps)

lemma and_if_subset: "(x :: nat) AND (if p then b else 0) = (if p then b else 0) \<longleftrightarrow> (p \<longrightarrow> x AND b = b)"
  by simp

lemma and_exp: "(x :: nat) AND 2 ^ k = (if bit x k then 2 ^ k else 0)"
  by (rule bit_eqI) (auto simp: bit_simps)

lemma perm_bit:
  assumes "b = 2 ^ k" and "k < 9"
  shows "(f AND PMEMFILE_ACCESSPERMS) AND b = b \<longleftrightarrow> bit f k"
proof -
  have "PMEMFILE_ACCESSPERMS = mask 9"
    by (simp add: PMEMFILE_ACCESSPERMS_def mask_eq_exp_minus_1)
  moreover have "bit (mask 9 :: nat) k"
    using assms(2) by (simp only: bit_mask_iff) simp
  ultimately have "bit PMEMFILE_ACCESSPERMS k"
    by (simp only:)
  then show ?thesis
    by (simp add: assms(1) and_exp bit_and_iff)
qed

lemma acctype_bits: "(acc :: nat) AND 24 = (if bit acc 3 then 8 else 0) + (if bit acc 4 then 16 else 0)"
proof -
  have "acc AND 24 = acc AND (2 ^ 3 OR 2 ^ 4)"
    by simp
  also have "\<dots> = (acc AND 2 ^ 3) OR (acc AND 2 ^ 4)"
    by (rule bit_eqI) (auto simp only: bit_or_iff bit_and_iff)
  also have "\<dots> = (if bit acc 3 then 8 else 0) + (if bit acc 4 then 16 else 0)"
    unfolding and_exp by simp
  finally show ?thesis .
qed

lemma class_rights:
  fixes acc :: nat
  assumes "r = 2 ^ (k + 2)" and "w = 2 ^ (k + 1)" and "x = 2 ^ k" and "k \<le> 6"
  defines "req \<equiv> want acc PFILE_WANT_READ r OR want acc PFILE_WANT_WRITE w
    OR want acc PFILE_WANT_EXECUTE x"
  shows "(f AND PMEMFILE_ACCESSPERMS) AND req = req \<longleftrightarrow>
    (bit acc 0 \<longrightarrow> bit f (k + 2)) \<and> (bit acc 1 \<longrightarrow> bit f (k + 1)) \<and> (bit acc 2 \<longrightarrow> bit f k)"
proof -
  have "want acc PFILE_WANT_READ r = (if bit acc 0 then r else 0)"
    "want acc PFILE_WANT_WRITE w = (if bit acc 1 then w else 0)"
    "want acc PFILE_WANT_EXECUTE x = (if bit acc 2 then x else 0)"
    by (rule want_bit, simp add: PFILE_WANT_READ_def PFILE_WANT_WRITE_def PFILE_WANT_EXECUTE_def)+
  then show ?thesis
    unfolding req_def and_or_subset
    using assms(4) perm_bit [OF assms(1), of f] perm_bit [OF assms(2), of f] perm_bit [OF assms(3), of f]
    by (simp only: and_if_subset)
qed

text \<open>
  Claim C31. The access check is the rule for file modes: without the capability that overrides
  permissions, each wanted right must be granted by the bit of the one class the process is in,
  with the ids the access type selects; an access type outside the three is refused.
\<close>

theorem can_access_is_mode_rule:
  "can_access c perms acc \<longleftrightarrow>
     bit (caps c) PMEMFILE_CAP_FOWNER \<or>
     (case acting_ids c acc of
        None \<Rightarrow> False
      | Some ids \<Rightarrow>
          (let k = mode_class c perms ids in
           (bit acc 0 \<longrightarrow> bit (perm_flags perms) (k + 2)) \<and>
           (bit acc 1 \<longrightarrow> bit (perm_flags perms) (k + 1)) \<and>
           (bit acc 2 \<longrightarrow> bit (perm_flags perms) k)))"
proof -
  have cap: "caps c AND push_bit PMEMFILE_CAP_FOWNER 1 \<noteq> 0 \<longleftrightarrow> bit (caps c) PMEMFILE_CAP_FOWNER"
    by (simp add: push_bit_eq_mult and_exp_eq_0_iff_not_bit)
  have ids: "(if acc AND PFILE_ACCESS_MASK = PFILE_USE_FACCESS then Some (fsuid c, fsgid c)
      else if acc AND PFILE_ACCESS_MASK = PFILE_USE_EACCESS then Some (euid c, egid c)
      else if acc AND PFILE_ACCESS_MASK = PFILE_USE_RACCESS then Some (ruid c, rgid c)
      else None) = acting_ids c acc"
    by (simp add: PFILE_ACCESS_MASK_def acctype_bits acting_ids_def
        PFILE_USE_FACCESS_def PFILE_USE_EACCESS_def PFILE_USE_RACCESS_def)
  note rights = class_rights [where k = 6] class_rights [where k = 3] class_rights [where k = 0]
  have modes: "PMEMFILE_S_IRUSR = 2 ^ (6 + 2)" "PMEMFILE_S_IWUSR = 2 ^ (6 + 1)" "PMEMFILE_S_IXUSR = 2 ^ 6"
    "PMEMFILE_S_IRGRP = 2 ^ (3 + 2)" "PMEMFILE_S_IWGRP = 2 ^ (3 + 1)" "PMEMFILE_S_IXGRP = 2 ^ 3"
    "PMEMFILE_S_IROTH = 2 ^ (0 + 2)" "PMEMFILE_S_IWOTH = 2 ^ (0 + 1)" "PMEMFILE_S_IXOTH = 2 ^ 0"
    by (simp_all add: PMEMFILE_S_IRUSR_def PMEMFILE_S_IWUSR_def PMEMFILE_S_IXUSR_def
        PMEMFILE_S_IRGRP_def PMEMFILE_S_IWGRP_def PMEMFILE_S_IXGRP_def
        PMEMFILE_S_IROTH_def PMEMFILE_S_IWOTH_def PMEMFILE_S_IXOTH_def)
  have le: "(6 :: nat) \<le> 6" "(3 :: nat) \<le> 6" "(0 :: nat) \<le> 6" by simp_all
  note rights = rights(1) [OF modes(1-3) le(1)] rights(2) [OF modes(4-6) le(2)]
    rights(3) [OF modes(7-9) le(3)]
  show ?thesis
  proof (cases "acting_ids c acc")
    case None
    then show ?thesis
      unfolding can_access_def cap Let_def ids by simp
  next
    case (Some ids')
    obtain uid gid where "ids' = (uid, gid)" by (cases ids')
    with Some show ?thesis
      unfolding can_access_def cap Let_def ids mode_class_def
      by (simp only: option.case prod.case rights if_distrib [of "\<lambda>req. _ AND req = req"]
          split: if_split) simp
  qed
qed

definition user_cred :: pmemfile_cred where
  "user_cred = \<lparr>ruid = 1000, rgid = 100, euid = 1000, egid = 100, fsuid = 1000, fsgid = 100,
     groups = Gids [20, 30], groupsnum = 2, caps = 0\<rparr>"

theorem can_access_is_mode_rule_witness:
  "can_access user_cred \<lparr>perm_flags = 416, perm_uid = 0, perm_gid = 30\<rparr> PFILE_WANT_READ
   \<and> \<not> can_access user_cred \<lparr>perm_flags = 416, perm_uid = 0, perm_gid = 30\<rparr> PFILE_WANT_WRITE"
  unfolding can_access_is_mode_rule
  by (simp add: user_cred_def acting_ids_def mode_class_def gid_in_list_def PFILE_WANT_READ_def
      PFILE_WANT_WRITE_def bit_iff_odd PMEMFILE_CAP_FOWNER_def)

section \<open>The credentials of a pool over time\<close>

text \<open>
  A pool starts with the ids and groups zeroed. One step is one successful call; \<^verbatim>\<open>setgroups\<close> with
  an empty list after a non-empty one is treated separately below.
\<close>

inductive cred_step :: "pmemfile_cred \<Rightarrow> pmemfile_cred \<Rightarrow> bool" where
  setreuid: "pmemfile_setreuid (Some c) r e = (Inr v, Some c') \<Longrightarrow> cred_step c c'"
| setregid: "pmemfile_setregid (Some c) r e = (Inr v, Some c') \<Longrightarrow> cred_step c c'"
| setfsuid: "pmemfile_setfsuid (Some c) u = (Inr v, Some c') \<Longrightarrow> cred_step c c'"
| setfsgid: "pmemfile_setfsgid (Some c) g = (Inr v, Some c') \<Longrightarrow> cred_step c c'"
| setgroups: "pmemfile_setgroups os en (Some c) gs = Some (v, Some c') \<Longrightarrow>
    gs \<noteq> [] \<or> groupsnum c = 0 \<Longrightarrow> cred_step c c'"
| setcap: "pmemfile_setcap (Some c) cap = (v, Some c') \<Longrightarrow> cred_step c c'"
| clrcap: "pmemfile_clrcap (Some c) cap = (v, Some c') \<Longrightarrow> cred_step c c'"

definition pool_cred :: pmemfile_cred where
  "pool_cred = \<lparr>ruid = 0, rgid = 0, euid = 0, egid = 0, fsuid = 0, fsgid = 0,
     groups = Null, groupsnum = 0, caps = 0\<rparr>"

fun gids_ok :: "gid_mem \<Rightarrow> nat \<Rightarrow> bool" where
  "gids_ok Null n = (n = 0)"
| "gids_ok (Gids gs) n = (length gs = n)"
| "gids_ok Freed n = False"

definition cred_ok :: "pmemfile_cred \<Rightarrow> bool" where
  "cred_ok c \<longleftrightarrow> ruid c \<le> INT_MAX \<and> rgid c \<le> INT_MAX \<and> euid c \<le> INT_MAX \<and> egid c \<le> INT_MAX
     \<and> fsuid c \<le> INT_MAX \<and> fsgid c \<le> INT_MAX
     \<and> gids_ok (groups c) (groupsnum c)"

lemma setgroups_cases:
  assumes "gids_ok (groups c) (groupsnum c)" and "pmemfile_setgroups os en (Some c) gs = Some (v, Some c')"
    and "gs \<noteq> [] \<or> groupsnum c = 0"
  shows "c' = c \<or> c' = c\<lparr>groups := Gids gs, groupsnum := length gs\<rparr>"
proof -
  obtain ok os' where ok: "pf_calloc os = (ok, os')" by (cases "pf_calloc os")
  have live: "groups c \<noteq> Freed"
    using assms(1) by (cases "groups c") simp_all
  consider (empty) "length gs = groupsnum c" "gs = []"
    | (same) hs where "length gs = groupsnum c" "gs \<noteq> []" "groups c = Gids hs"
    | (fail) "length gs \<noteq> groupsnum c" "\<not> ok"
    | (resize) "length gs \<noteq> groupsnum c" "ok" "gs \<noteq> []"
    using assms(1,3) by (cases "groups c") auto
  then show ?thesis
  proof cases
    case empty
    with assms(2) show ?thesis by (simp add: pmemfile_setgroups_def)
  next
    case (same hs)
    then have "pmemfile_setgroups os en (Some c) gs = Some (Inr 0, Some (c\<lparr>groups := Gids gs\<rparr>))"
      by (simp add: pmemfile_setgroups_def)
    moreover have "c\<lparr>groups := Gids gs\<rparr> = c\<lparr>groups := Gids gs, groupsnum := length gs\<rparr>"
      using same(1) by simp
    ultimately show ?thesis using assms(2) by simp
  next
    case fail
    with ok live have "pmemfile_setgroups os en (Some c) gs = Some (Inl ENOMEM, Some c)"
      by (simp add: pmemfile_setgroups_def realloc_gids_def)
    with assms(2) show ?thesis by simp
  next
    case resize
    with ok live have "pmemfile_setgroups os en (Some c) gs =
        Some (Inr 0, Some (c\<lparr>groups := Gids gs, groupsnum := length gs\<rparr>))"
      by (simp add: pmemfile_setgroups_def realloc_gids_def)
    with assms(2) show ?thesis by simp
  qed
qed

lemma setgroups_ok:
  assumes "cred_ok c" and "pmemfile_setgroups os en (Some c) gs = Some (v, Some c')"
    and "gs \<noteq> [] \<or> groupsnum c = 0"
  shows "cred_ok c'"
  using setgroups_cases [OF _ assms(2,3)] assms(1) by (auto simp: cred_ok_def)

lemma setreuid_cases:
  assumes "pmemfile_setreuid (Some c) r e = (Inr v, Some c')"
  shows "(r = no_id \<or> r \<le> INT_MAX) \<and> (e = no_id \<or> e \<le> INT_MAX)
    \<and> c' = (let c1 = (if r \<noteq> no_id then c\<lparr>ruid := r\<rparr> else c)
            in if e \<noteq> no_id then c1\<lparr>euid := e, fsuid := e\<rparr> else c1)"
proof -
  have "r = no_id \<or> r \<le> INT_MAX" "e = no_id \<or> e \<le> INT_MAX"
    using assms by (auto simp: pmemfile_setreuid_def not_le split: if_split_asm)
  with assms show ?thesis
    by (auto simp: pmemfile_setreuid_def)
qed

lemma setregid_cases:
  assumes "pmemfile_setregid (Some c) r e = (Inr v, Some c')"
  shows "(r = no_id \<or> r \<le> INT_MAX) \<and> (e = no_id \<or> e \<le> INT_MAX)
    \<and> c' = (let c1 = (if r \<noteq> no_id then c\<lparr>rgid := r\<rparr> else c)
            in if e \<noteq> no_id then c1\<lparr>egid := e, fsgid := e\<rparr> else c1)"
proof -
  have "r = no_id \<or> r \<le> INT_MAX" "e = no_id \<or> e \<le> INT_MAX"
    using assms by (auto simp: pmemfile_setregid_def not_le split: if_split_asm)
  with assms show ?thesis
    by (auto simp: pmemfile_setregid_def)
qed

lemma cred_step_ok: "cred_step c c' \<Longrightarrow> cred_ok c \<Longrightarrow> cred_ok c'"
proof (induction rule: cred_step.induct)
  case (setreuid c r e v c')
  from setreuid_cases [OF setreuid(1)] setreuid(2) show ?case
    by (simp add: cred_ok_def Let_def) blast
next
  case (setregid c r e v c')
  from setregid_cases [OF setregid(1)] setregid(2) show ?case
    by (simp add: cred_ok_def Let_def) blast
next
  case (setfsuid c u v c')
  then have "u \<le> INT_MAX" "c' = c\<lparr>fsuid := u\<rparr>"
    by (auto simp: pmemfile_setfsuid_def split: if_split_asm)
  with setfsuid(2) show ?case by (simp add: cred_ok_def Let_def)
next
  case (setfsgid c u v c')
  then have "u \<le> INT_MAX" "c' = c\<lparr>fsgid := u\<rparr>"
    by (auto simp: pmemfile_setfsgid_def split: if_split_asm)
  with setfsgid(2) show ?case by (simp add: cred_ok_def Let_def)
next
  case (setgroups os en c gs v c')
  then show ?case by (blast intro: setgroups_ok)
next
  case (setcap c cap v c')
  then have "\<exists>x. c' = c\<lparr>caps := x\<rparr>"
    by (cases "known_cap cap") (auto simp: pmemfile_setcap_def intro: exI [of _ "caps c"])
  with setcap(2) show ?case by (auto simp: cred_ok_def)
next
  case (clrcap c cap v c')
  then have "\<exists>x. c' = c\<lparr>caps := x\<rparr>"
    by (cases "known_cap cap") (auto simp: pmemfile_clrcap_def intro: exI [of _ "caps c"])
  with clrcap(2) show ?case by (auto simp: cred_ok_def)
qed

lemma reachable_cred_ok: "cred_step\<^sup>*\<^sup>* pool_cred c \<Longrightarrow> cred_ok c"
proof (induction rule: rtranclp_induct)
  case base
  show ?case by (simp add: pool_cred_def cred_ok_def)
qed (rule cred_step_ok)



text \<open>
  The groups set are the groups read back, in order, by a caller with room for them.
\<close>

theorem setgroups_getgroups:
  assumes "gs \<noteq> []" and "cred_ok c" and "int (length gs) \<le> n"
  shows "\<exists>c'. pmemfile_setgroups [] en (Some c) gs = Some (Inr 0, Some c')
    \<and> pmemfile_getgroups (Some c') n = Some (Inr gs)
    \<and> (\<forall>g. gid_in_list c' g \<longleftrightarrow> g \<in> set gs)"
proof -
  define c' where "c' = c\<lparr>groups := Gids gs, groupsnum := length gs\<rparr>"
  have "pmemfile_setgroups [] en (Some c) gs = Some (Inr 0, Some c')"
  proof (cases "length gs = groupsnum c")
    case True
    then obtain hs where "groups c = Gids hs" using assms(1,2)
      by (cases "groups c") (auto simp: cred_ok_def)
    moreover have "c\<lparr>groups := Gids gs\<rparr> = c'" using True by (simp add: c'_def)
    ultimately show ?thesis
      using True assms(1) by (simp add: pmemfile_setgroups_def)
  next
    case False
    have "groups c \<noteq> Freed" using assms(2) by (auto simp: cred_ok_def)
    with False assms(1) show ?thesis
      by (simp add: pmemfile_setgroups_def realloc_gids_def c'_def)
  qed
  moreover have "pmemfile_getgroups (Some c') n = Some (Inr gs)"
    using assms(1,3) by (simp add: pmemfile_getgroups_def copy_gids_def c'_def)
  moreover have "gid_in_list c' g \<longleftrightarrow> g \<in> set gs" for g
    by (simp add: gid_in_list_def c'_def)
  ultimately show ?thesis by blast
qed

theorem setgroups_getgroups_witness:
  "\<exists>c'. pmemfile_setgroups [] 0 (Some user_cred) [5, 6, 7] = Some (Inr 0, Some c')
    \<and> pmemfile_getgroups (Some c') 3 = Some (Inr [5, 6, 7])"
  using setgroups_getgroups [of "[5, 6, 7]" user_cred 3 0]
  by (auto simp: cred_ok_def user_cred_def INT_MAX_def)


end
