(* ===== verification/Inode_Array.thy ===== *)
theory Inode_Array
  imports Pmf_Prelude
begin

text \<open>
  Persistent lists of inodes (\<^verbatim>\<open>inode_array.c\<close>): chains of arrays of 249 inode slots with a count
  of used slots. They record the inodes that are orphaned or suspended.

  Arrays live in a heap from addresses to records. Updates happen in a transaction of the object
  store: a location that was added to the transaction (\<^verbatim>\<open>TX_ADD_DIRECT\<close>) gets its old value back
  on abort, an object allocated in the transaction is freed on abort, and any other store stays.
  The undo log keeps these. Allocation is the parameter \<open>alloc\<close>, which sees the heap and returns
  an address or fails, which aborts the transaction. The mutexes of the arrays are left out.
\<close>

section \<open>Data\<close>

definition NUMINODES_PER_ENTRY :: nat where
  "NUMINODES_PER_ENTRY = 249"

record inode_array =
  ia_prev :: "nat option"
  ia_next :: "nat option"
  ia_used :: nat
  ia_inodes :: "nat option list"

datatype undo =
    Undo_slot nat nat "nat option"  \<comment> \<open>array, index, old value\<close>
  | Undo_used nat nat
  | Undo_alloc nat

record ia_tx =
  ia_heap :: "nat \<Rightarrow> inode_array option"
  ia_log :: "undo list"

definition zero_array :: inode_array where
  "zero_array = \<lparr>ia_prev = None, ia_next = None, ia_used = 0,
     ia_inodes = replicate NUMINODES_PER_ENTRY None\<rparr>"

definition upd_array :: "nat \<Rightarrow> (inode_array \<Rightarrow> inode_array) \<Rightarrow> ia_tx \<Rightarrow> ia_tx" where
  "upd_array a f t = t\<lparr>ia_heap := (ia_heap t)(a := map_option f (ia_heap t a))\<rparr>"

definition tx_add :: "undo \<Rightarrow> ia_tx \<Rightarrow> ia_tx" where
  "tx_add u t = t\<lparr>ia_log := u # ia_log t\<rparr>"

section \<open>Transactions\<close>

fun undo_one :: "undo \<Rightarrow> (nat \<Rightarrow> inode_array option) \<Rightarrow> nat \<Rightarrow> inode_array option" where
  "undo_one (Undo_slot a i old) h =
     h(a := map_option (\<lambda>r. r\<lparr>ia_inodes := (ia_inodes r)[i := old]\<rparr>) (h a))"
| "undo_one (Undo_used a n) h = h(a := map_option (\<lambda>r. r\<lparr>ia_used := n\<rparr>) (h a))"
| "undo_one (Undo_alloc a) h = h(a := None)"

definition tx_begin :: "(nat \<Rightarrow> inode_array option) \<Rightarrow> ia_tx" where
  "tx_begin h = \<lparr>ia_heap = h, ia_log = []\<rparr>"

definition tx_commit :: "ia_tx \<Rightarrow> nat \<Rightarrow> inode_array option" where
  "tx_commit t = ia_heap t"

definition tx_abort :: "ia_tx \<Rightarrow> nat \<Rightarrow> inode_array option" where
  "tx_abort t = fold undo_one (ia_log t) (ia_heap t)"

section \<open>Operations\<close>

fun first_null :: "nat option list \<Rightarrow> nat option" where
  "first_null [] = None"
| "first_null (x # xs) = (if x = None then Some 0 else map_option Suc (first_null xs))"

text \<open>The index of the slot, or \<open>None\<close> when the array has no free slot.\<close>

definition inode_array_add_single :: "nat \<Rightarrow> inode_array \<Rightarrow> nat \<Rightarrow> ia_tx \<Rightarrow> nat option \<times> ia_tx" where
  "inode_array_add_single cur r tinode t =
     (case first_null (ia_inodes r) of
        None \<Rightarrow> (None, t)
      | Some i \<Rightarrow>
          let t1 = tx_add (Undo_slot cur i (ia_inodes r ! i)) t;
              t2 = upd_array cur (\<lambda>r. r\<lparr>ia_inodes := (ia_inodes r)[i := Some tinode]\<rparr>) t1;
              t3 = tx_add (Undo_used cur (ia_used r)) t2
          in (Some i, upd_array cur (\<lambda>r. r\<lparr>ia_used := ia_used r + 1\<rparr>) t3))"

definition inode_array_alloc ::
  "((nat \<Rightarrow> inode_array option) \<Rightarrow> nat option) \<Rightarrow> ia_tx \<Rightarrow> (nat \<times> ia_tx) option" where
  "inode_array_alloc alloc t =
     (case alloc (ia_heap t) of
        None \<Rightarrow> None
      | Some a \<Rightarrow>
          Some (a, (tx_add (Undo_alloc a) t)\<lparr>ia_heap := (ia_heap t)(a \<mapsto> zero_array)\<rparr>))"

text \<open>
  The loop of \<open>inode_array_add\<close> over the chain. The outer option is a chain that never ends, or
  a dangling pointer; the result is the position of the inode, or \<open>Inl\<close> with the error of the
  aborted transaction, and the transaction. The new array is linked by a plain store to
  \<^verbatim>\<open>cur->next\<close>.
\<close>

partial_function (option) inode_array_add ::
  "((nat \<Rightarrow> inode_array option) \<Rightarrow> nat option) \<Rightarrow> nat \<Rightarrow> nat \<Rightarrow> ia_tx
    \<Rightarrow> ((errno + nat \<times> nat) \<times> ia_tx) option" where
  "inode_array_add alloc arr tinode t =
     (case ia_heap t arr of
        None \<Rightarrow> None
      | Some cur \<Rightarrow>
          (case (if ia_used cur < NUMINODES_PER_ENTRY
                 then inode_array_add_single arr cur tinode t else (None, t)) of
             (Some i, t1) \<Rightarrow> Some (Inr (arr, i), t1)
           | (None, t1) \<Rightarrow>
               (case ia_next cur of
                  Some a \<Rightarrow> inode_array_add alloc a tinode t1
                | None \<Rightarrow>
                    (case inode_array_alloc alloc t1 of
                       None \<Rightarrow> Some (Inl ENOMEM, t1)
                     | Some (a, t2) \<Rightarrow>
                         inode_array_add alloc a tinode
                           (upd_array a (\<lambda>r. r\<lparr>ia_prev := Some arr\<rparr>)
                             (upd_array arr (\<lambda>r. r\<lparr>ia_next := Some a\<rparr>) t2))))))"

definition inode_array_unregister :: "nat \<Rightarrow> nat \<Rightarrow> ia_tx \<Rightarrow> ia_tx option" where
  "inode_array_unregister cur idx t =
     (case ia_heap t cur of
        None \<Rightarrow> None
      | Some r \<Rightarrow>
          let t1 = tx_add (Undo_slot cur idx (ia_inodes r ! idx)) t;
              t2 = upd_array cur (\<lambda>r. r\<lparr>ia_inodes := (ia_inodes r)[idx := None]\<rparr>) t1;
              t3 = tx_add (Undo_used cur (ia_used r)) t2
          in Some (upd_array cur (\<lambda>r. r\<lparr>ia_used := ia_used r - 1\<rparr>) t3))"

text \<open>The callback only reads; its calls so far are the last argument of the traversal.
  These are the slots of one array that \<open>inode_array_traverse\<close> hands to it, in order.\<close>

fun visit_slots :: "nat \<Rightarrow> nat option list \<Rightarrow> nat list" where
  "visit_slots n [] = []"
| "visit_slots n (x # xs) =
     (if n = 0 then [] else (case x of None \<Rightarrow> visit_slots n xs | Some v \<Rightarrow> v # visit_slots (n - 1) xs))"

partial_function (option) inode_array_traverse ::
  "(nat \<Rightarrow> inode_array option) \<Rightarrow> nat option \<Rightarrow> nat list \<Rightarrow> nat list option" where
  "inode_array_traverse h arr seen =
     (case arr of
        None \<Rightarrow> Some seen
      | Some a \<Rightarrow>
          (case h a of
             None \<Rightarrow> None
           | Some cur \<Rightarrow>
               inode_array_traverse h (ia_next cur)
                 (seen @ visit_slots (ia_used cur) (ia_inodes cur))))"

partial_function (option) inode_array_free ::
  "(nat \<Rightarrow> inode_array option) \<Rightarrow> nat option \<Rightarrow> (nat \<Rightarrow> inode_array option) option" where
  "inode_array_free h arr =
     (case arr of
        None \<Rightarrow> Some h
      | Some a \<Rightarrow>
          (case h a of
             None \<Rightarrow> None
           | Some cur \<Rightarrow> inode_array_free (h(a := None)) (ia_next cur)))"

partial_function (option) inode_array_empty ::
  "(nat \<Rightarrow> inode_array option) \<Rightarrow> nat option \<Rightarrow> bool option" where
  "inode_array_empty h arr =
     (case arr of
        None \<Rightarrow> Some True
      | Some a \<Rightarrow>
          (case h a of
             None \<Rightarrow> None
           | Some cur \<Rightarrow> if ia_used cur \<noteq> 0 then Some False else inode_array_empty h (ia_next cur)))"

definition inode_array_is_small :: "(nat \<Rightarrow> inode_array option) \<Rightarrow> nat \<Rightarrow> bool option" where
  "inode_array_is_small h a = (case h a of None \<Rightarrow> None | Some cur \<Rightarrow> Some (ia_next cur = None))"

declare inode_array_add.simps [code] inode_array_traverse.simps [code] inode_array_free.simps [code]
  inode_array_empty.simps [code]

section \<open>Invariant\<close>

definition arr_ok :: "inode_array \<Rightarrow> bool" where
  "arr_ok r \<longleftrightarrow> length (ia_inodes r) = NUMINODES_PER_ENTRY \<and>
     ia_used r = length (filter (\<lambda>x. x \<noteq> None) (ia_inodes r))"

text \<open>\<open>chain h as p s\<close>: from \<open>s\<close> the arrays \<open>as\<close> are linked in both directions, after \<open>p\<close>.\<close>

fun chain :: "(nat \<Rightarrow> inode_array option) \<Rightarrow> nat list \<Rightarrow> nat option \<Rightarrow> nat option \<Rightarrow> bool" where
  "chain h [] p s \<longleftrightarrow> s = None"
| "chain h (a # as) p s \<longleftrightarrow> s = Some a \<and>
     (case h a of None \<Rightarrow> False | Some r \<Rightarrow> arr_ok r \<and> ia_prev r = p \<and> chain h as (Some a) (ia_next r))"

text \<open>The abstract view: which inode a slot holds.\<close>

definition slot_at :: "(nat \<Rightarrow> inode_array option) \<Rightarrow> nat \<times> nat \<Rightarrow> nat option" where
  "slot_at h = (\<lambda>(a, i). case h a of
     None \<Rightarrow> None
   | Some r \<Rightarrow> if i < length (ia_inodes r) then ia_inodes r ! i else None)"

lemma chain_frame: "a \<notin> set as \<Longrightarrow> chain (h(a := x)) as p s = chain h as p s"
  by (induction as arbitrary: p s) (auto split: option.splits)

lemma chain_upd:
  assumes "chain h as p s" and "h a = Some r" and "arr_ok r'" and "ia_prev r' = ia_prev r"
    and "ia_next r' = ia_next r"
  shows "chain (h(a \<mapsto> r')) as p s"
  using assms(1) by (induction as arbitrary: p s) (auto simp: assms split: option.splits)

lemma chain_mem:
  assumes "chain h as p s" and "a \<in> set as"
  obtains r where "h a = Some r" and "arr_ok r"
  using assms by (induction as arbitrary: p s) (auto split: option.splits)

lemma chain_extend:
  assumes "chain h as p s" and "distinct as" and "as \<noteq> []" and "h (last as) = Some r"
    and "n \<notin> set as" and "arr_ok z" and "ia_prev z = Some (last as)" and "ia_next z = None"
  shows "chain (h(last as \<mapsto> r\<lparr>ia_next := Some n\<rparr>, n \<mapsto> z)) (as @ [n]) p s"
  using assms
proof (induction as arbitrary: p s)
  case Nil
  then show ?case by simp
next
  case (Cons b bs)
  obtain rb where rb: "h b = Some rb" "arr_ok rb" "ia_prev rb = p" "chain h bs (Some b) (ia_next rb)"
    "s = Some b"
    using Cons.prems(1) by (auto split: option.splits)
  show ?case
  proof (cases "bs = []")
    case True
    then show ?thesis
      using Cons.prems rb by (simp add: arr_ok_def)
  next
    case False
    have ne: "b \<noteq> last bs" "b \<noteq> n"
      using Cons.prems(2,5) False last_in_set [OF False] by auto
    have "chain (h(last bs \<mapsto> r\<lparr>ia_next := Some n\<rparr>, n \<mapsto> z)) (bs @ [n]) (Some b) (ia_next rb)"
      using Cons.IH [OF rb(4)] Cons.prems False by (simp add: fun_upd_def)
    then show ?thesis
      using rb ne False by (simp add: fun_upd_def)
  qed
qed

lemma first_null_Some:
  "first_null xs = Some i \<Longrightarrow> i < length xs \<and> xs ! i = None \<and> (\<forall>j<i. xs ! j \<noteq> None)"
proof (induction xs arbitrary: i)
  case Nil
  then show ?case by simp
next
  case (Cons x xs)
  show ?case
  proof (cases "x = None")
    case True
    then show ?thesis using Cons.prems by simp
  next
    case False
    then obtain k where k: "first_null xs = Some k" "i = Suc k"
      using Cons.prems by auto
    then show ?thesis
      using Cons.IH [OF k(1)] False by (auto simp: less_Suc_eq_0_disj)
  qed
qed

lemma first_null_None: "first_null xs = None \<longleftrightarrow> filter (\<lambda>x. x \<noteq> None) xs = xs"
proof (induction xs)
  case (Cons x xs)
  have "filter (\<lambda>x. x \<noteq> None) xs \<noteq> None # xs"
    using length_filter_le [of "\<lambda>x. x \<noteq> None" xs] by (metis Suc_n_not_le_n length_Cons)
  then show ?case
    using Cons.IH by auto
qed simp

lemma filter_length_full: "length (filter P xs) = length xs \<Longrightarrow> filter P xs = xs"
  by (metis filter_True length_filter_less order_less_irrefl)

lemma used_update:
  "i < length xs \<Longrightarrow> xs ! i = None \<Longrightarrow>
     length (filter (\<lambda>x. x \<noteq> None) (xs[i := Some v])) = Suc (length (filter (\<lambda>x. x \<noteq> None) xs))"
  by (induction xs arbitrary: i) (auto split: nat.splits)

lemma used_clear:
  "i < length xs \<Longrightarrow> xs ! i \<noteq> None \<Longrightarrow>
     Suc (length (filter (\<lambda>x. x \<noteq> None) (xs[i := None]))) = length (filter (\<lambda>x. x \<noteq> None) xs)"
proof (induction xs arbitrary: i)
  case (Cons x xs)
  then show ?case by (cases i) auto
qed simp

lemma visit_slots_all:
  "n = length (filter (\<lambda>x. x \<noteq> None) xs) \<Longrightarrow> visit_slots n xs = List.map_filter id xs"
  by (induction n xs rule: visit_slots.induct)
    (auto simp: List.map_filter_def filter_empty_conv split: option.splits)

section \<open>Adding an inode\<close>

text \<open>What is relied on of the object store: a new object does not overlap a live one.\<close>

definition fresh_alloc :: "((nat \<Rightarrow> inode_array option) \<Rightarrow> nat option) \<Rightarrow> bool" where
  "fresh_alloc alloc \<longleftrightarrow> (\<forall>h a. alloc h = Some a \<longrightarrow> h a = None)"

lemma fresh_allocD: "fresh_alloc alloc \<Longrightarrow> alloc h = Some a \<Longrightarrow> h a = None"
  by (simp add: fresh_alloc_def)

definition with_inode :: "nat \<Rightarrow> nat \<Rightarrow> inode_array \<Rightarrow> inode_array" where
  "with_inode i v r = r\<lparr>ia_inodes := (ia_inodes r)[i := Some v], ia_used := ia_used r + 1\<rparr>"

lemma with_inode_ok:
  "arr_ok r \<Longrightarrow> i < length (ia_inodes r) \<Longrightarrow> ia_inodes r ! i = None \<Longrightarrow> arr_ok (with_inode i v r)"
  by (simp add: arr_ok_def with_inode_def used_update del: not_None_eq)

lemma with_inode_links [simp]:
  "ia_prev (with_inode i v r) = ia_prev r" "ia_next (with_inode i v r) = ia_next r"
  by (simp_all add: with_inode_def)

text \<open>One array: a free slot is found exactly when the counter says there is one.\<close>

lemma add_here:
  assumes "arr_ok r" and "ia_heap t a = Some r" and "ia_used r < NUMINODES_PER_ENTRY"
  obtains i where "i < length (ia_inodes r)" and "ia_inodes r ! i = None"
    and "inode_array_add_single a r v t =
      (Some i, \<lparr>ia_heap = (ia_heap t)(a \<mapsto> with_inode i v r),
                ia_log = Undo_used a (ia_used r) # Undo_slot a i None # ia_log t\<rparr>)"
proof -
  have "first_null (ia_inodes r) \<noteq> None"
    using assms(1,3) by (auto simp: first_null_None arr_ok_def)
  then obtain i where i: "first_null (ia_inodes r) = Some i"
    by blast
  note fn = first_null_Some [OF i]
  have "inode_array_add_single a r v t =
      (Some i, \<lparr>ia_heap = (ia_heap t)(a \<mapsto> with_inode i v r),
                ia_log = Undo_used a (ia_used r) # Undo_slot a i None # ia_log t\<rparr>)"
    using fn assms(2)
    by (simp add: inode_array_add_single_def i Let_def tx_add_def upd_array_def with_inode_def)
  with fn show thesis
    by (intro that) auto
qed

lemma zero_array_ok [simp]:
  "arr_ok zero_array" "arr_ok (zero_array\<lparr>ia_prev := p\<rparr>)"
  by (simp_all add: arr_ok_def zero_array_def)

lemma chain_links_ok [simp]:
  "arr_ok (r\<lparr>ia_next := n\<rparr>) = arr_ok r" "arr_ok (r\<lparr>ia_prev := n\<rparr>) = arr_ok r"
  by (simp_all add: arr_ok_def)

lemma zero_array_add:
  "inode_array_add_single a (zero_array\<lparr>ia_prev := p\<rparr>) v t =
     (Some 0, upd_array a (\<lambda>r. r\<lparr>ia_used := ia_used r + 1\<rparr>)
       (tx_add (Undo_used a 0)
         (upd_array a (\<lambda>r. r\<lparr>ia_inodes := (ia_inodes r)[0 := Some v]\<rparr>)
           (tx_add (Undo_slot a 0 None) t))))"
  by (simp add: inode_array_add_single_def zero_array_def NUMINODES_PER_ENTRY_def Let_def numeral_eq_Suc)

text \<open>What \<open>inode_array_add\<close> does to the heap and the log, from any array of the chain on.\<close>

definition added_here :: "nat \<Rightarrow> ia_tx \<Rightarrow> nat list \<Rightarrow> nat \<Rightarrow> nat \<Rightarrow> ia_tx \<Rightarrow> bool" where
  "added_here v t as a i t' \<longleftrightarrow> a \<in> set as \<and>
     (\<exists>r. ia_heap t a = Some r \<and> i < length (ia_inodes r) \<and> ia_inodes r ! i = None \<and>
        t' = \<lparr>ia_heap = (ia_heap t)(a \<mapsto> with_inode i v r),
              ia_log = Undo_used a (ia_used r) # Undo_slot a i None # ia_log t\<rparr>)"

definition added_new :: "nat \<Rightarrow> ia_tx \<Rightarrow> nat list \<Rightarrow> nat \<Rightarrow> nat \<Rightarrow> ia_tx \<Rightarrow> bool" where
  "added_new v t as a i t' \<longleftrightarrow> ia_heap t a = None \<and> i = 0 \<and>
     (\<exists>r. ia_heap t (last as) = Some r \<and>
        t' = \<lparr>ia_heap = (ia_heap t)(last as \<mapsto> r\<lparr>ia_next := Some a\<rparr>,
                a \<mapsto> with_inode 0 v (zero_array\<lparr>ia_prev := Some (last as)\<rparr>)),
              ia_log = Undo_used a 0 # Undo_slot a 0 None # Undo_alloc a # ia_log t\<rparr>)"

lemma add_after_extend:
  assumes "ia_heap t arr = Some r" and "ia_heap t a = None"
  shows "inode_array_add alloc a v
     (upd_array a (\<lambda>r. r\<lparr>ia_prev := Some arr\<rparr>)
       (upd_array arr (\<lambda>r. r\<lparr>ia_next := Some a\<rparr>)
         ((tx_add (Undo_alloc a) t)\<lparr>ia_heap := (ia_heap t)(a \<mapsto> zero_array)\<rparr>))) =
     Some (Inr (a, 0), \<lparr>ia_heap = (ia_heap t)(arr \<mapsto> r\<lparr>ia_next := Some a\<rparr>,
                a \<mapsto> with_inode 0 v (zero_array\<lparr>ia_prev := Some arr\<rparr>)),
              ia_log = Undo_used a 0 # Undo_slot a 0 None # Undo_alloc a # ia_log t\<rparr>)"
proof -
  have ne: "arr \<noteq> a"
    using assms by auto
  have u: "ia_used (zero_array\<lparr>ia_prev := Some arr\<rparr>) < NUMINODES_PER_ENTRY"
    by (simp add: zero_array_def NUMINODES_PER_ENTRY_def)
  show ?thesis
    by (subst inode_array_add.simps)
      (use ne assms u in \<open>simp add: upd_array_def tx_add_def zero_array_add with_inode_def fun_upd_twist\<close>)
qed

lemma inode_array_add_cases:
  assumes "chain (ia_heap t) as p (Some a0)"
    and fr: "fresh_alloc alloc"
  shows "(\<exists>a i t'. inode_array_add alloc a0 v t = Some (Inr (a, i), t') \<and> added_here v t as a i t') \<or>
     (\<exists>a i t'. inode_array_add alloc a0 v t = Some (Inr (a, i), t') \<and> added_new v t as a i t' \<and>
        alloc (ia_heap t) = Some a \<and> (\<forall>b\<in>set as. \<forall>r. ia_heap t b = Some r \<longrightarrow> ia_used r = NUMINODES_PER_ENTRY)) \<or>
     (inode_array_add alloc a0 v t = Some (Inl ENOMEM, t) \<and> alloc (ia_heap t) = None)"
  using assms(1)
proof (induction as arbitrary: p a0)
  case Nil
  then show ?case by simp
next
  case (Cons b bs)
  obtain r where r: "ia_heap t b = Some r" "arr_ok r" "chain (ia_heap t) bs (Some b) (ia_next r)"
    and b: "a0 = b"
    using Cons.prems by (auto split: option.splits)
  show ?case
  proof (cases "ia_used r < NUMINODES_PER_ENTRY")
    case True
    obtain i where i: "i < length (ia_inodes r)" "ia_inodes r ! i = None"
      "inode_array_add_single b r v t =
        (Some i, \<lparr>ia_heap = (ia_heap t)(b \<mapsto> with_inode i v r),
                  ia_log = Undo_used b (ia_used r) # Undo_slot b i None # ia_log t\<rparr>)"
      by (rule add_here [OF r(2,1) True])
    have "inode_array_add alloc a0 v t = Some (Inr (b, i),
        \<lparr>ia_heap = (ia_heap t)(b \<mapsto> with_inode i v r),
         ia_log = Undo_used b (ia_used r) # Undo_slot b i None # ia_log t\<rparr>)"
      by (subst inode_array_add.simps) (simp add: b r(1) True i(3))
    moreover have "added_here v t (b # bs) b i
        \<lparr>ia_heap = (ia_heap t)(b \<mapsto> with_inode i v r),
         ia_log = Undo_used b (ia_used r) # Undo_slot b i None # ia_log t\<rparr>"
      using r(1) i(1,2) by (simp add: added_here_def)
    ultimately show ?thesis
      by blast
  next
    case False
    have full: "ia_used r = NUMINODES_PER_ENTRY"
      using False r(2) length_filter_le [of "\<lambda>x. x \<noteq> None" "ia_inodes r"] by (simp add: arr_ok_def)
    show ?thesis
    proof (cases bs)
      case Nil
      then have nx: "ia_next r = None"
        using r(3) by simp
      show ?thesis
      proof (cases "alloc (ia_heap t)")
        case None
        have "inode_array_add alloc a0 v t = Some (Inl ENOMEM, t)"
          by (subst inode_array_add.simps) (simp add: b r(1) False nx inode_array_alloc_def None)
        then show ?thesis
          using None by blast
      next
        case (Some a)
        note na = fresh_allocD [OF fr Some]
        have "inode_array_add alloc a0 v t =
           Some (Inr (a, 0), \<lparr>ia_heap = (ia_heap t)(b \<mapsto> r\<lparr>ia_next := Some a\<rparr>,
                a \<mapsto> with_inode 0 v (zero_array\<lparr>ia_prev := Some b\<rparr>)),
              ia_log = Undo_used a 0 # Undo_slot a 0 None # Undo_alloc a # ia_log t\<rparr>)"
          by (subst inode_array_add.simps)
            (simp add: b r(1) False nx inode_array_alloc_def Some add_after_extend [OF r(1) na])
        moreover have "added_new v t (b # bs) a 0 \<lparr>ia_heap = (ia_heap t)(b \<mapsto> r\<lparr>ia_next := Some a\<rparr>,
                a \<mapsto> with_inode 0 v (zero_array\<lparr>ia_prev := Some b\<rparr>)),
              ia_log = Undo_used a 0 # Undo_slot a 0 None # Undo_alloc a # ia_log t\<rparr>"
          using na r(1) Nil by (simp add: added_new_def)
        moreover have "\<forall>c\<in>set (b # bs). \<forall>r. ia_heap t c = Some r \<longrightarrow> ia_used r = NUMINODES_PER_ENTRY"
          using Nil r(1) full by simp
        ultimately show ?thesis
          using Some by blast
      qed
    next
      case (Cons c cs)
      have nx: "ia_next r = Some c"
        using r(3) Cons by simp
      have go: "inode_array_add alloc a0 v t = inode_array_add alloc c v t"
        by (subst inode_array_add.simps) (simp add: b r(1) False nx)
      have here: "added_here v t bs a i t' \<Longrightarrow> added_here v t (b # bs) a i t'" for a i t'
        by (auto simp: added_here_def)
      have new: "added_new v t bs a i t' \<Longrightarrow> added_new v t (b # bs) a i t'" for a i t'
        using Cons by (simp add: added_new_def)
      have fl: "(\<forall>d\<in>set bs. \<forall>r. ia_heap t d = Some r \<longrightarrow> ia_used r = NUMINODES_PER_ENTRY) \<Longrightarrow>
        (\<forall>d\<in>set (b # bs). \<forall>r. ia_heap t d = Some r \<longrightarrow> ia_used r = NUMINODES_PER_ENTRY)"
        using r(1) full by simp
      show ?thesis
        using Cons.IH [OF r(3) [unfolded nx]] here new fl unfolding go by blast
    qed
  qed
qed

lemma slot_at_with_inode:
  assumes "h a = Some r" and "i < length (ia_inodes r)"
  shows "slot_at (h(a \<mapsto> with_inode i v r)) = (slot_at h)((a, i) \<mapsto> v)"
proof
  fix x
  show "slot_at (h(a \<mapsto> with_inode i v r)) x = ((slot_at h)((a, i) \<mapsto> v)) x"
    using assms by (cases x) (auto simp: slot_at_def with_inode_def nth_list_update)
qed

lemma slot_at_new:
  assumes "h l = Some r" and "h a = None"
  shows "slot_at (h(l \<mapsto> r\<lparr>ia_next := n\<rparr>, a \<mapsto> with_inode 0 v (zero_array\<lparr>ia_prev := p\<rparr>))) =
     (slot_at h)((a, 0) \<mapsto> v)"
proof
  fix x :: "nat \<times> nat"
  show "slot_at (h(l \<mapsto> r\<lparr>ia_next := n\<rparr>, a \<mapsto> with_inode 0 v (zero_array\<lparr>ia_prev := p\<rparr>))) x =
     ((slot_at h)((a, 0) \<mapsto> v)) x"
    using assms
    by (cases x) (auto simp: slot_at_def with_inode_def zero_array_def NUMINODES_PER_ENTRY_def
        nth_list_update)
qed

lemma chain_start:
  "chain h as p (Some a) \<Longrightarrow> as \<noteq> []"
  by (cases as) auto

lemma inode_array_add_ok:
  assumes "chain h as p (Some a0)" and "distinct as"
    and "fresh_alloc alloc"
  shows "\<exists>res t. inode_array_add alloc a0 v (tx_begin h) = Some (res, t) \<and>
     (case res of
        Inl e \<Rightarrow> e = ENOMEM \<and> alloc h = None \<and> tx_commit t = h
      | Inr (a, i) \<Rightarrow> slot_at h (a, i) = None \<and> slot_at (tx_commit t) = (slot_at h)((a, i) \<mapsto> v) \<and>
          (chain (tx_commit t) as p (Some a0) \<and> a \<in> set as \<or>
           chain (tx_commit t) (as @ [a]) p (Some a0) \<and> distinct (as @ [a])))"
proof -
  have c: "chain (ia_heap (tx_begin h)) as p (Some a0)"
    using assms(1) by (simp add: tx_begin_def)
  note r = inode_array_add_cases [OF c assms(3), where v = v]
  show ?thesis
    using r
  proof (elim disjE exE conjE)
    fix a i t
    assume eq: "inode_array_add alloc a0 v (tx_begin h) = Some (Inr (a, i), t)"
      and "added_here v (tx_begin h) as a i t"
    then obtain r where r: "a \<in> set as" "h a = Some r" "i < length (ia_inodes r)"
      "ia_inodes r ! i = None" "ia_heap t = h(a \<mapsto> with_inode i v r)"
      by (auto simp: added_here_def tx_begin_def)
    have ok: "arr_ok r"
      using chain_mem [OF assms(1) r(1)] r(2) by auto
    have "chain (ia_heap t) as p (Some a0)"
      unfolding r(5) by (rule chain_upd [OF assms(1) r(2) with_inode_ok [OF ok r(3,4)]]) simp_all
    moreover have "slot_at (ia_heap t) = (slot_at h)((a, i) \<mapsto> v)"
      unfolding r(5) by (rule slot_at_with_inode) (rule r)+
    moreover have "slot_at h (a, i) = None"
      using r by (simp add: slot_at_def)
    ultimately show ?thesis
      using eq r(1) by (intro exI [of _ "Inr (a, i)"] exI [of _ t]) (simp add: tx_commit_def)
  next
    fix a i t
    assume eq: "inode_array_add alloc a0 v (tx_begin h) = Some (Inr (a, i), t)"
      and "added_new v (tx_begin h) as a i t"
    then obtain r where r: "h a = None" "i = 0" "h (last as) = Some r"
      "ia_heap t = h(last as \<mapsto> r\<lparr>ia_next := Some a\<rparr>,
         a \<mapsto> with_inode 0 v (zero_array\<lparr>ia_prev := Some (last as)\<rparr>))"
      by (auto simp: added_new_def tx_begin_def)
    have a: "a \<notin> set as"
      using chain_mem [OF assms(1)] r(1) by force
    have "arr_ok (with_inode 0 v (zero_array\<lparr>ia_prev := Some (last as)\<rparr>))"
      by (rule with_inode_ok [OF zero_array_ok(2)]) (simp_all add: zero_array_def NUMINODES_PER_ENTRY_def)
    then have "chain (ia_heap t) (as @ [a]) p (Some a0)"
      unfolding r(4)
      by (intro chain_extend [OF assms(1,2) chain_start [OF assms(1)] r(3) a])
        (simp_all add: zero_array_def)
    moreover have "slot_at (ia_heap t) = (slot_at h)((a, i) \<mapsto> v)"
      unfolding r(4) r(2) by (rule slot_at_new) (rule r)+
    moreover have "slot_at h (a, i) = None"
      using r by (simp add: slot_at_def)
    ultimately show ?thesis
      using eq a assms(2) 
      by (intro exI [of _ "Inr (a, i)"] exI [of _ t]) (simp add: tx_commit_def)
  next
    assume "inode_array_add alloc a0 v (tx_begin h) =
        Some (Inl 12, tx_begin h)" and "alloc (ia_heap (tx_begin h)) = None"
    then show ?thesis
      by (intro exI [of _ "Inl 12"] exI [of _ "tx_begin h"]) (simp add: tx_begin_def tx_commit_def)
  qed
qed

text \<open>
  Claim C26. \<open>inode_array_add\<close> always returns. Either the transaction aborts with \<open>ENOMEM\<close>
  because no array could be allocated, and nothing was changed; or the inode is put in a slot that
  was empty, no other slot changes, and the chain is well formed again, possibly with one new
  array at its end.
\<close>

theorem inode_array_add_correct:
  assumes "chain h as p (Some a0)" and "distinct as"
    and "fresh_alloc alloc"
  shows "\<exists>res t. inode_array_add alloc a0 v (tx_begin h) = Some (res, t) \<and>
     (case res of
        Inl e \<Rightarrow> e = ENOMEM \<and> alloc h = None \<and> tx_commit t = h
      | Inr (a, i) \<Rightarrow> slot_at h (a, i) = None \<and> slot_at (tx_commit t) = (slot_at h)((a, i) \<mapsto> v) \<and>
          (chain (tx_commit t) as p (Some a0) \<and> a \<in> set as \<or>
           chain (tx_commit t) (as @ [a]) p (Some a0) \<and> distinct (as @ [a])))"
  by (rule inode_array_add_ok [OF assms])

text \<open>A store with room for one array, for the witnesses.\<close>

definition spare_alloc :: "(nat \<Rightarrow> inode_array option) \<Rightarrow> nat option" where
  "spare_alloc h = (if h 1 = None then Some 1 else None)"

lemma spare_alloc_fresh: "fresh_alloc spare_alloc"
  by (auto simp: fresh_alloc_def spare_alloc_def split: if_splits)

theorem inode_array_add_correct_witness:
  "\<exists>res t. inode_array_add spare_alloc 0 7
       (tx_begin [0 \<mapsto> zero_array]) = Some (res, t) \<and>
     (case res of
        Inl e \<Rightarrow> e = ENOMEM \<and> spare_alloc [0 \<mapsto> zero_array] = None \<and>
          tx_commit t = [0 \<mapsto> zero_array]
      | Inr (a, i) \<Rightarrow> slot_at [0 \<mapsto> zero_array] (a, i) = None \<and>
          slot_at (tx_commit t) = (slot_at [0 \<mapsto> zero_array])((a, i) \<mapsto> 7) \<and>
          (chain (tx_commit t) [0] None (Some 0) \<and> a \<in> set [0] \<or>
           chain (tx_commit t) ([0] @ [a]) None (Some 0) \<and> distinct ([0] @ [a])))"
proof -
  have c: "chain [0 \<mapsto> zero_array] [0] None (Some 0)"
    using zero_array_ok(1) by (simp add: zero_array_def)
  show ?thesis
    by (rule inode_array_add_correct [OF c _ spare_alloc_fresh, where v = 7]) simp
qed

section \<open>Removing, traversing\<close>

text \<open>Where the slot is, and the arrays of the chain afterwards.\<close>

lemma inode_array_add_place:
  assumes "chain h as p (Some a0)" and "fresh_alloc alloc" and "inode_array_add alloc a0 v (tx_begin h) = Some (Inr (a, i), t)"
  shows "a \<in> set as \<or> h a = None"
  using inode_array_add_cases [of "tx_begin h" as p a0 alloc v] assms
  by (auto simp: added_here_def added_new_def tx_begin_def)

lemma inode_array_add_arrays:
  assumes "chain h as p (Some a0)" and "distinct as" and "fresh_alloc alloc"
    and "inode_array_add alloc a0 v (tx_begin h) = Some (Inr (a, i), t)"
  shows "\<exists>bs. chain (tx_commit t) bs p (Some a0) \<and> distinct bs \<and> set bs = insert a (set as)"
proof -
  have "chain (tx_commit t) as p (Some a0) \<and> a \<in> set as \<or> chain (tx_commit t) (as @ [a]) p (Some a0) \<and> distinct (as @ [a])"
    using inode_array_add_ok [OF assms(1-3), of v] assms(4) by auto
  then show ?thesis
  proof
    assume "chain (tx_commit t) as p (Some a0) \<and> a \<in> set as"
    then show ?thesis
      using assms(2) by (intro exI [of _ as]) auto
  next
    assume "chain (tx_commit t) (as @ [a]) p (Some a0) \<and> distinct (as @ [a])"
    then show ?thesis
      by (intro exI [of _ "as @ [a]"]) auto
  qed
qed

lemma inode_array_unregister_ok:
  assumes "chain h as p s" and "a \<in> set as" and "slot_at h (a, i) = Some v"
  shows "\<exists>t. inode_array_unregister a i (tx_begin h) = Some t \<and>
     slot_at (tx_commit t) = (slot_at h)((a, i) := None) \<and> chain (tx_commit t) as p s \<and>
     tx_abort t = h"
proof -
  obtain r where r: "h a = Some r" "arr_ok r"
    by (rule chain_mem [OF assms(1,2)])
  have i: "i < length (ia_inodes r)" "ia_inodes r ! i = Some v"
    using assms(3) r(1) by (auto simp: slot_at_def split: if_splits)
  define r' where "r' = r\<lparr>ia_inodes := (ia_inodes r)[i := None], ia_used := ia_used r - 1\<rparr>"
  define t where "t = \<lparr>ia_heap = h(a \<mapsto> r'), ia_log = [Undo_used a (ia_used r), Undo_slot a i (Some v)]\<rparr>"
  have eq: "inode_array_unregister a i (tx_begin h) = Some t"
    using r(1) i(2)
    by (simp add: inode_array_unregister_def tx_begin_def Let_def tx_add_def upd_array_def r'_def t_def)
  have "arr_ok r'"
    using r(2) used_clear [OF i(1)] i(2) by (auto simp: arr_ok_def r'_def simp del: not_None_eq)
  then have "chain (tx_commit t) as p s"
    unfolding tx_commit_def t_def ia_tx.simps
    by (rule chain_upd [OF assms(1) r(1)]) (simp_all add: r'_def)
  moreover have "slot_at (tx_commit t) = (slot_at h)((a, i) := None)"
  proof
    fix x
    show "slot_at (tx_commit t) x = ((slot_at h)((a, i) := None)) x"
      using r(1) i by (cases x) (auto simp: slot_at_def tx_commit_def t_def r'_def nth_list_update)
  qed
  moreover have "tx_abort t = h"
    using r(1) i list_update_id [of "ia_inodes r" i]
    by (auto simp: tx_abort_def t_def r'_def fun_eq_iff)
  ultimately show ?thesis
    using eq by blast
qed

text \<open>
  Claim C27. Unregistering an occupied slot empties that slot and no other, and keeps the chain
  well formed; when the transaction aborts, every array is as it was.
\<close>

theorem inode_array_unregister_correct:
  assumes "chain h as p s" and "a \<in> set as" and "slot_at h (a, i) = Some v"
  shows "\<exists>t. inode_array_unregister a i (tx_begin h) = Some t \<and>
     slot_at (tx_commit t) = (slot_at h)((a, i) := None) \<and> chain (tx_commit t) as p s \<and>
     tx_abort t = h"
  by (rule inode_array_unregister_ok [OF assms])

theorem inode_array_unregister_correct_witness:
  "\<exists>t. inode_array_unregister 0 1 (tx_begin [0 \<mapsto> with_inode 1 7 zero_array]) = Some t \<and>
     slot_at (tx_commit t) = (slot_at [0 \<mapsto> with_inode 1 7 zero_array])((0, 1) := None) \<and>
     chain (tx_commit t) [0] None (Some 0) \<and> tx_abort t = [0 \<mapsto> with_inode 1 7 zero_array]"
proof -
  have c: "chain [0 \<mapsto> with_inode 1 7 zero_array] [0] None (Some 0)"
    using with_inode_ok [OF zero_array_ok(1), of 1 7]
    by (simp add: zero_array_def NUMINODES_PER_ENTRY_def)
  show ?thesis
    by (rule inode_array_unregister_correct [OF c, where v = 7])
      (simp_all add: slot_at_def with_inode_def zero_array_def NUMINODES_PER_ENTRY_def)
qed

definition registered :: "(nat \<Rightarrow> inode_array option) \<Rightarrow> nat list \<Rightarrow> nat list" where
  "registered h as =
     concat (map (\<lambda>a. case h a of None \<Rightarrow> [] | Some r \<Rightarrow> List.map_filter id (ia_inodes r)) as)"

lemma set_registered:
  "set (registered h as) = {v. \<exists>a\<in>set as. \<exists>i. slot_at h (a, i) = Some v}"
proof -
  have "set (List.map_filter id xs) = {v. \<exists>i. (if i < length xs then xs ! i else None) = Some v}"
    for xs :: "nat option list"
    by (force simp: List.map_filter_def in_set_conv_nth split: if_splits)
  then have "set (case h a of None \<Rightarrow> [] | Some r \<Rightarrow> List.map_filter id (ia_inodes r)) =
      {v. \<exists>i. slot_at h (a, i) = Some v}" for a
    by (cases "h a") (simp_all add: slot_at_def del: id_def)
  then show ?thesis
    by (auto simp: registered_def simp del: id_def)
qed

lemma traverse_chain:
  "chain h as p s \<Longrightarrow> inode_array_traverse h s seen = Some (seen @ registered h as)"
proof (induction as arbitrary: p s seen)
  case Nil
  then show ?case
    by (subst inode_array_traverse.simps) (simp add: registered_def)
next
  case (Cons a as)
  then obtain r where r: "h a = Some r" "arr_ok r" "chain h as (Some a) (ia_next r)" "s = Some a"
    by (auto split: option.splits)
  have "visit_slots (ia_used r) (ia_inodes r) = List.map_filter id (ia_inodes r)"
    using r(2) by (intro visit_slots_all) (simp add: arr_ok_def)
  then show ?case
    by (subst inode_array_traverse.simps) (simp add: r(1,4) Cons.IH [OF r(3)] registered_def)
qed

lemma empty_chain:
  "chain h as p s \<Longrightarrow> inode_array_empty h s = Some (registered h as = [])"
proof (induction as arbitrary: p s)
  case Nil
  then show ?case
    by (subst inode_array_empty.simps) (simp add: registered_def)
next
  case (Cons a as)
  then obtain r where r: "h a = Some r" "arr_ok r" "chain h as (Some a) (ia_next r)" "s = Some a"
    by (auto split: option.splits)
  have "ia_used r = 0 \<longleftrightarrow> List.map_filter id (ia_inodes r) = []"
    using r(2) by (simp add: arr_ok_def List.map_filter_def)
  then show ?case
    by (subst inode_array_empty.simps) (simp add: r(1,4) Cons.IH [OF r(3)] registered_def)
qed

lemma free_chain:
  "chain h as p s \<Longrightarrow> distinct as \<Longrightarrow> inode_array_free h s = Some (h |` (- set as))"
proof (induction as arbitrary: h p s)
  case Nil
  then show ?case
    by (subst inode_array_free.simps) (simp add: restrict_map_def)
next
  case (Cons a as)
  then obtain r where r: "h a = Some r" "chain h as (Some a) (ia_next r)" "s = Some a"
    by (auto split: option.splits)
  have c: "chain (h(a := None)) as (Some a) (ia_next r)"
    using r(2) Cons.prems(2) chain_frame [of a as h None] by simp
  have "(h(a := None)) |` (- set as) = h |` (- set (a # as))"
    by (auto simp: restrict_map_def)
  then show ?case
    using Cons.IH [OF c] Cons.prems(2)
    by (subst inode_array_free.simps) (simp add: r(1,3) del: fun_upd_apply)
qed

text \<open>
  Claim C28. On a well-formed chain the traversal ends and hands exactly the registered inodes to
  the callback, although it stops in each array once it has seen \<open>used\<close> of them;
  \<open>inode_array_empty\<close> holds exactly when there is none; freeing the chain ends and frees exactly
  its arrays.
\<close>

theorem inode_array_traverse_complete:
  assumes "chain h as p s" and "distinct as"
  shows "\<exists>seen. inode_array_traverse h s [] = Some seen \<and>
     set seen = {v. \<exists>a\<in>set as. \<exists>i. slot_at h (a, i) = Some v} \<and>
     inode_array_empty h s = Some (seen = []) \<and>
     inode_array_free h s = Some (h |` (- set as))"
  using traverse_chain [OF assms(1), of "[]"] empty_chain [OF assms(1)] free_chain [OF assms]
  by (simp add: set_registered)

theorem inode_array_traverse_complete_witness:
  "\<exists>seen. inode_array_traverse [0 \<mapsto> with_inode 1 7 zero_array] (Some 0) [] = Some seen \<and>
     set seen = {v. \<exists>a\<in>set [0]. \<exists>i. slot_at [0 \<mapsto> with_inode 1 7 zero_array] (a, i) = Some v} \<and>
     inode_array_empty [0 \<mapsto> with_inode 1 7 zero_array] (Some 0) = Some (seen = []) \<and>
     inode_array_free [0 \<mapsto> with_inode 1 7 zero_array] (Some 0) =
       Some ([0 \<mapsto> with_inode 1 7 zero_array] |` (- set [0]))"
proof -
  have c: "chain [0 \<mapsto> with_inode 1 7 zero_array] [0] None (Some 0)"
    using with_inode_ok [OF zero_array_ok(1), of 1 7]
    by (simp add: zero_array_def NUMINODES_PER_ENTRY_def)
  show ?thesis
    by (rule inode_array_traverse_complete [OF c]) simp
qed

section \<open>Aborted transactions\<close>

lemma added_here_not_full:
  assumes "chain h as p s" and "ia_heap t = h" and "added_here v t as a i t'"
  shows "\<exists>b\<in>set as. \<exists>r. h b = Some r \<and> ia_used r \<noteq> NUMINODES_PER_ENTRY"
proof -
  obtain r where r: "a \<in> set as" "h a = Some r" "i < length (ia_inodes r)" "ia_inodes r ! i = None"
    using assms(2,3) by (auto simp: added_here_def)
  have ok: "arr_ok r"
    using chain_mem [OF assms(1) r(1)] r(2) by auto
  have "arr_ok (with_inode i v r)"
    by (rule with_inode_ok [OF ok r(3,4)])
  then have "ia_used r + 1 \<le> NUMINODES_PER_ENTRY"
    using length_filter_le [of "\<lambda>x. x \<noteq> None" "(ia_inodes r)[i := Some v]"] ok
    by (simp add: arr_ok_def with_inode_def)
  then show ?thesis
    using r(1,2) by (intro bexI exI [of _ r]) auto
qed

lemma traverse_dangling:
  assumes "chain h as p s" and "distinct as" and "as \<noteq> []" and "h (last as) = Some r" and "h n = None"
  shows "inode_array_traverse (h(last as \<mapsto> r\<lparr>ia_next := Some n\<rparr>)) s seen = None"
  using assms
proof (induction as arbitrary: p s seen)
  case Nil
  then show ?case by simp
next
  case (Cons b bs)
  obtain rb where rb: "h b = Some rb" "chain h bs (Some b) (ia_next rb)" "s = Some b"
    using Cons.prems(1) by (auto split: option.splits)
  have nb: "n \<noteq> last (b # bs)"
    using Cons.prems(4,5) by auto
  show ?case
  proof (cases "bs = []")
    case True
    have "inode_array_traverse (h(b \<mapsto> r\<lparr>ia_next := Some n\<rparr>)) (Some n) sn = None" for sn
      using nb True Cons.prems(5) by (subst inode_array_traverse.simps) simp
    then show ?thesis
      using True rb(3) by (subst inode_array_traverse.simps) simp
  next
    case False
    have "b \<noteq> last bs"
      using Cons.prems(2) last_in_set [OF False] by auto
    then show ?thesis
      using Cons.IH [OF rb(2) _ False] Cons.prems False rb(1,3)
      by (subst inode_array_traverse.simps) (simp add: fun_upd_def)
  qed
qed

text \<open>
  Claim C38. When every array of the chain is full and the transaction that adds an inode aborts
  later, the last array keeps the pointer to the new array, which the abort has freed: the store
  to \<open>next\<close> is not part of the transaction. A traversal of the chain then reads freed memory.
\<close>

theorem inode_array_add_abort_dangles:
  assumes "chain h as p (Some a0)" and "distinct as"
    and "fresh_alloc alloc" and "alloc h = Some n"
    and "\<forall>b\<in>set as. \<forall>r. h b = Some r \<longrightarrow> ia_used r = NUMINODES_PER_ENTRY"
  shows "\<exists>pos t. inode_array_add alloc a0 v (tx_begin h) = Some (Inr pos, t) \<and>
     (\<exists>r. tx_abort t (last as) = Some r \<and> ia_next r = Some n) \<and> tx_abort t n = None \<and>
     inode_array_traverse (tx_abort t) (Some a0) [] = None"
proof -
  have c: "chain (ia_heap (tx_begin h)) as p (Some a0)"
    using assms(1) by (simp add: tx_begin_def)
  have nh: "\<not> added_here v (tx_begin h) as a i t" for a i t
    using added_here_not_full [OF assms(1), of "tx_begin h" v a i t] assms(5) by (auto simp: tx_begin_def)
  obtain i t where eq: "inode_array_add alloc a0 v (tx_begin h) = Some (Inr (n, i), t)"
    and new: "added_new v (tx_begin h) as n i t"
    using inode_array_add_cases [OF c assms(3), where v = v] nh assms(4) by (auto simp: tx_begin_def)
  obtain r where r: "h n = None" "h (last as) = Some r"
    "t = \<lparr>ia_heap = h(last as \<mapsto> r\<lparr>ia_next := Some n\<rparr>,
         n \<mapsto> with_inode 0 v (zero_array\<lparr>ia_prev := Some (last as)\<rparr>)),
       ia_log = [Undo_used n 0, Undo_slot n 0 None, Undo_alloc n]\<rparr>"
    using new by (auto simp: added_new_def tx_begin_def)
  have ne: "last as \<noteq> n"
    using r(1,2) by auto
  have ab: "tx_abort t = h(last as \<mapsto> r\<lparr>ia_next := Some n\<rparr>)"
    using r(1) ne by (auto simp: tx_abort_def r(3) fun_eq_iff)
  show ?thesis
    using eq r(1) ne traverse_dangling [OF assms(1,2) chain_start [OF assms(1)] r(2,1)]
    by (intro exI [of _ "(n, i)"] exI [of _ t]) (simp add: ab)
qed

text \<open>The chain of one full array, the example of the witness.\<close>

definition full_array :: inode_array where
  "full_array = zero_array\<lparr>ia_used := NUMINODES_PER_ENTRY, ia_inodes := replicate NUMINODES_PER_ENTRY (Some 7)\<rparr>"

theorem inode_array_add_abort_dangles_witness:
  "\<exists>pos t. inode_array_add spare_alloc 0 8
        (tx_begin [0 \<mapsto> full_array]) = Some (Inr pos, t) \<and>
     (\<exists>r. tx_abort t (last [0]) = Some r \<and> ia_next r = Some 1) \<and> tx_abort t 1 = None \<and>
     inode_array_traverse (tx_abort t) (Some 0) [] = None"
proof -
  have c: "chain [0 \<mapsto> full_array] [0] None (Some 0)"
    by (simp add: full_array_def zero_array_def arr_ok_def)
  show ?thesis
    by (rule inode_array_add_abort_dangles [OF c _ spare_alloc_fresh])
      (auto simp: spare_alloc_def full_array_def)
qed

end
