(* ===== verification/Namespace.thy ===== *)
theory Namespace
  imports Utils Truncate Creds Inode_Array "HOL-Library.Monad_Syntax"
begin

text \<open>
  The state of a pool as the directory operations see it, and the reference counts of volatile inodes
  (\<^verbatim>\<open>pool.h\<close>, \<^verbatim>\<open>inode.c\<close>). A persistent inode is named by its offset in the pool; 0 is the null offset. A
  volatile inode is named by the offset of its inode, since the map of the pool holds at most one for each; the map
  is the partial function that the hash map implements. The union \<^verbatim>\<open>file_data\<close> is three functions from inodes, of
  which the one for the type of the inode is used.

  A function returns \<open>None\<close> where the program dereferences a null or dangling pointer, ends in
  \<^verbatim>\<open>FATAL\<close>, or does not return. Locks are left out: each operation is one step.
  The environment is part of the state: the answers of the C allocator, whether the object store finds room for a
  block, and the addresses it gives to new inodes and arrays. The counter of references is a natural number;
  2 ^ 32 references to one inode are out of scope, but a counter of 0 wraps when it is decreased.
\<close>

section \<open>State\<close>

record pmemfile_dirent =
  d_inode :: nat
  d_name :: string

definition free_dirent :: pmemfile_dirent where
  "free_dirent = \<lparr>d_inode = 0, d_name = []\<rparr>"

record vnode =
  v_ref :: nat
  v_parent :: "nat option"
  v_orphaned :: "(nat \<times> nat) option"
  v_atime :: pmemfile_time
  v_atime_dirty :: bool

record pool =
  p_inodes :: "nat \<Rightarrow> inode option"
  p_dir :: "nat \<Rightarrow> pmemfile_dirent list list"
  p_symlink :: "nat \<Rightarrow> string"
  p_file :: "nat \<Rightarrow> pfile"
  p_arr :: ia_tx
  p_orphaned :: nat
  p_vinodes :: "nat \<Rightarrow> vnode option"
  p_root :: "nat list"
  p_cwd :: nat
  p_umask :: nat
  p_cred :: pmemfile_cred
  p_mem :: answers
  p_space :: answers
  p_new_inode :: "(nat \<Rightarrow> inode option) \<Rightarrow> nat option"
  p_new_array :: "(nat \<Rightarrow> inode_array option) \<Rightarrow> nat option"
  p_conf :: block_conf
  p_over :: bool
  p_store :: store

definition upd_inode :: "nat \<Rightarrow> (inode \<Rightarrow> inode) \<Rightarrow> pool \<Rightarrow> pool" where
  "upd_inode n f p = p\<lparr>p_inodes := (p_inodes p)(n := map_option f (p_inodes p n))\<rparr>"

definition upd_vnode :: "nat \<Rightarrow> (vnode \<Rightarrow> vnode) \<Rightarrow> pool \<Rightarrow> pool" where
  "upd_vnode n f p = p\<lparr>p_vinodes := (p_vinodes p)(n := map_option f (p_vinodes p n))\<rparr>"

text \<open>
  A transaction. Its body returns a value, or the error number it aborts with, and the state it leaves. An abort
  restores the persistent data; volatile data and the environment stay as the body left them.
\<close>

type_synonym 'a body = "((errno + 'a) \<times> pool) option"

definition run_tx :: "(pool \<Rightarrow> 'a body) \<Rightarrow> pool \<Rightarrow> 'a body" where
  "run_tx f p =
     do {
       (r, p1) \<leftarrow> f (p\<lparr>p_arr := tx_begin (ia_heap (p_arr p))\<rparr>);
       Some (case r of
         Inl e \<Rightarrow>
           (Inl e, p1\<lparr>p_inodes := p_inodes p, p_dir := p_dir p, p_symlink := p_symlink p, p_file := p_file p,
              p_arr := tx_begin (tx_abort (p_arr p1)), p_orphaned := p_orphaned p\<rparr>)
       | Inr x \<Rightarrow> (Inr x, p1\<lparr>p_arr := tx_begin (tx_commit (p_arr p1))\<rparr>))
     }"

definition tx_then :: "'a body \<Rightarrow> ('a \<Rightarrow> pool \<Rightarrow> 'b body) \<Rightarrow> 'b body" where
  "tx_then r f = (case r of None \<Rightarrow> None | Some (Inl e, p) \<Rightarrow> Some (Inl e, p) | Some (Inr x, p) \<Rightarrow> f x p)"

section \<open>Reference counts\<close>

definition vinode_ref :: "pool \<Rightarrow> nat option \<Rightarrow> (nat \<times> pool) option" where
  "vinode_ref p vinode =
     do {
       n \<leftarrow> vinode;
       v \<leftarrow> p_vinodes p n;
       Some (n, upd_vnode n (\<lambda>v. v\<lparr>v_ref := v_ref v + 1\<rparr>) p)
     }"

text \<open>\<open>Inl\<close> is a null result with \<^verbatim>\<open>errno\<close>. The path kept for debugging is left out.\<close>

definition inode_ref :: "pool \<Rightarrow> nat \<Rightarrow> nat option \<Rightarrow> ((errno + nat) \<times> pool) option" where
  "inode_ref p n parent =
     do {
       i \<leftarrow> p_inodes p n;
       if i_version i \<noteq> PMEMFILE_INODE_VERSION 2 then Some (Inl EINVAL, p)
       else if p_vinodes p n \<noteq> None then Some (Inr n, upd_vnode n (\<lambda>v. v\<lparr>v_ref := v_ref v + 1\<rparr>) p)
       else
         (let (ok, mem) = pf_calloc (p_mem p); p1 = p\<lparr>p_mem := mem\<rparr> in
          if \<not> ok then Some (Inl ENOMEM, p1)
          else
            let with_parent = (inode_is_dir i \<and> parent \<noteq> None);
                v = \<lparr>v_ref = 1, v_parent = (if with_parent then parent else None), v_orphaned = None,
                     v_atime = inode_get_atime i, v_atime_dirty = False\<rparr>;
                p2 = p1\<lparr>p_vinodes := (p_vinodes p1)(n \<mapsto> v)\<rparr>
            in if with_parent then do { (_, p3) \<leftarrow> vinode_ref p2 parent; Some (Inr n, p3) } else Some (Inr n, p2))
     }"

text \<open>
  Freeing an inode that has no links. A directory that still has entries, and an inode that is none of the three types,
  end in \<^verbatim>\<open>FATAL\<close>. The object store's own failures in this transaction are left out.
\<close>

definition inode_free :: "pool \<Rightarrow> nat \<Rightarrow> pool option" where
  "inode_free p n =
     do {
       i \<leftarrow> p_inodes p n;
       if inode_is_dir i \<and> (\<exists>d \<in> set (concat (p_dir p n)). d_inode d \<noteq> 0) then None
       else if \<not> inode_is_dir i \<and> \<not> inode_is_regular_file i \<and> \<not> inode_is_symlink i then None
       else Some (p\<lparr>p_inodes := (p_inodes p)(n := None)\<rparr>)
     }"

definition vinode_free_pmem :: "pool \<Rightarrow> nat \<Rightarrow> vnode \<Rightarrow> pool option" where
  "vinode_free_pmem p n v =
     do {
       (arr, idx) \<leftarrow> v_orphaned v;
       t \<leftarrow> inode_array_unregister arr idx (tx_begin (ia_heap (p_arr p)));
       inode_free (p\<lparr>p_arr := tx_begin (tx_commit t)\<rparr>) n
     }"

text \<open>What happens to the inode when the last reference to it is dropped.\<close>

definition last_unref :: "pool \<Rightarrow> nat \<Rightarrow> vnode \<Rightarrow> pool option" where
  "last_unref p n v =
     do {
       i \<leftarrow> p_inodes p n;
       if suspended_references i = 0 \<and> inode_get_nlink i = 0 then vinode_free_pmem p n v
       else if v_atime_dirty v then
         Some (upd_inode n (\<lambda>i. let atime_slot = inode_next_atime_slot i in
           i\<lparr>i_atime := (i_atime i)(atime_slot := v_atime v), slots := (slots i)\<lparr>sl_atime := atime_slot\<rparr>\<rparr>) p)
       else Some p
     }"

text \<open>What a regular file loses with its volatile inode: the offset map and the cached positions.\<close>

definition drop_cached :: "pfile \<Rightarrow> pfile" where
  "drop_cached f = f\<lparr>first_free := None, first_block := None, blocks := None, invalidations := 0\<rparr>"

partial_function (option) vinode_unref :: "pool \<Rightarrow> nat option \<Rightarrow> pool option" where
  "vinode_unref p vinode =
     (case vinode of
        None \<Rightarrow> Some p
      | Some n \<Rightarrow>
          (case p_vinodes p n of
             None \<Rightarrow> None
           | Some v \<Rightarrow>
               let r = (if v_ref v = 0 then UINT32_MAX else v_ref v - 1);
                   p1 = upd_vnode n (\<lambda>v. v\<lparr>v_ref := r\<rparr>) p
               in if r \<noteq> 0 then Some p1
                  else
                    (case last_unref p1 n v of
                       None \<Rightarrow> None
                     | Some p2 \<Rightarrow>
                         vinode_unref (p2\<lparr>p_vinodes := (p_vinodes p2)(n := None), p_file := (p_file p2)(n := drop_cached (p_file p2 n))\<rparr>)
                           (if v_parent v \<noteq> Some n then v_parent v else None))))"

declare vinode_unref.simps [code]

section \<open>Orphaned inodes\<close>

definition inode_orphan :: "pool \<Rightarrow> nat \<Rightarrow> (nat \<times> nat) body" where
  "inode_orphan p n =
     do {
       (r, t) \<leftarrow> inode_array_add (p_new_array p) (p_orphaned p) n (p_arr p);
       Some (r, p\<lparr>p_arr := t\<rparr>)
     }"

definition vinode_orphan_unlocked :: "pool \<Rightarrow> nat \<Rightarrow> unit body" where
  "vinode_orphan_unlocked p n =
     do {
       i \<leftarrow> p_inodes p n;
       if suspended_references i > 0 then Some (Inr (), p)
       else tx_then (inode_orphan p n) (\<lambda>pos p1. Some (Inr (), upd_vnode n (\<lambda>v. v\<lparr>v_orphaned := Some pos\<rparr>) p1))
     }"

definition vinode_orphan :: "pool \<Rightarrow> nat \<Rightarrow> unit body" where
  "vinode_orphan p n = vinode_orphan_unlocked p n"

section \<open>Permissions\<close>

definition vinode_get_perms :: "pool \<Rightarrow> nat \<Rightarrow> inode_perms option" where
  "vinode_get_perms p n =
     map_option (\<lambda>i. \<lparr>perm_flags = inode_get_flags i, perm_uid = i_uid i, perm_gid = i_gid i\<rparr>) (p_inodes p n)"

definition vinode_can_access :: "pmemfile_cred \<Rightarrow> pool \<Rightarrow> nat \<Rightarrow> nat \<Rightarrow> bool option" where
  "vinode_can_access cred p n acc = map_option (\<lambda>perms. can_access cred perms acc) (vinode_get_perms p n)"

end
