(* ===== verification/Dir.thy ===== *)
theory Dir
  imports Namespace
begin

text \<open>
  Directories and path resolution (\<^verbatim>\<open>dir.c\<close>). A directory is the list of its batches of entries: the one inside
  the inode and those linked by \<^verbatim>\<open>next\<close>. A pointer to an entry is the number of the batch and the index in it. An
  entry without a name is free.
\<close>

section \<open>Entries\<close>

definition PMEMFILE_MAX_FILE_NAME :: nat where "PMEMFILE_MAX_FILE_NAME = 255"

text \<open>
  The number of entries that fit in the inode and in a new block: an entry has 272 bytes, the header of a batch 24,
  and the inode has room for 576 bytes of data.
\<close>

definition SIZEOF_DIRENT :: nat where "SIZEOF_DIRENT = 16 + (PMEMFILE_MAX_FILE_NAME + 1)"
definition SIZEOF_DIR :: nat where "SIZEOF_DIR = 24"
definition PMEMFILE_IN_INODE_STORAGE :: nat where "PMEMFILE_IN_INODE_STORAGE = SIZEOF_DIR + 2 * SIZEOF_DIRENT + 8"

definition new_dir_block :: "pmemfile_dirent list" where
  "new_dir_block = replicate ((METADATA_BLOCK_SIZE - SIZEOF_DIR) div SIZEOF_DIRENT) free_dirent"

definition in_inode_dir :: "pmemfile_dirent list" where
  "in_inode_dir = replicate ((PMEMFILE_IN_INODE_STORAGE - SIZEOF_DIR) div SIZEOF_DIRENT) free_dirent"

type_synonym dirent_ptr = "nat \<times> nat"

definition dirent_at :: "pool \<Rightarrow> nat \<Rightarrow> dirent_ptr \<Rightarrow> pmemfile_dirent" where
  "dirent_at p dir = (\<lambda>(b, i). p_dir p dir ! b ! i)"

definition set_dirent :: "nat \<Rightarrow> dirent_ptr \<Rightarrow> pmemfile_dirent \<Rightarrow> pool \<Rightarrow> pool" where
  "set_dirent dir = (\<lambda>(b, i) d p. p\<lparr>p_dir := (p_dir p)(dir := (p_dir p dir)[b := (p_dir p dir ! b)[i := d]])\<rparr>)"

text \<open>The loops over all entries: the first entry, from batch \<open>b\<close> and index \<open>i\<close> on, that a test accepts.\<close>

fun find_in_batch :: "(pmemfile_dirent \<Rightarrow> bool) \<Rightarrow> nat \<Rightarrow> nat \<Rightarrow> pmemfile_dirent list \<Rightarrow> dirent_ptr option" where
  "find_in_batch test b i [] = None"
| "find_in_batch test b i (d # ds) = (if test d then Some (b, i) else find_in_batch test b (Suc i) ds)"

fun find_dirent :: "(pmemfile_dirent \<Rightarrow> bool) \<Rightarrow> nat \<Rightarrow> pmemfile_dirent list list \<Rightarrow> dirent_ptr option" where
  "find_dirent test b [] = None"
| "find_dirent test b (ds # dirs) =
     (case find_in_batch test b 0 ds of Some ptr \<Rightarrow> Some ptr | None \<Rightarrow> find_dirent test (Suc b) dirs)"

section \<open>Adding an entry\<close>

text \<open>
  One pass over a batch and over the batches: an entry with the name ends it with \<^verbatim>\<open>EEXIST\<close>, and the first free entry is
  remembered.
\<close>

fun scan_batch :: "string \<Rightarrow> nat \<Rightarrow> nat \<Rightarrow> nat \<Rightarrow> dirent_ptr option \<Rightarrow> pmemfile_dirent list \<Rightarrow> errno + dirent_ptr option" where
  "scan_batch name namelen b i found [] = Inr found"
| "scan_batch name namelen b i found (d # ds) =
     (if str_compare (d_name d) name namelen = 0 then Inl EEXIST
      else scan_batch name namelen b (Suc i) (if found = None \<and> d_name d = [] then Some (b, i) else found) ds)"

fun scan_dir :: "string \<Rightarrow> nat \<Rightarrow> nat \<Rightarrow> dirent_ptr option \<Rightarrow> pmemfile_dirent list list \<Rightarrow> errno + dirent_ptr option" where
  "scan_dir name namelen b found [] = Inr found"
| "scan_dir name namelen b found (ds # dirs) =
     (case scan_batch name namelen b 0 found ds of
        Inl e \<Rightarrow> Inl e
      | Inr found1 \<Rightarrow> scan_dir name namelen (Suc b) found1 dirs)"

text \<open>
  The free entry for a name. When the last batch has been seen and no entry is free, a batch is allocated, the
  directory grows, and the loop goes on with the new batch.
\<close>

definition entry_for :: "pool \<Rightarrow> nat \<Rightarrow> string \<Rightarrow> nat \<Rightarrow> dirent_ptr body" where
  "entry_for p dir name namelen =
     (case scan_dir name namelen 0 None (p_dir p dir) of
        Inl e \<Rightarrow> Some (Inl e, p)
      | Inr (Some ptr) \<Rightarrow> Some (Inr ptr, p)
      | Inr None \<Rightarrow>
          let (ok, sp) = pf_calloc (p_space p); p1 = p\<lparr>p_space := sp\<rparr> in
          if \<not> ok then Some (Inl ENOMEM, p1)
          else
            let p2 = upd_inode dir (\<lambda>i. inode_tx_set_size (add64 (inode_get_size i) METADATA_BLOCK_SIZE) i)
                  (p1\<lparr>p_dir := (p_dir p1)(dir := p_dir p1 dir @ [new_dir_block])\<rparr>)
            in (case scan_dir name namelen (length (p_dir p dir)) None [new_dir_block] of
                  Inl e \<Rightarrow> Some (Inl e, p2)
                | Inr None \<Rightarrow> None
                | Inr (Some ptr) \<Rightarrow> Some (Inr ptr, p2)))"

definition inode_add_dirent :: "nat \<Rightarrow> string \<Rightarrow> nat \<Rightarrow> nat \<Rightarrow> pmemfile_time \<Rightarrow> pool \<Rightarrow> unit body" where
  "inode_add_dirent dir name namelen child tm p =
     (if namelen > PMEMFILE_MAX_FILE_NAME then Some (Inl ENAMETOOLONG, p)
      else if str_contains name namelen slash then None
      else
        do {
          i \<leftarrow> p_inodes p dir;
          if inode_get_nlink i = 0 \<and> str_compare ''.'' name namelen \<noteq> 0 then Some (Inl ENOENT, p)
          else
            tx_then (entry_for p dir name namelen) (\<lambda>ptr p1.
              let p2 = set_dirent dir ptr \<lparr>d_inode = child, d_name = take namelen name\<rparr> p1 in
              do {
                _ \<leftarrow> p_inodes p2 child;
                Some (Inr (),
                  upd_inode dir (\<lambda>i. inode_tx_set_ctime tm (inode_tx_set_mtime tm i))
                    (upd_inode child (\<lambda>i. inode_tx_set_ctime tm (inode_tx_inc_nlink i)) p2))
              })
        })"

section \<open>Looking up an entry\<close>

definition vinode_lookup_dirent_by_name_locked :: "pool \<Rightarrow> nat \<Rightarrow> string \<Rightarrow> nat \<Rightarrow> (errno + dirent_ptr) option" where
  "vinode_lookup_dirent_by_name_locked p parent name namelen =
     do {
       i \<leftarrow> p_inodes p parent;
       Some (if \<not> inode_is_dir i then Inl ENOTDIR
         else if namelen > PMEMFILE_MAX_FILE_NAME then Inl ENAMETOOLONG
         else
           (case find_dirent (\<lambda>d. str_compare (d_name d) name namelen = 0) 0 (p_dir p parent) of
              Some ptr \<Rightarrow> Inr ptr
            | None \<Rightarrow> Inl ENOENT))
     }"

text \<open>The entry and the volatile inode, either of which may be missing; \<open>Inl\<close> is the error number.\<close>

record dirent_info =
  di_vinode :: "errno + nat"
  di_dirent :: "dirent_ptr option"

definition vinode_lookup_vinode_by_name_locked :: "pool \<Rightarrow> nat \<Rightarrow> string \<Rightarrow> nat \<Rightarrow> (dirent_info \<times> pool) option" where
  "vinode_lookup_vinode_by_name_locked p parent name namelen =
     do {
       r \<leftarrow> vinode_lookup_dirent_by_name_locked p parent name namelen;
       (case r of
          Inl e \<Rightarrow> Some (\<lparr>di_vinode = Inl e, di_dirent = None\<rparr>, p)
        | Inr ptr \<Rightarrow>
            do {
              (v, p1) \<leftarrow> inode_ref p (d_inode (dirent_at p parent ptr)) (Some parent);
              Some (\<lparr>di_vinode = v, di_dirent = Some ptr\<rparr>, p1)
            })
     }"

definition vinode_lookup_dirent_by_vinode_locked :: "pool \<Rightarrow> nat \<Rightarrow> nat \<Rightarrow> (errno + dirent_ptr) option" where
  "vinode_lookup_dirent_by_vinode_locked p parent child =
     do {
       i \<leftarrow> p_inodes p parent;
       Some (if \<not> inode_is_dir i then Inl ENOTDIR
         else
           (case find_dirent (\<lambda>d. d_inode d = child) 0 (p_dir p parent) of
              Some ptr \<Rightarrow> Inr ptr
            | None \<Rightarrow> Inl ENOENT))
     }"

definition PMEMFILE_OPEN_PARENT_STOP_AT_ROOT :: nat where "PMEMFILE_OPEN_PARENT_STOP_AT_ROOT = 1"
definition PMEMFILE_OPEN_PARENT_USE_RACCESS :: nat where "PMEMFILE_OPEN_PARENT_USE_RACCESS = 8"
definition PMEMFILE_OPEN_PARENT_USE_EACCESS :: nat where "PMEMFILE_OPEN_PARENT_USE_EACCESS = 4"

definition vinode_is_root :: "pool \<Rightarrow> nat \<Rightarrow> bool option" where
  "vinode_is_root p n =
     do {
       i \<leftarrow> p_inodes p n;
       v \<leftarrow> p_vinodes p n;
       Some (inode_is_dir i \<and> v_parent v = Some n)
     }"

definition vinode_lookup_dirent :: "pool \<Rightarrow> nat \<Rightarrow> string \<Rightarrow> nat \<Rightarrow> nat \<Rightarrow> ((errno + nat) \<times> pool) option" where
  "vinode_lookup_dirent p parent name namelen flags =
     (if namelen = 0 then Some (Inl ENOENT, p)
      else
        do {
          is_root \<leftarrow> vinode_is_root p parent;
          if flags AND PMEMFILE_OPEN_PARENT_STOP_AT_ROOT \<noteq> 0 \<and> is_root \<and> str_compare ''..'' name namelen = 0
          then Some (Inl EXDEV, p)
          else if str_compare ''..'' name namelen = 0 then
            do {
              v \<leftarrow> p_vinodes p parent;
              (n, p1) \<leftarrow> vinode_ref p (v_parent v);
              Some (Inr n, p1)
            }
          else
            do {
              (info, p1) \<leftarrow> vinode_lookup_vinode_by_name_locked p parent name namelen;
              Some (di_vinode info, p1)
            }
        })"

end
