(* ===== verification/Path.thy ===== *)
theory Path
  imports Dir
begin

text \<open>
  Path resolution (\<^verbatim>\<open>dir.c\<close>). The null pointer in a path info is \<open>None\<close>; its error number is 0 for none.
\<close>

section \<open>Walking a path\<close>

record path_info =
  pi_parent :: "nat option"
  pi_remaining :: "string option"
  pi_error :: errno

definition path_error :: "errno \<Rightarrow> path_info" where
  "path_error e = \<lparr>pi_parent = None, pi_remaining = None, pi_error = e\<rparr>"

text \<open>
  How a walk starts: the directory it starts in, the path without leading slashes, and the number of slashes
  it ends with, which is the length of the string from \<^verbatim>\<open>ending_slash\<close> on.
\<close>

definition path_start :: "pool \<Rightarrow> nat option \<Rightarrow> string \<Rightarrow> nat \<Rightarrow> errno + (nat option \<times> string \<times> nat)" where
  "path_start p parent path nest_level =
     (if nest_level > 40 then Inl ELOOP
      else if path = [] then Inl ENOENT
      else
        let (parent1, path1) =
              (if hd path = slash then (Some (p_root p ! 0), dropWhile (\<lambda>x. x = slash) path) else (parent, path))
        in Inr (parent1, path1, length (takeWhile (\<lambda>x. x = slash) (rev path1))))"

text \<open>The end of a walk. A copy of the rest of the path is stored without a check that there was memory for it.\<close>

definition path_stop :: "pool \<Rightarrow> nat \<Rightarrow> string \<Rightarrow> errno \<Rightarrow> (path_info \<times> pool) option" where
  "path_stop p parent path err =
     (let (ok, mem) = pf_calloc (p_mem p); p1 = p\<lparr>p_mem := mem\<rparr>;
          info = \<lparr>pi_parent = Some parent, pi_remaining = (if ok then Some path else None), pi_error = err\<rparr>
      in if err \<noteq> 0 then Some (info, p1)
         else
           do {
             i \<leftarrow> p_inodes p1 parent;
             if \<not> inode_is_dir i then Some (info\<lparr>pi_error := ENOTDIR\<rparr>, p1)
             else
               do {
                 remaining \<leftarrow> pi_remaining info;
                 Some (if more_than_1_component remaining then info\<lparr>pi_error := ENOENT\<rparr> else info, p1)
               }
           })"

definition get_symlink :: "pool \<Rightarrow> nat \<Rightarrow> string" where
  "get_symlink p n = p_symlink p n"

definition search_want :: "nat \<Rightarrow> nat" where
  "search_want flags =
     (if flags AND PMEMFILE_OPEN_PARENT_USE_EACCESS \<noteq> 0 then PFILE_WANT_EXECUTE OR PFILE_USE_EACCESS
      else if flags AND PMEMFILE_OPEN_PARENT_USE_RACCESS \<noteq> 0 then PFILE_WANT_EXECUTE OR PFILE_USE_RACCESS
      else PFILE_WANT_EXECUTE)"

lemma strchr_length: "strchr s c = Some t \<Longrightarrow> length t \<le> length s \<and> t \<noteq> []"
  by (induction s) (auto split: if_splits)

lemma path_start_level: "path_start p parent path n = Inr x \<Longrightarrow> n \<le> 40"
  by (auto simp: path_start_def split: if_splits)

lemma strchr_rest: "strchr s c = Some t \<Longrightarrow> length (dropWhile P (tl t)) < length s"
  using strchr_length [of s c t] length_dropWhile_le [of P "tl t"] by (cases t) auto

text \<open>
  The loop over the components. \<open>ending\<close> is the number of slashes at the end of the path. A symbolic link on
  the way is replaced by its target and the walk starts again in the same directory, one level deeper.
\<close>

function resolve_loop ::
  "pool \<Rightarrow> pmemfile_cred \<Rightarrow> nat \<Rightarrow> string \<Rightarrow> nat \<Rightarrow> nat \<Rightarrow> nat \<Rightarrow> (path_info \<times> pool) option" where
  "resolve_loop p cred parent path ending flags nest_level =
     (case strchr path slash of
        None \<Rightarrow> path_stop p parent path 0
      | Some s \<Rightarrow>
          if length s = ending then path_stop p parent path 0
          else if length path - length s > PMEMFILE_MAX_FILE_NAME then path_stop p parent path ENAMETOOLONG
          else
            do {
              (r, p1) \<leftarrow> vinode_lookup_dirent p parent path (length path - length s) flags;
              (case r of
                 Inl e \<Rightarrow> path_stop p1 parent path e
               | Inr child \<Rightarrow>
                   do {
                     perms \<leftarrow> vinode_get_perms p1 child;
                     if PMEMFILE_S_ISTYPE (perm_flags perms) PMEMFILE_S_IFLNK then
                       do {
                         let (ok, mem) = pf_calloc (p_mem p1);
                         let new_path = get_symlink p1 child @ [slash] @ tl s;
                         p2 \<leftarrow> vinode_unref (p1\<lparr>p_mem := mem\<rparr>) (Some child);
                         (info, p3) \<leftarrow>
                           (if \<not> ok then Some (path_error ENOMEM, p2)
                            else
                              (case path_start p2 (Some parent) new_path (Suc nest_level) of
                                 Inl e \<Rightarrow> Some (path_error e, p2)
                               | Inr (parent1, path1, ending1) \<Rightarrow>
                                   do {
                                     (dir, p3) \<leftarrow> vinode_ref p2 parent1;
                                     resolve_loop p3 cred dir path1 ending1 flags (Suc nest_level)
                                   }));
                         p4 \<leftarrow> vinode_unref p3 (Some parent);
                         Some (info, p4)
                       }
                     else if PMEMFILE_S_ISTYPE (perm_flags perms) PMEMFILE_S_IFDIR \<and>
                         \<not> can_access cred perms (search_want flags) then
                       do {
                         p2 \<leftarrow> vinode_unref p1 (Some child);
                         path_stop p2 parent path EACCES
                       }
                     else
                       do {
                         p2 \<leftarrow> vinode_unref p1 (Some parent);
                         resolve_loop p2 cred child (dropWhile (\<lambda>x. x = slash) (tl s)) ending flags nest_level
                       }
                   })
            })"
  by pat_completeness auto

termination
  by (relation "measures [\<lambda>(_, _, _, _, _, _, n). 41 - n, \<lambda>(_, _, _, path, _, _, _). length path]")
    (auto dest: path_start_level strchr_rest)

declare resolve_loop.simps [simp del]

definition resolve_pathat_nested ::
  "pool \<Rightarrow> pmemfile_cred \<Rightarrow> nat option \<Rightarrow> string \<Rightarrow> nat \<Rightarrow> nat \<Rightarrow> (path_info \<times> pool) option" where
  "resolve_pathat_nested p cred parent path flags nest_level =
     (case path_start p parent path nest_level of
        Inl e \<Rightarrow> Some (path_error e, p)
      | Inr (parent1, path1, ending) \<Rightarrow>
          do {
            (dir, p1) \<leftarrow> vinode_ref p parent1;
            resolve_loop p1 cred dir path1 ending flags nest_level
          })"

definition resolve_pathat ::
  "pool \<Rightarrow> pmemfile_cred \<Rightarrow> nat option \<Rightarrow> string \<Rightarrow> nat \<Rightarrow> (path_info \<times> pool) option" where
  "resolve_pathat p cred parent path flags = resolve_pathat_nested p cred parent path flags 1"

section \<open>Resolving the last component\<close>

definition path_info_cleanup :: "pool \<Rightarrow> path_info \<Rightarrow> pool option" where
  "path_info_cleanup p info = (if pi_parent info \<noteq> None then vinode_unref p (pi_parent info) else Some p)"

definition resolve_symlink :: "pool \<Rightarrow> pmemfile_cred \<Rightarrow> nat \<Rightarrow> path_info \<Rightarrow> (path_info \<times> pool) option" where
  "resolve_symlink p cred vinode info =
     do {
       let target = get_symlink p vinode;
       p1 \<leftarrow> vinode_unref p (Some vinode);
       (info2, p2) \<leftarrow> resolve_pathat p1 cred (pi_parent info) target 0;
       p3 \<leftarrow> path_info_cleanup p2 info;
       Some (info2, p3)
     }"

text \<open>The vinode of the whole path, if there is no error.\<close>

partial_function (option) resolve_full_loop ::
  "pool \<Rightarrow> pmemfile_cred \<Rightarrow> path_info \<Rightarrow> bool \<Rightarrow> (nat option \<times> path_info \<times> pool) option" where
  "resolve_full_loop p cred info follow =
     (if pi_error info \<noteq> 0 then Some (None, info, p)
      else
        do {
          remaining \<leftarrow> pi_remaining info;
          parent \<leftarrow> pi_parent info;
          let namelen = component_length remaining;
          if namelen > PMEMFILE_MAX_FILE_NAME then Some (None, info\<lparr>pi_error := ENAMETOOLONG\<rparr>, p)
          else if namelen = 0 then
            do {
              (n, p1) \<leftarrow> vinode_ref p (Some parent);
              Some (Some n, info, p1)
            }
          else
            do {
              (r, p1) \<leftarrow> vinode_lookup_dirent p parent remaining namelen 0;
              (case r of
                 Inl e \<Rightarrow> Some (None, info\<lparr>pi_error := ENOENT\<rparr>, p1)
               | Inr vinode \<Rightarrow>
                   do {
                     i \<leftarrow> p_inodes p1 vinode;
                     if inode_is_regular_file i \<and> namelen < length remaining then
                       do {
                         p2 \<leftarrow> vinode_unref p1 (Some vinode);
                         Some (None, info\<lparr>pi_error := ENOTDIR\<rparr>, p2)
                       }
                     else if inode_is_symlink i \<and> follow then
                       do {
                         (info2, p2) \<leftarrow> resolve_symlink p1 cred vinode info;
                         resolve_full_loop p2 cred info2 follow
                       }
                     else Some (Some vinode, info, p1)
                   })
            }
        })"

declare resolve_full_loop.simps [code]

definition resolve_pathat_full ::
  "pool \<Rightarrow> pmemfile_cred \<Rightarrow> nat option \<Rightarrow> string \<Rightarrow> nat \<Rightarrow> bool \<Rightarrow> (nat option \<times> path_info \<times> pool) option" where
  "resolve_pathat_full p cred parent path flags follow =
     do {
       (info, p1) \<leftarrow> resolve_pathat p cred parent path flags;
       resolve_full_loop p1 cred info follow
     }"

end
