(* ===== verification/Dir_Ops.thy ===== *)
theory Dir_Ops
  imports Path
begin

text \<open>
  The operations on directories: \<^verbatim>\<open>unlink.c\<close>, \<^verbatim>\<open>rmdir.c\<close>, \<^verbatim>\<open>mkdir.c\<close>, \<^verbatim>\<open>link.c\<close>, \<^verbatim>\<open>symlink.c\<close>,
  \<^verbatim>\<open>readlink.c\<close>, \<^verbatim>\<open>chdir.c\<close> and the path of a directory (\<^verbatim>\<open>dir.c\<close>). \<open>Inl\<close> is a result of -1 (or a null
  pointer) with \<^verbatim>\<open>errno\<close>. The time that an operation reads is an argument.
\<close>

section \<open>Common steps\<close>

definition with_cred :: "pool \<Rightarrow> (pmemfile_cred \<Rightarrow> pool \<Rightarrow> 'a body) \<Rightarrow> 'a body" where
  "with_cred p f =
     do {
       (r, cred) \<leftarrow> cred_acquire (p_mem p) (p_cred p);
       let p1 = p\<lparr>p_mem := (if groupsnum (p_cred p) \<noteq> 0 then snd (pf_calloc (p_mem p)) else p_mem p)\<rparr>;
       if r \<noteq> 0 then Some (Inl ENOMEM, p1) else f cred p1
     }"

definition pool_get_cwd :: "pool \<Rightarrow> (nat \<times> pool) option" where
  "pool_get_cwd p = vinode_ref p (Some (p_cwd p))"

text \<open>A directory argument: a null pointer, \<^verbatim>\<open>PMEMFILE_AT_CWD\<close> or an open file.\<close>

datatype at_file = At_null | At_cwd | At_file nat

definition relative :: "string \<Rightarrow> bool" where
  "relative path \<longleftrightarrow> (path = [] \<or> hd path \<noteq> slash)"

text \<open>The directory, or \<open>None\<close> for a null pointer, and whether a reference to it was taken.\<close>

definition pool_get_dir_for_path :: "pool \<Rightarrow> at_file \<Rightarrow> string \<Rightarrow> (nat option \<times> bool \<times> pool) option" where
  "pool_get_dir_for_path p dir path =
     (if \<not> relative path then Some (None, False, p)
      else
        (case dir of
           At_null \<Rightarrow> None
         | At_cwd \<Rightarrow> do { (n, p1) \<leftarrow> pool_get_cwd p; Some (Some n, True, p1) }
         | At_file n \<Rightarrow> Some (Some n, False, p)))"

text \<open>
  The entry points take a pool, a directory and a path, all of which may be null pointers, and do their work between
  taking and dropping a reference to the directory. The error number for a null path differs.
\<close>

definition at_call ::
  "errno \<Rightarrow> pool option \<Rightarrow> at_file \<Rightarrow> string option \<Rightarrow> (nat option \<Rightarrow> string \<Rightarrow> pool \<Rightarrow> 'a body)
    \<Rightarrow> ((errno + 'a) \<times> pool option) option" where
  "at_call null_path pfp dir path f =
     (case (pfp, path) of
        (None, _) \<Rightarrow> Some (Inl EFAULT, None)
      | (Some p, None) \<Rightarrow> Some (Inl null_path, Some p)
      | (Some p, Some pathname) \<Rightarrow>
          if relative pathname \<and> dir = At_null then Some (Inl EFAULT, Some p)
          else
            do {
              (at, at_unref, p1) \<leftarrow> pool_get_dir_for_path p dir pathname;
              (r, p2) \<leftarrow> f at pathname p1;
              p3 \<leftarrow> (if at_unref then vinode_unref p2 at else Some p2);
              Some (r, Some p3)
            })"

definition no_space :: "errno \<Rightarrow> errno" where
  "no_space e = (if e = ENOMEM then ENOSPC else e)"

text \<open>
  \<^verbatim>\<open>lock_parent_and_child\<close>: 0, 1 for a race or a negated error number. The second lookup, after the locks
  are taken in order, finds what the first one found unless another thread has changed the directory.
\<close>

definition lock_parent_and_child :: "pool \<Rightarrow> path_info \<Rightarrow> (int \<times> dirent_info \<times> pool) option" where
  "lock_parent_and_child p path =
     do {
       parent \<leftarrow> pi_parent path;
       remaining \<leftarrow> pi_remaining path;
       let namelen = component_length remaining;
       (info, p1) \<leftarrow> vinode_lookup_vinode_by_name_locked p parent remaining namelen;
       (case di_vinode info of
          Inl e \<Rightarrow> Some (- int e, info, p1)
        | Inr vinode \<Rightarrow>
            do {
              again \<leftarrow> vinode_lookup_dirent_by_name_locked p1 parent remaining namelen;
              (case again of
                 Inr ptr \<Rightarrow>
                   if d_inode (dirent_at p1 parent ptr) = vinode then Some (0, info\<lparr>di_dirent := Some ptr\<rparr>, p1)
                   else do { p2 \<leftarrow> vinode_unref p1 (Some vinode); Some (1, \<lparr>di_vinode = Inl 0, di_dirent = None\<rparr>, p2) }
               | Inl _ \<Rightarrow>
                   do { p2 \<leftarrow> vinode_unref p1 (Some vinode); Some (1, \<lparr>di_vinode = Inl 0, di_dirent = None\<rparr>, p2) })
            })
     }"

partial_function (option) lock_until_no_race :: "pool \<Rightarrow> path_info \<Rightarrow> (int \<times> dirent_info \<times> pool) option" where
  "lock_until_no_race p path =
     do {
       (r, info, p1) \<leftarrow> lock_parent_and_child p path;
       if r = 1 then lock_until_no_race p1 path else Some (r, info, p1)
     }"

declare lock_until_no_race.simps [code]

section \<open>Removing names\<close>

definition vinode_unlink_file :: "nat \<Rightarrow> dirent_ptr \<Rightarrow> nat \<Rightarrow> pmemfile_time \<Rightarrow> pool \<Rightarrow> unit body" where
  "vinode_unlink_file parent dirent vinode tm p =
     (let tinode = d_inode (dirent_at p parent dirent) in
      do {
        _ \<leftarrow> p_inodes p tinode;
        let p1 = upd_inode tinode inode_tx_dec_nlink p;
        i \<leftarrow> p_inodes p1 tinode;
        let p2 = (if inode_get_nlink i > 0 then upd_inode vinode (inode_tx_set_ctime tm) p1 else p1);
        Some (Inr (), set_dirent parent dirent free_dirent (upd_inode parent (inode_tx_set_mtime tm) p2))
      })"

definition unlinkat_vinode :: "pmemfile_time \<Rightarrow> nat option \<Rightarrow> string \<Rightarrow> pool \<Rightarrow> unit body" where
  "unlinkat_vinode tm dir pathname p0 =
     with_cred p0 (\<lambda>cred p.
       do {
         (info, p1) \<leftarrow> resolve_pathat p cred dir pathname 0;
         (r, p2) \<leftarrow>
           (if pi_error info \<noteq> 0 then Some (Inl (pi_error info), p1)
            else
              do {
                remaining \<leftarrow> pi_remaining info;
                parent \<leftarrow> pi_parent info;
                if strchr remaining slash \<noteq> None then Some (Inl ENOTDIR, p1)
                else
                  do {
                    (e, dinfo, p2) \<leftarrow> lock_until_no_race p1 info;
                    (case (di_vinode dinfo, di_dirent dinfo) of
                       (Inr vinode, Some dirent) \<Rightarrow>
                         do {
                           ok \<leftarrow> vinode_can_access cred p2 parent PFILE_WANT_WRITE;
                           i \<leftarrow> p_inodes p2 vinode;
                           (r, p3) \<leftarrow>
                             (if \<not> ok then Some (Inl EACCES, p2)
                              else if inode_is_dir i then Some (Inl EISDIR, p2)
                              else
                                run_tx (\<lambda>q.
                                  tx_then (vinode_unlink_file parent dirent vinode tm q) (\<lambda>_ q1.
                                    do {
                                      j \<leftarrow> p_inodes q1 vinode;
                                      if inode_get_nlink j = 0 then vinode_orphan q1 vinode else Some (Inr (), q1)
                                    })) p2);
                           p4 \<leftarrow> vinode_unref p3 (Some vinode);
                           Some (r, p4)
                         }
                     | _ \<Rightarrow> Some (Inl (nat (- e)), p2))
                  }
              });
         p3 \<leftarrow> path_info_cleanup p2 info;
         Some (r, p3)
       })"

text \<open>
  A directory that is removed must have no entries but the first two of its first batch. The entries are tested by
  their inode.
\<close>

definition vinode_unlink_dir :: "nat \<Rightarrow> dirent_ptr \<Rightarrow> nat \<Rightarrow> pmemfile_time \<Rightarrow> pool \<Rightarrow> unit body" where
  "vinode_unlink_dir vparent dirent vdir tm p =
     (case p_dir p vdir of
        (dot # dotdot # entries) # dirs \<Rightarrow>
          if (\<exists>d \<in> set entries. d_inode d \<noteq> 0) \<or> (\<exists>d \<in> set (concat dirs). d_inode d \<noteq> 0)
          then Some (Inl ENOTEMPTY, p)
          else
            let p1 = set_dirent vdir (0, 1) free_dirent (set_dirent vdir (0, 0) free_dirent p);
                p2 = upd_inode vdir (\<lambda>i. i\<lparr>i_nlink := (i_nlink i)(sl_nlink (slots i) := 0)\<rparr>) p1;
                p3 = set_dirent vparent dirent free_dirent p2
            in Some (Inr (), upd_inode vparent (\<lambda>i. inode_tx_set_mtime tm (inode_tx_set_ctime tm (inode_tx_dec_nlink i))) p3)
      | _ \<Rightarrow> None)"

definition pmemfile_rmdirat :: "pmemfile_time \<Rightarrow> nat option \<Rightarrow> string \<Rightarrow> pool \<Rightarrow> unit body" where
  "pmemfile_rmdirat tm dir path p0 =
     with_cred p0 (\<lambda>cred p.
       do {
         (info, p1) \<leftarrow> resolve_pathat p cred dir path 0;
         (r, p2) \<leftarrow>
           (if pi_error info \<noteq> 0 then Some (Inl (pi_error info), p1)
            else
              do {
                remaining \<leftarrow> pi_remaining info;
                parent \<leftarrow> pi_parent info;
                let namelen = component_length remaining;
                if str_compare ''.'' remaining namelen = 0 then Some (Inl EINVAL, p1)
                else if str_compare ''..'' remaining namelen = 0 then Some (Inl ENOTEMPTY, p1)
                else if namelen = 0 then Some (Inl EBUSY, p1)
                else
                  do {
                    (e, dinfo, p2) \<leftarrow> lock_until_no_race p1 info;
                    (case (di_vinode dinfo, di_dirent dinfo) of
                       (Inr vinode, Some dirent) \<Rightarrow>
                         do {
                           ok \<leftarrow> vinode_can_access cred p2 parent PFILE_WANT_WRITE;
                           i \<leftarrow> p_inodes p2 vinode;
                           (r, p3) \<leftarrow>
                             (if \<not> inode_is_dir i then Some (Inl ENOTDIR, p2)
                              else if \<not> ok then Some (Inl EACCES, p2)
                              else
                                run_tx (\<lambda>q.
                                  tx_then (vinode_unlink_dir parent dirent vinode tm q) (\<lambda>_ q1. vinode_orphan q1 vinode)) p2);
                           p4 \<leftarrow> vinode_unref p3 (Some vinode);
                           Some (r, p4)
                         }
                     | _ \<Rightarrow> Some (Inl (nat (- e)), p2))
                  }
              });
         p3 \<leftarrow> path_info_cleanup p2 info;
         Some (r, p3)
       })"

definition PMEMFILE_AT_SYMLINK_NOFOLLOW :: nat where "PMEMFILE_AT_SYMLINK_NOFOLLOW = 256"
definition PMEMFILE_AT_REMOVEDIR :: nat where "PMEMFILE_AT_REMOVEDIR = 512"
definition PMEMFILE_AT_SYMLINK_FOLLOW :: nat where "PMEMFILE_AT_SYMLINK_FOLLOW = 1024"
definition PMEMFILE_AT_EMPTY_PATH :: nat where "PMEMFILE_AT_EMPTY_PATH = 4096"

definition pmemfile_unlinkat ::
  "pmemfile_time \<Rightarrow> pool option \<Rightarrow> at_file \<Rightarrow> string option \<Rightarrow> nat \<Rightarrow> ((errno + unit) \<times> pool option) option" where
  "pmemfile_unlinkat tm pfp dir pathname flags =
     at_call ENOENT pfp dir pathname (\<lambda>at path p.
       if flags AND PMEMFILE_AT_REMOVEDIR \<noteq> 0 then pmemfile_rmdirat tm at path p
       else if flags \<noteq> 0 then Some (Inl EINVAL, p)
       else unlinkat_vinode tm at path p)"

definition pmemfile_unlink :: "pmemfile_time \<Rightarrow> pool option \<Rightarrow> string option \<Rightarrow> ((errno + unit) \<times> pool option) option" where
  "pmemfile_unlink tm pfp pathname = pmemfile_unlinkat tm pfp At_cwd pathname 0"

definition pmemfile_rmdir :: "pmemfile_time \<Rightarrow> pool option \<Rightarrow> string option \<Rightarrow> ((errno + unit) \<times> pool option) option" where
  "pmemfile_rmdir tm pfp path = at_call ENOENT pfp At_cwd path (pmemfile_rmdirat tm)"

end
