(* ===== verification/Dir_Create.thy ===== *)
theory Dir_Create
  imports Dir_Ops
begin

text \<open>
  Creating names and moving around: \<^verbatim>\<open>mkdir.c\<close>, \<^verbatim>\<open>link.c\<close>, \<^verbatim>\<open>symlink.c\<close>, \<^verbatim>\<open>readlink.c\<close>,
  \<^verbatim>\<open>chdir.c\<close> and the path of a directory (\<^verbatim>\<open>dir.c\<close>).
\<close>

section \<open>New inodes\<close>

text \<open>A new regular file: no blocks, and the array of descriptors inside the inode.\<close>

definition new_file :: pfile where
  "new_file = \<lparr>descs = \<lambda>_. zero_desc,
     arrays = [0 \<mapsto> \<lparr>ba_next = None, ba_length = (PMEMFILE_IN_INODE_STORAGE - SIZEOF_BLOCK_ARRAY) div SIZEOF_BLOCK_DESC\<rparr>],
     datas = \<lambda>_. None, first_free = None, first_block = None, blocks = None, allocs = [], invalidations = 0\<rparr>"

definition alloc_inode :: "pmemfile_cred \<Rightarrow> nat \<Rightarrow> pmemfile_time \<Rightarrow> pool \<Rightarrow> nat body" where
  "alloc_inode cred flags tm p =
     (case p_new_inode p (p_inodes p) of
        None \<Rightarrow> Some (Inl ENOMEM, p)
      | Some n \<Rightarrow>
          Some (Inr n, p\<lparr>p_inodes := (p_inodes p)(n \<mapsto> inode_alloc METADATA_BLOCK_SIZE (euid cred) (egid cred) tm flags),
            p_dir := (p_dir p)(n := [in_inode_dir]), p_symlink := (p_symlink p)(n := []),
            p_file := (p_file p)(n := new_file)\<rparr>))"

section \<open>Directories\<close>

text \<open>\<open>parent\<close> is \<open>None\<close> for a root directory.\<close>

definition vinode_new_dir ::
  "nat option \<Rightarrow> string \<Rightarrow> nat \<Rightarrow> pmemfile_cred \<Rightarrow> nat \<Rightarrow> pmemfile_time \<Rightarrow> pool \<Rightarrow> nat body" where
  "vinode_new_dir parent name namelen cred mode0 tm p =
     (if mode0 AND PMEMFILE_ACCESSPERMS \<noteq> mode0 then Some (Inl EINVAL, p)
      else
        let mode = mode0 - (mode0 AND p_umask p) in
        tx_then (alloc_inode cred (PMEMFILE_S_IFDIR OR mode) tm p) (\<lambda>tchild p1.
        tx_then (inode_add_dirent tchild ''.'' 1 tchild tm p1) (\<lambda>_ p2.
          case parent of
            None \<Rightarrow> tx_then (inode_add_dirent tchild ''..'' 2 tchild tm p2) (\<lambda>_ p3. Some (Inr tchild, p3))
          | Some dir \<Rightarrow>
              tx_then (inode_add_dirent tchild ''..'' 2 dir tm p2) (\<lambda>_ p3.
              tx_then (inode_add_dirent dir name namelen tchild tm p3) (\<lambda>_ p4. Some (Inr tchild, p4))))))"

definition mkdirat_vinode :: "pmemfile_time \<Rightarrow> nat \<Rightarrow> nat option \<Rightarrow> string \<Rightarrow> pool \<Rightarrow> unit body" where
  "mkdirat_vinode tm mode dir path p0 =
     with_cred p0 (\<lambda>cred p.
       do {
         (info, p1) \<leftarrow> resolve_pathat p cred dir path 0;
         (r, p2) \<leftarrow>
           (if pi_error info \<noteq> 0 then Some (Inl (pi_error info), p1)
            else
              do {
                remaining \<leftarrow> pi_remaining info;
                parent \<leftarrow> pi_parent info;
                let namelen = component_length remaining;
                if namelen = 0 \<or> namelen = 1 \<and> hd remaining = CHR ''.'' then Some (Inl EEXIST, p1)
                else
                  do {
                    (r, p2) \<leftarrow>
                      run_tx (\<lambda>q.
                        do {
                          ok \<leftarrow> vinode_can_access cred q parent PFILE_WANT_WRITE;
                          if \<not> ok then Some (Inl EACCES, q)
                          else tx_then (vinode_new_dir (Some parent) remaining namelen cred mode tm q) (\<lambda>_ q1. Some (Inr (), q1))
                        }) p1;
                    Some (map_sum no_space id r, p2)
                  }
              });
         p3 \<leftarrow> path_info_cleanup p2 info;
         Some (r, p3)
       })"

definition pmemfile_mkdirat ::
  "pmemfile_time \<Rightarrow> pool option \<Rightarrow> at_file \<Rightarrow> string option \<Rightarrow> nat \<Rightarrow> ((errno + unit) \<times> pool option) option" where
  "pmemfile_mkdirat tm pfp dir path mode = at_call EFAULT pfp dir path (mkdirat_vinode tm mode)"

definition pmemfile_mkdir :: "pmemfile_time \<Rightarrow> pool option \<Rightarrow> string option \<Rightarrow> nat \<Rightarrow> ((errno + unit) \<times> pool option) option" where
  "pmemfile_mkdir tm pfp path mode = pmemfile_mkdirat tm pfp At_cwd path mode"

section \<open>Hard links\<close>

definition add_link :: "pmemfile_time \<Rightarrow> pmemfile_cred \<Rightarrow> path_info \<Rightarrow> nat \<Rightarrow> pool \<Rightarrow> unit body" where
  "add_link tm cred dst src_vinode p =
     do {
       remaining \<leftarrow> pi_remaining dst;
       parent \<leftarrow> pi_parent dst;
       (r, p1) \<leftarrow>
         run_tx (\<lambda>q.
           do {
             ok \<leftarrow> vinode_can_access cred q parent PFILE_WANT_WRITE;
             if \<not> ok then Some (Inl EACCES, q)
             else inode_add_dirent parent remaining (component_length remaining) src_vinode tm q
           }) p;
       Some (map_sum no_space id r, p1)
     }"

definition linkat_vinode ::
  "pmemfile_time \<Rightarrow> nat option \<Rightarrow> string \<Rightarrow> nat option \<Rightarrow> string \<Rightarrow> nat \<Rightarrow> pool \<Rightarrow> unit body" where
  "linkat_vinode tm olddir oldpath newdir newpath flags p0 =
     (if flags AND (PMEMFILE_AT_SYMLINK_FOLLOW OR PMEMFILE_AT_EMPTY_PATH) \<noteq> flags then Some (Inl EINVAL, p0)
      else
        with_cred p0 (\<lambda>cred p.
          do {
            (src_vinode, src, p1) \<leftarrow>
              (if oldpath = [] \<and> flags AND PMEMFILE_AT_EMPTY_PATH \<noteq> 0
               then do { (n, p1) \<leftarrow> vinode_ref p olddir; Some (Some n, path_error 0, p1) }
               else resolve_pathat_full p cred olddir oldpath 0 (flags AND PMEMFILE_AT_SYMLINK_FOLLOW \<noteq> 0));
            (r, dst, p2) \<leftarrow>
              (if pi_error src \<noteq> 0 then Some (Inl (pi_error src), path_error 0, p1)
               else
                 do {
                   n \<leftarrow> src_vinode;
                   i \<leftarrow> p_inodes p1 n;
                   if inode_is_dir i then Some (Inl EPERM, path_error 0, p1)
                   else
                     do {
                       (dst, p2) \<leftarrow> resolve_pathat p1 cred newdir newpath 0;
                       if pi_error dst \<noteq> 0 then Some (Inl (pi_error dst), dst, p2)
                       else do { (r, p3) \<leftarrow> add_link tm cred dst n p2; Some (r, dst, p3) }
                     }
                 });
            p3 \<leftarrow> path_info_cleanup p2 dst;
            p4 \<leftarrow> path_info_cleanup p3 src;
            p5 \<leftarrow> vinode_unref p4 src_vinode;
            Some (r, p5)
          }))"

definition pmemfile_linkat ::
  "pmemfile_time \<Rightarrow> pool option \<Rightarrow> at_file \<Rightarrow> string option \<Rightarrow> at_file \<Rightarrow> string option \<Rightarrow> nat
    \<Rightarrow> ((errno + unit) \<times> pool option) option" where
  "pmemfile_linkat tm pfp olddir oldpath newdir newpath flags =
     (case (pfp, oldpath, newpath) of
        (None, _, _) \<Rightarrow> Some (Inl EFAULT, None)
      | (Some p, Some old, Some new) \<Rightarrow>
          if relative old \<and> olddir = At_null then Some (Inl EFAULT, Some p)
          else if relative new \<and> newdir = At_null then Some (Inl EFAULT, Some p)
          else
            do {
              (old_at, old_unref, p1) \<leftarrow> pool_get_dir_for_path p olddir old;
              (new_at, new_unref, p2) \<leftarrow> pool_get_dir_for_path p1 newdir new;
              (r, p3) \<leftarrow> linkat_vinode tm old_at old new_at new flags p2;
              p4 \<leftarrow> (if old_unref then vinode_unref p3 old_at else Some p3);
              p5 \<leftarrow> (if new_unref then vinode_unref p4 new_at else Some p4);
              Some (r, Some p5)
            }
      | (Some p, _, _) \<Rightarrow> Some (Inl ENOENT, Some p))"

definition pmemfile_link ::
  "pmemfile_time \<Rightarrow> pool option \<Rightarrow> string option \<Rightarrow> string option \<Rightarrow> ((errno + unit) \<times> pool option) option" where
  "pmemfile_link tm pfp oldpath newpath =
     (case (pfp, oldpath, newpath) of
        (None, _, _) \<Rightarrow> Some (Inl EFAULT, None)
      | (Some p, Some old, Some new) \<Rightarrow>
          do {
            (at, p1) \<leftarrow>
              (if \<not> relative old \<and> \<not> relative new then Some (None, p)
               else do { (n, p1) \<leftarrow> pool_get_cwd p; Some (Some n, p1) });
            (r, p2) \<leftarrow> linkat_vinode tm at old at new 0 p1;
            p3 \<leftarrow> vinode_unref p2 at;
            Some (r, Some p3)
          }
      | (Some p, _, _) \<Rightarrow> Some (Inl ENOENT, Some p))"

section \<open>Symbolic links\<close>

definition PMEMFILE_PATH_MAX :: nat where "PMEMFILE_PATH_MAX = 4096"

text \<open>A target that does not fit in the inode is stored in a block of its own.\<close>

definition new_symlink :: "pmemfile_time \<Rightarrow> pmemfile_cred \<Rightarrow> string \<Rightarrow> nat \<Rightarrow> string \<Rightarrow> nat \<Rightarrow> pool \<Rightarrow> unit body" where
  "new_symlink tm cred target vparent name namelen q =
     do {
       ok \<leftarrow> vinode_can_access cred q vparent PFILE_WANT_WRITE;
       if \<not> ok then Some (Inl EACCES, q)
       else
         tx_then (alloc_inode cred (PMEMFILE_S_IFLNK OR PMEMFILE_ACCESSPERMS) tm q) (\<lambda>tinode q1.
         tx_then
           (if length target + 1 \<le> PMEMFILE_IN_INODE_STORAGE then Some (Inr (), q1)
            else
              let (room, sp) = pf_calloc (p_space q1); q2 = q1\<lparr>p_space := sp\<rparr> in
              if \<not> room then Some (Inl ENOMEM, q2)
              else Some (Inr (), upd_inode tinode (\<lambda>i. i\<lparr>i_flags := (i_flags i)(False := i_flags i False OR PMEMFILE_S_LONGSYMLINK)\<rparr>) q2))
           (\<lambda>_ q2.
             inode_add_dirent vparent name namelen tinode tm
               (upd_inode tinode (\<lambda>i. i\<lparr>i_size := (i_size i)(sl_size (slots i) := length target)\<rparr>) (q2\<lparr>p_symlink := (p_symlink q2)(tinode := target)\<rparr>))))
     }"

definition symlinkat_vinode :: "pmemfile_time \<Rightarrow> string \<Rightarrow> nat option \<Rightarrow> string \<Rightarrow> pool \<Rightarrow> unit body" where
  "symlinkat_vinode tm target dir linkpath p0 =
     with_cred p0 (\<lambda>cred p.
       do {
         (info, p1) \<leftarrow> resolve_pathat p cred dir linkpath 0;
         (r, vinode, p2) \<leftarrow>
           (if pi_error info \<noteq> 0 then Some (Inl (pi_error info), None, p1)
            else
              do {
                remaining \<leftarrow> pi_remaining info;
                parent \<leftarrow> pi_parent info;
                let namelen = component_length remaining;
                (v, p2) \<leftarrow> vinode_lookup_dirent p1 parent remaining namelen 0;
                (case v of
                   Inr n \<Rightarrow> Some (Inl EEXIST, Some n, p2)
                 | Inl _ \<Rightarrow>
                     do {
                       block \<leftarrow> data_block_info (p_conf p2) (length target + 1) (MAX_BLOCK_SIZE (p_conf p2));
                       if length target + 1 > PMEMFILE_PATH_MAX then Some (Inl ENAMETOOLONG, None, p2)
                       else if length target + 1 > bi_size block then Some (Inl ENAMETOOLONG, None, p2)
                       else
                         do {
                           (r, p3) \<leftarrow> run_tx (new_symlink tm cred target parent remaining namelen) p2;
                           Some (map_sum no_space id r, None, p3)
                         }
                     })
              });
         p3 \<leftarrow> path_info_cleanup p2 info;
         p4 \<leftarrow> vinode_unref p3 vinode;
         Some (r, p4)
       })"

definition pmemfile_symlinkat ::
  "pmemfile_time \<Rightarrow> pool option \<Rightarrow> string option \<Rightarrow> at_file \<Rightarrow> string option \<Rightarrow> ((errno + unit) \<times> pool option) option" where
  "pmemfile_symlinkat tm pfp target newdir linkpath =
     (case (pfp, target) of
        (Some p, None) \<Rightarrow> Some (Inl EFAULT, Some p)
      | (_, _) \<Rightarrow> at_call EFAULT pfp newdir linkpath (symlinkat_vinode tm (the target)))"

definition pmemfile_symlink ::
  "pmemfile_time \<Rightarrow> pool option \<Rightarrow> string option \<Rightarrow> string option \<Rightarrow> ((errno + unit) \<times> pool option) option" where
  "pmemfile_symlink tm pfp target linkpath = pmemfile_symlinkat tm pfp target At_cwd linkpath"

definition readlinkat_vinode :: "nat \<Rightarrow> nat option \<Rightarrow> string \<Rightarrow> pool \<Rightarrow> string body" where
  "readlinkat_vinode bufsiz dir pathname p0 =
     with_cred p0 (\<lambda>cred p.
       do {
         (info, p1) \<leftarrow> resolve_pathat p cred dir pathname 0;
         (r, vinode, p2) \<leftarrow>
           (if pi_error info \<noteq> 0 then Some (Inl (pi_error info), None, p1)
            else
              do {
                remaining \<leftarrow> pi_remaining info;
                parent \<leftarrow> pi_parent info;
                (v, p2) \<leftarrow> vinode_lookup_dirent p1 parent remaining (component_length remaining) 0;
                (case v of
                   Inl _ \<Rightarrow> Some (Inl ENOENT, None, p2)
                 | Inr n \<Rightarrow>
                     do {
                       i \<leftarrow> p_inodes p2 n;
                       if \<not> inode_is_symlink i then Some (Inl EINVAL, Some n, p2)
                       else if strchr remaining slash \<noteq> None then Some (Inl ENOTDIR, Some n, p2)
                       else Some (Inr (take (min (inode_get_size i) bufsiz) (get_symlink p2 n)), Some n, p2)
                     })
              });
         p3 \<leftarrow> path_info_cleanup p2 info;
         p4 \<leftarrow> vinode_unref p3 vinode;
         Some (r, p4)
       })"

text \<open>The result is what is copied to the buffer, its length being the result of the source.\<close>

definition pmemfile_readlinkat ::
  "pool option \<Rightarrow> at_file \<Rightarrow> string option \<Rightarrow> bool \<Rightarrow> nat \<Rightarrow> ((errno + string) \<times> pool option) option" where
  "pmemfile_readlinkat pfp dir pathname buf bufsiz =
     (if pfp \<noteq> None \<and> \<not> buf then Some (Inl EFAULT, pfp)
      else at_call ENOENT pfp dir pathname (readlinkat_vinode bufsiz))"

definition pmemfile_readlink ::
  "pool option \<Rightarrow> string option \<Rightarrow> bool \<Rightarrow> nat \<Rightarrow> ((errno + string) \<times> pool option) option" where
  "pmemfile_readlink pfp pathname buf bufsiz = pmemfile_readlinkat pfp At_cwd pathname buf bufsiz"

section \<open>The current directory\<close>

text \<open>The reference to the directory that is passed in becomes that of the pool.\<close>

definition chdir_vinode :: "pmemfile_cred \<Rightarrow> nat \<Rightarrow> pool \<Rightarrow> unit body" where
  "chdir_vinode cred dir p =
     do {
       perms \<leftarrow> vinode_get_perms p dir;
       if \<not> PMEMFILE_S_ISTYPE (perm_flags perms) PMEMFILE_S_IFDIR
       then do { p1 \<leftarrow> vinode_unref p (Some dir); Some (Inl ENOTDIR, p1) }
       else if \<not> can_access cred perms PFILE_WANT_EXECUTE
       then do { p1 \<leftarrow> vinode_unref p (Some dir); Some (Inl EACCES, p1) }
       else do { p1 \<leftarrow> vinode_unref (p\<lparr>p_cwd := dir\<rparr>) (Some (p_cwd p)); Some (Inr (), p1) }
     }"

definition pmemfile_chdir :: "pool option \<Rightarrow> string option \<Rightarrow> ((errno + unit) \<times> pool option) option" where
  "pmemfile_chdir pfp path =
     at_call ENOENT pfp At_cwd path (\<lambda>at pathname p0.
       with_cred p0 (\<lambda>cred p.
         do {
           (dir, info, p1) \<leftarrow> resolve_pathat_full p cred at pathname 0 True;
           (r, p2) \<leftarrow>
             (if pi_error info \<noteq> 0 then Some (Inl (pi_error info), p1)
              else do { n \<leftarrow> dir; chdir_vinode cred n p1 });
           p3 \<leftarrow> path_info_cleanup p2 info;
           Some (r, p3)
         }))"

definition pmemfile_fchdir :: "pool option \<Rightarrow> nat option \<Rightarrow> ((errno + unit) \<times> pool option) option" where
  "pmemfile_fchdir pfp dir =
     (case (pfp, dir) of
        (None, _) \<Rightarrow> Some (Inl EFAULT, None)
      | (Some p, None) \<Rightarrow> Some (Inl EFAULT, Some p)
      | (Some p0, Some n) \<Rightarrow>
          do {
            (r, p1) \<leftarrow> with_cred p0 (\<lambda>cred p. do { (m, p1) \<leftarrow> vinode_ref p (Some n); chdir_vinode cred m p1 });
            Some (r, Some p1)
          })"

section \<open>The path of a directory\<close>

text \<open>
  The buffer is filled from its end. \<open>curpos\<close> is the number of bytes before the text so far. An entry that is not
  found is a null pointer that the source dereferences.
\<close>

partial_function (option) dir_path_loop :: "pool \<Rightarrow> nat \<Rightarrow> nat option \<Rightarrow> nat \<Rightarrow> string \<Rightarrow> string body" where
  "dir_path_loop p child parent curpos text =
     (case parent of
        None \<Rightarrow> do { p1 \<leftarrow> vinode_unref p (Some child); Some (Inr text, p1) }
      | Some dir \<Rightarrow>
          do {
            r \<leftarrow> vinode_lookup_dirent_by_vinode_locked p dir child;
            (case r of
               Inl _ \<Rightarrow> None
             | Inr dirent \<Rightarrow>
                 let name = d_name (dirent_at p dir dirent) in
                 if curpos < length name + 1 then
                   do {
                     p1 \<leftarrow> vinode_unref p (Some dir);
                     p2 \<leftarrow> vinode_unref p1 (Some child);
                     Some (Inl ERANGE, p2)
                   }
                 else
                   do {
                     is_root \<leftarrow> vinode_is_root p dir;
                     v \<leftarrow> p_vinodes p dir;
                     (grandparent, p1) \<leftarrow>
                       (if is_root then Some (None, p)
                        else do { (n, p1) \<leftarrow> vinode_ref p (v_parent v); Some (Some n, p1) });
                     p2 \<leftarrow> vinode_unref p1 (Some child);
                     dir_path_loop p2 dir grandparent (curpos - length name - 1) (slash # name @ text)
                   })
          })"

declare dir_path_loop.simps [code]

definition get_dir_path_vinode :: "pool \<Rightarrow> nat \<Rightarrow> bool \<Rightarrow> nat \<Rightarrow> string body" where
  "get_dir_path_vinode p child buf size0 =
     (if buf \<and> size0 = 0 then do { p1 \<leftarrow> vinode_unref p (Some child); Some (Inl EINVAL, p1) }
      else
        do {
          v \<leftarrow> p_vinodes p child;
          if v_orphaned v \<noteq> None then do { p1 \<leftarrow> vinode_unref p (Some child); Some (Inl ENOENT, p1) }
          else
            do {
              is_root \<leftarrow> vinode_is_root p child;
              (parent, p1) \<leftarrow>
                (if is_root then Some (None, p) else do { (n, p1) \<leftarrow> vinode_ref p (v_parent v); Some (Some n, p1) });
              let sz = (if size0 = 0 then PMEMFILE_PATH_MAX else size0);
              let (ok, mem) = (if buf then (True, p_mem p1) else pf_calloc (p_mem p1));
              let p2 = p1\<lparr>p_mem := mem\<rparr>;
              if \<not> ok then do { p3 \<leftarrow> vinode_unref p2 (Some child); Some (Inl ENOMEM, p3) }
              else if parent = None then
                (if sz - 1 < 1 then do { p3 \<leftarrow> vinode_unref p2 (Some child); Some (Inl ERANGE, p3) }
                 else dir_path_loop p2 child None (sz - 2) [slash])
              else dir_path_loop p2 child parent (sz - 1) []
            }
        })"

text \<open>The result is the text; a null buffer is one that the call allocates.\<close>

definition pmemfile_get_dir_path :: "pool option \<Rightarrow> at_file \<Rightarrow> bool \<Rightarrow> nat \<Rightarrow> ((errno + string) \<times> pool option) option" where
  "pmemfile_get_dir_path pfp dir buf sz =
     (case (pfp, dir) of
        (None, _) \<Rightarrow> Some (Inl EFAULT, None)
      | (Some p, At_null) \<Rightarrow> Some (Inl EFAULT, Some p)
      | (Some p, _) \<Rightarrow>
          do {
            (n, p1) \<leftarrow> (case dir of At_file n \<Rightarrow> vinode_ref p (Some n) | _ \<Rightarrow> pool_get_cwd p);
            (r, p2) \<leftarrow> get_dir_path_vinode p1 n buf sz;
            Some (r, Some p2)
          })"

definition pmemfile_getcwd :: "pool option \<Rightarrow> bool \<Rightarrow> nat \<Rightarrow> ((errno + string) \<times> pool option) option" where
  "pmemfile_getcwd pfp buf sz =
     (case pfp of
        None \<Rightarrow> Some (Inl EFAULT, None)
      | Some p \<Rightarrow>
          do {
            (n, p1) \<leftarrow> pool_get_cwd p;
            (r, p2) \<leftarrow> get_dir_path_vinode p1 n buf sz;
            Some (r, Some p2)
          })"

end
