(* ===== verification/Rename.thy ===== *)
theory Rename
  imports Dir_Create
begin

text \<open>
  Renaming and exchanging files (\<^verbatim>\<open>rename.c\<close>) and the lookup of both files (\<^verbatim>\<open>lock_parents_and_children\<close> of
  \<^verbatim>\<open>dir.c\<close>).
\<close>

section \<open>Looking up both files\<close>

text \<open>The null vinode of a file that does not exist.\<close>

definition no_dirent :: dirent_info where
  "no_dirent = \<lparr>di_vinode = Inl 0, di_dirent = None\<rparr>"

definition vinode_of :: "dirent_info \<Rightarrow> nat option" where
  "vinode_of info = (case di_vinode info of Inl _ \<Rightarrow> None | Inr n \<Rightarrow> Some n)"

text \<open>The test whether a directory still holds what the first lookup found.\<close>

definition entry_changed :: "pool \<Rightarrow> nat \<Rightarrow> dirent_ptr option \<Rightarrow> nat option \<Rightarrow> bool" where
  "entry_changed p parent dirent vinode =
     (case (vinode, dirent) of
        (None, None) \<Rightarrow> False
      | (Some n, Some ptr) \<Rightarrow> d_inode (dirent_at p parent ptr) \<noteq> n
      | _ \<Rightarrow> True)"

definition lock_parents_and_children ::
  "pool \<Rightarrow> path_info \<Rightarrow> path_info \<Rightarrow> (int \<times> dirent_info \<times> dirent_info \<times> pool) option" where
  "lock_parents_and_children p src dst =
     do {
       src_parent \<leftarrow> pi_parent src;
       src_name \<leftarrow> pi_remaining src;
       dst_parent \<leftarrow> pi_parent dst;
       dst_name \<leftarrow> pi_remaining dst;
       (src_info, p1) \<leftarrow> vinode_lookup_vinode_by_name_locked p src_parent src_name (component_length src_name);
       (case di_vinode src_info of
          Inl e \<Rightarrow> Some (- int e, src_info, no_dirent, p1)
        | Inr src_vinode \<Rightarrow>
            do {
              (dst_info, p2) \<leftarrow> vinode_lookup_vinode_by_name_locked p1 dst_parent dst_name (component_length dst_name);
              (case (di_vinode dst_info, di_dirent dst_info) of
                 (Inl e, Some _) \<Rightarrow>
                   do { p3 \<leftarrow> vinode_unref p2 (Some src_vinode); Some (- int e, no_dirent, dst_info, p3) }
               | _ \<Rightarrow>
                   do {
                     src_again \<leftarrow> vinode_lookup_dirent_by_name_locked p2 src_parent src_name (component_length src_name);
                     dst_again \<leftarrow> vinode_lookup_dirent_by_name_locked p2 dst_parent dst_name (component_length dst_name);
                     let src_ptr = (case src_again of Inl _ \<Rightarrow> None | Inr ptr \<Rightarrow> Some ptr);
                     let dst_ptr = (case dst_again of Inl _ \<Rightarrow> None | Inr ptr \<Rightarrow> Some ptr);
                     if entry_changed p2 src_parent src_ptr (Some src_vinode) \<or>
                        entry_changed p2 dst_parent dst_ptr (vinode_of dst_info)
                     then
                       do {
                         p3 \<leftarrow> vinode_unref p2 (Some src_vinode);
                         p4 \<leftarrow> vinode_unref p3 (vinode_of dst_info);
                         Some (1, no_dirent, no_dirent, p4)
                       }
                     else Some (0, src_info\<lparr>di_dirent := src_ptr\<rparr>, dst_info\<lparr>di_dirent := dst_ptr\<rparr>, p2)
                   })
            })
     }"

partial_function (option) lock_both_until_no_race ::
  "pool \<Rightarrow> path_info \<Rightarrow> path_info \<Rightarrow> (int \<times> dirent_info \<times> dirent_info \<times> pool) option" where
  "lock_both_until_no_race p src dst =
     do {
       (r, src_info, dst_info, p1) \<leftarrow> lock_parents_and_children p src dst;
       if r = 1 then lock_both_until_no_race p1 src dst else Some (r, src_info, dst_info, p1)
     }"

declare lock_both_until_no_race.simps [code]

section \<open>Moving an entry\<close>

definition vinode_update_parent :: "nat \<Rightarrow> nat \<Rightarrow> nat \<Rightarrow> pool \<Rightarrow> unit body" where
  "vinode_update_parent vinode src_parent dst_parent p =
     do {
       dirent \<leftarrow> find_dirent (\<lambda>d. d_name d = ''..'') 0 (p_dir p vinode);
       let p1 = upd_inode dst_parent inode_tx_inc_nlink (upd_inode src_parent inode_tx_dec_nlink p);
       let p2 = set_dirent vinode dirent ((dirent_at p1 vinode dirent)\<lparr>d_inode := dst_parent\<rparr>) p1;
       (n, p3) \<leftarrow> vinode_ref p2 (Some dst_parent);
       Some (Inr (), upd_vnode vinode (\<lambda>v. v\<lparr>v_parent := Some n\<rparr>) p3)
     }"

definition set_dirent_inode :: "nat \<Rightarrow> dirent_ptr \<Rightarrow> nat \<Rightarrow> pool \<Rightarrow> pool" where
  "set_dirent_inode dir ptr n p = set_dirent dir ptr ((dirent_at p dir ptr)\<lparr>d_inode := n\<rparr>) p"

text \<open>A directory that moved to another parent: its entry for the parent and the parent of its volatile inode.\<close>

definition move_dotdot :: "nat \<Rightarrow> nat \<Rightarrow> pool \<Rightarrow> pool option" where
  "move_dotdot vinode new_parent p =
     do {
       r \<leftarrow> vinode_lookup_dirent_by_name_locked p vinode ''..'' 2;
       (case r of
          Inl _ \<Rightarrow> None
        | Inr ptr \<Rightarrow>
            Some (upd_vnode vinode (\<lambda>v. v\<lparr>v_parent := Some new_parent\<rparr>) (set_dirent_inode vinode ptr new_parent p)))
     }"

definition vinode_exchange ::
  "nat \<Rightarrow> nat \<Rightarrow> dirent_ptr \<Rightarrow> nat \<Rightarrow> nat \<Rightarrow> dirent_ptr \<Rightarrow> pool \<Rightarrow> (errno \<times> pool) option" where
  "vinode_exchange src_parent src_vinode src_dirent dst_parent dst_vinode dst_dirent p =
     do {
       si \<leftarrow> p_inodes p src_vinode;
       di \<leftarrow> p_inodes p dst_vinode;
       sv \<leftarrow> p_vinodes p src_vinode;
       dv \<leftarrow> p_vinodes p dst_vinode;
       let src_is_dir = inode_is_dir si;
       let dst_is_dir = inode_is_dir di;
       (r, p1) \<leftarrow>
         run_tx (\<lambda>q.
           do {
             let q1 = set_dirent_inode dst_parent dst_dirent src_vinode (set_dirent_inode src_parent src_dirent dst_vinode q);
             if (src_is_dir \<or> dst_is_dir) \<and> src_parent \<noteq> dst_parent then
               do {
                 let q2 =
                   (if src_is_dir \<noteq> dst_is_dir then
                      (if src_is_dir
                       then upd_inode dst_parent inode_tx_inc_nlink (upd_inode src_parent inode_tx_dec_nlink q1)
                       else upd_inode dst_parent inode_tx_dec_nlink (upd_inode src_parent inode_tx_inc_nlink q1))
                    else q1);
                 q3 \<leftarrow> (if src_is_dir then move_dotdot src_vinode dst_parent q2 else Some q2);
                 q4 \<leftarrow> (if dst_is_dir then move_dotdot dst_vinode src_parent q3 else Some q3);
                 Some (Inr (), q4)
               }
             else Some (Inr (), q1)
           }) p;
       (case r of
          Inl e \<Rightarrow> Some (no_space e, p1)
        | Inr _ \<Rightarrow>
            if src_parent \<noteq> dst_parent then
              do {
                p2 \<leftarrow>
                  (if src_is_dir
                   then do { v \<leftarrow> p_vinodes p1 src_vinode; (_, q) \<leftarrow> vinode_ref p1 (v_parent v); vinode_unref q (v_parent sv) }
                   else Some p1);
                p3 \<leftarrow>
                  (if dst_is_dir
                   then do { v \<leftarrow> p_vinodes p2 dst_vinode; (_, q) \<leftarrow> vinode_ref p2 (v_parent v); vinode_unref q (v_parent dv) }
                   else Some p2);
                Some (0, p3)
              }
            else Some (0, p1))
     }"

text \<open>The file that is replaced, if there is one, loses its name.\<close>

definition unlink_replaced :: "nat \<Rightarrow> dirent_info \<Rightarrow> pmemfile_time \<Rightarrow> pool \<Rightarrow> unit body" where
  "unlink_replaced dst_parent dst_info tm q =
     (case (di_dirent dst_info, di_vinode dst_info) of
        (Some ptr, Inr n) \<Rightarrow>
          do {
            i \<leftarrow> p_inodes q n;
            tx_then
              (if inode_is_dir i then vinode_unlink_dir dst_parent ptr n tm q else vinode_unlink_file dst_parent ptr n tm q)
              (\<lambda>_ q1.
                do {
                  j \<leftarrow> p_inodes q1 n;
                  if inode_get_nlink j = 0 then vinode_orphan_unlocked q1 n else Some (Inr (), q1)
                })
          }
      | (Some ptr, Inl _) \<Rightarrow> None
      | (None, _) \<Rightarrow> Some (Inr (), q))"

definition vinode_rename ::
  "nat \<Rightarrow> nat \<Rightarrow> dirent_ptr \<Rightarrow> nat \<Rightarrow> string \<Rightarrow> dirent_info \<Rightarrow> pmemfile_time \<Rightarrow> pool \<Rightarrow> (errno \<times> pool) option" where
  "vinode_rename src_parent src_vinode src_dirent dst_parent dst_name dst_info tm p =
     do {
       si \<leftarrow> p_inodes p src_vinode;
       dst_is_dir \<leftarrow>
         (case (di_dirent dst_info, di_vinode dst_info) of
            (None, _) \<Rightarrow> Some None
          | (Some _, Inr n) \<Rightarrow> do { i \<leftarrow> p_inodes p n; Some (Some (inode_is_dir i)) }
          | (Some _, Inl _) \<Rightarrow> None);
       let src_is_dir = inode_is_dir si;
       let namelen = component_length dst_name;
       if src_is_dir \<and> dst_is_dir = Some False then Some (ENOTDIR, p)
       else if \<not> src_is_dir \<and> dst_is_dir = Some True then Some (EISDIR, p)
       else
         do {
           (r, p1) \<leftarrow>
             run_tx (\<lambda>q.
               tx_then (unlink_replaced dst_parent dst_info tm q) (\<lambda>_ q1.
                 if src_parent = dst_parent then
                   (if namelen > PMEMFILE_MAX_FILE_NAME then Some (Inl ENAMETOOLONG, q1)
                    else
                      Some (Inr (),
                        upd_inode src_vinode (inode_tx_set_ctime tm)
                          (upd_inode src_parent (inode_tx_set_mtime tm)
                            (set_dirent src_parent src_dirent
                              ((dirent_at q1 src_parent src_dirent)\<lparr>d_name := take namelen dst_name\<rparr>) q1))))
                 else
                   tx_then (inode_add_dirent dst_parent dst_name namelen src_vinode tm q1) (\<lambda>_ q2.
                   tx_then (vinode_unlink_file src_parent src_dirent src_vinode tm q2) (\<lambda>_ q3.
                     if src_is_dir then vinode_update_parent src_vinode src_parent dst_parent q3 else Some (Inr (), q3))))) p;
           (case r of
              Inl e \<Rightarrow> Some (e, p1)
            | Inr _ \<Rightarrow>
                if src_parent \<noteq> dst_parent \<and> src_is_dir
                then do { p2 \<leftarrow> vinode_unref p1 (Some src_parent); Some (0, p2) }
                else Some (0, p1))
         }
     }"

partial_function (option) dir_is_parent_of :: "pool \<Rightarrow> nat \<Rightarrow> nat \<Rightarrow> bool option" where
  "dir_is_parent_of p possible_parent v =
     do {
       is_root \<leftarrow> vinode_is_root p v;
       if is_root then Some False
       else if v = possible_parent then Some True
       else
         do {
           w \<leftarrow> p_vinodes p v;
           parent \<leftarrow> v_parent w;
           dir_is_parent_of p possible_parent parent
         }
     }"

declare dir_is_parent_of.simps [code]

section \<open>The call\<close>

definition PMEMFILE_RENAME_NOREPLACE :: nat where "PMEMFILE_RENAME_NOREPLACE = 1"
definition PMEMFILE_RENAME_EXCHANGE :: nat where "PMEMFILE_RENAME_EXCHANGE = 2"
definition PMEMFILE_RENAME_WHITEOUT :: nat where "PMEMFILE_RENAME_WHITEOUT = 4"

text \<open>What happens once both files are known: the checks, and the rename or exchange. The result is an error number.\<close>

definition rename_locked ::
  "pmemfile_time \<Rightarrow> nat \<Rightarrow> pmemfile_cred \<Rightarrow> nat \<Rightarrow> string \<Rightarrow> nat \<Rightarrow> dirent_ptr \<Rightarrow> nat \<Rightarrow> string \<Rightarrow> dirent_info \<Rightarrow> pool
    \<Rightarrow> (errno \<times> pool) option" where
  "rename_locked tm flags cred src_parent src_name src_vinode src_dirent dst_parent dst_name dst_info p =
     (let exchange = (flags AND PMEMFILE_RENAME_EXCHANGE \<noteq> 0) in
      if exchange \<and> vinode_of dst_info = None then Some (ENOENT, p)
      else
        do {
          src_ok \<leftarrow> vinode_can_access cred p src_parent PFILE_WANT_WRITE;
          dst_ok \<leftarrow> vinode_can_access cred p dst_parent PFILE_WANT_WRITE;
          si \<leftarrow> p_inodes p src_vinode;
          if \<not> src_ok \<or> \<not> dst_ok then Some (EACCES, p)
          else if vinode_of dst_info = Some src_vinode then Some (0, p)
          else if di_dirent dst_info \<noteq> None \<and> flags AND PMEMFILE_RENAME_NOREPLACE \<noteq> 0 then Some (EEXIST, p)
          else
            do {
              loop1 \<leftarrow>
                (if src_parent \<noteq> dst_parent \<and> inode_is_dir si then dir_is_parent_of p src_vinode dst_parent else Some False);
              loop2 \<leftarrow>
                (if src_parent \<noteq> dst_parent \<and> \<not> loop1 \<and> exchange then
                   do {
                     n \<leftarrow> vinode_of dst_info;
                     i \<leftarrow> p_inodes p n;
                     if inode_is_dir i then dir_is_parent_of p n src_parent else Some False
                   }
                 else Some False);
              if loop1 \<or> loop2 then Some (EINVAL, p)
              else if src_name = ''.'' \<or> src_name = ''..'' \<or> dst_name = ''.'' \<or> dst_name = ''..'' then Some (EINVAL, p)
              else if exchange then
                do {
                  n \<leftarrow> vinode_of dst_info;
                  ptr \<leftarrow> di_dirent dst_info;
                  vinode_exchange src_parent src_vinode src_dirent dst_parent n ptr p
                }
              else vinode_rename src_parent src_vinode src_dirent dst_parent dst_name dst_info tm p
            }
        })"

definition renameat2_vinode ::
  "pmemfile_time \<Rightarrow> nat option \<Rightarrow> string \<Rightarrow> nat option \<Rightarrow> string \<Rightarrow> nat \<Rightarrow> pool \<Rightarrow> unit body" where
  "renameat2_vinode tm olddir oldpath newdir newpath flags p0 =
     (if flags AND (PMEMFILE_RENAME_EXCHANGE OR PMEMFILE_RENAME_NOREPLACE OR PMEMFILE_RENAME_WHITEOUT) \<noteq> flags
      then Some (Inl EINVAL, p0)
      else if flags AND PMEMFILE_RENAME_WHITEOUT \<noteq> 0 then Some (Inl EINVAL, p0)
      else if flags AND (PMEMFILE_RENAME_EXCHANGE OR PMEMFILE_RENAME_NOREPLACE) =
          PMEMFILE_RENAME_EXCHANGE OR PMEMFILE_RENAME_NOREPLACE then Some (Inl EINVAL, p0)
      else
        with_cred p0 (\<lambda>cred p.
          do {
            (src, p1) \<leftarrow> resolve_pathat p cred olddir oldpath 0;
            (dst, p2) \<leftarrow> resolve_pathat p1 cred newdir newpath 0;
            (err, p3) \<leftarrow>
              (if pi_error src \<noteq> 0 then Some (pi_error src, p2)
               else if pi_error dst \<noteq> 0 then Some (pi_error dst, p2)
               else
                 do {
                   (r, src_info, dst_info, q) \<leftarrow> lock_both_until_no_race p2 src dst;
                   if r < 0 then Some (nat (- r), q)
                   else
                     do {
                       src_parent \<leftarrow> pi_parent src;
                       src_name \<leftarrow> pi_remaining src;
                       dst_parent \<leftarrow> pi_parent dst;
                       dst_name \<leftarrow> pi_remaining dst;
                       src_vinode \<leftarrow> vinode_of src_info;
                       src_dirent \<leftarrow> di_dirent src_info;
                       (err, q1) \<leftarrow>
                         rename_locked tm flags cred src_parent src_name src_vinode src_dirent dst_parent dst_name dst_info q;
                       q2 \<leftarrow> vinode_unref q1 (vinode_of dst_info);
                       q3 \<leftarrow> vinode_unref q2 (Some src_vinode);
                       Some (err, q3)
                     }
                 });
            p4 \<leftarrow> path_info_cleanup p3 dst;
            p5 \<leftarrow> path_info_cleanup p4 src;
            Some (if err \<noteq> 0 then Inl err else Inr (), p5)
          }))"

definition pmemfile_rename ::
  "pmemfile_time \<Rightarrow> pool option \<Rightarrow> string option \<Rightarrow> string option \<Rightarrow> ((errno + unit) \<times> pool option) option" where
  "pmemfile_rename tm pfp old_path new_path =
     (case (pfp, old_path, new_path) of
        (None, _, _) \<Rightarrow> Some (Inl EFAULT, None)
      | (Some p, Some old, Some new) \<Rightarrow>
          do {
            (at, p1) \<leftarrow>
              (if \<not> relative old \<and> \<not> relative new then Some (None, p)
               else do { (n, p1) \<leftarrow> pool_get_cwd p; Some (Some n, p1) });
            (r, p2) \<leftarrow> renameat2_vinode tm at old at new 0 p1;
            p3 \<leftarrow> vinode_unref p2 at;
            Some (r, Some p3)
          }
      | (Some p, _, _) \<Rightarrow> Some (Inl ENOENT, Some p))"

definition pmemfile_renameat2 ::
  "pmemfile_time \<Rightarrow> pool option \<Rightarrow> at_file \<Rightarrow> string option \<Rightarrow> at_file \<Rightarrow> string option \<Rightarrow> nat
    \<Rightarrow> ((errno + unit) \<times> pool option) option" where
  "pmemfile_renameat2 tm pfp old_at old_path new_at new_path flags =
     (case (pfp, old_path, new_path) of
        (None, _, _) \<Rightarrow> Some (Inl EFAULT, None)
      | (Some p, Some old, Some new) \<Rightarrow>
          if relative old \<and> old_at = At_null then Some (Inl EFAULT, Some p)
          else if relative new \<and> new_at = At_null then Some (Inl EFAULT, Some p)
          else
            do {
              (olddir, old_unref, p1) \<leftarrow> pool_get_dir_for_path p old_at old;
              (newdir, new_unref, p2) \<leftarrow> pool_get_dir_for_path p1 new_at new;
              (r, p3) \<leftarrow> renameat2_vinode tm olddir old newdir new flags p2;
              p4 \<leftarrow> (if old_unref then vinode_unref p3 olddir else Some p3);
              p5 \<leftarrow> (if new_unref then vinode_unref p4 newdir else Some p4);
              Some (r, Some p5)
            }
      | (Some p, _, _) \<Rightarrow> Some (Inl ENOENT, Some p))"

definition pmemfile_renameat ::
  "pmemfile_time \<Rightarrow> pool option \<Rightarrow> at_file \<Rightarrow> string option \<Rightarrow> at_file \<Rightarrow> string option
    \<Rightarrow> ((errno + unit) \<times> pool option) option" where
  "pmemfile_renameat tm pfp old_at old_path new_at new_path = pmemfile_renameat2 tm pfp old_at old_path new_at new_path 0"

end
