(* ===== verification/File.thy ===== *)
theory File
  imports Rename
begin

text \<open>
  Opening and closing files (\<^verbatim>\<open>file.c\<close>). Flags are sets of bits. An open file is the name of its
  volatile inode with the record that reading and writing use; the position in a directory is left out here.
\<close>

section \<open>Flags\<close>

definition PMEMFILE_O_RDONLY :: nat where "PMEMFILE_O_RDONLY = 0"
definition PMEMFILE_O_WRONLY :: nat where "PMEMFILE_O_WRONLY = 1"
definition PMEMFILE_O_RDWR :: nat where "PMEMFILE_O_RDWR = 2"
definition PMEMFILE_O_ACCMODE :: nat where "PMEMFILE_O_ACCMODE = 3"
definition PMEMFILE_O_CREAT :: nat where "PMEMFILE_O_CREAT = 64"
definition PMEMFILE_O_EXCL :: nat where "PMEMFILE_O_EXCL = 128"
definition PMEMFILE_O_NOCTTY :: nat where "PMEMFILE_O_NOCTTY = 256"
definition PMEMFILE_O_TRUNC :: nat where "PMEMFILE_O_TRUNC = 512"
definition PMEMFILE_O_APPEND :: nat where "PMEMFILE_O_APPEND = 1024"
definition PMEMFILE_O_NONBLOCK :: nat where "PMEMFILE_O_NONBLOCK = 2048"
definition PMEMFILE_O_DSYNC :: nat where "PMEMFILE_O_DSYNC = 4096"
definition PMEMFILE_O_ASYNC :: nat where "PMEMFILE_O_ASYNC = 8192"
definition PMEMFILE_O_DIRECT :: nat where "PMEMFILE_O_DIRECT = 16384"
definition PMEMFILE_O_DIRECTORY :: nat where "PMEMFILE_O_DIRECTORY = 65536"
definition PMEMFILE_O_NOFOLLOW :: nat where "PMEMFILE_O_NOFOLLOW = 131072"
definition PMEMFILE_O_NOATIME :: nat where "PMEMFILE_O_NOATIME = 262144"
definition PMEMFILE_O_CLOEXEC :: nat where "PMEMFILE_O_CLOEXEC = 524288"
definition PMEMFILE_O_SYNC :: nat where "PMEMFILE_O_SYNC = 1052672"
definition PMEMFILE_O_PATH :: nat where "PMEMFILE_O_PATH = 2097152"
definition PMEMFILE_O_TMPFILE :: nat where "PMEMFILE_O_TMPFILE = 4194304 OR PMEMFILE_O_DIRECTORY"

definition PMEMFILE_S_ISUID :: nat where "PMEMFILE_S_ISUID = 2048"
definition PMEMFILE_S_ISGID :: nat where "PMEMFILE_S_ISGID = 1024"

text \<open>\<open>x & ~m\<close>\<close>

definition clear_bits :: "nat \<Rightarrow> nat \<Rightarrow> nat" where
  "clear_bits x m = x - (x AND m)"

definition is_tmpfile :: "nat \<Rightarrow> bool" where
  "is_tmpfile flags = (flags AND PMEMFILE_O_TMPFILE = PMEMFILE_O_TMPFILE)"

text \<open>0 or \<^verbatim>\<open>EINVAL\<close>. Clearing a bit that is tested first is clearing it.\<close>

definition check_flags :: "nat \<Rightarrow> errno" where
  "check_flags flags =
     (let f1 = clear_bits flags PMEMFILE_O_APPEND in
      if f1 AND PMEMFILE_O_ASYNC \<noteq> 0 then EINVAL
      else
        let f2 = clear_bits (clear_bits (clear_bits f1 PMEMFILE_O_CREAT) PMEMFILE_O_CLOEXEC) PMEMFILE_O_DIRECT;
            f3 = (if f2 AND PMEMFILE_O_TMPFILE = PMEMFILE_O_TMPFILE then clear_bits f2 PMEMFILE_O_TMPFILE else f2);
            f4 = clear_bits (clear_bits (clear_bits f3 PMEMFILE_O_DIRECTORY) PMEMFILE_O_DSYNC) PMEMFILE_O_EXCL;
            f5 = clear_bits (clear_bits (clear_bits f4 PMEMFILE_O_NOCTTY) PMEMFILE_O_NOATIME) PMEMFILE_O_NOFOLLOW;
            f6 = clear_bits (clear_bits f5 PMEMFILE_O_NONBLOCK) PMEMFILE_O_PATH;
            f7 = clear_bits (clear_bits f6 PMEMFILE_O_SYNC) PMEMFILE_O_TRUNC;
            f8 = (if f7 AND PMEMFILE_O_ACCMODE = PMEMFILE_O_RDONLY then f7 - PMEMFILE_O_RDONLY else f7);
            f9 = (if f8 AND PMEMFILE_O_ACCMODE = PMEMFILE_O_WRONLY then f8 - PMEMFILE_O_WRONLY else f8);
            f10 = (if f9 AND PMEMFILE_O_ACCMODE = PMEMFILE_O_RDWR then f9 - PMEMFILE_O_RDWR else f9)
        in if f10 \<noteq> 0 then EINVAL else 0)"

section \<open>Finding the file\<close>

text \<open>
  The loop that follows symbolic links. It carries the variable \<^verbatim>\<open>vparent\<close>, which keeps the parent of the last round
  after the reference to it has been dropped. The result is the error number, the volatile inode if
  there is one, \<^verbatim>\<open>vparent\<close> and the path info.
\<close>

partial_function (option) open_loop ::
  "pool \<Rightarrow> pmemfile_cred \<Rightarrow> nat \<Rightarrow> nat option \<Rightarrow> path_info
    \<Rightarrow> (errno \<times> nat option \<times> nat option \<times> path_info \<times> pool) option" where
  "open_loop p cred flags vparent info =
     (if pi_error info \<noteq> 0 then Some (pi_error info, None, vparent, info, p)
      else
        do {
          (dir, p1) \<leftarrow> vinode_ref p (pi_parent info);
          remaining \<leftarrow> pi_remaining info;
          let namelen = component_length remaining;
          (vinode, p2) \<leftarrow>
            (if namelen = 0 then do { (n, q) \<leftarrow> vinode_ref p1 (Some dir); Some (Some n, q) }
             else
               do {
                 (r, q) \<leftarrow> vinode_lookup_dirent p1 dir remaining namelen 0;
                 Some (case r of Inl _ \<Rightarrow> None | Inr n \<Rightarrow> Some n, q)
               });
          (case vinode of
             None \<Rightarrow> Some (0, None, Some dir, info, p2)
           | Some n \<Rightarrow>
               do {
                 i \<leftarrow> p_inodes p2 n;
                 if \<not> inode_is_symlink i then Some (0, Some n, Some dir, info, p2)
                 else if flags AND PMEMFILE_O_NOFOLLOW \<noteq> 0 then Some (ELOOP, Some n, Some dir, info, p2)
                 else if flags AND (PMEMFILE_O_CREAT OR PMEMFILE_O_EXCL) = PMEMFILE_O_CREAT OR PMEMFILE_O_EXCL
                 then Some (0, Some n, Some dir, info, p2)
                 else
                   do {
                     (info2, p3) \<leftarrow> resolve_symlink p2 cred n info;
                     p4 \<leftarrow> vinode_unref p3 (Some dir);
                     open_loop p4 cred flags (Some dir) info2
                   }
               })
        })"

declare open_loop.simps [code]

text \<open>The checks that depend on the kind of opening, before a file is created.\<close>

definition open_check_existence :: "nat \<Rightarrow> inode option \<Rightarrow> inode \<Rightarrow> bool \<Rightarrow> errno" where
  "open_check_existence flags vinode vparent has_slash =
     (let accmode = flags AND PMEMFILE_O_ACCMODE in
      case vinode of
        None \<Rightarrow>
          if is_tmpfile flags then ENOENT
          else if flags AND (PMEMFILE_O_CREAT OR PMEMFILE_O_EXCL) = PMEMFILE_O_CREAT OR PMEMFILE_O_EXCL
          then (if \<not> inode_is_dir vparent then ENOTDIR else 0)
          else if flags AND PMEMFILE_O_CREAT = PMEMFILE_O_CREAT then 0
          else ENOENT
      | Some i \<Rightarrow>
          if \<not> inode_is_dir i \<and> has_slash then ENOTDIR
          else if is_tmpfile flags then
            (if \<not> inode_is_dir i then ENOTDIR else if accmode = PMEMFILE_O_RDONLY then EINVAL else 0)
          else if flags AND (PMEMFILE_O_CREAT OR PMEMFILE_O_EXCL) = PMEMFILE_O_CREAT OR PMEMFILE_O_EXCL then EEXIST
          else 0)"

text \<open>The checks on a file that exists and is to be opened.\<close>

definition open_check_access :: "nat \<Rightarrow> pmemfile_cred \<Rightarrow> inode \<Rightarrow> errno" where
  "open_check_access flags cred i =
     (let accmode = flags AND PMEMFILE_O_ACCMODE;
          acc2 =
            (if accmode = PMEMFILE_O_RDWR then PFILE_WANT_READ OR PFILE_WANT_WRITE
             else if accmode = PMEMFILE_O_RDONLY then PFILE_WANT_READ
             else PFILE_WANT_WRITE);
          perms = \<lparr>perm_flags = inode_get_flags i, perm_uid = i_uid i, perm_gid = i_gid i\<rparr>
      in if flags AND PMEMFILE_O_PATH = 0 \<and> accmode = PMEMFILE_O_ACCMODE then EINVAL
         else if flags AND PMEMFILE_O_PATH = 0 \<and> \<not> can_access cred perms acc2 then EACCES
         else if flags AND PMEMFILE_O_DIRECTORY \<noteq> 0 \<and> \<not> inode_is_dir i then ENOTDIR
         else if (accmode = PMEMFILE_O_WRONLY \<or> accmode = PMEMFILE_O_RDWR) \<and> inode_is_dir i then EISDIR
         else if flags AND PMEMFILE_O_TRUNC \<noteq> 0 then
           (if \<not> inode_is_regular_file i then EINVAL else if accmode = PMEMFILE_O_RDONLY then EACCES else 0)
         else 0)"

definition open_file_flags :: "nat \<Rightarrow> nat" where
  "open_file_flags flags =
     (let accmode = flags AND PMEMFILE_O_ACCMODE;
          f1 =
            (if flags AND PMEMFILE_O_PATH \<noteq> 0 then PFILE_PATH
             else if accmode = PMEMFILE_O_RDONLY then PFILE_READ
             else if accmode = PMEMFILE_O_WRONLY then PFILE_WRITE
             else if accmode = PMEMFILE_O_RDWR then PFILE_READ OR PFILE_WRITE
             else 0);
          f2 = (if flags AND PMEMFILE_O_NOATIME \<noteq> 0 then f1 OR PFILE_NOATIME else f1)
      in if flags AND PMEMFILE_O_APPEND \<noteq> 0 then f2 OR PFILE_APPEND else f2)"

section \<open>Creating and truncating\<close>

text \<open>A new file, which has a name or is registered as orphaned. The result is its volatile inode.\<close>

definition open_create ::
  "pmemfile_time \<Rightarrow> bool \<Rightarrow> pmemfile_cred \<Rightarrow> nat \<Rightarrow> nat \<Rightarrow> string \<Rightarrow> nat \<Rightarrow> pool \<Rightarrow> nat body" where
  "open_create tm tmpfile cred mode vparent name namelen p =
     do {
       ok \<leftarrow> vinode_can_access cred p vparent PFILE_WANT_WRITE;
       if \<not> ok then Some (Inl EACCES, p)
       else
         do {
           (r, p1) \<leftarrow>
             run_tx (\<lambda>q.
               tx_then (alloc_inode cred (PMEMFILE_S_IFREG OR mode) tm q) (\<lambda>tinode q1.
                 if tmpfile then tx_then (inode_orphan q1 tinode) (\<lambda>pos q2. Some (Inr (tinode, Some pos), q2))
                 else tx_then (inode_add_dirent vparent name namelen tinode tm q1) (\<lambda>_ q2. Some (Inr (tinode, None), q2)))) p;
           (case r of
              Inl e \<Rightarrow> Some (Inl (no_space e), p1)
            | Inr (tinode, orphan_info) \<Rightarrow>
                do {
                  (v, p2) \<leftarrow> inode_ref p1 tinode (Some vparent);
                  (case v of
                     Inl e \<Rightarrow> Some (Inl e, p2)
                   | Inr n \<Rightarrow>
                       Some (Inr n, if tmpfile then upd_vnode n (\<lambda>v. v\<lparr>v_orphaned := orphan_info\<rparr>) p2 else p2))
                })
         }
     }"

text \<open>Truncation of the file of a volatile inode.\<close>

definition truncate_vnode :: "pmemfile_time \<Rightarrow> nat \<Rightarrow> nat \<Rightarrow> pool \<Rightarrow> (errno \<times> pool) option" where
  "truncate_vnode tm n sz p =
     do {
       i \<leftarrow> p_inodes p n;
       v \<leftarrow> p_vinodes p n;
       (err, w) \<leftarrow> vinode_truncate (p_conf p) (p_store p) (p_over p) tm
         \<lparr>vdata = p_file p n, vi_inode = i, vi_atime = v_atime v, atime_dirty = v_atime_dirty v,
          snap_first_free = None, snap_first_block = None\<rparr> sz;
       Some (err, p\<lparr>p_inodes := (p_inodes p)(n \<mapsto> vi_inode w), p_file := (p_file p)(n := vdata w)\<rparr>)
     }"

text \<open>What opening does to a file that exists: \<^verbatim>\<open>O_TRUNC\<close>, and clearing of the set-id bits when it is written.\<close>

definition open_existing :: "pmemfile_time \<Rightarrow> nat \<Rightarrow> pmemfile_cred \<Rightarrow> nat \<Rightarrow> pool \<Rightarrow> (errno \<times> pool) option" where
  "open_existing tm flags cred n p =
     do {
       (err, p1) \<leftarrow> (if flags AND PMEMFILE_O_TRUNC \<noteq> 0 then truncate_vnode tm n 0 p else Some (0, p));
       if err \<noteq> 0 then Some (err, p1)
       else if open_file_flags flags AND PFILE_WRITE \<noteq> 0 then
         do {
           i \<leftarrow> p_inodes p1 n;
           let clrflags = PMEMFILE_S_ISUID OR PMEMFILE_S_ISGID;
           if inode_get_flags i AND clrflags \<noteq> 0 \<and> fsuid cred \<noteq> i_uid i
           then Some (0, upd_inode n (inode_tx_set_flags (clear_bits (inode_get_flags i) clrflags)) p1)
           else Some (0, p1)
         }
       else Some (0, p1)
     }"

section \<open>Opening\<close>

text \<open>
  The end of \<^verbatim>\<open>_pmemfile_openat\<close>: \<^verbatim>\<open>vparent\<close> and the path info are released, and after an error the file too.
\<close>

definition open_end :: "errno \<Rightarrow> nat option \<Rightarrow> nat option \<Rightarrow> path_info \<Rightarrow> nat \<Rightarrow> pool \<Rightarrow> (nat \<times> pmemfile_file) body" where
  "open_end err vinode vparent info fflags p =
     do {
       p1 \<leftarrow> vinode_unref p vparent;
       p2 \<leftarrow> path_info_cleanup p1 info;
       if err \<noteq> 0 then do { p3 \<leftarrow> vinode_unref p2 vinode; Some (Inl err, p3) }
       else
         do {
           n \<leftarrow> vinode;
           Some (Inr (n, \<lparr>f_flags = fflags, f_offset = 0, block_pointer_cache = None, invalidation_observed = 0\<rparr>), p2)
         }
     }"

definition openat_vinode ::
  "pmemfile_time \<Rightarrow> nat \<Rightarrow> nat \<Rightarrow> nat option \<Rightarrow> string \<Rightarrow> pool \<Rightarrow> (nat \<times> pmemfile_file) body" where
  "openat_vinode tm flags0 mode0 dir pathname p0 =
     (let flags = (if flags0 AND PMEMFILE_O_PATH \<noteq> 0
                   then flags0 AND (PMEMFILE_O_PATH OR PMEMFILE_O_NOFOLLOW OR PMEMFILE_O_CLOEXEC) else flags0);
          tmpfile = is_tmpfile flags;
          mode = (if flags AND PMEMFILE_O_CREAT \<noteq> 0 \<or> tmpfile
                  then clear_bits (mode0 AND PMEMFILE_ALLPERMS) (p_umask p0) else 0)
      in if check_flags flags \<noteq> 0 then Some (Inl (check_flags flags), p0)
         else
           with_cred p0 (\<lambda>cred p.
             do {
               (info0, p1) \<leftarrow> resolve_pathat p cred dir pathname 0;
               (err, vinode, vparent, info, p2) \<leftarrow> open_loop p1 cred flags None info0;
               if err \<noteq> 0 then open_end err vinode vparent info 0 p2
               else
                 do {
                   parent \<leftarrow> vparent;
                   pari \<leftarrow> p_inodes p2 parent;
                   remaining \<leftarrow> pi_remaining info;
                   vi \<leftarrow> (case vinode of None \<Rightarrow> Some None | Some n \<Rightarrow> do { i \<leftarrow> p_inodes p2 n; Some (Some i) });
                   let e1 = open_check_existence flags vi pari (strchr remaining slash \<noteq> None);
                   if e1 \<noteq> 0 then open_end e1 vinode vparent info 0 p2
                   else
                     do {
                       p3 \<leftarrow> (if tmpfile then vinode_unref p2 vparent else Some p2);
                       let (vparent1, vinode1) = (if tmpfile then (vinode, None) else (vparent, vinode));
                       let e2 = (case (vinode1, vi) of (Some _, Some i) \<Rightarrow> open_check_access flags cred i | _ \<Rightarrow> 0);
                       if e2 \<noteq> 0 then open_end e2 vinode1 vparent1 info 0 p3
                       else
                         do {
                           let (ok, mem) = pf_calloc (p_mem p3);
                           let p4 = p3\<lparr>p_mem := mem\<rparr>;
                           if \<not> ok then open_end ENOMEM vinode1 vparent1 info 0 p4
                           else
                             (case vinode1 of
                                None \<Rightarrow>
                                  do {
                                    par \<leftarrow> vparent1;
                                    (r, p5) \<leftarrow> open_create tm tmpfile cred mode par remaining (component_length remaining) p4;
                                    (case r of
                                       Inl e \<Rightarrow> open_end e None vparent1 info 0 p5
                                     | Inr n \<Rightarrow> open_end 0 (Some n) vparent1 info (open_file_flags flags) p5)
                                  }
                              | Some n \<Rightarrow>
                                  do {
                                    (e, p5) \<leftarrow> open_existing tm flags cred n p4;
                                    open_end e (Some n) vparent1 info (open_file_flags flags) p5
                                  })
                         }
                     }
                 }
             }))"

definition pmemfile_openat ::
  "pmemfile_time \<Rightarrow> pool option \<Rightarrow> at_file \<Rightarrow> string option \<Rightarrow> nat \<Rightarrow> nat
    \<Rightarrow> ((errno + nat \<times> pmemfile_file) \<times> pool option) option" where
  "pmemfile_openat tm pfp dir pathname flags mode = at_call ENOENT pfp dir pathname (openat_vinode tm flags mode)"

definition pmemfile_open ::
  "pmemfile_time \<Rightarrow> pool option \<Rightarrow> string option \<Rightarrow> nat \<Rightarrow> nat \<Rightarrow> ((errno + nat \<times> pmemfile_file) \<times> pool option) option" where
  "pmemfile_open tm pfp pathname flags mode = pmemfile_openat tm pfp At_cwd pathname flags mode"

definition pmemfile_create ::
  "pmemfile_time \<Rightarrow> pool option \<Rightarrow> string option \<Rightarrow> nat \<Rightarrow> ((errno + nat \<times> pmemfile_file) \<times> pool option) option" where
  "pmemfile_create tm pfp pathname mode =
     pmemfile_open tm pfp pathname (PMEMFILE_O_CREAT OR PMEMFILE_O_WRONLY OR PMEMFILE_O_TRUNC) mode"

definition PMEMFILE_ROOT_COUNT :: nat where "PMEMFILE_ROOT_COUNT = 4"

definition pmemfile_open_root ::
  "pmemfile_time \<Rightarrow> pool option \<Rightarrow> nat \<Rightarrow> nat \<Rightarrow> ((errno + nat \<times> pmemfile_file) \<times> pool option) option" where
  "pmemfile_open_root tm pfp index flags =
     (case pfp of
        None \<Rightarrow> Some (Inl EINVAL, None)
      | Some p \<Rightarrow>
          if flags \<noteq> 0 \<or> index \<ge> PMEMFILE_ROOT_COUNT then Some (Inl EINVAL, Some p)
          else
            do {
              (r, p1) \<leftarrow> openat_vinode tm PMEMFILE_O_PATH 0 (Some (p_root p ! index)) ''.'' p;
              Some (r, Some p1)
            })"

definition PMEMFILE_OPEN_PARENT_SYMLINK_FOLLOW :: nat where "PMEMFILE_OPEN_PARENT_SYMLINK_FOLLOW = 2"
definition PMEMFILE_OPEN_PARENT_ACCESS_MASK :: nat where "PMEMFILE_OPEN_PARENT_ACCESS_MASK = 12"

partial_function (option) open_parent_loop ::
  "pool \<Rightarrow> pmemfile_cred \<Rightarrow> nat \<Rightarrow> path_info \<Rightarrow> (errno \<times> path_info \<times> pool) option" where
  "open_parent_loop p cred flags info =
     (case pi_parent info of
        None \<Rightarrow> Some (ELOOP, info, p)
      | Some parent \<Rightarrow>
          if flags AND PMEMFILE_OPEN_PARENT_SYMLINK_FOLLOW = 0 then Some (0, info, p)
          else
            do {
              remaining \<leftarrow> pi_remaining info;
              let namelen = component_length remaining;
              if more_than_1_component remaining \<or> namelen = 0 then Some (0, info, p)
              else
                do {
                  (r, p1) \<leftarrow> vinode_lookup_dirent p parent remaining namelen 0;
                  (case r of
                     Inl _ \<Rightarrow> Some (0, info, p1)
                   | Inr n \<Rightarrow>
                       do {
                         i \<leftarrow> p_inodes p1 n;
                         if inode_is_symlink i then
                           do {
                             (info2, p2) \<leftarrow> resolve_symlink p1 cred n info;
                             open_parent_loop p2 cred flags info2
                           }
                         else do { p2 \<leftarrow> vinode_unref p1 (Some n); Some (0, info, p2) }
                       })
                }
            })"

declare open_parent_loop.simps [code]

text \<open>The result has the file and the text that is stored in the path buffer.\<close>

definition pmemfile_open_parent ::
  "pool option \<Rightarrow> at_file \<Rightarrow> string option \<Rightarrow> nat \<Rightarrow> nat \<Rightarrow> ((errno + (nat \<times> pmemfile_file) \<times> string) \<times> pool option) option" where
  "pmemfile_open_parent pfp dir path path_size flags =
     (case (pfp, path) of
        (Some p, Some s) \<Rightarrow>
          if relative s \<and> dir = At_null then Some (Inl EFAULT, Some p)
          else if flags AND PMEMFILE_OPEN_PARENT_ACCESS_MASK = PMEMFILE_OPEN_PARENT_ACCESS_MASK then Some (Inl EINVAL, Some p)
          else if flags AND (PMEMFILE_OPEN_PARENT_STOP_AT_ROOT OR PMEMFILE_OPEN_PARENT_SYMLINK_FOLLOW OR
              PMEMFILE_OPEN_PARENT_ACCESS_MASK) \<noteq> flags then Some (Inl EINVAL, Some p)
          else
            do {
              (r, p4) \<leftarrow>
                with_cred p (\<lambda>cred p0.
                  do {
                    (at, at_unref, p1) \<leftarrow> pool_get_dir_for_path p0 dir s;
                    (info0, p2) \<leftarrow> resolve_pathat p1 cred at s flags;
                    (err, info, p3) \<leftarrow> open_parent_loop p2 cred flags info0;
                    let (ok, mem) = pf_calloc (p_mem p3);
                    (r, q) \<leftarrow>
                      (if err \<noteq> 0 then Some (Inl err, p3)
                       else if \<not> ok then Some (Inl ENOMEM, p3\<lparr>p_mem := mem\<rparr>)
                       else
                         do {
                           (n, q) \<leftarrow> vinode_ref (p3\<lparr>p_mem := mem\<rparr>) (pi_parent info);
                           remaining \<leftarrow> pi_remaining info;
                           Some (Inr ((n, \<lparr>f_flags = PFILE_READ OR PFILE_NOATIME, f_offset = 0, block_pointer_cache = None,
                               invalidation_observed = 0\<rparr>), take (path_size - 1) remaining), q)
                         });
                    q1 \<leftarrow> path_info_cleanup q info;
                    q2 \<leftarrow> (if at_unref then vinode_unref q1 at else Some q1);
                    Some (r, q2)
                  });
              Some (r, Some p4)
            }
      | (None, _) \<Rightarrow> Some (Inl EFAULT, None)
      | (Some p, None) \<Rightarrow> Some (Inl ENOENT, Some p))"

definition pmemfile_close :: "pool \<Rightarrow> nat \<Rightarrow> pool option" where
  "pmemfile_close p n = vinode_unref p (Some n)"

definition pmemfile_umask :: "pool \<Rightarrow> nat \<Rightarrow> nat \<times> pool" where
  "pmemfile_umask p m = (p_umask p, p\<lparr>p_umask := m\<rparr>)"

end
