(* ===== verification/Lseek.thy ===== *)
theory Lseek
  imports Dir
begin

text \<open>
  The position of an open file (\<^verbatim>\<open>lseek.c\<close>). File offsets are signed 64-bit integers. The position in a directory has
  the number of a batch in its upper half and the number of an entry in its lower half. Assertions are off, as in a
  release build. Before a search for data or holes in a directory the offset map is built for it as well; the model
  takes the blocks this finds as given.
\<close>

section \<open>Definitions\<close>

definition PMEMFILE_SEEK_SET :: int where "PMEMFILE_SEEK_SET = 0"
definition PMEMFILE_SEEK_CUR :: int where "PMEMFILE_SEEK_CUR = 1"
definition PMEMFILE_SEEK_END :: int where "PMEMFILE_SEEK_END = 2"
definition PMEMFILE_SEEK_DATA :: int where "PMEMFILE_SEEK_DATA = 3"
definition PMEMFILE_SEEK_HOLE :: int where "PMEMFILE_SEEK_HOLE = 4"

definition INT64_MAX :: nat where
  "INT64_MAX = 9223372036854775807"

definition as_off :: "nat \<Rightarrow> int" where
  "as_off x = (if x \<le> INT64_MAX then int x else int x - int W64)"

definition lseek_seek_data :: "pfile \<Rightarrow> int \<Rightarrow> int \<Rightarrow> int option" where
  "lseek_seek_data v offset fsize =
     (case find_closest_block v (nat offset) of
        None \<Rightarrow> None
      | Some None \<Rightarrow>
          Some (case first_block v of
            None \<Rightarrow> fsize
          | Some b \<Rightarrow> as_off (bd_offset (descs v b)))
      | Some (Some b) \<Rightarrow>
          Some (if is_offset_in_block v (Some b) (nat offset) then offset
                else
                  (case bd_next (descs v b) of
                     None \<Rightarrow> fsize
                   | Some n \<Rightarrow> as_off (bd_offset (descs v n)))))"

partial_function (option) seek_hole_loop :: "pfile \<Rightarrow> bptr option \<Rightarrow> int \<Rightarrow> int \<Rightarrow> int option" where
  "seek_hole_loop v block offset fsize =
     (case block of
        None \<Rightarrow> Some offset
      | Some b \<Rightarrow>
          if \<not> offset < fsize then Some offset
          else
            let block_end = as_off (bd_offset (descs v b)) + int (bd_size (descs v b));
                offset1 = (if block_end \<ge> offset then block_end else offset)
            in (case bd_next (descs v b) of
                  None \<Rightarrow> Some offset1
                | Some n \<Rightarrow>
                    if offset1 < as_off (bd_offset (descs v n)) then Some offset1
                    else seek_hole_loop v (Some n) offset1 fsize))"

declare seek_hole_loop.simps [code]

definition lseek_seek_hole :: "pfile \<Rightarrow> int \<Rightarrow> int \<Rightarrow> int option" where
  "lseek_seek_hole v offset fsize =
     (case find_closest_block v (nat offset) of
        None \<Rightarrow> None
      | Some block \<Rightarrow> seek_hole_loop v block offset fsize)"

text \<open>The last entry of a batch that is in use, and where the last one of all batches is: its number, its batch and the size of that.\<close>

definition last_used :: "pmemfile_dirent list \<Rightarrow> nat option" where
  "last_used d = (case filter (\<lambda>i. d_name (d ! i) \<noteq> []) [0..<length d] of [] \<Rightarrow> None | is \<Rightarrow> Some (last is))"

fun end_directory_loop ::
  "pmemfile_dirent list list \<Rightarrow> nat \<Rightarrow> (nat \<times> nat \<times> nat) option \<Rightarrow> (nat \<times> nat \<times> nat) option" where
  "end_directory_loop [] dir_num found = found"
| "end_directory_loop (d # ds) dir_num found =
     (if (case ds of next # _ \<Rightarrow> next \<noteq> [] \<and> d_name (hd next) \<noteq> [] | [] \<Rightarrow> False)
      then end_directory_loop ds (Suc dir_num) found
      else
        end_directory_loop ds (Suc dir_num)
          (case last_used d of None \<Rightarrow> found | Some i \<Rightarrow> Some (i, dir_num, length d)))"

text \<open>The sum is computed with signed integers and has no value when it overflows.\<close>

definition off_sum :: "int \<Rightarrow> int option" where
  "off_sum x = (if - int INT64_MAX - 1 \<le> x \<and> x \<le> int INT64_MAX then Some x else None)"

definition lseek_end_directory :: "pmemfile_dirent list list \<Rightarrow> int \<Rightarrow> int option" where
  "lseek_end_directory ds offset =
     (let (ret, ret_dir_num) =
        (case end_directory_loop ds 0 None of
           None \<Rightarrow> (0, 0)
         | Some (i, n, num_elements) \<Rightarrow> if Suc i = num_elements then (0, Suc n) else (Suc i, n))
      in off_sum (int (ret_dir_num * 2 ^ 32 + ret) + offset))"

text \<open>Here and in the caller a negative result is a negated error number.\<close>

definition lseek_seek_data_or_hole ::
  "vinode \<Rightarrow> pmemfile_dirent list list \<Rightarrow> int \<Rightarrow> int \<Rightarrow> (int \<times> vinode) option" where
  "lseek_seek_data_or_hole w ds offset whence =
     (let fsize = as_off (inode_get_size (vi_inode w)) in
      if vinode_is_symlink w then Some (- int ENXIO, w)
      else if vinode_is_regular_file w \<and> (offset < 0 \<or> offset \<ge> fsize) then Some (- int ENXIO, w)
      else if \<not> vinode_is_regular_file w \<and> \<not> vinode_is_dir w then Some (- int ENXIO, w)
      else
        (case vinode_rdlock_with_block_tree w of
           None \<Rightarrow> None
         | Some (r, w1) \<Rightarrow>
             if r \<noteq> 0 then Some (r, w1)
             else if vinode_is_regular_file w1 then
               (if whence = PMEMFILE_SEEK_DATA
                then map_option (\<lambda>x. (x, w1)) (lseek_seek_data (vdata w1) offset fsize)
                else map_option (\<lambda>x. (if x > fsize then fsize else x, w1)) (lseek_seek_hole (vdata w1) offset fsize))
             else
               map_option (\<lambda>end.
                 (if whence = PMEMFILE_SEEK_DATA
                  then (if offset < 0 then - int EINVAL else if offset \<ge> end then - int ENXIO else offset)
                  else (if offset \<ge> end then - int ENXIO else end), w1)) (lseek_end_directory ds 0)))"

definition add_off :: "nat \<Rightarrow> int \<Rightarrow> int" where
  "add_off cur off =
     (let sum = nat ((int cur + off) mod int W64) in if sum > INT64_MAX then -1 else int sum)"

definition pmemfile_lseek_locked ::
  "pmemfile_file \<Rightarrow> vinode \<Rightarrow> pmemfile_dirent list list \<Rightarrow> int \<Rightarrow> int \<Rightarrow> ((errno + int) \<times> pmemfile_file \<times> vinode) option" where
  "pmemfile_lseek_locked f w ds offset whence =
     (if f_flags f AND PFILE_PATH \<noteq> 0 then Some (Inl EBADF, f, w)
      else if \<not> vinode_is_dir w \<and> \<not> vinode_is_regular_file w then Some (Inl EINVAL, f, w)
      else
        map_option (\<lambda>(ret, new_errno, w1).
            if ret < 0 then (Inl new_errno, f, w1) else (Inr ret, f\<lparr>f_offset := nat ret\<rparr>, w1))
          (if whence = PMEMFILE_SEEK_SET then Some (offset, EINVAL, w)
           else if whence = PMEMFILE_SEEK_CUR then Some (add_off (f_offset f) offset, EINVAL, w)
           else if whence = PMEMFILE_SEEK_END then
             (if vinode_is_dir w then map_option (\<lambda>ret. (ret, EINVAL, w)) (lseek_end_directory ds offset)
              else Some (add_off (inode_get_size (vi_inode w)) offset, EINVAL, w))
           else if whence = PMEMFILE_SEEK_DATA \<or> whence = PMEMFILE_SEEK_HOLE then
             map_option (\<lambda>(ret, w1). if ret < 0 then (-1, nat (- ret), w1) else (ret, EINVAL, w1))
               (lseek_seek_data_or_hole w ds offset whence)
           else Some (-1, EINVAL, w)))"

definition pmemfile_lseek ::
  "bool \<Rightarrow> pmemfile_file option \<Rightarrow> vinode \<Rightarrow> pmemfile_dirent list list \<Rightarrow> int \<Rightarrow> int
    \<Rightarrow> ((errno + int) \<times> pmemfile_file option \<times> vinode) option" where
  "pmemfile_lseek pfp f w ds offset whence =
     (if \<not> pfp then Some (Inl EFAULT, f, w)
      else
        (case f of
           None \<Rightarrow> Some (Inl EFAULT, f, w)
         | Some g \<Rightarrow> map_option (\<lambda>(r, g', w'). (r, Some g', w')) (pmemfile_lseek_locked g w ds offset whence)))"

section \<open>Data and holes\<close>

definition allocated_at :: "pfile \<Rightarrow> bptr list \<Rightarrow> nat \<Rightarrow> bool" where
  "allocated_at v ps x \<longleftrightarrow> (\<exists>p \<in> set ps. in_block (descs v p) x)"

definition blocks_fit :: "pfile \<Rightarrow> bptr list \<Rightarrow> bool" where
  "blocks_fit v ps \<longleftrightarrow> (\<forall>p \<in> set ps. bd_offset (descs v p) + bd_size (descs v p) \<le> INT64_MAX)"

definition next_data :: "pfile \<Rightarrow> bptr list \<Rightarrow> nat \<Rightarrow> nat \<Rightarrow> nat" where
  "next_data v ps fsize x = (if \<exists>y \<ge> x. allocated_at v ps y then LEAST y. x \<le> y \<and> allocated_at v ps y else fsize)"

definition next_hole :: "pfile \<Rightarrow> bptr list \<Rightarrow> nat \<Rightarrow> nat \<Rightarrow> nat" where
  "next_hole v ps fsize x = (LEAST y. x \<le> y \<and> (\<not> allocated_at v ps y \<or> fsize \<le> y))"

lemma as_off_small: "x \<le> INT64_MAX \<Longrightarrow> as_off x = int x"
  by (simp add: as_off_def)

lemma blocks_fit_off:
  assumes "blocks_fit v ps" and "p \<in> set ps"
  shows "as_off (bd_offset (descs v p)) = int (bd_offset (descs v p))"
  using assms by (intro as_off_small) (auto simp: blocks_fit_def)

text \<open>What is allocated from \<open>x\<close> on: a suffix of the block list, behind the block that \<open>x\<close> follows.\<close>

lemma allocated_behind:
  assumes f: "file_ok A v (ys @ zs)" and ys: "\<And>p. p \<in> set ys \<Longrightarrow> bd_offset (descs v p) \<le> x"
    and out: "ys \<noteq> [] \<Longrightarrow> \<not> in_block (descs v (last ys)) x" and "x \<le> y"
  shows "allocated_at v (ys @ zs) y \<longleftrightarrow> allocated_at v zs y"
proof -
  have "\<not> in_block (descs v p) y" if p: "p \<in> set ys" for p
  proof -
    obtain ys' l where l: "ys = ys' @ [l]"
      using p by (cases ys rule: rev_cases) auto
    have le: "bd_offset (descs v l) + bd_size (descs v l) \<le> x"
      using out ys [of l] l by (auto simp: in_block_def)
    have "bd_offset (descs v p) + bd_size (descs v p) \<le> x"
    proof (cases "p = l")
      case False
      then have "bd_offset (descs v p) + bd_size (descs v p) \<le> bd_offset (descs v l)"
        using file_ok_order(1) [of A v ys' l zs p] f l p by auto
      then show ?thesis
        using le by simp
    qed (use le in simp)
    then show ?thesis
      using assms(4) by (auto simp: in_block_def)
  qed
  then show ?thesis
    by (auto simp: allocated_at_def)
qed

lemma first_allocated:
  assumes f: "file_ok A v (ys @ z # zs)" and "x \<le> bd_offset (descs v z)"
  shows "(LEAST y. x \<le> y \<and> allocated_at v (z # zs) y) = bd_offset (descs v z)"
proof (rule Least_equality)
  have "0 < bd_size (descs v z)"
    using file_ok_bounds(3) [OF f] by simp
  then show "x \<le> bd_offset (descs v z) \<and> allocated_at v (z # zs) (bd_offset (descs v z))"
    using assms(2) by (auto simp: allocated_at_def in_block_def)
  show "bd_offset (descs v z) \<le> y" if "x \<le> y \<and> allocated_at v (z # zs) y" for y
    using that file_ok_order(2) [OF f] by (fastforce simp: allocated_at_def in_block_def)
qed

lemma next_data_behind:
  assumes f: "file_ok A v (ys @ zs)" and ys: "\<And>p. p \<in> set ys \<Longrightarrow> bd_offset (descs v p) \<le> x"
    and zs: "\<And>p. p \<in> set zs \<Longrightarrow> x \<le> bd_offset (descs v p)" and out: "ys \<noteq> [] \<Longrightarrow> \<not> in_block (descs v (last ys)) x"
  shows "next_data v (ys @ zs) fsize x = (case zs of [] \<Rightarrow> fsize | z # _ \<Rightarrow> bd_offset (descs v z))"
proof -
  have eq: "next_data v (ys @ zs) fsize x = (if \<exists>y \<ge> x. allocated_at v zs y then LEAST y. x \<le> y \<and> allocated_at v zs y else fsize)"
  proof -
    have "(\<lambda>y. x \<le> y \<and> allocated_at v (ys @ zs) y) = (\<lambda>y. x \<le> y \<and> allocated_at v zs y)"
      using allocated_behind [of A v ys zs x, OF f ys out] by (intro ext) blast
    then show ?thesis
      unfolding next_data_def by (simp only:)
  qed
  show ?thesis
  proof (cases zs)
    case Nil
    then show ?thesis
      unfolding eq by (simp add: allocated_at_def)
  next
    case (Cons z zs')
    have "0 < bd_size (descs v z)"
      using file_ok_bounds(3) [OF f, of z] Cons by simp
    then have "\<exists>y \<ge> x. allocated_at v (z # zs') y"
      using zs [of z] Cons by (intro exI [of _ "bd_offset (descs v z)"]) (auto simp: allocated_at_def in_block_def)
    then show ?thesis
      unfolding eq using first_allocated [of A v ys z zs' x] f zs [of z] Cons by simp
  qed
qed

lemma seek_data_ok:
  assumes f: "file_ok A v ps" and al: "MIN_BLOCK_SIZE dvd A" and fit: "blocks_fit v ps" and x: "x < W64"
  shows "lseek_seek_data v (int x) (int fsize) = Some (int (next_data v ps fsize x))"
proof -
  define ys where "ys = starts_before v (Suc x) ps"
  obtain zs where ps: "ps = ys @ zs" and ys: "\<And>p. p \<in> set ys \<Longrightarrow> bd_offset (descs v p) < Suc x"
    and zs: "\<And>p. p \<in> set zs \<Longrightarrow> Suc x \<le> bd_offset (descs v p)"
    by (rule starts_before_split [OF f, of "Suc x", folded ys_def]) (rule that)
  have cl: "find_closest_block v x = Some (last_or ys None)"
    using find_closest_block_ok [OF f al x] by (simp add: ys_def)
  have lk: "linked v (ys @ zs)"
    using f ps by (simp add: file_ok_def)
  note f' = f [unfolded ps]
  have off: "as_off (bd_offset (descs v z)) = int (bd_offset (descs v z))" if "z \<in> set zs" for z
    using blocks_fit_off [OF fit] that ps by simp
  show ?thesis
  proof (cases "ys \<noteq> [] \<and> in_block (descs v (last ys)) x")
    case True
    then have "allocated_at v ps x"
      by (auto simp: allocated_at_def ps)
    then have "next_data v ps fsize x = x"
      by (auto simp: next_data_def intro!: Least_equality)
    moreover have "is_offset_in_block v (Some (last ys)) x"
      using True ps by (subst is_offset_in_block_ok [OF f]) auto
    ultimately show ?thesis
      using True by (simp add: lseek_seek_data_def cl last_or_def)
  next
    case False
    have nd: "next_data v ps fsize x = (case zs of [] \<Rightarrow> fsize | z # _ \<Rightarrow> bd_offset (descs v z))"
      unfolding ps by (rule next_data_behind [OF f']) (use ys zs False in fastforce)+
    have "\<not> is_offset_in_block v (Some (last ys)) x" if "ys \<noteq> []"
      using False that ps by (subst is_offset_in_block_ok [OF f]) auto
    then show ?thesis
      using lk linked_last_next [OF lk] off
      by (cases "ys = []"; cases zs) (auto simp: lseek_seek_data_def cl last_or_def nd linked_def)
  qed
qed

lemma next_hole_here: "\<not> allocated_at v ps x \<or> fsize \<le> x \<Longrightarrow> next_hole v ps fsize x = x"
  unfolding next_hole_def by (rule Least_equality) auto

lemma next_hole_skip:
  assumes "\<And>y. x \<le> y \<Longrightarrow> y < e \<Longrightarrow> allocated_at v ps y" and "x \<le> e" and "e \<le> fsize"
  shows "next_hole v ps fsize x = next_hole v ps fsize e"
proof -
  have "(\<lambda>y. x \<le> y \<and> (\<not> allocated_at v ps y \<or> fsize \<le> y)) = (\<lambda>y. e \<le> y \<and> (\<not> allocated_at v ps y \<or> fsize \<le> y))"
    using assms by (intro ext) (metis le_trans not_less)
  then show ?thesis
    by (simp only: next_hole_def)
qed

lemma next_hole_beyond:
  assumes "\<And>y. x \<le> y \<Longrightarrow> y < fsize \<Longrightarrow> allocated_at v ps y" and "x \<le> fsize"
  shows "next_hole v ps fsize x = fsize"
  using next_hole_skip [of x fsize v ps fsize] next_hole_here [of v ps fsize fsize] assms by simp

lemma not_allocated_between:
  assumes f: "file_ok A v (ys @ b # zs)" and "bd_offset (descs v b) + bd_size (descs v b) \<le> x"
    and "\<And>z. z \<in> set zs \<Longrightarrow> x < bd_offset (descs v z)"
  shows "\<not> allocated_at v (ys @ b # zs) x"
proof -
  have "\<not> in_block (descs v p) x" if "p \<in> set ys" for p
    using file_ok_order(1) [OF f that] assms(2) by (simp add: in_block_def)
  then show ?thesis
    using assms(2,3) by (fastforce simp: allocated_at_def in_block_def)
qed

lemma seek_hole_step:
  assumes f: "file_ok A v (ys @ b # zs)" and fit: "blocks_fit v (ys @ b # zs)" and "x < fsize"
    and x1: "x1 = max x (bd_offset (descs v b) + bd_size (descs v b))"
  shows "seek_hole_loop v (Some b) (int x) (int fsize) =
    (case zs of [] \<Rightarrow> Some (int x1)
     | z # _ \<Rightarrow> if x1 < bd_offset (descs v z) then Some (int x1) else seek_hole_loop v (Some z) (int x1) (int fsize))"
proof -
  have lk: "linked v ((ys @ [b]) @ zs)"
    using f by (simp add: file_ok_def)
  have nx: "bd_next (descs v b) = hd_or zs None"
    using linked_last_next [OF lk] by simp
  have off: "as_off (bd_offset (descs v p)) = int (bd_offset (descs v p))" if "p \<in> set (ys @ b # zs)" for p
    by (rule blocks_fit_off [OF fit that])
  show ?thesis
    using assms(3) x1 off by (subst seek_hole_loop.simps) (auto simp: nx max_def Let_def split: list.splits)
qed

lemma seek_hole_loop_ok:
  assumes "file_ok A v (ys @ b # zs)" and "blocks_fit v (ys @ b # zs)"
    and "bd_offset (descs v b) \<le> x" and "\<And>z. z \<in> set zs \<Longrightarrow> x \<le> bd_offset (descs v z)" and "x \<le> fsize"
  shows "\<exists>r. seek_hole_loop v (Some b) (int x) (int fsize) = Some r \<and> min r (int fsize) = int (next_hole v (ys @ b # zs) fsize x)"
  using assms
proof (induction zs arbitrary: ys b x)
  case (Nil ys b x)
  note f = Nil.prems(1)
  define x1 where "x1 = max x (bd_offset (descs v b) + bd_size (descs v b))"
  have al: "allocated_at v (ys @ [b]) y" if "x \<le> y" "y < x1" for y
    using that Nil.prems(3) by (auto simp: x1_def allocated_at_def in_block_def max_def split: if_splits)
  have no: "\<not> allocated_at v (ys @ [b]) x1"
    by (rule not_allocated_between [OF f]) (auto simp: x1_def)
  show ?case
  proof (cases "x < fsize")
    case True
    have "min (int x1) (int fsize) = int (next_hole v (ys @ [b]) fsize x)"
    proof (cases "x1 \<le> fsize")
      case True
      then show ?thesis
        using next_hole_skip [of x x1 v "ys @ [b]" fsize] al next_hole_here no by (simp add: x1_def)
    next
      case False
      then show ?thesis
        using next_hole_beyond [of x fsize v "ys @ [b]"] al \<open>x < fsize\<close> by simp
    qed
    then show ?thesis
      using seek_hole_step [OF f Nil.prems(2) True x1_def] by simp
  next
    case False
    then show ?thesis
      using Nil.prems(5) next_hole_here [of v "ys @ [b]" x fsize] by (subst seek_hole_loop.simps) simp
  qed
next
  case (Cons z zs ys b x)
  note f = Cons.prems(1)
  let ?ps = "ys @ b # z # zs"
  define x1 where "x1 = max x (bd_offset (descs v b) + bd_size (descs v b))"
  have al: "allocated_at v ?ps y" if "x \<le> y" "y < x1" for y
    using that Cons.prems(3) by (auto simp: x1_def allocated_at_def in_block_def max_def split: if_splits)
  have le: "x1 \<le> bd_offset (descs v p)" if "p \<in> set (z # zs)" for p
    using Cons.prems(4) [OF that] file_ok_order(2) [OF f that] by (simp add: x1_def)
  show ?case
  proof (cases "x < fsize")
    case True
    note step = seek_hole_step [OF f Cons.prems(2) True x1_def]
    show ?thesis
    proof (cases "x1 \<le> fsize")
      case x1: True
      have eq: "next_hole v ?ps fsize x = next_hole v ?ps fsize x1"
        by (rule next_hole_skip) (use al x1 in \<open>auto simp: x1_def\<close>)
      show ?thesis
      proof (cases "x1 < bd_offset (descs v z)")
        case True
        have "\<not> allocated_at v ?ps x1"
        proof (rule not_allocated_between [OF f])
          show "x1 < bd_offset (descs v p)" if "p \<in> set (z # zs)" for p
            using that True file_ok_order(2) [of A v "ys @ [b]" z zs p] f by fastforce
        qed (simp add: x1_def)
        then show ?thesis
          using step True x1 next_hole_here [of v ?ps x1 fsize] by (simp add: eq)
      next
        case False
        have "\<exists>r. seek_hole_loop v (Some z) (int x1) (int fsize) = Some r \<and> min r (int fsize) = int (next_hole v ((ys @ [b]) @ z # zs) fsize x1)"
          by (rule Cons.IH) (use f Cons.prems(2) False le x1 in auto)
        then show ?thesis
          using step False by (simp add: eq)
      qed
    next
      case x1: False
      have "next_hole v ?ps fsize x = fsize"
        by (rule next_hole_beyond) (use al x1 True in auto)
      moreover have "seek_hole_loop v (Some z) (int x1) (int fsize) = Some (int x1)"
        using x1 by (subst seek_hole_loop.simps) simp
      ultimately show ?thesis
        using step x1 by simp
    qed
  next
    case False
    then show ?thesis
      using Cons.prems(5) next_hole_here [of v ?ps x fsize] by (subst seek_hole_loop.simps) simp
  qed
qed

lemma seek_hole_ok:
  assumes f: "file_ok A v ps" and al: "MIN_BLOCK_SIZE dvd A" and fit: "blocks_fit v ps" and x: "x < fsize" "fsize < W64"
  shows "\<exists>r. lseek_seek_hole v (int x) (int fsize) = Some r \<and> min r (int fsize) = int (next_hole v ps fsize x)"
proof -
  define ys where "ys = starts_before v (Suc x) ps"
  obtain zs where ps: "ps = ys @ zs" and ys: "\<And>p. p \<in> set ys \<Longrightarrow> bd_offset (descs v p) < Suc x"
    and zs: "\<And>p. p \<in> set zs \<Longrightarrow> Suc x \<le> bd_offset (descs v p)"
    by (rule starts_before_split [OF f, of "Suc x", folded ys_def]) (rule that)
  have "find_closest_block v x = Some (last_or ys None)"
    using find_closest_block_ok [OF f al, of x] x by (simp add: ys_def)
  then have eq: "lseek_seek_hole v (int x) (int fsize) = seek_hole_loop v (last_or ys None) (int x) (int fsize)"
    by (simp add: lseek_seek_hole_def)
  show ?thesis
  proof (cases ys rule: rev_cases)
    case Nil
    have "\<not> allocated_at v ps x"
      using zs ps Nil by (fastforce simp: allocated_at_def in_block_def)
    then show ?thesis
      using Nil x next_hole_here [of v ps x fsize] unfolding eq by (subst seek_hole_loop.simps) simp
  next
    case (snoc ys' b)
    have "\<exists>r. seek_hole_loop v (Some b) (int x) (int fsize) = Some r \<and> min r (int fsize) = int (next_hole v (ys' @ b # zs) fsize x)"
      by (rule seek_hole_loop_ok [of A]) (use f fit ys zs x ps snoc in \<open>fastforce\<close>)+
    then show ?thesis
      using snoc ps by (simp add: eq)
  qed
qed

section \<open>The position after a call\<close>

definition lseek_spec :: "nat \<Rightarrow> nat \<Rightarrow> pfile \<Rightarrow> bptr list \<Rightarrow> int \<Rightarrow> int \<Rightarrow> errno + int" where
  "lseek_spec pos fsize v ps offset whence =
     (let from = (\<lambda>base. if 0 \<le> base + offset \<and> base + offset \<le> int INT64_MAX then Inr (base + offset) else Inl EINVAL);
          search = (\<lambda>f. if offset < 0 \<or> int fsize \<le> offset then Inl ENXIO else Inr (int (f v ps fsize (nat offset))))
      in if whence = PMEMFILE_SEEK_SET then from 0
         else if whence = PMEMFILE_SEEK_CUR then from (int pos)
         else if whence = PMEMFILE_SEEK_END then from (int fsize)
         else if whence = PMEMFILE_SEEK_DATA then search next_data
         else if whence = PMEMFILE_SEEK_HOLE then search next_hole
         else Inl EINVAL)"

lemma add_off_spec:
  assumes "cur \<le> INT64_MAX" and "- int INT64_MAX - 1 \<le> off" and "off \<le> int INT64_MAX"
  shows "add_off cur off = (if 0 \<le> int cur + off \<and> int cur + off \<le> int INT64_MAX then int cur + off else -1)"
proof (cases "0 \<le> int cur + off")
  case True
  have "(int cur + off) mod int W64 = int cur + off"
    using True assms by (intro mod_pos_pos_trivial) (auto simp: W64_def INT64_MAX_def)
  then show ?thesis
    using True by (auto simp: add_off_def Let_def)
next
  case False
  have "(int cur + off) mod int W64 = int cur + off + int W64"
    using False assms by (subst mod_add_self2 [symmetric], intro mod_pos_pos_trivial) (auto simp: W64_def INT64_MAX_def)
  then show ?thesis
    using False assms by (auto simp: add_off_def Let_def W64_def INT64_MAX_def)
qed

lemma seek_data_or_hole_ok:
  assumes w: "vinode_ok A w ps" and al: "MIN_BLOCK_SIZE dvd A" and fit: "blocks_fit (vdata w) ps"
    and sz: "inode_get_size (vi_inode w) \<le> INT64_MAX" and wh: "whence = PMEMFILE_SEEK_DATA \<or> whence = PMEMFILE_SEEK_HOLE"
  shows "\<exists>w'. lseek_seek_data_or_hole w ds offset whence =
      Some (case lseek_spec pos (inode_get_size (vi_inode w)) (vdata w) ps offset whence of Inl e \<Rightarrow> - int e | Inr x \<Rightarrow> x, w') \<and>
    vinode_ok A w' ps \<and> vi_inode w' = vi_inode w \<and> vinode_content w' ps = vinode_content w ps"
proof -
  let ?n = "inode_get_size (vi_inode w)"
  have reg: "vinode_is_regular_file w" "\<not> vinode_is_symlink w"
    using w by (auto simp: vinode_ok_def vinode_is_regular_file_def vinode_is_symlink_def inode_is_regular_file_def inode_is_symlink_def
        PMEMFILE_S_ISTYPE_def PMEMFILE_S_IFREG_def PMEMFILE_S_IFLNK_def)
  have n: "as_off ?n = int ?n" "?n < W64"
    using as_off_small [OF sz] sz by (auto simp: W64_def INT64_MAX_def)
  obtain v where v: "vinode_rdlock_with_block_tree w = Some (0, w\<lparr>vdata := v\<rparr>)" "file_ok A v ps" "descs v = descs (vdata w)"
    "datas v = datas (vdata w)" "vinode_ok A (w\<lparr>vdata := v\<rparr>) ps"
    by (rule rdlock_with_block_tree_ok [OF w al]) (rule that)
  have alloc: "allocated_at v = allocated_at (vdata w)"
    using v(3) by (simp add: fun_eq_iff allocated_at_def)
  have same: "next_data v = next_data (vdata w)" "next_hole v = next_hole (vdata w)"
    unfolding next_data_def [abs_def] next_hole_def [abs_def] alloc by (rule refl)+
  have cont: "vinode_content (w\<lparr>vdata := v\<rparr>) ps = vinode_content w ps"
    using v(3,4) by (simp add: vinode_content_def exts_def)
  have fit': "blocks_fit v ps"
    using fit v(3) by (simp add: blocks_fit_def)
  show ?thesis
  proof (cases "offset < 0 \<or> int ?n \<le> offset")
    case True
    then show ?thesis
      using reg n wh w
      by (intro exI [of _ w]) (auto simp: lseek_seek_data_or_hole_def lseek_spec_def Let_def PMEMFILE_SEEK_SET_def PMEMFILE_SEEK_CUR_def
          PMEMFILE_SEEK_END_def PMEMFILE_SEEK_DATA_def PMEMFILE_SEEK_HOLE_def)
  next
    case False
    define x where "x = nat offset"
    have x: "offset = int x" "x < ?n" "x < W64"
      using False n by (auto simp: x_def)
    note d = seek_data_ok [OF v(2) al fit' x(3), of ?n]
    obtain r where r: "lseek_seek_hole v (int x) (int ?n) = Some r" "min r (int ?n) = int (next_hole v ps ?n x)"
      using seek_hole_ok [OF v(2) al fit' x(2) n(2)] by blast
    then have "(if r > int ?n then int ?n else r) = int (next_hole v ps ?n x)"
      by (simp add: min_def split: if_splits)
    then show ?thesis
      using reg n wh v(1,5) d r(1) x same cont
      by (intro exI [of _ "w\<lparr>vdata := v\<rparr>"]) (auto simp: lseek_seek_data_or_hole_def lseek_spec_def Let_def vinode_is_regular_file_def
          PMEMFILE_SEEK_SET_def PMEMFILE_SEEK_CUR_def PMEMFILE_SEEK_END_def PMEMFILE_SEEK_DATA_def PMEMFILE_SEEK_HOLE_def)
  qed
qed


lemma sample_next_data: "next_data (sample_file [0, 2]) (sample_ptrs [0, 2]) 49152 20000 = 32768"
proof -
  have a: "allocated_at (sample_file [0, 2]) (sample_ptrs [0, 2]) y \<longleftrightarrow> y < 16384 \<or> 32768 \<le> y \<and> y < 49152" for y
    by (auto simp: allocated_at_def sample_ptrs_def in_block_def sample_desc_def MIN_BLOCK_SIZE_def upt_rec)
  have "(LEAST y. 20000 \<le> y \<and> (y < 16384 \<or> 32768 \<le> y \<and> y < (49152 :: nat))) = 32768"
    by (rule Least_equality) auto
  moreover have "\<exists>y \<ge> 20000. y < 16384 \<or> 32768 \<le> y \<and> y < (49152 :: nat)"
    by (rule exI [of _ 32768]) simp
  ultimately show ?thesis
    unfolding next_data_def a by simp
qed


end
