(* ===== verification/Attributes.thy ===== *)
theory Attributes
  imports File Lseek
begin

text \<open>
  Attributes of files: \<^verbatim>\<open>stat.c\<close>, \<^verbatim>\<open>chmod.c\<close>, \<^verbatim>\<open>chown.c\<close>, \<^verbatim>\<open>access.c\<close>, \<^verbatim>\<open>timestamps.c\<close>,
  \<^verbatim>\<open>pmemfile_truncate\<close> (\<^verbatim>\<open>truncate.c\<close>) and \<^verbatim>\<open>fcntl.c\<close>. An open file is the number of its volatile inode with
  its flags and position. The times that an operation reads are arguments.
\<close>

section \<open>Definitions\<close>

abbreviation (input) EOVERFLOW :: errno where "EOVERFLOW \<equiv> 75"
abbreviation (input) ENOTSUP :: errno where "ENOTSUP \<equiv> EOPNOTSUPP"

definition PMEMFILE_AT_NO_AUTOMOUNT :: nat where "PMEMFILE_AT_NO_AUTOMOUNT = 2048"
definition PMEMFILE_AT_EACCESS :: nat where "PMEMFILE_AT_EACCESS = 512"

text \<open>The steps that the operations on a path share: resolve it, act on what it leads to, and release everything.\<close>

definition on_path ::
  "pmemfile_cred \<Rightarrow> nat option \<Rightarrow> string \<Rightarrow> nat \<Rightarrow> bool \<Rightarrow> (nat \<Rightarrow> pool \<Rightarrow> 'a body) \<Rightarrow> pool \<Rightarrow> 'a body" where
  "on_path cred dir path resolve_flags follow act p =
     do {
       (vinode, info, p1) \<leftarrow> resolve_pathat_full p cred dir path resolve_flags follow;
       (r, p2) \<leftarrow>
         (if pi_error info \<noteq> 0 then Some (Inl (pi_error info), p1)
          else do { n \<leftarrow> vinode; act n p1 });
       p3 \<leftarrow> path_info_cleanup p2 info;
       p4 \<leftarrow> vinode_unref p3 vinode;
       Some (r, p4)
     }"

definition on_file ::
  "pool option \<Rightarrow> (nat \<times> pmemfile_file) option \<Rightarrow> (nat \<Rightarrow> pmemfile_file \<Rightarrow> pool \<Rightarrow> 'a body) \<Rightarrow> ((errno + 'a) \<times> pool option) option" where
  "on_file pfp file act =
     (case (pfp, file) of
        (None, _) \<Rightarrow> Some (Inl EFAULT, None)
      | (Some p, None) \<Rightarrow> Some (Inl EFAULT, Some p)
      | (Some p, Some (n, f)) \<Rightarrow> map_option (\<lambda>(r, p'). (r, Some p')) (act n f p))"

subsection \<open>stat.c\<close>

record pmemfile_stat =
  st_dev :: nat
  st_ino :: nat
  st_mode :: nat
  st_nlink :: nat
  st_uid :: nat
  st_gid :: nat
  st_rdev :: nat
  st_size :: int
  st_blksize :: nat
  st_blocks :: int
  st_atim :: pmemfile_time
  st_ctim :: pmemfile_time
  st_mtim :: pmemfile_time

text \<open>\<open>buf\<close> tells whether there is a buffer. What an error leaves in it is not part of the result.\<close>

definition vinode_stat :: "nat \<Rightarrow> bool \<Rightarrow> nat \<Rightarrow> pool \<Rightarrow> pmemfile_stat body" where
  "vinode_stat dev buf n p =
     do {
       i \<leftarrow> p_inodes p n;
       v \<leftarrow> p_vinodes p n;
       Some (if \<not> buf then Inl EFAULT
         else if as_off (inode_get_size i) < 0 then Inl EOVERFLOW
         else Inr \<lparr>st_dev = dev, st_ino = n, st_mode = inode_get_flags i AND (PMEMFILE_S_IFMT OR PMEMFILE_ALLPERMS),
                   st_nlink = inode_get_nlink i, st_uid = i_uid i, st_gid = i_gid i, st_rdev = 0,
                   st_size = as_off (inode_get_size i), st_blksize = 1,
                   st_blocks = (if inode_is_regular_file i then as_off (inode_get_allocated_space i div 512)
                     else if inode_is_dir i then as_off (inode_get_size i div 512) else 0),
                   st_atim = v_atime v, st_ctim = inode_get_ctime i, st_mtim = inode_get_mtime i\<rparr>, p)
     }"

definition fstatat_vinode :: "nat \<Rightarrow> bool \<Rightarrow> nat \<Rightarrow> nat option \<Rightarrow> string \<Rightarrow> pool \<Rightarrow> pmemfile_stat body" where
  "fstatat_vinode dev buf flags dir path p0 =
     (if path = [] \<and> flags AND PMEMFILE_AT_EMPTY_PATH \<noteq> 0 then do { n \<leftarrow> dir; vinode_stat dev buf n p0 }
      else if clear_bits flags (PMEMFILE_AT_NO_AUTOMOUNT OR PMEMFILE_AT_SYMLINK_NOFOLLOW OR PMEMFILE_AT_EMPTY_PATH) \<noteq> 0
      then Some (Inl EINVAL, p0)
      else
        with_cred p0 (\<lambda>cred p.
          on_path cred dir path 0 (flags AND PMEMFILE_AT_SYMLINK_NOFOLLOW = 0) (vinode_stat dev buf) p))"

definition pmemfile_fstatat ::
  "nat \<Rightarrow> pool option \<Rightarrow> at_file \<Rightarrow> string option \<Rightarrow> bool \<Rightarrow> nat \<Rightarrow> ((errno + pmemfile_stat) \<times> pool option) option" where
  "pmemfile_fstatat dev pfp dir path buf flags = at_call EFAULT pfp dir path (fstatat_vinode dev buf flags)"

definition pmemfile_stat_path ::
  "nat \<Rightarrow> pool option \<Rightarrow> string option \<Rightarrow> bool \<Rightarrow> ((errno + pmemfile_stat) \<times> pool option) option" where
  "pmemfile_stat_path dev pfp path buf = pmemfile_fstatat dev pfp At_cwd path buf 0"

definition pmemfile_lstat ::
  "nat \<Rightarrow> pool option \<Rightarrow> string option \<Rightarrow> bool \<Rightarrow> ((errno + pmemfile_stat) \<times> pool option) option" where
  "pmemfile_lstat dev pfp path buf = pmemfile_fstatat dev pfp At_cwd path buf PMEMFILE_AT_SYMLINK_NOFOLLOW"

definition pmemfile_fstat ::
  "nat \<Rightarrow> pool option \<Rightarrow> (nat \<times> pmemfile_file) option \<Rightarrow> bool \<Rightarrow> ((errno + pmemfile_stat) \<times> pool option) option" where
  "pmemfile_fstat dev pfp file buf = on_file pfp file (\<lambda>n _. vinode_stat dev buf n)"

subsection \<open>chmod.c\<close>

definition vinode_chmod :: "pmemfile_time \<Rightarrow> nat \<Rightarrow> pmemfile_cred \<Rightarrow> nat \<Rightarrow> pool \<Rightarrow> unit body" where
  "vinode_chmod tm mode cred n =
     run_tx (\<lambda>p.
       do {
         i \<leftarrow> p_inodes p n;
         if i_uid i \<noteq> fsuid cred \<and> caps cred AND push_bit PMEMFILE_CAP_FOWNER 1 = 0 then Some (Inl EPERM, p)
         else
           let flags = clear_bits (inode_get_flags i) PMEMFILE_ALLPERMS OR mode;
               flags1 = (if i_gid i \<noteq> fsgid cred \<and> \<not> gid_in_list cred (i_gid i) \<and> caps cred AND push_bit PMEMFILE_CAP_FSETID 1 = 0
                         then clear_bits flags PMEMFILE_S_ISGID else flags)
           in Some (Inr (), upd_inode n (\<lambda>i. inode_tx_set_flags flags1 (inode_tx_set_ctime tm i)) p)
       })"

definition fchmodat_vinode :: "pmemfile_time \<Rightarrow> nat \<Rightarrow> nat \<Rightarrow> nat option \<Rightarrow> string \<Rightarrow> pool \<Rightarrow> unit body" where
  "fchmodat_vinode tm mode flags dir path p0 =
     (if flags AND PMEMFILE_AT_SYMLINK_NOFOLLOW \<noteq> 0 then Some (Inl ENOTSUP, p0)
      else if clear_bits flags PMEMFILE_AT_SYMLINK_NOFOLLOW \<noteq> 0 then Some (Inl EINVAL, p0)
      else with_cred p0 (\<lambda>cred p. on_path cred dir path 0 True (vinode_chmod tm (mode AND PMEMFILE_ALLPERMS) cred) p))"

definition pmemfile_fchmodat ::
  "pmemfile_time \<Rightarrow> pool option \<Rightarrow> at_file \<Rightarrow> string option \<Rightarrow> nat \<Rightarrow> nat \<Rightarrow> ((errno + unit) \<times> pool option) option" where
  "pmemfile_fchmodat tm pfp dir path mode flags = at_call ENOENT pfp dir path (fchmodat_vinode tm mode flags)"

definition pmemfile_chmod ::
  "pmemfile_time \<Rightarrow> pool option \<Rightarrow> string option \<Rightarrow> nat \<Rightarrow> ((errno + unit) \<times> pool option) option" where
  "pmemfile_chmod tm pfp path mode = pmemfile_fchmodat tm pfp At_cwd path mode 0"

definition pmemfile_fchmod ::
  "pmemfile_time \<Rightarrow> pool option \<Rightarrow> (nat \<times> pmemfile_file) option \<Rightarrow> nat \<Rightarrow> ((errno + unit) \<times> pool option) option" where
  "pmemfile_fchmod tm pfp file mode =
     on_file pfp file (\<lambda>n f p0.
       if f_flags f AND PFILE_PATH \<noteq> 0 then Some (Inl EBADF, p0)
       else with_cred p0 (\<lambda>cred p. vinode_chmod tm mode cred n p))"

subsection \<open>chown.c\<close>

text \<open>The owner or group -1, as an unsigned 32-bit number, stays as it is.\<close>

definition chown_allowed :: "pmemfile_cred \<Rightarrow> inode \<Rightarrow> nat \<Rightarrow> nat \<Rightarrow> bool" where
  "chown_allowed cred i owner grp \<longleftrightarrow>
     caps cred AND push_bit PMEMFILE_CAP_CHOWN 1 \<noteq> 0 \<or>
     i_uid i = fsuid cred \<and>
     \<not> (owner \<noteq> UINT32_MAX \<and> owner \<noteq> i_uid i) \<and>
     \<not> (grp \<noteq> UINT32_MAX \<and> grp \<noteq> i_gid i \<and> grp \<noteq> fsgid cred \<and> \<not> gid_in_list cred grp)"

definition vinode_chown :: "pmemfile_time \<Rightarrow> nat \<Rightarrow> nat \<Rightarrow> pmemfile_cred \<Rightarrow> nat \<Rightarrow> pool \<Rightarrow> unit body" where
  "vinode_chown tm owner grp cred n p =
     (if owner = UINT32_MAX \<and> grp = UINT32_MAX then Some (Inr (), p)
      else
        do {
          i \<leftarrow> p_inodes p n;
          if \<not> chown_allowed cred i owner grp then Some (Inl EPERM, p)
          else
            run_tx (\<lambda>q. Some (Inr (), upd_inode n (\<lambda>i. inode_tx_set_ctime tm
              (i\<lparr>i_uid := if owner \<noteq> UINT32_MAX then owner else i_uid i,
                i_gid := if grp \<noteq> UINT32_MAX then grp else i_gid i\<rparr>)) q)) p
        })"

definition fchownat_vinode :: "pmemfile_time \<Rightarrow> nat \<Rightarrow> nat \<Rightarrow> nat \<Rightarrow> nat option \<Rightarrow> string \<Rightarrow> pool \<Rightarrow> unit body" where
  "fchownat_vinode tm owner grp flags dir path p0 =
     (if clear_bits flags (PMEMFILE_AT_EMPTY_PATH OR PMEMFILE_AT_SYMLINK_NOFOLLOW) \<noteq> 0 then Some (Inl EINVAL, p0)
      else
        with_cred p0 (\<lambda>cred p.
          if path = [] \<and> flags AND PMEMFILE_AT_EMPTY_PATH \<noteq> 0 then
            do {
              (n, p1) \<leftarrow> vinode_ref p dir;
              (r, p2) \<leftarrow> vinode_chown tm owner grp cred n p1;
              p3 \<leftarrow> vinode_unref p2 (Some n);
              Some (r, p3)
            }
          else on_path cred dir path 0 (flags AND PMEMFILE_AT_SYMLINK_NOFOLLOW = 0) (vinode_chown tm owner grp cred) p))"

definition pmemfile_fchownat ::
  "pmemfile_time \<Rightarrow> pool option \<Rightarrow> at_file \<Rightarrow> string option \<Rightarrow> nat \<Rightarrow> nat \<Rightarrow> nat \<Rightarrow> ((errno + unit) \<times> pool option) option" where
  "pmemfile_fchownat tm pfp dir path owner grp flags = at_call ENOENT pfp dir path (fchownat_vinode tm owner grp flags)"

definition pmemfile_chown ::
  "pmemfile_time \<Rightarrow> pool option \<Rightarrow> string option \<Rightarrow> nat \<Rightarrow> nat \<Rightarrow> ((errno + unit) \<times> pool option) option" where
  "pmemfile_chown tm pfp path owner grp = pmemfile_fchownat tm pfp At_cwd path owner grp 0"

definition pmemfile_lchown ::
  "pmemfile_time \<Rightarrow> pool option \<Rightarrow> string option \<Rightarrow> nat \<Rightarrow> nat \<Rightarrow> ((errno + unit) \<times> pool option) option" where
  "pmemfile_lchown tm pfp path owner grp = pmemfile_fchownat tm pfp At_cwd path owner grp PMEMFILE_AT_SYMLINK_NOFOLLOW"

definition pmemfile_fchown ::
  "pmemfile_time \<Rightarrow> pool option \<Rightarrow> (nat \<times> pmemfile_file) option \<Rightarrow> nat \<Rightarrow> nat \<Rightarrow> ((errno + unit) \<times> pool option) option" where
  "pmemfile_fchown tm pfp file owner grp =
     on_file pfp file (\<lambda>n f p0.
       if f_flags f AND PFILE_PATH \<noteq> 0 then Some (Inl EBADF, p0)
       else with_cred p0 (\<lambda>cred p. vinode_chown tm owner grp cred n p))"

subsection \<open>access.c\<close>

definition PMEMFILE_R_OK :: nat where "PMEMFILE_R_OK = 4"
definition PMEMFILE_W_OK :: nat where "PMEMFILE_W_OK = 2"
definition PMEMFILE_X_OK :: nat where "PMEMFILE_X_OK = 1"

definition vinode_access :: "pmemfile_cred \<Rightarrow> nat \<Rightarrow> nat \<Rightarrow> pool \<Rightarrow> unit body" where
  "vinode_access cred acc n p =
     do {
       ok \<leftarrow> vinode_can_access cred p n acc;
       Some (if ok then Inr () else Inl EACCES, p)
     }"

definition faccessat_vinode :: "nat \<Rightarrow> nat \<Rightarrow> nat option \<Rightarrow> string \<Rightarrow> pool \<Rightarrow> unit body" where
  "faccessat_vinode mode flags dir path p0 =
     (if clear_bits flags (PMEMFILE_AT_EACCESS OR PMEMFILE_AT_SYMLINK_NOFOLLOW) \<noteq> 0 then Some (Inl EINVAL, p0)
      else
        with_cred p0 (\<lambda>cred p.
          let eaccess = (flags AND PMEMFILE_AT_EACCESS \<noteq> 0);
              acc = want mode PMEMFILE_R_OK PFILE_WANT_READ OR want mode PMEMFILE_W_OK PFILE_WANT_WRITE OR
                want mode PMEMFILE_X_OK PFILE_WANT_EXECUTE OR (if eaccess then PFILE_USE_EACCESS else PFILE_USE_RACCESS)
          in on_path cred dir path (if eaccess then PMEMFILE_OPEN_PARENT_USE_EACCESS else PMEMFILE_OPEN_PARENT_USE_RACCESS)
               (flags AND PMEMFILE_AT_SYMLINK_NOFOLLOW = 0) (vinode_access cred acc) p))"

definition pmemfile_faccessat ::
  "pool option \<Rightarrow> at_file \<Rightarrow> string option \<Rightarrow> nat \<Rightarrow> nat \<Rightarrow> ((errno + unit) \<times> pool option) option" where
  "pmemfile_faccessat pfp dir path mode flags = at_call ENOENT pfp dir path (faccessat_vinode mode flags)"

definition pmemfile_access :: "pool option \<Rightarrow> string option \<Rightarrow> nat \<Rightarrow> ((errno + unit) \<times> pool option) option" where
  "pmemfile_access pfp path mode = pmemfile_faccessat pfp At_cwd path mode 0"

definition pmemfile_euidaccess :: "pool option \<Rightarrow> string option \<Rightarrow> nat \<Rightarrow> ((errno + unit) \<times> pool option) option" where
  "pmemfile_euidaccess pfp path mode = pmemfile_faccessat pfp At_cwd path mode PMEMFILE_AT_EACCESS"

subsection \<open>timestamps.c\<close>

definition PMEMFILE_UTIME_NOW :: int where "PMEMFILE_UTIME_NOW = 1073741823"
definition PMEMFILE_UTIME_OMIT :: int where "PMEMFILE_UTIME_OMIT = 1073741822"

definition is_tm_valid :: "pmemfile_time \<Rightarrow> bool" where
  "is_tm_valid tm \<longleftrightarrow> nsec tm \<ge> 0 \<and> nsec tm \<le> 999999999"

text \<open>
  The two times that are set. \<open>utm\<close> tells whether the special values are recognised, \<open>now i\<close> is the time of the
  clock when it is read for the time number \<open>i\<close>.
\<close>

definition resolve_tm :: "(nat \<Rightarrow> pmemfile_time) \<Rightarrow> nat \<Rightarrow> pmemfile_time \<Rightarrow> errno + pmemfile_time" where
  "resolve_tm now i t =
     (if nsec t = PMEMFILE_UTIME_NOW then Inr (now i)
      else if nsec t = PMEMFILE_UTIME_OMIT then Inr t
      else if \<not> is_tm_valid t then Inl EINVAL
      else Inr t)"

definition times_to_set ::
  "(nat \<Rightarrow> pmemfile_time) \<Rightarrow> (pmemfile_time \<times> pmemfile_time) option \<Rightarrow> bool \<Rightarrow> errno + pmemfile_time \<times> pmemfile_time" where
  "times_to_set now tm utm =
     (case tm of
        None \<Rightarrow> Inr (now 0, now 0)
      | Some (t0, t1) \<Rightarrow>
          if utm then
            (case resolve_tm now 0 t0 of
               Inl e \<Rightarrow> Inl e
             | Inr a \<Rightarrow> (case resolve_tm now 1 t1 of Inl e \<Rightarrow> Inl e | Inr b \<Rightarrow> Inr (a, b)))
          else Inr (t0, t1))"

definition vinode_file_time_set ::
  "(nat \<Rightarrow> pmemfile_time) \<Rightarrow> (pmemfile_time \<times> pmemfile_time) option \<Rightarrow> bool \<Rightarrow> nat \<Rightarrow> pool \<Rightarrow> unit body" where
  "vinode_file_time_set now tm utm n p =
     (case times_to_set now tm utm of
        Inl e \<Rightarrow> Some (Inl e, p)
      | Inr (t0, t1) \<Rightarrow>
          let set_atime = (\<not> utm \<or> nsec t0 \<noteq> PMEMFILE_UTIME_OMIT);
              set_mtime = (\<not> utm \<or> nsec t1 \<noteq> PMEMFILE_UTIME_OMIT)
          in do {
               (r, p1) \<leftarrow> run_tx (\<lambda>q.
                 do {
                   _ \<leftarrow> p_inodes q n;
                   let q1 = (if set_atime then upd_inode n (inode_tx_set_atime t0) q else q);
                   Some (Inr (), if set_mtime then upd_inode n (inode_tx_set_mtime t1) q1 else q1)
                 }) p;
               Some (r, if set_atime \<and> r = Inr () then upd_vnode n (\<lambda>v. v\<lparr>v_atime := t0, v_atime_dirty := False\<rparr>) p1 else p1)
             })"

definition pmemfile_file_time_set ::
  "(nat \<Rightarrow> pmemfile_time) \<Rightarrow> pool option \<Rightarrow> at_file \<Rightarrow> string option \<Rightarrow> (pmemfile_time \<times> pmemfile_time) option \<Rightarrow> bool \<Rightarrow> bool
    \<Rightarrow> ((errno + unit) \<times> pool option) option" where
  "pmemfile_file_time_set now pfp dir filename tm follow utm =
     (case (pfp, filename) of
        (None, _) \<Rightarrow> Some (Inl EFAULT, None)
      | (Some p, None) \<Rightarrow> Some (Inl ENOENT, Some p)
      | (Some p0, Some path) \<Rightarrow>
          if relative path \<and> dir = At_null then Some (Inl EFAULT, Some p0)
          else if utm \<and> (case tm of None \<Rightarrow> False
              | Some (t0, t1) \<Rightarrow> nsec t0 = PMEMFILE_UTIME_OMIT \<and> nsec t1 = PMEMFILE_UTIME_OMIT)
          then Some (Inr (), Some p0)
          else
            map_option (\<lambda>(r, p). (r, Some p)) (with_cred p0 (\<lambda>cred p.
              do {
                (at, at_unref, p1) \<leftarrow> pool_get_dir_for_path p dir path;
                (r, p2) \<leftarrow> on_path cred at path 0 follow (vinode_file_time_set now tm utm) p1;
                p3 \<leftarrow> (if at_unref then vinode_unref p2 at else Some p2);
                Some (r, p3)
              })))"

definition pmemfile_utime ::
  "(nat \<Rightarrow> pmemfile_time) \<Rightarrow> pool option \<Rightarrow> string option \<Rightarrow> (int \<times> int) option \<Rightarrow> ((errno + unit) \<times> pool option) option" where
  "pmemfile_utime now pfp filename tms =
     pmemfile_file_time_set now pfp At_cwd filename
       (map_option (\<lambda>(actime, modtime). (\<lparr>sec = actime, nsec = 0\<rparr>, \<lparr>sec = modtime, nsec = 0\<rparr>)) tms) True False"

record pmemfile_timeval =
  tv_sec :: int
  tv_usec :: int

definition is_timeval_valid :: "pmemfile_timeval \<Rightarrow> bool" where
  "is_timeval_valid tm \<longleftrightarrow> tv_usec tm \<ge> 0 \<and> tv_usec tm \<le> 999999"

definition timeval_to_time :: "pmemfile_timeval \<times> pmemfile_timeval \<Rightarrow> errno + pmemfile_time \<times> pmemfile_time" where
  "timeval_to_time = (\<lambda>(t0, t1).
     if \<not> is_timeval_valid t0 \<or> \<not> is_timeval_valid t1 then Inl EINVAL
     else Inr (\<lparr>sec = tv_sec t0, nsec = tv_usec t0 * 1000\<rparr>, \<lparr>sec = tv_sec t1, nsec = tv_usec t1 * 1000\<rparr>))"

text \<open>The three calls that take a path and \<^verbatim>\<open>timeval\<close>s differ in the directory and in following a link.\<close>

definition set_timevals ::
  "(nat \<Rightarrow> pmemfile_time) \<Rightarrow> pool option \<Rightarrow> at_file \<Rightarrow> string option \<Rightarrow> (pmemfile_timeval \<times> pmemfile_timeval) option \<Rightarrow> bool
    \<Rightarrow> ((errno + unit) \<times> pool option) option" where
  "set_timevals now pfp dir filename tv follow =
     (case tv of
        None \<Rightarrow> pmemfile_file_time_set now pfp dir filename None follow False
      | Some t \<Rightarrow>
          (case timeval_to_time t of
             Inl e \<Rightarrow> Some (Inl e, pfp)
           | Inr tm \<Rightarrow> pmemfile_file_time_set now pfp dir filename (Some tm) follow False))"

definition pmemfile_utimes ::
  "(nat \<Rightarrow> pmemfile_time) \<Rightarrow> pool option \<Rightarrow> string option \<Rightarrow> (pmemfile_timeval \<times> pmemfile_timeval) option
    \<Rightarrow> ((errno + unit) \<times> pool option) option" where
  "pmemfile_utimes now pfp filename tms = set_timevals now pfp At_cwd filename tms True"

definition pmemfile_lutimes ::
  "(nat \<Rightarrow> pmemfile_time) \<Rightarrow> pool option \<Rightarrow> string option \<Rightarrow> (pmemfile_timeval \<times> pmemfile_timeval) option
    \<Rightarrow> ((errno + unit) \<times> pool option) option" where
  "pmemfile_lutimes now pfp filename tv = set_timevals now pfp At_cwd filename tv False"

definition pmemfile_futimesat ::
  "(nat \<Rightarrow> pmemfile_time) \<Rightarrow> pool option \<Rightarrow> at_file \<Rightarrow> string option \<Rightarrow> (pmemfile_timeval \<times> pmemfile_timeval) option
    \<Rightarrow> ((errno + unit) \<times> pool option) option" where
  "pmemfile_futimesat now pfp dir pathname tv = set_timevals now pfp dir pathname tv True"

definition pmemfile_futimes ::
  "(nat \<Rightarrow> pmemfile_time) \<Rightarrow> pool option \<Rightarrow> (nat \<times> pmemfile_file) option \<Rightarrow> (pmemfile_timeval \<times> pmemfile_timeval) option
    \<Rightarrow> ((errno + unit) \<times> pool option) option" where
  "pmemfile_futimes now pfp file tv =
     on_file pfp file (\<lambda>n _ p.
       case tv of
         None \<Rightarrow> vinode_file_time_set now None False n p
       | Some t \<Rightarrow>
           (case timeval_to_time t of
              Inl e \<Rightarrow> Some (Inl e, p)
            | Inr tm \<Rightarrow> vinode_file_time_set now (Some tm) False n p))"

definition pmemfile_utimensat ::
  "(nat \<Rightarrow> pmemfile_time) \<Rightarrow> pool option \<Rightarrow> at_file \<Rightarrow> string option \<Rightarrow> (pmemfile_time \<times> pmemfile_time) option \<Rightarrow> nat
    \<Rightarrow> ((errno + unit) \<times> pool option) option" where
  "pmemfile_utimensat now pfp dir pathname tms flags =
     (if clear_bits flags PMEMFILE_AT_SYMLINK_NOFOLLOW \<noteq> 0 then Some (Inl EINVAL, pfp)
      else pmemfile_file_time_set now pfp dir pathname tms (flags AND PMEMFILE_AT_SYMLINK_NOFOLLOW = 0) (tms \<noteq> None))"

definition pmemfile_futimens ::
  "(nat \<Rightarrow> pmemfile_time) \<Rightarrow> pool option \<Rightarrow> (nat \<times> pmemfile_file) option \<Rightarrow> (pmemfile_time \<times> pmemfile_time) option
    \<Rightarrow> ((errno + unit) \<times> pool option) option" where
  "pmemfile_futimens now pfp file tms = on_file pfp file (\<lambda>n _. vinode_file_time_set now tms (tms \<noteq> None) n)"

subsection \<open>truncate.c\<close>

definition truncate_path_vinode ::
  "pmemfile_time \<Rightarrow> pmemfile_cred \<Rightarrow> nat \<Rightarrow> nat option \<Rightarrow> string \<Rightarrow> pool \<Rightarrow> unit body" where
  "truncate_path_vinode tm cred len vparent path p =
     on_path cred vparent path 0 True (\<lambda>n q.
       do {
         ok \<leftarrow> vinode_can_access cred q n PFILE_WANT_WRITE;
         i \<leftarrow> p_inodes q n;
         if \<not> ok then Some (Inl EACCES, q)
         else if inode_is_dir i then Some (Inl EISDIR, q)
         else if \<not> inode_is_regular_file i then Some (Inl EINVAL, q)
         else do { (err, q1) \<leftarrow> truncate_vnode tm n len q; Some (if err \<noteq> 0 then Inl err else Inr (), q1) }
       }) p"

definition pmemfile_truncate ::
  "pmemfile_time \<Rightarrow> pool option \<Rightarrow> string option \<Rightarrow> int \<Rightarrow> ((errno + unit) \<times> pool option) option" where
  "pmemfile_truncate tm pfp path len =
     (case (pfp, path) of
        (None, _) \<Rightarrow> Some (Inl EFAULT, None)
      | (Some p, None) \<Rightarrow> Some (Inl EFAULT, Some p)
      | (Some p0, Some pathname) \<Rightarrow>
          if len < 0 then Some (Inl EINVAL, Some p0)
          else
            map_option (\<lambda>(r, p). (r, Some p)) (with_cred p0 (\<lambda>cred p.
              if \<not> relative pathname then truncate_path_vinode tm cred (nat len) (Some (p_root p ! 0)) pathname p
              else
                do {
                  (cwd, p1) \<leftarrow> pool_get_cwd p;
                  (r, p2) \<leftarrow> truncate_path_vinode tm cred (nat len) (Some cwd) pathname p1;
                  p3 \<leftarrow> vinode_unref p2 (Some cwd);
                  Some (r, p3)
                })))"

subsection \<open>fcntl.c\<close>

definition PMEMFILE_F_GETFD :: nat where "PMEMFILE_F_GETFD = 1"
definition PMEMFILE_F_SETFD :: nat where "PMEMFILE_F_SETFD = 2"
definition PMEMFILE_F_GETFL :: nat where "PMEMFILE_F_GETFL = 3"
definition PMEMFILE_F_SETFL :: nat where "PMEMFILE_F_SETFL = 4"
definition PMEMFILE_F_GETLK :: nat where "PMEMFILE_F_GETLK = 5"
definition PMEMFILE_F_SETLK :: nat where "PMEMFILE_F_SETLK = 6"
definition PMEMFILE_F_SETLKW :: nat where "PMEMFILE_F_SETLKW = 7"
definition PMEMFILE_F_UNLCK :: nat where "PMEMFILE_F_UNLCK = 2"
definition PMEMFILE_FD_CLOEXEC :: nat where "PMEMFILE_FD_CLOEXEC = 1"
definition PMEMFILE_O_LARGEFILE :: nat where "PMEMFILE_O_LARGEFILE = 0"

definition fcntl_getfl :: "pmemfile_file \<Rightarrow> nat" where
  "fcntl_getfl f =
     (if f_flags f AND PFILE_PATH \<noteq> 0 then PMEMFILE_O_PATH
      else
        PMEMFILE_O_LARGEFILE OR
        (if f_flags f AND PFILE_APPEND \<noteq> 0 then PMEMFILE_O_APPEND else 0) OR
        (if f_flags f AND PFILE_NOATIME \<noteq> 0 then PMEMFILE_O_NOATIME else 0) OR
        (if f_flags f AND (PFILE_READ OR PFILE_WRITE) = PFILE_READ OR PFILE_WRITE then PMEMFILE_O_RDWR
         else if f_flags f AND PFILE_READ = PFILE_READ then PMEMFILE_O_RDONLY
         else if f_flags f AND PFILE_WRITE = PFILE_WRITE then PMEMFILE_O_WRONLY
         else 0))"

definition fcntl_setfl :: "nat \<Rightarrow> pmemfile_file \<Rightarrow> (errno + nat) \<times> pmemfile_file" where
  "fcntl_setfl arg f =
     (let fl = clear_bits arg (PMEMFILE_O_ACCMODE OR PMEMFILE_O_CREAT OR PMEMFILE_O_EXCL OR PMEMFILE_O_NOCTTY OR
            PMEMFILE_O_TRUNC OR PMEMFILE_O_SYNC OR PMEMFILE_O_DSYNC)
      in if fl AND PMEMFILE_O_ASYNC \<noteq> 0 then (Inl EINVAL, f)
         else if clear_bits fl (PMEMFILE_O_APPEND OR PMEMFILE_O_DIRECT OR PMEMFILE_O_NOATIME OR PMEMFILE_O_NONBLOCK) \<noteq> 0
         then (Inl EINVAL, f)
         else
           let f1 = (if fl AND PMEMFILE_O_APPEND \<noteq> 0 then f_flags f OR PFILE_APPEND else clear_bits (f_flags f) PFILE_APPEND);
               f2 = (if fl AND PMEMFILE_O_NOATIME \<noteq> 0 then f1 OR PFILE_NOATIME else clear_bits f1 PFILE_NOATIME)
           in (Inr 0, f\<lparr>f_flags := f2\<rparr>))"

text \<open>\<open>arg\<close> is the integer argument of the call; the last component of the result is what is stored in \<^verbatim>\<open>l_type\<close>.\<close>

definition pmemfile_fcntl ::
  "bool \<Rightarrow> pmemfile_file option \<Rightarrow> nat \<Rightarrow> nat \<Rightarrow> (errno + nat) \<times> pmemfile_file option \<times> nat option" where
  "pmemfile_fcntl pfp file cmd arg =
     (if \<not> pfp then (Inl EFAULT, file, None)
      else
        (case file of
           None \<Rightarrow> (Inl EFAULT, None, None)
         | Some f \<Rightarrow>
             if cmd = PMEMFILE_F_SETLKW \<or> cmd = PMEMFILE_F_SETLK then
               (if f_flags f AND PFILE_PATH \<noteq> 0 then Inl EBADF else Inr 0, file, None)
             else if cmd = PMEMFILE_F_GETLK then
               (if f_flags f AND PFILE_PATH \<noteq> 0 then (Inl EBADF, file, None) else (Inr 0, file, Some PMEMFILE_F_UNLCK))
             else if cmd = PMEMFILE_F_GETFL then (Inr (fcntl_getfl f), file, None)
             else if cmd = PMEMFILE_F_SETFL then (let (r, f1) = fcntl_setfl arg f in (r, Some f1, None))
             else if cmd = PMEMFILE_F_GETFD then (Inr PMEMFILE_FD_CLOEXEC, file, None)
             else if cmd = PMEMFILE_F_SETFD then
               (if arg AND PMEMFILE_FD_CLOEXEC = 0 then Inl EINVAL
                else if clear_bits arg PMEMFILE_FD_CLOEXEC \<noteq> 0 then Inl EINVAL
                else Inr 0, file, None)
             else (Inl ENOTSUP, file, None)))"

end
