(* ===== verification/Refs.thy ===== *)
theory Refs
  imports Namespace
begin

text \<open>
  Reference counts of volatile inodes. A reference is held by the program, by the pool for its roots and its current
  directory, or by the volatile inode of a directory, which refers to its parent. The references of the first two
  kinds are a function from inodes to numbers, which each operation changes in a known way.
\<close>

section \<open>Reference counts\<close>

text \<open>The volatile inodes of the directories below \<open>n\<close> that refer to it.\<close>

definition kids :: "(nat \<Rightarrow> vnode option) \<Rightarrow> nat \<Rightarrow> nat set" where
  "kids vs n = {c. c \<noteq> n \<and> (\<exists>u. vs c = Some u \<and> v_parent u = Some n)}"

definition refs_ok :: "(nat \<Rightarrow> vnode option) \<Rightarrow> (nat \<Rightarrow> nat) \<Rightarrow> bool" where
  "refs_ok vs tot \<longleftrightarrow> finite (dom vs) \<and>
     (\<forall>n. case vs n of
        None \<Rightarrow> tot n = 0 \<and> kids vs n = {}
      | Some v \<Rightarrow> 0 < v_ref v \<and> v_ref v = tot n + card (kids vs n))"

lemma kids_same: "vs n = Some v \<Longrightarrow> v_parent v' = v_parent v \<Longrightarrow> kids (vs(n \<mapsto> v')) m = kids vs m"
  by (auto simp: kids_def)

lemma kids_finite: "finite (dom vs) \<Longrightarrow> finite (kids vs n)"
  by (rule finite_subset [of _ "dom vs"]) (auto simp: kids_def)

lemma refs_okD:
  assumes "refs_ok vs tot"
  shows "finite (dom vs)" "vs n = None \<Longrightarrow> tot n = 0" "vs n = None \<Longrightarrow> kids vs n = {}"
    "vs n = Some v \<Longrightarrow> 0 < v_ref v" "vs n = Some v \<Longrightarrow> v_ref v = tot n + card (kids vs n)"
  using assms by (auto simp: refs_ok_def split: option.splits dest: spec [of _ n])

lemma refs_okI:
  assumes "finite (dom vs)" and "\<And>n. vs n = None \<Longrightarrow> tot n = 0 \<and> kids vs n = {}"
    and "\<And>n v. vs n = Some v \<Longrightarrow> 0 < v_ref v \<and> v_ref v = tot n + card (kids vs n)"
  shows "refs_ok vs tot"
proof -
  have "case vs n of None \<Rightarrow> tot n = 0 \<and> kids vs n = {} | Some v \<Rightarrow> 0 < v_ref v \<and> v_ref v = tot n + card (kids vs n)" for n
    using assms(2,3) [of n] by (cases "vs n") auto
  then show ?thesis
    using assms(1) by (simp add: refs_ok_def)
qed

lemma refs_ok_parent:
  assumes "refs_ok vs tot" and "vs n = Some v" and "v_parent v = Some q"
  shows "vs q \<noteq> None"
proof
  assume "vs q = None"
  then have "n \<notin> kids vs q" "q \<noteq> n"
    using refs_okD(3) [OF assms(1)] assms(2) by auto
  then show False
    using assms(2,3) by (auto simp: kids_def)
qed

lemma refs_set:
  assumes "refs_ok vs tot" and "vs n = Some v" and "v_parent v' = v_parent v" and "0 < v_ref v'"
    and "v_ref v' = t + card (kids vs n)"
  shows "refs_ok (vs(n \<mapsto> v')) (tot(n := t))"
proof (rule refs_okI)
  fix m
  note d = refs_okD(2-5) [OF assms(1), of m]
  show "(vs(n \<mapsto> v')) m = None \<Longrightarrow> (tot(n := t)) m = 0 \<and> kids (vs(n \<mapsto> v')) m = {}"
    using d(1,2) kids_same [of vs n v v', OF assms(2,3)] by (simp split: if_splits)
  show "0 < v_ref u \<and> v_ref u = (tot(n := t)) m + card (kids (vs(n \<mapsto> v')) m)" if "(vs(n \<mapsto> v')) m = Some u" for u
    using d(3,4) that assms(4,5) kids_same [of vs n v v', OF assms(2,3)] by (auto split: if_splits)
qed (use refs_okD(1) [OF assms(1)] in simp)

lemma refs_inc:
  assumes "refs_ok vs tot" and "vs n = Some v"
  shows "refs_ok (vs(n \<mapsto> v\<lparr>v_ref := Suc (v_ref v)\<rparr>)) (tot(n := Suc (tot n)))"
  by (rule refs_set [OF assms]) (use refs_okD(5) [OF assms] in auto)

lemma refs_dec:
  assumes "refs_ok vs tot" and "vs n = Some v" and "1 < v_ref v" and "0 < tot n"
  shows "refs_ok (vs(n \<mapsto> v\<lparr>v_ref := v_ref v - 1\<rparr>)) (tot(n := tot n - 1))"
  by (rule refs_set [OF assms(1,2)]) (use assms(3,4) refs_okD(5) [OF assms(1,2)] in auto)

lemma refs_new:
  assumes "refs_ok vs tot" and "vs n = None" and "v_ref v = 1" and "v_parent v = None"
  shows "refs_ok (vs(n \<mapsto> v)) (tot(n := 1))"
proof -
  have k: "kids (vs(n \<mapsto> v)) m = kids vs m" for m
    using assms(2,4) by (auto simp: kids_def)
  show ?thesis
  proof (rule refs_okI)
    fix m
    note d = refs_okD(2-5) [OF assms(1), of m]
    show "(vs(n \<mapsto> v)) m = None \<Longrightarrow> (tot(n := 1)) m = 0 \<and> kids (vs(n \<mapsto> v)) m = {}"
      using d(1,2) k by (simp split: if_splits)
    show "0 < v_ref u \<and> v_ref u = (tot(n := 1)) m + card (kids (vs(n \<mapsto> v)) m)" if "(vs(n \<mapsto> v)) m = Some u" for u
      using d(2,3,4) that assms(2,3) k by (auto split: if_splits)
  qed (use refs_okD(1) [OF assms(1)] in simp)
qed

lemma refs_new_child:
  assumes "refs_ok vs tot" and "vs n = None" and "v_ref v = 1" and "v_parent v = Some q" and "vs q = Some w"
  shows "refs_ok (vs(n \<mapsto> v, q \<mapsto> w\<lparr>v_ref := Suc (v_ref w)\<rparr>)) (tot(n := 1))"
proof -
  let ?vs = "vs(n \<mapsto> v, q \<mapsto> w\<lparr>v_ref := Suc (v_ref w)\<rparr>)"
  have ne: "q \<noteq> n" and n: "n \<notin> kids vs q" and fin: "finite (kids vs q)"
    using assms(2,5) kids_finite [OF refs_okD(1) [OF assms(1)]] by (auto simp: kids_def)
  have k: "kids ?vs m = (if m = q then insert n (kids vs q) else kids vs m)" for m
    using assms(2,4,5) ne by (auto simp: kids_def)
  show ?thesis
  proof (rule refs_okI)
    fix m
    note d = refs_okD(2-5) [OF assms(1), of m]
    show "?vs m = None \<Longrightarrow> (tot(n := 1)) m = 0 \<and> kids ?vs m = {}"
      using d(1,2) k by (simp split: if_splits)
    show "0 < v_ref u \<and> v_ref u = (tot(n := 1)) m + card (kids ?vs m)" if "?vs m = Some u" for u
      using d(2,3,4) that assms(2,3,5) k n fin ne by (auto split: if_splits)
  qed (use refs_okD(1) [OF assms(1)] in simp)
qed

text \<open>The last reference goes: the volatile inode disappears, and its reference to the parent is left.\<close>

definition dropped :: "(nat \<Rightarrow> nat) \<Rightarrow> nat \<Rightarrow> nat option \<Rightarrow> nat \<Rightarrow> nat" where
  "dropped tot n parent =
     (case parent of
        None \<Rightarrow> tot(n := 0)
      | Some q \<Rightarrow> if q = n then tot(n := 0) else tot(n := 0, q := Suc (tot q)))"

lemma refs_drop:
  assumes "refs_ok vs tot" and "vs n = Some v" and "v_ref v = 1" and "0 < tot n"
  shows "refs_ok (vs(n := None)) (dropped tot n (v_parent v))" and "kids vs n = {}"
proof -
  have fin: "finite (kids vs m)" for m
    by (rule kids_finite [OF refs_okD(1) [OF assms(1)]])
  have "card (kids vs n) = 0"
    using refs_okD(5) [OF assms(1,2)] assms(3,4) by simp
  then show none: "kids vs n = {}"
    using fin by simp
  have k: "kids (vs(n := None)) m = kids vs m - {n}" for m
    using none by (auto simp: kids_def)
  have mem: "n \<in> kids vs m \<longleftrightarrow> m \<noteq> n \<and> v_parent v = Some m" for m
    using assms(2) by (auto simp: kids_def)
  have "case (vs(n := None)) m of
        None \<Rightarrow> dropped tot n (v_parent v) m = 0 \<and> kids (vs(n := None)) m = {}
      | Some u \<Rightarrow> 0 < v_ref u \<and> v_ref u = dropped tot n (v_parent v) m + card (kids (vs(n := None)) m)" for m
  proof (cases "m = n \<or> vs m = None")
    case True
    then show ?thesis
      using none refs_okD(2,3) [OF assms(1), of m] refs_ok_parent [OF assms(1,2)] k
      by (auto simp: dropped_def split: option.splits)
  next
    case False
    then obtain u where u: "vs m = Some u"
      by auto
    show ?thesis
    proof (cases "v_parent v = Some m")
      case True
      then have "n \<in> kids vs m"
        using mem False by simp
      then have "card (kids vs m) = Suc (card (kids vs m - {n}))"
        using fin card.remove [of "kids vs m" n] by simp
      then show ?thesis
        using True False u refs_okD(4,5) [OF assms(1) u] k by (simp add: dropped_def)
    next
      case neq: False
      then have "kids vs m - {n} = kids vs m"
        using mem by blast
      then show ?thesis
        using neq False u refs_okD(4,5) [OF assms(1) u] k by (auto simp: dropped_def split: option.splits)
    qed
  qed
  then show "refs_ok (vs(n := None)) (dropped tot n (v_parent v))"
    using refs_okD(1) [OF assms(1)] by (simp add: refs_ok_def)
qed

end
