(* ===== verification/Pool_Inv.thy ===== *)
theory Pool_Inv
  imports Refs Dir
begin

text \<open>
  The invariant of a pool: directories are well formed and lead to inodes that exist, volatile inodes agree with the
  persistent ones and with the references to them, and the inodes without links are exactly those registered as
  orphaned. The invariant is stated on the parts of the state it depends on.
\<close>

section \<open>The invariant\<close>

definition inode_ok :: "inode \<Rightarrow> bool" where
  "inode_ok i \<longleftrightarrow> i_version i = PMEMFILE_INODE_VERSION 2 \<and> suspended_references i = 0 \<and>
     (inode_is_dir i \<or> inode_is_regular_file i \<or> inode_is_symlink i)"

text \<open>The inode that a directory has under a name.\<close>

definition entry :: "pmemfile_dirent list list \<Rightarrow> string \<Rightarrow> nat option" where
  "entry ds name = map_option d_inode (find (\<lambda>d. d_name d = name) (concat ds))"

definition dirent_ok :: "(nat \<Rightarrow> inode option) \<Rightarrow> pmemfile_dirent \<Rightarrow> bool" where
  "dirent_ok I d \<longleftrightarrow> (d_inode d = 0 \<longleftrightarrow> d_name d = []) \<and> CHR 0x00 \<notin> set (d_name d) \<and> slash \<notin> set (d_name d) \<and>
     length (d_name d) \<le> PMEMFILE_MAX_FILE_NAME \<and>
     (d_inode d \<noteq> 0 \<longrightarrow> (\<exists>i. I (d_inode d) = Some i \<and> inode_get_nlink i \<noteq> 0))"

text \<open>The first two entries of a directory that has not been removed.\<close>

definition dots :: "nat \<Rightarrow> nat \<Rightarrow> pmemfile_dirent list list \<Rightarrow> bool" where
  "dots n q ds \<longleftrightarrow> (\<exists>es rest. ds = (\<lparr>d_inode = n, d_name = ''.''\<rparr> # \<lparr>d_inode = q, d_name = ''..''\<rparr> # es) # rest)"

text \<open>
  A directory: its entries are well formed and have different names, the directories in it have it as parent, and
  it has no entries when it has been removed.
\<close>

definition dir_ok :: "(nat \<Rightarrow> inode option) \<Rightarrow> (nat \<Rightarrow> pmemfile_dirent list list) \<Rightarrow> nat \<Rightarrow> inode \<Rightarrow> bool" where
  "dir_ok I D n i \<longleftrightarrow> (\<forall>d \<in> set (concat (D n)). dirent_ok I d) \<and>
     distinct (filter (\<lambda>s. s \<noteq> []) (map d_name (concat (D n)))) \<and>
     (if inode_get_nlink i = 0 then \<forall>d \<in> set (concat (D n)). d_inode d = 0 else \<exists>q. dots n q (D n)) \<and>
     (\<forall>d \<in> set (concat (D n)). \<forall>j. d_name d \<noteq> ''.'' \<and> d_name d \<noteq> ''..'' \<and> I (d_inode d) = Some j \<and> inode_is_dir j \<longrightarrow>
        dots (d_inode d) n (D (d_inode d)))"

definition vnode_ok :: "(nat \<Rightarrow> inode option) \<Rightarrow> (nat \<Rightarrow> pmemfile_dirent list list) \<Rightarrow> nat \<Rightarrow> vnode \<Rightarrow> bool" where
  "vnode_ok I D n v \<longleftrightarrow> (\<exists>i. I n = Some i \<and> (inode_get_nlink i = 0 \<longrightarrow> v_orphaned v \<noteq> None) \<and>
     (case v_parent v of
        None \<Rightarrow> \<not> inode_is_dir i
      | Some q \<Rightarrow> inode_is_dir i \<and> (\<exists>j. I q = Some j \<and> inode_is_dir j) \<and> (inode_get_nlink i \<noteq> 0 \<longrightarrow> dots n q (D n))))"

text \<open>The arrays \<open>A\<close> hold exactly the inodes without links, each where its volatile inode says.\<close>

definition registered ::
  "nat set \<Rightarrow> (nat \<Rightarrow> inode option) \<Rightarrow> (nat \<Rightarrow> vnode option) \<Rightarrow> (nat \<Rightarrow> inode_array option) \<Rightarrow> bool" where
  "registered A I V H \<longleftrightarrow>
     (\<forall>n v pos. V n = Some v \<and> v_orphaned v = Some pos \<longrightarrow> fst pos \<in> A \<and> slot_at H pos = Some n) \<and>
     (\<forall>a k n. a \<in> A \<and> slot_at H (a, k) = Some n \<longrightarrow>
        (\<exists>v i. V n = Some v \<and> v_orphaned v = Some (a, k) \<and> I n = Some i \<and> inode_get_nlink i = 0))"

definition orphans_ok ::
  "(nat \<Rightarrow> inode option) \<Rightarrow> (nat \<Rightarrow> vnode option) \<Rightarrow> (nat \<Rightarrow> inode_array option) \<Rightarrow> nat \<Rightarrow> bool" where
  "orphans_ok I V H r \<longleftrightarrow> (\<exists>as. chain H as None (Some r) \<and> distinct as \<and> registered (set as) I V H)"

definition ns_inv ::
  "(nat \<Rightarrow> inode option) \<Rightarrow> (nat \<Rightarrow> pmemfile_dirent list list) \<Rightarrow> (nat \<Rightarrow> vnode option) \<Rightarrow> (nat \<Rightarrow> inode_array option) \<Rightarrow> nat
    \<Rightarrow> (nat \<Rightarrow> nat) \<Rightarrow> bool" where
  "ns_inv I D V H r tot \<longleftrightarrow> refs_ok V tot \<and> I 0 = None \<and>
     (\<forall>n i. I n = Some i \<longrightarrow> inode_ok i \<and> (inode_get_nlink i = 0 \<longrightarrow> V n \<noteq> None) \<and> (inode_is_dir i \<longrightarrow> dir_ok I D n i)) \<and>
     (\<forall>n v. V n = Some v \<longrightarrow> vnode_ok I D n v) \<and> orphans_ok I V H r"

definition pool_inv :: "pool \<Rightarrow> (nat \<Rightarrow> nat) \<Rightarrow> bool" where
  "pool_inv p tot \<longleftrightarrow> ns_inv (p_inodes p) (p_dir p) (p_vinodes p) (ia_heap (p_arr p)) (p_orphaned p) tot"

text \<open>The references that the pool holds itself; \<open>ext\<close> are those of the program.\<close>

definition pool_refs :: "pool \<Rightarrow> nat \<Rightarrow> nat" where
  "pool_refs p n = count_list (p_root p) n + (if p_cwd p = n then 1 else 0)"

definition pool_ok :: "pool \<Rightarrow> (nat \<Rightarrow> nat) \<Rightarrow> bool" where
  "pool_ok p ext \<longleftrightarrow> pool_inv p (\<lambda>n. ext n + pool_refs p n) \<and> p_root p \<noteq> [] \<and>
     (\<forall>r \<in> set (p_root p). \<exists>i. p_inodes p r = Some i \<and> inode_is_dir i \<and> inode_get_nlink i \<noteq> 0) \<and>
     (\<forall>n. CHR 0x00 \<notin> set (p_symlink p n))"

section \<open>What reference counting leaves alone\<close>

text \<open>An inode that differs in its access time only.\<close>

definition same_inode :: "inode \<Rightarrow> inode \<Rightarrow> bool" where
  "same_inode i j \<longleftrightarrow> (\<exists>at sl. j = i\<lparr>i_atime := at, slots := (slots i)\<lparr>sl_atime := sl\<rparr>\<rparr>)"

text \<open>Nothing but access times and reference counts changes, and inodes without links may be gone.\<close>

definition calm :: "pool \<Rightarrow> pool \<Rightarrow> bool" where
  "calm p p' \<longleftrightarrow> p_dir p' = p_dir p \<and> p_symlink p' = p_symlink p \<and> p_root p' = p_root p \<and> p_cwd p' = p_cwd p \<and>
     p_orphaned p' = p_orphaned p \<and> p_umask p' = p_umask p \<and> p_cred p' = p_cred p \<and> p_space p' = p_space p \<and>
     p_new_inode p' = p_new_inode p \<and> p_new_array p' = p_new_array p \<and> p_conf p' = p_conf p \<and> p_over p' = p_over p \<and>
     p_store p' = p_store p \<and>
     (\<forall>n. p_inodes p n = None \<longrightarrow> p_inodes p' n = None) \<and>
     (\<forall>n i. p_inodes p n = Some i \<longrightarrow>
        p_inodes p' n = None \<and> inode_get_nlink i = 0 \<or> (\<exists>j. p_inodes p' n = Some j \<and> same_inode i j))"

lemma same_inode_refl [simp]: "same_inode i i"
  unfolding same_inode_def by (intro exI [of _ "i_atime i"] exI [of _ "sl_atime (slots i)"]) simp

lemma same_inode_trans: "same_inode i j \<Longrightarrow> same_inode j k \<Longrightarrow> same_inode i k"
  by (clarsimp simp: same_inode_def) (metis inode.surjective inode.update_convs)

lemma same_inode_simps:
  assumes "same_inode i j"
  shows "inode_get_nlink j = inode_get_nlink i" "inode_get_flags j = inode_get_flags i" "inode_get_size j = inode_get_size i"
    "i_version j = i_version i" "suspended_references j = suspended_references i" "i_uid j = i_uid i" "i_gid j = i_gid i"
    "inode_is_dir j = inode_is_dir i" "inode_is_regular_file j = inode_is_regular_file i" "inode_is_symlink j = inode_is_symlink i"
  using assms by (auto simp: same_inode_def inode_get_defs inode_is_dir_def inode_is_regular_file_def inode_is_symlink_def)


section \<open>Steps that keep the invariant\<close>

lemma ns_invD:
  assumes "ns_inv I D V H r tot"
  shows "refs_ok V tot" "I 0 = None" "I n = Some i \<Longrightarrow> inode_ok i"
    "I n = Some i \<Longrightarrow> inode_get_nlink i = 0 \<Longrightarrow> V n \<noteq> None" "I n = Some i \<Longrightarrow> inode_is_dir i \<Longrightarrow> dir_ok I D n i"
    "V n = Some v \<Longrightarrow> vnode_ok I D n v" "orphans_ok I V H r"
  using assms by (auto simp: ns_inv_def)

lemma ns_inv_inode: "ns_inv I D V H r tot \<Longrightarrow> V n = Some v \<Longrightarrow> \<exists>i. I n = Some i"
  using ns_invD(6) [of I D V H r tot n v] by (auto simp: vnode_ok_def)

lemma registeredI:
  assumes "\<And>n v pos. V n = Some v \<Longrightarrow> v_orphaned v = Some pos \<Longrightarrow> fst pos \<in> A \<and> slot_at H pos = Some n"
    and "\<And>a k n. a \<in> A \<Longrightarrow> slot_at H (a, k) = Some n \<Longrightarrow>
        \<exists>v i. V n = Some v \<and> v_orphaned v = Some (a, k) \<and> I n = Some i \<and> inode_get_nlink i = 0"
  shows "registered A I V H"
  using assms unfolding registered_def by blast

lemma registeredD:
  assumes "registered A I V H"
  shows "V n = Some v \<Longrightarrow> v_orphaned v = Some pos \<Longrightarrow> fst pos \<in> A \<and> slot_at H pos = Some n"
    and "a \<in> A \<Longrightarrow> slot_at H (a, k) = Some n \<Longrightarrow>
        \<exists>v i. V n = Some v \<and> v_orphaned v = Some (a, k) \<and> I n = Some i \<and> inode_get_nlink i = 0"
  using assms unfolding registered_def by blast+

definition same_vnode :: "vnode \<Rightarrow> vnode \<Rightarrow> bool" where
  "same_vnode v w \<longleftrightarrow> v_parent w = v_parent v \<and> v_orphaned w = v_orphaned v"

lemma same_vnode_refl [simp]: "same_vnode v v"
  by (simp add: same_vnode_def)

lemma rel_option_iff: "rel_option R x y \<longleftrightarrow> (x = None \<and> y = None \<or> (\<exists>a b. x = Some a \<and> y = Some b \<and> R a b))"
  by (cases x; cases y) auto

text \<open>Inodes that the invariant does not tell apart.\<close>

definition alike :: "inode \<Rightarrow> inode \<Rightarrow> bool" where
  "alike i j \<longleftrightarrow> i_version j = i_version i \<and> suspended_references j = suspended_references i \<and>
     inode_is_dir j = inode_is_dir i \<and> inode_is_regular_file j = inode_is_regular_file i \<and> inode_is_symlink j = inode_is_symlink i \<and>
     (inode_get_nlink j = 0 \<longleftrightarrow> inode_get_nlink i = 0)"

lemma alike_refl [simp]: "alike i i"
  by (simp add: alike_def)

lemma same_inode_alike: "same_inode i j \<Longrightarrow> alike i j"
  by (simp add: alike_def same_inode_simps)

lemma alike_simps:
  assumes "alike i j"
  shows "i_version j = i_version i" "suspended_references j = suspended_references i" "inode_is_dir j = inode_is_dir i"
    "inode_is_regular_file j = inode_is_regular_file i" "inode_is_symlink j = inode_is_symlink i"
    "inode_get_nlink j = 0 \<longleftrightarrow> inode_get_nlink i = 0" "0 < inode_get_nlink j \<longleftrightarrow> 0 < inode_get_nlink i"
    "inode_get_nlink j = Suc k \<Longrightarrow> 0 < inode_get_nlink i"
  using assms by (auto simp: alike_def)

lemma inode_ok_same: "alike i j \<Longrightarrow> inode_ok j = inode_ok i"
  by (simp add: inode_ok_def alike_simps)

lemma dirent_ok_same:
  assumes "\<And>n. rel_option alike (I n) (I' n)"
  shows "dirent_ok I d \<Longrightarrow> dirent_ok I' d"
  using assms [of "d_inode d"] by (auto simp: dirent_ok_def rel_option_iff alike_simps)

lemma dir_ok_same:
  assumes "\<And>n. rel_option alike (I n) (I' n)" and "alike i j" and "dir_ok I D n i"
  shows "dir_ok I' D n j"
proof -
  have "dots (d_inode d) n (D (d_inode d))"
    if "d \<in> set (concat (D n))" "d_name d \<noteq> ''.''" "d_name d \<noteq> ''..''" "I' (d_inode d) = Some k" "inode_is_dir k" for d k
    using that assms(1) [of "d_inode d"] assms(3) by (auto simp: dir_ok_def rel_option_iff alike_simps)
  then show ?thesis
    using assms(3) dirent_ok_same [OF assms(1)] by (auto simp: dir_ok_def alike_simps [OF assms(2)])
qed

lemma vnode_ok_same:
  assumes "\<And>n. rel_option alike (I n) (I' n)" and "same_vnode v w" and "vnode_ok I D n v"
  shows "vnode_ok I' D n w"
proof -
  obtain i where i: "I n = Some i" "inode_get_nlink i = 0 \<longrightarrow> v_orphaned v \<noteq> None"
    and par: "case v_parent v of None \<Rightarrow> \<not> inode_is_dir i
      | Some q \<Rightarrow> inode_is_dir i \<and> (\<exists>j. I q = Some j \<and> inode_is_dir j) \<and> (inode_get_nlink i \<noteq> 0 \<longrightarrow> dots n q (D n))"
    using assms(3) by (auto simp: vnode_ok_def)
  obtain j where j: "I' n = Some j" "alike i j"
    using assms(1) [of n] i(1) by (auto simp: rel_option_iff)
  have "\<exists>k. I' q = Some k \<and> inode_is_dir k" if "I q = Some k" "inode_is_dir k" for q k
    using assms(1) [of q] that by (auto simp: rel_option_iff alike_simps)
  then show ?thesis
    using j i(2) par assms(2)
    by (auto simp: vnode_ok_def same_vnode_def alike_simps split: option.splits)
qed

lemma registered_same:
  assumes "\<And>n. rel_option alike (I n) (I' n)" and "\<And>n. rel_option same_vnode (V n) (V' n)"
    and "registered A I V H"
  shows "registered A I' V' H"
proof (rule registeredI)
  note reg = registeredD [OF assms(3)]
  show "fst pos \<in> A \<and> slot_at H pos = Some n" if "V' n = Some w" "v_orphaned w = Some pos" for n w pos
    using reg(1) [of n _ pos] assms(2) [of n] that by (auto simp: rel_option_iff same_vnode_def)
  show "\<exists>w j. V' n = Some w \<and> v_orphaned w = Some (a, k) \<and> I' n = Some j \<and> inode_get_nlink j = 0"
    if "a \<in> A" "slot_at H (a, k) = Some n" for a k n
    using reg(2) [OF that] assms(1,2) [of n] by (auto simp: rel_option_iff same_vnode_def alike_simps)
qed

lemma orphans_ok_same:
  assumes "\<And>n. rel_option alike (I n) (I' n)" and "\<And>n. rel_option same_vnode (V n) (V' n)"
    and "orphans_ok I V H r"
  shows "orphans_ok I' V' H r"
  using assms(3) registered_same [of I I' V V', OF assms(1,2)] by (auto simp: orphans_ok_def)

lemma ns_inv_same:
  assumes inv: "ns_inv I D V H r tot" and I: "\<And>n. rel_option alike (I n) (I' n)"
    and V: "\<And>n. rel_option same_vnode (V n) (V' n)" and "refs_ok V' tot'"
  shows "ns_inv I' D V' H r tot'"
proof -
  have "inode_ok j \<and> (inode_get_nlink j = 0 \<longrightarrow> V' n \<noteq> None) \<and> (inode_is_dir j \<longrightarrow> dir_ok I' D n j)" if j: "I' n = Some j" for n j
  proof -
    obtain i where i: "I n = Some i" "alike i j"
      using I [of n] j by (auto simp: rel_option_iff)
    show ?thesis
      using ns_invD(3,4,5) [OF inv i(1)] V [of n] dir_ok_same [OF I i(2)] i(2)
      by (auto simp: inode_ok_same alike_simps rel_option_iff)
  qed
  moreover have "vnode_ok I' D n w" if w: "V' n = Some w" for n w
  proof -
    obtain v where v: "V n = Some v" "same_vnode v w"
      using V [of n] w by (auto simp: rel_option_iff)
    show ?thesis
      by (rule vnode_ok_same [OF _ v(2) ns_invD(6) [OF inv v(1)]]) (rule I)
  qed
  moreover have "I' 0 = None"
    using ns_invD(2) [OF inv] I [of 0] by (auto simp: rel_option_iff)
  ultimately show ?thesis
    using assms(4) orphans_ok_same [OF I V ns_invD(7) [OF inv]] by (simp add: ns_inv_def)
qed

text \<open>A volatile inode is made.\<close>

lemma ns_inv_new:
  assumes inv: "ns_inv I D V H r tot" and n: "V n = None" "V' n = Some v" "v_orphaned v = None" "vnode_ok I D n v"
    and V: "\<And>m. m \<noteq> n \<Longrightarrow> rel_option same_vnode (V m) (V' m)" and "refs_ok V' tot'"
  shows "ns_inv I D V' H r tot'"
proof -
  have vn: "vnode_ok I D m w" if w: "V' m = Some w" for m w
  proof (cases "m = n")
    case False
    then obtain u where u: "V m = Some u" "same_vnode u w"
      using V [of m] w by (auto simp: rel_option_iff)
    then show ?thesis
      using vnode_ok_same [of I I u w, OF _ u(2) ns_invD(6) [OF inv u(1)]]
      by (simp add: option.rel_refl)
  qed (use w n in simp)
  obtain as where as: "chain H as None (Some r)" "distinct as" and reg: "registered (set as) I V H"
    using ns_invD(7) [OF inv] by (auto simp: orphans_ok_def)
  have "registered (set as) I V' H"
  proof (rule registeredI)
    show "fst pos \<in> set as \<and> slot_at H pos = Some m" if "V' m = Some w" "v_orphaned w = Some pos" for m w pos
      using registeredD(1) [OF reg, of m _ pos] V [of m] that n(2,3)
      by (cases "m = n") (auto simp: rel_option_iff same_vnode_def)
    show "\<exists>w j. V' m = Some w \<and> v_orphaned w = Some (a, k) \<and> I m = Some j \<and> inode_get_nlink j = 0"
      if "a \<in> set as" "slot_at H (a, k) = Some m" for a k m
      using registeredD(2) [OF reg that] V [of m] n(1) by (cases "m = n") (auto simp: rel_option_iff same_vnode_def)
  qed
  then have "orphans_ok I V' H r"
    using as by (auto simp: orphans_ok_def)
  moreover have "V' m \<noteq> None" if "I m = Some i" "inode_get_nlink i = 0" for m i
    using ns_invD(4) [OF inv that] n(2) V [of m] by (cases "m = n") (auto simp: rel_option_iff)
  ultimately show ?thesis
    using inv vn assms(7) by (simp add: ns_inv_def)
qed

text \<open>A volatile inode goes, and with it the inode if it has no links.\<close>

lemma ns_inv_drop:
  assumes inv: "ns_inv I D V H r tot" and n: "V n = Some v" "I n = Some i" "inode_get_nlink i \<noteq> 0"
    and "refs_ok (V(n := None)) tot'"
  shows "ns_inv I D (V(n := None)) H r tot'"
proof -
  obtain as where as: "chain H as None (Some r)" "distinct as" and reg: "registered (set as) I V H"
    using ns_invD(7) [OF inv] by (auto simp: orphans_ok_def)
  have "registered (set as) I (V(n := None)) H"
  proof (rule registeredI)
    show "fst pos \<in> set as \<and> slot_at H pos = Some m" if "(V(n := None)) m = Some w" "v_orphaned w = Some pos" for m w pos
      using registeredD(1) [OF reg, of m w pos] that by (auto split: if_splits)
    show "\<exists>w j. (V(n := None)) m = Some w \<and> v_orphaned w = Some (a, k) \<and> I m = Some j \<and> inode_get_nlink j = 0"
      if "a \<in> set as" "slot_at H (a, k) = Some m" for a k m
      using registeredD(2) [OF reg that] n(2,3) by (cases "m = n") auto
  qed
  then have "orphans_ok I (V(n := None)) H r"
    using as by (auto simp: orphans_ok_def)
  then show ?thesis
    using inv assms(5) n(2,3) unfolding ns_inv_def by (auto split: if_splits)
qed

lemma dirent_live: "dirent_ok I d \<Longrightarrow> I n = Some i \<Longrightarrow> inode_get_nlink i = 0 \<Longrightarrow> n \<noteq> 0 \<Longrightarrow> d_inode d \<noteq> n"
  by (auto simp: dirent_ok_def)

lemma ns_inv_free:
  assumes inv: "ns_inv I D V H r tot" and n: "V n = Some v" "I n = Some i" "inode_get_nlink i = 0"
    and refs: "refs_ok (V(n := None)) tot'" and kids: "kids V n = {}"
  obtains a k t where "v_orphaned v = Some (a, k)" and "inode_array_unregister a k (tx_begin H) = Some t"
    and "ns_inv (I(n := None)) D (V(n := None)) (tx_commit t) r tot'"
proof -
  obtain as where as: "chain H as None (Some r)" "distinct as" and reg: "registered (set as) I V H"
    using ns_invD(7) [OF inv] by (auto simp: orphans_ok_def)
  have n0: "n \<noteq> 0"
    using n(2) ns_invD(2) [OF inv] by (metis option.distinct(1))
  have "v_orphaned v \<noteq> None"
    using ns_invD(6) [OF inv n(1)] n(2,3) by (auto simp: vnode_ok_def)
  then obtain a k where ak: "v_orphaned v = Some (a, k)" "a \<in> set as" "slot_at H (a, k) = Some n"
    using registeredD(1) [OF reg n(1)] by fastforce
  obtain t where t: "inode_array_unregister a k (tx_begin H) = Some t"
    "slot_at (tx_commit t) = (slot_at H)((a, k) := None)" "chain (tx_commit t) as None (Some r)"
    using inode_array_unregister_ok [OF as(1) ak(2,3)] by blast
  let ?I = "I(n := None)" and ?V = "V(n := None)"
  have "registered (set as) ?I ?V (tx_commit t)"
  proof (rule registeredI)
    show "fst pos \<in> set as \<and> slot_at (tx_commit t) pos = Some m" if "?V m = Some w" "v_orphaned w = Some pos" for m w pos
      using registeredD(1) [OF reg, of m w pos] that ak(3) t(2) by (auto split: if_splits)
    show "\<exists>w j. ?V m = Some w \<and> v_orphaned w = Some (b, l) \<and> ?I m = Some j \<and> inode_get_nlink j = 0"
      if "b \<in> set as" "slot_at (tx_commit t) (b, l) = Some m" for b l m
    proof -
      have s: "slot_at H (b, l) = Some m" "(b, l) \<noteq> (a, k)"
        using that(2) t(2) by (auto split: if_splits)
      show ?thesis
        using registeredD(2) [OF reg that(1) s(1)] n(1) ak(1) s(2) by (cases "m = n") auto
    qed
  qed
  then have "orphans_ok ?I ?V (tx_commit t) r"
    using as(2) t(3) by (auto simp: orphans_ok_def)
  moreover have "dir_ok ?I D m j" if m: "?I m = Some j" "inode_is_dir j" for m j
  proof -
    have d: "dir_ok I D m j"
      using ns_invD(5) [OF inv] m by (auto split: if_splits)
    have live: "dirent_ok ?I e" if "e \<in> set (concat (D m))" for e
      using d that dirent_live [of I e n i] n(2,3) n0 by (auto simp: dir_ok_def dirent_ok_def)
    show ?thesis
      using d live unfolding dir_ok_def by (auto split: if_splits)
  qed
  moreover have "vnode_ok ?I D m w" if m: "?V m = Some w" for m w
  proof -
    have w: "V m = Some w" "m \<noteq> n"
      using m by (auto split: if_splits)
    then have "v_parent w \<noteq> Some n"
      using kids by (auto simp: kids_def)
    then show ?thesis
      using ns_invD(6) [OF inv w(1)] w(2) by (auto simp: vnode_ok_def split: option.splits)
  qed
  moreover have "inode_ok j \<and> (inode_get_nlink j = 0 \<longrightarrow> ?V m \<noteq> None)" if "?I m = Some j" for m j
    using ns_invD(3,4) [OF inv, of m j] that by (auto split: if_splits)
  ultimately have "ns_inv ?I D ?V (tx_commit t) r tot'"
    using refs ns_invD(2) [OF inv] by (simp add: ns_inv_def)
  then show ?thesis
    by (rule that [OF ak(1) t(1)])
qed

section \<open>References to volatile inodes\<close>

lemma upd_vnode_simps [simp]:
  "p_vinodes (upd_vnode n f p) = (p_vinodes p)(n := map_option f (p_vinodes p n))"
  "p_inodes (upd_vnode n f p) = p_inodes p" "p_dir (upd_vnode n f p) = p_dir p" "p_symlink (upd_vnode n f p) = p_symlink p"
  "p_arr (upd_vnode n f p) = p_arr p" "p_orphaned (upd_vnode n f p) = p_orphaned p" "p_root (upd_vnode n f p) = p_root p"
  "p_cwd (upd_vnode n f p) = p_cwd p" "p_mem (upd_vnode n f p) = p_mem p" "p_cred (upd_vnode n f p) = p_cred p"
  "p_space (upd_vnode n f p) = p_space p" "p_new_inode (upd_vnode n f p) = p_new_inode p" "p_umask (upd_vnode n f p) = p_umask p"
  "p_new_array (upd_vnode n f p) = p_new_array p" "p_conf (upd_vnode n f p) = p_conf p" "p_over (upd_vnode n f p) = p_over p"
  "p_store (upd_vnode n f p) = p_store p"
  by (simp_all add: upd_vnode_def)

lemma upd_inode_simps [simp]:
  "p_inodes (upd_inode n f p) = (p_inodes p)(n := map_option f (p_inodes p n))"
  "p_vinodes (upd_inode n f p) = p_vinodes p" "p_dir (upd_inode n f p) = p_dir p" "p_symlink (upd_inode n f p) = p_symlink p"
  "p_arr (upd_inode n f p) = p_arr p" "p_orphaned (upd_inode n f p) = p_orphaned p" "p_root (upd_inode n f p) = p_root p"
  "p_cwd (upd_inode n f p) = p_cwd p" "p_mem (upd_inode n f p) = p_mem p" "p_cred (upd_inode n f p) = p_cred p"
  "p_space (upd_inode n f p) = p_space p" "p_new_inode (upd_inode n f p) = p_new_inode p" "p_umask (upd_inode n f p) = p_umask p"
  "p_new_array (upd_inode n f p) = p_new_array p" "p_conf (upd_inode n f p) = p_conf p" "p_over (upd_inode n f p) = p_over p"
  "p_store (upd_inode n f p) = p_store p"
  by (simp_all add: upd_inode_def)

lemma calm_refl [simp]: "calm p p"
  by (simp add: calm_def)

lemma calm_env:
  assumes "calm p q"
  shows "p_dir q = p_dir p" "p_symlink q = p_symlink p" "p_root q = p_root p" "p_cwd q = p_cwd p"
    "p_orphaned q = p_orphaned p" "p_umask q = p_umask p" "p_cred q = p_cred p" "p_space q = p_space p"
    "p_new_inode q = p_new_inode p" "p_new_array q = p_new_array p" "p_conf q = p_conf p" "p_over q = p_over p"
    "p_store q = p_store p" "pool_refs q = pool_refs p"
  using assms by (simp_all add: calm_def pool_refs_def fun_eq_iff)

lemma calm_inode:
  assumes "calm p q"
  shows "p_inodes p n = None \<Longrightarrow> p_inodes q n = None"
    and "p_inodes p n = Some i \<Longrightarrow>
      p_inodes q n = None \<and> inode_get_nlink i = 0 \<or> (\<exists>j. p_inodes q n = Some j \<and> same_inode i j)"
  using assms unfolding calm_def by blast+

lemma calmI:
  assumes "p_dir q = p_dir p" "p_symlink q = p_symlink p" "p_root q = p_root p" "p_cwd q = p_cwd p"
    "p_orphaned q = p_orphaned p" "p_umask q = p_umask p" "p_cred q = p_cred p" "p_space q = p_space p"
    "p_new_inode q = p_new_inode p" "p_new_array q = p_new_array p" "p_conf q = p_conf p" "p_over q = p_over p"
    "p_store q = p_store p"
    and "\<And>n. p_inodes p n = None \<Longrightarrow> p_inodes q n = None"
    and "\<And>n i. p_inodes p n = Some i \<Longrightarrow>
      p_inodes q n = None \<and> inode_get_nlink i = 0 \<or> (\<exists>j. p_inodes q n = Some j \<and> same_inode i j)"
  shows "calm p q"
  using assms unfolding calm_def by blast

lemma calm_trans:
  assumes "calm p q" and "calm q r"
  shows "calm p r"
proof (rule calmI)
  fix n i
  assume i: "p_inodes p n = Some i"
  show "p_inodes r n = None \<and> inode_get_nlink i = 0 \<or> (\<exists>j. p_inodes r n = Some j \<and> same_inode i j)"
  proof (cases "p_inodes q n")
    case None
    then show ?thesis
      using calm_inode(2) [OF assms(1) i] calm_inode(1) [OF assms(2)] by auto
  next
    case (Some j)
    then have j: "same_inode i j"
      using calm_inode(2) [OF assms(1) i] by auto
    show ?thesis
      using calm_inode(2) [OF assms(2) Some] same_inode_trans [OF j] same_inode_simps(1) [OF j] by auto
  qed
qed (use assms calm_env [OF assms(1)] calm_env [OF assms(2)] calm_inode(1) [OF assms(1)] calm_inode(1) [OF assms(2)] in simp_all)

lemma rel_option_refl [simp]: "(\<And>a. R a a) \<Longrightarrow> rel_option R x x"
  by (cases x) auto

lemma vinode_ref_ok:
  assumes "pool_inv p tot" and "p_vinodes p n = Some v"
  obtains p' where "vinode_ref p (Some n) = Some (n, p')" and "pool_inv p' (tot(n := Suc (tot n)))" and "calm p p'"
    and "p_mem p' = p_mem p"
proof -
  let ?p = "upd_vnode n (\<lambda>v. v\<lparr>v_ref := v_ref v + 1\<rparr>) p"
  have "ns_inv (p_inodes p) (p_dir p) ((p_vinodes p)(n \<mapsto> v\<lparr>v_ref := Suc (v_ref v)\<rparr>)) (ia_heap (p_arr p)) (p_orphaned p)
      (tot(n := Suc (tot n)))"
    by (rule ns_inv_same [OF assms(1) [unfolded pool_inv_def]])
      (use assms refs_inc [OF ns_invD(1) [OF assms(1) [unfolded pool_inv_def]] assms(2)] in \<open>auto simp: same_vnode_def\<close>)
  then show ?thesis
    using that [of ?p] assms(2) by (simp add: vinode_ref_def pool_inv_def calm_def)
qed

lemma inode_ref_ok:
  assumes inv: "pool_inv p tot" and i: "p_inodes p n = Some i"
    and parent: "p_vinodes p n = None \<Longrightarrow> inode_is_dir i \<Longrightarrow>
      \<exists>q w j. parent = Some q \<and> p_vinodes p q = Some w \<and> p_inodes p q = Some j \<and> inode_is_dir j \<and> dots n q (p_dir p n)"
  obtains (fails) p' where "inode_ref p n parent = Some (Inl ENOMEM, p')" and "p_mem p \<noteq> []" and "pool_inv p' tot" and "calm p p'"
  | (works) p' where "inode_ref p n parent = Some (Inr n, p')" and "pool_inv p' (tot(n := Suc (tot n)))" and "calm p p'"
    and "p_mem p = [] \<longrightarrow> p_mem p' = []" and "p_vinodes p' n \<noteq> None"
proof -
  note ns = inv [unfolded pool_inv_def]
  have ok: "inode_ok i"
    by (rule ns_invD(3) [OF ns i])
  show ?thesis
  proof (cases "p_vinodes p n")
    case (Some v)
    obtain p' where p': "vinode_ref p (Some n) = Some (n, p')" "pool_inv p' (tot(n := Suc (tot n)))" "calm p p'" "p_mem p' = p_mem p"
      by (rule vinode_ref_ok [OF inv Some]) (rule that)
    then have "inode_ref p n parent = Some (Inr n, p')"
      using i ok Some by (auto simp: inode_ref_def vinode_ref_def inode_ok_def)
    moreover have "p_vinodes p' n \<noteq> None"
      using p'(1) Some by (auto simp: vinode_ref_def)
    ultimately show ?thesis
      using works p' by simp
  next
    case None
    obtain okm mem where mem: "pf_calloc (p_mem p) = (okm, mem)"
      by fastforce
    let ?p1 = "p\<lparr>p_mem := mem\<rparr>"
    show ?thesis
    proof (cases okm)
      case False
      then have "inode_ref p n parent = Some (Inl ENOMEM, ?p1)"
        using i ok None mem by (simp add: inode_ref_def inode_ok_def)
      moreover have "p_mem p \<noteq> []"
        using False mem by auto
      ultimately show ?thesis
        using fails inv by (simp add: pool_inv_def calm_def)
    next
      case True
      have m: "p_mem p = [] \<longrightarrow> mem = []"
        using mem by auto
      have nl: "inode_get_nlink i \<noteq> 0"
        using ns_invD(4) [OF ns i] None by auto
      let ?v = "\<lparr>v_ref = 1, v_parent = None, v_orphaned = None, v_atime = inode_get_atime i, v_atime_dirty = False\<rparr>"
      show ?thesis
      proof (cases "inode_is_dir i")
        case False
        let ?p2 = "?p1\<lparr>p_vinodes := (p_vinodes p)(n \<mapsto> ?v)\<rparr>"
        have "inode_ref p n parent = Some (Inr n, ?p2)"
          using i ok None mem True False by (simp add: inode_ref_def inode_ok_def)
        moreover have "ns_inv (p_inodes p) (p_dir p) ((p_vinodes p)(n \<mapsto> ?v)) (ia_heap (p_arr p)) (p_orphaned p) (tot(n := 1))"
          by (rule ns_inv_new [OF ns None])
            (use i False nl refs_new [OF ns_invD(1) [OF ns] None, of ?v] in \<open>auto simp: vnode_ok_def\<close>)
        moreover have "tot n = 0"
          by (rule refs_okD(2) [OF ns_invD(1) [OF ns] None])
        ultimately show ?thesis
          using works [of ?p2] m by (simp add: pool_inv_def calm_def)
      next
        case dir: True
        obtain q w j where q: "parent = Some q" "p_vinodes p q = Some w" "p_inodes p q = Some j" "inode_is_dir j" "dots n q (p_dir p n)"
          using parent [OF None dir] by blast
        have ne: "q \<noteq> n"
          using q(2) None by auto
        let ?v = "\<lparr>v_ref = 1, v_parent = Some q, v_orphaned = None, v_atime = inode_get_atime i, v_atime_dirty = False\<rparr>"
        let ?vs = "(p_vinodes p)(n \<mapsto> ?v, q \<mapsto> w\<lparr>v_ref := Suc (v_ref w)\<rparr>)"
        let ?p2 = "upd_vnode q (\<lambda>v. v\<lparr>v_ref := v_ref v + 1\<rparr>) (?p1\<lparr>p_vinodes := (p_vinodes p)(n \<mapsto> ?v)\<rparr>)"
        have "inode_ref p n parent = Some (Inr n, ?p2)"
          using i ok None mem True dir q ne by (simp add: inode_ref_def inode_ok_def vinode_ref_def)
        moreover have "ns_inv (p_inodes p) (p_dir p) ?vs (ia_heap (p_arr p)) (p_orphaned p) (tot(n := 1))"
          by (rule ns_inv_new [OF ns None, of _ ?v])
            (use i dir nl ne q refs_new_child [OF ns_invD(1) [OF ns] None, of ?v q w] in
              \<open>auto simp: vnode_ok_def same_vnode_def\<close>)
        moreover have "tot n = 0"
          by (rule refs_okD(2) [OF ns_invD(1) [OF ns] None])
        ultimately show ?thesis
          using works [of ?p2] m q(2) ne by (simp add: pool_inv_def calm_def)
      qed
    qed
  qed
qed

text \<open>
  Dropping a reference. The chain of parents ends: each volatile inode that goes makes the map smaller.
\<close>

lemma last_unref_ok:
  assumes inv: "pool_inv p tot" and v: "p_vinodes p n = Some v" "v_ref v = 1" and tot: "0 < tot n"
    and p1: "p1 = upd_vnode n (\<lambda>v. v\<lparr>v_ref := 0\<rparr>) p"
  obtains p2 where "last_unref p1 n v = Some p2" and "calm p p2" and "p_mem p2 = p_mem p"
    and "p_vinodes p2 = p_vinodes p1"
    and "\<And>f. pool_inv (p2\<lparr>p_vinodes := (p_vinodes p2)(n := None), p_file := f\<rparr>) (dropped tot n (v_parent v))"
proof -
  note ns = inv [unfolded pool_inv_def]
  note drop = refs_drop [OF ns_invD(1) [OF ns] v tot]
  obtain i where i: "p_inodes p n = Some i"
    using ns_inv_inode [OF ns v(1)] by blast
  have ok: "inode_ok i"
    by (rule ns_invD(3) [OF ns i])
  have vs: "(p_vinodes p1)(n := None) = (p_vinodes p)(n := None)"
    by (simp add: p1 fun_eq_iff)
  show ?thesis
  proof (cases "inode_get_nlink i = 0")
    case True
    obtain a k t where t: "v_orphaned v = Some (a, k)" "inode_array_unregister a k (tx_begin (ia_heap (p_arr p))) = Some t"
      and free: "ns_inv ((p_inodes p)(n := None)) (p_dir p) ((p_vinodes p)(n := None)) (tx_commit t) (p_orphaned p) (dropped tot n (v_parent v))"
      by (rule ns_inv_free [OF ns v(1) i True drop]) (rule that)
    let ?p2 = "p1\<lparr>p_arr := tx_begin (tx_commit t), p_inodes := (p_inodes p)(n := None)\<rparr>"
    have empty: "inode_is_dir i \<Longrightarrow> \<forall>d \<in> set (concat (p_dir p n)). d_inode d = 0"
      using ns_invD(5) [OF ns i] True by (auto simp: dir_ok_def)
    have "last_unref p1 n v = Some ?p2"
      using i ok True t empty by (auto simp: p1 last_unref_def inode_ok_def vinode_free_pmem_def inode_free_def)
    moreover have "calm p ?p2"
      using i True by (auto simp: p1 calm_def)
    moreover have "pool_inv (?p2\<lparr>p_vinodes := (p_vinodes ?p2)(n := None), p_file := f\<rparr>) (dropped tot n (v_parent v))" for f
      using free vs by (simp add: pool_inv_def p1 tx_begin_def)
    ultimately show ?thesis
      using that [of ?p2] by (simp add: p1)
  next
    case False
    let ?at = "\<lambda>i. let atime_slot = inode_next_atime_slot i in
           i\<lparr>i_atime := (i_atime i)(atime_slot := v_atime v), slots := (slots i)\<lparr>sl_atime := atime_slot\<rparr>\<rparr>"
    let ?p2 = "if v_atime_dirty v then upd_inode n ?at p1 else p1"
    have same: "same_inode i (?at i)"
      by (auto simp: same_inode_def Let_def)
    have "last_unref p1 n v = Some ?p2"
      using i ok False by (simp add: p1 last_unref_def inode_ok_def)
    moreover have "calm p ?p2"
      using i same by (auto simp: p1 calm_def)
    moreover have "ns_inv (p_inodes ?p2) (p_dir p) ((p_vinodes p)(n := None)) (ia_heap (p_arr p)) (p_orphaned p) (dropped tot n (v_parent v))"
      by (rule ns_inv_same [OF ns_inv_drop [OF ns v(1) i False drop(1)] _ _ drop(1)])
        (use i same_inode_alike [OF same] in \<open>auto simp: p1\<close>)
    ultimately show ?thesis
      using that [of ?p2] vs by (cases "v_atime_dirty v") (simp_all add: pool_inv_def p1)
  qed
qed

lemma vinode_unref_ok:
  assumes "pool_inv p tot" and "0 < tot n"
  obtains p' where "vinode_unref p (Some n) = Some p'" and "pool_inv p' (tot(n := tot n - 1))" and "calm p p'"
    and "p_mem p' = p_mem p"
  using assms
proof (induction "card (dom (p_vinodes p))" arbitrary: p tot n thesis rule: less_induct)
  case less
  note ns = less.prems(2) [unfolded pool_inv_def]
  obtain v where v: "p_vinodes p n = Some v"
    using refs_okD(2) [OF ns_invD(1) [OF ns], of n] less.prems(3) by (cases "p_vinodes p n") auto
  have pos: "0 < v_ref v"
    by (rule refs_okD(4) [OF ns_invD(1) [OF ns] v])
  let ?p1 = "upd_vnode n (\<lambda>v'. v'\<lparr>v_ref := v_ref v - 1\<rparr>) p"
  show ?case
  proof (cases "v_ref v = 1")
    case False
    then have r: "vinode_unref p (Some n) = Some ?p1"
      using v pos by (subst vinode_unref.simps) (simp add: Let_def)
    have "ns_inv (p_inodes p) (p_dir p) ((p_vinodes p)(n \<mapsto> v\<lparr>v_ref := v_ref v - 1\<rparr>)) (ia_heap (p_arr p)) (p_orphaned p)
        (tot(n := tot n - 1))"
      by (rule ns_inv_same [OF ns])
        (use v pos False less.prems(3) refs_dec [OF ns_invD(1) [OF ns] v] in \<open>auto simp: same_vnode_def\<close>)
    then show ?thesis
      using less.prems(1) [OF r] v by (simp add: pool_inv_def calm_def)
  next
    case True
    let ?q = "if v_parent v \<noteq> Some n then v_parent v else None"
    let ?p3 = "\<lambda>p2. p2\<lparr>p_vinodes := (p_vinodes p2)(n := None), p_file := (p_file p2)(n := drop_cached (p_file p2 n))\<rparr>"
    obtain p2 where p2: "last_unref ?p1 n v = Some p2" "calm p p2" "p_mem p2 = p_mem p" "p_vinodes p2 = p_vinodes ?p1"
      and inv: "\<And>f. pool_inv (p2\<lparr>p_vinodes := (p_vinodes p2)(n := None), p_file := f\<rparr>) (dropped tot n (v_parent v))"
      by (rule last_unref_ok [OF less.prems(2) v True less.prems(3), of ?p1]) (use True in simp, rule that)
    have step: "vinode_unref p (Some n) = vinode_unref (?p3 p2) ?q"
      using v True p2(1) by (subst vinode_unref.simps) (simp add: Let_def)
    have calm3: "calm p (?p3 p2)" "p_mem (?p3 p2) = p_mem p"
      using p2(2,3) by (simp_all add: calm_def)
    have one: "tot n = 1"
      using refs_okD(5) [OF ns_invD(1) [OF ns] v] refs_drop(2) [OF ns_invD(1) [OF ns] v True less.prems(3)] True by simp
    show ?thesis
    proof (cases ?q)
      case None
      then have "dropped tot n (v_parent v) = tot(n := tot n - 1)"
        using one by (auto simp: dropped_def split: if_splits)
      moreover have "vinode_unref p (Some n) = Some (?p3 p2)"
        using step None by (simp add: vinode_unref.simps)
      ultimately show ?thesis
        using less.prems(1) inv calm3 by metis
    next
      case (Some q)
      then have q: "v_parent v = Some q" "q \<noteq> n"
        by (auto split: if_splits)
      have smaller: "card (dom (p_vinodes (?p3 p2))) < card (dom (p_vinodes p))"
        using v refs_okD(1) [OF ns_invD(1) [OF ns]] by (intro psubset_card_mono) (auto simp: p2(4))
      obtain p' where p': "vinode_unref (?p3 p2) (Some q) = Some p'" "calm (?p3 p2) p'" "p_mem p' = p_mem (?p3 p2)"
        "pool_inv p' ((dropped tot n (v_parent v))(q := dropped tot n (v_parent v) q - 1))"
        by (rule less.hyps [OF smaller _ inv, of q]) (use q in \<open>auto simp: dropped_def\<close>)
      moreover have "(dropped tot n (v_parent v))(q := dropped tot n (v_parent v) q - 1) = tot(n := tot n - 1)"
        using q one by (auto simp: dropped_def)
      ultimately show ?thesis
        using less.prems(1) [of p'] step Some calm3 calm_trans [OF calm3(1)] by simp
    qed
  qed
qed

end
