(* ===== verification/Dir_Correct.thy ===== *)
theory Dir_Correct
  imports Pool_Inv
begin

text \<open>
  Directory entries: the lookups find the entry with a name, and adding an entry makes the name lead to the child.
\<close>

section \<open>Searching a directory\<close>

definition ptr_ok :: "pmemfile_dirent list list \<Rightarrow> dirent_ptr \<Rightarrow> bool" where
  "ptr_ok ds = (\<lambda>(b, i). b < length ds \<and> i < length (ds ! b))"

lemma find_in_batch_spec:
  "find_in_batch test b k ds =
     (case find test ds of None \<Rightarrow> None | Some d \<Rightarrow> Some (b, k + length (takeWhile (\<lambda>d. \<not> test d) ds)))"
  by (induction ds arbitrary: k) (auto split: option.splits)

lemma find_takeWhile: "find test ds = Some d \<Longrightarrow> length (takeWhile (\<lambda>d. \<not> test d) ds) < length ds \<and> ds ! length (takeWhile (\<lambda>d. \<not> test d) ds) = d \<and> test d"
  by (induction ds) (auto split: if_splits)

lemma find_dirent_spec:
  "(case find_dirent test b ds of
      None \<Rightarrow> find test (concat ds) = None
    | Some (c, i) \<Rightarrow> b \<le> c \<and> ptr_ok ds (c - b, i) \<and> find test (concat ds) = Some (ds ! (c - b) ! i) \<and> test (ds ! (c - b) ! i))"
proof (induction ds arbitrary: b)
  case (Cons d ds)
  show ?case
  proof (cases "find test d")
    case None
    then show ?thesis
      using Cons.IH [of "Suc b"]
      by (auto simp: find_in_batch_spec find_append Suc_diff_le ptr_ok_def split: option.splits prod.splits)
  next
    case (Some e)
    then show ?thesis
      using find_takeWhile [OF Some] by (auto simp: find_in_batch_spec find_append ptr_ok_def)
  qed
qed simp

lemma find_dirent_Some:
  assumes "find_dirent test 0 ds = Some ptr"
  shows "ptr_ok ds ptr" and "find test (concat ds) = Some (ds ! fst ptr ! snd ptr)" and "test (ds ! fst ptr ! snd ptr)"
  using find_dirent_spec [where test = test and b = 0 and ds = ds] assms by (auto split: prod.splits)

lemma find_dirent_None: "find_dirent test 0 ds = None \<longleftrightarrow> find test (concat ds) = None"
  using find_dirent_spec [where test = test and b = 0 and ds = ds] by (auto split: option.splits)

lemma find_cong_set: "(\<And>x. x \<in> set xs \<Longrightarrow> P x = Q x) \<Longrightarrow> find P xs = find Q xs"
  by (induction xs) auto

section \<open>Lookup by name\<close>

lemma lookup_by_name_ok:
  assumes inv: "pool_inv p tot" and i: "p_inodes p dir = Some i"
    and name: "CHR 0x00 \<notin> set name" "namelen \<le> length name"
  shows "if \<not> inode_is_dir i then vinode_lookup_dirent_by_name_locked p dir name namelen = Some (Inl ENOTDIR)
    else if namelen > PMEMFILE_MAX_FILE_NAME
    then vinode_lookup_dirent_by_name_locked p dir name namelen = Some (Inl ENAMETOOLONG)
    else
      (case entry (p_dir p dir) (take namelen name) of
         None \<Rightarrow> vinode_lookup_dirent_by_name_locked p dir name namelen = Some (Inl ENOENT)
       | Some n \<Rightarrow> \<exists>ptr. vinode_lookup_dirent_by_name_locked p dir name namelen = Some (Inr ptr) \<and>
           ptr_ok (p_dir p dir) ptr \<and> dirent_at p dir ptr = \<lparr>d_inode = n, d_name = take namelen name\<rparr>)"
proof (cases "inode_is_dir i \<and> namelen \<le> PMEMFILE_MAX_FILE_NAME")
  case True
  let ?test = "\<lambda>d. str_compare (d_name d) name namelen = 0"
  have "dir_ok (p_inodes p) (p_dir p) dir i"
    using ns_invD(5) [OF inv [unfolded pool_inv_def] i] True by blast
  then have cmp: "?test d \<longleftrightarrow> d_name d = take namelen name" if "d \<in> set (concat (p_dir p dir))" for d
    using that str_compare_zero [OF _ name] by (auto simp: dir_ok_def dirent_ok_def)
  have eq: "find ?test (concat (p_dir p dir)) = find (\<lambda>d. d_name d = take namelen name) (concat (p_dir p dir))"
    by (rule find_cong_set) (rule cmp)
  show ?thesis
  proof (cases "find_dirent ?test 0 (p_dir p dir)")
    case None
    then show ?thesis
      using True i eq find_dirent_None [of ?test "p_dir p dir"]
      by (simp add: vinode_lookup_dirent_by_name_locked_def entry_def)
  next
    case (Some ptr)
    note f = find_dirent_Some [OF Some]
    let ?d = "p_dir p dir ! fst ptr ! snd ptr"
    have "d_name ?d = take namelen name"
      using f(2) eq by (auto simp: find_Some_iff)
    then show ?thesis
      unfolding entry_def eq [symmetric] f(2) using True i Some f(1)
      by (auto simp: vinode_lookup_dirent_by_name_locked_def dirent_at_def split: prod.splits)
  qed
qed (use i in \<open>auto simp: vinode_lookup_dirent_by_name_locked_def\<close>)

text \<open>One step of a walk. \<open>None\<close> is the dereference of the null parent of a file that is no directory.\<close>

definition step_to :: "pool \<Rightarrow> bool \<Rightarrow> nat \<Rightarrow> string \<Rightarrow> (errno + nat) option" where
  "step_to p stop dir name =
     do {
       i \<leftarrow> p_inodes p dir;
       if name = [] then Some (Inl ENOENT)
       else if \<not> inode_is_dir i then (if name = ''..'' then None else Some (Inl ENOTDIR))
       else if length name > PMEMFILE_MAX_FILE_NAME then Some (Inl ENAMETOOLONG)
       else if stop \<and> name = ''..'' \<and> entry (p_dir p dir) ''..'' = Some dir then Some (Inl EXDEV)
       else Some (case entry (p_dir p dir) name of None \<Rightarrow> Inl ENOENT | Some n \<Rightarrow> Inr n)
     }"

definition stop_at_root :: "nat \<Rightarrow> bool" where
  "stop_at_root flags \<longleftrightarrow> flags AND PMEMFILE_OPEN_PARENT_STOP_AT_ROOT \<noteq> 0"

lemma entry_dots: "dots n q ds \<Longrightarrow> entry ds ''.'' = Some n \<and> entry ds ''..'' = Some q"
  by (auto simp: dots_def entry_def)

lemma entry_mem: "entry ds name = Some n \<Longrightarrow> \<exists>d \<in> set (concat ds). d_inode d = n \<and> d_name d = name"
  by (auto simp: entry_def find_Some_iff simp del: set_concat)

text \<open>What a name of a directory leads to.\<close>

lemma entry_ok:
  assumes inv: "pool_inv p tot" and i: "p_inodes p dir = Some i" "inode_is_dir i" and e: "entry (p_dir p dir) name = Some n"
    and "name \<noteq> []"
  shows "n \<noteq> 0" and "\<exists>j. p_inodes p n = Some j \<and> inode_get_nlink j \<noteq> 0" and "inode_get_nlink i \<noteq> 0"
    and "name = ''.'' \<Longrightarrow> n = dir"
    and "name \<noteq> ''.'' \<Longrightarrow> name \<noteq> ''..'' \<Longrightarrow> p_inodes p n = Some j \<Longrightarrow> inode_is_dir j \<Longrightarrow> dots n dir (p_dir p n)"
proof -
  have d: "dir_ok (p_inodes p) (p_dir p) dir i"
    by (rule ns_invD(5) [OF inv [unfolded pool_inv_def] i])
  obtain d where m: "d \<in> set (concat (p_dir p dir))" "d_inode d = n" "d_name d = name"
    using entry_mem [OF e] by blast
  show "n \<noteq> 0" and "\<exists>j. p_inodes p n = Some j \<and> inode_get_nlink j \<noteq> 0"
    using d m assms(5) by (auto simp: dir_ok_def dirent_ok_def)
  show nl: "inode_get_nlink i \<noteq> 0"
    using d m assms(5) by (auto simp: dir_ok_def dirent_ok_def split: if_splits)
  show "name = ''.'' \<Longrightarrow> n = dir"
    using d nl e entry_dots by (fastforce simp: dir_ok_def)
  show "name \<noteq> ''.'' \<Longrightarrow> name \<noteq> ''..'' \<Longrightarrow> p_inodes p n = Some j \<Longrightarrow> inode_is_dir j \<Longrightarrow> dots n dir (p_dir p n)"
    using d m by (auto simp: dir_ok_def)
qed

lemma vnode_dir:
  assumes inv: "pool_inv p tot" and v: "p_vinodes p dir = Some v" and i: "p_inodes p dir = Some i"
  shows "if inode_is_dir i then \<exists>q w j. v_parent v = Some q \<and> p_vinodes p q = Some w \<and> p_inodes p q = Some j \<and> inode_is_dir j \<and>
      (inode_get_nlink i \<noteq> 0 \<longrightarrow> dots dir q (p_dir p dir)) else v_parent v = None"
proof -
  note ns = inv [unfolded pool_inv_def]
  have "vnode_ok (p_inodes p) (p_dir p) dir v"
    by (rule ns_invD(6) [OF ns v])
  then show ?thesis
    using i refs_ok_parent [OF ns_invD(1) [OF ns] v] by (cases "v_parent v") (auto simp: vnode_ok_def)
qed

lemma lookup_vinode_ok:
  assumes inv: "pool_inv p tot" and mem: "p_mem p = []" and v: "p_vinodes p dir = Some v" and i: "p_inodes p dir = Some i" "inode_is_dir i"
    and name: "CHR 0x00 \<notin> set name" "0 < namelen" "namelen \<le> length name" "namelen \<le> PMEMFILE_MAX_FILE_NAME"
  shows "case entry (p_dir p dir) (take namelen name) of
      None \<Rightarrow> vinode_lookup_vinode_by_name_locked p dir name namelen = Some (\<lparr>di_vinode = Inl ENOENT, di_dirent = None\<rparr>, p)
    | Some n \<Rightarrow> \<exists>ptr p'. vinode_lookup_vinode_by_name_locked p dir name namelen = Some (\<lparr>di_vinode = Inr n, di_dirent = Some ptr\<rparr>, p') \<and>
        ptr_ok (p_dir p dir) ptr \<and> dirent_at p dir ptr = \<lparr>d_inode = n, d_name = take namelen name\<rparr> \<and>
        pool_inv p' (tot(n := Suc (tot n))) \<and> calm p p' \<and> p_mem p' = [] \<and> p_vinodes p' n \<noteq> None"
proof (cases "entry (p_dir p dir) (take namelen name)")
  case None
  then show ?thesis
    using lookup_by_name_ok [OF inv i(1) name(1,3)] i(2) name(4) by (simp add: vinode_lookup_vinode_by_name_locked_def)
next
  case (Some n)
  obtain ptr where ptr: "vinode_lookup_dirent_by_name_locked p dir name namelen = Some (Inr ptr)" "ptr_ok (p_dir p dir) ptr"
    "dirent_at p dir ptr = \<lparr>d_inode = n, d_name = take namelen name\<rparr>"
    using lookup_by_name_ok [OF inv i(1) name(1,3)] i(2) name(4) Some by auto
  have ne: "take namelen name \<noteq> []"
    using name(2,3) by (cases name) auto
  note e = entry_ok [OF inv i Some ne]
  obtain j where j: "p_inodes p n = Some j" "inode_get_nlink j \<noteq> 0"
    using e(2) by blast
  obtain q where q: "v_parent v = Some q" "p_vinodes p q \<noteq> None" "dots dir q (p_dir p dir)"
    using vnode_dir [OF inv v i(1)] i(2) e(3) by auto
  have parent: "\<exists>q w j. Some dir = Some q \<and> p_vinodes p q = Some w \<and> p_inodes p q = Some j \<and> inode_is_dir j \<and> dots n q (p_dir p n)"
    if "p_vinodes p n = None" "inode_is_dir j"
  proof -
    have "take namelen name \<noteq> ''.''"
      using that(1) v e(4) by auto
    moreover have "take namelen name \<noteq> ''..''"
      using that(1) q(2) entry_dots [OF q(3)] Some by auto
    ultimately show ?thesis
      using v i e(5) [OF _ _ j(1) that(2)] by blast
  qed
  show ?thesis
    by (rule inode_ref_ok [OF inv j(1), of "Some dir"]) (use parent Some ptr mem in \<open>auto simp: vinode_lookup_vinode_by_name_locked_def\<close>)
qed

lemma lookup_dirent_ok:
  assumes inv: "pool_inv p tot" and mem: "p_mem p = []" and v: "p_vinodes p dir = Some v"
    and i: "p_inodes p dir = Some i" "inode_get_nlink i \<noteq> 0"
    and name: "CHR 0x00 \<notin> set name" "namelen \<le> length name"
  shows "case step_to p (stop_at_root flags) dir (take namelen name) of
      None \<Rightarrow> vinode_lookup_dirent p dir name namelen flags = None
    | Some (Inl e) \<Rightarrow> vinode_lookup_dirent p dir name namelen flags = Some (Inl e, p)
    | Some (Inr n) \<Rightarrow> \<exists>p'. vinode_lookup_dirent p dir name namelen flags = Some (Inr n, p') \<and>
        pool_inv p' (tot(n := Suc (tot n))) \<and> calm p p' \<and> p_mem p' = [] \<and> p_vinodes p' n \<noteq> None"
proof (cases "namelen = 0")
  case True
  then show ?thesis
    using i by (simp add: step_to_def vinode_lookup_dirent_def)
next
  case False
  let ?name = "take namelen name"
  have ne: "?name \<noteq> []"
    using False name(2) by (cases name) auto
  have dd: "str_compare ''..'' name namelen = 0 \<longleftrightarrow> ?name = ''..''"
    using str_compare_zero [of "''..''" name namelen] name by auto
  have len: "length ?name = namelen"
    using name(2) by simp
  note vd = vnode_dir [OF inv v i(1)]
  show ?thesis
  proof (cases "inode_is_dir i")
    case nd: False
    then have "vinode_is_root p dir = Some False"
      using i v by (simp add: vinode_is_root_def)
    then show ?thesis
      using nd False ne dd vd v i lookup_by_name_ok [OF inv i(1) name]
      by (auto simp: step_to_def stop_at_root_def vinode_lookup_dirent_def vinode_ref_def vinode_lookup_vinode_by_name_locked_def)
  next
    case dir: True
    obtain q w where q: "v_parent v = Some q" "p_vinodes p q = Some w" "dots dir q (p_dir p dir)"
      using vd dir i(2) by auto
    have root: "vinode_is_root p dir = Some (q = dir)"
      using i v q(1) dir by (simp add: vinode_is_root_def)
    show ?thesis
    proof (cases "?name = ''..''")
      case True
      have l: "namelen \<le> PMEMFILE_MAX_FILE_NAME"
        using True len by (auto simp: PMEMFILE_MAX_FILE_NAME_def)
      obtain p' where p': "vinode_ref p (Some q) = Some (q, p')" "pool_inv p' (tot(q := Suc (tot q)))" "calm p p'" "p_mem p' = p_mem p"
        by (rule vinode_ref_ok [OF inv q(2)]) (rule that)
      have "p_vinodes p' q \<noteq> None"
        using p'(1) q(2) by (auto simp: vinode_ref_def)
      then show ?thesis
        using True False i dir ne dd root entry_dots [OF q(3)] p' q(1) v l mem len
        by (auto simp: step_to_def stop_at_root_def vinode_lookup_dirent_def)
    next
      case nn: False
      show ?thesis
      proof (cases "namelen \<le> PMEMFILE_MAX_FILE_NAME")
        case True
        show ?thesis
          using lookup_vinode_ok [OF inv mem v i(1) dir name(1) _ name(2) True] nn False i dir ne dd root True
          by (auto simp: step_to_def stop_at_root_def vinode_lookup_dirent_def split: option.splits)
      next
        case long: False
        then show ?thesis
          using lookup_by_name_ok [OF inv i(1) name] nn False i dir ne dd root len
          by (auto simp: step_to_def stop_at_root_def vinode_lookup_dirent_def vinode_lookup_vinode_by_name_locked_def)
      qed
    qed
  qed
qed

end
