(* ===== verification/Dir_Update.thy ===== *)
theory Dir_Update
  imports Dir_Correct
begin

text \<open>
  Changing a directory: one entry is replaced, and the invariant, the link counts and the lookups of other names follow.
\<close>

section \<open>Replacing an entry\<close>

definition put :: "pmemfile_dirent list list \<Rightarrow> dirent_ptr \<Rightarrow> pmemfile_dirent \<Rightarrow> pmemfile_dirent list list" where
  "put ds ptr d = ds[fst ptr := (ds ! fst ptr)[snd ptr := d]]"

lemma set_dirent_put: "set_dirent dir ptr d p = p\<lparr>p_dir := (p_dir p)(dir := put (p_dir p dir) ptr d)\<rparr>"
  by (simp add: set_dirent_def put_def split: prod.splits)

text \<open>The index of an entry in the list of all entries.\<close>

definition flat :: "pmemfile_dirent list list \<Rightarrow> dirent_ptr \<Rightarrow> nat" where
  "flat ds ptr = length (concat (take (fst ptr) ds)) + snd ptr"

lemma concat_split:
  assumes "ptr_ok ds ptr"
  shows "concat ds = concat (take (fst ptr) ds) @ (ds ! fst ptr) @ concat (drop (Suc (fst ptr)) ds)"
    and "snd ptr < length (ds ! fst ptr)"
  using assms id_take_nth_drop [of "fst ptr" ds] by (auto simp: ptr_ok_def split: prod.splits) (metis concat.simps(2) concat_append)

lemma flat_ok:
  assumes "ptr_ok ds ptr"
  shows "flat ds ptr < length (concat ds)" and "concat ds ! flat ds ptr = ds ! fst ptr ! snd ptr"
    and "concat (put ds ptr d) = (concat ds)[flat ds ptr := d]"
proof -
  note s = concat_split [OF assms]
  show "flat ds ptr < length (concat ds)"
    using s by (simp add: flat_def)
  show "concat ds ! flat ds ptr = ds ! fst ptr ! snd ptr"
    unfolding s(1) using s(2) by (simp add: flat_def nth_append)
  have "fst ptr < length ds"
    using assms by (auto simp: ptr_ok_def split: prod.splits)
  then have "concat (put ds ptr d) = concat (take (fst ptr) ds) @ (ds ! fst ptr)[snd ptr := d] @ concat (drop (Suc (fst ptr)) ds)"
    by (simp add: put_def upd_conv_take_nth_drop)
  then show "concat (put ds ptr d) = (concat ds)[flat ds ptr := d]"
    unfolding s(1) using s(2) by (simp add: flat_def list_update_append)
qed

lemma ptr_ok_put [simp]: "ptr_ok (put ds ptr d) ptr' = ptr_ok ds ptr'"
  by (cases "fst ptr < length ds") (auto simp: ptr_ok_def put_def nth_list_update split: prod.splits)

lemma find_update_other: "\<not> P (xs ! k) \<Longrightarrow> \<not> P x \<Longrightarrow> find P (xs[k := x]) = find P xs"
  by (induction xs arbitrary: k) (auto split: nat.splits)

lemma find_update_new: "k < length xs \<Longrightarrow> P x \<Longrightarrow> (\<And>y. y \<in> set xs \<Longrightarrow> \<not> P y) \<Longrightarrow> find P (xs[k := x]) = Some x"
  by (induction xs arbitrary: k) (auto split: nat.splits)

lemma entry_None: "entry ds name = None \<longleftrightarrow> (\<forall>d \<in> set (concat ds). d_name d \<noteq> name)"
  by (auto simp: entry_def find_None_iff)

lemma entry_put_other:
  assumes "ptr_ok ds ptr" and "d_name (ds ! fst ptr ! snd ptr) \<noteq> name" and "d_name d \<noteq> name"
  shows "entry (put ds ptr d) name = entry ds name"
  using assms find_update_other [of "\<lambda>d. d_name d = name" "concat ds" "flat ds ptr" d]
  by (simp add: entry_def flat_ok [OF assms(1)])

lemma entry_put_new:
  assumes "ptr_ok ds ptr" and "entry ds (d_name d) = None"
  shows "entry (put ds ptr d) (d_name d) = Some (d_inode d)"
proof -
  have "find (\<lambda>e. d_name e = d_name d) ((concat ds)[flat ds ptr := d]) = Some d"
    by (rule find_update_new [OF flat_ok(1) [OF assms(1)]]) (use assms(2) entry_None in blast)+
  then show ?thesis
    by (simp add: entry_def flat_ok(3) [OF assms(1)])
qed

lemma dots_put:
  assumes "dots n q ds" and "ptr_ok ds ptr" and "d_name (ds ! fst ptr ! snd ptr) \<noteq> ''.''" and "d_name (ds ! fst ptr ! snd ptr) \<noteq> ''..''"
  shows "dots n q (put ds ptr d)"
proof -
  obtain es rest where ds: "ds = (\<lparr>d_inode = n, d_name = ''.''\<rparr> # \<lparr>d_inode = q, d_name = ''..''\<rparr> # es) # rest"
    using assms(1) by (auto simp: dots_def)
  obtain b i where ptr: "ptr = (b, i)"
    by fastforce
  show ?thesis
  proof (cases b)
    case 0
    obtain k where "i = Suc (Suc k)"
      using assms(3,4) ds ptr 0 by (cases i; cases "i - 1") auto
    then show ?thesis
      using ds ptr 0 by (simp add: put_def dots_def)
  next
    case (Suc c)
    then show ?thesis
      using ds ptr by (simp add: put_def dots_def)
  qed
qed

lemma set_update_subset: "set (xs[k := x]) \<subseteq> insert x (set xs)"
  by (rule set_update_subset_insert)

text \<open>The names stay different when the new one was not there.\<close>

lemma distinct_names_update:
  assumes "distinct (filter (\<lambda>s. s \<noteq> []) (map d_name xs))" and "d_name d \<noteq> [] \<Longrightarrow> \<forall>e \<in> set xs. d_name e \<noteq> d_name d"
  shows "distinct (filter (\<lambda>s. s \<noteq> []) (map d_name (xs[k := d])))"
  using assms
proof (induction xs arbitrary: k)
  case (Cons e xs)
  have sub: "set (filter (\<lambda>s. s \<noteq> []) (map d_name (xs[j := d]))) \<subseteq> insert (d_name d) (set (map d_name xs)) - {[]}" for j
    using set_update_subset [of xs j d] by auto
  show ?case
  proof (cases k)
    case 0
    then show ?thesis
      using Cons.prems by (auto split: if_splits)
  next
    case (Suc j)
    have "distinct (filter (\<lambda>s. s \<noteq> []) (map d_name (xs[j := d])))"
      using Cons by (cases "d_name e = []") auto
    moreover have "d_name e \<notin> set (filter (\<lambda>s. s \<noteq> []) (map d_name (xs[j := d])))" if "d_name e \<noteq> []"
      using sub [of j] Cons.prems that by auto
    ultimately show ?thesis
      using Suc by simp
  qed
qed simp

lemma distinct_removed:
  assumes "distinct (filter (\<lambda>s. s \<noteq> []) (map d_name xs))" and "k < length xs" and "e \<in> set (xs[k := d])" and "d_name (xs ! k) \<noteq> []"
    and "e \<noteq> d"
  shows "d_name e \<noteq> d_name (xs ! k)"
  using assms
proof (induction xs arbitrary: k)
  case (Cons x xs)
  show ?case
  proof (cases k)
    case 0
    then have "d_name x \<notin> d_name ` set xs"
      using Cons.prems by (auto split: if_splits)
    then show ?thesis
      using Cons.prems 0 by (metis image_eqI list_update_code(2) nth_Cons_0 set_ConsD)
  next
    case (Suc m)
    have "xs ! m \<in> set xs"
      using Cons.prems Suc by simp
    then show ?thesis
      using Cons.IH [of m] Cons.prems Suc by (auto split: if_splits)
  qed
qed simp

section \<open>The invariant\<close>

lemma ns_inv_dir:
  assumes inv: "ns_inv I D V H r tot" and i: "I dir = Some i" "inode_is_dir i" "inode_get_nlink i \<noteq> 0"
    and dots: "\<And>q. dots dir q (D dir) \<Longrightarrow> dots dir q ds"
    and ents: "\<And>d. d \<in> set (concat ds) \<Longrightarrow> dirent_ok I d" "distinct (filter (\<lambda>s. s \<noteq> []) (map d_name (concat ds)))"
    and child: "\<And>d j. d \<in> set (concat ds) \<Longrightarrow> d_name d \<noteq> ''.'' \<Longrightarrow> d_name d \<noteq> ''..'' \<Longrightarrow> I (d_inode d) = Some j \<Longrightarrow> inode_is_dir j \<Longrightarrow>
      dots (d_inode d) dir (D (d_inode d))"
  shows "ns_inv I (D(dir := ds)) V H r tot"
proof -
  let ?D = "D(dir := ds)"
  have d: "dots m q (?D m)" if "dots m q (D m)" for m q
    using that dots by auto
  have ok: "dir_ok I ?D n j" if n: "I n = Some j" "inode_is_dir j" for n j
  proof (cases "n = dir")
    case True
    have "\<exists>q. dots dir q ds"
      using ns_invD(5) [OF inv i(1,2)] i(3) dots by (auto simp: dir_ok_def)
    then show ?thesis
      using True ents child d i n by (auto simp: dir_ok_def)
  next
    case False
    then show ?thesis
      using ns_invD(5) [OF inv n] d by (auto simp: dir_ok_def)
  qed
  have "vnode_ok I ?D n v" if "V n = Some v" for n v
    using ns_invD(6) [OF inv that] d [of n] by (cases "v_parent v") (auto simp: vnode_ok_def)
  then show ?thesis
    using inv ok by (simp add: ns_inv_def)
qed

lemma ns_inv_put:
  assumes inv: "ns_inv I D V H r tot" and i: "I dir = Some i" "inode_is_dir i" "inode_get_nlink i \<noteq> 0"
    and ptr: "ptr_ok (D dir) ptr" "d_name (D dir ! fst ptr ! snd ptr) \<noteq> ''.''" "d_name (D dir ! fst ptr ! snd ptr) \<noteq> ''..''"
    and d: "dirent_ok I d" "d_name d \<noteq> [] \<Longrightarrow> entry (D dir) (d_name d) = None"
    and child: "\<And>j. d_name d \<noteq> [] \<Longrightarrow> I (d_inode d) = Some j \<Longrightarrow> inode_is_dir j \<Longrightarrow> dots (d_inode d) dir (D (d_inode d))"
  shows "ns_inv I (D(dir := put (D dir) ptr d)) V H r tot"
proof (rule ns_inv_dir [OF inv i])
  have ok: "dir_ok I D dir i"
    by (rule ns_invD(5) [OF inv i(1,2)])
  have sub: "e = d \<or> e \<in> set (concat (D dir))" if "e \<in> set (concat (put (D dir) ptr d))" for e
    using that set_update_subset [of "concat (D dir)" "flat (D dir) ptr" d] by (auto simp: flat_ok(3) [OF ptr(1)])
  show "dots dir q (put (D dir) ptr d)" if "dots dir q (D dir)" for q
    by (rule dots_put [OF that ptr])
  show "dirent_ok I e" if "e \<in> set (concat (put (D dir) ptr d))" for e
    using sub [OF that] ok d(1) by (auto simp: dir_ok_def)
  show "distinct (filter (\<lambda>s. s \<noteq> []) (map d_name (concat (put (D dir) ptr d))))"
    unfolding flat_ok(3) [OF ptr(1)]
    by (rule distinct_names_update) (use ok d(2) entry_None in \<open>auto simp: dir_ok_def\<close>)
  show "dots (d_inode e) dir (D (d_inode e))"
    if e: "e \<in> set (concat (put (D dir) ptr d))" "d_name e \<noteq> ''.''" "d_name e \<noteq> ''..''" "I (d_inode e) = Some j" "inode_is_dir j" for e j
    using sub [OF e(1)]
  proof
    assume "e = d"
    then show ?thesis
      using child e(4,5) d(1) ns_invD(2) [OF inv] by (cases "d_name d = []") (auto simp: dirent_ok_def)
  next
    assume "e \<in> set (concat (D dir))"
    then show ?thesis
      using ok e by (auto simp: dir_ok_def)
  qed
qed

lemma free_dirent_simps [simp]: "d_name free_dirent = []" "d_inode free_dirent = 0"
  by (simp_all add: free_dirent_def)

lemma dirent_ok_free [simp]: "dirent_ok I free_dirent"
  by (simp add: dirent_ok_def free_dirent_def)

lemma ns_inv_block:
  assumes inv: "ns_inv I D V H r tot" and i: "I dir = Some i" "inode_is_dir i" "inode_get_nlink i \<noteq> 0"
  shows "ns_inv I (D(dir := D dir @ [replicate k free_dirent])) V H r tot"
proof (rule ns_inv_dir [OF inv i])
  have ok: "dir_ok I D dir i"
    by (rule ns_invD(5) [OF inv i(1,2)])
  have no: "I 0 = None"
    by (rule ns_invD(2) [OF inv])
  show "dots dir q (D dir @ [replicate k free_dirent])" if "dots dir q (D dir)" for q
    using that by (auto simp: dots_def)
  show "dirent_ok I e" if "e \<in> set (concat (D dir @ [replicate k free_dirent]))" for e
    using that ok by (auto simp: dir_ok_def split: if_splits)
  show "distinct (filter (\<lambda>s. s \<noteq> []) (map d_name (concat (D dir @ [replicate k free_dirent]))))"
    using ok by (simp add: dir_ok_def free_dirent_def)
  show "dots (d_inode e) dir (D (d_inode e))"
    if "e \<in> set (concat (D dir @ [replicate k free_dirent]))" "d_name e \<noteq> ''.''" "d_name e \<noteq> ''..''" "I (d_inode e) = Some j" "inode_is_dir j" for e j
    using that ok no by (auto simp: dir_ok_def free_dirent_def split: if_splits)
qed

section \<open>Link counts\<close>

text \<open>The entries of all directories that lead to an inode.\<close>

definition dirs :: "(nat \<Rightarrow> inode option) \<Rightarrow> nat set" where
  "dirs I = {d. \<exists>i. I d = Some i \<and> inode_is_dir i}"

definition links :: "(nat \<Rightarrow> inode option) \<Rightarrow> (nat \<Rightarrow> pmemfile_dirent list list) \<Rightarrow> nat \<Rightarrow> nat" where
  "links I D n = (\<Sum>d \<in> dirs I. count_list (map d_inode (concat (D d))) n)"

definition links_ok :: "(nat \<Rightarrow> inode option) \<Rightarrow> (nat \<Rightarrow> pmemfile_dirent list list) \<Rightarrow> bool" where
  "links_ok I D \<longleftrightarrow> finite (dom I) \<and> (\<forall>n i. I n = Some i \<longrightarrow> inode_get_nlink i = links I D n \<and> inode_get_nlink i < W64)"

lemma links_okI:
  assumes "finite (dom I)" and "\<And>n i. I n = Some i \<Longrightarrow> inode_get_nlink i = links I D n \<and> inode_get_nlink i < W64"
  shows "links_ok I D"
  using assms unfolding links_ok_def by blast

lemma links_okD:
  assumes "links_ok I D"
  shows "finite (dom I)" "I n = Some i \<Longrightarrow> inode_get_nlink i = links I D n" "I n = Some i \<Longrightarrow> inode_get_nlink i < W64"
  using assms unfolding links_ok_def by blast+

lemma finite_dirs: "finite (dom I) \<Longrightarrow> finite (dirs I)"
  by (rule finite_subset [of _ "dom I"]) (auto simp: dirs_def)

lemma count_update:
  "k < length xs \<Longrightarrow> count_list (xs[k := x]) n + (if xs ! k = n then 1 else 0) = count_list xs n + (if x = n then 1 else 0)"
proof (induction xs arbitrary: k)
  case (Cons y xs)
  show ?case
  proof (cases k)
    case (Suc m)
    then have "m < length xs"
      using Cons.prems by simp
    from Cons.IH [OF this] show ?thesis
      unfolding Suc list_update_code nth_Cons_Suc count_list.simps by (cases "y = n"; cases "x = n"; cases "xs ! m = n") simp_all
  qed simp
qed simp

lemma links_dir:
  assumes "finite (dom I)" and "dir \<in> dirs I"
    and "count_list (map d_inode (concat ds)) n + a = count_list (map d_inode (concat (D dir))) n + b"
  shows "links I (D(dir := ds)) n + a = links I D n + b"
proof -
  have "links I D' n = count_list (map d_inode (concat (D' dir))) n + (\<Sum>d \<in> dirs I - {dir}. count_list (map d_inode (concat (D' d))) n)" for D'
    unfolding links_def by (rule sum.remove [OF finite_dirs [OF assms(1)] assms(2)])
  from this [of D] this [of "D(dir := ds)"] show ?thesis
    using assms(3) by simp
qed

lemma links_put:
  assumes "finite (dom I)" and "dir \<in> dirs I" and ptr: "ptr_ok (D dir) ptr"
  shows "links I (D(dir := put (D dir) ptr d)) n + (if d_inode (D dir ! fst ptr ! snd ptr) = n then 1 else 0) =
    links I D n + (if d_inode d = n then 1 else 0)"
  using count_update [of "flat (D dir) ptr" "map d_inode (concat (D dir))" "d_inode d" n] flat_ok [OF ptr]
  by (intro links_dir [OF assms(1,2)]) (simp add: map_update)

lemma links_block:
  assumes "finite (dom I)" and "dir \<in> dirs I" and "n \<noteq> 0"
  shows "links I (D(dir := D dir @ [replicate k free_dirent])) n = links I D n"
proof -
  have "count_list (map d_inode (replicate k free_dirent)) n = 0"
    using assms(3) by (auto simp: count_list_0_iff free_dirent_def)
  then show ?thesis
    using links_dir [OF assms(1,2), of "D dir @ [replicate k free_dirent]" n 0 D 0] by simp
qed

lemma links_pos:
  assumes "finite (dom I)" and "I dir = Some i" "inode_is_dir i" and "d \<in> set (concat (D dir))"
  shows "0 < links I D (d_inode d)"
proof -
  have "0 < count_list (map d_inode (concat (D dir))) (d_inode d)"
    using assms(4) by (metis count_list_0_iff gr0I imageI list.set_map)
  then show ?thesis
    using sum.remove [OF finite_dirs [OF assms(1)], of dir "\<lambda>d'. count_list (map d_inode (concat (D d'))) (d_inode d)"] assms(2,3)
    by (auto simp: links_def dirs_def)
qed

lemma links_zero:
  assumes "links I D n = 0" and "finite (dom I)" and "I dir = Some i" "inode_is_dir i" and "d \<in> set (concat (D dir))"
  shows "d_inode d \<noteq> n"
  using links_pos [where D = D, OF assms(2-5)] assms(1) by auto

end
