(* ===== verification/Add_Dirent.thy ===== *)
theory Add_Dirent
  imports Dir_Update
begin

text \<open>Adding an entry to a directory (\<^verbatim>\<open>inode_add_dirent\<close>).\<close>

section \<open>The place of the new entry\<close>

lemma scan_batch_spec:
  "scan_batch name namelen b k found ds =
     (if \<exists>d \<in> set ds. str_compare (d_name d) name namelen = 0 then Inl EEXIST
      else Inr (case found of None \<Rightarrow> find_in_batch (\<lambda>d. d_name d = []) b k ds | Some ptr \<Rightarrow> Some ptr))"
  by (induction ds arbitrary: k found) (auto split: option.splits)

lemma scan_dir_spec:
  "scan_dir name namelen b found ds =
     (if \<exists>d \<in> set (concat ds). str_compare (d_name d) name namelen = 0 then Inl EEXIST
      else Inr (case found of None \<Rightarrow> find_dirent (\<lambda>d. d_name d = []) b ds | Some ptr \<Rightarrow> Some ptr))"
proof (induction ds arbitrary: b found)
  case (Cons d ds)
  show ?case
    by (cases "find_in_batch (\<lambda>d. d_name d = []) b 0 d") (auto simp: scan_batch_spec Cons.IH split: option.splits)
qed (simp split: option.splits)

lemma new_dir_block_eq: "new_dir_block = replicate 14 free_dirent"
  by (simp add: new_dir_block_def METADATA_BLOCK_SIZE_def SIZEOF_DIR_def SIZEOF_DIRENT_def PMEMFILE_MAX_FILE_NAME_def)

text \<open>What may change in an inode besides its number of links: times and size.\<close>

definition kin :: "inode \<Rightarrow> inode \<Rightarrow> bool" where
  "kin i j \<longleftrightarrow> i_version j = i_version i \<and> suspended_references j = suspended_references i \<and> i_uid j = i_uid i \<and> i_gid j = i_gid i \<and>
     inode_get_flags j = inode_get_flags i"

lemma kin_trans: "kin i j \<Longrightarrow> kin j k \<Longrightarrow> kin i k"
  by (simp add: kin_def)

lemma kin_type:
  assumes "kin i j"
  shows "inode_is_dir j = inode_is_dir i" "inode_is_regular_file j = inode_is_regular_file i" "inode_is_symlink j = inode_is_symlink i"
  using assms by (simp_all add: kin_def inode_is_dir_def inode_is_regular_file_def inode_is_symlink_def)

definition relinked :: "(nat \<Rightarrow> nat \<Rightarrow> nat) \<Rightarrow> (nat \<Rightarrow> inode option) \<Rightarrow> (nat \<Rightarrow> inode option) \<Rightarrow> bool" where
  "relinked f I I' \<longleftrightarrow> (\<forall>n. rel_option (\<lambda>i j. kin i j \<and> inode_get_nlink j = f n (inode_get_nlink i)) (I n) (I' n))"

lemma relinkedD:
  assumes "relinked f I I'"
  shows "I n = Some i \<Longrightarrow> \<exists>j. I' n = Some j \<and> kin i j \<and> inode_get_nlink j = f n (inode_get_nlink i)"
    and "I' n = Some j \<Longrightarrow> \<exists>i. I n = Some i \<and> kin i j \<and> inode_get_nlink j = f n (inode_get_nlink i)"
    and "I n = None \<Longrightarrow> I' n = None"
  using assms by (auto simp: relinked_def rel_option_iff dest!: spec [of _ n])

lemma relinked_alike:
  assumes "relinked f I I'" and "\<And>i. I n = Some i \<Longrightarrow> f n (inode_get_nlink i) = 0 \<longleftrightarrow> inode_get_nlink i = 0"
  shows "rel_option alike (I n) (I' n)"
proof (cases "I n")
  case (Some i)
  then obtain j where "I' n = Some j" "kin i j" "inode_get_nlink j = f n (inode_get_nlink i)"
    using relinkedD(1) [OF assms(1)] by blast
  then show ?thesis
    using assms(2) [OF Some] Some kin_type [of i j] by (auto simp: alike_def kin_def)
qed (use relinkedD(3) [OF assms(1)] in auto)

lemma relinked_dirs: "relinked f I I' \<Longrightarrow> dirs I' = dirs I"
  using relinkedD(1,2) [of f I I'] kin_type(1) by (fastforce simp: dirs_def)

lemma relinked_dom: "relinked f I I' \<Longrightarrow> dom I' = dom I"
  using relinkedD(1,2) [of f I I'] by (fastforce simp: dom_def)

definition add_one :: "nat \<Rightarrow> nat \<Rightarrow> nat \<Rightarrow> nat" where
  "add_one child n k = (if n = child then add64 k 1 else k)"

text \<open>The parts of a pool that only a change of names leaves alone.\<close>

definition same_other :: "pool \<Rightarrow> pool \<Rightarrow> bool" where
  "same_other p q \<longleftrightarrow> p_vinodes q = p_vinodes p \<and> p_arr q = p_arr p \<and> p_orphaned q = p_orphaned p \<and> p_symlink q = p_symlink p \<and>
     p_root q = p_root p \<and> p_cwd q = p_cwd p \<and> p_mem q = p_mem p \<and> p_cred q = p_cred p \<and> p_umask q = p_umask p \<and> p_conf q = p_conf p \<and>
     p_new_inode q = p_new_inode p \<and> p_new_array q = p_new_array p \<and> p_over q = p_over p \<and> p_store q = p_store p"

text \<open>The entry is put in a free place, in a new block if all others are taken.\<close>

definition entry_added :: "pool \<Rightarrow> nat \<Rightarrow> string \<Rightarrow> nat \<Rightarrow> pool \<Rightarrow> bool" where
  "entry_added p dir name child p' \<longleftrightarrow> same_other p p' \<and> relinked (add_one child) (p_inodes p) (p_inodes p') \<and>
     (\<exists>ds ptr. (ds = p_dir p dir \<or> ds = p_dir p dir @ [replicate 14 free_dirent]) \<and> ptr_ok ds ptr \<and>
        d_name (ds ! fst ptr ! snd ptr) = [] \<and>
        p_dir p' = (p_dir p)(dir := put ds ptr \<lparr>d_inode = child, d_name = name\<rparr>))"

lemma add_dirent_ok:
  assumes name: "CHR 0x00 \<notin> set name" "0 < namelen" "namelen \<le> length name" "slash \<notin> set (take namelen name)"
    and i: "p_inodes p dir = Some i" and ents: "\<And>d. d \<in> set (concat (p_dir p dir)) \<Longrightarrow> CHR 0x00 \<notin> set (d_name d)"
    and child: "p_inodes p child \<noteq> None"
  shows "if namelen > PMEMFILE_MAX_FILE_NAME then inode_add_dirent dir name namelen child tm p = Some (Inl ENAMETOOLONG, p)
    else if inode_get_nlink i = 0 \<and> take namelen name \<noteq> ''.'' then inode_add_dirent dir name namelen child tm p = Some (Inl ENOENT, p)
    else if entry (p_dir p dir) (take namelen name) \<noteq> None then inode_add_dirent dir name namelen child tm p = Some (Inl EEXIST, p)
    else (\<exists>p'. inode_add_dirent dir name namelen child tm p = Some (Inr (), p') \<and> entry_added p dir (take namelen name) child p') \<or>
      (\<exists>sp. inode_add_dirent dir name namelen child tm p = Some (Inl ENOMEM, p\<lparr>p_space := sp\<rparr>) \<and> p_space p \<noteq> [])"
proof -
  let ?nm = "take namelen name"
  have cmp: "str_compare s name namelen = 0 \<longleftrightarrow> s = ?nm" if "CHR 0x00 \<notin> set s" for s
    by (rule str_compare_zero [OF that name(1,3)])
  have ne: "?nm \<noteq> []"
    using name(2,3) by (cases name) auto
  have dot: "str_compare ''.'' name namelen = 0 \<longleftrightarrow> ?nm = ''.''"
    using cmp [of "''.''"] by auto
  have sl: "\<not> str_contains name namelen slash"
    using name(4) by (simp add: str_contains_def)
  have ex: "(\<exists>d \<in> set (concat (p_dir p dir)). str_compare (d_name d) name namelen = 0) \<longleftrightarrow> entry (p_dir p dir) ?nm \<noteq> None"
    using cmp ents entry_None [of "p_dir p dir" ?nm] by auto
  let ?d = "\<lparr>d_inode = child, d_name = ?nm\<rparr>"
  let ?times = "\<lambda>q. upd_inode dir (\<lambda>i. inode_tx_set_ctime tm (inode_tx_set_mtime tm i)) (upd_inode child (\<lambda>i. inode_tx_set_ctime tm (inode_tx_inc_nlink i)) q)"
  have times: "relinked (add_one child) (p_inodes p) (p_inodes (?times q))"
    if "\<And>n. rel_option (\<lambda>i j. kin i j \<and> inode_get_nlink j = inode_get_nlink i) (p_inodes p n) (p_inodes q n)" for q
  proof -
    have "rel_option (\<lambda>i j. kin i j \<and> inode_get_nlink j = add_one child n (inode_get_nlink i)) (p_inodes p n) (p_inodes (?times q) n)" for n
      using that [of n]
      by (auto simp: rel_option_iff kin_def inode_get_defs inode_tx_set_defs inode_tx_inc_nlink_def add_one_def)
    then show ?thesis
      by (simp add: relinked_def)
  qed
  show ?thesis
  proof (cases "namelen > PMEMFILE_MAX_FILE_NAME \<or> inode_get_nlink i = 0 \<and> ?nm \<noteq> ''.'' \<or> entry (p_dir p dir) ?nm \<noteq> None")
    case True
    then show ?thesis
      using i dot sl ex by (auto simp: inode_add_dirent_def entry_for_def scan_dir_spec tx_then_def)
  next
    case False
    then have nx: "\<not> (\<exists>d \<in> set (concat (p_dir p dir)). str_compare (d_name d) name namelen = 0)"
      using ex by blast
    have body: "inode_add_dirent dir name namelen child tm p = tx_then (entry_for p dir name namelen) (\<lambda>ptr p1.
         let p2 = set_dirent dir ptr ?d p1 in do { _ \<leftarrow> p_inodes p2 child; Some (Inr (), ?times p2) })"
      using False i dot sl by (auto simp: inode_add_dirent_def)
    show ?thesis
    proof (cases "find_dirent (\<lambda>d. d_name d = []) 0 (p_dir p dir)")
      case (Some ptr)
      note f = find_dirent_Some [OF Some]
      let ?p2 = "set_dirent dir ptr ?d p"
      have "entry_for p dir name namelen = Some (Inr ptr, p)"
        using nx Some by (simp add: entry_for_def scan_dir_spec)
      then have r: "inode_add_dirent dir name namelen child tm p = Some (Inr (), ?times ?p2)"
        using child by (auto simp: body tx_then_def set_dirent_put Let_def)
      have "entry_added p dir ?nm child (?times ?p2)"
        unfolding entry_added_def
        by (intro conjI exI [of _ "p_dir p dir"] exI [of _ ptr] times)
          (use f in \<open>auto simp: set_dirent_put same_other_def kin_def\<close>)
      then show ?thesis
        using False r by auto
    next
      case None
      obtain room sp where sp: "pf_calloc (p_space p) = (room, sp)"
        by fastforce
      show ?thesis
      proof (cases room)
        case no: False
        then have "inode_add_dirent dir name namelen child tm p = Some (Inl ENOMEM, p\<lparr>p_space := sp\<rparr>)"
          using nx None sp by (simp add: body entry_for_def scan_dir_spec tx_then_def)
        moreover have "p_space p \<noteq> []"
          using no sp by auto
        ultimately show ?thesis
          using False by auto
      next
        case True
        let ?ds = "p_dir p dir @ [replicate 14 free_dirent]" and ?ptr = "(length (p_dir p dir), 0)"
        let ?p1 = "upd_inode dir (\<lambda>i. inode_tx_set_size (add64 (inode_get_size i) METADATA_BLOCK_SIZE) i)
              (p\<lparr>p_space := sp, p_dir := (p_dir p)(dir := ?ds)\<rparr>)"
        let ?p2 = "set_dirent dir ?ptr ?d ?p1"
        have block: "replicate 14 free_dirent = free_dirent # replicate 13 free_dirent"
          by (simp add: numeral_eq_Suc)
        have new: "scan_dir name namelen (length (p_dir p dir)) None [replicate 14 free_dirent] = Inr (Some ?ptr)"
          unfolding block using cmp [of "[]"] ne by (simp add: scan_dir_spec free_dirent_def)
        have "entry_for p dir name namelen = Some (Inr ?ptr, ?p1)"
          using nx None sp True new by (simp add: entry_for_def scan_dir_spec [of _ _ 0] new_dir_block_eq)
        then have r: "inode_add_dirent dir name namelen child tm p = Some (Inr (), ?times ?p2)"
          using child by (auto simp: body tx_then_def set_dirent_put Let_def)
        have k: "rel_option (\<lambda>i j. kin i j \<and> inode_get_nlink j = inode_get_nlink i) (p_inodes p n) (p_inodes ?p2 n)" for n
          by (cases "p_inodes p n") (auto simp: set_dirent_put kin_def inode_get_defs inode_tx_set_defs)
        have "entry_added p dir ?nm child (?times ?p2)"
          unfolding entry_added_def
          by (intro conjI exI [of _ ?ds] exI [of _ ?ptr] times k)
            (auto simp: set_dirent_put same_other_def ptr_ok_def nth_append free_dirent_def)
        then show ?thesis
          using False r by auto
      qed
    qed
  qed
qed

section \<open>What follows\<close>

lemma entry_block: "name \<noteq> [] \<Longrightarrow> entry (ds @ [replicate k free_dirent]) name = entry ds name"
proof -
  assume "name \<noteq> []"
  then have "find (\<lambda>d. d_name d = name) (replicate k free_dirent) = None"
    by (auto simp: find_None_iff free_dirent_def)
  then show ?thesis
    by (auto simp: entry_def find_append split: option.splits)
qed

lemma entry_addedE:
  assumes "entry_added p dir name child p'"
  obtains ds ptr where "ds = p_dir p dir \<or> ds = p_dir p dir @ [replicate 14 free_dirent]" and "ptr_ok ds ptr"
    and "d_name (ds ! fst ptr ! snd ptr) = []" and "p_dir p' = (p_dir p)(dir := put ds ptr \<lparr>d_inode = child, d_name = name\<rparr>)"
    and "same_other p p'" and "relinked (add_one child) (p_inodes p) (p_inodes p')"
  using assms unfolding entry_added_def by blast

lemma entry_added_dir: "entry_added p dir name child p' \<Longrightarrow> p_dir p' = (p_dir p)(dir := p_dir p' dir)"
  by (auto simp: entry_added_def)

lemma entry_added_lookup:
  assumes "entry_added p dir name child p'" and "name \<noteq> []" and "entry (p_dir p dir) name = None"
  shows "entry (p_dir p' dir) name = Some child"
    and "s \<noteq> name \<Longrightarrow> s \<noteq> [] \<Longrightarrow> entry (p_dir p' dir) s = entry (p_dir p dir) s"
proof -
  obtain ds ptr where ds: "ds = p_dir p dir \<or> ds = p_dir p dir @ [replicate 14 free_dirent]" and ptr: "ptr_ok ds ptr" "d_name (ds ! fst ptr ! snd ptr) = []"
    and p': "p_dir p' = (p_dir p)(dir := put ds ptr \<lparr>d_inode = child, d_name = name\<rparr>)"
    by (rule entry_addedE [OF assms(1)]) (rule that)
  have same: "entry ds s = entry (p_dir p dir) s" if "s \<noteq> []" for s
    using ds entry_block [OF that] by auto
  show "entry (p_dir p' dir) name = Some child"
    using entry_put_new [OF ptr(1), of "\<lparr>d_inode = child, d_name = name\<rparr>"] same [OF assms(2)] assms(3) p' by simp
  show "s \<noteq> name \<Longrightarrow> s \<noteq> [] \<Longrightarrow> entry (p_dir p' dir) s = entry (p_dir p dir) s"
    using entry_put_other [OF ptr(1), of s "\<lparr>d_inode = child, d_name = name\<rparr>"] ptr(2) same p' by auto
qed

lemma links_same_dirs: "dirs I' = dirs I \<Longrightarrow> links I' D = links I D"
  by (simp add: links_def fun_eq_iff)

lemma entry_added_links:
  assumes add: "entry_added p dir name child p'" and fin: "finite (dom (p_inodes p))" and dir: "dir \<in> dirs (p_inodes p)"
    and free: "\<And>d. d \<in> set (concat (p_dir p dir)) \<Longrightarrow> d_name d = [] \<Longrightarrow> d_inode d = 0" and "n \<noteq> 0"
  shows "links (p_inodes p') (p_dir p') n = links (p_inodes p) (p_dir p) n + (if n = child then 1 else 0)"
proof -
  let ?I = "p_inodes p" and ?D = "p_dir p" and ?d = "\<lparr>d_inode = child, d_name = name\<rparr>"
  obtain ds ptr where ds: "ds = ?D dir \<or> ds = ?D dir @ [replicate 14 free_dirent]" and ptr: "ptr_ok ds ptr" "d_name (ds ! fst ptr ! snd ptr) = []"
    and p': "p_dir p' = ?D(dir := put ds ptr ?d)"
    by (rule entry_addedE [OF add]) (rule that)
  have l: "links (p_inodes p') D = links ?I D" for D
    using add relinked_dirs by (intro links_same_dirs) (auto simp: entry_added_def)
  have "links ?I (?D(dir := ds)) n = links ?I ?D n"
    using ds links_block [OF fin dir assms(5), of ?D 14] by auto
  moreover have "ds ! fst ptr ! snd ptr \<in> set (concat ds)"
    using flat_ok(1,2) [OF ptr(1)] by (metis nth_mem)
  then have "ds ! fst ptr ! snd ptr \<in> set (concat (?D dir)) \<or> ds ! fst ptr ! snd ptr = free_dirent"
    using ds by auto
  then have "d_inode (ds ! fst ptr ! snd ptr) = 0"
    using free [OF _ ptr(2)] by (auto simp: free_dirent_def)
  ultimately show ?thesis
    using links_put [OF fin dir, of "?D(dir := ds)" ptr ?d n] ptr(1) assms(5) by (auto simp: l p')
qed

lemma entry_added_links_ok:
  assumes add: "entry_added p dir name child p'" and ok: "links_ok (p_inodes p) (p_dir p)" and dir: "dir \<in> dirs (p_inodes p)"
    and zero: "p_inodes p 0 = None"
    and free: "\<And>d. d \<in> set (concat (p_dir p dir)) \<Longrightarrow> d_name d = [] \<Longrightarrow> d_inode d = 0"
    and room: "links (p_inodes p) (p_dir p) child + 1 < W64"
  shows "links_ok (p_inodes p') (p_dir p')"
proof -
  have r: "relinked (add_one child) (p_inodes p) (p_inodes p')"
    using add by (simp add: entry_added_def)
  have fin: "finite (dom (p_inodes p))"
    by (rule links_okD(1) [OF ok])
  have fin': "finite (dom (p_inodes p'))"
    unfolding relinked_dom [OF r] by (rule fin)
  have "inode_get_nlink j = links (p_inodes p') (p_dir p') n \<and> inode_get_nlink j < W64" if j: "p_inodes p' n = Some j" for n j
  proof -
    obtain i where i: "p_inodes p n = Some i" "inode_get_nlink j = add_one child n (inode_get_nlink i)"
      using relinkedD(2) [OF r j] by blast
    have "n \<noteq> 0"
      using i(1) zero by (metis option.distinct(1))
    then show ?thesis
      using i(2) links_okD(2,3) [OF ok i(1)] room entry_added_links [OF add fin dir free] by (auto simp: add_one_def add64_exact)
  qed
  then show ?thesis
    by (rule links_okI [OF fin'])
qed

lemma pool_inv_dirent:
  assumes "pool_inv p tot" and "p_inodes p dir = Some i" "inode_is_dir i" and "d \<in> set (concat (p_dir p dir))"
  shows "dirent_ok (p_inodes p) d"
  using ns_invD(5) [OF assms(1) [unfolded pool_inv_def] assms(2,3)] assms(4) by (auto simp: dir_ok_def)

lemma entry_added_inv:
  assumes add: "entry_added p dir name child p'" and inv: "pool_inv p tot"
    and i: "p_inodes p dir = Some i" "inode_is_dir i" "inode_get_nlink i \<noteq> 0"
    and name: "name \<noteq> []" "CHR 0x00 \<notin> set name" "slash \<notin> set name" "length name \<le> PMEMFILE_MAX_FILE_NAME"
    and new: "entry (p_dir p dir) name = None" and c: "p_inodes p child = Some c" "inode_get_nlink c \<noteq> 0" "inode_get_nlink c + 1 < W64"
    and dots: "inode_is_dir c \<Longrightarrow> dots child dir (p_dir p child)"
  shows "pool_inv p' tot"
proof -
  note ns = inv [unfolded pool_inv_def]
  let ?I = "p_inodes p" and ?D = "p_dir p" and ?V = "p_vinodes p" and ?H = "ia_heap (p_arr p)" and ?r = "p_orphaned p"
  let ?d = "\<lparr>d_inode = child, d_name = name\<rparr>"
  obtain ds ptr where ds: "ds = ?D dir \<or> ds = ?D dir @ [replicate 14 free_dirent]" and ptr: "ptr_ok ds ptr" "d_name (ds ! fst ptr ! snd ptr) = []"
    and p': "p_dir p' = ?D(dir := put ds ptr ?d)" and rest: "same_other p p'" and r: "relinked (add_one child) ?I (p_inodes p')"
    by (rule entry_addedE [OF add]) (rule that)
  define D1 where "D1 = ?D(dir := ds)"
  have D1: "ns_inv ?I D1 ?V ?H ?r tot"
    using ds ns ns_inv_block [OF ns i, of 14] by (auto simp: D1_def)
  have "ns_inv ?I (D1(dir := put (D1 dir) ptr ?d)) ?V ?H ?r tot"
  proof (rule ns_inv_put [OF D1 i])
    show "dirent_ok ?I ?d"
      using name c ns_invD(2) [OF ns] by (cases "child = 0") (auto simp: dirent_ok_def)
    show "entry (D1 dir) (d_name ?d) = None"
      using ds new entry_block [OF name(1)] by (auto simp: D1_def)
    show "dots (d_inode ?d) dir (D1 (d_inode ?d))" if "?I (d_inode ?d) = Some j" "inode_is_dir j" for j
      using that dots c(1) ds by (auto simp: dots_def D1_def)
  qed (use ptr in \<open>simp_all add: D1_def\<close>)
  then have "ns_inv ?I (?D(dir := put ds ptr ?d)) ?V ?H ?r tot"
    by (simp add: D1_def)
  moreover have "rel_option alike (?I n) (p_inodes p' n)" for n
    by (rule relinked_alike [OF r]) (use c in \<open>auto simp: add_one_def add64_exact\<close>)
  ultimately show ?thesis
    using ns_inv_same [of ?I _ ?V ?H ?r tot "p_inodes p'" ?V tot] rest ns_invD(1) [OF ns]
    by (simp add: pool_inv_def same_other_def p')
qed

end
