(* ===== verification/Remove_Name.thy ===== *)
theory Remove_Name
  imports Add_Dirent Dir_Ops
begin

text \<open>Removing a name: the entry is cleared, the link count drops, and an inode without links is registered as orphaned.\<close>

section \<open>The entry\<close>

definition sub_one :: "nat \<Rightarrow> nat \<Rightarrow> nat \<Rightarrow> nat" where
  "sub_one child n k = (if n = child then sub64 k 1 else k)"

definition entry_removed :: "pool \<Rightarrow> nat \<Rightarrow> dirent_ptr \<Rightarrow> nat \<Rightarrow> pool \<Rightarrow> bool" where
  "entry_removed p dir ptr child p' \<longleftrightarrow> same_other p p' \<and> relinked (sub_one child) (p_inodes p) (p_inodes p') \<and>
     p_space p' = p_space p \<and> p_dir p' = (p_dir p)(dir := put (p_dir p dir) ptr free_dirent)"

lemma unlink_file_ok:
  assumes d: "dirent_at p dir ptr = \<lparr>d_inode = child, d_name = name\<rparr>" and c: "p_inodes p child = Some c"
  obtains p' where "vinode_unlink_file dir ptr child tm p = Some (Inr (), p')" and "entry_removed p dir ptr child p'"
proof -
  let ?p1 = "upd_inode child inode_tx_dec_nlink p"
  let ?p2 = "if inode_get_nlink (inode_tx_dec_nlink c) > 0 then upd_inode child (inode_tx_set_ctime tm) ?p1 else ?p1"
  let ?p3 = "set_dirent dir ptr free_dirent (upd_inode dir (inode_tx_set_mtime tm) ?p2)"
  have "vinode_unlink_file dir ptr child tm p = Some (Inr (), ?p3)"
    using d c by (simp add: vinode_unlink_file_def Let_def)
  moreover have "rel_option (\<lambda>i j. kin i j \<and> inode_get_nlink j = sub_one child n (inode_get_nlink i)) (p_inodes p n) (p_inodes ?p3 n)" for n
    by (cases "p_inodes p n")
      (auto simp: set_dirent_put kin_def inode_get_defs inode_tx_set_defs inode_tx_dec_nlink_def sub_one_def)
  then have "entry_removed p dir ptr child ?p3"
    by (simp add: entry_removed_def relinked_def same_other_def set_dirent_put)
  ultimately show ?thesis
    by (rule that)
qed

lemma entry_removed_lookup:
  assumes rm: "entry_removed p dir ptr child p'" and inv: "pool_inv p tot" and i: "p_inodes p dir = Some i" "inode_is_dir i"
    and ptr: "ptr_ok (p_dir p dir) ptr" "dirent_at p dir ptr = \<lparr>d_inode = child, d_name = name\<rparr>" and "name \<noteq> []"
  shows "entry (p_dir p' dir) name = None" and "s \<noteq> name \<Longrightarrow> s \<noteq> [] \<Longrightarrow> entry (p_dir p' dir) s = entry (p_dir p dir) s"
proof -
  have d: "p_dir p dir ! fst ptr ! snd ptr = \<lparr>d_inode = child, d_name = name\<rparr>"
    using ptr(2) by (simp add: dirent_at_def split: prod.splits)
  have p': "p_dir p' dir = put (p_dir p dir) ptr free_dirent"
    using rm by (simp add: entry_removed_def)
  let ?xs = "concat (p_dir p dir)" and ?k = "flat (p_dir p dir) ptr"
  have dist: "distinct (filter (\<lambda>s. s \<noteq> []) (map d_name ?xs))"
    using ns_invD(5) [OF inv [unfolded pool_inv_def] i] by (simp add: dir_ok_def)
  have "d_name e \<noteq> name" if "e \<in> set (?xs[?k := free_dirent])" for e
    using distinct_removed [OF dist flat_ok(1) [OF ptr(1)] that] assms(7)
    by (cases "e = free_dirent") (auto simp: flat_ok(2) [OF ptr(1)] d free_dirent_def)
  then show "entry (p_dir p' dir) name = None"
    by (simp add: entry_None p' flat_ok(3) [OF ptr(1)] del: set_concat)
  show "s \<noteq> name \<Longrightarrow> s \<noteq> [] \<Longrightarrow> entry (p_dir p' dir) s = entry (p_dir p dir) s"
    using entry_put_other [OF ptr(1), of s free_dirent] d p' by (simp add: free_dirent_def)
qed

lemma entry_removed_links:
  assumes rm: "entry_removed p dir ptr child p'" and fin: "finite (dom (p_inodes p))" and dir: "dir \<in> dirs (p_inodes p)"
    and ptr: "ptr_ok (p_dir p dir) ptr" "dirent_at p dir ptr = \<lparr>d_inode = child, d_name = name\<rparr>" and "n \<noteq> 0"
  shows "links (p_inodes p') (p_dir p') n + (if n = child then 1 else 0) = links (p_inodes p) (p_dir p) n"
proof -
  have d: "d_inode (p_dir p dir ! fst ptr ! snd ptr) = child"
    using ptr(2) by (simp add: dirent_at_def split: prod.splits)
  have "links (p_inodes p') D = links (p_inodes p) D" for D
    using rm relinked_dirs by (intro links_same_dirs) (auto simp: entry_removed_def)
  then show ?thesis
    using links_put [where D = "p_dir p" and d = free_dirent and n = n, OF fin dir ptr(1)] rm assms(6) d by (auto simp: entry_removed_def free_dirent_def)
qed

lemma entry_removed_links_ok:
  assumes rm: "entry_removed p dir ptr child p'" and ok: "links_ok (p_inodes p) (p_dir p)" and dir: "dir \<in> dirs (p_inodes p)"
    and ptr: "ptr_ok (p_dir p dir) ptr" "dirent_at p dir ptr = \<lparr>d_inode = child, d_name = name\<rparr>" and zero: "p_inodes p 0 = None"
  shows "links_ok (p_inodes p') (p_dir p')"
proof -
  have r: "relinked (sub_one child) (p_inodes p) (p_inodes p')"
    using rm by (simp add: entry_removed_def)
  have fin: "finite (dom (p_inodes p))"
    by (rule links_okD(1) [OF ok])
  have fin': "finite (dom (p_inodes p'))"
    unfolding relinked_dom [OF r] by (rule fin)
  have "inode_get_nlink j = links (p_inodes p') (p_dir p') n \<and> inode_get_nlink j < W64" if j: "p_inodes p' n = Some j" for n j
  proof -
    obtain i where i: "p_inodes p n = Some i" "inode_get_nlink j = sub_one child n (inode_get_nlink i)"
      using relinkedD(2) [OF r j] by blast
    have "n \<noteq> 0"
      using i(1) zero by (metis option.distinct(1))
    note l = entry_removed_links [OF rm fin dir ptr this]
    show ?thesis
      using links_okD(2,3) [OF ok i(1)] l i(2) sub64_exact [of 1 "inode_get_nlink i"] by (cases "n = child") (auto simp: sub_one_def)
  qed
  then show ?thesis
    by (rule links_okI [OF fin'])
qed

lemma entry_removed_inv:
  assumes rm: "entry_removed p dir ptr child p'" and inv: "pool_inv p tot"
    and i: "p_inodes p dir = Some i" "inode_is_dir i" "inode_get_nlink i \<noteq> 0"
    and ptr: "ptr_ok (p_dir p dir) ptr" "dirent_at p dir ptr = \<lparr>d_inode = child, d_name = name\<rparr>"
    and name: "name \<noteq> ''.''" "name \<noteq> ''..''"
  shows "ns_inv (p_inodes p) (p_dir p') (p_vinodes p) (ia_heap (p_arr p)) (p_orphaned p) tot"
    and "(\<And>c. p_inodes p child = Some c \<Longrightarrow> sub64 (inode_get_nlink c) 1 \<noteq> 0 \<and> inode_get_nlink c \<noteq> 0) \<Longrightarrow> pool_inv p' tot"
proof -
  have d: "p_dir p dir ! fst ptr ! snd ptr = \<lparr>d_inode = child, d_name = name\<rparr>"
    using ptr(2) by (simp add: dirent_at_def split: prod.splits)
  have p': "p_dir p' = (p_dir p)(dir := put (p_dir p dir) ptr free_dirent)" and so: "same_other p p'"
    and r: "relinked (sub_one child) (p_inodes p) (p_inodes p')"
    using rm by (auto simp: entry_removed_def)
  show ns: "ns_inv (p_inodes p) (p_dir p') (p_vinodes p) (ia_heap (p_arr p)) (p_orphaned p) tot"
    unfolding p' by (rule ns_inv_put [OF inv [unfolded pool_inv_def] i ptr(1)]) (use d name in simp_all)
  assume "\<And>c. p_inodes p child = Some c \<Longrightarrow> sub64 (inode_get_nlink c) 1 \<noteq> 0 \<and> inode_get_nlink c \<noteq> 0"
  then have "rel_option alike (p_inodes p n) (p_inodes p' n)" for n
    by (intro relinked_alike [OF r]) (auto simp: sub_one_def)
  from ns_inv_same [OF ns this, of "p_vinodes p" tot] show "pool_inv p' tot"
    using so ns_invD(1) [OF ns] by (simp add: pool_inv_def same_other_def)
qed

section \<open>Orphaned inodes\<close>

lemma ns_inv_orphan:
  assumes inv: "ns_inv I D V H r tot" and n: "V n = Some v" "I n = Some i" "inode_get_nlink i \<noteq> 0"
    and J: "\<And>m. m \<noteq> n \<Longrightarrow> rel_option alike (I m) (J m)" "J n = Some j" "kin i j" "inode_get_nlink j = 0"
    and none: "\<And>m k e. I m = Some k \<Longrightarrow> inode_is_dir k \<Longrightarrow> e \<in> set (concat (D m)) \<Longrightarrow> d_inode e \<noteq> n"
    and empty: "inode_is_dir i \<Longrightarrow> \<forall>e \<in> set (concat (D n)). d_inode e = 0"
    and fresh: "fresh_alloc alloc" and add: "inode_array_add alloc r n (tx_begin H) = Some (Inr pos, t)"
  shows "ns_inv J D (V(n \<mapsto> v\<lparr>v_orphaned := Some pos\<rparr>)) (tx_commit t) r tot"
proof -
  let ?v = "v\<lparr>v_orphaned := Some pos\<rparr>"
  let ?V = "V(n \<mapsto> ?v)"
  have ty: "inode_is_dir j = inode_is_dir i"
    by (rule kin_type [OF J(3)])
  have bwd: "\<exists>l. I m = Some l \<and> inode_is_dir l = inode_is_dir k \<and> (m \<noteq> n \<longrightarrow> alike l k)" if "J m = Some k" for m k
    using J(1) [of m] J(2) n(2) ty that by (cases "m = n") (auto simp: rel_option_iff alike_def)
  have fwd: "\<exists>k. J m = Some k \<and> inode_is_dir k = inode_is_dir l \<and> (m \<noteq> n \<longrightarrow> alike l k)" if "I m = Some l" for m l
    using J(1) [of m] J(2) n(2) ty that by (cases "m = n") (auto simp: rel_option_iff alike_def)
  have refs: "refs_ok ?V tot"
    using refs_set [OF ns_invD(1) [OF inv] n(1), of ?v "tot n"] refs_okD(4,5) [OF ns_invD(1) [OF inv] n(1)] by simp
  have dirent: "dirent_ok J e" if "I m = Some k" "inode_is_dir k" "e \<in> set (concat (D m))" for m k e
  proof -
    have ok: "dirent_ok I e"
      using ns_invD(5) [OF inv that(1,2)] that(3) by (auto simp: dir_ok_def)
    show ?thesis
      using ok J(1) [OF none [OF that]] by (auto simp: dirent_ok_def rel_option_iff alike_def)
  qed
  have dir: "dir_ok J D m k" if m: "J m = Some k" "inode_is_dir k" for m k
  proof -
    obtain l where l: "I m = Some l" "inode_is_dir l" "m \<noteq> n \<longrightarrow> alike l k"
      using bwd [OF m(1)] m(2) by blast
    have ok: "dir_ok I D m l"
      by (rule ns_invD(5) [OF inv l(1,2)])
    have dots: "dots (d_inode e) m (D (d_inode e))"
      if "e \<in> set (concat (D m))" "d_name e \<noteq> ''.''" "d_name e \<noteq> ''..''" "J (d_inode e) = Some c" "inode_is_dir c" for e c
      using bwd [OF that(4)] ok that by (auto simp: dir_ok_def)
    have "if inode_get_nlink k = 0 then \<forall>e \<in> set (concat (D m)). d_inode e = 0 else \<exists>q. dots m q (D m)"
      using ok l(3) J(2,4) m empty ty by (cases "m = n") (auto simp: dir_ok_def alike_def split: if_splits)
    then show ?thesis
      using ok dirent [OF l(1,2)] dots unfolding dir_ok_def by blast
  qed
  have vn: "vnode_ok J D m w" if w: "?V m = Some w" for m w
  proof (cases "m = n")
    case True
    obtain c where "v_parent v = None \<or> v_parent v = Some c \<and> (\<exists>l. I c = Some l \<and> inode_is_dir l)" "inode_is_dir i = (v_parent v \<noteq> None)"
      using ns_invD(6) [OF inv n(1)] n(2) by (auto simp: vnode_ok_def split: option.splits)
    then show ?thesis
      using True w J(2,4) ty fwd [of c] by (auto simp: vnode_ok_def split: option.splits)
  next
    case False
    then have "vnode_ok I D m w"
      using ns_invD(6) [OF inv] w by simp
    then obtain l where l: "I m = Some l" "inode_get_nlink l = 0 \<longrightarrow> v_orphaned w \<noteq> None"
      and par: "case v_parent w of None \<Rightarrow> \<not> inode_is_dir l
      | Some q \<Rightarrow> inode_is_dir l \<and> (\<exists>j. I q = Some j \<and> inode_is_dir j) \<and> (inode_get_nlink l \<noteq> 0 \<longrightarrow> dots m q (D m))"
      by (auto simp: vnode_ok_def)
    obtain k where k: "J m = Some k" "alike l k"
      using fwd [OF l(1)] False by blast
    show ?thesis
      using k l(2) par fwd unfolding vnode_ok_def
      by (auto simp: alike_simps [OF k(2)] split: option.splits dest: fwd)
  qed
  obtain as where as: "chain H as None (Some r)" "distinct as" and reg: "registered (set as) I V H"
    using ns_invD(7) [OF inv] by (auto simp: orphans_ok_def)
  obtain a k where pos: "pos = (a, k)"
    by fastforce
  note added = inode_array_add_ok [OF as(1,2) fresh, of n]
  have slot: "slot_at H (a, k) = None" "slot_at (tx_commit t) = (slot_at H)((a, k) \<mapsto> n)"
    using added add pos by auto
  have notn: "slot_at H (b, l) \<noteq> Some n" if "b \<in> set as" for b l
    using registeredD(2) [OF reg that, of l n] n(2,3) by auto
  obtain bs where bs: "chain (tx_commit t) bs None (Some r)" "distinct bs" "set bs = insert a (set as)"
    using inode_array_add_arrays [OF as(1,2) fresh add [unfolded pos]] by blast
  have newarr: "b \<in> set as" if "b \<in> set bs" "slot_at H (b, l) \<noteq> None" for b l
    using that bs(3) inode_array_add_place [OF as(1) fresh add [unfolded pos]] by (auto simp: slot_at_def split: option.splits)
  have "registered (set bs) J ?V (tx_commit t)"
  proof (rule registeredI)
    show "fst q \<in> set bs \<and> slot_at (tx_commit t) q = Some m" if "?V m = Some w" "v_orphaned w = Some q" for m w q
    proof (cases "m = n")
      case True
      then show ?thesis
        using that pos slot(2) bs(3) by clarsimp
    next
      case False
      then have "fst q \<in> set as" "slot_at H q = Some m"
        using that registeredD(1) [OF reg, of m w q] by simp_all
      then show ?thesis
        using slot bs(3) by auto
    qed
    show "\<exists>w l. ?V m = Some w \<and> v_orphaned w = Some (b, l') \<and> J m = Some l \<and> inode_get_nlink l = 0"
      if b: "b \<in> set bs" "slot_at (tx_commit t) (b, l') = Some m" for b l' m
    proof (cases "(b, l') = (a, k)")
      case True
      then show ?thesis
        using b slot(2) pos J(2,4) by auto
    next
      case False
      then have "slot_at H (b, l') = Some m"
        using b(2) unfolding slot(2) by (simp only: fun_upd_apply if_False)
      moreover from this have "b \<in> set as"
        by (intro newarr [OF b(1), of l']) simp
      ultimately obtain w l where w: "V m = Some w" "v_orphaned w = Some (b, l')" "I m = Some l" "inode_get_nlink l = 0"
        using registeredD(2) [OF reg] by blast
      moreover have "m \<noteq> n"
        using w n by auto
      ultimately show ?thesis
        using fwd [OF w(3)] by (auto simp: alike_def)
    qed
  qed
  then have "orphans_ok J ?V (tx_commit t) r"
    using bs by (auto simp: orphans_ok_def)
  moreover have "inode_ok k \<and> (inode_get_nlink k = 0 \<longrightarrow> ?V m \<noteq> None)" if m: "J m = Some k" for m k
  proof (cases "m = n")
    case True
    then show ?thesis
      using m J(2,3) ns_invD(3) [OF inv n(2)] kin_type [OF J(3)] by (auto simp: inode_ok_def kin_def)
  next
    case False
    obtain l where l: "I m = Some l" "m \<noteq> n \<longrightarrow> alike l k"
      using bwd [OF m] by (elim exE conjE)
    then have "alike l k"
      using False by simp
    then show ?thesis
      using ns_invD(3,4) [OF inv l(1)] False by (simp add: alike_simps inode_ok_def)
  qed
  moreover have "J 0 = None"
    using J(1) [of 0] ns_invD(2) [OF inv] n(2) by (cases "n = 0") auto
  ultimately show ?thesis
    using refs dir vn by (simp add: ns_inv_def)
qed

end
