(* ===== verification/Path_Correct.thy ===== *)
theory Path_Correct
  imports Path Dir_Correct
begin

text \<open>
  Path resolution computes what a walk over the components of the path computes on the persistent directories,
  keeps the invariant, and takes exactly one reference, to the directory it ends in.
\<close>

section \<open>Components\<close>

abbreviation (input) skip_slashes :: "string \<Rightarrow> string" where
  "skip_slashes s \<equiv> dropWhile (\<lambda>x. x = slash) s"

fun split :: "string \<Rightarrow> string list" where
  "split [] = [[]]"
| "split (c # s) = (if c = slash then [] # split s else (c # hd (split s)) # tl (split s))"

definition comps :: "string \<Rightarrow> string list" where
  "comps s = filter (\<lambda>w. w \<noteq> []) (split s)"

lemma split_ne [simp]: "split s \<noteq> []"
  by (cases s) auto

lemma split_append: "split (a @ slash # b) = split a @ split b"
  by (induction a) auto

lemma split_no_slash: "slash \<notin> set a \<Longrightarrow> split a = [a]"
  by (induction a) auto

lemma comps_append: "comps (a @ slash # b) = comps a @ comps b"
  by (simp add: comps_def split_append)

lemma comps_one: "slash \<notin> set a \<Longrightarrow> comps a = (if a = [] then [] else [a])"
  by (simp add: comps_def split_no_slash)

lemma comps_skip [simp]: "comps (skip_slashes s) = comps s"
  by (induction s) (auto simp: comps_def)

lemma split_members: "w \<in> set (split s) \<Longrightarrow> slash \<notin> set w \<and> set w \<subseteq> set s"
proof (induction s arbitrary: w)
  case (Cons c s)
  have "hd (split s) \<in> set (split s)" and "set (tl (split s)) \<subseteq> set (split s)"
    by (simp_all add: list.set_sel(2) subsetI)
  then have m: "w = [] \<or> w \<in> set (split s) \<or> c \<noteq> slash \<and> w = c # hd (split s) \<and> hd (split s) \<in> set (split s)"
    using Cons.prems by (auto split: if_splits)
  show ?case
    using m Cons.IH [of w] Cons.IH [of "hd (split s)"] by auto
qed simp

lemma comps_members: "w \<in> set (comps s) \<Longrightarrow> w \<noteq> [] \<and> slash \<notin> set w \<and> set w \<subseteq> set s"
  using split_members by (auto simp: comps_def)

lemma strchr_None: "strchr s c = None \<longleftrightarrow> c \<notin> set s"
  by (induction s) auto

lemma strchr_Some: "strchr s c = Some t \<longleftrightarrow> (\<exists>a b. s = a @ c # b \<and> t = c # b \<and> c \<notin> set a)"
proof (induction s)
  case (Cons x s)
  show ?case
  proof (cases "x = c")
    case True
    then show ?thesis
      by (auto simp: Cons_eq_append_conv)
  next
    case False
    then show ?thesis
      using Cons by (auto simp: Cons_eq_append_conv)
  qed
qed simp

lemma comps_Nil: "comps s = [] \<longleftrightarrow> set s \<subseteq> {slash}"
proof (induction s)
  case (Cons c s)
  then show ?case
    by (auto simp: comps_def)
qed (simp add: comps_def)

text \<open>The number of slashes at the end.\<close>

definition ending_slashes :: "string \<Rightarrow> nat" where
  "ending_slashes s = length (takeWhile (\<lambda>x. x = slash) (rev s))"

lemma ending_slashes_all:
  assumes "slash \<notin> set a" and "set b \<subseteq> {slash}"
  shows "ending_slashes (a @ b) = length b"
proof -
  have "takeWhile (\<lambda>x. x = slash) (rev b) = rev b"
    using assms(2) by (auto simp: takeWhile_eq_all_conv)
  moreover have "takeWhile (\<lambda>x. x = slash) (rev a) = []"
    using assms(1) by (cases a rule: rev_cases) auto
  ultimately show ?thesis
    using assms(2) by (simp add: ending_slashes_def takeWhile_append subset_iff)
qed

lemma ending_slashes_suffix:
  assumes "\<not> set b \<subseteq> {slash}"
  shows "ending_slashes (a @ b) = ending_slashes b" and "ending_slashes b < length b"
proof -
  obtain x where x: "x \<in> set (rev b)" "x \<noteq> slash"
    using assms by auto
  then show "ending_slashes (a @ b) = ending_slashes b"
    by (auto simp: ending_slashes_def takeWhile_append1 [of x])
  show "ending_slashes b < length b"
  proof (rule ccontr)
    assume "\<not> ending_slashes b < length b"
    then have "takeWhile (\<lambda>x. x = slash) (rev b) = rev b"
      using takeWhile_eq_take [of "\<lambda>x. x = slash" "rev b"] by (simp add: ending_slashes_def)
    then show False
      using x by (auto simp: takeWhile_eq_all_conv)
  qed
qed

lemma ending_slashes_rest: "comps rest \<noteq> [] \<Longrightarrow> ending_slashes (a @ rest) = ending_slashes rest"
  by (rule ending_slashes_suffix) (simp add: comps_Nil)

lemma ending_slashes_skip:
  assumes "comps s \<noteq> []"
  shows "ending_slashes (skip_slashes s) = ending_slashes s"
proof -
  have "ending_slashes (takeWhile (\<lambda>x. x = slash) s @ skip_slashes s) = ending_slashes (skip_slashes s)"
    using assms by (intro ending_slashes_rest) simp
  then show ?thesis
    by simp
qed

text \<open>What the loop sees at its head: the last component, or a component and the rest of the path.\<close>

lemma path_cases:
  assumes "path = [] \<or> hd path \<noteq> slash"
  obtains (last) name k where "path = name @ replicate k slash" and "slash \<notin> set name"
    and "case strchr path slash of None \<Rightarrow> True | Some s \<Rightarrow> length s = ending_slashes path"
    and "comps path = (if name = [] then [] else [name])" and "name = [] \<Longrightarrow> k = 0"
  | (more) name rest where "path = name @ slash # rest" and "slash \<notin> set name" and "name \<noteq> []"
    and "strchr path slash = Some (slash # rest)" and "Suc (length rest) \<noteq> ending_slashes path"
    and "comps path = name # comps rest" and "comps rest \<noteq> []"
    and "ending_slashes (skip_slashes rest) = ending_slashes path"
proof (cases "strchr path slash")
  case None
  then have "slash \<notin> set path"
    by (simp add: strchr_None)
  then show ?thesis
    using last [of path 0] None by (simp add: comps_one)
next
  case (Some s)
  obtain a b where ab: "path = a @ slash # b" "s = slash # b" "slash \<notin> set a"
    using Some by (auto simp: strchr_Some)
  have ne: "a \<noteq> []"
    using assms ab(1) by auto
  show ?thesis
  proof (cases "set b \<subseteq> {slash}")
    case True
    then have b: "b = replicate (length b) slash"
      by (intro replicate_length_same [symmetric]) auto
    have "ending_slashes path = Suc (length b)"
      using ending_slashes_all [OF ab(3), of "slash # b"] True ab(1) by simp
    moreover have "comps path = [a]"
      using ab ne True comps_Nil [of b] by (simp add: comps_append comps_one)
    moreover have "path = a @ replicate (Suc (length b)) slash"
      using ab(1) b by (metis replicate_Suc)
    ultimately show ?thesis
      using last [of a "Suc (length b)"] ab ne Some by simp
  next
    case False
    have e: "ending_slashes path = ending_slashes b" "ending_slashes b < length b"
      using ending_slashes_suffix(1) [OF False, of "a @ [slash]"] ab(1) ending_slashes_suffix(2) [OF False] by simp_all
    have s: "b = takeWhile (\<lambda>x. x = slash) b @ skip_slashes b"
      by simp
    have "\<not> set (skip_slashes b) \<subseteq> {slash}"
    proof
      assume "set (skip_slashes b) \<subseteq> {slash}"
      moreover have "set (takeWhile (\<lambda>x. x = slash) b) \<subseteq> {slash}"
        by (auto dest: set_takeWhileD)
      ultimately have "set b \<subseteq> {slash}"
        by (subst s) (simp del: takeWhile_dropWhile_id)
      then show False
        using False by contradiction
    qed
    then have "ending_slashes b = ending_slashes (skip_slashes b)"
      using ending_slashes_suffix(1) [of "skip_slashes b" "takeWhile (\<lambda>x. x = slash) b"] by simp
    then show ?thesis
      using more [of a b] ab ne e Some False comps_Nil [of b] by (simp add: comps_append comps_one)
  qed
qed

end
