(* ===== verification/Walk.thy ===== *)
theory Walk
  imports Path_Correct
begin

text \<open>
  The walk that path resolution is compared with: over the list of components, on the persistent directories only.
\<close>

section \<open>The walk\<close>

definition walk_end :: "pool \<Rightarrow> nat \<Rightarrow> string \<Rightarrow> (errno + nat \<times> string) option" where
  "walk_end p dir name = do { i \<leftarrow> p_inodes p dir; Some (if inode_is_dir i then Inr (dir, name) else Inl ENOTDIR) }"

text \<open>
  The result is the directory of the last component and its name, or an error. A symbolic link on the way is
  replaced by its components; its target starts at the root if it is empty or starts with a slash. \<open>nest\<close> is one more
  than the number of links so far.
\<close>

function walk :: "pool \<Rightarrow> pmemfile_cred \<Rightarrow> nat \<Rightarrow> nat \<Rightarrow> nat \<Rightarrow> string list \<Rightarrow> (errno + nat \<times> string) option" where
  "walk p cred flags nest dir [] = walk_end p dir []"
| "walk p cred flags nest dir [name] = walk_end p dir name"
| "walk p cred flags nest dir (name # name2 # names) =
     (if length name > PMEMFILE_MAX_FILE_NAME then Some (Inl ENAMETOOLONG)
      else
        (case step_to p (stop_at_root flags) dir name of
           None \<Rightarrow> None
         | Some (Inl e) \<Rightarrow> Some (Inl e)
         | Some (Inr child) \<Rightarrow>
             (case vinode_get_perms p child of
                None \<Rightarrow> None
              | Some perms \<Rightarrow>
                  if PMEMFILE_S_ISTYPE (perm_flags perms) PMEMFILE_S_IFLNK then
                    (if nest \<ge> 40 then Some (Inl ELOOP)
                     else
                       let target = p_symlink p child in
                       walk p cred flags (Suc nest) (if target = [] \<or> hd target = slash then p_root p ! 0 else dir)
                         (comps target @ name2 # names))
                  else if PMEMFILE_S_ISTYPE (perm_flags perms) PMEMFILE_S_IFDIR \<and> \<not> can_access cred perms (search_want flags)
                  then Some (Inl EACCES)
                  else walk p cred flags nest child (name2 # names))))"
  by pat_completeness auto

termination
  by (relation "measures [\<lambda>(_, _, _, nest, _, _). 40 - nest, \<lambda>(_, _, _, _, _, names). length names]") auto

text \<open>What resolution reports; \<open>k\<close> is the number of slashes at the end of the path.\<close>

definition walk_result :: "nat \<Rightarrow> errno + nat \<times> string \<Rightarrow> path_info \<Rightarrow> bool" where
  "walk_result k w info \<longleftrightarrow>
     (case w of
        Inl e \<Rightarrow> pi_error info = e \<and> e \<noteq> 0
      | Inr (dir, name) \<Rightarrow> pi_error info = 0 \<and> pi_parent info = Some dir \<and> pi_remaining info = Some (name @ replicate k slash))"

text \<open>An inode that has links.\<close>

definition linked_inode :: "pool \<Rightarrow> nat \<Rightarrow> bool" where
  "linked_inode p n \<longleftrightarrow> (\<exists>i. p_inodes p n = Some i \<and> inode_get_nlink i \<noteq> 0)"

lemma calm_linked:
  assumes "calm p q" and "linked_inode p n"
  obtains i j where "p_inodes p n = Some i" and "p_inodes q n = Some j" and "same_inode i j" and "inode_get_nlink i \<noteq> 0"
  using assms calm_inode(2) [OF assms(1), of n] by (auto simp: linked_inode_def)

lemma calm_linkedD: "calm p q \<Longrightarrow> linked_inode p n \<Longrightarrow> linked_inode q n"
  by (erule (1) calm_linked) (auto simp: linked_inode_def same_inode_simps)

lemma calm_perms: "calm p q \<Longrightarrow> linked_inode p n \<Longrightarrow> vinode_get_perms q n = vinode_get_perms p n"
  by (erule (1) calm_linked) (simp add: vinode_get_perms_def same_inode_simps)

lemma calm_step:
  assumes "calm p q" and "linked_inode p n"
  shows "step_to q stop n name = step_to p stop n name"
  by (rule calm_linked [OF assms]) (simp add: step_to_def same_inode_simps calm_env [OF assms(1)])

lemma step_linked:
  assumes "pool_inv p tot" and "step_to p stop dir name = Some (Inr n)"
  shows "linked_inode p n"
proof -
  obtain i where "p_inodes p dir = Some i" "inode_is_dir i" "name \<noteq> []" "entry (p_dir p dir) name = Some n"
    using assms(2) by (auto simp: step_to_def split: if_splits option.splits Option.bind_splits)
  then show ?thesis
    using entry_ok(2) [OF assms(1)] by (auto simp: linked_inode_def)
qed

lemma walk_calm:
  assumes "calm p q" and "pool_inv p tot" and "linked_inode p (p_root p ! 0)" and "linked_inode p dir"
  shows "walk q cred flags nest dir names = walk p cred flags nest dir names"
  using assms
proof (induction p cred flags nest dir names rule: walk.induct)
  case (1 p cred flags nest dir)
  show ?case
    by (rule calm_linked [OF 1(1,4)]) (simp add: walk_end_def same_inode_simps)
next
  case (2 p cred flags nest dir name)
  show ?case
    by (rule calm_linked [OF 2(1,4)]) (simp add: walk_end_def same_inode_simps)
next
  case (3 p cred flags nest dir name name2 names)
  let ?s = "step_to p (stop_at_root flags) dir name"
  show ?case
  proof (cases "length name > PMEMFILE_MAX_FILE_NAME \<or> (\<forall>n. ?s \<noteq> Some (Inr n))")
    case True
    then show ?thesis
      using calm_step [OF 3(3,6)] by (auto split: option.splits sum.splits)
  next
    case False
    then obtain n where n: "?s = Some (Inr n)" "\<not> length name > PMEMFILE_MAX_FILE_NAME"
      by auto
    have l: "linked_inode p n"
      by (rule step_linked [OF 3(4) n(1)])
    then obtain perms where perms: "vinode_get_perms p n = Some perms"
      by (auto simp: linked_inode_def vinode_get_perms_def)
    note eqs = n calm_step [OF 3(3,6)] calm_perms [OF 3(3) l] perms calm_env(2,3) [OF 3(3)]
    show ?thesis
    proof (cases "PMEMFILE_S_ISTYPE (perm_flags perms) PMEMFILE_S_IFLNK \<and> nest < 40")
      case True
      let ?d = "if p_symlink p n = [] \<or> hd (p_symlink p n) = slash then p_root p ! 0 else dir"
      have "linked_inode p ?d"
        using 3(5,6) by simp
      then have "walk q cred flags (Suc nest) ?d (comps (p_symlink p n) @ name2 # names) =
          walk p cred flags (Suc nest) ?d (comps (p_symlink p n) @ name2 # names)"
        using 3(1) [OF n(2,1) refl perms _ _ refl 3(3,4,5)] True by simp
      then show ?thesis
        using True by (simp add: eqs Let_def split del: if_split cong del: if_weak_cong)
    next
      case False
      then show ?thesis
        using 3(2) [OF n(2,1) refl perms _ _ 3(3,4,5) l] by (auto simp: eqs)
    qed
  qed
qed

section \<open>Resolution follows the walk\<close>

text \<open>The references after the walk: one to \<open>parent\<close> is gone, and the result has one.\<close>

definition refs_after :: "(nat \<Rightarrow> nat) \<Rightarrow> nat \<Rightarrow> path_info \<Rightarrow> nat \<Rightarrow> nat" where
  "refs_after tot parent info =
     (let t = tot(parent := tot parent - 1) in case pi_parent info of None \<Rightarrow> t | Some d \<Rightarrow> t(d := Suc (t d)))"

lemma refs_after_same: "0 < tot d \<Longrightarrow> pi_parent info = Some d \<Longrightarrow> refs_after tot d info = tot"
  by (simp add: refs_after_def Let_def)

lemma refs_after_move:
  assumes "0 < tot d"
  shows "refs_after ((tot(m := Suc (tot m)))(d := (tot(m := Suc (tot m))) d - 1)) m info = refs_after tot d info"
  using assms by (auto simp: refs_after_def Let_def fun_eq_iff split: option.splits)

lemma refs_after_nested:
  assumes "0 < tot d" and "t = refs_after (tot(m := Suc (tot m))) m info"
  shows "0 < t d" and "t(d := t d - 1) = refs_after tot d info"
  using assms by (auto simp: refs_after_def Let_def fun_eq_iff split: option.splits)

lemma same_mem [simp]: "p_mem p = [] \<Longrightarrow> p\<lparr>p_mem := []\<rparr> = p"
  by (metis pool.surjective pool.update_convs(12))

lemma one_component:
  assumes "slash \<notin> set name"
  shows "\<not> more_than_1_component (name @ replicate k slash)"
proof (cases k)
  case 0
  then show ?thesis
    using assms by (simp add: more_than_1_component_def strchr_None [THEN iffD2])
next
  case (Suc l)
  have "strchr (name @ slash # replicate l slash) slash = Some (slash # replicate l slash)"
    using assms by (auto simp: strchr_Some)
  then show ?thesis
    using Suc by (simp add: more_than_1_component_def)
qed

lemma path_stop_ok:
  assumes "pool_inv p tot" and "p_mem p = []" and "0 < tot parent" and "p_inodes p parent = Some i"
    and "err = 0 \<Longrightarrow> path = name @ replicate k slash \<and> slash \<notin> set name"
    and "w = (if err \<noteq> 0 then Inl err else if inode_is_dir i then Inr (parent, name) else Inl ENOTDIR)"
  shows "\<exists>info. path_stop p parent path err = Some (info, p) \<and> walk_result k w info \<and>
    pool_inv p (refs_after tot parent info)"
  using assms one_component [of name k]
  by (cases "err = 0") (auto simp: path_stop_def walk_result_def refs_after_same)

end
