(* ===== verification/Resolve.thy ===== *)
theory Resolve
  imports Walk
begin

text \<open>The loop of path resolution follows the walk, whatever symbolic links it meets.\<close>

definition ready :: "pool \<Rightarrow> (nat \<Rightarrow> nat) \<Rightarrow> nat \<Rightarrow> bool" where
  "ready p tot parent \<longleftrightarrow> pool_inv p tot \<and> p_mem p = [] \<and> 0 < tot parent \<and> linked_inode p parent \<and>
     linked_inode p (p_root p ! 0) \<and> 0 < (tot(parent := tot parent - 1)) (p_root p ! 0) \<and> (\<forall>n. CHR 0x00 \<notin> set (p_symlink p n))"

definition follows ::
  "nat \<Rightarrow> pool \<Rightarrow> (nat \<Rightarrow> nat) \<Rightarrow> nat \<Rightarrow> (errno + nat \<times> string) option \<Rightarrow> (path_info \<times> pool) option \<Rightarrow> bool" where
  "follows k p tot parent w r \<longleftrightarrow>
     (case w of
        None \<Rightarrow> r = None
      | Some w \<Rightarrow> \<exists>info p'. r = Some (info, p') \<and> calm p p' \<and> p_mem p' = [] \<and> pool_inv p' (refs_after tot parent info) \<and>
          walk_result k w info)"

lemma pool_inv_vnode: "pool_inv p tot \<Longrightarrow> 0 < tot n \<Longrightarrow> \<exists>v. p_vinodes p n = Some v"
  using refs_okD(2) [of "p_vinodes p" tot n] ns_invD(1) unfolding pool_inv_def by (cases "p_vinodes p n") auto

lemma ready_calm:
  assumes "ready p tot parent" and "calm p q" and "p_mem q = []" and "pool_inv q tot'" and "0 < tot' parent'"
    and "linked_inode p parent'" and "(tot'(parent' := tot' parent' - 1)) (p_root p ! 0) = (tot(parent := tot parent - 1)) (p_root p ! 0)"
  shows "ready q tot' parent'"
  using assms calm_linkedD [OF assms(2)] by (simp add: ready_def calm_env [OF assms(2)])

lemma resolve_stop:
  assumes "ready p tot parent" and "calm p q" and "p_mem q = []" and "pool_inv q tot" and "e \<noteq> 0"
  shows "follows k p tot parent (Some (Inl e)) (path_stop q parent path e)"
proof -
  obtain i where "p_inodes q parent = Some i"
    using assms(1) calm_linkedD [OF assms(2), of parent] by (auto simp: ready_def linked_inode_def)
  then show ?thesis
    using path_stop_ok [OF assms(4,3), of parent i e path "[]" k "Inl e"] assms by (auto simp: follows_def ready_def)
qed

text \<open>A symbolic link: the walk starts again with the components of its target in front.\<close>

lemma resolve_symlink_step:
  assumes r: "ready p tot parent" and q: "calm p q" "p_mem q = []" "pool_inv q tot"
    and nest: "nest < 40" and rest: "comps rest \<noteq> []" "CHR 0x00 \<notin> set rest"
    and IH: "\<And>p tot parent path. ready p tot parent \<Longrightarrow> path = [] \<or> hd path \<noteq> slash \<Longrightarrow> CHR 0x00 \<notin> set path \<Longrightarrow>
      follows (ending_slashes path) p tot parent (walk p cred flags (Suc nest) parent (comps path))
        (resolve_loop p cred parent path (ending_slashes path) flags (Suc nest))"
  shows "follows (ending_slashes rest) p tot parent
    (walk p cred flags (Suc nest) (if p_symlink p n = [] \<or> hd (p_symlink p n) = slash then p_root p ! 0 else parent)
      (comps (p_symlink p n) @ comps rest))
    (do {
       (info, p3) \<leftarrow>
         (case path_start q (Some parent) (get_symlink q n @ [slash] @ rest) (Suc nest) of
            Inl e \<Rightarrow> Some (path_error e, q)
          | Inr (parent1, path1, ending1) \<Rightarrow>
              do {
                (dir, p3) \<leftarrow> vinode_ref q parent1;
                resolve_loop p3 cred dir path1 ending1 flags (Suc nest)
              });
       p4 \<leftarrow> vinode_unref p3 (Some parent);
       Some (info, p4)
     })"
proof -
  define t where "t = p_symlink p n"
  define d where "d = (if t = [] \<or> hd t = slash then p_root p ! 0 else parent)"
  define path where "path = t @ slash # rest"
  define path1 where "path1 = (if t = [] \<or> hd t = slash then skip_slashes path else path)"
  note env = calm_env [OF q(1)]
  have pos: "0 < tot parent" and rpos: "0 < tot (p_root p ! 0)"
    using r by (auto simp: ready_def split: if_splits)
  have "hd path = slash \<longleftrightarrow> t = [] \<or> hd t = slash"
    by (cases t) (auto simp: path_def)
  then have start: "path_start q (Some parent) (get_symlink q n @ [slash] @ rest) (Suc nest) = Inr (Some d, path1, ending_slashes path1)"
    using nest by (auto simp: path_start_def get_symlink_def env ending_slashes_def d_def path1_def path_def t_def)
  have hd1: "path1 = [] \<or> hd path1 \<noteq> slash"
  proof (cases "t = [] \<or> hd t = slash")
    case True
    then have "path1 = skip_slashes path"
      by (auto simp: path1_def)
    then show ?thesis
      using hd_dropWhile [of "\<lambda>x. x = slash" path] by metis
  qed (simp add: path1_def path_def)
  have "CHR 0x00 \<notin> set path"
    using r rest(2) by (simp add: ready_def slash_def path_def t_def)
  then have nul1: "CHR 0x00 \<notin> set path1"
    by (auto simp: path1_def dest: set_dropWhileD)
  have comps1: "comps (p_symlink p n) @ comps rest = comps path1"
    by (simp add: comps_append path1_def path_def t_def)
  have ending1: "ending_slashes path1 = ending_slashes rest"
    using ending_slashes_rest [OF rest(1), of "t @ [slash]"] ending_slashes_skip [of path] rest(1)
    by (simp add: path1_def path_def comps_append)
  have dpos: "0 < tot d" and dlink: "linked_inode p d"
    using r pos rpos by (auto simp: ready_def d_def)
  obtain v where v: "p_vinodes q d = Some v"
    using pool_inv_vnode [OF q(3) dpos] by blast
  obtain p2 where p2: "vinode_ref q (Some d) = Some (d, p2)" "pool_inv p2 (tot(d := Suc (tot d)))" "calm q p2" "p_mem p2 = p_mem q"
    by (rule vinode_ref_ok [OF q(3) v]) (rule that)
  have c2: "calm p p2"
    by (rule calm_trans [OF q(1) p2(3)])
  have r2: "ready p2 (tot(d := Suc (tot d))) d"
    using r p2(2,4) q(2) calm_linkedD [OF c2] dlink rpos by (simp add: ready_def calm_env [OF c2])
  have w: "walk p2 cred flags (Suc nest) d (comps path1) = walk p cred flags (Suc nest) d (comps path1)"
    by (rule walk_calm [OF c2]) (use r dlink in \<open>auto simp: ready_def\<close>)
  note F = IH [OF r2 hd1 nul1, unfolded w ending1]
  have dd: "(if p_symlink p n = [] \<or> hd (p_symlink p n) = slash then p_root p ! 0 else parent) = d"
    by (simp add: d_def t_def)
  show ?thesis
  proof (cases "walk p cred flags (Suc nest) d (comps path1)")
    case None
    then show ?thesis
      unfolding dd comps1 start ending1 using F p2(1) by (simp add: follows_def)
  next
    case (Some w)
    then obtain info p3 where p3: "resolve_loop p2 cred d path1 (ending_slashes rest) flags (Suc nest) = Some (info, p3)"
      "calm p2 p3" "p_mem p3 = []" "pool_inv p3 (refs_after (tot(d := Suc (tot d))) d info)" "walk_result (ending_slashes rest) w info"
      using F by (auto simp: follows_def)
    note nested = refs_after_nested [where tot = tot and d = parent and m = d and info = info, OF pos refl]
    obtain p4 where p4: "vinode_unref p3 (Some parent) = Some p4" "calm p3 p4" "p_mem p4 = p_mem p3"
      "pool_inv p4 (refs_after tot parent info)"
      using vinode_unref_ok [OF p3(4) nested(1)] unfolding nested(2) by blast
    have "calm p p4"
      by (rule calm_trans [OF c2 calm_trans [OF p3(2) p4(2)]])
    then show ?thesis
      unfolding dd comps1 start ending1 using Some p2(1) p3(1,3,5) p4 by (simp add: follows_def)
  qed
qed

lemma refs_inc_dec: "((tot :: nat \<Rightarrow> nat)(m := Suc (tot m)))(m := (tot(m := Suc (tot m))) m - 1) = tot"
  by auto

text \<open>The head of the path is not the last component: what happens depends on the child it leads to.\<close>

definition resolve_child ::
  "pool \<Rightarrow> pmemfile_cred \<Rightarrow> nat \<Rightarrow> string \<Rightarrow> nat \<Rightarrow> nat \<Rightarrow> nat \<Rightarrow> nat \<Rightarrow> string \<Rightarrow> (path_info \<times> pool) option" where
  "resolve_child p1 cred parent path ending flags nest child rest =
     do {
       perms \<leftarrow> vinode_get_perms p1 child;
       if PMEMFILE_S_ISTYPE (perm_flags perms) PMEMFILE_S_IFLNK then
         do {
           let (ok, mem) = pf_calloc (p_mem p1);
           let new_path = get_symlink p1 child @ [slash] @ rest;
           p2 \<leftarrow> vinode_unref (p1\<lparr>p_mem := mem\<rparr>) (Some child);
           (info, p3) \<leftarrow>
             (if \<not> ok then Some (path_error ENOMEM, p2)
              else
                (case path_start p2 (Some parent) new_path (Suc nest) of
                   Inl e \<Rightarrow> Some (path_error e, p2)
                 | Inr (parent1, path1, ending1) \<Rightarrow>
                     do {
                       (dir, p3) \<leftarrow> vinode_ref p2 parent1;
                       resolve_loop p3 cred dir path1 ending1 flags (Suc nest)
                     }));
           p4 \<leftarrow> vinode_unref p3 (Some parent);
           Some (info, p4)
         }
       else if PMEMFILE_S_ISTYPE (perm_flags perms) PMEMFILE_S_IFDIR \<and> \<not> can_access cred perms (search_want flags) then
         do {
           p2 \<leftarrow> vinode_unref p1 (Some child);
           path_stop p2 parent path EACCES
         }
       else
         do {
           p2 \<leftarrow> vinode_unref p1 (Some parent);
           resolve_loop p2 cred child (skip_slashes rest) ending flags nest
         }
     }"

lemma resolve_loop_more:
  assumes "path = name @ slash # rest" and "slash \<notin> set name" and "Suc (length rest) \<noteq> ending"
  shows "resolve_loop p cred parent path ending flags nest =
    (if length name > PMEMFILE_MAX_FILE_NAME then path_stop p parent path ENAMETOOLONG
     else
       do {
         (r, p1) \<leftarrow> vinode_lookup_dirent p parent path (length name) flags;
         (case r of
            Inl e \<Rightarrow> path_stop p1 parent path e
          | Inr child \<Rightarrow> resolve_child p1 cred parent path ending flags nest child rest)
       })"
proof -
  have s: "strchr path slash = Some (slash # rest)"
    using assms by (auto simp: strchr_Some)
  have len: "length path - length (slash # rest) = length name"
    using assms(1) by simp
  show ?thesis
    unfolding resolve_loop.simps [of p cred parent path] resolve_child_def s option.case list.sel len
    using assms(3) by simp
qed

lemma resolve_child_link:
  assumes r: "ready p tot parent" and p1: "pool_inv p1 (tot(n := Suc (tot n)))" "calm p p1" "p_mem p1 = []"
    and nl: "linked_inode p n" and perms: "vinode_get_perms p n = Some perms"
    and lnk: "PMEMFILE_S_ISTYPE (perm_flags perms) PMEMFILE_S_IFLNK"
    and rest: "comps rest \<noteq> []" "CHR 0x00 \<notin> set rest"
    and IH: "\<And>p tot parent path. nest < 40 \<Longrightarrow> ready p tot parent \<Longrightarrow> path = [] \<or> hd path \<noteq> slash \<Longrightarrow> CHR 0x00 \<notin> set path \<Longrightarrow>
      follows (ending_slashes path) p tot parent (walk p cred flags (Suc nest) parent (comps path))
        (resolve_loop p cred parent path (ending_slashes path) flags (Suc nest))"
  shows "follows (ending_slashes rest) p tot parent
    (if nest \<ge> 40 then Some (Inl ELOOP)
     else walk p cred flags (Suc nest) (if p_symlink p n = [] \<or> hd (p_symlink p n) = slash then p_root p ! 0 else parent)
       (comps (p_symlink p n) @ comps rest))
    (resolve_child p1 cred parent path ending flags nest n rest)"
proof -
  obtain p2 where p2: "vinode_unref p1 (Some n) = Some p2" "pool_inv p2 tot" "calm p1 p2" "p_mem p2 = p_mem p1"
    using vinode_unref_ok [OF p1(1), of n] unfolding refs_inc_dec by auto
  have c2: "calm p p2" and mem2: "p_mem p2 = []"
    using calm_trans [OF p1(2) p2(3)] p2(4) p1(3) by simp_all
  have pos: "0 < tot parent"
    using r by (simp add: ready_def)
  have sym: "get_symlink p1 n = get_symlink p2 n"
    by (simp add: get_symlink_def calm_env [OF p2(3)])
  note eqs = resolve_child_def calm_perms [OF p1(2) nl] perms lnk p1(3) p2(1) Let_def
  show ?thesis
  proof (cases "nest < 40")
    case True
    show ?thesis
      using resolve_symlink_step [OF r c2 mem2 p2(2) True rest IH, of n] True
      by (simp add: eqs sym split del: if_split cong del: if_weak_cong)
  next
    case False
    obtain p4 where p4: "vinode_unref p2 (Some parent) = Some p4" "pool_inv p4 (tot(parent := tot parent - 1))"
      "calm p2 p4" "p_mem p4 = p_mem p2"
      using vinode_unref_ok [OF p2(2) pos] by blast
    have "calm p p4"
      by (rule calm_trans [OF c2 p4(3)])
    then show ?thesis
      using False p4 mem2
      by (simp add: eqs path_start_def follows_def walk_result_def path_error_def refs_after_def)
  qed
qed

lemma resolve_child_down:
  assumes r: "ready p tot parent" and p1: "pool_inv p1 (tot(n := Suc (tot n)))" "calm p p1" "p_mem p1 = []"
    and nl: "linked_inode p n" and perms: "vinode_get_perms p n = Some perms"
    and nlnk: "\<not> PMEMFILE_S_ISTYPE (perm_flags perms) PMEMFILE_S_IFLNK" and nul: "CHR 0x00 \<notin> set rest"
    and IH: "\<And>p tot parent. ready p tot parent \<Longrightarrow>
      follows k p tot parent (walk p cred flags nest parent (comps rest))
        (resolve_loop p cred parent (skip_slashes rest) ending flags nest)"
  shows "follows k p tot parent
    (if PMEMFILE_S_ISTYPE (perm_flags perms) PMEMFILE_S_IFDIR \<and> \<not> can_access cred perms (search_want flags)
     then Some (Inl EACCES) else walk p cred flags nest n (comps rest))
    (resolve_child p1 cred parent path ending flags nest n rest)"
proof -
  have pos: "0 < tot parent" and inv: "pool_inv p tot"
    using r by (simp_all add: ready_def)
  note eqs = resolve_child_def calm_perms [OF p1(2) nl] perms nlnk
  show ?thesis
  proof (cases "PMEMFILE_S_ISTYPE (perm_flags perms) PMEMFILE_S_IFDIR \<and> \<not> can_access cred perms (search_want flags)")
    case True
    obtain p2 where p2: "vinode_unref p1 (Some n) = Some p2" "pool_inv p2 tot" "calm p1 p2" "p_mem p2 = p_mem p1"
      using vinode_unref_ok [OF p1(1), of n] unfolding refs_inc_dec by auto
    then show ?thesis
      using True resolve_stop [OF r calm_trans [OF p1(2) p2(3)] _ p2(2), of EACCES _ path] p1(3) by (simp add: eqs)
  next
    case acc: False
    let ?t1 = "tot(n := Suc (tot n))"
    let ?t3 = "?t1(parent := ?t1 parent - 1)"
    have pos1: "0 < ?t1 parent"
      using pos by simp
    obtain p3 where p3: "vinode_unref p1 (Some parent) = Some p3" "pool_inv p3 ?t3" "calm p1 p3" "p_mem p3 = p_mem p1"
      using vinode_unref_ok [OF p1(1), of parent, OF pos1] by blast
    have c3: "calm p p3"
      by (rule calm_trans [OF p1(2) p3(3)])
    have r3: "ready p3 ?t3 n"
      by (rule ready_calm [OF r c3 _ p3(2)]) (use p3(4) p1(3) pos nl in \<open>auto split: if_splits\<close>)
    have w: "walk p3 cred flags nest n (comps rest) = walk p cred flags nest n (comps rest)"
      by (rule walk_calm [OF c3 inv]) (use r nl in \<open>auto simp: ready_def\<close>)
    have "follows k p tot parent (walk p cred flags nest n (comps rest))
        (resolve_loop p3 cred n (skip_slashes rest) ending flags nest)"
      using IH [OF r3] refs_after_move [of tot parent n, OF pos] calm_trans [OF c3]
      by (auto simp: w follows_def simp del: fun_upd_apply split: option.splits)
    then show ?thesis
      using acc p3(1) by (auto simp: eqs)
  qed
qed

lemma resolve_loop_last:
  assumes r: "ready p tot parent" and path: "path = name @ replicate k slash" "slash \<notin> set name"
    and stop: "case strchr path slash of None \<Rightarrow> True | Some s \<Rightarrow> length s = ending"
  shows "follows k p tot parent (walk_end p parent name) (resolve_loop p cred parent path ending flags nest)"
proof -
  obtain i where i: "p_inodes p parent = Some i"
    using r by (auto simp: ready_def linked_inode_def)
  have loop: "resolve_loop p cred parent path ending flags nest = path_stop p parent path 0"
    using stop by (subst resolve_loop.simps) (auto split: option.splits)
  have inv: "pool_inv p tot" and mem: "p_mem p = []" and pos: "0 < tot parent"
    using r by (auto simp: ready_def)
  show ?thesis
    unfolding loop follows_def walk_end_def
    using path_stop_ok [OF inv mem pos i, of 0 path name k] path i mem by auto
qed

lemma resolve_loop_child:
  assumes r: "ready p tot parent" and path: "path = name @ slash # rest" "slash \<notin> set name" "CHR 0x00 \<notin> set path"
    and ending: "Suc (length rest) \<noteq> ending" and comps: "comps rest \<noteq> []"
    and link: "\<And>p tot parent path. nest < 40 \<Longrightarrow> ready p tot parent \<Longrightarrow> path = [] \<or> hd path \<noteq> slash \<Longrightarrow> CHR 0x00 \<notin> set path \<Longrightarrow>
      follows (ending_slashes path) p tot parent (walk p cred flags (Suc nest) parent (comps path))
        (resolve_loop p cred parent path (ending_slashes path) flags (Suc nest))"
    and down: "\<And>p tot parent. ready p tot parent \<Longrightarrow>
      follows (ending_slashes rest) p tot parent (walk p cred flags nest parent (comps rest))
        (resolve_loop p cred parent (skip_slashes rest) ending flags nest)"
  shows "follows (ending_slashes rest) p tot parent (walk p cred flags nest parent (name # comps rest)) (resolve_loop p cred parent path ending flags nest)"
proof -
  have inv: "pool_inv p tot" and mem: "p_mem p = []" and pos: "0 < tot parent"
    using r by (auto simp: ready_def)
  obtain i where i: "p_inodes p parent = Some i" "inode_get_nlink i \<noteq> 0"
    using r by (auto simp: ready_def linked_inode_def)
  obtain v where v: "p_vinodes p parent = Some v"
    using pool_inv_vnode [OF inv pos] by blast
  obtain name2 names where rest: "comps rest = name2 # names"
    using comps by (cases "comps rest") auto
  note unf = resolve_loop_more [OF path(1,2) ending]
  have nul: "CHR 0x00 \<notin> set rest" and len: "length name \<le> length path" "take (length name) path = name"
    using path by auto
  note look = lookup_dirent_ok [OF inv mem v i path(3) len(1), of flags, unfolded len(2)]
  let ?s = "step_to p (stop_at_root flags) parent name"
  consider "length name > PMEMFILE_MAX_FILE_NAME" | "length name \<le> PMEMFILE_MAX_FILE_NAME" "?s = None"
    | e where "length name \<le> PMEMFILE_MAX_FILE_NAME" "?s = Some (Inl e)"
    | n where "length name \<le> PMEMFILE_MAX_FILE_NAME" "?s = Some (Inr n)"
    by (metis not_None_eq sum.exhaust linorder_not_less)
  then show ?thesis
  proof cases
    case 1
    then show ?thesis
      using resolve_stop [OF r calm_refl mem inv, of ENAMETOOLONG _ path] by (simp add: unf rest)
  next
    case 2
    then show ?thesis
      using look by (simp add: unf rest follows_def)
  next
    case (3 e)
    have "e \<noteq> 0"
      using 3(2) by (auto simp: step_to_def split: if_splits option.splits Option.bind_splits)
    then show ?thesis
      using look 3 resolve_stop [OF r calm_refl mem inv, of e _ path] by (simp add: unf rest)
  next
    case (4 n)
    have nl: "linked_inode p n"
      by (rule step_linked [OF inv 4(2)])
    obtain perms where perms: "vinode_get_perms p n = Some perms"
      using nl by (auto simp: linked_inode_def vinode_get_perms_def)
    obtain p1 where p1: "vinode_lookup_dirent p parent path (length name) flags = Some (Inr n, p1)"
      "pool_inv p1 (tot(n := Suc (tot n)))" "calm p p1" "p_mem p1 = []"
      using look 4 by auto
    show ?thesis
      using 4 p1(1) perms resolve_child_link [OF r p1(2-4) nl perms _ comps nul link, of path ending]
        resolve_child_down [OF r p1(2-4) nl perms _ nul down, of path]
      by (cases "PMEMFILE_S_ISTYPE (perm_flags perms) PMEMFILE_S_IFLNK")
        (simp_all add: unf rest Let_def split del: if_split cong del: if_weak_cong)
  qed
qed

lemma resolve_loop_follows:
  assumes "ready p tot parent" and "path = [] \<or> hd path \<noteq> slash" and "CHR 0x00 \<notin> set path"
  shows "follows (ending_slashes path) p tot parent (walk p cred flags nest parent (comps path))
    (resolve_loop p cred parent path (ending_slashes path) flags nest)"
  using assms
proof (induction "40 - nest" arbitrary: nest p tot parent path rule: less_induct)
  case outer: less
  show ?case
    using outer.prems
  proof (induction "length path" arbitrary: p tot parent path rule: less_induct)
    case inner: less
    show ?case
    proof (rule path_cases [OF inner.prems(2)])
      fix name k
      assume a: "path = name @ replicate k slash" "slash \<notin> set name"
        "case strchr path slash of None \<Rightarrow> True | Some s \<Rightarrow> length s = ending_slashes path"
        "comps path = (if name = [] then [] else [name])"
      have "ending_slashes path = k"
        using ending_slashes_all [OF a(2), of "replicate k slash"] a(1) by (simp add: set_replicate_conv_if)
      then show ?case
        using resolve_loop_last [OF inner.prems(1) a(1-3)] a(4) by auto
    next
      fix name rest
      assume a: "path = name @ slash # rest" "slash \<notin> set name" "Suc (length rest) \<noteq> ending_slashes path"
        "comps path = name # comps rest" "comps rest \<noteq> []" "ending_slashes (skip_slashes rest) = ending_slashes path"
      have small: "length (skip_slashes rest) < length path"
        using a(1) length_dropWhile_le [of "\<lambda>x. x = slash" rest] by simp
      have "CHR 0x00 \<notin> set rest"
        using inner.prems(3) a(1) by auto
      then have h: "skip_slashes rest = [] \<or> hd (skip_slashes rest) \<noteq> slash" "CHR 0x00 \<notin> set (skip_slashes rest)"
        using hd_dropWhile [of "\<lambda>x. x = slash" rest] set_dropWhileD by metis+
      have e: "ending_slashes rest = ending_slashes path"
        using ending_slashes_skip [OF a(5)] a(6) by simp
      show ?case
        unfolding a(4) e [symmetric]
        by (rule resolve_loop_child [OF inner.prems(1) a(1,2) inner.prems(3) a(3)[folded e] a(5)])
          (use outer.hyps [of "Suc nest"] inner.hyps [OF small _ h] in \<open>simp_all add: a(6) e\<close>)
    qed
  qed
qed

section \<open>Resolving a path\<close>

definition plus_ref :: "(nat \<Rightarrow> nat) \<Rightarrow> nat option \<Rightarrow> nat \<Rightarrow> nat" where
  "plus_ref ext v = (case v of None \<Rightarrow> ext | Some n \<Rightarrow> ext(n := Suc (ext n)))"

text \<open>The slashes that resolution leaves behind the last component.\<close>

definition trailing :: "string \<Rightarrow> nat" where
  "trailing path = (if comps path = [] then 0 else ending_slashes path)"

text \<open>The directory a path starts in. It must be referenced and must not have been removed.\<close>

definition start_dir :: "pool \<Rightarrow> nat option \<Rightarrow> string \<Rightarrow> nat option" where
  "start_dir p dir path = (if path \<noteq> [] \<and> hd path = slash then Some (p_root p ! 0) else dir)"

definition starts :: "pool \<Rightarrow> (nat \<Rightarrow> nat) \<Rightarrow> nat option \<Rightarrow> string \<Rightarrow> bool" where
  "starts p ext dir path \<longleftrightarrow> CHR 0x00 \<notin> set path \<and>
     (case start_dir p dir path of None \<Rightarrow> path = [] | Some d \<Rightarrow> 0 < ext d + pool_refs p d \<and> linked_inode p d)"

lemma pool_ok_root: "pool_ok p ext \<Longrightarrow> 0 < pool_refs p (p_root p ! 0) \<and> linked_inode p (p_root p ! 0)"
proof -
  assume ok: "pool_ok p ext"
  then have m: "p_root p ! 0 \<in> set (p_root p)"
    by (auto simp: pool_ok_def)
  then have "count_list (p_root p) (p_root p ! 0) \<noteq> 0"
    by (simp add: count_list_0_iff)
  then show ?thesis
    using ok m by (auto simp: pool_refs_def pool_ok_def linked_inode_def)
qed

lemma pool_ok_calm:
  assumes "pool_ok p ext" and "calm p q" and "pool_inv q (\<lambda>n. ext' n + pool_refs p n)"
  shows "pool_ok q ext'"
proof -
  have "\<exists>j. p_inodes q r = Some j \<and> inode_is_dir j \<and> inode_get_nlink j \<noteq> 0"
    if i: "p_inodes p r = Some i" "inode_is_dir i" "inode_get_nlink i \<noteq> 0" for r i
  proof -
    obtain j where j: "p_inodes q r = Some j" "same_inode i j"
      using calm_inode(2) [OF assms(2) i(1)] i(3) by auto
    show ?thesis
      using i(2,3) j(1) by (simp add: same_inode_simps [OF j(2)])
  qed
  then show ?thesis
    using assms(1,3) unfolding pool_ok_def calm_env [OF assms(2)] by fast
qed

lemma resolve_pathat_ok:
  assumes ok: "pool_ok p ext" and mem: "p_mem p = []" and start: "starts p ext dir path"
  shows "case (case start_dir p dir path of None \<Rightarrow> Some (Inl ENOENT)
        | Some d \<Rightarrow> if path = [] then Some (Inl ENOENT) else walk p cred flags 1 d (comps path)) of
      None \<Rightarrow> resolve_pathat p cred dir path flags = None
    | Some w \<Rightarrow> \<exists>info p'. resolve_pathat p cred dir path flags = Some (info, p') \<and> walk_result (trailing path) w info \<and>
        pool_ok p' (plus_ref ext (pi_parent info)) \<and> calm p p' \<and> p_mem p' = []"
proof (cases "path = []")
  case True
  then show ?thesis
    using ok mem
    by (auto simp: resolve_pathat_def resolve_pathat_nested_def path_start_def path_error_def walk_result_def plus_ref_def
        start_dir_def split: option.splits)
next
  case False
  obtain d where d: "start_dir p dir path = Some d" "0 < ext d + pool_refs p d" "linked_inode p d" "CHR 0x00 \<notin> set path"
    using start False by (auto simp: starts_def split: option.splits)
  let ?tot = "\<lambda>n. ext n + pool_refs p n"
  define path1 where "path1 = (if hd path = slash then skip_slashes path else path)"
  have s: "path_start p dir path 1 = Inr (Some d, path1, ending_slashes path1)"
    using False d(1) by (auto simp: path_start_def path1_def start_dir_def ending_slashes_def split: if_splits)
  have c: "comps path1 = comps path" and nul: "CHR 0x00 \<notin> set path1"
    using d(4) by (auto simp: path1_def dest: set_dropWhileD)
  have hd1: "path1 = [] \<or> hd path1 \<noteq> slash"
    using hd_dropWhile [of "\<lambda>x. x = slash" path] by (auto simp: path1_def)
  have inv: "pool_inv p ?tot"
    using ok by (simp add: pool_ok_def)
  obtain v where v: "p_vinodes p d = Some v"
    using pool_inv_vnode [OF inv d(2)] by blast
  obtain p1 where p1: "vinode_ref p (Some d) = Some (d, p1)" "pool_inv p1 (?tot(d := Suc (?tot d)))" "calm p p1" "p_mem p1 = p_mem p"
    by (rule vinode_ref_ok [OF inv v]) (rule that)
  have r1: "ready p1 (?tot(d := Suc (?tot d))) d"
    using p1 mem d(3) pool_ok_root [OF ok] ok calm_linkedD [OF p1(3)]
    by (auto simp: ready_def calm_env [OF p1(3)] pool_ok_def)
  have w: "walk p1 cred flags 1 d (comps path1) = walk p cred flags 1 d (comps path)"
    unfolding c by (rule walk_calm [OF p1(3) inv]) (use d(3) pool_ok_root [OF ok] in auto)
  have k: "ending_slashes path1 = trailing path"
  proof (cases "comps path = []")
    case True
    then have "set path1 \<subseteq> {slash}"
      by (simp only: c [symmetric] comps_Nil)
    then have "path1 = []"
      using hd1 by (cases path1) auto
    then show ?thesis
      using True by (simp add: trailing_def ending_slashes_def)
  next
    case False
    then show ?thesis
      using ending_slashes_skip [of path] by (simp add: path1_def trailing_def)
  qed
  have eq: "resolve_pathat p cred dir path flags = resolve_loop p1 cred d path1 (trailing path) flags 1"
    using s p1(1) k by (simp add: resolve_pathat_def resolve_pathat_nested_def)
  note F = resolve_loop_follows [OF r1 hd1 nul, of cred flags 1, unfolded w k]
  show ?thesis
  proof (cases "walk p cred flags 1 d (comps path)")
    case None
    then show ?thesis
      using F d(1) False by (simp add: eq follows_def)
  next
    case (Some w)
    then obtain info p' where r: "resolve_loop p1 cred d path1 (trailing path) flags 1 = Some (info, p')" "calm p1 p'"
      "p_mem p' = []" "pool_inv p' (refs_after (?tot(d := Suc (?tot d))) d info)" "walk_result (trailing path) w info"
      using F by (auto simp: follows_def)
    have "refs_after (?tot(d := Suc (?tot d))) d info = (\<lambda>n. plus_ref ext (pi_parent info) n + pool_refs p n)"
      by (auto simp: refs_after_def plus_ref_def fun_eq_iff split: option.splits)
    then have "pool_ok p' (plus_ref ext (pi_parent info))"
      using pool_ok_calm [OF ok calm_trans [OF p1(3) r(2)]] r(4) by simp
    then show ?thesis
      using Some d(1) False r calm_trans [OF p1(3) r(2)] by (simp add: eq)
  qed
qed

end
