(* ===== verification/Unlink_Correct.thy ===== *)
theory Unlink_Correct
  imports Remove_Name Resolve
begin

text \<open>
  \<^verbatim>\<open>unlink\<close> from the path to the freed inode: it removes the one name that the walk finds, and nothing else.
\<close>

section \<open>Steps that the operations on names share\<close>

lemma calm_dirs: "calm p q \<Longrightarrow> dirs (p_inodes q) \<subseteq> dirs (p_inodes p)"
proof
  fix d
  assume c: "calm p q" and "d \<in> dirs (p_inodes q)"
  then obtain j where j: "p_inodes q d = Some j" "inode_is_dir j"
    by (auto simp: dirs_def)
  obtain i where i: "p_inodes p d = Some i"
    using calm_inode(1) [OF c, of d] j(1) by (cases "p_inodes p d") auto
  have "same_inode i j"
    using calm_inode(2) [OF c i] j(1) by auto
  then show "d \<in> dirs (p_inodes p)"
    using i j(2) by (auto simp: dirs_def same_inode_simps)
qed

lemma calm_dom: "calm p q \<Longrightarrow> dom (p_inodes q) \<subseteq> dom (p_inodes p)"
  using calm_inode(1) by (fastforce simp: dom_def)

lemma links_calm:
  assumes c: "calm p q" and inv: "pool_inv p tot" and fin: "finite (dom (p_inodes p))" and "n \<noteq> 0"
  shows "links (p_inodes q) (p_dir q) n = links (p_inodes p) (p_dir p) n"
proof -
  have "finite (dirs (p_inodes p))"
    by (rule finite_subset [OF _ fin]) (auto simp: dirs_def)
  moreover have "count_list (map d_inode (concat (p_dir p d))) n = 0" if d: "d \<in> dirs (p_inodes p) - dirs (p_inodes q)" for d
  proof -
    obtain i where i: "p_inodes p d = Some i" "inode_is_dir i"
      using d by (auto simp: dirs_def)
    have "inode_get_nlink i = 0"
      using calm_inode(2) [OF c i(1)] i d by (auto simp: dirs_def same_inode_simps)
    then have "\<forall>e \<in> set (concat (p_dir p d)). d_inode e = 0"
      using ns_invD(5) [OF inv [unfolded pool_inv_def] i] by (simp add: dir_ok_def)
    then show ?thesis
      using assms(4) by (auto simp: count_list_0_iff)
  qed
  ultimately show ?thesis
    unfolding links_def calm_env [OF c] using calm_dirs [OF c] by (intro sum.mono_neutral_left) auto
qed

lemma links_ok_calm:
  assumes c: "calm p q" and inv: "pool_inv p tot" and ok: "links_ok (p_inodes p) (p_dir p)"
  shows "links_ok (p_inodes q) (p_dir q)"
proof (rule links_okI)
  show "finite (dom (p_inodes q))"
    by (rule finite_subset [OF calm_dom [OF c] links_okD(1) [OF ok]])
  fix n j
  assume j: "p_inodes q n = Some j"
  obtain i where i: "p_inodes p n = Some i"
    using calm_inode(1) [OF c, of n] j by (cases "p_inodes p n") auto
  have "same_inode i j"
    using calm_inode(2) [OF c i] j by auto
  moreover have "n \<noteq> 0"
    using ns_invD(2) [OF inv [unfolded pool_inv_def]] i by (metis option.distinct(1))
  ultimately show "inode_get_nlink j = links (p_inodes q) (p_dir q) n \<and> inode_get_nlink j < W64"
    using links_okD(2,3) [OF ok i] links_calm [OF c inv links_okD(1) [OF ok]] by (simp add: same_inode_simps)
qed

text \<open>Looking the name up again after locking finds the same entry.\<close>

lemma strchr_slashes:
  "slash \<notin> set name \<Longrightarrow> strchr (name @ replicate k slash) slash = (if k = 0 then None else Some (replicate k slash))"
  by (cases k) (auto simp: strchr_None strchr_Some)

lemma component_length_slashes: "slash \<notin> set name \<Longrightarrow> component_length (name @ replicate k slash) = length name"
  by (simp add: component_length_def strchr_slashes)

lemma lock_ok:
  assumes inv: "pool_inv p tot" and mem: "p_mem p = []" and v: "p_vinodes p dir = Some v" and i: "p_inodes p dir = Some i" "inode_is_dir i"
    and name: "CHR 0x00 \<notin> set name" "slash \<notin> set name" "name \<noteq> []"
    and info: "pi_parent info = Some dir" "pi_remaining info = Some (name @ replicate k slash)"
  shows "if length name > PMEMFILE_MAX_FILE_NAME
    then lock_until_no_race p info = Some (- int ENAMETOOLONG, \<lparr>di_vinode = Inl ENAMETOOLONG, di_dirent = None\<rparr>, p)
    else (case entry (p_dir p dir) name of
        None \<Rightarrow> lock_until_no_race p info = Some (- int ENOENT, \<lparr>di_vinode = Inl ENOENT, di_dirent = None\<rparr>, p)
      | Some n \<Rightarrow> \<exists>ptr p'. lock_until_no_race p info = Some (0, \<lparr>di_vinode = Inr n, di_dirent = Some ptr\<rparr>, p') \<and>
          ptr_ok (p_dir p dir) ptr \<and> dirent_at p dir ptr = \<lparr>d_inode = n, d_name = name\<rparr> \<and>
          pool_inv p' (tot(n := Suc (tot n))) \<and> calm p p' \<and> p_mem p' = [] \<and> p_vinodes p' n \<noteq> None)"
proof -
  let ?r = "name @ replicate k slash"
  have r: "CHR 0x00 \<notin> set ?r" "0 < length name" "length name \<le> length ?r" "take (length name) ?r = name"
    using name by (auto simp: slash_def)
  note len = component_length_slashes [OF name(2), of k]
  note first = lookup_by_name_ok [OF inv i(1) r(1,3), unfolded r(4)]
  show ?thesis
  proof (cases "length name > PMEMFILE_MAX_FILE_NAME")
    case True
    then show ?thesis
      using first i(2) info len
      by (subst lock_until_no_race.simps) (simp add: lock_parent_and_child_def vinode_lookup_vinode_by_name_locked_def)
  next
    case short: False
    then have short': "length name \<le> PMEMFILE_MAX_FILE_NAME"
      by simp
    note look = lookup_vinode_ok [OF inv mem v i r(1-3) short', unfolded r(4)]
    show ?thesis
    proof (cases "entry (p_dir p dir) name")
      case None
      then show ?thesis
        using look short info len by (subst lock_until_no_race.simps) (simp add: lock_parent_and_child_def)
    next
      case (Some n)
      then obtain ptr p' where p': "vinode_lookup_vinode_by_name_locked p dir ?r (length name) = Some (\<lparr>di_vinode = Inr n, di_dirent = Some ptr\<rparr>, p')"
        "pool_inv p' (tot(n := Suc (tot n)))" "calm p p'" "p_mem p' = []" "p_vinodes p' n \<noteq> None"
        using look by auto
      have "linked_inode p dir"
        using entry_ok(3) [OF inv i Some name(3)] i by (simp add: linked_inode_def)
      then obtain j where j: "p_inodes p' dir = Some j" "inode_is_dir j"
        using calm_linked [OF p'(3)] i by (metis option.inject same_inode_simps(8))
      obtain ptr' where ptr': "vinode_lookup_dirent_by_name_locked p' dir ?r (length name) = Some (Inr ptr')"
        "ptr_ok (p_dir p dir) ptr'" "dirent_at p' dir ptr' = \<lparr>d_inode = n, d_name = name\<rparr>"
        using lookup_by_name_ok [OF p'(2) j(1) r(1,3), unfolded r(4) calm_env [OF p'(3)]] j(2) short Some by auto
      have "dirent_at p dir ptr' = \<lparr>d_inode = n, d_name = name\<rparr>"
        using ptr'(3) by (simp add: dirent_at_def calm_env [OF p'(3)])
      then show ?thesis
        using Some short info len p' ptr' by (subst lock_until_no_race.simps) (simp add: lock_parent_and_child_def)
    qed
  qed
qed

section \<open>Unlinking\<close>

definition unlink_body :: "nat \<Rightarrow> dirent_ptr \<Rightarrow> nat \<Rightarrow> pmemfile_time \<Rightarrow> pool \<Rightarrow> unit body" where
  "unlink_body dir ptr n tm q =
     tx_then (vinode_unlink_file dir ptr n tm q) (\<lambda>_ q1.
       do {
         j \<leftarrow> p_inodes q1 n;
         if inode_get_nlink j = 0 then vinode_orphan q1 n else Some (Inr (), q1)
       })"

text \<open>What the transaction leaves of the state besides the entry and the volatile inode.\<close>

definition name_removed :: "pool \<Rightarrow> nat \<Rightarrow> dirent_ptr \<Rightarrow> nat \<Rightarrow> pool \<Rightarrow> bool" where
  "name_removed p dir ptr n p' \<longleftrightarrow> relinked (sub_one n) (p_inodes p) (p_inodes p') \<and>
     p_dir p' = (p_dir p)(dir := put (p_dir p dir) ptr free_dirent) \<and> p_orphaned p' = p_orphaned p \<and>
     p_symlink p' = p_symlink p \<and> p_root p' = p_root p \<and> p_cwd p' = p_cwd p \<and> p_mem p' = p_mem p"

lemma entry_not_dots:
  assumes inv: "pool_inv p tot" and v: "p_vinodes p dir = Some v" and i: "p_inodes p dir = Some i" "inode_is_dir i"
    and e: "entry (p_dir p dir) name = Some n" "name \<noteq> []" and n: "p_inodes p n = Some c" "\<not> inode_is_dir c"
  shows "name \<noteq> ''.''" and "name \<noteq> ''..''"
proof -
  obtain q j where q: "p_inodes p q = Some j" "inode_is_dir j" "dots dir q (p_dir p dir)"
    using vnode_dir [OF inv v i(1)] i(2) entry_ok(3) [OF inv i e] by auto
  then show "name \<noteq> ''.''" and "name \<noteq> ''..''"
    using entry_dots [OF q(3)] e(1) i n by auto
qed

text \<open>The last name of a file: it is registered as orphaned in the same transaction.\<close>

lemma orphan_ok:
  assumes inv: "pool_inv p tot" and fresh: "fresh_alloc (p_new_array p)" and arr: "p_arr p = tx_begin (ia_heap (p_arr p))"
    and n: "p_inodes p n = Some c" "\<not> inode_is_dir c" "inode_get_nlink c \<noteq> 0" and v: "p_vinodes p n = Some v"
    and ns: "ns_inv (p_inodes p) (p_dir q) (p_vinodes p) (ia_heap (p_arr p)) (p_orphaned p) tot"
    and so: "same_other p q" and J: "relinked (sub_one n) (p_inodes p) (p_inodes q)"
    and zero: "inode_get_nlink j = 0" "p_inodes q n = Some j" and links: "links_ok (p_inodes q) (p_dir q)"
  obtains pos t where "vinode_orphan q n = Some (Inr (), upd_vnode n (\<lambda>v. v\<lparr>v_orphaned := Some pos\<rparr>) (q\<lparr>p_arr := t\<rparr>))"
      and "ns_inv (p_inodes q) (p_dir q) ((p_vinodes p)(n \<mapsto> v\<lparr>v_orphaned := Some pos\<rparr>)) (tx_commit t) (p_orphaned p) tot"
    | "vinode_orphan q n = Some (Inl ENOMEM, q)" and "p_new_array p (ia_heap (p_arr p)) = None"
proof -
  obtain as where as: "chain (ia_heap (p_arr p)) as None (Some (p_orphaned p))"
    using ns_invD(7) [OF ns] by (auto simp: orphans_ok_def)
  have kin: "kin c j"
    using relinkedD(1) [OF J n(1)] zero(2) by auto
  have susp: "suspended_references j = 0"
    using kin ns_invD(3) [OF ns n(1)] by (simp add: kin_def inode_ok_def)
  have eqs: "p_arr q = p_arr p" "p_orphaned q = p_orphaned p" "p_new_array q = p_new_array p" "p_vinodes q = p_vinodes p"
    using so by (simp_all add: same_other_def)
  have un: "vinode_orphan q n = tx_then (inode_orphan q n) (\<lambda>pos p1. Some (Inr (), upd_vnode n (\<lambda>v. v\<lparr>v_orphaned := Some pos\<rparr>) p1))"
    using zero(2) susp by (simp add: vinode_orphan_def vinode_orphan_unlocked_def)
  have "(\<exists>pos t. inode_array_add (p_new_array p) (p_orphaned p) n (p_arr p) = Some (Inr pos, t)) \<or>
      inode_array_add (p_new_array p) (p_orphaned p) n (p_arr p) = Some (Inl ENOMEM, p_arr p) \<and> p_new_array p (ia_heap (p_arr p)) = None"
    using inode_array_add_cases [OF as fresh, of n] by auto
  then consider (added) pos t where "inode_array_add (p_new_array p) (p_orphaned p) n (p_arr p) = Some (Inr pos, t)"
    | (full) "inode_array_add (p_new_array p) (p_orphaned p) n (p_arr p) = Some (Inl ENOMEM, p_arr p)" "p_new_array p (ia_heap (p_arr p)) = None"
    by (elim disjE exE conjE)
  then show thesis
  proof cases
    case added
    have none: "d_inode e \<noteq> n" if m: "p_inodes p m = Some k" "inode_is_dir k" "e \<in> set (concat (p_dir q m))" for m k e
    proof -
      obtain l where l: "p_inodes q m = Some l" "inode_is_dir l"
        using relinkedD(1) [OF J m(1)] kin_type(1) m(2) by auto
      show ?thesis
        by (rule links_zero [where D = "p_dir q", OF _ links_okD(1) [OF links] l m(3)])
          (use links_okD(2) [OF links zero(2)] zero(1) in simp)
    qed
    have alike: "rel_option alike (p_inodes p m) (p_inodes q m)" if "m \<noteq> n" for m
      using that by (intro relinked_alike [OF J]) (simp add: sub_one_def)
    have "ns_inv (p_inodes q) (p_dir q) ((p_vinodes p)(n \<mapsto> v\<lparr>v_orphaned := Some pos\<rparr>)) (tx_commit t) (p_orphaned p) tot"
      by (rule ns_inv_orphan [OF ns v n(1,3) alike zero(2) kin zero(1) none _ fresh])
        (use added arr n(2) in auto)
    then show thesis
      using that(1) [of pos t] added un eqs by (simp add: inode_orphan_def tx_then_def)
  next
    case full
    then show thesis
      using that(2) un eqs by (simp add: inode_orphan_def tx_then_def)
  qed
qed

lemma sub64_zero: "0 < k \<Longrightarrow> k < W64 \<Longrightarrow> sub64 k 1 = k - 1"
  using sub64_exact [of 1 k] by simp

lemma tx_begin_heap [simp]: "ia_heap (tx_begin h) = h" "tx_abort (tx_begin h) = h" "tx_commit t = ia_heap t"
  by (simp_all add: tx_begin_def tx_abort_def tx_commit_def)

lemma run_tx_abort:
  assumes "f (p\<lparr>p_arr := tx_begin (ia_heap (p_arr p))\<rparr>) = Some (Inl e, q)" and "pool_inv p tot"
    and "same_other (p\<lparr>p_arr := tx_begin (ia_heap (p_arr p))\<rparr>) q" and "p_space q = p_space p"
  obtains p' where "run_tx f p = Some (Inl e, p')" and "pool_inv p' tot" and "calm p p'" and "p_mem p' = p_mem p"
proof
  let ?p' = "q\<lparr>p_inodes := p_inodes p, p_dir := p_dir p, p_symlink := p_symlink p, p_file := p_file p,
    p_arr := tx_begin (tx_abort (p_arr q)), p_orphaned := p_orphaned p\<rparr>"
  show "run_tx f p = Some (Inl e, ?p')"
    using assms(1) by (simp add: run_tx_def)
  show "pool_inv ?p' tot" "calm p ?p'" "p_mem ?p' = p_mem p"
    using assms(2-4) by (simp_all add: pool_inv_def same_other_def calm_def)
qed

lemma run_tx_commit:
  assumes "f (p\<lparr>p_arr := tx_begin (ia_heap (p_arr p))\<rparr>) = Some (Inr x, q)" and "pool_inv q tot"
  obtains p' where "run_tx f p = Some (Inr x, p')" and "p' = q\<lparr>p_arr := tx_begin (ia_heap (p_arr q))\<rparr>" and "pool_inv p' tot"
  using assms by (simp add: run_tx_def pool_inv_def)

lemma unlink_tx_ok:
  assumes inv: "pool_inv p tot" and ok: "links_ok (p_inodes p) (p_dir p)" and fresh: "fresh_alloc (p_new_array p)"
    and i: "p_inodes p dir = Some i" "inode_is_dir i" and n: "p_inodes p n = Some c" "\<not> inode_is_dir c"
    and v: "p_vinodes p n = Some v" "p_vinodes p dir = Some w" and e: "entry (p_dir p dir) name = Some n" "name \<noteq> []"
    and ptr: "ptr_ok (p_dir p dir) ptr" "dirent_at p dir ptr = \<lparr>d_inode = n, d_name = name\<rparr>"
  obtains (removed) p' where "run_tx (unlink_body dir ptr n tm) p = Some (Inr (), p')" and "pool_inv p' tot"
      and "links_ok (p_inodes p') (p_dir p')" and "name_removed p dir ptr n p'"
    | (full) p' where "run_tx (unlink_body dir ptr n tm) p = Some (Inl ENOMEM, p')" and "pool_inv p' tot" and "calm p p'" and "p_mem p' = p_mem p"
      and "p_new_array p (ia_heap (p_arr p)) = None"
proof -
  define q where "q = p\<lparr>p_arr := tx_begin (ia_heap (p_arr p))\<rparr>"
  have inv': "pool_inv q tot" and at: "dirent_at q dir ptr = \<lparr>d_inode = n, d_name = name\<rparr>"
    using inv ptr(2) by (simp_all add: q_def pool_inv_def dirent_at_def split: prod.splits)
  have q: "p_inodes q = p_inodes p" "p_dir q = p_dir p" "p_vinodes q = p_vinodes p" "p_new_array q = p_new_array p"
    "p_orphaned q = p_orphaned p" "p_symlink q = p_symlink p" "p_root q = p_root p" "p_cwd q = p_cwd p" "p_mem q = p_mem p"
    "ia_heap (p_arr q) = ia_heap (p_arr p)" "p_space q = p_space p"
    and arr: "p_arr q = tx_begin (ia_heap (p_arr q))"
    by (simp_all add: q_def)
  note dots = entry_not_dots [OF inv v(2) i e n]
  have lk: "inode_get_nlink i \<noteq> 0" "inode_get_nlink c \<noteq> 0" "n \<noteq> 0"
    using entry_ok(1-3) [OF inv i e] n(1) by auto
  have cnt: "sub64 (inode_get_nlink c) 1 = inode_get_nlink c - 1"
    by (rule sub64_zero) (use lk(2) links_okD(3) [OF ok n(1)] in auto)
  obtain q1 where q1: "vinode_unlink_file dir ptr n tm q = Some (Inr (), q1)" "entry_removed q dir ptr n q1"
    by (rule unlink_file_ok [OF at, of c]) (use n q in auto)
  have rel: "relinked (sub_one n) (p_inodes p) (p_inodes q1)" and so: "same_other q q1" and sp: "p_space q1 = p_space p"
    and d1: "p_dir q1 = (p_dir p)(dir := put (p_dir p dir) ptr free_dirent)"
    using q1(2) q by (simp_all add: entry_removed_def)
  obtain j where j: "p_inodes q1 n = Some j" "inode_get_nlink j = inode_get_nlink c - 1"
    using relinkedD(1) [OF rel n(1)] cnt by (auto simp: sub_one_def)
  have links: "links_ok (p_inodes q1) (p_dir q1)"
    by (rule entry_removed_links_ok [OF q1(2)])
      (use ok i ptr at q ns_invD(2) [OF inv [unfolded pool_inv_def]] in \<open>auto simp: dirs_def\<close>)
  note inv1 = entry_removed_inv [OF q1(2) inv', unfolded q, OF i lk(1) ptr(1) at dots]
  have res: "unlink_body dir ptr n tm q = (if inode_get_nlink j = 0 then vinode_orphan q1 n else Some (Inr (), q1))"
    using q1(1) j(1) by (simp add: unlink_body_def tx_then_def)
  show thesis
  proof (cases "inode_get_nlink j = 0")
    case False
    have "pool_inv q1 tot"
      by (rule inv1(2)) (use False j n lk cnt in auto)
    with False res [unfolded q_def] obtain p' where "run_tx (unlink_body dir ptr n tm) p = Some (Inr (), p')"
      "p' = q1\<lparr>p_arr := tx_begin (ia_heap (p_arr q1))\<rparr>" "pool_inv p' tot"
      using run_tx_commit [of "unlink_body dir ptr n tm" p "()" q1 tot] by auto
    then show thesis
      using removed links rel so d1 q by (simp add: name_removed_def same_other_def)
  next
    case True
    show thesis
    proof (rule orphan_ok [of q tot n c v q1 j])
      fix pos t
      let ?q2 = "upd_vnode n (\<lambda>v. v\<lparr>v_orphaned := Some pos\<rparr>) (q1\<lparr>p_arr := t\<rparr>)"
      assume o: "vinode_orphan q1 n = Some (Inr (), ?q2)"
        and ns: "ns_inv (p_inodes q1) (p_dir q1) ((p_vinodes q)(n \<mapsto> v\<lparr>v_orphaned := Some pos\<rparr>)) (tx_commit t) (p_orphaned q) tot"
      have "p_vinodes q1 n = Some v"
        using so v q by (simp add: same_other_def)
      then have "pool_inv ?q2 tot"
        using ns so by (simp add: pool_inv_def same_other_def upd_vnode_def)
      with True o res [unfolded q_def] obtain p' where "run_tx (unlink_body dir ptr n tm) p = Some (Inr (), p')"
        "p' = ?q2\<lparr>p_arr := tx_begin (ia_heap (p_arr ?q2))\<rparr>" "pool_inv p' tot"
        using run_tx_commit [of "unlink_body dir ptr n tm" p "()" ?q2 tot] by auto
      then show thesis
        using removed links rel so d1 q by (simp add: name_removed_def same_other_def upd_vnode_def)
    next
      assume o: "vinode_orphan q1 n = Some (Inl ENOMEM, q1)" and none: "p_new_array q (ia_heap (p_arr q)) = None"
      show thesis
        by (rule run_tx_abort [of "unlink_body dir ptr n tm" p ENOMEM q1 tot])
          (use o none full res True so sp inv q in \<open>simp_all add: q_def [symmetric]\<close>)
    qed (use inv' fresh n v lk inv1(1) so rel True j(1) links q arr in \<open>simp_all only: simp_thms\<close>)
  qed
qed

section \<open>What a removed name changes\<close>

definition removed :: "pool \<Rightarrow> nat \<Rightarrow> string \<Rightarrow> nat \<Rightarrow> pool \<Rightarrow> bool" where
  "removed p dir name n p' \<longleftrightarrow>
     (\<forall>d s. s \<noteq> [] \<longrightarrow> entry (p_dir p' d) s = (if d = dir \<and> s = name then None else entry (p_dir p d) s)) \<and>
     p_symlink p' = p_symlink p \<and> p_root p' = p_root p \<and> p_cwd p' = p_cwd p \<and>
     (\<forall>m. p_inodes p m = None \<longrightarrow> p_inodes p' m = None) \<and>
     (\<forall>m i. p_inodes p m = Some i \<and> inode_get_nlink i \<noteq> 0 \<longrightarrow>
        (case p_inodes p' m of
           None \<Rightarrow> m = n \<and> inode_get_nlink i = 1
         | Some j \<Rightarrow> kin i j \<and> inode_get_nlink j = inode_get_nlink i - (if m = n then 1 else 0)))"

lemma removedD:
  assumes "removed p dir name n p'" and "p_inodes p m = Some i" and "inode_get_nlink i \<noteq> 0"
  shows "case p_inodes p' m of None \<Rightarrow> m = n \<and> inode_get_nlink i = 1
    | Some j \<Rightarrow> kin i j \<and> inode_get_nlink j = inode_get_nlink i - (if m = n then 1 else 0)"
  using assms by (simp add: removed_def)

lemma same_inode_kin: "same_inode i j \<Longrightarrow> kin i j"
  by (simp add: kin_def same_inode_simps)

lemma removed_after_calm:
  assumes c: "calm p q" and r: "removed q dir name n p'"
  shows "removed p dir name n p'"
proof -
  have "case p_inodes p' m of None \<Rightarrow> m = n \<and> inode_get_nlink i = 1
      | Some j \<Rightarrow> kin i j \<and> inode_get_nlink j = inode_get_nlink i - (if m = n then 1 else 0)"
    if i: "p_inodes p m = Some i" "inode_get_nlink i \<noteq> 0" for m i
  proof -
    obtain j where j: "p_inodes q m = Some j" "same_inode i j"
      using calm_inode(2) [OF c i(1)] i(2) by auto
    have eq: "inode_get_nlink j = inode_get_nlink i"
      by (rule same_inode_simps(1) [OF j(2)])
    have "case p_inodes p' m of None \<Rightarrow> m = n \<and> inode_get_nlink j = 1
      | Some k \<Rightarrow> kin j k \<and> inode_get_nlink k = inode_get_nlink j - (if m = n then 1 else 0)"
      using r j(1) i(2) eq by (auto simp: removed_def)
    then show ?thesis
      unfolding eq using kin_trans [OF same_inode_kin [OF j(2)]] by (cases "p_inodes p' m") auto
  qed
  then show ?thesis
    using r calm_inode(1) [OF c] unfolding removed_def calm_env [OF c] by blast
qed

lemma removed_then_calm:
  assumes r: "removed p dir name n q" and c: "calm q p'"
  shows "removed p dir name n p'"
proof -
  have "case p_inodes p' m of None \<Rightarrow> m = n \<and> inode_get_nlink i = 1
      | Some j \<Rightarrow> kin i j \<and> inode_get_nlink j = inode_get_nlink i - (if m = n then 1 else 0)"
    if i: "p_inodes p m = Some i" "inode_get_nlink i \<noteq> 0" for m i
  proof -
    have q: "case p_inodes q m of None \<Rightarrow> m = n \<and> inode_get_nlink i = 1
      | Some j \<Rightarrow> kin i j \<and> inode_get_nlink j = inode_get_nlink i - (if m = n then 1 else 0)"
      by (rule removedD [OF r i])
    show ?thesis
    proof (cases "p_inodes q m")
      case None
      then show ?thesis
        using q calm_inode(1) [OF c None] by simp
    next
      case (Some j)
      then have j: "kin i j" "inode_get_nlink j = inode_get_nlink i - (if m = n then 1 else 0)"
        using q by simp_all
      show ?thesis
      proof (cases "p_inodes p' m")
        case None
        then have "inode_get_nlink j = 0"
          using calm_inode(2) [OF c Some] by auto
        then show ?thesis
          using None j(2) i(2) by (auto split: if_splits)
      next
        case (Some k)
        then have "same_inode j k"
          using calm_inode(2) [OF c \<open>p_inodes q m = Some j\<close>] by auto
        then show ?thesis
          using Some j kin_trans [OF j(1) same_inode_kin] by (simp add: same_inode_simps)
      qed
    qed
  qed
  then show ?thesis
    using r calm_inode(1) [OF c] unfolding removed_def calm_env [OF c] by blast
qed

lemma name_removed_removed:
  assumes r: "name_removed p dir ptr n q" and inv: "pool_inv p tot" and i: "p_inodes p dir = Some i" "inode_is_dir i"
    and ptr: "ptr_ok (p_dir p dir) ptr" "dirent_at p dir ptr = \<lparr>d_inode = n, d_name = name\<rparr>" and name: "name \<noteq> []"
    and ok: "links_ok (p_inodes p) (p_dir p)"
  shows "removed p dir name n q"
proof -
  have rel: "relinked (sub_one n) (p_inodes p) (p_inodes q)" and d: "p_dir q = (p_dir p)(dir := put (p_dir p dir) ptr free_dirent)"
    using r by (simp_all add: name_removed_def)
  define q' where "q' = p\<lparr>p_inodes := p_inodes q, p_dir := p_dir q\<rparr>"
  have e: "entry_removed p dir ptr n q'"
    using rel d by (simp add: entry_removed_def same_other_def q'_def)
  have "entry (p_dir q d) s = (if d = dir \<and> s = name then None else entry (p_dir p d) s)" if "s \<noteq> []" for d s
    using entry_removed_lookup(1) [OF e inv i ptr name] entry_removed_lookup(2) [OF e inv i ptr name, of s] that \<open>p_dir q = _\<close>
    by (auto simp: q'_def)
  moreover have "\<exists>j. p_inodes q m = Some j \<and> kin i j \<and> inode_get_nlink j = inode_get_nlink i - (if m = n then 1 else 0)"
    if i: "p_inodes p m = Some i" "inode_get_nlink i \<noteq> 0" for m i
  proof -
    have "sub64 (inode_get_nlink i) 1 = inode_get_nlink i - 1"
      by (rule sub64_zero) (use i links_okD(3) [OF ok i(1)] in auto)
    then show ?thesis
      using relinkedD(1) [OF rel i(1)] by (auto simp: sub_one_def)
  qed
  ultimately show ?thesis
    using r relinkedD(3) [OF rel] unfolding removed_def name_removed_def by fastforce
qed

section \<open>The whole operation\<close>

text \<open>The error that unlinking a name of a directory gives; \<open>k\<close> slashes follow the name.\<close>

definition unlink_check :: "pool \<Rightarrow> pmemfile_cred \<Rightarrow> nat \<Rightarrow> string \<Rightarrow> nat \<Rightarrow> errno option" where
  "unlink_check p cred dir name k =
     (if k \<noteq> 0 then Some ENOTDIR
      else if length name > PMEMFILE_MAX_FILE_NAME then Some ENAMETOOLONG
      else
        (case entry (p_dir p dir) name of
           None \<Rightarrow> Some ENOENT
         | Some n \<Rightarrow>
             if vinode_can_access cred p dir PFILE_WANT_WRITE \<noteq> Some True then Some EACCES
             else if n \<in> dirs (p_inodes p) then Some EISDIR
             else None))"

lemma linked_dirs:
  assumes "calm p q" and "linked_inode p n"
  shows "n \<in> dirs (p_inodes q) \<longleftrightarrow> n \<in> dirs (p_inodes p)" and "vinode_can_access cred q n acc = vinode_can_access cred p n acc"
proof -
  obtain i j where "p_inodes p n = Some i" "p_inodes q n = Some j" "same_inode i j"
    by (rule calm_linked [OF assms])
  then show "n \<in> dirs (p_inodes q) \<longleftrightarrow> n \<in> dirs (p_inodes p)" and "vinode_can_access cred q n acc = vinode_can_access cred p n acc"
    by (auto simp: dirs_def same_inode_simps vinode_can_access_def calm_perms [OF assms])
qed

lemma unlink_check_calm:
  assumes c: "calm p q" and inv: "pool_inv p tot" and i: "p_inodes p dir = Some i" "inode_is_dir i" and "name \<noteq> []"
  shows "unlink_check q cred dir name k = unlink_check p cred dir name k"
proof (cases "entry (p_dir p dir) name")
  case None
  then show ?thesis
    by (simp add: unlink_check_def calm_env [OF c])
next
  case (Some n)
  note e = entry_ok(2,3) [OF inv i Some assms(5)]
  have "linked_inode p n" "linked_inode p dir"
    using e i by (auto simp: linked_inode_def)
  then show ?thesis
    using Some by (simp add: unlink_check_def calm_env [OF c] linked_dirs [OF c])
qed

definition unlink_named :: "pmemfile_time \<Rightarrow> pmemfile_cred \<Rightarrow> path_info \<Rightarrow> pool \<Rightarrow> unit body" where
  "unlink_named tm cred info p1 =
     do {
       remaining \<leftarrow> pi_remaining info;
       parent \<leftarrow> pi_parent info;
       if strchr remaining slash \<noteq> None then Some (Inl ENOTDIR, p1)
       else
         do {
           (e, dinfo, p2) \<leftarrow> lock_until_no_race p1 info;
           (case (di_vinode dinfo, di_dirent dinfo) of
              (Inr vinode, Some dirent) \<Rightarrow>
                do {
                  ok \<leftarrow> vinode_can_access cred p2 parent PFILE_WANT_WRITE;
                  i \<leftarrow> p_inodes p2 vinode;
                  (r, p3) \<leftarrow>
                    (if \<not> ok then Some (Inl EACCES, p2)
                     else if inode_is_dir i then Some (Inl EISDIR, p2)
                     else run_tx (unlink_body parent dirent vinode tm) p2);
                  p4 \<leftarrow> vinode_unref p3 (Some vinode);
                  Some (r, p4)
                }
            | _ \<Rightarrow> Some (Inl (nat (- e)), p2))
         }
     }"

lemma unlinkat_vinode_eq:
  "unlinkat_vinode tm dir path p0 =
     with_cred p0 (\<lambda>cred p.
       do {
         (info, p1) \<leftarrow> resolve_pathat p cred dir path 0;
         (r, p2) \<leftarrow> (if pi_error info \<noteq> 0 then Some (Inl (pi_error info), p1) else unlink_named tm cred info p1);
         p3 \<leftarrow> path_info_cleanup p2 info;
         Some (r, p3)
       })"
  unfolding unlinkat_vinode_def unlink_named_def unlink_body_def by simp

text \<open>The result of unlinking a name of a directory.\<close>

definition unlinked :: "pool \<Rightarrow> pmemfile_cred \<Rightarrow> nat \<Rightarrow> string \<Rightarrow> nat \<Rightarrow> errno + unit \<Rightarrow> pool \<Rightarrow> bool" where
  "unlinked p cred dir name k r p' \<longleftrightarrow>
     (case unlink_check p cred dir name k of
        Some e \<Rightarrow> r = Inl e \<and> calm p p'
      | None \<Rightarrow> r = Inl ENOMEM \<and> calm p p' \<and> (\<exists>h. p_new_array p h = None) \<or>
          r = Inr () \<and> (\<exists>n. entry (p_dir p dir) name = Some n \<and> removed p dir name n p'))"

lemma unref_done:
  assumes "pool_inv q (tot(n := Suc (tot n)))" and "links_ok (p_inodes q) (p_dir q)"
  obtains p' where "vinode_unref q (Some n) = Some p'" and "pool_inv p' tot" and "calm q p'" and "p_mem p' = p_mem q"
    and "links_ok (p_inodes p') (p_dir p')"
proof -
  obtain p' where p': "vinode_unref q (Some n) = Some p'" "pool_inv p' tot" "calm q p'" "p_mem p' = p_mem q"
    using vinode_unref_ok [OF assms(1), of n] unfolding refs_inc_dec by auto
  then show ?thesis
    using that links_ok_calm [OF p'(3) assms] by blast
qed

lemma unlink_found_ok:
  assumes inv: "pool_inv p tot" and ok: "links_ok (p_inodes p) (p_dir p)" and fresh: "fresh_alloc (p_new_array p)"
    and pos: "0 < tot dir" and i: "p_inodes p dir = Some i" "inode_is_dir i" and name: "name \<noteq> []"
    and e: "entry (p_dir p dir) name = Some n" "\<not> length name > PMEMFILE_MAX_FILE_NAME"
    and ptr: "ptr_ok (p_dir p dir) ptr" "dirent_at p dir ptr = \<lparr>d_inode = n, d_name = name\<rparr>"
    and q: "calm p q" "pool_inv q (tot(n := Suc (tot n)))" "p_mem q = []"
  shows "\<exists>r p'. do {
       ok \<leftarrow> vinode_can_access cred q dir PFILE_WANT_WRITE;
       i \<leftarrow> p_inodes q n;
       (r, p3) \<leftarrow>
         (if \<not> ok then Some (Inl EACCES, q)
          else if inode_is_dir i then Some (Inl EISDIR, q)
          else run_tx (unlink_body dir ptr n tm) q);
       p4 \<leftarrow> vinode_unref p3 (Some n);
       Some (r, p4)
     } = Some (r, p') \<and> pool_inv p' tot \<and> links_ok (p_inodes p') (p_dir p') \<and> p_mem p' = [] \<and> unlinked p cred dir name 0 r p'"
proof -
  let ?t = "tot(n := Suc (tot n))"
  have ln: "linked_inode p n" and ld: "linked_inode p dir"
    using entry_ok(2,3) [OF inv i e(1) name] i by (auto simp: linked_inode_def)
  obtain c where c: "p_inodes q n = Some c" "inode_is_dir c \<longleftrightarrow> n \<in> dirs (p_inodes p)"
    using calm_linkedD [OF q(1) ln] linked_dirs(1) [OF q(1) ln] by (auto simp: linked_inode_def dirs_def)
  obtain j where j: "p_inodes q dir = Some j" "inode_is_dir j"
    using calm_linkedD [OF q(1) ld] linked_dirs(1) [OF q(1) ld] i by (auto simp: linked_inode_def dirs_def)
  obtain b where b: "vinode_can_access cred q dir PFILE_WANT_WRITE = Some b" "vinode_can_access cred p dir PFILE_WANT_WRITE = Some b"
    using linked_dirs(2) [OF q(1) ld, of cred PFILE_WANT_WRITE] i(1) by (simp add: vinode_can_access_def vinode_get_perms_def)
  have links: "links_ok (p_inodes q) (p_dir q)"
    by (rule links_ok_calm [OF q(1) inv ok])
  note check = unlinked_def unlink_check_def e
  show ?thesis
  proof (cases "b \<and> \<not> inode_is_dir c")
    case False
    obtain p4 where "vinode_unref q (Some n) = Some p4" "pool_inv p4 tot" "calm q p4" "p_mem p4 = p_mem q" "links_ok (p_inodes p4) (p_dir p4)"
      by (rule unref_done [OF q(2) links]) (rule that)
    then show ?thesis
      using False b c q calm_trans [OF q(1), of p4] by (cases b) (simp_all add: check)
  next
    case True
    have env: "entry (p_dir q dir) name = Some n" "ptr_ok (p_dir q dir) ptr" "dirent_at q dir ptr = \<lparr>d_inode = n, d_name = name\<rparr>"
      "fresh_alloc (p_new_array q)"
      using e ptr fresh by (simp_all add: calm_env [OF q(1)] dirent_at_def)
    have "0 < ?t n" "0 < ?t dir"
      using pos by simp_all
    then obtain v w where v: "p_vinodes q n = Some v" "p_vinodes q dir = Some w"
      using pool_inv_vnode [OF q(2)] by blast
    have nd: "\<not> inode_is_dir c"
      using True by simp
    show ?thesis
    proof (rule unlink_tx_ok [OF q(2) links env(4) j c(1) nd v env(1) name env(2,3), of tm])
      fix p3
      assume p3: "run_tx (unlink_body dir ptr n tm) q = Some (Inr (), p3)" "pool_inv p3 ?t" "links_ok (p_inodes p3) (p_dir p3)"
        "name_removed q dir ptr n p3"
      obtain p4 where p4: "vinode_unref p3 (Some n) = Some p4" "pool_inv p4 tot" "calm p3 p4" "p_mem p4 = p_mem p3" "links_ok (p_inodes p4) (p_dir p4)"
        by (rule unref_done [OF p3(2,3)]) (rule that)
      have "removed p dir name n p4"
        by (rule removed_after_calm [OF q(1) removed_then_calm
            [OF name_removed_removed [OF p3(4) q(2) j env(2,3) name links] p4(3)]])
      then show ?thesis
        using True b c p3 p4 q(3) by (simp add: check name_removed_def)
    next
      fix p3
      assume p3: "run_tx (unlink_body dir ptr n tm) q = Some (Inl ENOMEM, p3)" "pool_inv p3 ?t" "calm q p3" "p_mem p3 = p_mem q"
        "p_new_array q (ia_heap (p_arr q)) = None"
      obtain p4 where p4: "vinode_unref p3 (Some n) = Some p4" "pool_inv p4 tot" "calm p3 p4" "p_mem p4 = p_mem p3" "links_ok (p_inodes p4) (p_dir p4)"
        by (rule unref_done [OF p3(2) links_ok_calm [OF p3(3) q(2) links]]) (rule that)
      have "calm p p4" and "\<exists>h. p_new_array p h = None"
        using calm_trans [OF q(1) calm_trans [OF p3(3) p4(3)]] p3(5) calm_env [OF q(1)] by auto
      then show ?thesis
        using True b c p3 p4 q(3) by (simp add: check)
    qed
  qed
qed

lemma unlink_named_ok:
  assumes inv: "pool_inv p tot" and mem: "p_mem p = []" and ok: "links_ok (p_inodes p) (p_dir p)" and fresh: "fresh_alloc (p_new_array p)"
    and pos: "0 < tot dir" and i: "p_inodes p dir = Some i" "inode_is_dir i"
    and name: "CHR 0x00 \<notin> set name" "slash \<notin> set name" "name \<noteq> []"
    and info: "pi_parent info = Some dir" "pi_remaining info = Some (name @ replicate k slash)"
  shows "\<exists>r p'. unlink_named tm cred info p = Some (r, p') \<and> pool_inv p' tot \<and> links_ok (p_inodes p') (p_dir p') \<and> p_mem p' = [] \<and>
    unlinked p cred dir name k r p'"
proof (cases "k = 0")
  case False
  then show ?thesis
    using info inv ok mem by (simp add: unlink_named_def strchr_slashes [OF name(2)] unlinked_def unlink_check_def)
next
  case True
  obtain v where v: "p_vinodes p dir = Some v"
    using pool_inv_vnode [OF inv pos] by blast
  note lock = lock_ok [OF inv mem v i name info]
  have un: "unlink_named tm cred info p =
    do {
      (e, dinfo, p2) \<leftarrow> lock_until_no_race p info;
      (case (di_vinode dinfo, di_dirent dinfo) of
         (Inr vinode, Some dirent) \<Rightarrow>
           do {
             ok \<leftarrow> vinode_can_access cred p2 dir PFILE_WANT_WRITE;
             i \<leftarrow> p_inodes p2 vinode;
             (r, p3) \<leftarrow>
               (if \<not> ok then Some (Inl EACCES, p2)
                else if inode_is_dir i then Some (Inl EISDIR, p2)
                else run_tx (unlink_body dir dirent vinode tm) p2);
             p4 \<leftarrow> vinode_unref p3 (Some vinode);
             Some (r, p4)
           }
       | _ \<Rightarrow> Some (Inl (nat (- e)), p2))
    }"
    using info True strchr_slashes [OF name(2), of 0] by (simp add: unlink_named_def)
  show ?thesis
  proof (cases "length name > PMEMFILE_MAX_FILE_NAME \<or> entry (p_dir p dir) name = None")
    case bad: True
    then show ?thesis
      using lock inv ok mem True unfolding un by (auto simp: unlinked_def unlink_check_def split: if_splits)
  next
    case False
    then obtain n where n: "entry (p_dir p dir) name = Some n" "\<not> length name > PMEMFILE_MAX_FILE_NAME"
      by auto
    then obtain ptr q where q: "lock_until_no_race p info = Some (0, \<lparr>di_vinode = Inr n, di_dirent = Some ptr\<rparr>, q)"
      "ptr_ok (p_dir p dir) ptr" "dirent_at p dir ptr = \<lparr>d_inode = n, d_name = name\<rparr>"
      "pool_inv q (tot(n := Suc (tot n)))" "calm p q" "p_mem q = []"
      using lock by auto
    show ?thesis
      using unlink_found_ok [OF inv ok fresh pos i name(3) n q(2,3,5,4,6), of cred tm] True
      unfolding un q(1) by simp
  qed
qed

section \<open>The directory and the name that a walk ends with\<close>

definition proper :: "string \<Rightarrow> bool" where
  "proper name \<longleftrightarrow> name \<noteq> [] \<and> slash \<notin> set name \<and> CHR 0x00 \<notin> set name"

lemma comps_proper: "CHR 0x00 \<notin> set s \<Longrightarrow> w \<in> set (comps s) \<Longrightarrow> proper w"
  using comps_members [of w s] by (auto simp: proper_def)

lemma walk_end_result:
  assumes "walk p cred flags nest dir names = Some (Inr (d, name))" and "\<And>w. w \<in> set names \<Longrightarrow> proper w"
    and "\<And>n. CHR 0x00 \<notin> set (p_symlink p n)"
  shows "(name = [] \<or> proper name) \<and> d \<in> dirs (p_inodes p)"
  using assms
proof (induction p cred flags nest dir names rule: walk.induct)
  case (3 p cred flags nest dir name1 name2 names)
  obtain child where child: "\<not> length name1 > PMEMFILE_MAX_FILE_NAME" "step_to p (stop_at_root flags) dir name1 = Some (Inr child)"
    using 3(3) by (auto split: if_splits option.splits sum.splits)
  obtain perms where perms: "vinode_get_perms p child = Some perms"
    using 3(3) child by (auto split: if_splits option.splits)
  let ?t = "p_symlink p child"
  show ?case
  proof (cases "PMEMFILE_S_ISTYPE (perm_flags perms) PMEMFILE_S_IFLNK")
    case True
    have nest: "\<not> nest \<ge> 40"
      using 3(3) child perms True by (auto split: if_splits)
    show ?thesis
    proof (rule 3(1) [OF child(1) child(2) refl perms True nest])
      show "walk p cred flags (Suc nest) (if ?t = [] \<or> hd ?t = slash then p_root p ! 0 else dir) (comps ?t @ name2 # names) = Some (Inr (d, name))"
        using 3(3) child perms True nest by (simp add: Let_def split del: if_split cong del: if_weak_cong)
      show "proper w" if "w \<in> set (comps ?t @ name2 # names)" for w
        using that 3(4) comps_proper [OF 3(5)] by auto
    qed (use 3(5) in auto)
  next
    case False
    show ?thesis
      by (rule 3(2) [OF child(1) child(2) refl perms False]) (use 3(3-5) child perms False in \<open>auto split: if_splits\<close>)
  qed
qed (auto simp: walk_end_def dirs_def split: Option.bind_splits if_splits)

section \<open>From the path to the pool afterwards\<close>

lemma pool_ok_linksD: "pool_ok p ext \<Longrightarrow> pool_inv p (\<lambda>n. ext n + pool_refs p n)"
  by (simp add: pool_ok_def)

lemma cleanup_ok:
  assumes ok: "pool_ok q (plus_ref ext (pi_parent info))" and links: "links_ok (p_inodes q) (p_dir q)"
  obtains p' where "path_info_cleanup q info = Some p'" and "pool_ok p' ext" and "calm q p'" and "p_mem p' = p_mem q"
    and "links_ok (p_inodes p') (p_dir p')"
proof (cases "pi_parent info")
  case None
  then show thesis
    using that [of q] ok links by (simp add: path_info_cleanup_def plus_ref_def)
next
  case (Some d)
  let ?tot = "\<lambda>n. ext n + pool_refs q n"
  have "(\<lambda>n. plus_ref ext (Some d) n + pool_refs q n) = ?tot(d := Suc (?tot d))"
    by (auto simp: plus_ref_def)
  then have inv: "pool_inv q (?tot(d := Suc (?tot d)))"
    using ok Some by (simp add: pool_ok_def)
  obtain p' where p': "vinode_unref q (Some d) = Some p'" "pool_inv p' ?tot" "calm q p'" "p_mem p' = p_mem q" "links_ok (p_inodes p') (p_dir p')"
    by (rule unref_done [OF inv links]) (rule that)
  then show thesis
    using that [of p'] pool_ok_calm [OF ok p'(3,2)] Some by (simp add: path_info_cleanup_def)
qed

lemma unlinked_before:
  assumes c: "calm p q" and inv: "pool_inv p tot" and i: "p_inodes p dir = Some i" "inode_is_dir i" and name: "name \<noteq> []"
    and u: "unlinked q cred dir name k r p'"
  shows "unlinked p cred dir name k r p'"
  using u calm_trans [OF c] removed_after_calm [OF c]
  unfolding unlinked_def unlink_check_calm [OF c inv i name] calm_env [OF c] by (auto split: option.splits)

lemma unlinked_after:
  assumes u: "unlinked p cred dir name k r q" and c: "calm q p'"
  shows "unlinked p cred dir name k r p'"
  using u calm_trans [OF _ c] removed_then_calm [OF _ c] unfolding unlinked_def by (auto split: option.splits)

lemma pool_ok_unlinked:
  assumes ok: "pool_ok p ext" and u: "unlinked p cred dir name k r q" and inv: "pool_inv q (\<lambda>n. ext n + pool_refs p n)"
  shows "pool_ok q ext"
proof (cases "calm p q")
  case True
  then show ?thesis
    using pool_ok_calm [OF ok True] inv by simp
next
  case False
  then obtain n where n: "removed p dir name n q" "n \<notin> dirs (p_inodes p)"
    using u by (auto simp: unlinked_def unlink_check_def split: option.splits if_splits)
  have eqs: "p_root q = p_root p" "p_cwd q = p_cwd p" "p_symlink q = p_symlink p"
    using n(1) by (simp_all add: removed_def)
  have "\<exists>j. p_inodes q m = Some j \<and> inode_is_dir j \<and> inode_get_nlink j \<noteq> 0"
    if i: "p_inodes p m = Some i" "inode_is_dir i" "inode_get_nlink i \<noteq> 0" for m i
  proof -
    have "m \<noteq> n"
      using n(2) i(1,2) by (auto simp: dirs_def)
    then have "case p_inodes q m of None \<Rightarrow> False | Some j \<Rightarrow> kin i j \<and> inode_get_nlink j = inode_get_nlink i"
      using removedD [OF n(1) i(1,3)] by (simp split: option.splits)
    then show ?thesis
      using i kin_type(1) by (auto split: option.splits)
  qed
  then show ?thesis
    using ok inv unfolding pool_ok_def pool_refs_def eqs by fast
qed

lemma unlinkat_vinode_ok:
  assumes ok: "pool_ok p ext" and mem: "p_mem p = []" and links: "links_ok (p_inodes p) (p_dir p)" and fresh: "fresh_alloc (p_new_array p)"
    and cred: "cred_acquire [] (p_cred p) = Some (0, cred)" and start: "starts p ext dir path" "start_dir p dir path = Some d" "path \<noteq> []"
    and w: "walk p cred 0 1 d (comps path) = Some w" "\<And>d'. w \<noteq> Inr (d', [])"
  shows "\<exists>r p'. unlinkat_vinode tm dir path p = Some (r, p') \<and> pool_ok p' ext \<and> links_ok (p_inodes p') (p_dir p') \<and> p_mem p' = [] \<and>
    (case w of Inl e \<Rightarrow> r = Inl e \<and> calm p p' | Inr (d', name) \<Rightarrow> unlinked p cred d' name (trailing path) r p')"
proof -
  note inv = pool_ok_linksD [OF ok]
  obtain info p1 where p1: "resolve_pathat p cred dir path 0 = Some (info, p1)" "walk_result (trailing path) w info"
    "pool_ok p1 (plus_ref ext (pi_parent info))" "calm p p1" "p_mem p1 = []"
    using resolve_pathat_ok [OF ok mem start(1), of cred 0] start(2,3) w(1) by auto
  have l1: "links_ok (p_inodes p1) (p_dir p1)"
    by (rule links_ok_calm [OF p1(4) inv links])
  have un: "unlinkat_vinode tm dir path p =
    do {
      (r, p2) \<leftarrow> (if pi_error info \<noteq> 0 then Some (Inl (pi_error info), p1) else unlink_named tm cred info p1);
      p3 \<leftarrow> path_info_cleanup p2 info;
      Some (r, p3)
    }"
    using cred p1(1) mem by (simp add: unlinkat_vinode_eq with_cred_def)
  show ?thesis
  proof (cases w)
    case (Inl e)
    obtain p' where "path_info_cleanup p1 info = Some p'" "pool_ok p' ext" "calm p1 p'" "p_mem p' = p_mem p1"
      "links_ok (p_inodes p') (p_dir p')"
      by (rule cleanup_ok [OF p1(3) l1]) (rule that)
    then show ?thesis
      using p1 Inl calm_trans [OF p1(4), of p'] by (simp add: un walk_result_def)
  next
    case (Inr x)
    obtain d' name where x: "w = Inr (d', name)"
      using Inr by (cases x) auto
    have info: "pi_error info = 0" "pi_parent info = Some d'" "pi_remaining info = Some (name @ replicate (trailing path) slash)"
      using p1(2) x by (simp_all add: walk_result_def)
    have "proper w" if "w \<in> set (comps path)" for w
      using comps_proper [OF _ that] start(1) by (simp add: starts_def)
    then have "(name = [] \<or> proper name) \<and> d' \<in> dirs (p_inodes p)"
      using walk_end_result [OF w(1) [unfolded x]] ok by (simp add: pool_ok_def)
    then have name: "CHR 0x00 \<notin> set name" "slash \<notin> set name" "name \<noteq> []" and dd: "d' \<in> dirs (p_inodes p)"
      using w(2) x by (auto simp: proper_def)
    obtain i where i: "p_inodes p d' = Some i" "inode_is_dir i"
      using dd by (auto simp: dirs_def)
    let ?tot = "\<lambda>n. plus_ref ext (Some d') n + pool_refs p1 n"
    have inv1: "pool_inv p1 ?tot" and pos: "0 < ?tot d'"
      using p1(3) info(2) by (simp_all add: pool_ok_def plus_ref_def)
    obtain v where "p_vinodes p1 d' = Some v"
      using pool_inv_vnode [OF inv1 pos] by blast
    then obtain j where j: "p_inodes p1 d' = Some j"
      using ns_inv_inode [OF inv1 [unfolded pool_inv_def]] by blast
    then have jd: "inode_is_dir j"
      using calm_inode(2) [OF p1(4) i(1)] i(2) by (auto simp: same_inode_simps)
    have fresh1: "fresh_alloc (p_new_array p1)"
      using fresh by (simp add: calm_env [OF p1(4)])
    obtain r p2 where p2: "unlink_named tm cred info p1 = Some (r, p2)" "pool_inv p2 ?tot" "links_ok (p_inodes p2) (p_dir p2)" "p_mem p2 = []"
      "unlinked p1 cred d' name (trailing path) r p2"
      using unlink_named_ok [OF inv1 p1(5) l1 fresh1 pos j jd name info(2,3), of tm cred] by blast
    have ok2: "pool_ok p2 (plus_ref ext (pi_parent info))"
      unfolding info(2) by (rule pool_ok_unlinked [OF p1(3) [unfolded info(2)] p2(5,2)])
    obtain p' where p': "path_info_cleanup p2 info = Some p'" "pool_ok p' ext" "calm p2 p'" "p_mem p' = p_mem p2"
      "links_ok (p_inodes p') (p_dir p')"
      by (rule cleanup_ok [OF ok2 p2(3)]) (rule that)
    have "unlinked p cred d' name (trailing path) r p'"
      by (rule unlinked_before [OF p1(4) inv i name(3) unlinked_after [OF p2(5) p'(3)]])
    then show ?thesis
      using p' p2(1,4) info(1) x by (simp add: un)
  qed
qed

text \<open>The inode goes with its last name unless something still refers to it.\<close>

lemma removed_freed:
  assumes r: "removed p dir name n p'" and inv: "pool_inv p' tot" and i: "p_inodes p n = Some i" "inode_get_nlink i \<noteq> 0" "\<not> inode_is_dir i"
  shows "p_inodes p' n = None \<longleftrightarrow> inode_get_nlink i = 1 \<and> tot n = 0"
proof (cases "p_inodes p' n")
  case None
  note ns = inv [unfolded pool_inv_def]
  have "p_vinodes p' n = None"
    using ns_inv_inode [OF ns, of n] None by (cases "p_vinodes p' n") auto
  then show ?thesis
    using refs_okD(2) [OF ns_invD(1) [OF ns]] removedD [OF r i(1,2)] None by simp
next
  case (Some j)
  note ns = inv [unfolded pool_inv_def]
  have j: "kin i j" "inode_get_nlink j = inode_get_nlink i - 1"
    using removedD [OF r i(1,2)] Some by simp_all
  have "tot n \<noteq> 0" if one: "inode_get_nlink i = 1"
  proof -
    obtain v where v: "p_vinodes p' n = Some v"
      using ns_invD(4) [OF ns Some] j(2) one by auto
    have "kids (p_vinodes p') n = {}"
    proof (rule equals0I)
      fix c
      assume "c \<in> kids (p_vinodes p') n"
      then obtain u where u: "p_vinodes p' c = Some u" "v_parent u = Some n"
        by (auto simp: kids_def)
      then have "inode_is_dir j"
        using ns_invD(6) [OF ns u(1)] Some by (auto simp: vnode_ok_def)
      then show False
        using kin_type(1) [OF j(1)] i(3) by simp
    qed
    then show ?thesis
      using refs_okD(4,5) [OF ns_invD(1) [OF ns] v] by simp
  qed
  then show ?thesis
    using Some by auto
qed

lemma unlinked_freed:
  assumes u: "unlinked p cred dir name k (Inr ()) p'" and ok: "pool_ok p ext" "pool_ok p' ext" and e: "entry (p_dir p dir) name = Some n"
    and dir: "dir \<in> dirs (p_inodes p)" "name \<noteq> []" and i: "p_inodes p n = Some i"
  shows "p_inodes p' n = None \<longleftrightarrow> inode_get_nlink i = 1 \<and> ext n + pool_refs p n = 0"
proof -
  obtain j where j: "p_inodes p dir = Some j" "inode_is_dir j"
    using dir(1) by (auto simp: dirs_def)
  have r: "removed p dir name n p'" "n \<notin> dirs (p_inodes p)"
    using u e by (auto simp: unlinked_def unlink_check_def split: option.splits if_splits)
  have "inode_get_nlink i \<noteq> 0"
    using entry_ok(2) [OF pool_ok_linksD [OF ok(1)] j e dir(2)] i by auto
  moreover have "\<not> inode_is_dir i"
    using r(2) i by (auto simp: dirs_def)
  moreover have "pool_refs p' n = pool_refs p n"
    using r(1) by (simp add: removed_def pool_refs_def)
  ultimately show ?thesis
    using removed_freed [OF r(1) pool_ok_linksD [OF ok(2)] i] by simp
qed

lemma unlinkat_vinode_freed:
  assumes ok: "pool_ok p ext" and mem: "p_mem p = []" and links: "links_ok (p_inodes p) (p_dir p)" and fresh: "fresh_alloc (p_new_array p)"
    and cred: "cred_acquire [] (p_cred p) = Some (0, cred)" and start: "starts p ext dir path" "start_dir p dir path = Some d" "path \<noteq> []"
    and w: "walk p cred 0 1 d (comps path) = Some w" "\<And>d'. w \<noteq> Inr (d', [])"
  shows "\<exists>r p'. unlinkat_vinode tm dir path p = Some (r, p') \<and> pool_ok p' ext \<and> links_ok (p_inodes p') (p_dir p') \<and>
    (case w of
       Inl e \<Rightarrow> r = Inl e \<and> calm p p'
     | Inr (d', name) \<Rightarrow> unlinked p cred d' name (trailing path) r p' \<and>
         (\<forall>n i. r = Inr () \<and> entry (p_dir p d') name = Some n \<and> p_inodes p n = Some i \<longrightarrow>
            (p_inodes p' n = None \<longleftrightarrow> inode_get_nlink i = 1 \<and> ext n + pool_refs p n = 0)))"
proof -
  obtain r p' where p': "unlinkat_vinode tm dir path p = Some (r, p')" "pool_ok p' ext" "links_ok (p_inodes p') (p_dir p')"
    "case w of Inl e \<Rightarrow> r = Inl e \<and> calm p p' | Inr (d', name) \<Rightarrow> unlinked p cred d' name (trailing path) r p'"
    using unlinkat_vinode_ok [OF assms, of tm] by auto
  have "d' \<in> dirs (p_inodes p)" "name \<noteq> []" if "w = Inr (d', name)" for d' name
  proof -
    have "proper u" if "u \<in> set (comps path)" for u
      using comps_proper [OF _ that] start(1) by (simp add: starts_def)
    then show "d' \<in> dirs (p_inodes p)" "name \<noteq> []"
      using walk_end_result [OF w(1) [unfolded that]] ok w(2) that by (auto simp: pool_ok_def)
  qed
  then show ?thesis
    using p' unlinked_freed [OF _ ok p'(2)] by (cases w) (fastforce split: prod.splits)+
qed

end
