(* ===== verification/Sample.thy ===== *)
theory Sample
  imports Unlink_Correct
begin

text \<open>
  A small pool, on which the theorems on names are applied: a root directory 10 with the files \<open>f\<close> and \<open>g\<close>, the same
  inode, a link \<open>l\<close> to \<open>d\<close> and a directory \<open>d\<close> with a file \<open>x\<close> in it.
\<close>

definition new_inode :: "nat \<Rightarrow> nat \<Rightarrow> inode" where
  "new_inode flags nlink = (inode_alloc 4096 0 0 zero_time flags)\<lparr>i_nlink := (\<lambda>_. 0)(False := nlink)\<rparr>"

definition dentry :: "nat \<Rightarrow> string \<Rightarrow> pmemfile_dirent" where
  "dentry n s = \<lparr>d_inode = n, d_name = s\<rparr>"

definition no_blocks :: pfile where
  "no_blocks = \<lparr>descs = \<lambda>_. zero_desc, arrays = \<lambda>_. None, datas = \<lambda>_. None, first_free = None, first_block = None, blocks = None,
     allocs = [], invalidations = 0\<rparr>"

definition sample_inodes :: "nat \<Rightarrow> inode option" where
  "sample_inodes = [10 \<mapsto> new_inode (PMEMFILE_S_IFDIR + 493) 3, 2 \<mapsto> new_inode (PMEMFILE_S_IFDIR + 493) 2,
     3 \<mapsto> new_inode (PMEMFILE_S_IFREG + 420) 2, 4 \<mapsto> new_inode (PMEMFILE_S_IFLNK + 511) 1, 5 \<mapsto> new_inode (PMEMFILE_S_IFREG + 420) 1]"

definition sample_dirs :: "nat \<Rightarrow> pmemfile_dirent list list" where
  "sample_dirs = (\<lambda>_. [])
     (10 := [[dentry 10 ''.'', dentry 10 ''..'', dentry 3 ''f'', free_dirent], [dentry 2 ''d'', dentry 3 ''g'', dentry 4 ''l'', free_dirent]],
      2 := [[dentry 2 ''.'', dentry 10 ''..'', free_dirent, dentry 5 ''x'']])"

definition sample :: pool where
  "sample = \<lparr>p_inodes = sample_inodes, p_dir = sample_dirs, p_symlink = (\<lambda>_. [])(4 := ''d''), p_file = \<lambda>_. no_blocks,
     p_arr = tx_begin [6 \<mapsto> zero_array], p_orphaned = 6,
     p_vinodes = [10 \<mapsto> \<lparr>v_ref = 2, v_parent = Some 10, v_orphaned = None, v_atime = zero_time, v_atime_dirty = False\<rparr>],
     p_root = [10], p_cwd = 10, p_umask = 0, p_cred = pool_cred, p_mem = [], p_space = [],
     p_new_inode = \<lambda>h. if h 7 = None then Some 7 else None, p_new_array = spare_alloc, p_conf = default_conf, p_over = False,
     p_store = \<lparr>alloc_array = \<lambda>_. Inl 12, alloc_data = \<lambda>_ _. Inl 12\<rparr>\<rparr>"

lemma sample_sel [simp]:
  "p_inodes sample = sample_inodes" "p_dir sample = sample_dirs" "p_symlink sample = (\<lambda>_. [])(4 := ''d'')"
  "ia_heap (p_arr sample) = [6 \<mapsto> zero_array]" "p_orphaned sample = 6" "p_root sample = [10]" "p_cwd sample = 10" "p_mem sample = []"
  "p_cred sample = pool_cred" "p_new_array sample = spare_alloc"
  by (simp_all add: sample_def tx_begin_def)

lemma new_inode_simps [simp]:
  "inode_get_nlink (new_inode flags k) = k" "inode_get_flags (new_inode flags k) = flags"
  "i_version (new_inode flags k) = PMEMFILE_INODE_VERSION 2" "suspended_references (new_inode flags k) = 0"
  "i_uid (new_inode flags k) = 0" "i_gid (new_inode flags k) = 0"
  by (simp_all add: new_inode_def inode_alloc_def inode_get_defs zero_inode_def Let_def)

lemma new_inode_type [simp]:
  "inode_is_dir (new_inode (PMEMFILE_S_IFDIR + 493) k)" "\<not> inode_is_dir (new_inode (PMEMFILE_S_IFREG + 420) k)"
  "\<not> inode_is_dir (new_inode (PMEMFILE_S_IFLNK + 511) k)" "inode_is_regular_file (new_inode (PMEMFILE_S_IFREG + 420) k)"
  "inode_is_symlink (new_inode (PMEMFILE_S_IFLNK + 511) k)" "\<not> inode_is_symlink (new_inode (PMEMFILE_S_IFREG + 420) k)"
  "\<not> inode_is_symlink (new_inode (PMEMFILE_S_IFDIR + 493) k)" "\<not> inode_is_regular_file (new_inode (PMEMFILE_S_IFDIR + 493) k)"
  by (simp_all add: inode_is_dir_def inode_is_regular_file_def inode_is_symlink_def PMEMFILE_S_ISTYPE_def PMEMFILE_S_IFREG_def
      PMEMFILE_S_IFMT_def PMEMFILE_S_IFDIR_def PMEMFILE_S_IFLNK_def)

lemma sample_inodes_cases:
  assumes "sample_inodes n = Some i"
  obtains "n = 10" "i = new_inode (PMEMFILE_S_IFDIR + 493) 3" | "n = 2" "i = new_inode (PMEMFILE_S_IFDIR + 493) 2"
    | "n = 3" "i = new_inode (PMEMFILE_S_IFREG + 420) 2" | "n = 4" "i = new_inode (PMEMFILE_S_IFLNK + 511) 1"
    | "n = 5" "i = new_inode (PMEMFILE_S_IFREG + 420) 1"
  using assms by (auto simp: sample_inodes_def split: if_splits)

lemma sample_inodes_0: "sample_inodes 0 = None"
  by (simp add: sample_inodes_def)

lemma sample_dirs_inodes: "dirs sample_inodes = {10, 2}"
  by (auto simp: dirs_def sample_inodes_def split: if_splits)

lemma sample_links: "links_ok (p_inodes sample) (p_dir sample)"
proof (rule links_okI)
  show "finite (dom (p_inodes sample))"
    by (simp add: sample_def sample_inodes_def)
  fix n i
  assume "p_inodes sample n = Some i"
  then have "sample_inodes n = Some i"
    by (simp add: sample_def)
  then show "inode_get_nlink i = links (p_inodes sample) (p_dir sample) n \<and> inode_get_nlink i < W64"
    by (cases rule: sample_inodes_cases)
      (simp_all add: links_def sample_def sample_dirs_inodes sample_dirs_def dentry_def free_dirent_def W64_def)
qed

lemma sample_refs: "refs_ok (p_vinodes sample) (\<lambda>n. 0 + pool_refs sample n)"
  by (rule refs_okI) (auto simp: sample_def pool_refs_def kids_def split: if_splits)

lemma sample_dir_ok:
  assumes "sample_inodes n = Some i" and "inode_is_dir i"
  shows "dir_ok sample_inodes sample_dirs n i"
  using assms(1)
proof (cases rule: sample_inodes_cases)
  case 1
  then show ?thesis
    by (simp add: dir_ok_def dirent_ok_def sample_dirs_def dentry_def free_dirent_def sample_inodes_def dots_def
        PMEMFILE_MAX_FILE_NAME_def slash_def)
next
  case 2
  then show ?thesis
    by (simp add: dir_ok_def dirent_ok_def sample_dirs_def dentry_def free_dirent_def sample_inodes_def dots_def
        PMEMFILE_MAX_FILE_NAME_def slash_def)
qed (use assms(2) in simp_all)

lemma sample_ok: "pool_ok sample (\<lambda>_. 0)"
proof -
  have inodes: "inode_ok i \<and> (inode_get_nlink i = 0 \<longrightarrow> p_vinodes sample n \<noteq> None) \<and> (inode_is_dir i \<longrightarrow> dir_ok sample_inodes sample_dirs n i)"
    if i: "sample_inodes n = Some i" for n i
    using i sample_dir_ok [OF i] by (cases rule: sample_inodes_cases) (simp_all add: inode_ok_def)
  have vnodes: "vnode_ok sample_inodes sample_dirs n v" if "p_vinodes sample n = Some v" for n v
    using that by (auto simp: sample_def vnode_ok_def sample_inodes_def sample_dirs_def dots_def dentry_def split: if_splits)
  have "chain [6 \<mapsto> zero_array] [6] None (Some 6)"
    using zero_array_ok(1) by (simp add: zero_array_def)
  moreover have "registered (set [6]) sample_inodes (p_vinodes sample) [6 \<mapsto> zero_array]"
    by (rule registeredI) (auto simp: sample_def slot_at_def zero_array_def split: if_splits)
  ultimately have "orphans_ok sample_inodes (p_vinodes sample) [6 \<mapsto> zero_array] 6"
    unfolding orphans_ok_def by (intro exI [of _ "[6]"]) simp
  then have "pool_inv sample (\<lambda>n. 0 + pool_refs sample n)"
    using sample_refs inodes vnodes sample_inodes_0 unfolding pool_inv_def ns_inv_def sample_sel by blast
  moreover have "\<exists>i. sample_inodes 10 = Some i \<and> inode_is_dir i \<and> inode_get_nlink i \<noteq> 0"
    by (simp add: sample_inodes_def)
  ultimately show ?thesis
    by (simp add: pool_ok_def)
qed

end
