(* ===== verification/Full_Path.thy ===== *)
theory Full_Path
  imports Unlink_Correct
begin

text \<open>
  Resolving a path to the inode it leads to, with a symbolic link as its last component followed or not. The loop over such
  links has no bound in the source; it ends exactly where a chain of links does, and a relation describes these chains.
\<close>

section \<open>Where a path leads\<close>

text \<open>
  From the end of a walk, with \<open>k\<close> slashes behind the last name, to an inode or an error. A link that leads to
  itself leads nowhere.
\<close>

inductive leads :: "pool \<Rightarrow> pmemfile_cred \<Rightarrow> bool \<Rightarrow> errno + nat \<times> string \<Rightarrow> nat \<Rightarrow> errno + nat \<Rightarrow> bool"
  for p :: pool and cred :: pmemfile_cred and follow :: bool where
  leads_error: "leads p cred follow (Inl e) k (Inl e)"
| leads_dir: "leads p cred follow (Inr (d, [])) k (Inr d)"
| leads_long: "length name > PMEMFILE_MAX_FILE_NAME \<Longrightarrow> leads p cred follow (Inr (d, name)) k (Inl ENAMETOOLONG)"
| leads_missing: "name \<noteq> [] \<Longrightarrow> length name \<le> PMEMFILE_MAX_FILE_NAME \<Longrightarrow> entry (p_dir p d) name = None \<Longrightarrow>
    leads p cred follow (Inr (d, name)) k (Inl ENOENT)"
| leads_not_dir: "name \<noteq> [] \<Longrightarrow> length name \<le> PMEMFILE_MAX_FILE_NAME \<Longrightarrow> entry (p_dir p d) name = Some n \<Longrightarrow> p_inodes p n = Some i \<Longrightarrow>
    inode_is_regular_file i \<Longrightarrow> 0 < k \<Longrightarrow> leads p cred follow (Inr (d, name)) k (Inl ENOTDIR)"
| leads_here: "name \<noteq> [] \<Longrightarrow> length name \<le> PMEMFILE_MAX_FILE_NAME \<Longrightarrow> entry (p_dir p d) name = Some n \<Longrightarrow> p_inodes p n = Some i \<Longrightarrow>
    \<not> (inode_is_regular_file i \<and> 0 < k) \<Longrightarrow> \<not> (inode_is_symlink i \<and> follow) \<Longrightarrow> leads p cred follow (Inr (d, name)) k (Inr n)"
| leads_link: "name \<noteq> [] \<Longrightarrow> length name \<le> PMEMFILE_MAX_FILE_NAME \<Longrightarrow> entry (p_dir p d) name = Some n \<Longrightarrow> p_inodes p n = Some i \<Longrightarrow>
    inode_is_symlink i \<Longrightarrow> follow \<Longrightarrow>
    (if p_symlink p n = [] then Some (Inl ENOENT)
     else walk p cred 0 1 (if hd (p_symlink p n) = slash then p_root p ! 0 else d) (comps (p_symlink p n))) = Some w \<Longrightarrow>
    leads p cred follow w (trailing (p_symlink p n)) r \<Longrightarrow> leads p cred follow (Inr (d, name)) k r"

section \<open>References on a whole pool\<close>

lemma plus_ref_None [simp]: "plus_ref ext None = ext"
  by (simp add: plus_ref_def)

lemma plus_ref_commute: "plus_ref (plus_ref ext x) y = plus_ref (plus_ref ext y) x"
  by (auto simp: plus_ref_def fun_eq_iff split: option.splits)

lemma plus_ref_tot: "(\<lambda>m. plus_ref ext (Some n) m + f m) = (\<lambda>m. ext m + f m)(n := Suc (ext n + f n))"
  by (auto simp: plus_ref_def)

lemma pool_ok_ref:
  assumes "pool_ok q ext" and "p_vinodes q n = Some v"
  obtains q' where "vinode_ref q (Some n) = Some (n, q')" and "pool_ok q' (plus_ref ext (Some n))" and "calm q q'" and "p_mem q' = p_mem q"
proof -
  obtain q' where q': "vinode_ref q (Some n) = Some (n, q')" "calm q q'" "p_mem q' = p_mem q"
    "pool_inv q' ((\<lambda>m. ext m + pool_refs q m)(n := Suc (ext n + pool_refs q n)))"
    by (rule vinode_ref_ok [OF pool_ok_linksD [OF assms(1)] assms(2)]) (rule that)
  then show ?thesis
    using that [of q'] pool_ok_calm [OF assms(1) q'(2)] by (simp add: plus_ref_tot)
qed

lemma pool_ok_unref:
  assumes "pool_ok q (plus_ref ext n)"
  obtains q' where "vinode_unref q n = Some q'" and "pool_ok q' ext" and "calm q q'" and "p_mem q' = p_mem q"
proof (cases n)
  case None
  then show ?thesis
    using that [of q] assms by (simp add: vinode_unref.simps)
next
  case (Some m)
  let ?tot = "\<lambda>k. ext k + pool_refs q k"
  have inv: "pool_inv q (?tot(m := Suc (?tot m)))"
    using pool_ok_linksD [OF assms] Some by (simp add: plus_ref_tot)
  obtain q' where q': "vinode_unref q (Some m) = Some q'" "calm q q'" "p_mem q' = p_mem q"
    "pool_inv q' ((?tot(m := Suc (?tot m)))(m := (?tot(m := Suc (?tot m))) m - 1))"
    by (rule vinode_unref_ok [OF inv, of m]) (simp, rule that)
  have "pool_inv q' ?tot"
    using q'(4) by (simp add: fun_upd_idem)
  then show ?thesis
    using that [of q'] q'(1-3) pool_ok_calm [OF assms q'(2), of ext] Some by simp
qed

lemma pool_ok_cleanup:
  assumes "pool_ok q (plus_ref ext (pi_parent info))"
  obtains q' where "path_info_cleanup q info = Some q'" and "pool_ok q' ext" and "calm q q'" and "p_mem q' = p_mem q"
proof -
  obtain q' where "vinode_unref q (pi_parent info) = Some q'" "pool_ok q' ext" "calm q q'" "p_mem q' = p_mem q"
    by (rule pool_ok_unref [OF assms]) (rule that)
  then show ?thesis
    using that [of q'] assms by (cases "pi_parent info") (simp_all add: path_info_cleanup_def vinode_unref.simps)
qed

lemma pool_ok_lookup:
  assumes ok: "pool_ok q ext" and mem: "p_mem q = []" and d: "0 < ext d" "linked_inode q d" "d \<in> dirs (p_inodes q)"
    and name: "proper name" "length name \<le> PMEMFILE_MAX_FILE_NAME"
  shows "case entry (p_dir q d) name of
      None \<Rightarrow> \<exists>e. vinode_lookup_dirent q d (name @ replicate k slash) (length name) 0 = Some (Inl e, q)
    | Some n \<Rightarrow> \<exists>q'. vinode_lookup_dirent q d (name @ replicate k slash) (length name) 0 = Some (Inr n, q') \<and>
        pool_ok q' (plus_ref ext (Some n)) \<and> calm q q' \<and> p_mem q' = [] \<and> linked_inode q n"
proof -
  let ?tot = "\<lambda>m. ext m + pool_refs q m"
  note inv = pool_ok_linksD [OF ok]
  obtain v where v: "p_vinodes q d = Some v"
    using pool_inv_vnode [OF inv, of d] d(1) by auto
  obtain i where i: "p_inodes q d = Some i" "inode_get_nlink i \<noteq> 0" "inode_is_dir i"
    using d(2,3) by (auto simp: linked_inode_def dirs_def)
  have nul: "CHR 0x00 \<notin> set (name @ replicate k slash)" "length name \<le> length (name @ replicate k slash)"
    using name(1) by (auto simp: proper_def slash_def)
  have s: "step_to q (stop_at_root 0) d name = Some (case entry (p_dir q d) name of None \<Rightarrow> Inl ENOENT | Some n \<Rightarrow> Inr n)"
    using i name by (simp add: step_to_def proper_def stop_at_root_def)
  note L = lookup_dirent_ok [OF inv mem v i(1,2) nul, of 0]
  show ?thesis
  proof (cases "entry (p_dir q d) name")
    case None
    then show ?thesis
      using L s by simp
  next
    case (Some n)
    then obtain q' where q': "vinode_lookup_dirent q d (name @ replicate k slash) (length name) 0 = Some (Inr n, q')"
      "pool_inv q' (?tot(n := Suc (?tot n)))" "calm q q'" "p_mem q' = []"
      using L s by auto
    have "linked_inode q n"
      by (rule step_linked [OF inv]) (use s Some in simp)
    then show ?thesis
      using Some q' pool_ok_calm [OF ok q'(3), of "plus_ref ext (Some n)"] by (simp add: plus_ref_tot)
  qed
qed

section \<open>The directory where a walk ends\<close>

lemma walk_linked:
  assumes "walk p cred flags nest dir names = Some (Inr (d, name))" and "pool_inv p tot" and "linked_inode p (p_root p ! 0)" and "linked_inode p dir"
  shows "linked_inode p d"
  using assms
proof (induction p cred flags nest dir names rule: walk.induct)
  case (3 p cred flags nest dir name1 name2 names)
  obtain child where child: "\<not> length name1 > PMEMFILE_MAX_FILE_NAME" "step_to p (stop_at_root flags) dir name1 = Some (Inr child)"
    using 3(3) by (auto split: if_splits option.splits sum.splits)
  obtain perms where perms: "vinode_get_perms p child = Some perms"
    using 3(3) child by (auto split: if_splits option.splits)
  let ?t = "p_symlink p child"
  show ?case
  proof (cases "PMEMFILE_S_ISTYPE (perm_flags perms) PMEMFILE_S_IFLNK")
    case True
    have nest: "\<not> nest \<ge> 40"
      using 3(3) child perms True by (auto split: if_splits)
    show ?thesis
    proof (rule 3(1) [OF child(1) child(2) refl perms True nest])
      show "walk p cred flags (Suc nest) (if ?t = [] \<or> hd ?t = slash then p_root p ! 0 else dir) (comps ?t @ name2 # names) = Some (Inr (d, name))"
        using 3(3) child perms True nest by (simp add: Let_def split del: if_split cong del: if_weak_cong)
    qed (use 3(4-6) in auto)
  next
    case False
    have "linked_inode p child"
      by (rule step_linked [OF 3(4) child(2)])
    then show ?thesis
      by (intro 3(2) [OF child(1) child(2) refl perms False]) (use 3(3-6) child perms False in \<open>auto split: if_splits\<close>)
  qed
qed (auto simp: walk_end_def dirs_def split: Option.bind_splits if_splits)

text \<open>What is known of the end of a walk.\<close>

definition walk_ok :: "pool \<Rightarrow> errno + nat \<times> string \<Rightarrow> bool" where
  "walk_ok p w \<longleftrightarrow> (case w of Inl e \<Rightarrow> True | Inr (d, name) \<Rightarrow> d \<in> dirs (p_inodes p) \<and> linked_inode p d \<and> (name = [] \<or> proper name))"

lemma walk_walk_ok:
  assumes "pool_ok p ext" and "walk p cred flags nest d (comps path) = Some w" and "linked_inode p d" and "CHR 0x00 \<notin> set path"
  shows "walk_ok p w"
proof (cases w)
  case (Inr x)
  obtain d' name where x: "w = Inr (d', name)"
    using Inr by (cases x) auto
  have "(name = [] \<or> proper name) \<and> d' \<in> dirs (p_inodes p)"
    by (rule walk_end_result [OF assms(2) [unfolded x]]) (use assms(1,4) comps_proper in \<open>auto simp: pool_ok_def\<close>)
  moreover have "linked_inode p d'"
    by (rule walk_linked [OF assms(2) [unfolded x] pool_ok_linksD [OF assms(1)]]) (use pool_ok_root [OF assms(1)] assms(3) in auto)
  ultimately show ?thesis
    using x by (simp add: walk_ok_def)
qed (simp add: walk_ok_def)

lemma calm_dirsD:
  assumes "calm p q" and "linked_inode p d" and "d \<in> dirs (p_inodes p)"
  shows "d \<in> dirs (p_inodes q)"
  by (rule calm_linked [OF assms(1,2)]) (use assms(3) in \<open>auto simp: dirs_def same_inode_simps\<close>)

section \<open>Following the last links\<close>

text \<open>What resolution reports for \<open>r\<close>, with its references: to the directory of the last name and to the inode.\<close>

definition resolved :: "pool \<Rightarrow> (nat \<Rightarrow> nat) \<Rightarrow> errno + nat \<Rightarrow> (nat option \<times> path_info \<times> pool) option \<Rightarrow> bool" where
  "resolved p ext r res \<longleftrightarrow>
     (\<exists>v info q. res = Some (v, info, q) \<and> calm p q \<and> p_mem q = [] \<and> pool_ok q (plus_ref (plus_ref ext (pi_parent info)) v) \<and>
        (case r of Inl e \<Rightarrow> v = None \<and> pi_error info = e \<and> e \<noteq> 0 | Inr n \<Rightarrow> v = Some n \<and> pi_error info = 0))"

lemma resolved_error:
  "calm p q \<Longrightarrow> p_mem q = [] \<Longrightarrow> pool_ok q (plus_ref ext (pi_parent info)) \<Longrightarrow> pi_error info = e \<Longrightarrow> e \<noteq> 0 \<Longrightarrow>
    resolved p ext (Inl e) (Some (None, info, q))"
  by (simp add: resolved_def)

lemma resolved_inode:
  "calm p q \<Longrightarrow> p_mem q = [] \<Longrightarrow> pool_ok q (plus_ref (plus_ref ext (pi_parent info)) (Some n)) \<Longrightarrow> pi_error info = 0 \<Longrightarrow>
    resolved p ext (Inr n) (Some (Some n, info, q))"
  by (simp add: resolved_def)

text \<open>The link is released before its target is resolved from the directory it is in.\<close>

lemma resolve_symlink_ok:
  assumes ok: "pool_ok p ext" and q: "calm p q" "p_mem q = []" "pool_ok q (plus_ref (plus_ref ext (Some d)) (Some n))"
    and info: "pi_parent info = Some d" and d: "linked_inode p d"
    and w: "(if p_symlink p n = [] then Some (Inl ENOENT)
      else walk p cred 0 1 (if hd (p_symlink p n) = slash then p_root p ! 0 else d) (comps (p_symlink p n))) = Some w"
  obtains info2 q2 where "resolve_symlink q cred n info = Some (info2, q2)" and "calm p q2" and "p_mem q2 = []"
    and "pool_ok q2 (plus_ref ext (pi_parent info2))" and "walk_result (trailing (p_symlink p n)) w info2" and "walk_ok p w"
proof -
  let ?t = "p_symlink p n" and ?d = "if p_symlink p n \<noteq> [] \<and> hd (p_symlink p n) = slash then p_root p ! 0 else d"
  have t: "get_symlink q n = ?t" "CHR 0x00 \<notin> set ?t"
    using ok by (simp_all add: get_symlink_def calm_env [OF q(1)] pool_ok_def)
  obtain q1 where q1: "vinode_unref q (Some n) = Some q1" "pool_ok q1 (plus_ref ext (Some d))" "calm q q1" "p_mem q1 = p_mem q"
    by (rule pool_ok_unref [OF q(3)]) (rule that)
  note c1 = calm_trans [OF q(1) q1(3)]
  have ld: "linked_inode p ?d"
    using d pool_ok_root [OF ok] by simp
  have sd: "start_dir q1 (Some d) ?t = Some ?d"
    by (simp add: start_dir_def calm_env [OF c1])
  have "0 < plus_ref ext (Some d) ?d + pool_refs q1 ?d"
    using pool_ok_root [OF ok] by (auto simp: plus_ref_def calm_env [OF c1])
  then have st: "starts q1 (plus_ref ext (Some d)) (Some d) ?t"
    using t(2) calm_linkedD [OF c1 ld] by (simp add: starts_def sd del: if_weak_cong)
  have wk: "walk q1 cred 0 1 ?d (comps ?t) = walk p cred 0 1 ?d (comps ?t)"
    by (rule walk_calm [OF c1 pool_ok_linksD [OF ok] _ ld]) (use pool_ok_root [OF ok] in simp)
  have m1: "p_mem q1 = []"
    using q1(4) q(2) by simp
  have W: "(case start_dir q1 (Some d) ?t of None \<Rightarrow> Some (Inl ENOENT)
      | Some d' \<Rightarrow> if ?t = [] then Some (Inl ENOENT) else walk q1 cred 0 1 d' (comps ?t)) = Some w"
    unfolding sd option.case wk using w by (cases "?t = []") simp_all
  obtain info2 q2 where q2: "resolve_pathat q1 cred (Some d) ?t 0 = Some (info2, q2)" "walk_result (trailing ?t) w info2"
    "pool_ok q2 (plus_ref (plus_ref ext (Some d)) (pi_parent info2))" "calm q1 q2" "p_mem q2 = []"
    using resolve_pathat_ok [OF q1(2) m1 st, of cred 0] unfolding W by auto
  obtain q3 where q3: "path_info_cleanup q2 info = Some q3" "pool_ok q3 (plus_ref ext (pi_parent info2))" "calm q2 q3" "p_mem q3 = p_mem q2"
    by (rule pool_ok_cleanup [of q2 "plus_ref ext (pi_parent info2)" info])
      (use q2(3) info in \<open>simp add: plus_ref_commute\<close>, rule that)
  have "walk_ok p w"
  proof (cases "?t = []")
    case True
    then show ?thesis
      using w by (auto simp: walk_ok_def)
  next
    case False
    then show ?thesis
      using w walk_walk_ok [OF ok _ ld t(2)] by simp
  qed
  then show ?thesis
    using that [of info2 q3] q1(1) q2(1,2,5) q3 t(1) info calm_trans [OF c1 calm_trans [OF q2(4) q3(3)]]
    by (simp add: resolve_symlink_def)
qed

text \<open>One round of the loop, when there is a last name of admissible length.\<close>

lemma resolve_full_step:
  assumes w: "walk_ok p (Inr (d, name))" "name \<noteq> []" "length name \<le> PMEMFILE_MAX_FILE_NAME" and q: "calm p q" "p_mem q = []"
    and ok: "pool_ok q (plus_ref ext (pi_parent info))" and res: "walk_result k (Inr (d, name)) info"
  shows "case entry (p_dir p d) name of
      None \<Rightarrow> resolve_full_loop q cred info follow = Some (None, info\<lparr>pi_error := ENOENT\<rparr>, q)
    | Some n \<Rightarrow> \<exists>q1 i. calm p q1 \<and> p_mem q1 = [] \<and> pool_ok q1 (plus_ref (plus_ref ext (Some d)) (Some n)) \<and> p_inodes p n = Some i \<and>
        resolve_full_loop q cred info follow =
          (if inode_is_regular_file i \<and> 0 < k
           then do { q2 \<leftarrow> vinode_unref q1 (Some n); Some (None, info\<lparr>pi_error := ENOTDIR\<rparr>, q2) }
           else if inode_is_symlink i \<and> follow
           then do { (info2, q2) \<leftarrow> resolve_symlink q1 cred n info; resolve_full_loop q2 cred info2 follow }
           else Some (Some n, info, q1))"
proof -
  have info: "pi_error info = 0" "pi_parent info = Some d" "pi_remaining info = Some (name @ replicate k slash)"
    using res by (simp_all add: walk_result_def)
  have name: "proper name" "slash \<notin> set name" and d: "linked_inode p d" "d \<in> dirs (p_inodes p)"
    using w(1,2) by (auto simp: walk_ok_def proper_def)
  have pos: "0 < plus_ref ext (pi_parent info) d"
    using info(2) by (simp add: plus_ref_def)
  note L = pool_ok_lookup [OF ok q(2) pos calm_linkedD [OF q(1) d(1)] calm_dirsD [OF q(1) d] name(1) w(3), of k, unfolded calm_env [OF q(1)]]
  have round: "resolve_full_loop q cred info follow =
    do {
      (r, p1) \<leftarrow> vinode_lookup_dirent q d (name @ replicate k slash) (length name) 0;
      (case r of
         Inl e \<Rightarrow> Some (None, info\<lparr>pi_error := ENOENT\<rparr>, p1)
       | Inr n \<Rightarrow>
           do {
             i \<leftarrow> p_inodes p1 n;
             if inode_is_regular_file i \<and> 0 < k
             then do { q2 \<leftarrow> vinode_unref p1 (Some n); Some (None, info\<lparr>pi_error := ENOTDIR\<rparr>, q2) }
             else if inode_is_symlink i \<and> follow
             then do { (info2, q2) \<leftarrow> resolve_symlink p1 cred n info; resolve_full_loop q2 cred info2 follow }
             else Some (Some n, info, p1)
           })
    }"
    using info name(2) w(2,3)
    by (subst resolve_full_loop.simps) (simp add: component_length_slashes not_less Let_def cong del: sum.case_cong_weak if_weak_cong)
  show ?thesis
  proof (cases "entry (p_dir p d) name")
    case None
    then show ?thesis
      using L by (auto simp: round)
  next
    case (Some n)
    then obtain q1 where q1: "vinode_lookup_dirent q d (name @ replicate k slash) (length name) 0 = Some (Inr n, q1)"
      "pool_ok q1 (plus_ref (plus_ref ext (pi_parent info)) (Some n))" "calm q q1" "p_mem q1 = []" "linked_inode q n"
      using L by auto
    note c = calm_trans [OF q(1) q1(3)]
    obtain i0 where "p_inodes q n = Some i0"
      using q1(5) by (auto simp: linked_inode_def)
    then obtain i where i: "p_inodes p n = Some i" "inode_get_nlink i \<noteq> 0"
      using q1(5) calm_inode(1) [OF q(1), of n] calm_inode(2) [OF q(1), of n] by (cases "p_inodes p n") (auto simp: linked_inode_def same_inode_simps)
    obtain j where j: "p_inodes q1 n = Some j" "same_inode i j"
      using calm_inode(2) [OF c i(1)] i(2) by auto
    show ?thesis
      using Some q1 c i(1) j(1) info(2) by (auto simp: round same_inode_simps [OF j(2)])
  qed
qed

lemma resolve_full_loop_ok:
  assumes "leads p cred follow w k r" and ok: "pool_ok p ext" and "walk_ok p w"
    and "calm p q" "p_mem q = []" "pool_ok q (plus_ref ext (pi_parent info))" "walk_result k w info"
  shows "resolved p ext r (resolve_full_loop q cred info follow)"
  using assms(1,3-)
proof (induction arbitrary: q info rule: leads.induct)
  case (leads_error e k)
  then show ?case
    by (subst resolve_full_loop.simps) (auto simp: walk_result_def intro!: resolved_error)
next
  case (leads_dir d k)
  then have info: "pi_error info = 0" "pi_parent info = Some d" "pi_remaining info = Some (replicate k slash)"
    by (simp_all add: walk_result_def)
  have z: "component_length (replicate k slash) = 0"
    using component_length_slashes [of "[]" k] by simp
  obtain v where v: "p_vinodes q d = Some v"
    using pool_inv_vnode [OF pool_ok_linksD [OF leads_dir(4)], of d] info(2) by (auto simp: plus_ref_def)
  obtain q1 where "vinode_ref q (Some d) = Some (d, q1)" "pool_ok q1 (plus_ref (plus_ref ext (pi_parent info)) (Some d))" "calm q q1" "p_mem q1 = p_mem q"
    by (rule pool_ok_ref [OF leads_dir(4) v]) (rule that)
  then show ?case
    using info z leads_dir(3) calm_trans [OF leads_dir(2)]
    by (subst resolve_full_loop.simps) (simp add: resolved_inode)
next
  case (leads_long name d k)
  then have info: "pi_error info = 0" "pi_parent info = Some d" "pi_remaining info = Some (name @ replicate k slash)" "slash \<notin> set name"
    by (auto simp: walk_result_def walk_ok_def proper_def)
  then show ?case
    using leads_long by (subst resolve_full_loop.simps) (simp add: component_length_slashes resolved_error)
next
  case (leads_missing name d k)
  then show ?case
    using resolve_full_step [OF leads_missing.prems(1) leads_missing.hyps(1,2) leads_missing.prems(2-5), of cred follow]
    by (simp add: resolved_error)
next
  case (leads_not_dir name d n i k)
  note P = leads_not_dir.prems
  obtain q1 where q1: "calm p q1" "p_mem q1 = []" "pool_ok q1 (plus_ref (plus_ref ext (Some d)) (Some n))"
    "resolve_full_loop q cred info follow = do { q2 \<leftarrow> vinode_unref q1 (Some n); Some (None, info\<lparr>pi_error := ENOTDIR\<rparr>, q2) }"
    using resolve_full_step [OF P(1) leads_not_dir.hyps(1,2) P(2-5), of cred follow] leads_not_dir.hyps(3-6) by auto
  obtain q2 where "vinode_unref q1 (Some n) = Some q2" "pool_ok q2 (plus_ref ext (Some d))" "calm q1 q2" "p_mem q2 = p_mem q1"
    by (rule pool_ok_unref [OF q1(3)]) (rule that)
  then show ?case
    using q1 P(5) calm_trans [OF q1(1)] by (simp add: resolved_error walk_result_def)
next
  case (leads_here name d n i k)
  note P = leads_here.prems
  obtain q1 where "calm p q1" "p_mem q1 = []" "pool_ok q1 (plus_ref (plus_ref ext (Some d)) (Some n))"
    "resolve_full_loop q cred info follow = Some (Some n, info, q1)"
    using resolve_full_step [OF P(1) leads_here.hyps(1,2) P(2-5), of cred follow] leads_here.hyps(3-6) by auto
  then show ?case
    using P(5) by (simp add: resolved_inode walk_result_def)
next
  case (leads_link name d n i w r k)
  note P = leads_link.prems
  have ty: "\<not> inode_is_regular_file i"
    using leads_link.hyps(5) by (auto simp: inode_is_regular_file_def inode_is_symlink_def PMEMFILE_S_ISTYPE_def PMEMFILE_S_IFREG_def PMEMFILE_S_IFLNK_def)
  obtain q1 where q1: "calm p q1" "p_mem q1 = []" "pool_ok q1 (plus_ref (plus_ref ext (Some d)) (Some n))"
    "resolve_full_loop q cred info follow = do { (info2, q2) \<leftarrow> resolve_symlink q1 cred n info; resolve_full_loop q2 cred info2 follow }"
    using resolve_full_step [OF P(1) leads_link.hyps(1,2) P(2-5), of cred follow] leads_link.hyps(3-6) ty by auto
  have info: "pi_parent info = Some d" and d: "linked_inode p d"
    using P(1,5) by (simp_all add: walk_result_def walk_ok_def)
  obtain info2 q2 where "resolve_symlink q1 cred n info = Some (info2, q2)" "calm p q2" "p_mem q2 = []"
    "pool_ok q2 (plus_ref ext (pi_parent info2))" "walk_result (trailing (p_symlink p n)) w info2" "walk_ok p w"
    by (rule resolve_symlink_ok [OF ok q1(1-3) info d leads_link.hyps(7)]) (rule that)
  then show ?case
    using q1(4) leads_link.IH by simp
qed

lemma leads_linked:
  assumes "leads p cred follow w k r" and ok: "pool_ok p ext" and "walk_ok p w" and "r = Inr n"
  shows "linked_inode p n"
  using assms(1,3-)
proof (induction rule: leads.induct)
  case (leads_here name d n' i k)
  then obtain j where j: "p_inodes p d = Some j" "inode_is_dir j"
    by (auto simp: walk_ok_def dirs_def)
  show ?case
    using entry_ok(2) [OF pool_ok_linksD [OF ok] j leads_here.hyps(3,1)] leads_here.prems by (auto simp: linked_inode_def)
next
  case (leads_link name d n' i w r k)
  let ?t = "p_symlink p n'" and ?d = "if hd (p_symlink p n') = slash then p_root p ! 0 else d"
  have ld: "linked_inode p ?d" and nul: "CHR 0x00 \<notin> set ?t"
    using leads_link.prems(1) pool_ok_root [OF ok] ok by (auto simp: walk_ok_def pool_ok_def)
  have "walk_ok p w"
  proof (cases "?t = []")
    case True
    then show ?thesis
      using leads_link.hyps(7) by (auto simp: walk_ok_def)
  next
    case False
    then show ?thesis
      using leads_link.hyps(7) walk_walk_ok [OF ok _ ld nul] by simp
  qed
  then show ?case
    using leads_link.IH leads_link.prems(2) by simp
qed (auto simp: walk_ok_def)

section \<open>Resolving a path to its inode\<close>

text \<open>The end of the walk over a path from \<open>dir\<close>.\<close>

definition walk_from :: "pool \<Rightarrow> pmemfile_cred \<Rightarrow> nat \<Rightarrow> nat option \<Rightarrow> string \<Rightarrow> (errno + nat \<times> string) option" where
  "walk_from p cred flags dir path =
     (case start_dir p dir path of
        None \<Rightarrow> Some (Inl ENOENT)
      | Some d \<Rightarrow> if path = [] then Some (Inl ENOENT) else walk p cred flags 1 d (comps path))"

lemma walk_from_ok:
  assumes "pool_ok p ext" and "starts p ext dir path" and "walk_from p cred flags dir path = Some w"
  shows "walk_ok p w"
proof (cases "start_dir p dir path = None \<or> path = []")
  case True
  then show ?thesis
    using assms(3) by (auto simp: walk_from_def walk_ok_def split: option.splits)
next
  case False
  then show ?thesis
    using assms(2,3) walk_walk_ok [OF assms(1), of cred flags 1 _ path w] by (auto simp: walk_from_def starts_def)
qed

lemma resolve_pathat_full_ok:
  assumes ok: "pool_ok p ext" and mem: "p_mem p = []" and start: "starts p ext dir path"
    and w: "walk_from p cred flags dir path = Some w" "leads p cred follow w (trailing path) r"
  shows "resolved p ext r (resolve_pathat_full p cred dir path flags follow)" and "r = Inr n \<Longrightarrow> linked_inode p n"
proof -
  obtain info q where q: "resolve_pathat p cred dir path flags = Some (info, q)" "walk_result (trailing path) w info"
    "pool_ok q (plus_ref ext (pi_parent info))" "calm p q" "p_mem q = []"
    using resolve_pathat_ok [OF ok mem start, of cred flags] w(1) by (auto simp: walk_from_def)
  note wk = walk_from_ok [OF ok start w(1)]
  show "resolved p ext r (resolve_pathat_full p cred dir path flags follow)"
    using resolve_full_loop_ok [OF w(2) ok wk q(4,5,3,2)] q(1) by (simp add: resolve_pathat_full_def)
  show "r = Inr n \<Longrightarrow> linked_inode p n"
    by (rule leads_linked [OF w(2) ok wk])
qed

end
