(* ===== verification/Names.thy ===== *)
theory Names
  imports Sample Full_Path
begin

text \<open>What the operations on names promise, each applied to the sample pool.\<close>

section \<open>Dropping references\<close>



section \<open>Path resolution\<close>

lemmas access_consts = PFILE_WANT_READ_def PFILE_WANT_WRITE_def PFILE_WANT_EXECUTE_def PFILE_USE_FACCESS_def PFILE_ACCESS_MASK_def
  PMEMFILE_S_IRUSR_def PMEMFILE_S_IWUSR_def PMEMFILE_S_IXUSR_def PMEMFILE_ACCESSPERMS_def PMEMFILE_S_IFDIR_def


lemma sample_steps:
  "step_to sample False 10 ''l'' = Some (Inr 4)" "step_to sample False 10 ''d'' = Some (Inr 2)"
  by (simp_all add: step_to_def sample_inodes_def sample_dirs_def entry_def dentry_def free_dirent_def PMEMFILE_MAX_FILE_NAME_def)

lemma sample_walk: "walk sample pool_cred 0 1 10 (comps ''l/x'') = Some (Inr (2, ''x''))"
proof -
  have c: "comps ''l/x'' = [''l'', ''x'']" "comps ''d'' = [''d'']"
    by (simp_all add: comps_def slash_def)
  have flags: "\<not> stop_at_root 0" "search_want 0 = PFILE_WANT_EXECUTE"
    by (simp_all add: stop_at_root_def search_want_def)
  have perms: "vinode_get_perms sample 4 = Some \<lparr>perm_flags = PMEMFILE_S_IFLNK + 511, perm_uid = 0, perm_gid = 0\<rparr>"
    "vinode_get_perms sample 2 = Some \<lparr>perm_flags = PMEMFILE_S_IFDIR + 493, perm_uid = 0, perm_gid = 0\<rparr>"
    by (simp_all add: vinode_get_perms_def sample_inodes_def)
  have types: "PMEMFILE_S_ISTYPE (PMEMFILE_S_IFLNK + 511) PMEMFILE_S_IFLNK" "\<not> PMEMFILE_S_ISTYPE (PMEMFILE_S_IFDIR + 493) PMEMFILE_S_IFLNK"
    by (simp_all add: PMEMFILE_S_ISTYPE_def PMEMFILE_S_IFMT_def PMEMFILE_S_IFDIR_def PMEMFILE_S_IFLNK_def)
  have acc: "can_access pool_cred \<lparr>perm_flags = PMEMFILE_S_IFDIR + 493, perm_uid = 0, perm_gid = 0\<rparr> PFILE_WANT_EXECUTE"
    by (simp add: can_access_def pool_cred_def Let_def want_def access_consts)
  show ?thesis
    by (simp add: c flags sample_steps perms types acc PMEMFILE_MAX_FILE_NAME_def walk_end_def slash_def)
      (simp add: sample_inodes_def)
qed

text \<open>
  Claim C2. Resolving a path in a pool that satisfies the invariant, from a directory that is in use and has not been
  removed, gives the result of walking over its components: the directory of the last component and its name with the
  slashes behind it, or the error. It is undefined exactly where the walk is, which is for \<^verbatim>\<open>..\<close> below something
  that is not a directory. One reference is taken, to the directory reported, and nothing else changes.
\<close>

theorem resolve_pathat_correct:
  assumes "pool_ok p ext" and "p_mem p = []" and "starts p ext dir path"
  shows "case (case start_dir p dir path of None \<Rightarrow> Some (Inl ENOENT)
        | Some d \<Rightarrow> if path = [] then Some (Inl ENOENT) else walk p cred flags 1 d (comps path)) of
      None \<Rightarrow> resolve_pathat p cred dir path flags = None
    | Some w \<Rightarrow> \<exists>info p'. resolve_pathat p cred dir path flags = Some (info, p') \<and> walk_result (trailing path) w info \<and>
        pool_ok p' (plus_ref ext (pi_parent info)) \<and> calm p p'"
  using resolve_pathat_ok [OF assms, of cred flags] by (auto split: option.splits)

lemma sample_starts: "starts sample (\<lambda>_. 0) (Some 10) ''l/x''" "start_dir sample (Some 10) ''l/x'' = Some 10"
  by (simp_all add: starts_def start_dir_def slash_def pool_refs_def linked_inode_def sample_inodes_def)

lemma sample_trailing: "trailing ''l/x'' = 0"
  by (simp add: trailing_def ending_slashes_def slash_def)

theorem resolve_pathat_correct_witness:
  "\<exists>info p'. resolve_pathat sample pool_cred (Some 10) ''l/x'' 0 = Some (info, p') \<and> walk_result 0 (Inr (2, ''x'')) info \<and>
     pool_ok p' (plus_ref (\<lambda>_. 0) (pi_parent info)) \<and> calm sample p'"
  using resolve_pathat_correct [OF sample_ok _ sample_starts(1), of pool_cred 0] sample_starts(2) sample_walk sample_trailing by simp

lemma sample_walk_link: "walk_from sample pool_cred 0 (Some 10) ''l'' = Some (Inr (10, ''l''))"
  by (simp add: walk_from_def start_dir_def comps_def slash_def walk_end_def sample_inodes_def)

lemma sample_leads_link: "leads sample pool_cred True (Inr (10, ''l'')) (trailing ''l'') (Inr 2)"
proof -
  have e: "entry (p_dir sample 10) ''l'' = Some 4" "entry (p_dir sample 10) ''d'' = Some 2"
    by (simp_all add: sample_dirs_def entry_def dentry_def free_dirent_def)
  have i: "p_inodes sample 4 = Some (new_inode (PMEMFILE_S_IFLNK + 511) 1)" "p_inodes sample 2 = Some (new_inode (PMEMFILE_S_IFDIR + 493) 2)"
    by (simp_all add: sample_inodes_def)
  have d: "leads sample pool_cred True (Inr (10, ''d'')) (trailing ''d'') (Inr 2)"
    by (rule leads_here [OF _ _ e(2) i(2)]) (simp_all add: PMEMFILE_MAX_FILE_NAME_def)
  show ?thesis
    by (rule leads_link [OF _ _ e(1) i(1), where w = "Inr (10, ''d'')"])
      (use d in \<open>simp_all add: PMEMFILE_MAX_FILE_NAME_def comps_def slash_def walk_end_def sample_inodes_def\<close>)
qed

text \<open>
  Claim C4. Resolving a path to its inode ends whenever the chain of symbolic links that starts at its last component does, although the
  loop that follows them has no bound. It gives the inode at the end of that chain or the error met there, with one reference to
  the inode and one to the directory of the last name, and nothing else changes.
\<close>

theorem resolve_pathat_full_correct:
  assumes "pool_ok p ext" and "p_mem p = []" and "starts p ext dir path"
    and "walk_from p cred flags dir path = Some w" and "leads p cred follow w (trailing path) r"
  shows "\<exists>v info p'. resolve_pathat_full p cred dir path flags follow = Some (v, info, p') \<and> calm p p' \<and>
    pool_ok p' (plus_ref (plus_ref ext (pi_parent info)) v) \<and>
    (case r of Inl e \<Rightarrow> v = None \<and> pi_error info = e \<and> e \<noteq> 0 | Inr n \<Rightarrow> v = Some n \<and> pi_error info = 0 \<and> linked_inode p n)"
  using resolve_pathat_full_ok [OF assms] by (cases r) (auto simp: resolved_def)

theorem resolve_pathat_full_correct_witness:
  "\<exists>info p'. resolve_pathat_full sample pool_cred (Some 10) ''l'' 0 True = Some (Some 2, info, p') \<and> calm sample p' \<and>
     pool_ok p' (plus_ref (plus_ref (\<lambda>_. 0) (pi_parent info)) (Some 2)) \<and> pi_error info = 0 \<and> linked_inode sample 2"
proof -
  have "starts sample (\<lambda>_. 0) (Some 10) ''l''"
    by (simp add: starts_def start_dir_def slash_def pool_refs_def linked_inode_def sample_inodes_def)
  then show ?thesis
    using resolve_pathat_full_correct [OF sample_ok _ _ sample_walk_link sample_leads_link] by fastforce
qed

section \<open>Adding a name\<close>

lemma inode_add_dirent_ok:
  assumes inv: "pool_inv p tot" and links: "links_ok (p_inodes p) (p_dir p)" and i: "p_inodes p dir = Some i" "inode_is_dir i"
    and name: "CHR 0x00 \<notin> set name" "0 < namelen" "namelen \<le> length name" "slash \<notin> set (take namelen name)" "take namelen name \<noteq> ''.''"
    and c: "p_inodes p child = Some c" "inode_get_nlink c \<noteq> 0" "inode_get_nlink c + 1 < W64" "\<not> inode_is_dir c"
    and add: "entry_added p dir (take namelen name) child p'" and new: "entry (p_dir p dir) (take namelen name) = None"
    and fit: "namelen \<le> PMEMFILE_MAX_FILE_NAME" and n: "inode_get_nlink i \<noteq> 0"
  shows "pool_inv p' tot" and "links_ok (p_inodes p') (p_dir p')"
    and "s \<noteq> [] \<Longrightarrow> entry (p_dir p' d) s = (if d = dir \<and> s = take namelen name then Some child else entry (p_dir p d) s)"
proof -
  let ?nm = "take namelen name"
  have nm: "?nm \<noteq> []" "CHR 0x00 \<notin> set ?nm"
    using name(1-3) by (auto dest: in_set_takeD)
  show "pool_inv p' tot"
    by (rule entry_added_inv [OF add inv i n nm name(4) _ new c(1-3)]) (use fit c(4) in auto)
  show "links_ok (p_inodes p') (p_dir p')"
  proof (rule entry_added_links_ok [OF add links])
    show "dir \<in> dirs (p_inodes p)"
      using i by (auto simp: dirs_def)
    show "p_inodes p 0 = None"
      by (rule ns_invD(2) [OF inv [unfolded pool_inv_def]])
    show "d_inode d = 0" if "d \<in> set (concat (p_dir p dir))" "d_name d = []" for d
      using pool_inv_dirent [OF inv i that(1)] that(2) by (simp add: dirent_ok_def)
    show "links (p_inodes p) (p_dir p) child + 1 < W64"
      using links_okD(2) [OF links c(1)] c(3) by simp
  qed
  show "s \<noteq> [] \<Longrightarrow> entry (p_dir p' d) s = (if d = dir \<and> s = ?nm then Some child else entry (p_dir p d) s)"
    using entry_added_lookup(1) [OF add nm(1) new] entry_added_lookup(2) [OF add nm(1) new, of s] entry_added_dir [OF add]
    by (metis fun_upd_other)
qed

text \<open>
  Claim C15. Adding a name to a directory fails with the documented errors and then changes nothing; otherwise the
  directory has the child under that name, every other name of every directory leads where it did, the number of links
  of every inode is again the number of names that lead to it, and the invariant of the pool holds.
\<close>

theorem inode_add_dirent_correct:
  assumes inv: "pool_inv p tot" and links: "links_ok (p_inodes p) (p_dir p)" and i: "p_inodes p dir = Some i" "inode_is_dir i"
    and name: "CHR 0x00 \<notin> set name" "0 < namelen" "namelen \<le> length name" "slash \<notin> set (take namelen name)" "take namelen name \<noteq> ''.''"
    and c: "p_inodes p child = Some c" "inode_get_nlink c \<noteq> 0" "inode_get_nlink c + 1 < W64" "\<not> inode_is_dir c"
  shows "if namelen > PMEMFILE_MAX_FILE_NAME then inode_add_dirent dir name namelen child tm p = Some (Inl ENAMETOOLONG, p)
    else if inode_get_nlink i = 0 then inode_add_dirent dir name namelen child tm p = Some (Inl ENOENT, p)
    else if entry (p_dir p dir) (take namelen name) \<noteq> None then inode_add_dirent dir name namelen child tm p = Some (Inl EEXIST, p)
    else
      (\<exists>sp. inode_add_dirent dir name namelen child tm p = Some (Inl ENOMEM, p\<lparr>p_space := sp\<rparr>) \<and> p_space p \<noteq> []) \<or>
      (\<exists>p'. inode_add_dirent dir name namelen child tm p = Some (Inr (), p') \<and> pool_inv p' tot \<and> links_ok (p_inodes p') (p_dir p') \<and>
        (\<forall>d s. s \<noteq> [] \<longrightarrow> entry (p_dir p' d) s = (if d = dir \<and> s = take namelen name then Some child else entry (p_dir p d) s)))"
proof -
  have ents: "CHR 0x00 \<notin> set (d_name d)" if "d \<in> set (concat (p_dir p dir))" for d
    using pool_inv_dirent [OF inv i that] by (simp add: dirent_ok_def)
  have child: "p_inodes p child \<noteq> None"
    using c(1) by simp
  show ?thesis
    using add_dirent_ok [OF name(1-4) i(1) ents child, of tm] name(5) inode_add_dirent_ok [OF inv links i name c]
    by (auto simp: not_less)
qed

theorem inode_add_dirent_correct_witness:
  "(\<exists>sp. inode_add_dirent 2 ''new'' 3 3 zero_time sample = Some (Inl ENOMEM, sample\<lparr>p_space := sp\<rparr>) \<and> p_space sample \<noteq> []) \<or>
   (\<exists>p'. inode_add_dirent 2 ''new'' 3 3 zero_time sample = Some (Inr (), p') \<and> pool_inv p' (\<lambda>n. 0 + pool_refs sample n) \<and>
      links_ok (p_inodes p') (p_dir p') \<and>
      (\<forall>d s. s \<noteq> [] \<longrightarrow> entry (p_dir p' d) s = (if d = 2 \<and> s = ''new'' then Some 3 else entry (p_dir sample d) s)))"
proof -
  let ?d = "new_inode (PMEMFILE_S_IFDIR + 493) 2" and ?f = "new_inode (PMEMFILE_S_IFREG + 420) 2"
  have i: "p_inodes sample 2 = Some ?d" "inode_is_dir ?d" and c: "p_inodes sample 3 = Some ?f" "inode_get_nlink ?f \<noteq> 0" "inode_get_nlink ?f + 1 < W64"
    "\<not> inode_is_dir ?f"
    by (simp_all add: sample_inodes_def W64_def)
  have name: "CHR 0x00 \<notin> set ''new''" "0 < (3 :: nat)" "3 \<le> length ''new''" "slash \<notin> set (take 3 ''new'')" "take 3 ''new'' \<noteq> ''.''"
    by (simp_all add: slash_def)
  have e: "entry (p_dir sample 2) (take 3 ''new'') = None"
    by (simp add: sample_dirs_def entry_def dentry_def free_dirent_def)
  show ?thesis
    using inode_add_dirent_correct [OF pool_ok_linksD [OF sample_ok] sample_links i name c, of zero_time] e
    by (simp add: PMEMFILE_MAX_FILE_NAME_def)
qed

section \<open>Removing a name\<close>

text \<open>
  Claim C1. \<^verbatim>\<open>unlink\<close> reports the error of the walk, or the error for the name it ends with; names and link counts are
  then unchanged. Otherwise exactly that name is gone, the number of links of every inode is again the number of names
  that lead to it, no reference is left behind, and the inode is freed exactly when the name was its last one and
  nothing refers to it.
\<close>

theorem unlinkat_vinode_correct:
  assumes ok: "pool_ok p ext" and mem: "p_mem p = []" and links: "links_ok (p_inodes p) (p_dir p)" and fresh: "fresh_alloc (p_new_array p)"
    and cred: "cred_acquire [] (p_cred p) = Some (0, cred)" and start: "starts p ext dir path" "start_dir p dir path = Some d" "path \<noteq> []"
    and w: "walk p cred 0 1 d (comps path) = Some w" "\<And>d'. w \<noteq> Inr (d', [])"
  shows "\<exists>r p'. unlinkat_vinode tm dir path p = Some (r, p') \<and> pool_ok p' ext \<and> links_ok (p_inodes p') (p_dir p') \<and>
    (case w of
       Inl e \<Rightarrow> r = Inl e \<and> calm p p'
     | Inr (d', name) \<Rightarrow> unlinked p cred d' name (trailing path) r p' \<and>
         (\<forall>n i. r = Inr () \<and> entry (p_dir p d') name = Some n \<and> p_inodes p n = Some i \<longrightarrow>
            (p_inodes p' n = None \<longleftrightarrow> inode_get_nlink i = 1 \<and> ext n + pool_refs p n = 0)))"
  using unlinkat_vinode_freed [OF assms, of tm] by blast

lemma sample_unlink: "unlink_check sample pool_cred 2 ''x'' 0 = None" "entry (p_dir sample 2) ''x'' = Some 5"
proof -
  have e: "entry (p_dir sample 2) ''x'' = Some 5"
    by (simp add: sample_dirs_def entry_def dentry_def free_dirent_def)
  have perms: "vinode_get_perms sample 2 = Some \<lparr>perm_flags = PMEMFILE_S_IFDIR + 493, perm_uid = 0, perm_gid = 0\<rparr>"
    by (simp add: vinode_get_perms_def sample_inodes_def)
  have acc: "can_access pool_cred \<lparr>perm_flags = PMEMFILE_S_IFDIR + 493, perm_uid = 0, perm_gid = 0\<rparr> PFILE_WANT_WRITE"
    by (simp add: can_access_def pool_cred_def Let_def want_def access_consts)
  show "unlink_check sample pool_cred 2 ''x'' 0 = None" "entry (p_dir sample 2) ''x'' = Some 5"
    using e by (simp_all add: unlink_check_def vinode_can_access_def perms acc sample_dirs_inodes PMEMFILE_MAX_FILE_NAME_def del: sample_sel(2))
qed

theorem unlinkat_vinode_correct_witness:
  "\<exists>r p'. unlinkat_vinode zero_time (Some 10) ''l/x'' sample = Some (r, p') \<and> pool_ok p' (\<lambda>_. 0) \<and> links_ok (p_inodes p') (p_dir p') \<and>
     (r = Inl ENOMEM \<or> r = Inr () \<and> removed sample 2 ''x'' 5 p' \<and> p_inodes p' 5 = None)"
proof -
  have cred: "cred_acquire [] (p_cred sample) = Some (0, pool_cred)"
    by (simp add: cred_acquire_def copy_cred_def pool_cred_def)
  have i: "p_inodes sample 5 = Some (new_inode (PMEMFILE_S_IFREG + 420) 1)" and refs: "pool_refs sample 5 = 0"
    by (simp_all add: sample_inodes_def pool_refs_def)
  obtain r p' where "unlinkat_vinode zero_time (Some 10) ''l/x'' sample = Some (r, p')" "pool_ok p' (\<lambda>_. 0)" "links_ok (p_inodes p') (p_dir p')"
    "unlinked sample pool_cred 2 ''x'' 0 r p'"
    and free: "\<forall>n i. r = Inr () \<and> entry (p_dir sample 2) ''x'' = Some n \<and> p_inodes sample n = Some i \<longrightarrow>
            (p_inodes p' n = None \<longleftrightarrow> inode_get_nlink i = 1 \<and> 0 + pool_refs sample n = 0)"
    using unlinkat_vinode_correct [OF sample_ok _ sample_links _ cred sample_starts _ sample_walk, of zero_time] spare_alloc_fresh sample_trailing
    by auto
  moreover have "r = Inr () \<Longrightarrow> p_inodes p' 5 = None"
    using free sample_unlink(2) i refs by simp
  ultimately show ?thesis
    using sample_unlink by (intro exI [of _ r] exI [of _ p']) (auto simp: unlinked_def)
qed

end
