(* ===== verification/Path_Action.thy ===== *)
theory Path_Action
  imports Attributes Names
begin

text \<open>
  What the operations on the attributes of the file that a path leads to have in common. The contract of an operation on an inode
  is a locale; the operations on paths that are built from it are proved correct once.
\<close>

section \<open>Bits of a mode\<close>

lemma bit_clear_bits: "bit (clear_bits x m) k \<longleftrightarrow> bit x k \<and> \<not> bit m k"
proof -
  have le: "x AND m \<le> x"
    by (simp add: and_nat_def nat_le_iff)
  have "int (clear_bits x m) = int x - (int x AND int m)"
    using le by (simp add: clear_bits_def of_nat_diff of_nat_and_eq)
  also have "\<dots> = int x AND NOT (int x AND int m)"
    by (rule disjunctive_diff) (simp add: bit_and_iff)
  finally have "bit (int (clear_bits x m)) k = bit (int x AND NOT (int x AND int m)) k"
    by simp
  then show ?thesis
    by (auto simp: bit_and_iff bit_or_iff bit_not_iff bit_of_nat_iff_bit)
qed

lemma bit_and_zero: "(a :: nat) AND b = 0 \<Longrightarrow> bit a k \<Longrightarrow> \<not> bit b k"
  by (metis bit_0_eq bit_and_iff bot_apply bot_bool_def)

lemma type_perm_bits: "PMEMFILE_S_IFMT AND PMEMFILE_ALLPERMS = 0" "PMEMFILE_S_ISGID AND PMEMFILE_ALLPERMS = PMEMFILE_S_ISGID"
  by (simp_all add: PMEMFILE_S_IFMT_def PMEMFILE_ALLPERMS_def PMEMFILE_S_ISGID_def)

text \<open>The flags that \<^verbatim>\<open>chmod\<close> sets.\<close>

definition keeps_sgid :: "pmemfile_cred \<Rightarrow> inode \<Rightarrow> bool" where
  "keeps_sgid cred i \<longleftrightarrow> i_gid i = fsgid cred \<or> gid_in_list cred (i_gid i) \<or> caps cred AND push_bit PMEMFILE_CAP_FSETID 1 \<noteq> 0"

definition may_chmod :: "pmemfile_cred \<Rightarrow> inode \<Rightarrow> bool" where
  "may_chmod cred i \<longleftrightarrow> i_uid i = fsuid cred \<or> caps cred AND push_bit PMEMFILE_CAP_FOWNER 1 \<noteq> 0"

definition chmod_perms :: "pmemfile_cred \<Rightarrow> nat \<Rightarrow> inode \<Rightarrow> nat" where
  "chmod_perms cred mode i = (if keeps_sgid cred i then mode AND PMEMFILE_ALLPERMS else clear_bits (mode AND PMEMFILE_ALLPERMS) PMEMFILE_S_ISGID)"

definition chmod_flags :: "pmemfile_cred \<Rightarrow> nat \<Rightarrow> inode \<Rightarrow> nat" where
  "chmod_flags cred mode i =
     (let flags = clear_bits (inode_get_flags i) PMEMFILE_ALLPERMS OR mode
      in if keeps_sgid cred i then flags else clear_bits flags PMEMFILE_S_ISGID)"

lemma chmod_flags_perms: "chmod_flags cred (mode AND PMEMFILE_ALLPERMS) i AND PMEMFILE_ALLPERMS = chmod_perms cred mode i"
  by (auto simp: bit_eq_iff chmod_flags_def chmod_perms_def bit_clear_bits bit_and_iff bit_or_iff Let_def)

lemma chmod_flags_type: "chmod_flags cred (mode AND PMEMFILE_ALLPERMS) i AND PMEMFILE_S_IFMT = inode_get_flags i AND PMEMFILE_S_IFMT"
proof -
  have d: "bit PMEMFILE_S_IFMT k \<Longrightarrow> \<not> bit PMEMFILE_ALLPERMS k \<and> \<not> bit PMEMFILE_S_ISGID k" for k
    using bit_and_zero [OF type_perm_bits(1), of k] type_perm_bits(2) by (metis bit_and_iff)
  show ?thesis
    using d by (auto simp: bit_eq_iff chmod_flags_def bit_clear_bits bit_and_iff bit_or_iff Let_def)
qed

section \<open>The contract\<close>

text \<open>Only the one inode changes, and not in what the invariant says about it.\<close>

definition touched :: "nat \<Rightarrow> pool \<Rightarrow> pool \<Rightarrow> bool" where
  "touched n p q \<longleftrightarrow> p_dir q = p_dir p \<and> p_symlink q = p_symlink p \<and> p_root q = p_root p \<and> p_cwd q = p_cwd p \<and> p_mem q = p_mem p \<and>
     (\<forall>m. m \<noteq> n \<longrightarrow> p_inodes q m = p_inodes p m) \<and> rel_option alike (p_inodes p n) (p_inodes q n)"

lemma touched_refl [simp]: "touched n p p"
  by (simp add: touched_def)

lemma touched_inode:
  assumes "touched n p q"
  shows "rel_option alike (p_inodes p m) (p_inodes q m)"
  using assms by (cases "m = n") (auto simp: touched_def)

lemma touched_linked: "touched n p q \<Longrightarrow> linked_inode p m \<Longrightarrow> linked_inode q m"
  using touched_inode [of n p q m] by (auto simp: linked_inode_def rel_option_iff alike_simps)

lemma touched_root:
  assumes "touched n p q" and "p_inodes p r = Some i" and "inode_is_dir i" and "inode_get_nlink i \<noteq> 0"
  shows "\<exists>j. p_inodes q r = Some j \<and> inode_is_dir j \<and> inode_get_nlink j \<noteq> 0"
  using touched_inode [OF assms(1), of r] assms(2-4) by (auto simp: rel_option_iff alike_simps)

lemma pool_ok_touched:
  assumes "pool_ok p ext" and t: "touched n p q" and "pool_inv q (\<lambda>m. ext m + pool_refs p m)"
  shows "pool_ok q ext"
proof -
  have "pool_refs q = pool_refs p"
    using t by (simp add: touched_def pool_refs_def fun_eq_iff)
  then show ?thesis
    using assms(1,3) touched_root [OF t] t unfolding pool_ok_def touched_def by auto
qed

locale vinode_action =
  fixes act :: "nat \<Rightarrow> pool \<Rightarrow> 'a body"
  assumes act_runs: "pool_inv p tot \<Longrightarrow> p_inodes p n = Some i \<Longrightarrow> p_vinodes p n = Some v \<Longrightarrow>
    \<exists>r q. act n p = Some (r, q) \<and> pool_inv q tot \<and> touched n p q"
begin

lemma act_ok:
  assumes "pool_ok p ext" and "0 < ext n"
  obtains r q where "act n p = Some (r, q)" and "pool_ok q ext" and "touched n p q"
proof -
  note inv = pool_ok_linksD [OF assms(1)]
  obtain v where v: "p_vinodes p n = Some v"
    using pool_inv_vnode [OF inv, of n] assms(2) by auto
  obtain i where i: "p_inodes p n = Some i"
    using ns_inv_inode [OF inv [unfolded pool_inv_def] v] by blast
  obtain r q where q: "act n p = Some (r, q)" "pool_inv q (\<lambda>m. ext m + pool_refs p m)" "touched n p q"
    using act_runs [OF inv i v] by blast
  show ?thesis
    by (rule that [OF q(1) pool_ok_touched [OF assms(1) q(3,2)] q(3)])
qed

lemma on_path_ok:
  assumes ok: "pool_ok p ext" and mem: "p_mem p = []" and start: "starts p ext dir path"
    and w: "walk_from p cred flags dir path = Some w" "leads p cred follow w (trailing path) r"
  shows "\<exists>x p'. on_path cred dir path flags follow act p = Some (x, p') \<and> pool_ok p' ext \<and> p_mem p' = [] \<and>
    (case r of
       Inl e \<Rightarrow> x = Inl e \<and> calm p p'
     | Inr n \<Rightarrow> linked_inode p n \<and> (\<exists>p1 p2. calm p p1 \<and> act n p1 = Some (x, p2) \<and> touched n p1 p2 \<and> calm p2 p'))"
proof -
  obtain v info q where q: "resolve_pathat_full p cred dir path flags follow = Some (v, info, q)" "calm p q" "p_mem q = []"
    "pool_ok q (plus_ref (plus_ref ext (pi_parent info)) v)"
    and v: "case r of Inl e \<Rightarrow> v = None \<and> pi_error info = e \<and> e \<noteq> 0 | Inr n \<Rightarrow> v = Some n \<and> pi_error info = 0"
    using resolve_pathat_full_ok(1) [OF ok mem start w] by (auto simp: resolved_def)
  show ?thesis
  proof (cases r)
    case (Inl e)
    then have e: "v = None" "pi_error info = e" "e \<noteq> 0"
      using v by simp_all
    obtain q1 where "path_info_cleanup q info = Some q1" "pool_ok q1 ext" "calm q q1" "p_mem q1 = p_mem q"
      by (rule pool_ok_cleanup [of q ext info]) (use q(4) e(1) in simp, rule that)
    then show ?thesis
      using q e Inl calm_trans [OF q(2)] by (simp add: on_path_def vinode_unref.simps)
  next
    case (Inr n)
    then have n: "v = Some n" "pi_error info = 0"
      using v by simp_all
    have pos: "0 < plus_ref (plus_ref ext (pi_parent info)) v n"
      using n(1) by (simp add: plus_ref_def)
    obtain x q1 where q1: "act n q = Some (x, q1)" "pool_ok q1 (plus_ref (plus_ref ext (pi_parent info)) v)" "touched n q q1"
      by (rule act_ok [OF q(4) pos]) (rule that)
    obtain q2 where q2: "path_info_cleanup q1 info = Some q2" "pool_ok q2 (plus_ref ext v)" "calm q1 q2" "p_mem q2 = p_mem q1"
      by (rule pool_ok_cleanup [of q1 "plus_ref ext v" info]) (use q1(2) in \<open>simp add: plus_ref_commute\<close>, rule that)
    obtain q3 where q3: "vinode_unref q2 v = Some q3" "pool_ok q3 ext" "calm q2 q3" "p_mem q3 = p_mem q2"
      by (rule pool_ok_unref [OF q2(2)]) (rule that)
    have "on_path cred dir path flags follow act p = Some (x, q3)"
      using q(1) q1(1) q2(1) q3(1) n by (simp add: on_path_def)
    moreover have "p_mem q3 = []"
      using q(3) q1(3) q2(4) q3(4) by (simp add: touched_def)
    ultimately show ?thesis
      using Inr q(2) q1(1,3) q3(2) calm_trans [OF q2(3) q3(3)] resolve_pathat_full_ok(2) [OF ok mem start w] by auto
  qed
qed

end

section \<open>The operations keep the contract\<close>

lemma heap_tx [simp]: "ia_heap (tx_begin h) = h" "tx_commit (tx_begin h) = h" "tx_abort (tx_begin h) = h"
  by (simp_all add: tx_begin_def tx_commit_def tx_abort_def)

lemma run_tx_edit:
  "run_tx (\<lambda>q. Some (Inr x, upd_inode n f q)) p = Some (Inr x, upd_inode n f (p\<lparr>p_arr := tx_begin (ia_heap (p_arr p))\<rparr>))"
  by (simp add: run_tx_def upd_inode_def)

lemma edit_inode:
  assumes "pool_inv p tot" and "p_inodes p n = Some i" and "alike i (f i)" and "q = upd_inode n f (p\<lparr>p_arr := tx_begin (ia_heap (p_arr p))\<rparr>)"
  shows "pool_inv q tot" and "touched n p q"
proof -
  show "pool_inv q tot"
    unfolding pool_inv_def assms(4)
    by (simp, rule ns_inv_same [OF assms(1) [unfolded pool_inv_def]])
      (use assms(2,3) ns_invD(1) [OF assms(1) [unfolded pool_inv_def]] in auto)
  show "touched n p q"
    using assms(2-4) by (simp add: touched_def)
qed

lemma alike_edits:
  "alike i (inode_tx_set_ctime tm j) = alike i j" "alike i (inode_tx_set_mtime tm j) = alike i j"
  "alike i (inode_tx_set_atime tm j) = alike i j" "alike i (j\<lparr>i_uid := u, i_gid := g\<rparr>) = alike i j"
  by (simp_all add: alike_def inode_get_defs inode_tx_set_defs inode_is_dir_def inode_is_regular_file_def inode_is_symlink_def)

lemma alike_trans: "alike i j \<Longrightarrow> alike j k \<Longrightarrow> alike i k"
  by (simp add: alike_def)

lemma alike_flags:
  assumes "f AND PMEMFILE_S_IFMT = inode_get_flags i AND PMEMFILE_S_IFMT"
  shows "alike i (inode_tx_set_flags f i)"
  using assms by (simp add: alike_def inode_get_defs inode_tx_set_defs inode_is_dir_def inode_is_regular_file_def inode_is_symlink_def PMEMFILE_S_ISTYPE_def)

lemma vinode_chmod_eq:
  assumes "p_inodes p n = Some i"
  shows "vinode_chmod tm mode cred n p =
    (let q = p\<lparr>p_arr := tx_begin (ia_heap (p_arr p))\<rparr>
     in Some (if may_chmod cred i
       then (Inr (), upd_inode n (\<lambda>j. inode_tx_set_flags (chmod_flags cred mode i) (inode_tx_set_ctime tm j)) q)
       else (Inl EPERM, q)))"
  using assms
  by (auto simp: vinode_chmod_def run_tx_def chmod_flags_def may_chmod_def keeps_sgid_def Let_def upd_inode_def)

interpretation stat_act: vinode_action "vinode_stat dev buf" for dev buf
  by unfold_locales (auto simp: vinode_stat_def)

interpretation access_act: vinode_action "vinode_access cred acc" for cred acc
  by unfold_locales (auto simp: vinode_access_def vinode_can_access_def vinode_get_perms_def)

lemma pool_inv_arr: "pool_inv (p\<lparr>p_arr := tx_begin (ia_heap (p_arr p))\<rparr>) tot = pool_inv p tot"
  by (simp add: pool_inv_def)

lemma touched_arr: "touched n p (p\<lparr>p_arr := t\<rparr>)"
  by (simp add: touched_def)

interpretation chmod_act: vinode_action "vinode_chmod tm (mode AND PMEMFILE_ALLPERMS) cred" for tm mode cred
proof unfold_locales
  fix p tot n i v
  assume inv: "pool_inv p tot" and i: "p_inodes p n = Some i"
  let ?f = "\<lambda>j. inode_tx_set_flags (chmod_flags cred (mode AND PMEMFILE_ALLPERMS) i) (inode_tx_set_ctime tm j)"
  have "alike i (?f i)"
    by (rule alike_trans [OF _ alike_flags]) (simp_all add: alike_edits inode_simps chmod_flags_type)
  then show "\<exists>r q. vinode_chmod tm (mode AND PMEMFILE_ALLPERMS) cred n p = Some (r, q) \<and> pool_inv q tot \<and> touched n p q"
    using edit_inode [OF inv i _ refl, of ?f] inv by (auto simp: vinode_chmod_eq [OF i] Let_def pool_inv_arr touched_arr)
qed

interpretation chown_act: vinode_action "vinode_chown tm owner grp cred" for tm owner grp cred
proof unfold_locales
  fix p tot n i v
  assume inv: "pool_inv p tot" and i: "p_inodes p n = Some i"
  show "\<exists>r q. vinode_chown tm owner grp cred n p = Some (r, q) \<and> pool_inv q tot \<and> touched n p q"
    using edit_inode [OF inv i _ refl] inv i by (auto simp: vinode_chown_def run_tx_edit alike_edits)
qed

lemma pool_inv_atime:
  assumes "pool_inv p tot"
  shows "pool_inv (upd_vnode n (\<lambda>v. v\<lparr>v_atime := a, v_atime_dirty := b\<rparr>) p) tot"
proof (cases "p_vinodes p n")
  case None
  then have "upd_vnode n (\<lambda>v. v\<lparr>v_atime := a, v_atime_dirty := b\<rparr>) p = p"
    by (simp add: upd_vnode_def fun_upd_idem)
  then show ?thesis
    using assms by simp
next
  case (Some v)
  note ns = assms [unfolded pool_inv_def]
  have "refs_ok ((p_vinodes p)(n \<mapsto> v\<lparr>v_atime := a, v_atime_dirty := b\<rparr>)) (tot(n := tot n))"
    by (rule refs_set [OF ns_invD(1) [OF ns] Some]) (use refs_okD(4,5) [OF ns_invD(1) [OF ns] Some] in auto)
  then have "ns_inv (p_inodes p) (p_dir p) ((p_vinodes p)(n \<mapsto> v\<lparr>v_atime := a, v_atime_dirty := b\<rparr>)) (ia_heap (p_arr p)) (p_orphaned p) tot"
    by (intro ns_inv_same [OF ns]) (use Some in \<open>auto simp: same_vnode_def\<close>)
  then show ?thesis
    using Some by (simp add: pool_inv_def)
qed

lemma touched_vnode: "touched n p (upd_vnode m f q) = touched n p q"
  by (simp add: touched_def)

lemma run_tx_times:
  assumes "p_inodes p n = Some i"
  shows "run_tx (\<lambda>q. do {
      _ \<leftarrow> p_inodes q n;
      let q1 = (if a then upd_inode n f q else q);
      Some (Inr (), if b then upd_inode n g q1 else q1)
    }) p =
    Some (Inr (), upd_inode n (\<lambda>i. (if b then g else id) ((if a then f else id) i)) (p\<lparr>p_arr := tx_begin (ia_heap (p_arr p))\<rparr>))"
  using assms by (cases p) (simp add: run_tx_def upd_inode_def Let_def fun_upd_idem)

interpretation time_act: vinode_action "vinode_file_time_set now tm utm" for now tm utm
proof unfold_locales
  fix p tot n i v
  assume inv: "pool_inv p tot" and i: "p_inodes p n = Some i"
  show "\<exists>r q. vinode_file_time_set now tm utm n p = Some (r, q) \<and> pool_inv q tot \<and> touched n p q"
  proof (cases "times_to_set now tm utm")
    case (Inl e)
    then show ?thesis
      using inv by (simp add: vinode_file_time_set_def)
  next
    case (Inr t)
    obtain t0 t1 where t: "t = (t0, t1)"
      by (cases t)
    define f where "f = (\<lambda>i. (if \<not> utm \<or> nsec t1 \<noteq> PMEMFILE_UTIME_OMIT then inode_tx_set_mtime t1 else id)
      ((if \<not> utm \<or> nsec t0 \<noteq> PMEMFILE_UTIME_OMIT then inode_tx_set_atime t0 else id) i))"
    let ?q = "upd_inode n f (p\<lparr>p_arr := tx_begin (ia_heap (p_arr p))\<rparr>)"
    have "alike i (f i)"
      by (simp add: f_def alike_edits)
    note e = edit_inode [where f = f, OF inv i this refl]
    have "vinode_file_time_set now tm utm n p = Some (Inr (),
        if \<not> utm \<or> nsec t0 \<noteq> PMEMFILE_UTIME_OMIT then upd_vnode n (\<lambda>v. v\<lparr>v_atime := t0, v_atime_dirty := False\<rparr>) ?q else ?q)"
      unfolding vinode_file_time_set_def Inr t sum.case prod.case Let_def [of "_ \<or> _"] run_tx_times [OF i] f_def [symmetric] by simp
    then show ?thesis
      using e by (simp add: pool_inv_atime touched_vnode)
  qed
qed

section \<open>Changing the mode\<close>

lemma same_inode_trans2: "touched n p q \<Longrightarrow> m \<noteq> n \<Longrightarrow> p_inodes q m = p_inodes p m"
  by (simp add: touched_def)

text \<open>Inodes with links that the action does not touch stay as they are, up to their access times.\<close>

lemma around_other:
  assumes "calm p p1" and "touched n p1 p2" and "calm p2 p'" and "m \<noteq> n" and "p_inodes p m = Some i" and "inode_get_nlink i \<noteq> 0"
  shows "\<exists>j. p_inodes p' m = Some j \<and> same_inode i j"
proof -
  obtain j where j: "p_inodes p1 m = Some j" "same_inode i j"
    using calm_inode(2) [OF assms(1,5)] assms(6) by auto
  have j2: "p_inodes p2 m = Some j" "inode_get_nlink j \<noteq> 0"
    using j assms(4,6) same_inode_trans2 [OF assms(2)] by (simp_all add: same_inode_simps)
  then show ?thesis
    using calm_inode(2) [OF assms(3) j2(1)] same_inode_trans [OF j(2)] by auto
qed

lemma with_cred_ok:
  assumes "p_mem p = []" and "cred_acquire [] (p_cred p) = Some (0, cred)"
  shows "with_cred p f = f cred p"
  using assms by (simp add: with_cred_def)

text \<open>The inode that the path leads to, before and after.\<close>

definition chmod_done :: "pmemfile_cred \<Rightarrow> nat \<Rightarrow> nat \<Rightarrow> pool \<Rightarrow> errno + unit \<Rightarrow> pool \<Rightarrow> bool" where
  "chmod_done cred mode n p x p' \<longleftrightarrow>
     (\<exists>i j. p_inodes p n = Some i \<and> p_inodes p' n = Some j \<and>
        x = (if may_chmod cred i then Inr () else Inl EPERM) \<and>
        inode_get_flags j AND PMEMFILE_S_IFMT = inode_get_flags i AND PMEMFILE_S_IFMT \<and>
        inode_get_flags j AND PMEMFILE_ALLPERMS =
          (if may_chmod cred i then chmod_perms cred mode i else inode_get_flags i AND PMEMFILE_ALLPERMS) \<and>
        i_uid j = i_uid i \<and> i_gid j = i_gid i \<and> inode_get_nlink j = inode_get_nlink i \<and> inode_get_size j = inode_get_size i)"

lemma chmod_edits:
  "inode_get_flags (inode_tx_set_flags f i) = f" "i_uid (inode_tx_set_flags f i) = i_uid i" "i_gid (inode_tx_set_flags f i) = i_gid i"
  "inode_get_nlink (inode_tx_set_flags f i) = inode_get_nlink i" "inode_get_size (inode_tx_set_flags f i) = inode_get_size i"
  "i_uid (inode_tx_set_ctime tm i) = i_uid i" "i_gid (inode_tx_set_ctime tm i) = i_gid i" "inode_get_nlink (inode_tx_set_ctime tm i) = inode_get_nlink i"
  by (simp_all add: inode_get_defs inode_tx_set_defs)

lemma same_chmod:
  assumes "same_inode i j"
  shows "chmod_flags cred mode j = chmod_flags cred mode i" "may_chmod cred j = may_chmod cred i" "chmod_perms cred mode j = chmod_perms cred mode i"
  by (simp_all add: chmod_flags_def may_chmod_def chmod_perms_def keeps_sgid_def same_inode_simps [OF assms])

lemma chmod_done_ok:
  assumes n: "linked_inode p n" and p1: "calm p p1" and act: "vinode_chmod tm (mode AND PMEMFILE_ALLPERMS) cred n p1 = Some (x, p2)" and p2: "calm p2 p'"
  shows "chmod_done cred mode n p x p'"
proof -
  let ?m = "mode AND PMEMFILE_ALLPERMS"
  obtain i i1 where i: "p_inodes p n = Some i" "p_inodes p1 n = Some i1" "same_inode i i1" "inode_get_nlink i \<noteq> 0"
    by (rule calm_linked [OF p1 n]) (rule that)
  let ?j = "if may_chmod cred i then inode_tx_set_flags (chmod_flags cred ?m i) (inode_tx_set_ctime tm i1) else i1"
  note same = same_inode_simps [OF i(3)]
  have j2: "p_inodes p2 n = Some ?j" and x: "x = (if may_chmod cred i then Inr () else Inl EPERM)"
    using act i(2) by (auto simp: vinode_chmod_eq [OF i(2)] same_chmod [OF i(3)] Let_def)
  have "inode_get_nlink ?j \<noteq> 0"
    using i(4) by (simp add: chmod_edits same)
  then obtain j where j: "p_inodes p' n = Some j" "same_inode ?j j"
    using calm_inode(2) [OF p2 j2] by auto
  then show ?thesis
    using i(1) x by (auto simp: chmod_done_def same_inode_simps [OF j(2)] chmod_edits inode_simps same chmod_flags_perms chmod_flags_type)
qed

text \<open>
  Claim C18. Changing the mode of a file by its path, whatever mode is given: the result is the error of the path, or that of
  the permission check with nothing changed, or success, and then the file that the path leads to has the permissions asked for,
  without the set-group-id bit where the caller is not in its group. No inode, this one included, ever changes its type, so a
  directory stays a directory, and every reference taken on the way is given back.
\<close>

theorem fchmodat_vinode_keeps_types:
  assumes ok: "pool_ok p ext" and mem: "p_mem p = []" and cred: "cred_acquire [] (p_cred p) = Some (0, cred)"
    and start: "starts p ext dir path"
    and w: "walk_from p cred 0 dir path = Some w" "leads p cred True w (trailing path) r"
  shows "\<exists>x p'. fchmodat_vinode tm mode 0 dir path p = Some (x, p') \<and> pool_ok p' ext \<and>
    (case r of
       Inl e \<Rightarrow> x = Inl e \<and> calm p p'
     | Inr n \<Rightarrow> chmod_done cred mode n p x p' \<and>
         (\<forall>m i. m \<noteq> n \<and> p_inodes p m = Some i \<and> inode_get_nlink i \<noteq> 0 \<longrightarrow> (\<exists>j. p_inodes p' m = Some j \<and> same_inode i j)))"
proof -
  have "fchmodat_vinode tm mode 0 dir path p = on_path cred dir path 0 True (vinode_chmod tm (mode AND PMEMFILE_ALLPERMS) cred) p"
    by (simp add: fchmodat_vinode_def clear_bits_def with_cred_ok [OF mem cred])
  then show ?thesis
    using chmod_act.on_path_ok [OF ok mem start w, of tm mode cred] chmod_done_ok around_other by (cases r) fastforce+
qed

lemma sample_leads_x: "leads sample pool_cred True (Inr (2, ''x'')) (trailing ''l/x'') (Inr 5)"
proof -
  have i: "p_inodes sample 5 = Some (new_inode (PMEMFILE_S_IFREG + 420) 1)"
    by (simp add: sample_inodes_def)
  show ?thesis
    by (rule leads_here [OF _ _ sample_unlink(2) i]) (simp_all add: PMEMFILE_MAX_FILE_NAME_def sample_trailing)
qed

lemma sample_cred: "cred_acquire [] (p_cred sample) = Some (0, pool_cred)"
  by (simp add: cred_acquire_def copy_cred_def pool_cred_def)

theorem fchmodat_vinode_keeps_types_witness:
  "\<exists>p' j. fchmodat_vinode zero_time 16895 0 (Some 10) ''l/x'' sample = Some (Inr (), p') \<and> p_inodes p' 5 = Some j \<and>
     inode_get_flags j AND PMEMFILE_S_IFMT = PMEMFILE_S_IFREG \<and> inode_get_flags j AND PMEMFILE_ALLPERMS = 511"
proof -
  let ?i = "new_inode (PMEMFILE_S_IFREG + 420) 1"
  have i: "p_inodes sample 5 = Some ?i"
    by (simp add: sample_inodes_def)
  have w: "walk_from sample pool_cred 0 (Some 10) ''l/x'' = Some (Inr (2, ''x''))"
    using sample_walk by (simp add: walk_from_def sample_starts(2))
  have c: "may_chmod pool_cred ?i" "chmod_perms pool_cred 16895 ?i = 511"
    by (simp_all add: may_chmod_def chmod_perms_def keeps_sgid_def pool_cred_def PMEMFILE_ALLPERMS_def)
  have t: "inode_get_flags ?i AND PMEMFILE_S_IFMT = PMEMFILE_S_IFREG"
    by (simp add: PMEMFILE_S_IFMT_def PMEMFILE_S_IFREG_def)
  obtain x p' where r: "fchmodat_vinode zero_time 16895 0 (Some 10) ''l/x'' sample = Some (x, p')" "chmod_done pool_cred 16895 5 sample x p'"
    using fchmodat_vinode_keeps_types [OF sample_ok _ sample_cred sample_starts(1) w sample_leads_x, of zero_time 16895] by auto
  then show ?thesis
    using i c t by (auto simp: chmod_done_def)
qed

text \<open>By an open file the mode is not masked: the type of a regular file is lost, and it is of no known type afterwards.\<close>

lemma pmemfile_fchmod_loses_type:
  "\<exists>p' j. pmemfile_fchmod zero_time (Some sample) (Some (5, f\<lparr>f_flags := PFILE_WRITE\<rparr>)) 16804 = Some (Inr (), Some p') \<and>
     p_inodes p' 5 = Some j \<and> \<not> inode_is_regular_file j \<and> \<not> inode_is_dir j \<and> \<not> inode_is_symlink j"
proof -
  let ?i = "new_inode (PMEMFILE_S_IFREG + 420) 1"
  have i: "p_inodes sample 5 = Some ?i"
    by (simp add: sample_inodes_def)
  have m: "may_chmod pool_cred ?i" "chmod_flags pool_cred 16804 ?i = 49572"
    by (simp_all add: may_chmod_def chmod_flags_def keeps_sgid_def pool_cred_def Let_def clear_bits_def PMEMFILE_ALLPERMS_def PMEMFILE_S_IFREG_def)
  have c: "with_cred sample f = f pool_cred sample" for f :: "pmemfile_cred \<Rightarrow> pool \<Rightarrow> unit body"
    by (rule with_cred_ok [OF _ sample_cred]) simp
  show ?thesis
    using m i by (simp add: pmemfile_fchmod_def on_file_def c vinode_chmod_eq [OF i] PFILE_WRITE_def PFILE_PATH_def Let_def
        inode_is_regular_file_def inode_is_dir_def inode_is_symlink_def chmod_edits PMEMFILE_S_ISTYPE_def PMEMFILE_S_IFMT_def
        PMEMFILE_S_IFREG_def PMEMFILE_S_IFDIR_def PMEMFILE_S_IFLNK_def)
qed

end
