(* ===== verification/Hash_Map.thy ===== *)
theory Hash_Map
  imports Pmf_Prelude "HOL-Library.Multiset"
begin

text \<open>
  The hash map from inode numbers to in-memory inodes (\<^verbatim>\<open>hash_map.c\<close>). A bucket has two slots,
  each a key and a value; key 0 marks a free slot, and the null value is \<open>None\<close>. When a bucket
  is full the map draws new hash coefficients or doubles, and moves every entry, until each
  entry finds a slot.

  Random numbers come from \<^verbatim>\<open>nrand48\<close>, whose generator is written out. The loops that draw
  until a condition holds have no bound in the source; they return \<open>None\<close> when they do not end.
\<close>

section \<open>Data\<close>

type_synonym 'v slot = "nat \<times> 'v option"

record 'v hash_map =
  hash_fun_a :: nat
  hash_fun_b :: nat
  hash_fun_p :: nat
  seed :: nat
  buckets :: "'v slot list list"
  entries :: nat

definition INITIAL_NBUCKETS :: nat where "INITIAL_NBUCKETS = 2"
definition HASH_P_COEFF :: nat where "HASH_P_COEFF = 32212254719"
definition BUCKET_SIZE :: nat where "BUCKET_SIZE = 2"

abbreviation nbuckets :: "'v hash_map \<Rightarrow> nat" where
  "nbuckets m \<equiv> length (buckets m)"

definition empty_bucket :: "'v slot list" where
  "empty_bucket = replicate BUCKET_SIZE (0, None)"

text \<open>The linear congruential generator of the C library: 48 bits of state, 31 bits of output.\<close>

definition nrand48 :: "nat \<Rightarrow> nat \<times> nat" where
  "nrand48 s = (let s' = (s * 25214903917 + 11) mod 281474976710656 in (s' div 131072, s'))"

section \<open>Operations\<close>

partial_function (option) draw_nonzero :: "nat \<Rightarrow> (nat \<times> nat) option" where
  "draw_nonzero s =
     (case nrand48 s of (a, s') \<Rightarrow> if a = 0 then draw_nonzero s' else Some (a, s'))"

definition hash_map_rand_params :: "'v hash_map \<Rightarrow> 'v hash_map option" where
  "hash_map_rand_params m =
     (case draw_nonzero (seed m) of
        None \<Rightarrow> None
      | Some (a, s1) \<Rightarrow>
          (case nrand48 s1 of
             (b, s2) \<Rightarrow> Some (m\<lparr>hash_fun_a := a, hash_fun_b := b, seed := s2\<rparr>)))"

text \<open>The outer option is for a loop that does not end, the inner one for the null pointer.\<close>

definition hash_map_alloc :: "answers \<Rightarrow> ('v hash_map option \<times> answers) option" where
  "hash_map_alloc os =
     (let (ok1, os1) = pf_calloc os in
      if \<not> ok1 then Some (None, os1)
      else
        let (ok2, os2) = pf_calloc os1 in
        if \<not> ok2 then Some (None, os2)
        else
          (case hash_map_rand_params \<lparr>hash_fun_a = 0, hash_fun_b = 0, hash_fun_p = 0, seed = 0,
                  buckets = replicate INITIAL_NBUCKETS empty_bucket, entries = 0\<rparr> of
             None \<Rightarrow> None
           | Some m \<Rightarrow> Some (Some (m\<lparr>hash_fun_p := HASH_P_COEFF\<rparr>), os2)))"

text \<open>
  The callback of \<open>hash_map_traverse\<close> changes the caller's state; the result is that state and
  the number of live entries.
\<close>

definition hash_map_traverse ::
  "'v hash_map \<Rightarrow> (nat \<Rightarrow> 'v \<Rightarrow> 's \<Rightarrow> 's) \<Rightarrow> 's \<Rightarrow> nat \<times> 's" where
  "hash_map_traverse m f arg =
     fold (\<lambda>(k, v) (num, s). case v of None \<Rightarrow> (num, s) | Some x \<Rightarrow> (Suc num, f k x s))
       (concat (buckets m)) (0, arg)"

definition pf_hash :: "'v hash_map \<Rightarrow> nat \<Rightarrow> nat" where
  "pf_hash m key = add64 (hash_fun_a m * key mod W64) (hash_fun_b m) mod hash_fun_p m"

text \<open>A slot of the first free key, if there is one.\<close>

fun first_free :: "'v slot list \<Rightarrow> nat option" where
  "first_free [] = None"
| "first_free (s # b) = (if fst s = 0 then Some 0 else map_option Suc (first_free b))"

text \<open>
  The two loops of \<open>hash_map_rebuild\<close> over the slots of the old buckets; \<open>None\<close> is a conflict.
\<close>

fun rehash :: "'v hash_map \<Rightarrow> 'v slot list \<Rightarrow> 'v slot list list \<Rightarrow> 'v slot list list option" where
  "rehash m [] nb = Some nb"
| "rehash m (s # ss) nb =
     (if fst s = 0 then rehash m ss nb
      else
        let idx = pf_hash m (fst s) mod length nb in
        (case first_free (nb ! idx) of
           None \<Rightarrow> None
         | Some k \<Rightarrow> rehash m ss (nb[idx := (nb ! idx)[k := s]])))"

text \<open>The return code of the source: 0, 1 for a conflict, or the negated error number.\<close>

definition hash_map_rebuild :: "'v hash_map \<Rightarrow> nat \<Rightarrow> answers \<Rightarrow> int \<times> 'v hash_map \<times> answers" where
  "hash_map_rebuild c new_sz os =
     (let (ok, os') = pf_calloc os in
      if \<not> ok then (- int ENOMEM, c, os')
      else
        (case rehash c (concat (buckets c)) (replicate new_sz empty_bucket) of
           None \<Rightarrow> (1, c, os')
         | Some nb \<Rightarrow> (0, c\<lparr>buckets := nb\<rparr>, os')))"

fun slot_with_value :: "'v slot list \<Rightarrow> 'v \<Rightarrow> nat option" where
  "slot_with_value [] v = None"
| "slot_with_value (s # b) v = (if snd s = Some v then Some 0 else map_option Suc (slot_with_value b v))"

definition hash_map_remove :: "'v hash_map \<Rightarrow> nat \<Rightarrow> 'v \<Rightarrow> int \<times> 'v hash_map" where
  "hash_map_remove m key v =
     (let idx = pf_hash m key mod nbuckets m; b = buckets m ! idx in
      case slot_with_value b v of
        None \<Rightarrow> (- int ENOENT, m)
      | Some j \<Rightarrow> (0, m\<lparr>buckets := (buckets m)[idx := b[j := (0, None)]], entries := entries m - 1\<rparr>))"

fun bucket_get :: "'v slot list \<Rightarrow> nat \<Rightarrow> 'v option option" where
  "bucket_get [] key = None"
| "bucket_get (s # b) key = (if fst s = key then Some (snd s) else bucket_get b key)"

definition hash_map_get :: "'v hash_map \<Rightarrow> nat \<Rightarrow> 'v option" where
  "hash_map_get m key =
     (case bucket_get (buckets m ! (pf_hash m key mod nbuckets m)) key of None \<Rightarrow> None | Some v \<Rightarrow> v)"

text \<open>
  The inner loop of \<open>hash_map_put\<close>: new coefficients, or a table of twice the size, until the
  rebuild is done or memory is out.
\<close>

partial_function (option) retry_rebuild ::
  "'v hash_map \<Rightarrow> nat \<Rightarrow> nat \<Rightarrow> answers \<Rightarrow> (int \<times> 'v hash_map \<times> nat \<times> answers) option" where
  "retry_rebuild m new_sz tries os =
     (case (if entries m > 2 * new_sz \<or> tries = 2 then Some (m, new_sz * 2, 0)
            else (case hash_map_rand_params m of
                    None \<Rightarrow> None
                  | Some m1 \<Rightarrow> Some (m1, new_sz, Suc tries))) of
        None \<Rightarrow> None
      | Some (m1, new_sz1, tries1) \<Rightarrow>
          (case hash_map_rebuild m1 new_sz1 os of
             (res, m2, os') \<Rightarrow>
               if res = 1 then retry_rebuild m2 new_sz1 tries1 os'
               else Some (res, m2, tries1, os')))"

text \<open>
  The outer loop: rebuild until the bucket of the key has a free slot. The result is the error
  code, the map and the slot.
\<close>

partial_function (option) make_room ::
  "'v hash_map \<Rightarrow> nat \<Rightarrow> nat \<Rightarrow> answers \<Rightarrow> (int \<times> 'v hash_map \<times> nat \<times> answers) option" where
  "make_room m key tries os =
     (case first_free (buckets m ! (pf_hash m key mod nbuckets m)) of
        Some j \<Rightarrow> Some (0, m, j, os)
      | None \<Rightarrow>
          (case retry_rebuild m (nbuckets m) tries os of
             None \<Rightarrow> None
           | Some (res, m1, tries1, os1) \<Rightarrow>
               if res < 0 then Some (res, m1, 0, os1) else make_room m1 key tries1 os1))"

definition hash_map_put ::
  "'v hash_map \<Rightarrow> nat \<Rightarrow> 'v \<Rightarrow> answers \<Rightarrow> ('v option \<times> 'v hash_map \<times> answers) option" where
  "hash_map_put m key v os =
     (case bucket_get (buckets m ! (pf_hash m key mod nbuckets m)) key of
        Some old \<Rightarrow> Some (old, m, os)
      | None \<Rightarrow>
          (case make_room m key 0 os of
             None \<Rightarrow> None
           | Some (res, m1, j, os1) \<Rightarrow>
               if res < 0 then Some (None, m1, os1)
               else
                 let idx = pf_hash m1 key mod nbuckets m1; b = buckets m1 ! idx in
                 Some (Some v, m1\<lparr>buckets := (buckets m1)[idx := b[j := (key, Some v)]],
                                  entries := entries m1 + 1\<rparr>, os1)))"

section \<open>The invariant\<close>

text \<open>\<open>live nb\<close> is the multiset of used slots.\<close>

definition live :: "'v slot list list \<Rightarrow> 'v slot multiset" where
  "live nb = filter_mset (\<lambda>s. fst s \<noteq> 0) (mset (concat nb))"

definition placed :: "(nat \<Rightarrow> nat) \<Rightarrow> 'v slot list list \<Rightarrow> bool" where
  "placed h nb \<longleftrightarrow> (\<forall>b \<in> set nb. length b = BUCKET_SIZE) \<and>
     (\<forall>i < length nb. \<forall>s \<in> set (nb ! i). fst s \<noteq> 0 \<longrightarrow> h (fst s) mod length nb = i)"

text \<open>Free slots have the null value.\<close>

definition tidy :: "'v slot list list \<Rightarrow> bool" where
  "tidy nb \<longleftrightarrow> (\<forall>s \<in> set (concat nb). fst s = 0 \<longrightarrow> snd s = None)"

definition hm_ok :: "'v hash_map \<Rightarrow> bool" where
  "hm_ok m \<longleftrightarrow> buckets m \<noteq> [] \<and> placed (pf_hash m) (buckets m)
     \<and> (\<forall>k. count (image_mset fst (live (buckets m))) k \<le> 1)
     \<and> (\<forall>s \<in># live (buckets m). snd s \<noteq> None)
     \<and> tidy (buckets m)
     \<and> entries m = size (live (buckets m))"

lemma mset_concat_update:
  "i < length nb \<Longrightarrow> mset (concat (nb[i := b])) + mset (nb ! i) = mset (concat nb) + mset b"
proof (induction nb arbitrary: i)
  case (Cons c nb)
  then show ?case by (cases i) (auto simp: ac_simps)
qed simp

lemma swap_cancel:
  fixes a b c d x s :: "'a multiset"
  assumes "a + b = c + d" "d + x = b + s"
  shows "a + x = c + s"
proof -
  have "a + x + b = c + d + x"
    unfolding assms(1) [symmetric] by (simp only: ac_simps)
  also have "\<dots> = c + s + b"
    unfolding add.assoc assms(2) by (simp add: add.commute)
  finally show ?thesis by simp
qed

lemma live_update:
  assumes "i < length nb" "j < length (nb ! i)"
  shows "live (nb[i := (nb ! i)[j := s]]) + (if fst (nb ! i ! j) \<noteq> 0 then {#nb ! i ! j#} else {#})
    = live nb + (if fst s \<noteq> 0 then {#s#} else {#})"
proof -
  define b where "b = nb ! i"
  have "mset (concat (nb[i := b[j := s]])) + mset b = mset (concat nb) + mset (b[j := s])"
    using mset_concat_update [OF assms(1), of "b[j := s]"] by (simp add: b_def)
  moreover have "mset (b[j := s]) + {#b ! j#} = mset b + {#s#}"
    using assms(2) mset_update [of j b s] by (simp add: b_def)
  ultimately have "mset (concat (nb[i := b[j := s]])) + {#b ! j#} = mset (concat nb) + {#s#}"
    by (rule swap_cancel)
  then have "filter_mset (\<lambda>s. fst s \<noteq> 0) (mset (concat (nb[i := b[j := s]])) + {#b ! j#})
      = filter_mset (\<lambda>s. fst s \<noteq> 0) (mset (concat nb) + {#s#})"
    by (simp only:)
  then show ?thesis
    unfolding live_def b_def [symmetric] filter_union_mset by (simp split: if_splits)
qed

lemma first_free_Some: "first_free b = Some j \<Longrightarrow> j < length b \<and> fst (b ! j) = 0"
  by (induction b arbitrary: j) (auto split: if_splits)

lemma placed_update:
  assumes "placed h nb" "i < length nb" "fst s \<noteq> 0 \<longrightarrow> h (fst s) mod length nb = i"
  shows "placed h (nb[i := (nb ! i)[j := s]])"
  using assms unfolding placed_def
  by (auto simp: nth_list_update dest!: set_update_subset_insert [THEN subsetD])

lemma rehash_ok:
  assumes "rehash m ss nb = Some nb'" "placed (pf_hash m) nb" "nb \<noteq> []"
  shows "length nb' = length nb \<and> placed (pf_hash m) nb'
    \<and> live nb' = filter_mset (\<lambda>s. fst s \<noteq> 0) (mset ss) + live nb"
  using assms
proof (induction m ss nb rule: rehash.induct)
  case (2 m s ss nb)
  show ?case
  proof (cases "fst s = 0")
    case True
    with 2 show ?thesis by simp
  next
    case False
    define idx where "idx = pf_hash m (fst s) mod length nb"
    have idx: "idx < length nb" using 2(5) by (simp add: idx_def)
    obtain k where k: "first_free (nb ! idx) = Some k"
      and run: "rehash m ss (nb[idx := (nb ! idx)[k := s]]) = Some nb'"
      using 2(3) False by (auto simp: Let_def idx_def split: option.splits)
    note kk = first_free_Some [OF k]
    have "placed (pf_hash m) (nb[idx := (nb ! idx)[k := s]])"
      using 2(4) idx by (rule placed_update) (simp add: idx_def)
    from 2(2) [OF False idx_def k run this] 2(5)
    have "length nb' = length nb" "placed (pf_hash m) nb'"
      "live nb' = filter_mset (\<lambda>s. fst s \<noteq> 0) (mset ss) + live (nb[idx := (nb ! idx)[k := s]])"
      by simp_all
    moreover have "live (nb[idx := (nb ! idx)[k := s]]) = add_mset s (live nb)"
      using live_update [OF idx, of k s] kk False by simp
    ultimately show ?thesis
      using False by simp
  qed
qed (simp add: live_def)

lemma live_empty: "live (replicate n empty_bucket) = {#}"
  by (induction n) (simp_all add: live_def empty_bucket_def)

lemma placed_empty: "placed h (replicate n empty_bucket)"
  by (auto simp: placed_def empty_bucket_def)

lemma tidy_update:
  "tidy nb \<Longrightarrow> i < length nb \<Longrightarrow> (fst s = 0 \<longrightarrow> snd s = None) \<Longrightarrow> tidy (nb[i := (nb ! i)[j := s]])"
  unfolding tidy_def
  by (auto dest!: set_update_subset_insert [THEN subsetD])

lemma tidy_empty: "tidy (replicate n empty_bucket)"
  by (auto simp: tidy_def empty_bucket_def)

lemma rehash_tidy:
  "rehash m ss nb = Some nb' \<Longrightarrow> tidy nb \<Longrightarrow> nb \<noteq> [] \<Longrightarrow> tidy nb'"
proof (induction m ss nb rule: rehash.induct)
  case (2 m s ss nb)
  show ?case
  proof (cases "fst s = 0")
    case True
    with 2 show ?thesis by simp
  next
    case False
    obtain k where k: "first_free (nb ! (pf_hash m (fst s) mod length nb)) = Some k"
      and run: "rehash m ss (nb[pf_hash m (fst s) mod length nb :=
        (nb ! (pf_hash m (fst s) mod length nb))[k := s]]) = Some nb'"
      using 2(3) False by (auto simp: Let_def split: option.splits)
    show ?thesis
      using 2(2) [OF False refl k run] tidy_update [OF 2(4), of _ s] 2(5) False by simp
  qed
qed simp

lemma bucket_get_Some: "bucket_get b key = Some v \<Longrightarrow> (key, v) \<in> set b"
  by (induction b) (auto split: if_splits)

lemma bucket_get_None: "bucket_get b key = None \<longleftrightarrow> key \<notin> fst ` set b"
  by (induction b) (auto split: if_splits)

lemma in_live: "s \<in># live nb \<longleftrightarrow> fst s \<noteq> 0 \<and> (\<exists>b \<in> set nb. s \<in> set b)"
  by (auto simp: live_def)

lemma key_unique:
  assumes "\<forall>k. count (image_mset fst L) k \<le> 1" "(k, v) \<in># L" "(k, w) \<in># L"
  shows "v = w"
proof (rule ccontr)
  assume "v \<noteq> w"
  obtain L1 where L1: "L = add_mset (k, v) L1" using assms(2) by (metis multi_member_split)
  with assms(3) \<open>v \<noteq> w\<close> obtain L2 where "L1 = add_mset (k, w) L2"
    by (metis insert_noteq_member Pair_inject multi_member_split)
  with L1 have "2 \<le> count (image_mset fst L) k" by simp
  with assms(1) show False by (metis le_trans not_less_eq_eq numeral_2_eq_2 One_nat_def)
qed

text \<open>What \<open>hash_map_get\<close> returns is what the used slots hold.\<close>

lemma get_iff:
  assumes m: "hm_ok m" and "key \<noteq> 0"
  shows "hash_map_get m key = Some v \<longleftrightarrow> (key, Some v) \<in># live (buckets m)"
proof -
  define i where "i = pf_hash m key mod nbuckets m"
  have i: "i < nbuckets m" using m by (simp add: hm_ok_def i_def)
  have here: "(key, w) \<in> set (buckets m ! i)" if "(key, w) \<in># live (buckets m)" for w
  proof -
    from that obtain b where "b \<in> set (buckets m)" "(key, w) \<in> set b"
      by (auto simp: in_live)
    then obtain j where "j < nbuckets m" "(key, w) \<in> set (buckets m ! j)"
      by (metis in_set_conv_nth)
    with m assms(2) show ?thesis by (fastforce simp: hm_ok_def placed_def i_def)
  qed
  have kept: "(key, w) \<in># live (buckets m)" if "(key, w) \<in> set (buckets m ! i)" for w
    using that i assms(2) by (auto simp: in_live)
  show ?thesis
  proof (cases "bucket_get (buckets m ! i) key")
    case None
    then have "hash_map_get m key = None"
      by (simp add: hash_map_get_def i_def)
    moreover have "(key, Some v) \<notin># live (buckets m)"
      using None here [of "Some v"] by (force simp: bucket_get_None)
    ultimately show ?thesis by simp
  next
    case (Some w)
    note w = kept [OF bucket_get_Some [OF Some]]
    have "hash_map_get m key = w"
      using Some by (simp add: hash_map_get_def i_def)
    moreover have "w = Some v" if "(key, Some v) \<in># live (buckets m)"
      using key_unique [OF _ w that] m by (simp add: hm_ok_def)
    ultimately show ?thesis using w by auto
  qed
qed

lemma rand_params_frame:
  "hash_map_rand_params m = Some m' \<Longrightarrow>
   buckets m' = buckets m \<and> entries m' = entries m \<and> hash_fun_p m' = hash_fun_p m"
  by (auto simp: hash_map_rand_params_def split: option.splits prod.splits)

text \<open>
  \<open>entries_ok\<close> is the part of the invariant that does not depend on the coefficients, so it
  survives a draw of new ones that is not followed by a rebuild.
\<close>

definition entries_ok :: "'v hash_map \<Rightarrow> bool" where
  "entries_ok m \<longleftrightarrow> buckets m \<noteq> [] \<and> (\<forall>k. count (image_mset fst (live (buckets m))) k \<le> 1)
     \<and> (\<forall>s \<in># live (buckets m). snd s \<noteq> None) \<and> tidy (buckets m)
     \<and> entries m = size (live (buckets m))"

lemma hm_ok_split: "hm_ok m \<longleftrightarrow> entries_ok m \<and> placed (pf_hash m) (buckets m)"
  by (auto simp: hm_ok_def entries_ok_def)

lemma rebuild_ok:
  assumes "entries_ok m" "hash_map_rebuild m n os = (res, m', os')" "0 < n"
  shows "entries_ok m' \<and> live (buckets m') = live (buckets m) \<and> (res = 0 \<longrightarrow> hm_ok m')
    \<and> (os = [] \<longrightarrow> os' = [] \<and> 0 \<le> res)"
proof (cases "rehash m (concat (buckets m)) (replicate n empty_bucket)")
  case None
  with assms show ?thesis
    by (auto simp: hash_map_rebuild_def pf_calloc_def split: list.splits if_splits)
next
  case (Some nb)
  have nb: "length nb = n" "placed (pf_hash m) nb" "live nb = live (buckets m)"
    using rehash_ok [OF Some placed_empty] assms(3) by (simp_all add: live_empty) (simp add: live_def)
  have "tidy nb"
    using rehash_tidy [OF Some tidy_empty] assms(3) by simp
  moreover have "pf_hash (m\<lparr>buckets := nb\<rparr>) = pf_hash m"
    by (simp add: pf_hash_def fun_eq_iff)
  ultimately have "hm_ok (m\<lparr>buckets := nb\<rparr>)"
    using assms(1,3) nb by (auto simp: hm_ok_split entries_ok_def)
  with Some assms nb(3) show ?thesis
    by (auto simp: hash_map_rebuild_def pf_calloc_def hm_ok_split split: list.splits if_splits)
qed

text \<open>What the loops around the rebuild keep, whether they end with a free slot or without memory.\<close>

definition rebuilt :: "answers \<Rightarrow> 'v hash_map \<Rightarrow> int \<Rightarrow> 'v hash_map \<Rightarrow> answers \<Rightarrow> bool" where
  "rebuilt os m res m' os' \<longleftrightarrow> entries_ok m' \<and> live (buckets m') = live (buckets m)
     \<and> (\<not> res < 0 \<longrightarrow> res = 0 \<and> hm_ok m') \<and> (os = [] \<longrightarrow> \<not> res < 0 \<and> os' = [])"

lemma rebuild_res: "hash_map_rebuild m n os = (res, m', os') \<Longrightarrow> res < 0 \<or> res = 0 \<or> res = 1"
  by (auto simp: hash_map_rebuild_def Let_def split: prod.splits if_splits option.splits)

lemma retry_rebuild_ok:
  "retry_rebuild m n tries os = Some (res, m', tries', os') \<Longrightarrow> entries_ok m \<Longrightarrow> 0 < n \<Longrightarrow> rebuilt os m res m' os'"
proof -
  assume run: "retry_rebuild m n tries os = Some (res, m', tries', os')"
  have "entries_ok m \<longrightarrow> 0 < n \<longrightarrow> rebuilt os m (fst (res, m', tries', os')) (fst (snd (res, m', tries', os'))) (snd (snd (snd (res, m', tries', os'))))"
  proof (rule retry_rebuild.raw_induct [OF _ run, where
        P = "\<lambda>m n tries os y. entries_ok m \<longrightarrow> 0 < n \<longrightarrow> rebuilt os m (fst y) (fst (snd y)) (snd (snd (snd y)))"], intro impI)
    fix f and m :: "'a hash_map" and n tries os y
    assume IH: "\<And>m n tries os y. f m n tries os = Some y \<Longrightarrow>
        entries_ok m \<longrightarrow> 0 < n \<longrightarrow> rebuilt os m (fst y) (fst (snd y)) (snd (snd (snd y)))"
      and body: "(case if 2 * n < entries m \<or> tries = 2 then Some (m, n * 2, 0)
            else case hash_map_rand_params m of None \<Rightarrow> None | Some m1 \<Rightarrow> Some (m1, n, Suc tries) of
       None \<Rightarrow> None
       | Some (m1, new_sz1, tries1) \<Rightarrow>
           case hash_map_rebuild m1 new_sz1 os of
           (res, m2, os') \<Rightarrow>
             if res = 1 then f m2 new_sz1 tries1 os' else Some (res, m2, tries1, os')) = Some y"
      and m: "entries_ok m" and n: "0 < n"
    obtain m1 n1 tries1 where
      next_try: "(if 2 * n < entries m \<or> tries = 2 then Some (m, n * 2, 0)
            else case hash_map_rand_params m of None \<Rightarrow> None | Some m1 \<Rightarrow> Some (m1, n, Suc tries))
          = Some (m1, n1, tries1)"
      using body by (cases "(if 2 * n < entries m \<or> tries = 2 then Some (m, n * 2, 0)
            else case hash_map_rand_params m of None \<Rightarrow> None | Some m1 \<Rightarrow> Some (m1, n, Suc tries))")
        auto
    then have m1: "entries_ok m1" "live (buckets m1) = live (buckets m)" "0 < n1"
      using m n rand_params_frame [of m m1]
      by (auto simp: entries_ok_def split: if_splits option.splits)
    obtain res2 m2 os2 where rb: "hash_map_rebuild m1 n1 os = (res2, m2, os2)"
      by (metis prod_cases3)
    note rb_ok = rebuild_ok [OF m1(1) rb m1(3)]
    have step: "(if res2 = 1 then f m2 n1 tries1 os2 else Some (res2, m2, tries1, os2)) = Some y"
      using body unfolding next_try by (simp add: rb)
    show "rebuilt os m (fst y) (fst (snd y)) (snd (snd (snd y)))"
    proof (cases "res2 = 1")
      case True
      with step IH [of m2 n1 tries1 os2 y] rb_ok m1 show ?thesis
        by (auto simp: rebuilt_def)
    next
      case False
      with step rb_ok rebuild_res [OF rb] m1 show ?thesis
        by (auto simp: rebuilt_def)
    qed
  qed
  then show "entries_ok m \<Longrightarrow> 0 < n \<Longrightarrow> rebuilt os m res m' os'" by simp
qed

lemma make_room_ok:
  assumes run: "make_room m key tries os = Some (res, m', j, os')" and "hm_ok m"
  shows "rebuilt os m res m' os' \<and> (\<not> res < 0 \<longrightarrow>
    first_free (buckets m' ! (pf_hash m' key mod nbuckets m')) = Some j)"
proof -
  define post where "post os m y \<longleftrightarrow> rebuilt os m (fst y) (fst (snd y)) (snd (snd (snd y))) \<and> (\<not> fst y < 0 \<longrightarrow>
    (case y of (res, m', j, os') \<Rightarrow> first_free (buckets m' ! (pf_hash m' key mod nbuckets m')) = Some j))"
    for os and m :: "'a hash_map" and y :: "int \<times> 'a hash_map \<times> nat \<times> answers"
  have "key = key \<longrightarrow> hm_ok m \<longrightarrow> post os m (res, m', j, os')"
  proof (rule make_room.raw_induct [OF _ run, where
        P = "\<lambda>m k tries os y. k = key \<longrightarrow> hm_ok m \<longrightarrow> post os m y"], intro impI)
    fix f and m :: "'a hash_map" and k tries os y
    assume IH: "\<And>m k tries os y. f m k tries os = Some y \<Longrightarrow> k = key \<longrightarrow> hm_ok m \<longrightarrow> post os m y"
      and body: "(case first_free (buckets m ! (pf_hash m k mod nbuckets m)) of
         None \<Rightarrow> (case retry_rebuild m (nbuckets m) tries os of None \<Rightarrow> None
           | Some (res, m1, tries1, os1) \<Rightarrow>
               if res < 0 then Some (res, m1, 0, os1) else f m1 k tries1 os1)
         | Some j \<Rightarrow> Some (0, m, j, os)) = Some y"
      and k: "k = key" and m: "hm_ok m"
    have e: "entries_ok m" "0 < nbuckets m" using m by (auto simp: hm_ok_split entries_ok_def)
    show "post os m y"
    proof (cases "first_free (buckets m ! (pf_hash m k mod nbuckets m))")
      case (Some j)
      with body k m e show ?thesis by (auto simp: post_def rebuilt_def)
    next
      case None
      with body obtain r1 m1 t1 os1 where
        retry: "retry_rebuild m (nbuckets m) tries os = Some (r1, m1, t1, os1)"
        and rest: "(if r1 < 0 then Some (r1, m1, 0, os1) else f m1 k t1 os1) = Some y"
        by (auto split: option.splits)
      note m1 = retry_rebuild_ok [OF retry e]
      show ?thesis
      proof (cases "r1 < 0")
        case True
        with rest m1 show ?thesis by (auto simp: post_def)
      next
        case False
        with rest m1 IH [of m1 k t1 os1 y] k show ?thesis
          by (auto simp: post_def rebuilt_def)
      qed
    qed
  qed
  with assms(2) show ?thesis by (simp add: post_def)
qed

lemma insert_slot_ok:
  assumes m: "hm_ok m" and key: "key \<noteq> 0" and idx: "idx = pf_hash m key mod nbuckets m"
    and free: "first_free (buckets m ! idx) = Some j"
    and new: "\<forall>w. (key, w) \<notin># live (buckets m)"
    and m': "m' = m\<lparr>buckets := (buckets m)[idx := (buckets m ! idx)[j := (key, Some v)]],
      entries := entries m + 1\<rparr>"
  shows "hm_ok m' \<and> live (buckets m') = add_mset (key, Some v) (live (buckets m))"
proof -
  have i: "idx < nbuckets m" using m idx by (simp add: hm_ok_def)
  have lv: "live (buckets m') = add_mset (key, Some v) (live (buckets m))"
    using live_update [OF i, of j "(key, Some v)"] first_free_Some [OF free] key by (simp add: m')
  have "count (image_mset fst (live (buckets m))) key = 0"
    using new by (auto simp: count_eq_zero_iff)
  then have "\<forall>k. count (image_mset fst (live (buckets m'))) k \<le> 1"
    using m by (auto simp: lv hm_ok_def)
  moreover have "pf_hash m' = pf_hash m" by (simp add: m' pf_hash_def fun_eq_iff)
  moreover have "placed (pf_hash m) (buckets m')"
    using placed_update [of "pf_hash m" "buckets m" idx "(key, Some v)" j] m i idx
    by (simp add: m' hm_ok_def)
  moreover have "tidy (buckets m')"
    using tidy_update [of "buckets m" idx "(key, Some v)" j] m i key by (simp add: m' hm_ok_def)
  ultimately show ?thesis
    using m lv by (auto simp: hm_ok_def m')
qed

lemma get_None: "hm_ok m \<Longrightarrow> key \<noteq> 0 \<Longrightarrow>
   bucket_get (buckets m ! (pf_hash m key mod nbuckets m)) key = None \<Longrightarrow> (key, w) \<notin># live (buckets m)"
  by (cases w) (auto simp: get_iff [symmetric] hash_map_get_def hm_ok_def)

lemma get_live_eq:
  "hm_ok m \<Longrightarrow> hm_ok m' \<Longrightarrow> live (buckets m') = live (buckets m) \<Longrightarrow> k \<noteq> 0 \<Longrightarrow>
   hash_map_get m' k = hash_map_get m k"
  by (metis get_iff option.exhaust)

section \<open>Properties\<close>


definition two_entries :: "string hash_map" where
  "two_entries = \<lparr>hash_fun_a = 1, hash_fun_b = 0, hash_fun_p = HASH_P_COEFF, seed = 0,
     buckets = [[(2, Some ''a''), (4, Some ''b'')], [(0, None), (0, None)]], entries = 2\<rparr>"

lemma pf_hash_two_entries: "key < 32212254719 \<Longrightarrow> pf_hash two_entries key = key"
  by (simp add: pf_hash_def two_entries_def add64_def W64_def HASH_P_COEFF_def)

lemma nbuckets_two_entries: "nbuckets two_entries = 2"
  by (simp add: two_entries_def)

lemma two_entries_bucket:
  assumes "key < 32212254719"
  shows "buckets two_entries ! (pf_hash two_entries key mod nbuckets two_entries) =
     (if even key then [(2, Some ''a''), (4, Some ''b'')] else [(0, None), (0, None)])"
proof -
  have "key mod 2 = (if even key then 0 else 1)" by presburger
  then show ?thesis
    unfolding pf_hash_two_entries [OF assms] nbuckets_two_entries by (simp add: two_entries_def)
qed

lemma two_entries_ok: "hm_ok two_entries"
proof -
  have "pf_hash two_entries 2 mod 2 = 0" "pf_hash two_entries 4 mod 2 = 0"
    by (simp_all add: pf_hash_two_entries)
  then have "placed (pf_hash two_entries) (buckets two_entries)"
    unfolding placed_def nbuckets_two_entries
    by (auto simp: BUCKET_SIZE_def less_2_cases_iff two_entries_def)
  then show ?thesis
    by (auto simp: hm_ok_def) (auto simp: two_entries_def live_def tidy_def)
qed


lemma slot_with_value_Some:
  "slot_with_value b v = Some j \<Longrightarrow> j < length b \<and> snd (b ! j) = Some v"
  by (induction b arbitrary: j) (auto split: if_splits)

lemma slot_with_value_None: "slot_with_value b v = None \<longleftrightarrow> (\<forall>s \<in> set b. snd s \<noteq> Some v)"
  by (induction b) auto

text \<open>
  Claim C30. \<^verbatim>\<open>hash_map_remove\<close> of an entry whose value no other key has takes out that entry only.
\<close>

theorem hash_map_remove_correct:
  assumes m: "hm_ok m" and key: "key \<noteq> 0" and get: "hash_map_get m key = Some v"
    and only: "\<forall>k. k \<noteq> 0 \<and> k \<noteq> key \<longrightarrow> hash_map_get m k \<noteq> Some v"
  shows "\<exists>m'. hash_map_remove m key v = (0, m') \<and> hm_ok m' \<and> entries m' + 1 = entries m
    \<and> (\<forall>k. k \<noteq> 0 \<longrightarrow> hash_map_get m' k = (if k = key then None else hash_map_get m k))"
proof -
  define idx where "idx = pf_hash m key mod nbuckets m"
  define b where "b = buckets m ! idx"
  have i: "idx < nbuckets m" using m by (simp add: hm_ok_def idx_def)
  have "\<exists>w. bucket_get b key = Some w \<and> w = Some v"
    using get by (auto simp: hash_map_get_def b_def idx_def split: option.splits)
  then have "(key, Some v) \<in> set b" by (auto dest: bucket_get_Some)
  then have "slot_with_value b v \<noteq> None" unfolding slot_with_value_None
    by (auto intro: bexI [of _ "(key, Some v)"])
  then obtain j where sv: "slot_with_value b v = Some j" by blast
  note j = slot_with_value_Some [OF this]
  have fst0: "fst (b ! j) \<noteq> 0"
  proof -
    have "b ! j \<in> set (concat (buckets m))"
      using j i by (auto simp: b_def intro!: bexI [of _ "buckets m ! idx"])
    moreover have "tidy (buckets m)" using m by (simp add: hm_ok_def)
    ultimately have "fst (b ! j) = 0 \<longrightarrow> snd (b ! j) = None" unfolding tidy_def by blast
    with j show ?thesis by auto
  qed
  have bj_live: "b ! j \<in># live (buckets m)"
    using fst0 j i by (auto simp: in_live b_def intro!: bexI [of _ "buckets m ! idx"])
  have "b ! j = (key, Some v)"
    using only get_iff [OF m fst0, of v] bj_live fst0 j by (metis prod.collapse)
  define m' where "m' = m\<lparr>buckets := (buckets m)[idx := b[j := (0, None)]], entries := entries m - 1\<rparr>"
  have run: "hash_map_remove m key v = (0, m')"
    using sv by (simp add: hash_map_remove_def Let_def idx_def b_def m'_def)
  have lv: "add_mset (key, Some v) (live (buckets m')) = live (buckets m)"
    using live_update [OF i, of j "(0, None)"] j \<open>b ! j = _\<close> key by (simp add: m'_def b_def)
  have hash: "pf_hash m' = pf_hash m" by (simp add: m'_def pf_hash_def fun_eq_iff)
  have cnt: "count (image_mset fst (live (buckets m))) k \<le> 1" for k using m by (simp add: hm_ok_def)
  have sub: "live (buckets m') \<subseteq># live (buckets m)"
    unfolding lv [symmetric] by simp
  have "placed (pf_hash m) (buckets m')"
    using placed_update [of "pf_hash m" "buckets m" idx "(0, None)" j] m i
    by (simp add: m'_def hm_ok_def b_def)
  moreover have "tidy (buckets m')"
    using tidy_update [of "buckets m" idx "(0, None)" j] m i by (simp add: m'_def hm_ok_def b_def)
  moreover have "count (image_mset fst (live (buckets m'))) k \<le> 1" for k
    using cnt [of k] unfolding lv [symmetric] by (simp split: if_splits)
  moreover have "\<forall>s \<in># live (buckets m'). snd s \<noteq> None"
    using m mset_subset_eqD [OF sub] by (auto simp: hm_ok_def)
  moreover have size: "entries m' + 1 = entries m" "entries m' = size (live (buckets m'))"
    using m arg_cong [OF lv, of size] by (auto simp: m'_def hm_ok_def)
  ultimately have ok: "hm_ok m'"
    using m hash by (simp add: hm_ok_def) (simp add: m'_def)
  have "hash_map_get m' k = (if k = key then None else hash_map_get m k)" if k: "k \<noteq> 0" for k
  proof -
    have "hash_map_get m' k = Some w \<longleftrightarrow> (if k = key then None else hash_map_get m k) = Some w" for w
    proof (cases "k = key")
      case True
      have "(key, x) \<notin># live (buckets m')" for x
      proof
        assume "(key, x) \<in># live (buckets m')"
        then obtain L where "live (buckets m') = add_mset (key, x) L"
          by (rule mset_add)
        then have "2 \<le> count (image_mset fst (live (buckets m))) key"
          unfolding lv [symmetric] by simp
        with cnt [of key] show False by simp
      qed
      with True show ?thesis using get_iff [OF ok k, of w] by auto
    next
      case False
      then show ?thesis
        using get_iff [OF ok k, of w] get_iff [OF m k, of w] unfolding lv [symmetric] by auto
    qed
    then show ?thesis by (metis option.exhaust)
  qed
  with run ok size(1) show ?thesis by blast
qed

theorem hash_map_remove_correct_witness:
  "\<exists>m'. hash_map_remove two_entries 2 ''a'' = (0, m')
     \<and> hash_map_get m' 2 = None \<and> hash_map_get m' 4 = Some ''b''"
proof -
  have g: "hash_map_get two_entries 2 = Some ''a''" "hash_map_get two_entries 4 = Some ''b''"
    by (simp_all add: hash_map_get_def two_entries_bucket)
  have "\<forall>k. k \<noteq> 0 \<and> k \<noteq> 2 \<longrightarrow> hash_map_get two_entries k \<noteq> Some ''a''"
    using get_iff [OF two_entries_ok, of _ "''a''"] by (auto simp: two_entries_def live_def)
  from hash_map_remove_correct [OF two_entries_ok _ g(1) this] g(2) show ?thesis by auto
qed

text \<open>
  Claim C37. When a rebuild runs out of memory, \<^verbatim>\<open>hash_map_put\<close> has already replaced the hash
  coefficients but not moved the entries: keys that are in the map are no longer found.
\<close>

theorem hash_map_put_loses_entries:
  "\<exists>m'. hash_map_put two_entries 6 ''c'' [False] = Some (None, m', [])
     \<and> hash_map_get two_entries 4 = Some ''b'' \<and> buckets m' = buckets two_entries
     \<and> hash_map_get m' 4 = None"
proof -
  define m' where "m' = two_entries\<lparr>hash_fun_a := 2116118, hash_fun_b := 89401895, seed := 11718085204285\<rparr>"
  have draw: "draw_nonzero 0 = Some (2116118, 277363943098)"
    by (simp add: draw_nonzero.simps [of 0] draw_nonzero.simps [of 11] nrand48_def)
  have "hash_map_rand_params two_entries = Some m'"
    using draw by (simp add: hash_map_rand_params_def two_entries_def nrand48_def m'_def)
  then have "retry_rebuild two_entries 2 0 [False] = Some (- int ENOMEM, m', 1, [])"
    by (subst retry_rebuild.simps)
       (simp add: hash_map_rebuild_def pf_calloc_def two_entries_def)
  then have "hash_map_put two_entries 6 ''c'' [False] = Some (None, m', [])"
    unfolding hash_map_put_def make_room.simps [of two_entries] two_entries_bucket [of 6, simplified]
    by (simp add: nbuckets_two_entries)
  moreover have "hash_map_get two_entries 4 = Some ''b''"
    by (simp add: hash_map_get_def two_entries_bucket)
  moreover have "hash_map_get m' 4 = None"
  proof -
    have "pf_hash m' 4 = 97866367"
      by (simp add: pf_hash_def m'_def two_entries_def add64_def W64_def HASH_P_COEFF_def)
    moreover have "nbuckets m' = 2" by (simp add: m'_def two_entries_def)
    ultimately have "pf_hash m' 4 mod nbuckets m' = 1" by (simp only:) simp
    then show ?thesis
      unfolding hash_map_get_def by (simp add: m'_def two_entries_def)
  qed
  ultimately show ?thesis by (simp add: m'_def)
qed

text \<open>With room in the bucket of the key nothing is drawn or allocated, and the call returns.\<close>

lemma hash_map_put_returns:
  assumes "hm_ok m" and "key \<noteq> 0"
    and "first_free (buckets m ! (pf_hash m key mod nbuckets m)) \<noteq> None"
  shows "\<exists>r m'. hash_map_put m key v os = Some (Some r, m', os)"
proof (cases "bucket_get (buckets m ! (pf_hash m key mod nbuckets m)) key")
  case None
  with assms(3) show ?thesis
    by (auto simp: hash_map_put_def make_room.simps [of m] Let_def)
next
  case (Some w)
  then have "(key, w) \<in># live (buckets m)"
    using assms(1,2) bucket_get_Some [OF Some] by (auto simp: in_live hm_ok_def)
  then obtain x where "w = Some x" using assms(1) by (cases w) (auto simp: hm_ok_def)
  with Some show ?thesis by (simp add: hash_map_put_def)
qed

lemma hash_map_alloc_ok:
  "\<exists>m. hash_map_alloc [] = Some (Some m, []) \<and> hm_ok m \<and> entries m = 0"
proof -
  have "draw_nonzero 0 = Some (2116118, 277363943098)"
    by (simp add: draw_nonzero.simps [of 0] draw_nonzero.simps [of 11] nrand48_def)
  then show ?thesis
    by (auto simp: hash_map_alloc_def hash_map_rand_params_def nrand48_def hm_ok_def
        placed_empty live_empty tidy_empty INITIAL_NBUCKETS_def)
qed
end
