(* ===== verification/Pool_Open.thy ===== *)
theory Pool_Open
  imports Hash_Map File
begin

text \<open>
  Creating, opening and closing a pool (\<^verbatim>\<open>pool.c\<close>), with the clean-up of orphaned inodes, and what \<^verbatim>\<open>inode.c\<close> provides for
  it. The parts of the super block that the pool does not hold are a record of their own. Creating and opening the
  object store are arguments: an error number, or the super block, if there is one, with the state of the store, in which the
  volatile part of the pool is zeroed. The numbers of the version come from the build.
\<close>

section \<open>The super block\<close>

abbreviation (input) ENODEV :: errno where "ENODEV \<equiv> 19"

text \<open>A null entry among the roots is 0.\<close>

record pmemfile_super =
  su_version :: nat
  su_root_inode :: "nat list"
  su_suspended :: nat

definition PMEMFILE_SUPER_VERSION :: "nat \<Rightarrow> nat \<Rightarrow> nat" where
  "PMEMFILE_SUPER_VERSION a b = 0x000056454C494650 OR push_bit 48 (a + 48) OR push_bit 56 (b + 48)"

definition pmemfile_pool_root_count :: "pool option \<Rightarrow> nat" where
  "pmemfile_pool_root_count pfp = (if pfp \<noteq> None then PMEMFILE_ROOT_COUNT else 0)"

text \<open>A volatile inode that is left when the map is freed is a leaked reference, which ends in \<^verbatim>\<open>FATAL\<close>.\<close>

definition inode_map_free :: "pool \<Rightarrow> pool option" where
  "inode_map_free p = (if \<exists>n. p_vinodes p n \<noteq> None then None else Some p)"

text \<open>What the transaction on a new super block makes: the root directories and the two arrays.\<close>

fun new_roots :: "nat \<Rightarrow> pmemfile_cred \<Rightarrow> pmemfile_time \<Rightarrow> pool \<Rightarrow> nat list body" where
  "new_roots 0 cred tm p = Some (Inr [], p)"
| "new_roots (Suc k) cred tm p =
     tx_then (vinode_new_dir None ''/'' 1 cred PMEMFILE_ACCESSPERMS tm p) (\<lambda>n p1.
     tx_then (new_roots k cred tm p1) (\<lambda>ns p2. Some (Inr (n # ns), p2)))"

definition new_inode_array :: "pool \<Rightarrow> nat body" where
  "new_inode_array p =
     Some (case inode_array_alloc (p_new_array p) (p_arr p) of
       None \<Rightarrow> (Inl ENOMEM, p)
     | Some (a, t) \<Rightarrow> (Inr a, p\<lparr>p_arr := t\<rparr>))"

definition format_super :: "nat \<Rightarrow> pmemfile_cred \<Rightarrow> pmemfile_time \<Rightarrow> pool \<Rightarrow> pmemfile_super body" where
  "format_super version cred tm =
     run_tx (\<lambda>p.
       tx_then (new_roots PMEMFILE_ROOT_COUNT cred tm p) (\<lambda>roots p1.
       tx_then (new_inode_array p1) (\<lambda>orphaned p2.
       tx_then (new_inode_array p2) (\<lambda>suspended p3.
         Some (Inr \<lparr>su_version = version, su_root_inode = roots, su_suspended = suspended\<rparr>, p3\<lparr>p_orphaned := orphaned\<rparr>)))))"

text \<open>The volatile inodes of the roots; each is its own parent.\<close>

fun ref_roots :: "nat list \<Rightarrow> pool \<Rightarrow> unit body" where
  "ref_roots [] p = Some (Inr (), p)"
| "ref_roots (n # ns) p =
     do {
       (r, p1) \<leftarrow> inode_ref p n None;
       (case r of
          Inl e \<Rightarrow> Some (Inl e, p1)
        | Inr m \<Rightarrow> ref_roots ns (upd_vnode m (\<lambda>v. v\<lparr>v_parent := Some m\<rparr>) p1))
     }"

text \<open>
  \<^verbatim>\<open>initialize_super_block\<close>, from the allocation of the inode map on, with the credentials taken. The result is the super
  block, which a failure after the first transaction leaves in place.
\<close>

definition set_up_pool ::
  "nat \<Rightarrow> pmemfile_time \<Rightarrow> pmemfile_cred \<Rightarrow> pmemfile_super \<Rightarrow> pool \<Rightarrow> ((errno + unit) \<times> pmemfile_super \<times> pool) option" where
  "set_up_pool version tm cred su p =
     do {
       (map, mem) \<leftarrow> (hash_map_alloc (p_mem p) :: (vnode hash_map option \<times> answers) option);
       let p1 = p\<lparr>p_mem := mem, p_vinodes := \<lambda>_. None\<rparr>;
       if map = None then Some (Inl ENOMEM, su, p1)
       else
         do {
           (r, p2) \<leftarrow> (if su_root_inode su ! 0 = 0 then format_super version cred tm p1 else Some (Inr su, p1));
           (case r of
              Inl e \<Rightarrow> do { p3 \<leftarrow> inode_map_free p2; Some (Inl e, su, p3) }
            | Inr su1 \<Rightarrow>
                do {
                  (r, p3) \<leftarrow> ref_roots (su_root_inode su1) p2;
                  (case r of
                     Inl e \<Rightarrow> do { p4 \<leftarrow> inode_map_free p3; Some (Inl e, su1, p4) }
                   | Inr _ \<Rightarrow>
                       do {
                         (n, p4) \<leftarrow> vinode_ref p3 (Some (su_root_inode su1 ! 0));
                         Some (Inr (), su1, p4\<lparr>p_root := su_root_inode su1, p_cwd := n\<rparr>)
                       })
                })
         }
     }"

definition initialize_super_block ::
  "(nat \<Rightarrow> nat \<Rightarrow> nat \<Rightarrow> int) \<Rightarrow> (nat \<Rightarrow> nat) \<Rightarrow> nat \<Rightarrow> pmemfile_time \<Rightarrow> pmemfile_super \<Rightarrow> pool
    \<Rightarrow> ((errno + unit) \<times> pmemfile_super \<times> pool) option" where
  "initialize_super_block ctl_set class_id version tm su p =
     (if su_root_inode su ! 0 \<noteq> 0 \<and> su_version su \<noteq> version then Some (Inl EINVAL, su, p)
      else
        let p1 = p\<lparr>p_conf := snd (initialize_alloc_classes ctl_set class_id (p_conf p))\<rparr> in
        do {
          (r, cred) \<leftarrow> cred_acquire (p_mem p1) (p_cred p1);
          let p2 = p1\<lparr>p_mem := (if groupsnum (p_cred p1) \<noteq> 0 then snd (pf_calloc (p_mem p1)) else p_mem p1)\<rparr>;
          if r \<noteq> 0 then Some (Inl ENOMEM, su, p2) else set_up_pool version tm cred su p2
        })"

section \<open>Creating a pool\<close>

definition pmemfile_pool_create ::
  "(nat \<Rightarrow> nat \<Rightarrow> nat \<Rightarrow> int) \<Rightarrow> (nat \<Rightarrow> nat) \<Rightarrow> nat \<Rightarrow> pmemfile_time \<Rightarrow> answers \<Rightarrow> errno + pmemfile_super option \<times> pool
    \<Rightarrow> (errno + pmemfile_super \<times> pool) option" where
  "pmemfile_pool_create ctl_set class_id version tm mem pop =
     (let (ok, mem1) = pf_calloc mem in
      if \<not> ok then Some (Inl ENOMEM)
      else
        (case pop of
           Inl e \<Rightarrow> Some (Inl e)
         | Inr (None, p) \<Rightarrow> Some (Inl ENODEV)
         | Inr (Some su, p) \<Rightarrow>
             map_option (\<lambda>(r, su1, p1). case r of Inl e \<Rightarrow> Inl e | Inr _ \<Rightarrow> Inr (su1, p1))
               (initialize_super_block ctl_set class_id version tm su (p\<lparr>p_mem := mem1\<rparr>))))"

section \<open>Orphaned inodes\<close>

text \<open>\<^verbatim>\<open>inode_trim\<close> frees the data of all blocks of a regular file, array by array.\<close>

definition free_data :: "bptr \<Rightarrow> pfile \<Rightarrow> pfile" where
  "free_data b f =
     (case bd_data (descs f b) of
        None \<Rightarrow> f
      | Some a \<Rightarrow> set_desc b (\<lambda>d. d\<lparr>bd_data := None\<rparr>) (f\<lparr>datas := (datas f)(a := None)\<rparr>))"

partial_function (option) inode_trim_reg_file :: "nat option \<Rightarrow> pfile \<Rightarrow> pfile option" where
  "inode_trim_reg_file arr f =
     (case arr of
        None \<Rightarrow> Some f
      | Some a \<Rightarrow>
          (case arrays f a of
             None \<Rightarrow> None
           | Some r \<Rightarrow> inode_trim_reg_file (ba_next r) (fold (\<lambda>i. free_data (BP a i)) [0..<ba_length r] f)))"

declare inode_trim_reg_file.simps [code]

definition inode_trim :: "nat \<Rightarrow> pool \<Rightarrow> pool option" where
  "inode_trim n p =
     do {
       i \<leftarrow> p_inodes p n;
       if inode_is_regular_file i
       then map_option (\<lambda>f. p\<lparr>p_file := (p_file p)(n := f)\<rparr>) (inode_trim_reg_file (Some 0) (p_file p n))
       else Some p
     }"

fun for_inodes :: "(nat \<Rightarrow> pool \<Rightarrow> pool option) \<Rightarrow> nat list \<Rightarrow> pool \<Rightarrow> pool option" where
  "for_inodes cb [] p = Some p"
| "for_inodes cb (n # ns) p = do { p1 \<leftarrow> cb n p; for_inodes cb ns p1 }"

definition free_orphans :: "nat \<Rightarrow> pool \<Rightarrow> unit body" where
  "free_orphans orphaned =
     run_tx (\<lambda>p.
       do {
         ns \<leftarrow> inode_array_traverse (ia_heap (p_arr p)) (Some orphaned) [];
         p1 \<leftarrow> for_inodes (\<lambda>n q. inode_free q n) ns p;
         h \<leftarrow> inode_array_free (ia_heap (p_arr p1)) (Some orphaned);
         tx_then (new_inode_array (p1\<lparr>p_arr := (p_arr p1)\<lparr>ia_heap := h\<rparr>\<rparr>)) (\<lambda>a p2. Some (Inr (), p2\<lparr>p_orphaned := a\<rparr>))
       })"

text \<open>An abort of the transaction is fatal.\<close>

definition clean_orphans :: "pool \<Rightarrow> pool option" where
  "clean_orphans p =
     do {
       empty \<leftarrow> inode_array_empty (ia_heap (p_arr p)) (Some (p_orphaned p));
       small \<leftarrow> inode_array_is_small (ia_heap (p_arr p)) (p_orphaned p);
       if empty \<and> small then Some p
       else
         do {
           ns \<leftarrow> inode_array_traverse (ia_heap (p_arr p)) (Some (p_orphaned p)) [];
           p1 \<leftarrow> for_inodes inode_trim ns p;
           (r, p2) \<leftarrow> free_orphans (p_orphaned p1) p1;
           (case r of Inl e \<Rightarrow> None | Inr _ \<Rightarrow> Some p2)
         }
     }"

section \<open>Opening and closing a pool\<close>

definition pmemfile_pool_open ::
  "(nat \<Rightarrow> nat \<Rightarrow> nat \<Rightarrow> int) \<Rightarrow> (nat \<Rightarrow> nat) \<Rightarrow> nat \<Rightarrow> pmemfile_time \<Rightarrow> answers \<Rightarrow> errno + pmemfile_super option \<times> pool
    \<Rightarrow> (errno + pmemfile_super \<times> pool) option" where
  "pmemfile_pool_open ctl_set class_id version tm mem pop =
     (let (ok, mem1) = pf_calloc mem in
      if \<not> ok then Some (Inl ENOMEM)
      else
        (case pop of
           Inl e \<Rightarrow> Some (Inl e)
         | Inr (None, p) \<Rightarrow> Some (Inl ENODEV)
         | Inr (Some su, p) \<Rightarrow>
             do {
               (r, su1, p1) \<leftarrow> initialize_super_block ctl_set class_id version tm su (p\<lparr>p_mem := mem1\<rparr>);
               (case r of
                  Inl e \<Rightarrow> Some (Inl e)
                | Inr _ \<Rightarrow> do { p2 \<leftarrow> clean_orphans p1; Some (Inr (su1, p2)) })
             }))"

text \<open>What is left of a pool that is closed is the persistent part.\<close>

definition pmemfile_pool_close :: "pool \<Rightarrow> pool option" where
  "pmemfile_pool_close p =
     do {
       p1 \<leftarrow> vinode_unref p (Some (p_cwd p));
       p2 \<leftarrow> for_inodes (\<lambda>n q. vinode_unref q (Some n)) (p_root p1) p1;
       inode_map_free p2
     }"

end
