(* ===== verification/Reopen.thy ===== *)
theory Reopen
  imports Pool_Open Names
begin

text \<open>
  Opening a pool after a crash: the invariant of the namespace is established, and every file that had lost its last name while it was
  open is freed.
\<close>

section \<open>The image that a crash leaves\<close>

text \<open>The volatile part of the pool is lost; \<^verbatim>\<open>pf_calloc\<close> zeroes the one that is opened next.\<close>

definition crash :: "pool \<Rightarrow> pool" where
  "crash p = p\<lparr>p_vinodes := \<lambda>_. None, p_root := [], p_cwd := 0, p_umask := 0, p_cred := pool_cred,
     p_file := \<lambda>n. drop_cached (p_file p n), p_arr := tx_begin (ia_heap (p_arr p))\<rparr>"

text \<open>The inodes that have links.\<close>

definition linked_only :: "(nat \<Rightarrow> inode option) \<Rightarrow> nat \<Rightarrow> inode option" where
  "linked_only I n = (case I n of None \<Rightarrow> None | Some i \<Rightarrow> if inode_get_nlink i = 0 then None else Some i)"

lemma linked_only_Some: "linked_only I n = Some i \<longleftrightarrow> I n = Some i \<and> inode_get_nlink i \<noteq> 0"
  by (auto simp: linked_only_def split: option.splits)

text \<open>What an image is known to have: each inode without links is in exactly one slot of the array of orphans.\<close>

definition inode_shape :: "inode \<Rightarrow> bool" where
  "inode_shape i \<longleftrightarrow> i_version i = PMEMFILE_INODE_VERSION 2 \<and> (inode_is_dir i \<or> inode_is_regular_file i \<or> inode_is_symlink i)"

definition image_ok :: "(nat \<Rightarrow> inode option) \<Rightarrow> (nat \<Rightarrow> pmemfile_dirent list list) \<Rightarrow> (nat \<Rightarrow> inode_array option) \<Rightarrow> nat list \<Rightarrow> bool" where
  "image_ok I D H as \<longleftrightarrow> I 0 = None \<and> (\<forall>n i. I n = Some i \<longrightarrow> inode_shape i \<and> (inode_is_dir i \<longrightarrow> dir_ok I D n i)) \<and>
     (\<forall>n. (\<exists>i. I n = Some i \<and> inode_get_nlink i = 0) \<longleftrightarrow> (\<exists>a \<in> set as. \<exists>k. slot_at H (a, k) = Some n)) \<and>
     (\<forall>a \<in> set as. \<forall>b \<in> set as. \<forall>j k n. slot_at H (a, j) = Some n \<and> slot_at H (b, k) = Some n \<longrightarrow> (a, j) = (b, k))"

lemma image_okD:
  assumes "image_ok I D H as"
  shows "I 0 = None" and "I n = Some i \<Longrightarrow> inode_shape i" and "I n = Some i \<Longrightarrow> inode_is_dir i \<Longrightarrow> dir_ok I D n i"
    and "(\<exists>a \<in> set as. \<exists>k. slot_at H (a, k) = Some n) \<longleftrightarrow> (\<exists>i. I n = Some i \<and> inode_get_nlink i = 0)"
    and "a \<in> set as \<Longrightarrow> b \<in> set as \<Longrightarrow> slot_at H (a, j) = Some n \<Longrightarrow> slot_at H (b, k) = Some n \<Longrightarrow> (a, j) = (b, k)"
proof -
  note parts = assms [unfolded image_ok_def]
  show "I 0 = None" "I n = Some i \<Longrightarrow> inode_shape i" "I n = Some i \<Longrightarrow> inode_is_dir i \<Longrightarrow> dir_ok I D n i"
    "(\<exists>a \<in> set as. \<exists>k. slot_at H (a, k) = Some n) \<longleftrightarrow> (\<exists>i. I n = Some i \<and> inode_get_nlink i = 0)"
    using parts by simp_all
  show "a \<in> set as \<Longrightarrow> b \<in> set as \<Longrightarrow> slot_at H (a, j) = Some n \<Longrightarrow> slot_at H (b, k) = Some n \<Longrightarrow> (a, j) = (b, k)"
    using parts [THEN conjunct2, THEN conjunct2, THEN conjunct2] by blast
qed

lemma pool_inv_image:
  assumes "pool_inv p tot"
  obtains as where "chain (ia_heap (p_arr p)) as None (Some (p_orphaned p))" and "distinct as"
    and "image_ok (p_inodes p) (p_dir p) (ia_heap (p_arr p)) as"
proof -
  note ns = assms [unfolded pool_inv_def]
  let ?H = "ia_heap (p_arr p)"
  obtain as where as: "chain ?H as None (Some (p_orphaned p))" "distinct as" "registered (set as) (p_inodes p) (p_vinodes p) ?H"
    using ns_invD(7) [OF ns] by (auto simp: orphans_ok_def)
  note reg = registeredD [OF as(3)]
  have "\<exists>a \<in> set as. \<exists>k. slot_at ?H (a, k) = Some n" if i: "p_inodes p n = Some i" "inode_get_nlink i = 0" for n i
  proof -
    obtain v where v: "p_vinodes p n = Some v"
      using ns_invD(4) [OF ns i] by auto
    then obtain pos where "v_orphaned v = Some pos"
      using ns_invD(6) [OF ns v] i by (auto simp: vnode_ok_def)
    then show ?thesis
      using reg(1) [OF v, of pos] by (cases pos) auto
  qed
  moreover have "\<exists>i. p_inodes p n = Some i \<and> inode_get_nlink i = 0" if "a \<in> set as" "slot_at ?H (a, k) = Some n" for a k n
    using reg(2) [OF that] by blast
  moreover have "(a, j) = (b, k)" if "a \<in> set as" "b \<in> set as" "slot_at ?H (a, j) = Some n" "slot_at ?H (b, k) = Some n" for a b j k n
    using reg(2) [OF that(1,3)] reg(2) [OF that(2,4)] by auto
  moreover have "inode_shape i" if "p_inodes p n = Some i" for n i
    using ns_invD(3) [OF ns that] by (simp add: inode_ok_def inode_shape_def)
  ultimately have "image_ok (p_inodes p) (p_dir p) ?H as"
    using ns_invD(2,5) [OF ns] unfolding image_ok_def by blast
  then show ?thesis
    using that as(1,2) by blast
qed

section \<open>The list of orphans\<close>

definition slots_of :: "nat list \<Rightarrow> (nat \<times> nat) list" where
  "slots_of as = concat (map (\<lambda>a. map (Pair a) [0..<NUMINODES_PER_ENTRY]) as)"

lemma distinct_slots_of: "distinct as \<Longrightarrow> distinct (slots_of as)"
  by (induction as) (auto simp: slots_of_def distinct_map inj_on_def)

lemma map_filter_map: "List.map_filter f (map g xs) = List.map_filter (\<lambda>x. f (g x)) xs"
  by (simp add: List.map_filter_def comp_def filter_map)

lemma map_filter_nth: "List.map_filter id xs = List.map_filter (\<lambda>i. xs ! i) [0..<length xs]"
  using map_filter_map [of id "\<lambda>i. xs ! i" "[0..<length xs]"] by (simp only: map_nth id_apply)

lemma map_filter_same: "(\<And>x. x \<in> set xs \<Longrightarrow> f x = g x) \<Longrightarrow> List.map_filter f xs = List.map_filter g xs"
  unfolding List.map_filter_def by (induction xs) auto

lemma map_filter_append: "List.map_filter f (xs @ ys) = List.map_filter f xs @ List.map_filter f ys"
  by (simp add: List.map_filter_def)

lemma registered_slots: "chain h as p s \<Longrightarrow> Inode_Array.registered h as = List.map_filter (slot_at h) (slots_of as)"
proof (induction as arbitrary: p s)
  case (Cons a as)
  then obtain r where r: "h a = Some r" "arr_ok r" "chain h as (Some a) (ia_next r)"
    by (auto split: option.splits)
  have len: "length (ia_inodes r) = NUMINODES_PER_ENTRY"
    using r(2) by (simp add: arr_ok_def)
  have "List.map_filter (slot_at h) (map (Pair a) [0..<NUMINODES_PER_ENTRY]) = List.map_filter (\<lambda>i. ia_inodes r ! i) [0..<length (ia_inodes r)]"
    unfolding map_filter_map len by (rule map_filter_same) (simp add: slot_at_def r(1) len)
  then show ?case
    using Cons.IH [OF r(3)] r(1)
    by (simp add: Inode_Array.registered_def slots_of_def map_filter_append map_filter_nth [of "ia_inodes r"] del: id_apply)
qed (simp add: Inode_Array.registered_def slots_of_def List.map_filter_def)

lemma distinct_map_filter:
  assumes "distinct xs" and "\<And>x y n. x \<in> set xs \<Longrightarrow> y \<in> set xs \<Longrightarrow> f x = Some n \<Longrightarrow> f y = Some n \<Longrightarrow> x = y"
  shows "distinct (List.map_filter f xs)"
  unfolding List.map_filter_def using assms by (auto simp: distinct_map intro!: inj_onI)

lemma slots_of_arr: "x \<in> set (slots_of as) \<Longrightarrow> fst x \<in> set as"
  by (auto simp: slots_of_def)

lemma distinct_registered:
  assumes "chain h as p s" and "distinct as" and "image_ok I D h as"
  shows "distinct (Inode_Array.registered h as)"
  unfolding registered_slots [OF assms(1)]
proof (rule distinct_map_filter [OF distinct_slots_of [OF assms(2)]])
  fix x y n
  assume x: "x \<in> set (slots_of as)" "y \<in> set (slots_of as)" "slot_at h x = Some n" "slot_at h y = Some n"
  obtain a j b k where "x = (a, j)" "y = (b, k)"
    by fastforce
  then show "x = y"
    using image_okD(5) [OF assms(3), of a b j n k] slots_of_arr [OF x(1)] slots_of_arr [OF x(2)] x(3,4) by simp
qed

section \<open>The roots\<close>

definition root_vnode :: "inode \<Rightarrow> nat \<Rightarrow> vnode" where
  "root_vnode i n = \<lparr>v_ref = 1, v_parent = Some n, v_orphaned = None, v_atime = inode_get_atime i, v_atime_dirty = False\<rparr>"

lemma ref_roots_fresh:
  assumes "distinct ns" and "p_mem p = []" and "\<And>n. n \<in> set ns \<Longrightarrow> p_vinodes p n = None"
    and "\<And>n. n \<in> set ns \<Longrightarrow> \<exists>i. p_inodes p n = Some i \<and> i_version i = PMEMFILE_INODE_VERSION 2"
  shows "ref_roots ns p = Some (Inr (), p\<lparr>p_vinodes := \<lambda>n. if n \<in> set ns then Some (root_vnode (the (p_inodes p n)) n) else p_vinodes p n\<rparr>)"
  using assms
proof (induction ns arbitrary: p)
  case (Cons n ns)
  obtain i where i: "p_inodes p n = Some i" "i_version i = PMEMFILE_INODE_VERSION 2"
    using Cons.prems(4) [of n] by auto
  let ?p = "p\<lparr>p_vinodes := (p_vinodes p)(n \<mapsto> root_vnode i n)\<rparr>"
  have "ref_roots (n # ns) p = ref_roots ns ?p"
    using i Cons.prems(2,3) by (simp add: inode_ref_def pf_calloc_def upd_vnode_def root_vnode_def Let_def)
  also have "\<dots> = Some (Inr (), ?p\<lparr>p_vinodes := \<lambda>m. if m \<in> set ns then Some (root_vnode (the (p_inodes ?p m)) m) else p_vinodes ?p m\<rparr>)"
    by (rule Cons.IH) (use Cons.prems in auto)
  finally show ?case
    using i(1) Cons.prems(1) by (auto simp: fun_eq_iff intro!: arg_cong [where f = "\<lambda>v. p\<lparr>p_vinodes := v\<rparr>"])
qed simp

section \<open>Freeing the orphans\<close>

lemma free_data_arrays [simp]: "arrays (free_data b f) = arrays f"
  by (simp add: free_data_def set_desc_def split: option.splits)

lemma fold_free_data_arrays [simp]: "arrays (fold (\<lambda>i. free_data (BP a i)) is f) = arrays f"
  by (induction "is" arbitrary: f) simp_all

lemma trim_ends: "arr_chain (arrays f) as s \<Longrightarrow> \<exists>f'. inode_trim_reg_file s f = Some f'"
proof (induction as arbitrary: f s)
  case Nil
  then show ?case
    by (subst inode_trim_reg_file.simps) simp
next
  case (Cons a as)
  then obtain r where r: "arrays f a = Some r" "arr_chain (arrays f) as (ba_next r)" "s = Some a"
    by (auto split: option.splits)
  then show ?case
    using Cons.IH [of "fold (\<lambda>i. free_data (BP a i)) [0..<ba_length r] f" "ba_next r"]
    by (subst inode_trim_reg_file.simps) simp
qed

text \<open>What can be freed: a directory without entries, a file or a symbolic link. A file that is trimmed has a chain of arrays.\<close>

definition freeable :: "pool \<Rightarrow> nat \<Rightarrow> bool" where
  "freeable p n \<longleftrightarrow> (\<exists>i. p_inodes p n = Some i \<and> (inode_is_dir i \<or> inode_is_regular_file i \<or> inode_is_symlink i) \<and>
     (inode_is_dir i \<longrightarrow> (\<forall>d \<in> set (concat (p_dir p n)). d_inode d = 0)))"

definition trimmable :: "pool \<Rightarrow> nat \<Rightarrow> bool" where
  "trimmable p n \<longleftrightarrow> (\<exists>i. p_inodes p n = Some i \<and> (inode_is_regular_file i \<longrightarrow> (\<exists>as. arr_chain (arrays (p_file p n)) as (Some 0))))"

lemma trim_all:
  assumes "\<And>n. n \<in> set ns \<Longrightarrow> trimmable p n" and "distinct ns"
  shows "\<exists>F. for_inodes inode_trim ns p = Some (p\<lparr>p_file := F\<rparr>) \<and> (\<forall>n. n \<notin> set ns \<longrightarrow> F n = p_file p n)"
  using assms
proof (induction ns arbitrary: p)
  case Nil
  then show ?case
    by (intro exI [of _ "p_file p"]) simp
next
  case (Cons n ns)
  obtain i where i: "p_inodes p n = Some i" "inode_is_regular_file i \<Longrightarrow> \<exists>as. arr_chain (arrays (p_file p n)) as (Some 0)"
    using Cons.prems(1) [of n] by (auto simp: trimmable_def)
  have "\<exists>f. inode_trim n p = Some (p\<lparr>p_file := (p_file p)(n := f)\<rparr>)"
  proof (cases "inode_is_regular_file i")
    case True
    then obtain f where "inode_trim_reg_file (Some 0) (p_file p n) = Some f"
      using i(2) trim_ends by blast
    then show ?thesis
      using i(1) True by (intro exI [of _ f]) (simp add: inode_trim_def)
  next
    case False
    then show ?thesis
      using i(1) by (intro exI [of _ "p_file p n"]) (simp add: inode_trim_def)
  qed
  then obtain f where f: "inode_trim n p = Some (p\<lparr>p_file := (p_file p)(n := f)\<rparr>)" ..
  let ?p = "p\<lparr>p_file := (p_file p)(n := f)\<rparr>"
  have "trimmable ?p m" if "m \<in> set ns" for m
    using Cons.prems(1) [of m] Cons.prems(2) that by (auto simp: trimmable_def)
  then obtain F where "for_inodes inode_trim ns ?p = Some (?p\<lparr>p_file := F\<rparr>)" "\<forall>m. m \<notin> set ns \<longrightarrow> F m = p_file ?p m"
    using Cons.IH [of ?p] Cons.prems(2) by auto
  then show ?case
    using f by (intro exI [of _ F]) simp
qed

lemma free_all:
  assumes "\<And>n. n \<in> set ns \<Longrightarrow> freeable p n" and "distinct ns"
  shows "for_inodes (\<lambda>n q. inode_free q n) ns p = Some (p\<lparr>p_inodes := \<lambda>n. if n \<in> set ns then None else p_inodes p n\<rparr>)"
  using assms
proof (induction ns arbitrary: p)
  case (Cons n ns)
  let ?p = "p\<lparr>p_inodes := (p_inodes p)(n := None)\<rparr>"
  have f: "inode_free p n = Some ?p"
    using Cons.prems(1) [of n] by (auto simp: freeable_def inode_free_def)
  have "freeable ?p m" if "m \<in> set ns" for m
    using Cons.prems(1) [of m] Cons.prems(2) that by (auto simp: freeable_def)
  then have "for_inodes (\<lambda>n q. inode_free q n) ns ?p = Some (?p\<lparr>p_inodes := \<lambda>m. if m \<in> set ns then None else p_inodes ?p m\<rparr>)"
    using Cons.IH [of ?p] Cons.prems(2) by simp
  moreover have "(\<lambda>m. if m \<in> set ns then None else p_inodes ?p m) = (\<lambda>m. if m \<in> set (n # ns) then None else p_inodes p m)"
    by (auto simp: fun_eq_iff)
  ultimately show ?case
    using f by simp
qed simp

lemma filter_out_unlinked:
  assumes "image_ok I D H as" and "set ns = {n. \<exists>a \<in> set as. \<exists>k. slot_at H (a, k) = Some n}"
  shows "(\<lambda>n. if n \<in> set ns then None else I n) = linked_only I"
proof
  fix n
  have "n \<in> set ns \<longleftrightarrow> (\<exists>i. I n = Some i \<and> inode_get_nlink i = 0)"
    unfolding assms(2) mem_Collect_eq by (rule image_okD(4) [OF assms(1)])
  then show "(if n \<in> set ns then None else I n) = linked_only I n"
    by (auto simp: linked_only_def split: option.splits)
qed

lemma slot_zero_array: "slot_at (h(a \<mapsto> zero_array)) (a, k) = None"
  by (simp add: slot_at_def zero_array_def)

lemma free_orphans_ok:
  assumes H: "ia_heap (p_arr p) = H" and ch: "chain H as None (Some r)" and dist: "distinct as"
    and ns: "Inode_Array.registered H as = ns" "distinct ns" and free: "\<And>n. n \<in> set ns \<Longrightarrow> freeable p n"
    and I: "(\<lambda>n. if n \<in> set ns then None else p_inodes p n) = I" and a: "p_new_array p (H |` (- set as)) = Some a"
  shows "free_orphans r p = Some (Inr (), p\<lparr>p_inodes := I, p_arr := tx_begin ((H |` (- set as))(a \<mapsto> zero_array)), p_orphaned := a\<rparr>)"
proof -
  let ?p = "p\<lparr>p_arr := tx_begin H\<rparr>" and ?h = "H |` (- set as)"
  define q where "q = ?p\<lparr>p_inodes := I\<rparr>"
  have fr: "freeable ?p n" if "n \<in> set ns" for n
    using free [OF that] by (simp add: freeable_def)
  have f: "for_inodes (\<lambda>n q. inode_free q n) ns ?p = Some q"
    using free_all [OF fr ns(2)] by (simp add: I q_def cong del: if_weak_cong)
  have heap: "ia_heap (tx_begin h) = h" "tx_commit t = ia_heap t" for h t
    by (simp_all add: tx_begin_def tx_commit_def)
  have q: "p_arr q = tx_begin H" "p_new_array q = p_new_array p"
    by (simp_all add: q_def)
  have t: "inode_array_traverse H (Some r) [] = Some ns" and fc: "inode_array_free H (Some r) = Some ?h"
    using traverse_chain [OF ch, of "[]"] free_chain [OF ch dist] ns(1) by simp_all
  obtain t where n: "new_inode_array (q\<lparr>p_arr := (tx_begin H)\<lparr>ia_heap := ?h\<rparr>\<rparr>) = Some (Inr a, q\<lparr>p_arr := t\<rparr>)" "ia_heap t = ?h(a \<mapsto> zero_array)"
    using a by (simp add: new_inode_array_def inode_array_alloc_def q)
  show ?thesis
    using n(2) by (simp add: free_orphans_def run_tx_def H heap t f fc q n(1) tx_then_def) (simp add: q_def)
qed

text \<open>
  The clean-up: the inodes without links are gone, and there is one empty array. \<open>as\<close> are the arrays of the image.
\<close>

lemma clean_orphans_ok:
  assumes ch: "chain (ia_heap (p_arr p)) as None (Some (p_orphaned p))" and dist: "distinct as"
    and img: "image_ok (p_inodes p) (p_dir p) (ia_heap (p_arr p)) as" and arr: "p_arr p = tx_begin (ia_heap (p_arr p))"
    and files: "\<And>n i. p_inodes p n = Some i \<Longrightarrow> inode_get_nlink i = 0 \<Longrightarrow> inode_is_regular_file i \<Longrightarrow>
      \<exists>as. arr_chain (arrays (p_file p n)) as (Some 0)"
    and room: "p_new_array p (ia_heap (p_arr p) |` (- set as)) \<noteq> None"
  obtains F h a where "clean_orphans p = Some (p\<lparr>p_inodes := linked_only (p_inodes p), p_file := F, p_arr := tx_begin h, p_orphaned := a\<rparr>)"
    and "\<And>n. linked_only (p_inodes p) n \<noteq> None \<Longrightarrow> F n = p_file p n" and "chain h [a] None (Some a)" and "\<And>k. slot_at h (a, k) = None"
proof -
  let ?H = "ia_heap (p_arr p)" and ?ns = "Inode_Array.registered (ia_heap (p_arr p)) as"
  note set_ns = set_registered [of ?H as]
  have live: "(\<lambda>n. if n \<in> set ?ns then None else p_inodes p n) = linked_only (p_inodes p)"
    by (rule filter_out_unlinked [OF img set_ns])
  have orphan: "n \<in> set ?ns \<longleftrightarrow> (\<exists>i. p_inodes p n = Some i \<and> inode_get_nlink i = 0)" for n
    unfolding set_ns mem_Collect_eq by (rule image_okD(4) [OF img])
  have free: "freeable p n" if n: "n \<in> set ?ns" for n
  proof -
    obtain i where i: "p_inodes p n = Some i" "inode_get_nlink i = 0"
      using orphan [of n] n by auto
    then show ?thesis
      using image_okD(2,3) [OF img i(1)] by (auto simp: freeable_def inode_shape_def dir_ok_def)
  qed
  have trim: "trimmable p n" if "n \<in> set ?ns" for n
    using orphan [of n] that files [of n] by (auto simp: trimmable_def)
  have dns: "distinct ?ns"
    by (rule distinct_registered [OF ch dist img])
  show ?thesis
  proof (cases "?ns = [] \<and> inode_array_is_small ?H (p_orphaned p) = Some True")
    case True
    obtain r bs where r: "as = p_orphaned p # bs" "?H (p_orphaned p) = Some r"
      using ch by (cases as) (auto split: option.splits)
    then have bs: "bs = []"
      using True ch by (cases bs) (auto simp: inode_array_is_small_def)
    have "clean_orphans p = Some p"
      using True empty_chain [OF ch] by (simp add: clean_orphans_def)
    moreover have "linked_only (p_inodes p) = p_inodes p"
      by (subst live [symmetric]) (use True in simp)
    moreover have "slot_at ?H (p_orphaned p, k) = None" for k
    proof (rule ccontr)
      assume "slot_at ?H (p_orphaned p, k) \<noteq> None"
      then obtain n where "slot_at ?H (p_orphaned p, k) = Some n"
        by blast
      moreover have "p_orphaned p \<in> set as"
        using r(1) by simp
      ultimately have "n \<in> set ?ns"
        unfolding set_ns by blast
      then show False
        using True by simp
    qed
    ultimately show ?thesis
      using that [where F = "p_file p" and h = ?H and a = "p_orphaned p"] arr ch r(1) bs by simp
  next
    case False
    obtain small where small: "inode_array_is_small ?H (p_orphaned p) = Some small"
      using ch by (cases as) (auto simp: inode_array_is_small_def split: option.splits)
    obtain F where F: "for_inodes inode_trim ?ns p = Some (p\<lparr>p_file := F\<rparr>)" "\<forall>n. n \<notin> set ?ns \<longrightarrow> F n = p_file p n"
      using trim_all [of ?ns p, OF trim dns] by blast
    let ?h = "?H |` (- set as)"
    obtain a where a: "p_new_array p ?h = Some a"
      using room by auto
    have f: "free_orphans (p_orphaned p) (p\<lparr>p_file := F\<rparr>) =
        Some (Inr (), p\<lparr>p_inodes := linked_only (p_inodes p), p_file := F, p_arr := tx_begin (?h(a \<mapsto> zero_array)), p_orphaned := a\<rparr>)"
    proof -
      have "freeable (p\<lparr>p_file := F\<rparr>) n" if "n \<in> set ?ns" for n
        using free [OF that] by (simp add: freeable_def)
      then show ?thesis
        using free_orphans_ok [of "p\<lparr>p_file := F\<rparr>" ?H as "p_orphaned p" ?ns "linked_only (p_inodes p)" a] ch dist dns live a by (simp cong del: if_weak_cong)
    qed
    have "clean_orphans p = Some (p\<lparr>p_inodes := linked_only (p_inodes p), p_file := F, p_arr := tx_begin (?h(a \<mapsto> zero_array)), p_orphaned := a\<rparr>)"
      using False empty_chain [OF ch] small traverse_chain [OF ch, of "[]"] F(1) f by (cases small) (simp_all add: clean_orphans_def)
    moreover have "F n = p_file p n" if "linked_only (p_inodes p) n \<noteq> None" for n
      using F(2) that unfolding live [symmetric] by (simp split: if_splits)
    ultimately show ?thesis
      by (rule that) (simp_all add: slot_zero_array, simp add: zero_array_def)
  qed
qed

section \<open>The pool that is opened\<close>

lemma dirent_linked:
  assumes "dirent_ok I d"
  shows "dirent_ok (linked_only I) d"
  using assms by (auto simp: dirent_ok_def linked_only_Some)

lemma dir_ok_linked:
  assumes "dir_ok I D n i"
  shows "dir_ok (linked_only I) D n i"
proof -
  have "dots (d_inode d) n (D (d_inode d))"
    if "d \<in> set (concat (D n))" "d_name d \<noteq> ''.''" "d_name d \<noteq> ''..''" "linked_only I (d_inode d) = Some j" "inode_is_dir j" for d j
    using assms that unfolding dir_ok_def linked_only_Some by blast
  moreover have "\<forall>d \<in> set (concat (D n)). dirent_ok (linked_only I) d"
    using assms dirent_linked unfolding dir_ok_def by blast
  ultimately show ?thesis
    using assms unfolding dir_ok_def by blast
qed

lemma opened_ns_inv:
  assumes img: "image_ok I D H as" and quiet: "\<And>n i. I n = Some i \<Longrightarrow> suspended_references i = 0" and h: "chain h [a] None (Some a)" "\<And>k. slot_at h (a, k) = None"
    and roots: "\<And>r. r \<in> set rs \<Longrightarrow> \<exists>i. I r = Some i \<and> inode_is_dir i \<and> inode_get_nlink i \<noteq> 0 \<and> dots r r (D r)"
    and V: "\<And>n. n \<notin> set rs \<Longrightarrow> V n = None" "\<And>n. n \<in> set rs \<Longrightarrow> \<exists>v. V n = Some v \<and> v_parent v = Some n \<and> v_orphaned v = None \<and> 0 < v_ref v \<and> v_ref v = tot n"
    and tot: "\<And>n. n \<notin> set rs \<Longrightarrow> tot n = 0"
  shows "ns_inv (linked_only I) D V h a tot"
proof -
  have kids: "kids V n = {}" for n
  proof (rule equals0I)
    fix c
    assume "c \<in> kids V n"
    then obtain u where "V c = Some u" "v_parent u = Some n" "c \<noteq> n"
      by (auto simp: kids_def)
    then show False
      using V(1) [of c] V(2) [of c] by (cases "c \<in> set rs") auto
  qed
  have dom: "dom V \<subseteq> set rs"
    by (rule subsetI) (use V(1) in \<open>metis domIff\<close>)
  have "refs_ok V tot"
  proof (rule refs_okI)
    show "finite (dom V)"
      by (rule finite_subset [OF dom]) simp
    show "V n = None \<Longrightarrow> tot n = 0 \<and> kids V n = {}" for n
      using V(2) [of n] tot [of n] kids by auto
    show "V n = Some v \<Longrightarrow> 0 < v_ref v \<and> v_ref v = tot n + card (kids V n)" for n v
      using V(1) [of n] V(2) [of n] kids by (cases "n \<in> set rs") auto
  qed
  moreover have "vnode_ok (linked_only I) D n v" if v: "V n = Some v" for n v
  proof -
    have "n \<in> set rs"
      using v V(1) [of n] by auto
    then show ?thesis
      using v V(2) [of n] roots [of n] by (auto simp: vnode_ok_def linked_only_Some)
  qed
  moreover have "registered {a} (linked_only I) V h"
  proof (rule registeredI)
    show "fst pos \<in> {a} \<and> slot_at h pos = Some n" if "V n = Some v" "v_orphaned v = Some pos" for n v pos
      using that V(1) [of n] V(2) [of n] by (cases "n \<in> set rs") auto
  qed (use h(2) in auto)
  moreover have "inode_ok i \<and> (inode_get_nlink i = 0 \<longrightarrow> V n \<noteq> None) \<and> (inode_is_dir i \<longrightarrow> dir_ok (linked_only I) D n i)"
    if "linked_only I n = Some i" for n i
    using image_okD(2,3) [OF img, of n i] quiet [of n i] that dir_ok_linked by (simp add: linked_only_Some inode_ok_def inode_shape_def)
  moreover have "linked_only I 0 = None"
    using image_okD(1) [OF img] by (simp add: linked_only_def)
  ultimately show ?thesis
    using h(1) unfolding ns_inv_def orphans_ok_def by (intro conjI allI impI exI [of _ "[a]"]) simp_all
qed

text \<open>The state between the set-up and the clean-up.\<close>

definition set_up :: "pool \<Rightarrow> block_conf \<Rightarrow> nat list \<Rightarrow> pool" where
  "set_up p c rs = (crash p)\<lparr>p_mem := [], p_conf := c, p_root := rs, p_cwd := rs ! 0,
     p_vinodes := \<lambda>n. if n \<in> set rs
       then Some ((root_vnode (the (p_inodes p n)) n)\<lparr>v_ref := if n = rs ! 0 then 2 else 1\<rparr>) else None\<rparr>"

lemma initialize_ok:
  assumes su: "su_root_inode su = rs" "su_version su = version" and rs: "rs \<noteq> []" "distinct rs" "rs ! 0 \<noteq> 0"
    and i: "\<And>n. n \<in> set rs \<Longrightarrow> \<exists>i. p_inodes p n = Some i \<and> i_version i = PMEMFILE_INODE_VERSION 2"
  obtains c where "initialize_super_block ctl_set class_id version tm su ((crash p)\<lparr>p_mem := []\<rparr>) = Some (Inr (), su, set_up p c rs)"
proof -
  define c where "c = snd (initialize_alloc_classes ctl_set class_id (p_conf p))"
  define q where "q = (crash p)\<lparr>p_mem := [], p_conf := c\<rparr>"
  obtain m :: "vnode hash_map" where m: "hash_map_alloc [] = Some (Some m, [])"
    using hash_map_alloc_ok by blast
  have cred: "cred_acquire [] pool_cred = Some (0, pool_cred)" "groupsnum pool_cred = 0"
    by (simp_all add: cred_acquire_def copy_cred_def pool_cred_def)
  have q: "p_mem q = []" "p_vinodes q = (\<lambda>_. None)" "p_inodes q = p_inodes p" "q\<lparr>p_vinodes := \<lambda>_. None\<rparr> = q"
    by (simp_all add: q_def crash_def)
  let ?V = "\<lambda>n. if n \<in> set rs then Some (root_vnode (the (p_inodes p n)) n) else None"
  have r: "ref_roots rs q = Some (Inr (), q\<lparr>p_vinodes := ?V\<rparr>)"
    using ref_roots_fresh [OF rs(2) q(1)] i q(2,3) by (simp cong del: if_weak_cong)
  have r0: "rs ! 0 \<in> set rs"
    using rs(1) by simp
  let ?q = "upd_vnode (rs ! 0) (\<lambda>v. v\<lparr>v_ref := v_ref v + 1\<rparr>) (q\<lparr>p_vinodes := ?V\<rparr>)"
  have v: "vinode_ref (q\<lparr>p_vinodes := ?V\<rparr>) (Some (rs ! 0)) = Some (rs ! 0, ?q)"
    using r0 by (simp add: vinode_ref_def)
  have V: "(\<lambda>n. if n \<in> set rs then Some ((root_vnode (the (p_inodes p n)) n)\<lparr>v_ref := if n = rs ! 0 then 2 else 1\<rparr>) else None) =
      ?V(rs ! 0 := map_option (\<lambda>v. v\<lparr>v_ref := v_ref v + 1\<rparr>) (?V (rs ! 0)))"
    using r0 by (auto simp: root_vnode_def fun_eq_iff)
  have s: "set_up p c rs = ?q\<lparr>p_root := rs, p_cwd := rs ! 0\<rparr>"
    unfolding set_up_def V upd_vnode_def by (simp add: q_def)
  have "set_up_pool version tm pool_cred su q = Some (Inr (), su, set_up p c rs)"
    unfolding s set_up_pool_def using rs(3) by (simp add: q m r v su(1) cong del: sum.case_cong_weak)
  then have "initialize_super_block ctl_set class_id version tm su ((crash p)\<lparr>p_mem := []\<rparr>) = Some (Inr (), su, set_up p c rs)"
    using su rs(3) cred by (simp add: initialize_super_block_def q_def c_def crash_def)
  then show ?thesis
    by (rule that)
qed

lemma set_up_image:
  "p_inodes (set_up p c rs) = p_inodes p" "p_dir (set_up p c rs) = p_dir p" "p_symlink (set_up p c rs) = p_symlink p"
  "p_arr (set_up p c rs) = tx_begin (ia_heap (p_arr p))" "p_orphaned (set_up p c rs) = p_orphaned p"
  "p_new_array (set_up p c rs) = p_new_array p" "p_file (set_up p c rs) = (\<lambda>n. drop_cached (p_file p n))"
  by (simp_all add: set_up_def crash_def)

lemma count_list_distinct: "distinct xs \<Longrightarrow> count_list xs n = (if n \<in> set xs then 1 else 0)"
  by (induction xs) auto

lemma opened_pool_ok:
  assumes img: "image_ok (p_inodes p) (p_dir p) H as" and quiet: "\<And>n i. p_inodes p n = Some i \<Longrightarrow> suspended_references i = 0" and h: "chain h [a] None (Some a)" "\<And>k. slot_at h (a, k) = None"
    and rs: "rs \<noteq> []" "distinct rs" "\<And>r. r \<in> set rs \<Longrightarrow> \<exists>i. p_inodes p r = Some i \<and> inode_is_dir i \<and> inode_get_nlink i \<noteq> 0 \<and> dots r r (p_dir p r)"
    and sym: "\<And>n. CHR 0x00 \<notin> set (p_symlink p n)"
  shows "pool_ok ((set_up p c rs)\<lparr>p_inodes := linked_only (p_inodes p), p_file := F, p_arr := tx_begin h, p_orphaned := a\<rparr>) (\<lambda>_. 0)"
proof -
  let ?q = "(set_up p c rs)\<lparr>p_inodes := linked_only (p_inodes p), p_file := F, p_arr := tx_begin h, p_orphaned := a\<rparr>"
  have refs: "pool_refs ?q n = (if n \<in> set rs then (if n = rs ! 0 then 2 else 1) else 0)" for n
    using rs(1) by (auto simp: pool_refs_def set_up_def count_list_distinct [OF rs(2)])
  have "ns_inv (linked_only (p_inodes p)) (p_dir p) (p_vinodes ?q) h a (\<lambda>n. 0 + pool_refs ?q n)"
  proof (rule opened_ns_inv [OF img quiet h rs(3)])
    show "p_vinodes ?q n = None" "0 + pool_refs ?q n = 0" if "n \<notin> set rs" for n
      unfolding refs using that by (simp_all add: set_up_def)
    show "\<exists>v. p_vinodes ?q n = Some v \<and> v_parent v = Some n \<and> v_orphaned v = None \<and> 0 < v_ref v \<and> v_ref v = 0 + pool_refs ?q n" if "n \<in> set rs" for n
      unfolding refs using that by (simp add: set_up_def root_vnode_def)
  qed
  then have "pool_inv ?q (\<lambda>n. 0 + pool_refs ?q n)"
    by (simp add: pool_inv_def set_up_image)
  moreover have "\<exists>i. linked_only (p_inodes p) r = Some i \<and> inode_is_dir i \<and> inode_get_nlink i \<noteq> 0" if "r \<in> set rs" for r
    using rs(3) [OF that] by (auto simp: linked_only_Some)
  ultimately show ?thesis
    using rs(1) sym by (simp add: pool_ok_def set_up_image) (simp add: set_up_def)
qed

lemma open_cleans:
  assumes as: "chain (ia_heap (p_arr p)) as None (Some (p_orphaned p))" "distinct as"
    and img: "image_ok (p_inodes p) (p_dir p) (ia_heap (p_arr p)) as"
    and su: "su_root_inode su = rs" "su_version su = version" and rs: "rs \<noteq> []" "distinct rs" "\<And>r. r \<in> set rs \<Longrightarrow> p_inodes p r \<noteq> None"
    and files: "\<And>n i. p_inodes p n = Some i \<Longrightarrow> inode_get_nlink i = 0 \<Longrightarrow> inode_is_regular_file i \<Longrightarrow> \<exists>as. arr_chain (arrays (p_file p n)) as (Some 0)"
    and room: "p_new_array p (ia_heap (p_arr p) |` (- set as)) \<noteq> None"
  obtains c F h a where "pmemfile_pool_open ctl_set class_id version tm [] (Inr (Some su, crash p)) =
      Some (Inr (su, (set_up p c rs)\<lparr>p_inodes := linked_only (p_inodes p), p_file := F, p_arr := tx_begin h, p_orphaned := a\<rparr>))"
    and "\<And>n. linked_only (p_inodes p) n \<noteq> None \<Longrightarrow> F n = drop_cached (p_file p n)" and "chain h [a] None (Some a)" and "\<And>k. slot_at h (a, k) = None"
proof -
  have ver: "\<exists>i. p_inodes p n = Some i \<and> i_version i = PMEMFILE_INODE_VERSION 2" if "n \<in> set rs" for n
    using rs(3) [OF that] image_okD(2) [OF img, of n] by (auto simp: inode_shape_def)
  have r0: "rs ! 0 \<noteq> 0"
    using rs(3) [of "rs ! 0"] rs(1) image_okD(1) [OF img] by (metis length_greater_0_conv nth_mem)
  obtain c where c: "initialize_super_block ctl_set class_id version tm su ((crash p)\<lparr>p_mem := []\<rparr>) = Some (Inr (), su, set_up p c rs)"
    by (rule initialize_ok [OF su rs(1,2) r0, of p ctl_set class_id tm]) (rule ver, assumption, rule that)
  let ?q = "set_up p c rs"
  have heap: "ia_heap (p_arr ?q) = ia_heap (p_arr p)" "p_arr ?q = tx_begin (ia_heap (p_arr ?q))"
    by (simp_all add: set_up_image tx_begin_def)
  obtain F h a where q: "clean_orphans ?q = Some (?q\<lparr>p_inodes := linked_only (p_inodes p), p_file := F, p_arr := tx_begin h, p_orphaned := a\<rparr>)"
    and F: "\<And>n. linked_only (p_inodes p) n \<noteq> None \<Longrightarrow> F n = drop_cached (p_file p n)" and h: "chain h [a] None (Some a)" "\<And>k. slot_at h (a, k) = None"
  proof (rule clean_orphans_ok [of ?q as, unfolded heap(1) set_up_image])
    show "tx_begin (ia_heap (p_arr p)) = tx_begin (ia_heap (tx_begin (ia_heap (p_arr p))))"
      by (simp add: tx_begin_def)
  qed (use as img files room in \<open>auto simp: drop_cached_def tx_begin_def\<close>)
  have "pmemfile_pool_open ctl_set class_id version tm [] (Inr (Some su, crash p)) =
      Some (Inr (su, ?q\<lparr>p_inodes := linked_only (p_inodes p), p_file := F, p_arr := tx_begin h, p_orphaned := a\<rparr>))"
    using c q by (simp add: pmemfile_pool_open_def pf_calloc_def)
  then show thesis
    using F h by (rule that)
qed

text \<open>
  Claim C5. Whenever the program stops, by a crash or without closing its files, opening the pool again succeeds: every
  inode that has no name left is freed, wherever it was still in use, every other inode and every name is as it was, nothing is
  registered as orphaned any more, and the invariant of the pool holds with no reference but those of the pool itself. So a file that has
  been unlinked while open never outlives the next opening of the pool.
\<close>

theorem pool_open_reclaims:
  assumes ok: "pool_ok p ext" and su: "su_root_inode su = p_root p" "su_version su = version"
    and roots: "distinct (p_root p)" "\<And>r. r \<in> set (p_root p) \<Longrightarrow> dots r r (p_dir p r)"
    and files: "\<And>n i. p_inodes p n = Some i \<Longrightarrow> inode_get_nlink i = 0 \<Longrightarrow> inode_is_regular_file i \<Longrightarrow> \<exists>as. arr_chain (arrays (p_file p n)) as (Some 0)"
    and room: "\<And>h. h \<subseteq>\<^sub>m ia_heap (p_arr p) \<Longrightarrow> p_new_array p h \<noteq> None"
  shows "\<exists>p'. pmemfile_pool_open ctl_set class_id version tm [] (Inr (Some su, crash p)) = Some (Inr (su, p')) \<and> pool_ok p' (\<lambda>_. 0) \<and>
    (\<forall>n. p_inodes p' n = (case p_inodes p n of None \<Rightarrow> None | Some i \<Rightarrow> if inode_get_nlink i = 0 then None else Some i)) \<and>
    p_dir p' = p_dir p \<and> p_symlink p' = p_symlink p \<and> (\<forall>n. p_inodes p' n \<noteq> None \<longrightarrow> p_file p' n = drop_cached (p_file p n)) \<and>
    (\<forall>k. slot_at (ia_heap (p_arr p')) (p_orphaned p', k) = None)"
proof -
  note inv = pool_ok_linksD [OF ok]
  obtain as where as: "chain (ia_heap (p_arr p)) as None (Some (p_orphaned p))" "distinct as"
    and img: "image_ok (p_inodes p) (p_dir p) (ia_heap (p_arr p)) as"
    by (rule pool_inv_image [OF inv]) (rule that)
  have rs: "p_root p \<noteq> []" "\<And>r. r \<in> set (p_root p) \<Longrightarrow> \<exists>i. p_inodes p r = Some i \<and> inode_is_dir i \<and> inode_get_nlink i \<noteq> 0 \<and> dots r r (p_dir p r)"
    and sym: "\<And>n. CHR 0x00 \<notin> set (p_symlink p n)"
    using ok roots(2) by (fastforce simp: pool_ok_def)+
  have quiet: "suspended_references i = 0" if "p_inodes p n = Some i" for n i
    using ns_invD(3) [OF inv [unfolded pool_inv_def] that] by (simp add: inode_ok_def)
  obtain c F h a where q: "pmemfile_pool_open ctl_set class_id version tm [] (Inr (Some su, crash p)) =
      Some (Inr (su, (set_up p c (p_root p))\<lparr>p_inodes := linked_only (p_inodes p), p_file := F, p_arr := tx_begin h, p_orphaned := a\<rparr>))"
    and F: "\<And>n. linked_only (p_inodes p) n \<noteq> None \<Longrightarrow> F n = drop_cached (p_file p n)" and h: "chain h [a] None (Some a)" "\<And>k. slot_at h (a, k) = None"
  proof (rule open_cleans [OF as img su rs(1) roots(1), of ctl_set class_id tm])
    show "p_inodes p r \<noteq> None" if "r \<in> set (p_root p)" for r
      using rs(2) [OF that] by auto
    show "p_new_array p (ia_heap (p_arr p) |` (- set as)) \<noteq> None"
      by (rule room) (simp add: map_le_def)
  qed (rule files that, assumption+)+
  have "pool_ok ((set_up p c (p_root p))\<lparr>p_inodes := linked_only (p_inodes p), p_file := F, p_arr := tx_begin h, p_orphaned := a\<rparr>) (\<lambda>_. 0)"
    by (rule opened_pool_ok [OF img quiet h rs(1) roots(1) rs(2) sym])
  then show ?thesis
    using q F h(2) by (simp add: set_up_image linked_only_def tx_begin_def)
qed

section \<open>A pool with an unlinked file that is still open\<close>

definition busy_inodes :: "nat \<Rightarrow> inode option" where
  "busy_inodes = [10 \<mapsto> new_inode (PMEMFILE_S_IFDIR + 493) 2, 11 \<mapsto> new_inode (PMEMFILE_S_IFDIR + 493) 2,
     12 \<mapsto> new_inode (PMEMFILE_S_IFDIR + 493) 2, 13 \<mapsto> new_inode (PMEMFILE_S_IFDIR + 493) 2, 5 \<mapsto> new_inode (PMEMFILE_S_IFREG + 420) 0]"

definition busy_dirs :: "nat \<Rightarrow> pmemfile_dirent list list" where
  "busy_dirs n = (if n \<in> {10, 11, 12, 13} then [[dentry n ''.'', dentry n ''..'', free_dirent]] else [])"

definition busy_root :: "nat \<Rightarrow> nat \<Rightarrow> vnode" where
  "busy_root k n = \<lparr>v_ref = k, v_parent = Some n, v_orphaned = None, v_atime = zero_time, v_atime_dirty = False\<rparr>"

definition busy_vinodes :: "nat \<Rightarrow> vnode option" where
  "busy_vinodes = [10 \<mapsto> busy_root 2 10, 11 \<mapsto> busy_root 1 11, 12 \<mapsto> busy_root 1 12, 13 \<mapsto> busy_root 1 13,
     5 \<mapsto> \<lparr>v_ref = 1, v_parent = None, v_orphaned = Some (6, 3), v_atime = zero_time, v_atime_dirty = False\<rparr>]"

definition busy_arrays :: "nat \<Rightarrow> inode_array option" where
  "busy_arrays = [6 \<mapsto> with_inode 3 5 zero_array]"

definition busy :: pool where
  "busy = sample\<lparr>p_inodes := busy_inodes, p_dir := busy_dirs, p_symlink := \<lambda>_. [], p_file := \<lambda>_. new_file, p_arr := tx_begin busy_arrays,
     p_vinodes := busy_vinodes, p_root := [10, 11, 12, 13]\<rparr>"

definition busy_super :: pmemfile_super where
  "busy_super = \<lparr>su_version = PMEMFILE_SUPER_VERSION 0 2, su_root_inode = [10, 11, 12, 13], su_suspended = 8\<rparr>"

lemma busy_sel [simp]:
  "p_inodes busy = busy_inodes" "p_dir busy = busy_dirs" "p_symlink busy = (\<lambda>_. [])" "p_file busy = (\<lambda>_. new_file)"
  "ia_heap (p_arr busy) = busy_arrays" "p_orphaned busy = 6" "p_vinodes busy = busy_vinodes" "p_root busy = [10, 11, 12, 13]" "p_cwd busy = 10"
  "p_new_array busy = spare_alloc"
  by (simp_all add: busy_def sample_def tx_begin_def)

lemma busy_inodes_cases:
  assumes "busy_inodes n = Some i"
  obtains "n \<in> {10, 11, 12, 13}" "i = new_inode (PMEMFILE_S_IFDIR + 493) 2" | "n = 5" "i = new_inode (PMEMFILE_S_IFREG + 420) 0"
  using assms by (auto simp: busy_inodes_def split: if_splits)

lemma busy_root_inode: "n \<in> {10, 11, 12, 13} \<Longrightarrow> busy_inodes n = Some (new_inode (PMEMFILE_S_IFDIR + 493) 2)"
  by (auto simp: busy_inodes_def)

lemma busy_inodes_0: "busy_inodes 0 = None"
  by (simp add: busy_inodes_def)

lemma busy_dots: "n \<in> {10, 11, 12, 13} \<Longrightarrow> dots n n (busy_dirs n)"
  by (auto simp: dots_def busy_dirs_def dentry_def)

lemma busy_dir_ok: "n \<in> {10, 11, 12, 13} \<Longrightarrow> dir_ok busy_inodes busy_dirs n (new_inode (PMEMFILE_S_IFDIR + 493) 2)"
  using busy_root_inode [of n] busy_dots [of n] busy_inodes_0
  by (auto simp: dir_ok_def dirent_ok_def busy_dirs_def dentry_def free_dirent_def PMEMFILE_MAX_FILE_NAME_def slash_def)

lemma busy_slot: "slot_at busy_arrays (6, k) = (if k = 3 then Some 5 else None)"
  by (auto simp: slot_at_def busy_arrays_def with_inode_def zero_array_def NUMINODES_PER_ENTRY_def nth_list_update)

lemma busy_ok: "pool_ok busy ((\<lambda>_. 0)(5 := 1))"
proof -
  let ?ext = "(\<lambda>_. 0)(5 := 1)"
  have refs: "refs_ok busy_vinodes (\<lambda>n. ?ext n + pool_refs busy n)"
  proof (rule refs_okI)
    have tot: "?ext n + pool_refs busy n = (case busy_vinodes n of None \<Rightarrow> 0 | Some v \<Rightarrow> v_ref v)" for n
      by (simp add: pool_refs_def busy_vinodes_def busy_root_def)
    have "v_parent u = Some c \<or> v_parent u = None" if "busy_vinodes c = Some u" for c u
      using that by (auto simp: busy_vinodes_def busy_root_def split: if_splits)
    then have kids: "kids busy_vinodes n = {}" for n
      by (force simp: kids_def)
    have "0 < v_ref v" if "busy_vinodes n = Some v" for n v
      using that by (auto simp: busy_vinodes_def busy_root_def split: if_splits)
    then show "busy_vinodes n = None \<Longrightarrow> ?ext n + pool_refs busy n = 0 \<and> kids busy_vinodes n = {}"
      "busy_vinodes n = Some v \<Longrightarrow> 0 < v_ref v \<and> v_ref v = ?ext n + pool_refs busy n + card (kids busy_vinodes n)" for n v
      unfolding tot kids by simp_all
  qed (simp add: busy_vinodes_def)
  have inodes: "inode_ok i \<and> (inode_get_nlink i = 0 \<longrightarrow> busy_vinodes n \<noteq> None) \<and> (inode_is_dir i \<longrightarrow> dir_ok busy_inodes busy_dirs n i)"
    if i: "busy_inodes n = Some i" for n i
    using i by (cases rule: busy_inodes_cases) (use busy_dir_ok [of n] in \<open>simp_all add: inode_ok_def\<close>, simp add: busy_vinodes_def)
  have vnodes: "vnode_ok busy_inodes busy_dirs n v" if "busy_vinodes n = Some v" for n v
    using that busy_root_inode [of n] busy_dots [of n]
    by (auto simp: busy_vinodes_def vnode_ok_def busy_root_def busy_inodes_def split: if_splits)
  have "chain busy_arrays [6] None (Some 6)"
    using with_inode_ok [OF zero_array_ok(1), of 3 5] by (simp add: busy_arrays_def with_inode_def zero_array_def NUMINODES_PER_ENTRY_def)
  moreover have "registered (set [6]) busy_inodes busy_vinodes busy_arrays"
    by (rule registeredI) (auto simp: busy_slot busy_vinodes_def busy_root_def busy_inodes_def split: if_splits)
  ultimately have "orphans_ok busy_inodes busy_vinodes busy_arrays 6"
    unfolding orphans_ok_def by (intro exI [of _ "[6]"]) simp
  then have "pool_inv busy (\<lambda>n. ?ext n + pool_refs busy n)"
    using refs inodes vnodes busy_inodes_0 unfolding pool_inv_def ns_inv_def busy_sel by blast
  then show ?thesis
    using busy_root_inode by (simp add: pool_ok_def)
qed

theorem pool_open_reclaims_witness:
  "\<exists>p'. pmemfile_pool_open (\<lambda>_ _ _. 0) id (PMEMFILE_SUPER_VERSION 0 2) zero_time [] (Inr (Some busy_super, crash busy)) = Some (Inr (busy_super, p')) \<and>
     pool_ok p' (\<lambda>_. 0) \<and> p_inodes p' 5 = None \<and> p_inodes p' 13 = Some (new_inode (PMEMFILE_S_IFDIR + 493) 2) \<and> p_dir p' = busy_dirs"
proof -
  have chain: "\<exists>as. arr_chain (arrays new_file) as (Some 0)"
    by (rule exI [of _ "[0]"]) (simp add: new_file_def PMEMFILE_IN_INODE_STORAGE_def SIZEOF_BLOCK_ARRAY_def SIZEOF_BLOCK_DESC_def SIZEOF_DIR_def SIZEOF_DIRENT_def
        PMEMFILE_MAX_FILE_NAME_def)
  have room: "spare_alloc h \<noteq> None" if "h \<subseteq>\<^sub>m busy_arrays" for h
  proof -
    have "h 1 = None"
      using that by (auto simp: map_le_def busy_arrays_def dom_def)
    then show ?thesis
      by (simp add: spare_alloc_def)
  qed
  obtain p' where p': "pmemfile_pool_open (\<lambda>_ _ _. 0) id (PMEMFILE_SUPER_VERSION 0 2) zero_time [] (Inr (Some busy_super, crash busy)) = Some (Inr (busy_super, p'))"
    "pool_ok p' (\<lambda>_. 0)" "p_dir p' = busy_dirs"
    and I: "\<forall>n. p_inodes p' n = (case busy_inodes n of None \<Rightarrow> None | Some i \<Rightarrow> if inode_get_nlink i = 0 then None else Some i)"
    using pool_open_reclaims [OF busy_ok, of busy_super "PMEMFILE_SUPER_VERSION 0 2" "\<lambda>_ _ _. 0" id zero_time] chain room busy_dots
    unfolding busy_sel by (auto simp: busy_super_def)
  have "p_inodes p' 5 = None" "p_inodes p' 13 = Some (new_inode (PMEMFILE_S_IFDIR + 493) 2)"
    unfolding I [rule_format] by (simp_all add: busy_inodes_def)
  then show ?thesis
    using p' by blast
qed

end
