(* ===== verification/Suspend.thy ===== *)
theory Suspend
  imports Reopen
begin

text \<open>
  Suspending and resuming a pool (\<^verbatim>\<open>pool.c\<close>, \<^verbatim>\<open>inode.c\<close>): a process that is not going to use its pool for a while records the inodes
  it has open, closes the object store, so that others may open it, and comes back to it later. The order in which the map of volatile
  inodes is traversed is an argument. Pointers into the store are offsets; the store may be mapped at another address later.
\<close>

section \<open>Definitions\<close>

text \<open>The array of suspended inodes in the super block, and the slot of each volatile inode in it, \<^verbatim>\<open>vinode->suspended\<close>.\<close>

record suspension =
  sp_inodes :: nat
  sp_pos :: "nat \<Rightarrow> (nat \<times> nat) option"

text \<open>A pointer to an object, and what becomes of it when the store moves.\<close>

definition pmemfile_direct :: "64 word \<Rightarrow> 64 word \<Rightarrow> 64 word" where
  "pmemfile_direct pop off = (if off = 0 then 0 else pop + off)"

definition add_off_ptr :: "64 word \<Rightarrow> 64 word \<Rightarrow> 64 word" where
  "add_off_ptr ptr off = ptr + off"

definition forget_blocks :: "pfile \<Rightarrow> pfile" where
  "forget_blocks f = f\<lparr>blocks := None, first_free := None, first_block := None\<rparr>"

definition suspended_inode :: "vnode \<Rightarrow> inode \<Rightarrow> inode" where
  "suspended_inode v i =
     (let i1 = i\<lparr>suspended_references := u32 (suspended_references i + 1)\<rparr> in
      if v_atime_dirty v then i1\<lparr>i_atime := (i_atime i1)(sl_atime (slots i1) := v_atime v)\<rparr> else i1)"

definition vinode_suspend :: "nat \<Rightarrow> suspension \<Rightarrow> pool \<Rightarrow> ((errno + unit) \<times> suspension \<times> pool) option" where
  "vinode_suspend n sp p =
     do {
       v \<leftarrow> p_vinodes p n;
       i \<leftarrow> p_inodes p n;
       let p1 = upd_inode n (suspended_inode v) p;
       (r, t) \<leftarrow> inode_array_add (p_new_array p1) (sp_inodes sp) n (p_arr p1);
       Some (case r of
         Inl e \<Rightarrow> (Inl e, sp, p1\<lparr>p_arr := t\<rparr>)
       | Inr pos \<Rightarrow>
           (Inr (), sp\<lparr>sp_pos := (sp_pos sp)(n \<mapsto> pos)\<rparr>, p1\<lparr>p_arr := t, p_file := (p_file p)(n := forget_blocks (p_file p n))\<rparr>))
     }"

fun suspend_vinodes :: "nat list \<Rightarrow> suspension \<Rightarrow> pool \<Rightarrow> ((errno + unit) \<times> suspension \<times> pool) option" where
  "suspend_vinodes [] sp p = Some (Inr (), sp, p)"
| "suspend_vinodes (n # ns) sp p =
     (case vinode_suspend n sp p of
        None \<Rightarrow> None
      | Some (Inl e, sp1, p1) \<Rightarrow> Some (Inl e, sp1, p1)
      | Some (Inr _, sp1, p1) \<Rightarrow> suspend_vinodes ns sp1 p1)"

text \<open>An abort restores the inodes and the arrays; the block trees that are gone stay so.\<close>

definition pmemfile_pool_suspend :: "nat list \<Rightarrow> suspension \<Rightarrow> pool \<Rightarrow> ((errno + unit) \<times> suspension \<times> pool) option" where
  "pmemfile_pool_suspend ns sp p =
     do {
       (r, sp1, p1) \<leftarrow> suspend_vinodes ns sp (p\<lparr>p_arr := tx_begin (ia_heap (p_arr p))\<rparr>);
       Some (case r of
         Inl e \<Rightarrow> (Inl e, sp1, p1\<lparr>p_inodes := p_inodes p, p_arr := tx_begin (tx_abort (p_arr p1))\<rparr>)
       | Inr _ \<Rightarrow> (Inr (), sp1, p1\<lparr>p_arr := tx_begin (tx_commit (p_arr p1))\<rparr>))
     }"

definition inode_resume :: "suspension \<Rightarrow> nat \<Rightarrow> pool \<Rightarrow> pool option" where
  "inode_resume sp n p =
     do {
       (arr, idx) \<leftarrow> sp_pos sp n;
       i \<leftarrow> p_inodes p n;
       let refs = (if suspended_references i = 0 then UINT32_MAX else suspended_references i - 1);
       let p1 = upd_inode n (\<lambda>i. i\<lparr>suspended_references := refs\<rparr>) p;
       t \<leftarrow> inode_array_unregister arr idx (p_arr p1);
       Some (p1\<lparr>p_arr := t\<rparr>)
     }"

definition vinode_resume :: "nat \<Rightarrow> pool \<Rightarrow> pool option" where
  "vinode_resume n p =
     do {
       i \<leftarrow> p_inodes p n;
       Some (upd_vnode n (\<lambda>v. v\<lparr>v_atime_dirty := False, v_atime := inode_get_atime i\<rparr>) p)
     }"

text \<open>The store may be in use by another process: the number of attempts to open it that fail.\<close>

partial_function (option) wait_open :: "(nat \<Rightarrow> bool) \<Rightarrow> nat \<Rightarrow> nat option" where
  "wait_open opens k = (if opens k then Some k else wait_open opens (Suc k))"

declare wait_open.simps [code]

text \<open>The transaction commits, or fails with an error number for want of space in its log.\<close>

definition pmemfile_pool_resume ::
  "(nat \<Rightarrow> bool) \<Rightarrow> (nat \<Rightarrow> nat \<Rightarrow> nat \<Rightarrow> int) \<Rightarrow> (nat \<Rightarrow> nat) \<Rightarrow> errno option \<Rightarrow> nat list \<Rightarrow> suspension \<Rightarrow> pool
    \<Rightarrow> ((errno + unit) \<times> suspension \<times> pool) option" where
  "pmemfile_pool_resume opens ctl_set class_id tx ns sp p =
     do {
       _ \<leftarrow> wait_open opens 0;
       let p1 = p\<lparr>p_conf := snd (initialize_alloc_classes ctl_set class_id (p_conf p))\<rparr>;
       p2 \<leftarrow> for_inodes (inode_resume sp) ns (p1\<lparr>p_arr := tx_begin (ia_heap (p_arr p1))\<rparr>);
       (case tx of
          Some e \<Rightarrow> Some (Inl e, sp, p1\<lparr>p_arr := tx_begin (tx_abort (p_arr p2))\<rparr>)
        | None \<Rightarrow>
            do {
              p3 \<leftarrow> for_inodes vinode_resume ns (p2\<lparr>p_arr := tx_begin (tx_commit (p_arr p2))\<rparr>);
              Some (Inr (), sp\<lparr>sp_pos := \<lambda>n. if n \<in> set ns then None else sp_pos sp n\<rparr>, p3)
            })
     }"

section \<open>The store at another address\<close>

lemma direct_moves: "off \<noteq> 0 \<Longrightarrow> add_off_ptr (pmemfile_direct old off) (new - old) = pmemfile_direct new off"
  by (simp add: add_off_ptr_def pmemfile_direct_def)

lemma wait_open_ends: "opens k \<Longrightarrow> j \<le> k \<Longrightarrow> \<exists>m. wait_open opens j = Some m"
proof (induction "k - j" arbitrary: j)
  case 0
  then show ?case
    by (subst wait_open.simps) simp
next
  case (Suc d)
  then show ?case
    by (subst wait_open.simps) (use Suc.hyps(1) [of "Suc j"] in auto)
qed

section \<open>One more inode in the arrays\<close>

lemma inode_array_add_step:
  assumes "chain (ia_heap t) as p (Some a0)" and "distinct as" and "fresh_alloc alloc"
  shows "(\<exists>a i t' bs. inode_array_add alloc a0 v t = Some (Inr (a, i), t') \<and> slot_at (ia_heap t) (a, i) = None \<and>
      slot_at (ia_heap t') = (slot_at (ia_heap t))((a, i) \<mapsto> v) \<and> chain (ia_heap t') bs p (Some a0) \<and> distinct bs \<and>
      set bs = insert a (set as) \<and> (a \<notin> set as \<longrightarrow> ia_heap t a = None) \<and> (\<forall>b. b \<notin> set bs \<longrightarrow> ia_heap t' b = ia_heap t b)) \<or>
    inode_array_add alloc a0 v t = Some (Inl ENOMEM, t) \<and> alloc (ia_heap t) = None"
  using inode_array_add_cases [OF assms(1,3), of v]
proof (elim disjE exE conjE)
  fix a i t'
  assume eq: "inode_array_add alloc a0 v t = Some (Inr (a, i), t')" and "added_here v t as a i t'"
  then obtain r where r: "a \<in> set as" "ia_heap t a = Some r" "i < length (ia_inodes r)" "ia_inodes r ! i = None"
      "ia_heap t' = (ia_heap t)(a \<mapsto> with_inode i v r)"
    by (auto simp: added_here_def)
  have ok: "arr_ok r"
    using chain_mem [OF assms(1) r(1)] r(2) by auto
  have "chain (ia_heap t') as p (Some a0)"
    unfolding r(5) by (rule chain_upd [OF assms(1) r(2) with_inode_ok [OF ok r(3,4)]]) simp_all
  moreover have "slot_at (ia_heap t') = (slot_at (ia_heap t))((a, i) \<mapsto> v)"
    unfolding r(5) by (rule slot_at_with_inode) (rule r)+
  moreover have "slot_at (ia_heap t) (a, i) = None" "set as = insert a (set as)" "\<forall>b. b \<notin> set as \<longrightarrow> ia_heap t' b = ia_heap t b"
    using r by (auto simp: slot_at_def)
  ultimately show ?thesis
    using eq r(1) assms(2) by blast
next
  fix a i t'
  assume eq: "inode_array_add alloc a0 v t = Some (Inr (a, i), t')" and "added_new v t as a i t'"
  then obtain r where r: "ia_heap t a = None" "i = 0" "ia_heap t (last as) = Some r"
      "ia_heap t' = (ia_heap t)(last as \<mapsto> r\<lparr>ia_next := Some a\<rparr>, a \<mapsto> with_inode 0 v (zero_array\<lparr>ia_prev := Some (last as)\<rparr>))"
    by (auto simp: added_new_def)
  have a: "a \<notin> set as"
    using chain_mem [OF assms(1)] r(1) by force
  have "arr_ok (with_inode 0 v (zero_array\<lparr>ia_prev := Some (last as)\<rparr>))"
    by (rule with_inode_ok [OF zero_array_ok(2)]) (simp_all add: zero_array_def NUMINODES_PER_ENTRY_def)
  then have "chain (ia_heap t') (as @ [a]) p (Some a0)"
    unfolding r(4)
    by (intro chain_extend [OF assms(1,2) chain_start [OF assms(1)] r(3) a]) (simp_all add: zero_array_def)
  moreover have "slot_at (ia_heap t') = (slot_at (ia_heap t))((a, i) \<mapsto> v)"
    unfolding r(4) r(2) by (rule slot_at_new) (rule r)+
  moreover have "slot_at (ia_heap t) (a, i) = None" "set (as @ [a]) = insert a (set as)" "distinct (as @ [a])"
    "\<forall>b. b \<notin> set (as @ [a]) \<longrightarrow> ia_heap t' b = ia_heap t b"
    using r a assms(2) last_in_set [OF chain_start [OF assms(1)]] by (auto simp: slot_at_def)
  ultimately show ?thesis
    using eq r(1) by blast
qed simp

section \<open>All inodes are recorded\<close>

text \<open>
  From heap \<open>H\<close> with the arrays \<open>ss\<close> the inodes \<open>ns\<close> have been put into slots that were free; \<open>bs\<close> are the arrays now, and nothing
  else has changed.
\<close>

definition recorded ::
  "(nat \<Rightarrow> inode_array option) \<Rightarrow> nat list \<Rightarrow> nat \<Rightarrow> nat set \<Rightarrow> (nat \<Rightarrow> (nat \<times> nat) option) \<Rightarrow> (nat \<Rightarrow> inode_array option) \<Rightarrow> nat list \<Rightarrow> bool" where
  "recorded H ss r N pos H' bs \<longleftrightarrow> chain H' bs None (Some r) \<and> distinct bs \<and> set ss \<subseteq> set bs \<and>
     (\<forall>a \<in> set bs - set ss. H a = None) \<and> (\<forall>a. a \<notin> set bs \<longrightarrow> H' a = H a) \<and>
     (\<forall>n \<in> N. \<exists>x. pos n = Some x \<and> fst x \<in> set bs \<and> slot_at H x = None \<and> slot_at H' x = Some n) \<and>
     (\<forall>x. (\<forall>n \<in> N. pos n \<noteq> Some x) \<longrightarrow> slot_at H' x = slot_at H x)"

lemma recordedD:
  assumes "recorded H ss r N pos H' bs"
  shows "chain H' bs None (Some r)" and "distinct bs" and "set ss \<subseteq> set bs" and "\<And>a. a \<in> set bs \<Longrightarrow> a \<notin> set ss \<Longrightarrow> H a = None"
    and "\<And>a. a \<notin> set bs \<Longrightarrow> H' a = H a"
    and "\<And>n. n \<in> N \<Longrightarrow> \<exists>x. pos n = Some x \<and> fst x \<in> set bs \<and> slot_at H x = None \<and> slot_at H' x = Some n"
    and "\<And>x. (\<And>n. n \<in> N \<Longrightarrow> pos n \<noteq> Some x) \<Longrightarrow> slot_at H' x = slot_at H x"
  using assms unfolding recorded_def by blast+

lemma recorded_start: "chain H ss None (Some r) \<Longrightarrow> distinct ss \<Longrightarrow> recorded H ss r {} pos H ss"
  by (simp add: recorded_def)

lemma recorded_add:
  assumes rec: "recorded H ss r N pos (ia_heap t) bs" and n: "n \<notin> N" and "fresh_alloc alloc"
  shows "(\<exists>x t' cs. inode_array_add alloc r n t = Some (Inr x, t') \<and> recorded H ss r (insert n N) (pos(n \<mapsto> x)) (ia_heap t') cs) \<or>
    inode_array_add alloc r n t = Some (Inl ENOMEM, t)"
  using inode_array_add_step [OF recordedD(1,2) [OF rec] assms(3), of n]
proof (elim disjE exE conjE)
  note R = recordedD [OF rec]
  fix a i :: nat and t' cs
  let ?x = "(a, i)"
  assume eq: "inode_array_add alloc r n t = Some (Inr ?x, t')" and free: "slot_at (ia_heap t) ?x = None"
    and slots: "slot_at (ia_heap t') = (slot_at (ia_heap t))(?x \<mapsto> n)" and cs: "chain (ia_heap t') cs None (Some r)" "distinct cs"
      "set cs = insert a (set bs)" and a: "a \<notin> set bs \<longrightarrow> ia_heap t a = None" and others: "\<forall>b. b \<notin> set cs \<longrightarrow> ia_heap t' b = ia_heap t b"
  have new: "pos m \<noteq> Some ?x" if "m \<in> N" for m
    using R(6) [OF that] free by auto
  then have H: "slot_at H ?x = None"
    using R(7) [of ?x] free by auto
  have "H b = None" if "b \<in> set cs" "b \<notin> set ss" for b
    using that cs(3) a R(4,5) by (cases "b \<in> set bs") auto
  moreover have "ia_heap t' b = H b" if "b \<notin> set cs" for b
    using that others R(5) cs(3) by auto
  moreover have "\<exists>x. (pos(n \<mapsto> ?x)) m = Some x \<and> fst x \<in> set cs \<and> slot_at H x = None \<and> slot_at (ia_heap t') x = Some m" if "m \<in> insert n N" for m
    using that R(6) [of m] new [of m] H slots cs(3) n by (cases "m = n") auto
  moreover have "slot_at (ia_heap t') x = slot_at H x" if "\<And>m. m \<in> insert n N \<Longrightarrow> (pos(n \<mapsto> ?x)) m \<noteq> Some x" for x
  proof -
    have "x \<noteq> ?x"
      using that [of n] by auto
    moreover have "pos m \<noteq> Some x" if "m \<in> N" for m
      using \<open>\<And>m. m \<in> insert n N \<Longrightarrow> (pos(n \<mapsto> ?x)) m \<noteq> Some x\<close> [of m] that n by (auto split: if_splits)
    ultimately show ?thesis
      using R(7) [of x] slots by simp
  qed
  moreover have "set ss \<subseteq> set cs"
    using R(3) cs(3) by blast
  ultimately have "recorded H ss r (insert n N) (pos(n \<mapsto> ?x)) (ia_heap t') cs"
    using cs(1,2) unfolding recorded_def by blast
  then show ?thesis
    using eq by blast
qed simp

definition all_suspended :: "nat set \<Rightarrow> pool \<Rightarrow> nat \<Rightarrow> inode option" where
  "all_suspended N p n = (if n \<in> N then map_option (suspended_inode (the (p_vinodes p n))) (p_inodes p n) else p_inodes p n)"

definition all_forgotten :: "nat set \<Rightarrow> pool \<Rightarrow> nat \<Rightarrow> pfile" where
  "all_forgotten N p n = (if n \<in> N then forget_blocks (p_file p n) else p_file p n)"

lemma all_suspended_insert:
  assumes "p_vinodes p n = Some v" and "n \<notin> N"
  shows "all_suspended N (p\<lparr>p_inodes := (p_inodes p)(n := map_option (suspended_inode v) (p_inodes p n)), p_arr := t, p_file := F\<rparr>) =
    all_suspended (insert n N) p"
  using assms by (auto simp: all_suspended_def fun_eq_iff)

lemma all_forgotten_insert:
  assumes "n \<notin> N"
  shows "all_forgotten N (p\<lparr>p_inodes := I, p_arr := t, p_file := (p_file p)(n := forget_blocks (p_file p n))\<rparr>) = all_forgotten (insert n N) p"
  using assms by (auto simp: all_forgotten_def fun_eq_iff)

lemma suspend_vinodes_ok:
  assumes "distinct ns" and "\<And>n. n \<in> set ns \<Longrightarrow> p_vinodes p n \<noteq> None \<and> p_inodes p n \<noteq> None" and "fresh_alloc (p_new_array p)"
    and "recorded H ss (sp_inodes sp) N (sp_pos sp) (ia_heap (p_arr p)) bs" and "set ns \<inter> N = {}"
  shows "(\<exists>sp' I t F. suspend_vinodes ns sp p = Some (Inl ENOMEM, sp', p\<lparr>p_inodes := I, p_arr := t, p_file := F\<rparr>)) \<or>
    (\<exists>pos t cs. suspend_vinodes ns sp p = Some (Inr (), sp\<lparr>sp_pos := pos\<rparr>,
        p\<lparr>p_inodes := all_suspended (set ns) p, p_arr := t, p_file := all_forgotten (set ns) p\<rparr>) \<and>
      recorded H ss (sp_inodes sp) (N \<union> set ns) pos (ia_heap t) cs \<and> (\<forall>n. n \<notin> set ns \<longrightarrow> pos n = sp_pos sp n))"
  using assms
proof (induction ns arbitrary: sp p N bs)
  case Nil
  have "all_suspended {} p = p_inodes p" "all_forgotten {} p = p_file p"
    by (simp_all add: all_suspended_def all_forgotten_def fun_eq_iff)
  then show ?case
    using Nil.prems(4) by (intro disjI2 exI [of _ "sp_pos sp"] exI [of _ "p_arr p"] exI [of _ bs]) simp
next
  case (Cons n ns)
  note N = Cons.prems(5) and all = Cons.prems(2)
  obtain v i where v: "p_vinodes p n = Some v" "p_inodes p n = Some i"
    using Cons.prems(2) [of n] by auto
  have n: "n \<notin> N" "n \<notin> set ns" "distinct ns"
    using Cons.prems(1,5) by auto
  let ?I = "(p_inodes p)(n := map_option (suspended_inode v) (p_inodes p n))"
  let ?F = "(p_file p)(n := forget_blocks (p_file p n))"
  from recorded_add [OF Cons.prems(4) n(1) Cons.prems(3)] show ?case
  proof (elim disjE exE conjE)
    fix x t cs
    assume add: "inode_array_add (p_new_array p) (sp_inodes sp) n (p_arr p) = Some (Inr x, t)"
      and rec: "recorded H ss (sp_inodes sp) (insert n N) ((sp_pos sp)(n \<mapsto> x)) (ia_heap t) cs"
    let ?sp = "sp\<lparr>sp_pos := (sp_pos sp)(n \<mapsto> x)\<rparr>" and ?p = "p\<lparr>p_inodes := ?I, p_arr := t, p_file := ?F\<rparr>"
    have step: "suspend_vinodes (n # ns) sp p = suspend_vinodes ns ?sp ?p"
      using v add by (simp add: vinode_suspend_def upd_inode_def)
    have "recorded H ss (sp_inodes ?sp) (insert n N) (sp_pos ?sp) (ia_heap (p_arr ?p)) cs"
      using rec by simp
    note IH = Cons.IH [OF n(3) _ _ this]
    have "(\<exists>sp' I t F. suspend_vinodes ns ?sp ?p = Some (Inl ENOMEM, sp', ?p\<lparr>p_inodes := I, p_arr := t, p_file := F\<rparr>)) \<or>
      (\<exists>pos t cs. suspend_vinodes ns ?sp ?p = Some (Inr (), ?sp\<lparr>sp_pos := pos\<rparr>,
          ?p\<lparr>p_inodes := all_suspended (set ns) ?p, p_arr := t, p_file := all_forgotten (set ns) ?p\<rparr>) \<and>
        recorded H ss (sp_inodes ?sp) (insert n N \<union> set ns) pos (ia_heap t) cs \<and> (\<forall>m. m \<notin> set ns \<longrightarrow> pos m = sp_pos ?sp m))"
      by (rule IH) (use all N n Cons.prems(3) v in auto)
    from this [unfolded all_suspended_insert [OF v(1) n(2)] all_forgotten_insert [OF n(2)]]
    show ?thesis
      unfolding step
    proof (elim disjE exE conjE)
      fix pos u ds
      assume "suspend_vinodes ns ?sp ?p = Some (Inr (), ?sp\<lparr>sp_pos := pos\<rparr>,
            ?p\<lparr>p_inodes := all_suspended (insert n (set ns)) p, p_arr := u, p_file := all_forgotten (insert n (set ns)) p\<rparr>)"
        "recorded H ss (sp_inodes ?sp) (insert n N \<union> set ns) pos (ia_heap u) ds" "\<forall>m. m \<notin> set ns \<longrightarrow> pos m = sp_pos ?sp m"
      then show "(\<exists>sp' I t F. suspend_vinodes ns ?sp ?p = Some (Inl ENOMEM, sp', p\<lparr>p_inodes := I, p_arr := t, p_file := F\<rparr>)) \<or>
        (\<exists>pos t cs. suspend_vinodes ns ?sp ?p = Some (Inr (), sp\<lparr>sp_pos := pos\<rparr>,
            p\<lparr>p_inodes := all_suspended (set (n # ns)) p, p_arr := t, p_file := all_forgotten (set (n # ns)) p\<rparr>) \<and>
          recorded H ss (sp_inodes sp) (N \<union> set (n # ns)) pos (ia_heap t) cs \<and> (\<forall>m. m \<notin> set (n # ns) \<longrightarrow> pos m = sp_pos sp m))"
        by (intro disjI2 exI [of _ pos] exI [of _ u] exI [of _ ds]) simp
    qed auto
  next
    assume "inode_array_add (p_new_array p) (sp_inodes sp) n (p_arr p) = Some (Inl 12, p_arr p)"
    then have "suspend_vinodes (n # ns) sp p = Some (Inl ENOMEM, sp, p\<lparr>p_inodes := ?I, p_arr := p_arr p, p_file := p_file p\<rparr>)"
      using v by (simp add: vinode_suspend_def upd_inode_def)
    then show ?thesis
      by blast
  qed
qed

section \<open>All inodes come back\<close>

lemma unregister_step:
  assumes "chain (ia_heap t) as p s" and "a \<in> set as" and "slot_at (ia_heap t) (a, i) = Some v"
  shows "\<exists>t'. inode_array_unregister a i t = Some t' \<and> slot_at (ia_heap t') = (slot_at (ia_heap t))((a, i) := None) \<and>
    chain (ia_heap t') as p s \<and> (\<forall>b. b \<noteq> a \<longrightarrow> ia_heap t' b = ia_heap t b)"
proof -
  obtain t0 where t0: "inode_array_unregister a i (tx_begin (ia_heap t)) = Some t0"
    "slot_at (ia_heap t0) = (slot_at (ia_heap t))((a, i) := None)" "chain (ia_heap t0) as p s"
    using inode_array_unregister_ok [OF assms] by (auto simp: tx_commit_def)
  moreover obtain t' where "inode_array_unregister a i t = Some t'" "ia_heap t' = ia_heap t0" "\<forall>b. b \<noteq> a \<longrightarrow> ia_heap t' b = ia_heap t b"
    using t0(1) by (auto simp: inode_array_unregister_def tx_begin_def tx_add_def upd_array_def Let_def split: option.splits)
  ultimately show ?thesis
    by auto
qed

lemma recorded_remove:
  assumes rec: "recorded H ss r N pos (ia_heap t) bs" and n: "n \<in> N"
  obtains a i t' where "pos n = Some (a, i)" and "inode_array_unregister a i t = Some t'"
    and "recorded H ss r (N - {n}) pos (ia_heap t') bs"
proof -
  note R = recordedD [OF rec]
  obtain a i where x: "pos n = Some (a, i)" "a \<in> set bs" "slot_at H (a, i) = None" "slot_at (ia_heap t) (a, i) = Some n"
    using R(6) [OF n] by auto
  obtain t' where t': "inode_array_unregister a i t = Some t'" "slot_at (ia_heap t') = (slot_at (ia_heap t))((a, i) := None)"
    "chain (ia_heap t') bs None (Some r)" "\<forall>b. b \<noteq> a \<longrightarrow> ia_heap t' b = ia_heap t b"
    using unregister_step [OF R(1) x(2,4)] by blast
  have "\<exists>x. pos m = Some x \<and> fst x \<in> set bs \<and> slot_at H x = None \<and> slot_at (ia_heap t') x = Some m" if "m \<in> N - {n}" for m
    using R(6) [of m] that x(4) t'(2) by fastforce
  moreover have "slot_at (ia_heap t') x = slot_at H x" if "\<And>m. m \<in> N - {n} \<Longrightarrow> pos m \<noteq> Some x" for x
  proof (cases "x = (a, i)")
    case True
    then show ?thesis
      using t'(2) x(3) by simp
  next
    case False
    then have "pos m \<noteq> Some x" if "m \<in> N" for m
      using that \<open>\<And>m. m \<in> N - {n} \<Longrightarrow> pos m \<noteq> Some x\<close> [of m] x(1) by (cases "m = n") auto
    then show ?thesis
      using R(7) [of x] False t'(2) by simp
  qed
  moreover have "ia_heap t' b = H b" if "b \<notin> set bs" for b
    using that t'(4) x(2) R(5) [OF that] by (cases "b = a") simp_all
  ultimately have "recorded H ss r (N - {n}) pos (ia_heap t') bs"
    using R(2-4) t'(3) unfolding recorded_def by blast
  then show thesis
    by (rule that [OF x(1) t'(1)])
qed

definition all_back :: "nat set \<Rightarrow> (nat \<Rightarrow> inode option) \<Rightarrow> nat \<Rightarrow> inode option" where
  "all_back N I n = (if n \<in> N then map_option (\<lambda>i. i\<lparr>suspended_references := suspended_references i - 1\<rparr>) (I n) else I n)"

lemma resume_inodes_ok:
  assumes "distinct ns" and "set ns \<subseteq> N" and "recorded H ss r N (sp_pos sp) (ia_heap (p_arr p)) bs"
    and "\<And>n. n \<in> set ns \<Longrightarrow> \<exists>i. p_inodes p n = Some i \<and> suspended_references i \<noteq> 0"
  shows "\<exists>t. for_inodes (inode_resume sp) ns p = Some (p\<lparr>p_inodes := all_back (set ns) (p_inodes p), p_arr := t\<rparr>) \<and>
    recorded H ss r (N - set ns) (sp_pos sp) (ia_heap t) bs"
  using assms
proof (induction ns arbitrary: N p)
  case Nil
  have "all_back {} (p_inodes p) = p_inodes p"
    by (simp add: all_back_def fun_eq_iff)
  then show ?case
    using Nil.prems(3) by (intro exI [of _ "p_arr p"]) simp
next
  case (Cons n ns)
  obtain i where i: "p_inodes p n = Some i" "suspended_references i \<noteq> 0"
    using Cons.prems(4) [of n] by auto
  obtain a k t where t: "sp_pos sp n = Some (a, k)" "inode_array_unregister a k (p_arr p) = Some t"
      "recorded H ss r (N - {n}) (sp_pos sp) (ia_heap t) bs"
    by (rule recorded_remove [OF Cons.prems(3), of n]) (use Cons.prems(2) in simp_all)
  let ?p = "p\<lparr>p_inodes := (p_inodes p)(n \<mapsto> i\<lparr>suspended_references := suspended_references i - 1\<rparr>), p_arr := t\<rparr>"
  have step: "for_inodes (inode_resume sp) (n # ns) p = for_inodes (inode_resume sp) ns ?p"
    using i t(1,2) by (simp add: inode_resume_def upd_inode_def)
  have "\<exists>t. for_inodes (inode_resume sp) ns ?p = Some (?p\<lparr>p_inodes := all_back (set ns) (p_inodes ?p), p_arr := t\<rparr>) \<and>
      recorded H ss r (N - {n} - set ns) (sp_pos sp) (ia_heap t) bs"
    by (rule Cons.IH) (use Cons.prems(1,2,4) t(3) in auto)
  moreover have "all_back (set ns) (p_inodes ?p) = all_back (set (n # ns)) (p_inodes p)"
    using Cons.prems(1) i(1) by (auto simp: all_back_def fun_eq_iff)
  moreover have "N - {n} - set ns = N - set (n # ns)"
    by auto
  ultimately show ?case
    unfolding step by auto
qed

definition all_fresh :: "nat set \<Rightarrow> pool \<Rightarrow> nat \<Rightarrow> vnode option" where
  "all_fresh N p n =
     (if n \<in> N then map_option (\<lambda>v. v\<lparr>v_atime_dirty := False, v_atime := inode_get_atime (the (p_inodes p n))\<rparr>) (p_vinodes p n) else p_vinodes p n)"

lemma resume_vinodes_ok:
  assumes "distinct ns" and "\<And>n. n \<in> set ns \<Longrightarrow> p_inodes p n \<noteq> None"
  shows "for_inodes vinode_resume ns p = Some (p\<lparr>p_vinodes := all_fresh (set ns) p\<rparr>)"
  using assms
proof (induction ns arbitrary: p)
  case Nil
  have "all_fresh {} p = p_vinodes p"
    by (simp add: all_fresh_def fun_eq_iff)
  then show ?case
    by simp
next
  case (Cons n ns)
  obtain i where i: "p_inodes p n = Some i"
    using Cons.prems(2) [of n] by auto
  let ?p = "upd_vnode n (\<lambda>v. v\<lparr>v_atime_dirty := False, v_atime := inode_get_atime i\<rparr>) p"
  have "for_inodes vinode_resume (n # ns) p = for_inodes vinode_resume ns ?p"
    using i by (simp add: vinode_resume_def)
  also have "\<dots> = Some (?p\<lparr>p_vinodes := all_fresh (set ns) ?p\<rparr>)"
    by (rule Cons.IH) (use Cons.prems in \<open>auto simp: upd_vnode_def\<close>)
  also have "\<dots> = Some (p\<lparr>p_vinodes := all_fresh (set (n # ns)) p\<rparr>)"
    using Cons.prems(1) i by (auto simp: all_fresh_def upd_vnode_def fun_eq_iff)
  finally show ?case .
qed

section \<open>There and back again\<close>

lemma chain_cong: "(\<And>a. a \<in> set as \<Longrightarrow> h' a = h a) \<Longrightarrow> chain h' as p s = chain h as p s"
  by (induction as arbitrary: p s) (auto split: option.splits)

lemma orphans_ok_frame:
  assumes "orphans_ok I V H r" and "\<And>as a. chain H as None (Some r) \<Longrightarrow> a \<in> set as \<Longrightarrow> H' a = H a"
  shows "orphans_ok I V H' r"
proof -
  obtain as where as: "chain H as None (Some r)" "distinct as" "registered (set as) I V H"
    using assms(1) by (auto simp: orphans_ok_def)
  have same: "H' a = H a" if "a \<in> set as" for a
    by (rule assms(2) [OF as(1) that])
  have slot: "slot_at H' (a, k) = slot_at H (a, k)" if "a \<in> set as" for a k
    using same [OF that] by (simp add: slot_at_def)
  have "registered (set as) I V H'"
  proof (rule registeredI)
    show "fst pos \<in> set as \<and> slot_at H' pos = Some n" if "V n = Some v" "v_orphaned v = Some pos" for n v pos
      using registeredD(1) [OF as(3) that] slot [of "fst pos" "snd pos"] by simp
    show "\<exists>v i. V n = Some v \<and> v_orphaned v = Some (a, k) \<and> I n = Some i \<and> inode_get_nlink i = 0"
      if "a \<in> set as" "slot_at H' (a, k) = Some n" for a k n
      using registeredD(2) [OF as(3) that(1)] that slot by simp
  qed
  then show ?thesis
    using as(1,2) chain_cong [of as H' H] same unfolding orphans_ok_def by (intro exI [of _ as]) simp
qed

lemma refs_ok_retimed:
  assumes "refs_ok V tot" and V': "\<And>n. V' n = map_option (g n) (V n)" and g: "\<And>n v. v_ref (g n v) = v_ref v \<and> v_parent (g n v) = v_parent v"
  shows "refs_ok V' tot"
proof -
  have "kids V' n = kids V n" for n
    using g by (auto simp: kids_def V')
  moreover have "dom V' = dom V"
    by (auto simp: V' dom_def)
  ultimately show ?thesis
    using refs_okD [OF assms(1)] g by (intro refs_okI) (auto simp: V')
qed

text \<open>The inodes with the access times that were not written back yet.\<close>

definition written_back :: "pool \<Rightarrow> nat \<Rightarrow> inode option" where
  "written_back p n =
     (case p_vinodes p n of
        None \<Rightarrow> p_inodes p n
      | Some v \<Rightarrow> map_option (\<lambda>i. if v_atime_dirty v then i\<lparr>i_atime := (i_atime i)(sl_atime (slots i) := v_atime v)\<rparr> else i) (p_inodes p n))"

lemma written_back_alike: "rel_option alike (p_inodes p n) (written_back p n)"
proof -
  have "same_inode i (i\<lparr>i_atime := at\<rparr>)" for i at
    unfolding same_inode_def by (intro exI [of _ at] exI [of _ "sl_atime (slots i)"]) simp
  then have "alike i (i\<lparr>i_atime := at\<rparr>)" for i at
    by (rule same_inode_alike)
  then show ?thesis
    by (cases "p_vinodes p n"; cases "p_inodes p n") (simp_all add: written_back_def)
qed

lemma back_suspended:
  assumes "\<And>n i. p_inodes p n = Some i \<Longrightarrow> suspended_references i = 0" and "set ns = dom (p_vinodes p)"
  shows "all_back (set ns) (all_suspended (set ns) p) = written_back p"
proof
  fix n
  show "all_back (set ns) (all_suspended (set ns) p) n = written_back p n"
  proof (cases "p_vinodes p n")
    case None
    then have "n \<notin> set ns"
      using assms(2) by auto
    then show ?thesis
      using None by (simp add: all_back_def all_suspended_def written_back_def)
  next
    case (Some v)
    then have "n \<in> set ns"
      using assms(2) by auto
    then show ?thesis
      using Some assms(1) [of n]
      by (cases "p_inodes p n") (auto simp: all_back_def all_suspended_def written_back_def suspended_inode_def u32_def W32_def Let_def)
  qed
qed

text \<open>The arrays of the suspended inodes are apart from those of the orphaned ones.\<close>

definition suspension_ok :: "suspension \<Rightarrow> pool \<Rightarrow> nat list \<Rightarrow> bool" where
  "suspension_ok sp p ss \<longleftrightarrow> chain (ia_heap (p_arr p)) ss None (Some (sp_inodes sp)) \<and> distinct ss \<and>
     (\<forall>as. chain (ia_heap (p_arr p)) as None (Some (p_orphaned p)) \<longrightarrow> set as \<inter> set ss = {})"

lemma recorded_apart:
  assumes "recorded H ss r N pos H' bs" and "chain H as q s" and "set as \<inter> set ss = {}" and "a \<in> set as"
  shows "H' a = H a"
proof -
  have "H a \<noteq> None"
    using chain_mem [OF assms(2,4)] by auto
  moreover have "a \<notin> set ss"
    using assms(3,4) by auto
  ultimately have "a \<notin> set bs"
    using recordedD(4) [OF assms(1)] by metis
  then show ?thesis
    by (rule recordedD(5) [OF assms(1)])
qed

lemma resumed_pool_ok:
  assumes ok: "pool_ok p ext" and sp: "suspension_ok sp p ss" and rec: "recorded (ia_heap (p_arr p)) ss (sp_inodes sp) N pos H' bs"
    and V: "\<And>n. V' n = map_option (g n) (p_vinodes p n)" and g: "\<And>n v. v_ref (g n v) = v_ref v \<and> v_parent (g n v) = v_parent v \<and> v_orphaned (g n v) = v_orphaned v"
  shows "pool_ok (p\<lparr>p_file := F, p_conf := c, p_inodes := written_back p, p_arr := tx_begin H', p_vinodes := V'\<rparr>) ext"
proof -
  let ?H = "ia_heap (p_arr p)"
  have ns: "ns_inv (p_inodes p) (p_dir p) (p_vinodes p) ?H (p_orphaned p) (\<lambda>n. ext n + pool_refs p n)"
    using ok by (simp add: pool_ok_def pool_inv_def)
  have "rel_option same_vnode (p_vinodes p n) (V' n)" for n
    using g by (auto simp: V rel_option_iff same_vnode_def split: option.splits)
  moreover have "refs_ok V' (\<lambda>n. ext n + pool_refs p n)"
    by (rule refs_ok_retimed [OF ns_invD(1) [OF ns] V]) (use g in blast)
  ultimately have "ns_inv (written_back p) (p_dir p) V' ?H (p_orphaned p) (\<lambda>n. ext n + pool_refs p n)"
    by (intro ns_inv_same [OF ns written_back_alike])
  moreover have "orphans_ok (written_back p) V' H' (p_orphaned p)"
    if "orphans_ok (written_back p) V' ?H (p_orphaned p)"
  proof (rule orphans_ok_frame [OF that])
    fix as a
    assume as: "chain ?H as None (Some (p_orphaned p))" and a: "a \<in> set as"
    have "set as \<inter> set ss = {}"
      using sp as by (simp add: suspension_ok_def)
    then show "H' a = ?H a"
      by (rule recorded_apart [OF rec as _ a])
  qed
  ultimately have "ns_inv (written_back p) (p_dir p) V' H' (p_orphaned p) (\<lambda>n. ext n + pool_refs p n)"
    unfolding ns_inv_def by blast
  moreover have "\<exists>j. written_back p n = Some j \<and> inode_is_dir j \<and> inode_get_nlink j \<noteq> 0"
    if "p_inodes p n = Some i" "inode_is_dir i" "inode_get_nlink i \<noteq> 0" for n i
    using written_back_alike [of p n] that by (auto simp: rel_option_iff alike_simps)
  ultimately show ?thesis
    using ok by (simp add: pool_ok_def pool_inv_def pool_refs_def tx_begin_def) blast
qed

lemma pool_ok_refs:
  assumes "pool_ok p ext" and "p_inodes p n = Some i"
  shows "suspended_references i = 0"
  using assms ns_invD(3) [of "p_inodes p" "p_dir p" "p_vinodes p"] by (auto simp: pool_ok_def pool_inv_def inode_ok_def)

lemma pool_ok_live:
  assumes "pool_ok p ext" and "n \<in> dom (p_vinodes p)"
  shows "p_vinodes p n \<noteq> None \<and> p_inodes p n \<noteq> None"
  using assms ns_inv_inode [of "p_inodes p" "p_dir p" "p_vinodes p"] by (fastforce simp: pool_ok_def pool_inv_def)

definition suspended_pool :: "pool \<Rightarrow> nat set \<Rightarrow> (nat \<Rightarrow> inode_array option) \<Rightarrow> pool" where
  "suspended_pool p N h = p\<lparr>p_inodes := all_suspended N p, p_arr := tx_begin h, p_file := all_forgotten N p\<rparr>"

lemma suspend_cases:
  assumes ok: "pool_ok p ext" and fresh: "fresh_alloc (p_new_array p)" and sp: "suspension_ok sp p ss"
    and ns: "distinct ns" "set ns = dom (p_vinodes p)"
  obtains (abort) sp1 p1 where "pmemfile_pool_suspend ns sp p = Some (Inl ENOMEM, sp1, p1)" and "p_inodes p1 = p_inodes p"
      and "p_vinodes p1 = p_vinodes p" and "p_dir p1 = p_dir p" and "p_symlink p1 = p_symlink p"
    | (all) pos h cs where "pmemfile_pool_suspend ns sp p = Some (Inr (), sp\<lparr>sp_pos := pos\<rparr>, suspended_pool p (set ns) h)"
      and "recorded (ia_heap (p_arr p)) ss (sp_inodes sp) (set ns) pos h cs"
proof -
  let ?H = "ia_heap (p_arr p)" and ?p = "p\<lparr>p_arr := tx_begin (ia_heap (p_arr p))\<rparr>"
  have heap: "ia_heap (p_arr ?p) = ?H" "all_suspended N ?p = all_suspended N p" "all_forgotten N ?p = all_forgotten N p" for N
    by (simp_all add: tx_begin_def all_suspended_def all_forgotten_def fun_eq_iff)
  have "recorded ?H ss (sp_inodes sp) {} (sp_pos sp) (ia_heap (p_arr ?p)) ss"
    unfolding heap using sp by (intro recorded_start) (simp_all add: suspension_ok_def)
  from suspend_vinodes_ok [OF ns(1) _ _ this, unfolded heap] pool_ok_live [OF ok] ns(2) fresh
  consider (1) sp' I t F where "suspend_vinodes ns sp ?p = Some (Inl ENOMEM, sp', ?p\<lparr>p_inodes := I, p_arr := t, p_file := F\<rparr>)"
    | (2) pos t cs where "suspend_vinodes ns sp ?p = Some (Inr (), sp\<lparr>sp_pos := pos\<rparr>,
        ?p\<lparr>p_inodes := all_suspended (set ns) p, p_arr := t, p_file := all_forgotten (set ns) p\<rparr>)"
      "recorded ?H ss (sp_inodes sp) (set ns) pos (ia_heap t) cs"
    by auto
  then show thesis
  proof cases
    case 1
    then have "pmemfile_pool_suspend ns sp p =
        Some (Inl ENOMEM, sp', p\<lparr>p_file := F, p_inodes := p_inodes p, p_arr := tx_begin (tx_abort t)\<rparr>)"
      by (simp add: pmemfile_pool_suspend_def)
    then show thesis
      by (rule abort) simp_all
  next
    case 2
    then show thesis
      by (intro all [of pos "ia_heap t" cs]) (simp_all add: pmemfile_pool_suspend_def suspended_pool_def tx_commit_def)
  qed
qed

lemma suspended_one:
  assumes "pool_ok p ext" and "n \<in> N" and "N = dom (p_vinodes p)"
  shows "\<exists>i. all_suspended N p n = Some i \<and> suspended_references i = 1"
proof -
  obtain v i where v: "p_vinodes p n = Some v" "p_inodes p n = Some i"
    using pool_ok_live [OF assms(1), of n] assms(2,3) by auto
  then show ?thesis
    using assms(2) pool_ok_refs [OF assms(1) v(2)]
    by (cases "v_atime_dirty v") (simp_all add: all_suspended_def suspended_inode_def u32_def W32_def Let_def)
qed

text \<open>Resuming in any order, with the store as it was left.\<close>

lemma resume_ok:
  assumes ok: "pool_ok p ext" and sp: "suspension_ok sp p ss" and ns: "distinct ns" "set ns = dom (p_vinodes p)" and opens: "opens k"
    and rec: "recorded (ia_heap (p_arr p)) ss (sp_inodes sp) (set ns) pos h cs"
  obtains p2 where "pmemfile_pool_resume opens ctl_set class_id None ns (sp\<lparr>sp_pos := pos\<rparr>) (suspended_pool p (set ns) h) =
      Some (Inr (), sp\<lparr>sp_pos := \<lambda>n. if n \<in> set ns then None else pos n\<rparr>, p2)"
    and "pool_ok p2 ext" and "p_inodes p2 = written_back p" and "p_dir p2 = p_dir p" and "p_symlink p2 = p_symlink p"
    and "slot_at (ia_heap (p_arr p2)) = slot_at (ia_heap (p_arr p))"
proof -
  let ?H = "ia_heap (p_arr p)" and ?sp = "sp\<lparr>sp_pos := pos\<rparr>"
  define p1 where "p1 = suspended_pool p (set ns) h"
  define c where "c = snd (initialize_alloc_classes ctl_set class_id (p_conf p1))"
  let ?q = "p1\<lparr>p_conf := c, p_arr := tx_begin (ia_heap (p_arr p1))\<rparr>"
  have "recorded ?H ss (sp_inodes sp) (set ns) (sp_pos ?sp) (ia_heap (p_arr ?q)) cs"
    using rec by (simp add: p1_def suspended_pool_def tx_begin_def)
  moreover have "\<exists>i. p_inodes ?q n = Some i \<and> suspended_references i \<noteq> 0" if "n \<in> set ns" for n
    using suspended_one [OF ok that ns(2)] by (auto simp: p1_def suspended_pool_def)
  ultimately obtain u where u: "for_inodes (inode_resume ?sp) ns ?q = Some (?q\<lparr>p_inodes := all_back (set ns) (p_inodes ?q), p_arr := u\<rparr>)"
      "recorded ?H ss (sp_inodes sp) {} pos (ia_heap u) cs"
    using resume_inodes_ok [OF ns(1) order.refl, of ?H ss "sp_inodes sp" ?sp ?q cs] by auto
  have I: "all_back (set ns) (p_inodes p1) = written_back p"
    using back_suspended [OF pool_ok_refs [OF ok] ns(2)] by (simp add: p1_def suspended_pool_def)
  define p2 where "p2 = ?q\<lparr>p_inodes := written_back p, p_arr := tx_begin (ia_heap u)\<rparr>"
  have "written_back p n \<noteq> None" if "n \<in> set ns" for n
    using written_back_alike [of p n] pool_ok_live [OF ok, of n] that ns(2) by (auto simp: rel_option_iff)
  then have v: "for_inodes vinode_resume ns p2 = Some (p2\<lparr>p_vinodes := all_fresh (set ns) p2\<rparr>)"
    by (intro resume_vinodes_ok [OF ns(1)]) (simp add: p2_def)
  obtain m where "wait_open opens 0 = Some m"
    using wait_open_ends [of opens k 0] opens by auto
  then have r: "pmemfile_pool_resume opens ctl_set class_id None ns ?sp p1 =
      Some (Inr (), sp\<lparr>sp_pos := \<lambda>n. if n \<in> set ns then None else pos n\<rparr>, p2\<lparr>p_vinodes := all_fresh (set ns) p2\<rparr>)"
    using u(1) v by (simp add: pmemfile_pool_resume_def c_def [symmetric] I p2_def tx_commit_def Let_def cong del: if_weak_cong)
  have V: "all_fresh (set ns) p2 n =
      map_option (\<lambda>v. v\<lparr>v_atime_dirty := False, v_atime := inode_get_atime (the (written_back p n))\<rparr>) (p_vinodes p n)" for n
    using ns(2) by (cases "p_vinodes p n") (auto simp: all_fresh_def p2_def p1_def suspended_pool_def)
  have "pool_ok (p\<lparr>p_file := all_forgotten (set ns) p, p_conf := c, p_inodes := written_back p, p_arr := tx_begin (ia_heap u),
      p_vinodes := all_fresh (set ns) p2\<rparr>) ext"
    by (rule resumed_pool_ok [OF ok sp u(2) V]) simp
  then have "pool_ok (p2\<lparr>p_vinodes := all_fresh (set ns) p2\<rparr>) ext"
    by (simp add: p2_def p1_def suspended_pool_def)
  moreover have "slot_at (ia_heap u) = slot_at ?H"
    using recordedD(7) [OF u(2)] by (intro HOL.ext) simp
  ultimately show thesis
    by (intro that [OF r [unfolded p1_def]]) (simp_all add: p1_def p2_def suspended_pool_def tx_begin_def)
qed


section \<open>A file without a name\<close>

lemma dir_ok_akin:
  assumes I: "\<And>m. rel_option (\<lambda>i j. inode_is_dir j = inode_is_dir i \<and> inode_get_nlink j = inode_get_nlink i) (I m) (I' m)"
    and "inode_get_nlink j = inode_get_nlink i" and ok: "dir_ok I D n i"
  shows "dir_ok I' D n j"
proof -
  have "dots (d_inode d) n (D (d_inode d))"
    if "d \<in> set (concat (D n))" "d_name d \<noteq> ''.''" "d_name d \<noteq> ''..''" "I' (d_inode d) = Some k" "inode_is_dir k" for d k
    using that I [of "d_inode d"] ok by (auto simp: dir_ok_def rel_option_iff)
  moreover have "dirent_ok I' d" if "dirent_ok I d" for d
    using that I [of "d_inode d"] by (auto simp: dirent_ok_def rel_option_iff)
  ultimately show ?thesis
    using ok assms(2) unfolding dir_ok_def by auto
qed

lemma suspended_inode_simps [simp]:
  "i_version (suspended_inode v i) = i_version i" "inode_is_dir (suspended_inode v i) = inode_is_dir i"
  "inode_is_regular_file (suspended_inode v i) = inode_is_regular_file i" "inode_is_symlink (suspended_inode v i) = inode_is_symlink i"
  "inode_get_nlink (suspended_inode v i) = inode_get_nlink i"
  by (simp_all add: suspended_inode_def Let_def inode_get_defs inode_is_dir_def inode_is_regular_file_def inode_is_symlink_def)

lemma suspended_akin:
  "rel_option (\<lambda>i j. inode_is_dir j = inode_is_dir i \<and> inode_get_nlink j = inode_get_nlink i) (p_inodes p m) (all_suspended N p m)"
  by (cases "p_inodes p m") (simp_all add: all_suspended_def)

lemma suspended_image:
  assumes ok: "pool_ok p ext" and sp: "suspension_ok sp p ss" and rec: "recorded (ia_heap (p_arr p)) ss (sp_inodes sp) N pos h cs"
  obtains as where "chain h as None (Some (p_orphaned p))" and "distinct as" and "image_ok (all_suspended N p) (p_dir p) h as"
proof -
  let ?H = "ia_heap (p_arr p)" and ?I = "all_suspended N p"
  obtain as where as: "chain ?H as None (Some (p_orphaned p))" "distinct as" and img: "image_ok (p_inodes p) (p_dir p) ?H as"
    using ok pool_inv_image by (metis pool_ok_def)
  note img = image_okD [OF img]
  have apart: "set as \<inter> set ss = {}"
    using sp as(1) by (simp add: suspension_ok_def)
  have same: "h a = ?H a" if "a \<in> set as" for a
    by (rule recorded_apart [OF rec as(1) apart that])
  have slot: "slot_at h (a, k) = slot_at ?H (a, k)" if "a \<in> set as" for a k
    using same [OF that] by (simp add: slot_at_def)
  have "chain h as None (Some (p_orphaned p))"
    using as(1) chain_cong [of as h ?H] same by simp
  moreover have "?I 0 = None"
    using img(1) by (simp add: all_suspended_def)
  moreover have "inode_shape j \<and> (inode_is_dir j \<longrightarrow> dir_ok ?I (p_dir p) n j)" if j: "?I n = Some j" for n j
  proof -
    obtain i where i: "p_inodes p n = Some i" "j = i \<or> j = suspended_inode (the (p_vinodes p n)) i"
      using j by (auto simp: all_suspended_def split: if_splits)
    then have "inode_shape j" "inode_is_dir j = inode_is_dir i" "inode_get_nlink j = inode_get_nlink i"
      using img(2) [OF i(1)] by (auto simp: inode_shape_def)
    then show ?thesis
      using img(3) [OF i(1)] dir_ok_akin [of "p_inodes p" ?I, OF suspended_akin] by simp
  qed
  moreover have "(\<exists>j. ?I n = Some j \<and> inode_get_nlink j = 0) \<longleftrightarrow> (\<exists>a \<in> set as. \<exists>k. slot_at h (a, k) = Some n)" for n
    using img(4) [of n] suspended_akin [of p n N] slot by (auto simp: rel_option_iff)
  moreover have "(a, j) = (b, k)" if "a \<in> set as" "b \<in> set as" "slot_at h (a, j) = Some n" "slot_at h (b, k) = Some n" for a b j k n
    using img(5) that slot by simp
  ultimately have "image_ok ?I (p_dir p) h as" "chain h as None (Some (p_orphaned p))"
    unfolding image_ok_def by blast+
  then show thesis
    by (intro that [of as] as(2))
qed

lemma suspend_room:
  assumes "ia_heap (p_arr p) (sp_inodes sp) = Some r" and "arr_ok r" and "ia_used r + length ns \<le> NUMINODES_PER_ENTRY"
    and "distinct ns" and "\<And>n. n \<in> set ns \<Longrightarrow> p_vinodes p n \<noteq> None \<and> p_inodes p n \<noteq> None"
  shows "\<exists>sp' p'. suspend_vinodes ns sp p = Some (Inr (), sp', p') \<and> (\<forall>a. a \<noteq> sp_inodes sp \<longrightarrow> ia_heap (p_arr p') a = ia_heap (p_arr p) a)"
  using assms
proof (induction ns arbitrary: sp p r)
  case (Cons n ns)
  obtain v i where v: "p_vinodes p n = Some v" "p_inodes p n = Some i"
    using Cons.prems(5) [of n] by auto
  have "ia_used r < NUMINODES_PER_ENTRY"
    using Cons.prems(3) by simp
  then obtain j where j: "j < length (ia_inodes r)" "ia_inodes r ! j = None" "inode_array_add_single (sp_inodes sp) r n (p_arr p) =
      (Some j, \<lparr>ia_heap = (ia_heap (p_arr p))(sp_inodes sp \<mapsto> with_inode j n r),
        ia_log = Undo_used (sp_inodes sp) (ia_used r) # Undo_slot (sp_inodes sp) j None # ia_log (p_arr p)\<rparr>)"
    using add_here [OF Cons.prems(2,1)] by metis
  let ?t = "snd (inode_array_add_single (sp_inodes sp) r n (p_arr p))"
  let ?p = "p\<lparr>p_inodes := (p_inodes p)(n \<mapsto> suspended_inode v i), p_arr := ?t, p_file := (p_file p)(n := forget_blocks (p_file p n))\<rparr>"
  have "inode_array_add (p_new_array p) (sp_inodes sp) n (p_arr p) = Some (Inr (sp_inodes sp, j), ?t)"
    using Cons.prems(1) \<open>ia_used r < NUMINODES_PER_ENTRY\<close> j(3) by (subst inode_array_add.simps) simp
  then have "suspend_vinodes (n # ns) sp p = suspend_vinodes ns (sp\<lparr>sp_pos := (sp_pos sp)(n \<mapsto> (sp_inodes sp, j))\<rparr>) ?p"
    using v by (simp add: vinode_suspend_def upd_inode_def)
  moreover have "\<exists>sp' p'. suspend_vinodes ns (sp\<lparr>sp_pos := (sp_pos sp)(n \<mapsto> (sp_inodes sp, j))\<rparr>) ?p = Some (Inr (), sp', p') \<and>
      (\<forall>a. a \<noteq> sp_inodes (sp\<lparr>sp_pos := (sp_pos sp)(n \<mapsto> (sp_inodes sp, j))\<rparr>) \<longrightarrow> ia_heap (p_arr p') a = ia_heap (p_arr ?p) a)"
    by (rule Cons.IH [of _ _ "with_inode j n r"])
      (use Cons.prems j with_inode_ok [OF Cons.prems(2) j(1,2), of n] in \<open>auto simp: with_inode_def\<close>)
  ultimately show ?case
    using j(3) by auto
qed simp

lemma resume_freed:
  assumes "p_inodes p n = None" and "n \<in> set ns"
  shows "for_inodes (inode_resume sp) ns p = None"
  using assms
proof (induction ns arbitrary: p)
  case (Cons m ns)
  show ?case
  proof (cases "inode_resume sp m p")
    case (Some q)
    then have "m \<noteq> n" "p_inodes q n = None"
      using Cons.prems(1) by (auto simp: inode_resume_def upd_inode_def split: Option.bind_splits if_splits)
    then show ?thesis
      using Some Cons.IH [of q] Cons.prems(2) by simp
  qed simp
qed simp

text \<open>
  Claim C35. A process has a file open that has no name any more, and suspends the pool. When another process opens the pool meanwhile,
  its clean-up frees the inode, although the inode is recorded as suspended: resuming then uses a freed inode.
\<close>

theorem resume_after_open_uses_freed_inode:
  assumes ok: "pool_ok p ext" and fresh: "fresh_alloc (p_new_array p)" and sp: "suspension_ok sp p ss"
    and ns: "distinct ns" "set ns = dom (p_vinodes p)" and s: "pmemfile_pool_suspend ns sp p = Some (Inr (), sp1, p1)"
    and n: "p_inodes p n = Some i" "inode_get_nlink i = 0"
    and su: "su_root_inode su = p_root p" "su_version su = version" and roots: "distinct (p_root p)"
    and files: "\<And>n i. p_inodes p n = Some i \<Longrightarrow> inode_get_nlink i = 0 \<Longrightarrow> inode_is_regular_file i \<Longrightarrow> \<exists>as. arr_chain (arrays (p_file p n)) as (Some 0)"
    and room: "\<And>h. h \<subseteq>\<^sub>m ia_heap (p_arr p1) \<Longrightarrow> p_new_array p h \<noteq> None"
  shows "\<exists>q j. p_inodes p1 n = Some j \<and> suspended_references j = 1 \<and>
    pmemfile_pool_open ctl_set class_id version tm [] (Inr (Some su, crash p1)) = Some (Inr (su, q)) \<and> p_inodes q n = None \<and>
    pmemfile_pool_resume (\<lambda>_. True) ctl_set class_id None ns sp1
      (p1\<lparr>p_inodes := p_inodes q, p_dir := p_dir q, p_file := p_file q, p_arr := p_arr q, p_orphaned := p_orphaned q\<rparr>) = None"
  using ok fresh sp ns
proof (cases rule: suspend_cases)
  case (all pos h cs)
  have p1: "p1 = suspended_pool p (set ns) h"
    using s all(1) by simp
  have heap: "ia_heap (p_arr p1) = h" "p_orphaned p1 = p_orphaned p" "p_inodes p1 = all_suspended (set ns) p" "p_dir p1 = p_dir p"
    by (simp_all add: p1 suspended_pool_def tx_begin_def)
  have open_n: "n \<in> set ns"
    using ok n ns(2) ns_invD(4) [of "p_inodes p" "p_dir p" "p_vinodes p"] by (fastforce simp: pool_ok_def pool_inv_def)
  obtain as where as: "chain h as None (Some (p_orphaned p))" "distinct as" "image_ok (all_suspended (set ns) p) (p_dir p) h as"
    by (rule suspended_image [OF ok sp all(2)]) (rule that)
  obtain c F h' a where q: "pmemfile_pool_open ctl_set class_id version tm [] (Inr (Some su, crash p1)) =
      Some (Inr (su, (set_up p1 c (p_root p))\<lparr>p_inodes := linked_only (all_suspended (set ns) p), p_file := F, p_arr := tx_begin h', p_orphaned := a\<rparr>))"
  proof (rule open_cleans [of p1 as su, unfolded heap, OF as su _ roots, of ctl_set class_id tm])
    show "p_root p \<noteq> []"
      using ok by (simp add: pool_ok_def)
    show "all_suspended (set ns) p r \<noteq> None" if "r \<in> set (p_root p)" for r
      using ok that by (auto simp: pool_ok_def all_suspended_def)
    show "\<exists>as. arr_chain (arrays (p_file p1 m)) as (Some 0)"
      if "all_suspended (set ns) p m = Some j" "inode_get_nlink j = 0" "inode_is_regular_file j" for m j
    proof -
      have "arrays (p_file p1 m) = arrays (p_file p m)"
        by (simp add: p1 suspended_pool_def all_forgotten_def forget_blocks_def)
      moreover have "\<exists>k. p_inodes p m = Some k \<and> inode_get_nlink k = 0 \<and> inode_is_regular_file k"
        using that by (auto simp: all_suspended_def split: if_splits)
      ultimately show ?thesis
        using files by auto
    qed
    show "p_new_array p1 (h |` (- set as)) \<noteq> None"
      using room [of "h |` (- set as)"] heap(1) by (simp add: p1 suspended_pool_def map_le_def)
  qed (rule that)
  obtain j where j: "all_suspended (set ns) p n = Some j" "suspended_references j = 1" "inode_get_nlink j = 0"
    using suspended_one [OF ok open_n ns(2)] suspended_akin [of p n "set ns"] n by (auto simp: rel_option_iff)
  then have "linked_only (all_suspended (set ns) p) n = None"
    by (simp add: linked_only_def)
  then show ?thesis
    using q j heap(3) resume_freed [OF _ open_n]
    by (auto simp: pmemfile_pool_resume_def Let_def split: Option.bind_splits)
qed (use s in simp)

section \<open>An example\<close>

definition busy2 :: pool where
  "busy2 = busy\<lparr>p_arr := tx_begin (busy_arrays(8 \<mapsto> zero_array))\<rparr>"

definition idle :: suspension where
  "idle = \<lparr>sp_inodes = 8, sp_pos = \<lambda>_. None\<rparr>"

lemma busy2_sel [simp]:
  "p_inodes busy2 = busy_inodes" "p_dir busy2 = busy_dirs" "p_symlink busy2 = (\<lambda>_. [])" "p_file busy2 = (\<lambda>_. new_file)"
  "ia_heap (p_arr busy2) = busy_arrays(8 \<mapsto> zero_array)" "p_orphaned busy2 = 6" "p_vinodes busy2 = busy_vinodes"
  "p_root busy2 = [10, 11, 12, 13]" "p_new_array busy2 = spare_alloc"
  by (simp_all add: busy2_def tx_begin_def)

lemma busy2_ok: "pool_ok busy2 ((\<lambda>_. 0)(5 := 1))"
proof -
  let ?tot = "\<lambda>n. ((\<lambda>_. 0)(5 := 1)) n + pool_refs busy n"
  have ns: "ns_inv busy_inodes busy_dirs busy_vinodes busy_arrays 6 ?tot"
    using busy_ok unfolding pool_ok_def pool_inv_def busy_sel by blast
  have "orphans_ok busy_inodes busy_vinodes (busy_arrays(8 \<mapsto> zero_array)) 6"
  proof (rule orphans_ok_frame [OF ns_invD(7) [OF ns]])
    fix as a
    assume "chain busy_arrays as None (Some 6)" and "a \<in> set as"
    then have "busy_arrays a \<noteq> None"
      using chain_mem by blast
    then show "(busy_arrays(8 \<mapsto> zero_array)) a = busy_arrays a"
      by (auto simp: busy_arrays_def split: if_splits)
  qed
  then have "ns_inv busy_inodes busy_dirs busy_vinodes (busy_arrays(8 \<mapsto> zero_array)) 6 ?tot"
    using ns unfolding ns_inv_def by blast
  then show ?thesis
    using busy_ok by (simp add: pool_ok_def pool_inv_def pool_refs_def busy2_def tx_begin_def)
qed

lemma busy2_suspension: "suspension_ok idle busy2 [8]"
proof -
  have "set as \<inter> {8} = {}" if c: "chain (busy_arrays(8 \<mapsto> zero_array)) as None (Some 6)" for as
  proof (cases as)
    case (Cons b bs)
    then have "b = 6" "chain (busy_arrays(8 \<mapsto> zero_array)) bs (Some 6) None"
      using c by (auto simp: busy_arrays_def zero_array_def)
    then show ?thesis
      using Cons by (cases bs) auto
  qed simp
  moreover have "chain (busy_arrays(8 \<mapsto> zero_array)) [8] None (Some 8)"
    using zero_array_ok(1) by (simp add: zero_array_def)
  ultimately show ?thesis
    by (simp add: suspension_ok_def idle_def)
qed

lemma busy2_dom: "set [5, 10, 11, 12, 13] = dom (p_vinodes busy2)"
  by (auto simp: busy_vinodes_def split: if_splits)

lemma busy2_suspended:
  obtains sp1 p1 where "pmemfile_pool_suspend [5, 10, 11, 12, 13] idle busy2 = Some (Inr (), sp1, p1)" and "ia_heap (p_arr p1) 1 = None"
proof -
  let ?p = "busy2\<lparr>p_arr := tx_begin (ia_heap (p_arr busy2))\<rparr>"
  have "\<exists>sp' p'. suspend_vinodes [5, 10, 11, 12, 13] idle ?p = Some (Inr (), sp', p') \<and>
      (\<forall>a. a \<noteq> sp_inodes idle \<longrightarrow> ia_heap (p_arr p') a = ia_heap (p_arr ?p) a)"
  proof (rule suspend_room [where r = zero_array])
    show "ia_heap (p_arr ?p) (sp_inodes idle) = Some zero_array"
      by (simp add: idle_def tx_begin_def)
    show "p_vinodes ?p n \<noteq> None \<and> p_inodes ?p n \<noteq> None" if "n \<in> set [5, 10, 11, 12, 13]" for n
      using that by (auto simp: busy_vinodes_def busy_inodes_def)
  qed (rule zero_array_ok(1), simp_all add: zero_array_def NUMINODES_PER_ENTRY_def)
  then show thesis
    using that by (auto simp: pmemfile_pool_suspend_def tx_begin_def tx_commit_def idle_def busy_arrays_def)
qed


theorem resume_after_open_uses_freed_inode_witness:
  "\<exists>sp1 p1 q. pmemfile_pool_suspend [5, 10, 11, 12, 13] idle busy2 = Some (Inr (), sp1, p1) \<and>
     pmemfile_pool_open (\<lambda>_ _ _. 0) id (PMEMFILE_SUPER_VERSION 0 2) zero_time [] (Inr (Some busy_super, crash p1)) = Some (Inr (busy_super, q)) \<and>
     p_inodes q 5 = None \<and>
     pmemfile_pool_resume (\<lambda>_. True) (\<lambda>_ _ _. 0) id None [5, 10, 11, 12, 13] sp1
       (p1\<lparr>p_inodes := p_inodes q, p_dir := p_dir q, p_file := p_file q, p_arr := p_arr q, p_orphaned := p_orphaned q\<rparr>) = None"
proof -
  obtain sp1 p1 where s: "pmemfile_pool_suspend [5, 10, 11, 12, 13] idle busy2 = Some (Inr (), sp1, p1)" "ia_heap (p_arr p1) 1 = None"
    by (rule busy2_suspended)
  have chain: "\<exists>as. arr_chain (arrays new_file) as (Some 0)"
    by (rule exI [of _ "[0]"]) (simp add: new_file_def PMEMFILE_IN_INODE_STORAGE_def SIZEOF_BLOCK_ARRAY_def SIZEOF_BLOCK_DESC_def SIZEOF_DIR_def SIZEOF_DIRENT_def
        PMEMFILE_MAX_FILE_NAME_def)
  have room: "spare_alloc h \<noteq> None" if "h \<subseteq>\<^sub>m ia_heap (p_arr p1)" for h
  proof -
    have "h 1 = None"
      using that s(2) by (metis domIff map_le_def)
    then show ?thesis
      by (simp add: spare_alloc_def)
  qed
  have five: "p_inodes busy2 5 = Some (new_inode (PMEMFILE_S_IFREG + 420) 0)"
    by (simp add: busy_inodes_def)
  show ?thesis
    using resume_after_open_uses_freed_inode [OF busy2_ok _ busy2_suspension _ busy2_dom s(1) five, of busy_super "PMEMFILE_SUPER_VERSION 0 2"
        "\<lambda>_ _ _. 0" id zero_time] s(1) chain room spare_alloc_fresh
    by (auto simp: busy_super_def)
qed

end
