(* ===== verification/Getdents.thy ===== *)
theory Getdents
  imports Full_Path File_Inv
begin

text \<open>
  Reading a directory (\<^verbatim>\<open>getdents.c\<close>). A batch of entries is known by its number, and the position of an open directory caches the
  batch it is in. The buffer is the list of bytes that are written to it.
\<close>

section \<open>Definitions\<close>

definition DIR_ID :: "nat \<Rightarrow> nat" where "DIR_ID offset = drop_bit 32 offset"
definition DIRENT_ID :: "nat \<Rightarrow> nat" where "DIRENT_ID offset = offset AND 0xffffffff"


text \<open>An open file with its position as a directory, \<^verbatim>\<open>file->dir_pos\<close>.\<close>

record dir_file = pmemfile_file +
  dp_dir :: "nat option"
  dp_id :: nat

text \<open>
  The second loop of \<^verbatim>\<open>file_seek_dir\<close>: from entry \<open>dirent\<close> of batch \<open>b\<close> to the batch that has it. \<open>None\<close> inside is the end of
  the directory.
\<close>

function seek_batch :: "pmemfile_dirent list list \<Rightarrow> nat \<Rightarrow> nat \<Rightarrow> dir_file \<Rightarrow> (nat \<times> nat) option \<times> dir_file" where
  "seek_batch ds b dirent f =
     (if b < length ds \<and> length (ds ! b) \<le> dirent then
        (if Suc b < length ds
         then seek_batch ds (Suc b) (dirent - length (ds ! b)) (f\<lparr>dp_dir := Some (Suc b), dp_id := u32 (dp_id f + 1)\<rparr>)
         else (None, f))
      else (Some (b, dirent), f\<lparr>f_offset := push_bit 32 (dp_id f) OR dirent\<rparr>))"
  by pat_completeness auto

termination
  by (relation "measure (\<lambda>(ds, b, _, _). length ds - b)") auto

declare seek_batch.simps [simp del]

text \<open>A batch that the cache names and the directory does not have is a dangling pointer.\<close>

definition file_seek_dir :: "pmemfile_dirent list list \<Rightarrow> dir_file \<Rightarrow> ((nat \<times> nat) option \<times> dir_file) option" where
  "file_seek_dir ds f =
     (let dirent = DIRENT_ID (f_offset f) in
      if f_offset f = 0 then Some (seek_batch ds 0 dirent (f\<lparr>dp_dir := Some 0, dp_id := 0\<rparr>))
      else if DIR_ID (f_offset f) = dp_id f then
        (case dp_dir f of
           None \<Rightarrow> Some (None, f)
         | Some b \<Rightarrow> if b < length ds then Some (seek_batch ds b dirent f) else None)
      else if DIR_ID (f_offset f) < length ds
      then Some (seek_batch ds (DIR_ID (f_offset f)) dirent (f\<lparr>dp_dir := Some (DIR_ID (f_offset f)), dp_id := DIR_ID (f_offset f)\<rparr>))
      else Some (None, f))"

definition PMEMFILE_DT_UNKNOWN :: nat where "PMEMFILE_DT_UNKNOWN = 0"
definition PMEMFILE_DT_DIR :: nat where "PMEMFILE_DT_DIR = 4"
definition PMEMFILE_DT_REG :: nat where "PMEMFILE_DT_REG = 8"
definition PMEMFILE_DT_LNK :: nat where "PMEMFILE_DT_LNK = 10"

definition inode_type :: "inode \<Rightarrow> nat" where
  "inode_type i =
     (if inode_is_regular_file i then PMEMFILE_DT_REG
      else if inode_is_symlink i then PMEMFILE_DT_LNK
      else if inode_is_dir i then PMEMFILE_DT_DIR
      else PMEMFILE_DT_UNKNOWN)"

definition u16 :: "nat \<Rightarrow> nat" where "u16 n = n mod 65536"

text \<open>The alignment and the aligned size.\<close>

definition align_dirent_size :: "nat \<Rightarrow> nat \<times> nat" where
  "align_dirent_size slen =
     (let a = 8 - (slen AND 7); alignment = (if a = 8 then 0 else a) in (alignment, u16 (slen + alignment)))"

definition get_next_dirent_off :: "nat \<Rightarrow> nat \<Rightarrow> nat \<Rightarrow> nat" where
  "get_next_dirent_off offset num_elements dirent_id =
     (let next_off = add64 offset 1 in
      if dirent_id + 1 \<ge> num_elements then push_bit 32 (drop_bit 32 next_off + 1) mod W64 else next_off)"

text \<open>The bytes of a number and of a string with its terminator, as they are in memory.\<close>

fun le_bytes :: "nat \<Rightarrow> nat \<Rightarrow> byte list" where
  "le_bytes 0 n = []"
| "le_bytes (Suc k) n = word_of_nat n # le_bytes k (n div 256)"

definition char_byte :: "char \<Rightarrow> byte" where
  "char_byte c = word_of_nat (of_char c)"

definition str_bytes :: "string \<Rightarrow> byte list" where
  "str_bytes s = map char_byte s @ [0]"

text \<open>The number of bytes, 0 where there is no room, and the bytes.\<close>

definition fill_dirent32 :: "(nat \<Rightarrow> inode option) \<Rightarrow> pmemfile_dirent \<Rightarrow> nat \<Rightarrow> nat \<Rightarrow> (nat \<times> byte list) option" where
  "fill_dirent32 I d next_off left =
     (case align_dirent_size (u16 (8 + 8 + 2 + length (d_name d) + 1 + 1)) of (alignment, slen) \<Rightarrow>
        if slen > left then Some (0, [])
        else
          (case I (d_inode d) of
             None \<Rightarrow> None
           | Some i \<Rightarrow> Some (slen, le_bytes 8 (d_inode d) @ le_bytes 8 next_off @ le_bytes 2 slen @ str_bytes (d_name d) @
               replicate alignment 0 @ [word_of_nat (inode_type i)])))"

definition fill_dirent64 :: "(nat \<Rightarrow> inode option) \<Rightarrow> pmemfile_dirent \<Rightarrow> nat \<Rightarrow> nat \<Rightarrow> (nat \<times> byte list) option" where
  "fill_dirent64 I d next_off left =
     (case align_dirent_size (u16 (8 + 8 + 2 + 1 + length (d_name d) + 1)) of (alignment, slen) \<Rightarrow>
        if slen > left then Some (0, [])
        else
          (case I (d_inode d) of
             None \<Rightarrow> None
           | Some i \<Rightarrow> Some (slen, le_bytes 8 (d_inode d) @ le_bytes 8 next_off @ le_bytes 2 slen @ [word_of_nat (inode_type i)] @
               str_bytes (d_name d) @ replicate alignment 0)))"

type_synonym fill_dirent_type = "pmemfile_dirent \<Rightarrow> nat \<Rightarrow> nat \<Rightarrow> (nat \<times> byte list) option"

text \<open>The loop of the worker: the value it leaves the loop with, the position and the bytes.\<close>

function getdents_loop ::
  "fill_dirent_type \<Rightarrow> pmemfile_dirent list list \<Rightarrow> nat \<Rightarrow> nat \<Rightarrow> nat \<Rightarrow> byte list \<Rightarrow> dir_file \<Rightarrow> (int \<times> byte list \<times> dir_file) option" where
  "getdents_loop fill_dirent ds count b dirent_id data f =
     (if b < length ds then
        (if length (ds ! b) \<le> dirent_id then
           (if Suc b < length ds then
              (if ds ! Suc b = [] then None
               else getdents_loop fill_dirent ds count (Suc b) 0 data
                 (f\<lparr>dp_dir := Some (Suc b), dp_id := u32 (dp_id f + 1), f_offset := push_bit 32 (u32 (dp_id f + 1))\<rparr>))
            else Some (if data = [] then - int ENOENT else int (length data), data, f))
         else
           let d = ds ! b ! dirent_id; f1 = f\<lparr>f_offset := add64 (f_offset f) 1\<rparr> in
           if d_inode d = 0 then getdents_loop fill_dirent ds count b (Suc dirent_id) data f1
           else
             (case fill_dirent d (get_next_dirent_off (f_offset f) (length (ds ! b)) dirent_id) (count - length data) of
                None \<Rightarrow> None
              | Some (slen, bs) \<Rightarrow>
                  if slen = 0 then Some (if data = [] then - int EINVAL else int (length data), data, f)
                  else getdents_loop fill_dirent ds count b (Suc dirent_id) (data @ bs) f1))
      else None)"
  by pat_completeness auto

termination
  by (relation "measures [\<lambda>(_, ds, _, b, _, _, _). length ds - b, \<lambda>(_, ds, _, b, i, _, _). length (ds ! b) - i]") auto

declare getdents_loop.simps [simp del]

definition pmemfile_getdents_worker ::
  "fill_dirent_type \<Rightarrow> pmemfile_dirent list list \<Rightarrow> nat \<Rightarrow> dir_file \<Rightarrow> (int \<times> byte list \<times> dir_file) option" where
  "pmemfile_getdents_worker fill_dirent ds count f =
     (case file_seek_dir ds f of
        None \<Rightarrow> None
      | Some (None, f1) \<Rightarrow> Some (0, [], f1)
      | Some (Some (b, dirent_id), f1) \<Rightarrow> getdents_loop fill_dirent ds count b dirent_id [] f1)"

text \<open>\<open>count\<close> is an unsigned 32-bit number.\<close>

definition pmemfile_getdents_generic ::
  "fill_dirent_type \<Rightarrow> pool option \<Rightarrow> (nat \<times> dir_file) option \<Rightarrow> bool \<Rightarrow> nat
    \<Rightarrow> ((errno + nat) \<times> byte list \<times> (nat \<times> dir_file) option) option" where
  "pmemfile_getdents_generic fill_dirent pfp file data count =
     (case (pfp, file) of
        (None, _) \<Rightarrow> Some (Inl EFAULT, [], file)
      | (_, None) \<Rightarrow> Some (Inl EFAULT, [], file)
      | (Some p, Some (n, f)) \<Rightarrow>
          if \<not> data then Some (Inl EFAULT, [], file)
          else
            (case p_inodes p n of
               None \<Rightarrow> None
             | Some i \<Rightarrow>
                 if \<not> inode_is_dir i then Some (Inl ENOTDIR, [], file)
                 else if f_flags f AND PFILE_READ = 0 then Some (Inl EBADF, [], file)
                 else
                   map_option (\<lambda>(read, bs, f1). (if read < 0 then Inl (nat (- read)) else Inr (nat read), bs, Some (n, f1)))
                     (pmemfile_getdents_worker fill_dirent (p_dir p n) (if count > INT_MAX then INT_MAX else count) f)))"

definition pmemfile_getdents ::
  "pool option \<Rightarrow> (nat \<times> dir_file) option \<Rightarrow> bool \<Rightarrow> nat \<Rightarrow> ((errno + nat) \<times> byte list \<times> (nat \<times> dir_file) option) option" where
  "pmemfile_getdents pfp file data count =
     pmemfile_getdents_generic (fill_dirent32 (case pfp of None \<Rightarrow> \<lambda>_. None | Some p \<Rightarrow> p_inodes p)) pfp file data count"

definition pmemfile_getdents64 ::
  "pool option \<Rightarrow> (nat \<times> dir_file) option \<Rightarrow> bool \<Rightarrow> nat \<Rightarrow> ((errno + nat) \<times> byte list \<times> (nat \<times> dir_file) option) option" where
  "pmemfile_getdents64 pfp file data count =
     pmemfile_getdents_generic (fill_dirent64 (case pfp of None \<Rightarrow> \<lambda>_. None | Some p \<Rightarrow> p_inodes p)) pfp file data count"

end
