(* ===== verification/Getdents_Correct.thy ===== *)
theory Getdents_Correct
  imports Getdents Sample
begin

text \<open>
  What a program gets that reads a directory and decodes the buffer: the entries in use, in order, each once, from where it has read
  before, and they are exactly the names that a lookup finds.
\<close>

section \<open>Decoding the buffer\<close>

record dent =
  de_ino :: nat
  de_off :: nat
  de_type :: nat
  de_name :: string

definition le_val :: "byte list \<Rightarrow> nat" where
  "le_val bs = foldr (\<lambda>b n. unat b + 256 * n) bs 0"

definition byte_char :: "byte \<Rightarrow> char" where
  "byte_char b = char_of (unat b)"

text \<open>The records of \<^verbatim>\<open>struct linux_dirent64\<close>, each of the length it says.\<close>

function decode64 :: "byte list \<Rightarrow> dent list option" where
  "decode64 bs =
     (if bs = [] then Some []
      else
        let reclen = le_val (take 2 (drop 16 bs)) in
        if reclen < 20 \<or> length bs < reclen then None
        else
          map_option (\<lambda>es. \<lparr>de_ino = le_val (take 8 bs), de_off = le_val (take 8 (drop 8 bs)), de_type = unat (bs ! 18),
              de_name = map byte_char (takeWhile (\<lambda>b. b \<noteq> 0) (drop 19 (take reclen bs)))\<rparr> # es)
            (decode64 (drop reclen bs)))"
  by pat_completeness auto

termination
  by (relation "measure length") auto

declare decode64.simps [simp del]

lemma unat_byte: "n < 256 \<Longrightarrow> unat (word_of_nat n :: byte) = n"
  by (simp add: unat_of_nat)

lemma length_le_bytes [simp]: "length (le_bytes k n) = k"
  by (induction k arbitrary: n) simp_all

lemma le_val_bytes: "n < 256 ^ k \<Longrightarrow> le_val (le_bytes k n) = n"
proof (induction k arbitrary: n)
  case (Suc k)
  have "n div 256 < 256 ^ k"
    using Suc.prems by (simp add: less_mult_imp_div_less mult.commute)
  then have "le_val (le_bytes k (n div 256)) = n div 256"
    by (rule Suc.IH)
  moreover have "unat (word_of_nat n :: byte) = n mod 256"
    by (simp add: unat_of_nat)
  ultimately show ?case
    by (simp add: le_val_def)
qed (simp add: le_val_def)

lemma char_byte_inverse [simp]: "byte_char (char_byte c) = c"
  by (simp add: byte_char_def char_byte_def unat_byte)

lemma char_byte_zero: "char_byte c = 0 \<longleftrightarrow> c = CHR 0x00"
proof
  assume "char_byte c = 0"
  then have "byte_char 0 = c"
    using char_byte_inverse [of c] by simp
  then show "c = CHR 0x00"
    by (simp add: byte_char_def char_of_def)
qed (simp add: char_byte_def)

lemma takeWhile_name:
  "CHR 0x00 \<notin> set s \<Longrightarrow> takeWhile (\<lambda>b. b \<noteq> 0) (str_bytes s @ rest) = map char_byte s"
  by (induction s) (auto simp: str_bytes_def char_byte_zero)

section \<open>One record\<close>

definition size64 :: "pmemfile_dirent \<Rightarrow> nat" where
  "size64 d = 8 * ((27 + length (d_name d)) div 8)"

lemma align_size: "n < 65000 \<Longrightarrow> align_dirent_size n = (8 * ((n + 7) div 8) - n, 8 * ((n + 7) div 8))"
proof -
  assume n: "n < 65000"
  have m: "n AND 7 = n mod 8"
    using take_bit_eq_mod [of 3 n] by (simp add: take_bit_eq_mask mask_eq_exp_minus_1)
  have e: "8 * ((n + 7) div 8) = (if n mod 8 = 0 then n else n + (8 - n mod 8))"
  proof -
    define q r where "q = n div 8" and "r = n mod 8"
    have r: "n = 8 * q + r" "r < 8"
      by (simp_all add: q_def r_def)
    have "(n + 7) div 8 = (if r = 0 then q else q + 1)"
      using r by (intro div_nat_eqI) auto
    then show ?thesis
      using r by (simp add: r_def [symmetric])
  qed
  show ?thesis
    using n unfolding align_dirent_size_def m e by (auto simp: Let_def u16_def)
qed

definition enc64 :: "(nat \<Rightarrow> inode option) \<Rightarrow> pmemfile_dirent \<times> nat \<Rightarrow> byte list" where
  "enc64 I = (\<lambda>(d, off). le_bytes 8 (d_inode d) @ le_bytes 8 off @ le_bytes 2 (size64 d) @ [word_of_nat (inode_type (the (I (d_inode d))))] @
     str_bytes (d_name d) @ replicate (size64 d - (20 + length (d_name d))) 0)"

definition rec64 :: "(nat \<Rightarrow> inode option) \<Rightarrow> pmemfile_dirent \<times> nat \<Rightarrow> dent" where
  "rec64 I = (\<lambda>(d, off). \<lparr>de_ino = d_inode d, de_off = off, de_type = inode_type (the (I (d_inode d))), de_name = d_name d\<rparr>)"

text \<open>What an entry of a directory is known to have.\<close>

definition entry_fits :: "(nat \<Rightarrow> inode option) \<Rightarrow> pmemfile_dirent \<Rightarrow> bool" where
  "entry_fits I d \<longleftrightarrow> length (d_name d) \<le> 255 \<and> CHR 0x00 \<notin> set (d_name d) \<and> d_inode d < W64 \<and> I (d_inode d) \<noteq> None"

lemma size64_bounds: "20 + length (d_name d) \<le> size64 d" "length (d_name d) \<le> 255 \<Longrightarrow> size64 d \<le> 280" "20 \<le> size64 d"
  unfolding size64_def by presburger+

lemma fill_dirent64_eq:
  assumes "entry_fits I d"
  shows "fill_dirent64 I d off left = Some (if size64 d > left then (0, []) else (size64 d, enc64 I (d, off)))"
proof -
  let ?n = "20 + length (d_name d)"
  have n: "?n < 65000" "8 + 8 + 2 + 1 + length (d_name d) + 1 = ?n" "u16 ?n = ?n"
    using assms by (simp_all add: entry_fits_def u16_def)
  have s: "size64 d = 8 * ((?n + 7) div 8)"
    by (simp add: size64_def)
  show ?thesis
    using assms unfolding fill_dirent64_def n(2,3) align_size [OF n(1)] s [symmetric]
    by (auto simp: entry_fits_def enc64_def)
qed

lemma length_enc64: "length (enc64 I (d, off)) = size64 d"
  using size64_bounds(1) [of d] by (simp add: enc64_def str_bytes_def)

lemma inode_type_less: "inode_type i < 256"
  by (simp add: inode_type_def PMEMFILE_DT_UNKNOWN_def PMEMFILE_DT_DIR_def PMEMFILE_DT_REG_def PMEMFILE_DT_LNK_def)

lemma decode64_enc64:
  assumes "entry_fits I d" and "off < W64"
  shows "decode64 (enc64 I (d, off) @ rest) = map_option (Cons (rec64 I (d, off))) (decode64 rest)"
proof -
  let ?bs = "enc64 I (d, off) @ rest" and ?t = "word_of_nat (inode_type (the (I (d_inode d)))) :: byte"
    and ?pad = "replicate (size64 d - (20 + length (d_name d))) (0 :: byte)"
  have W: "d_inode d < 256 ^ 8" "off < 256 ^ 8" "size64 d < 256 ^ 2"
    using assms size64_bounds(2) [of d] by (simp_all add: entry_fits_def W64_def)
  note vals = le_val_bytes [OF W(1)] le_val_bytes [OF W(2)] le_val_bytes [OF W(3)]
  have ne: "?bs \<noteq> []"
    by (simp add: enc64_def str_bytes_def)
  have t: "take 8 ?bs = le_bytes 8 (d_inode d)" "take 8 (drop 8 ?bs) = le_bytes 8 off" "take 2 (drop 16 ?bs) = le_bytes 2 (size64 d)"
    "?bs ! 18 = ?t"
    by (simp_all add: enc64_def nth_append)
  have split: "drop (size64 d) ?bs = rest" "take (size64 d) ?bs = enc64 I (d, off)"
    by (simp_all add: length_enc64)
  have nm: "drop 19 (enc64 I (d, off)) = str_bytes (d_name d) @ ?pad"
    by (simp add: enc64_def)
  have len: "\<not> (size64 d < 20 \<or> length ?bs < size64 d)"
    using size64_bounds(3) [of d] length_enc64 [of I d off] by simp
  have name: "map byte_char (takeWhile (\<lambda>b. b \<noteq> 0) (drop 19 (enc64 I (d, off)))) = d_name d"
    unfolding nm using assms(1) by (subst takeWhile_name) (simp_all add: entry_fits_def comp_def)
  show ?thesis
    using ne len by (subst decode64.simps) (simp only: t split vals name unat_byte [OF inode_type_less] Let_def if_False rec64_def prod.case)
qed

lemma decode64_records:
  assumes "\<And>x. x \<in> set xs \<Longrightarrow> entry_fits I (fst x) \<and> snd x < W64"
  shows "decode64 (concat (map (enc64 I) xs)) = Some (map (rec64 I) xs)"
  using assms
proof (induction xs)
  case Nil
  then show ?case
    by (simp add: decode64.simps)
next
  case (Cons x xs)
  then show ?case
    using decode64_enc64 [of I "fst x" "snd x"] by simp
qed

section \<open>The entries from a position on\<close>

definition offset_of :: "nat \<Rightarrow> nat \<Rightarrow> nat" where
  "offset_of b i = b * 2 ^ 32 + i"

definition next_off :: "pmemfile_dirent list list \<Rightarrow> nat \<Rightarrow> nat \<Rightarrow> nat" where
  "next_off ds b i = (if Suc i \<ge> length (ds ! b) then offset_of (Suc b) 0 else offset_of b (Suc i))"

definition places :: "pmemfile_dirent list list \<Rightarrow> nat \<Rightarrow> nat \<Rightarrow> (nat \<times> nat) list" where
  "places ds b i = map (Pair b) [i..<length (ds ! b)] @ concat (map (\<lambda>c. map (Pair c) [0..<length (ds ! c)]) [Suc b..<length ds])"

text \<open>The entries in use with the offsets behind them.\<close>

definition listing :: "pmemfile_dirent list list \<Rightarrow> nat \<Rightarrow> nat \<Rightarrow> (pmemfile_dirent \<times> nat) list" where
  "listing ds b i = map (\<lambda>(c, j). (ds ! c ! j, next_off ds c j)) (filter (\<lambda>(c, j). d_inode (ds ! c ! j) \<noteq> 0) (places ds b i))"

lemma places_here: "i < length (ds ! b) \<Longrightarrow> places ds b i = (b, i) # places ds b (Suc i)"
  by (simp add: places_def upt_conv_Cons)

lemma places_next: "length (ds ! b) \<le> i \<Longrightarrow> places ds b i = (if Suc b < length ds then places ds (Suc b) 0 else [])"
  by (simp add: places_def upt_conv_Cons)

lemma listing_here:
  "i < length (ds ! b) \<Longrightarrow>
    listing ds b i = (if d_inode (ds ! b ! i) = 0 then listing ds b (Suc i) else (ds ! b ! i, next_off ds b i) # listing ds b (Suc i))"
  by (simp add: listing_def places_here)

lemma listing_next: "length (ds ! b) \<le> i \<Longrightarrow> listing ds b i = (if Suc b < length ds then listing ds (Suc b) 0 else [])"
  by (simp add: listing_def places_next)

text \<open>The records that fit into the rest of the buffer.\<close>

fun take_fit :: "nat \<Rightarrow> (pmemfile_dirent \<times> nat) list \<Rightarrow> (pmemfile_dirent \<times> nat) list" where
  "take_fit left [] = []"
| "take_fit left (x # xs) = (if size64 (fst x) \<le> left then x # take_fit (left - size64 (fst x)) xs else [])"

lemma take_fit_prefix: "take_fit left xs = take (length (take_fit left xs)) xs"
  by (induction xs arbitrary: left) simp_all

section \<open>The position of an open directory\<close>

definition dir_fits :: "pmemfile_dirent list list \<Rightarrow> bool" where
  "dir_fits ds \<longleftrightarrow> ds \<noteq> [] \<and> Suc (length ds) < W32 \<and> (\<forall>d \<in> set ds. d \<noteq> [] \<and> length d < W32)"

definition pos_at :: "pmemfile_dirent list list \<Rightarrow> dir_file \<Rightarrow> nat \<Rightarrow> nat \<Rightarrow> bool" where
  "pos_at ds f b i \<longleftrightarrow> b < length ds \<and> i \<le> length (ds ! b) \<and> f_offset f = offset_of b i \<and>
     (f_offset f = 0 \<or> dp_id f \<noteq> b \<or> dp_dir f = Some b)"

text \<open>The cache is that of the position.\<close>

definition cached_at :: "pmemfile_dirent list list \<Rightarrow> dir_file \<Rightarrow> nat \<Rightarrow> nat \<Rightarrow> bool" where
  "cached_at ds f b i \<longleftrightarrow> b < length ds \<and> i \<le> length (ds ! b) \<and> f_offset f = offset_of b i \<and> dp_id f = b \<and> dp_dir f = Some b"

lemma cached_pos: "cached_at ds f b i \<Longrightarrow> pos_at ds f b i"
  by (simp add: cached_at_def pos_at_def)

lemma offset_parts:
  assumes "i < W32"
  shows "DIR_ID (offset_of b i) = b" and "DIRENT_ID (offset_of b i) = i" and "push_bit 32 b OR i = offset_of b i"
proof -
  have i: "i < 2 ^ 32"
    using assms by (simp add: W32_power)
  show "DIR_ID (offset_of b i) = b"
    using i by (simp add: DIR_ID_def offset_of_def drop_bit_eq_div)
  have "DIRENT_ID (offset_of b i) = take_bit 32 (offset_of b i)"
    by (simp add: DIRENT_ID_def take_bit_eq_mask mask_eq_exp_minus_1)
  then show "DIRENT_ID (offset_of b i) = i"
    using i by (simp add: offset_of_def take_bit_eq_mod)
  have "i = take_bit 32 i"
    using i by (simp add: take_bit_nat_eq_self)
  then have "\<not> bit i k" if "32 \<le> k" for k
    using that by (metis bit_take_bit_iff not_less)
  then have "push_bit 32 b + i = push_bit 32 b OR i"
    by (intro disjunctive_add) (auto simp: bit_push_bit_iff not_le)
  then show "push_bit 32 b OR i = offset_of b i"
    by (simp add: offset_of_def push_bit_eq_mult)
qed

lemma dir_fitsD:
  assumes "dir_fits ds" and "b < length ds"
  shows "ds ! b \<noteq> []" and "length (ds ! b) < W32" and "Suc (Suc b) < W32"
  using assms nth_mem [OF assms(2)] by (auto simp: dir_fits_def)

lemma offset_less: "Suc b < W32 \<Longrightarrow> i < W32 \<Longrightarrow> offset_of b i < W64"
  by (simp add: offset_of_def W32_def W64_def)

lemma next_off_less:
  assumes "dir_fits ds" and "b < length ds" and "i < length (ds ! b)"
  shows "next_off ds b i < W64"
  using dir_fitsD [OF assms(1,2)] assms(3) offset_less [of b "Suc i"] offset_less [of "Suc b" 0] by (simp add: next_off_def)

lemma get_next_dirent_off_eq:
  assumes "dir_fits ds" and "b < length ds" and "i < length (ds ! b)"
  shows "get_next_dirent_off (offset_of b i) (length (ds ! b)) i = next_off ds b i"
proof -
  note d = dir_fitsD [OF assms(1,2)]
  have i: "Suc i < W32"
    using d(2) assms(3) by simp
  have a: "add64 (offset_of b i) 1 = offset_of b (Suc i)"
    using offset_less [of b "Suc i"] d(3) i by (subst add64_exact) (simp_all add: offset_of_def)
  have "drop_bit 32 (offset_of b (Suc i)) = b"
    using offset_parts(1) [OF i, of b] by (simp add: DIR_ID_def)
  moreover have "push_bit 32 (Suc b) mod W64 = offset_of (Suc b) 0"
    using offset_less [of "Suc b" 0] d(3) by (simp add: offset_of_def push_bit_eq_mult)
  ultimately show ?thesis
    by (simp add: get_next_dirent_off_def next_off_def a [unfolded One_nat_def] Let_def)
qed

lemma cached_step:
  assumes "dir_fits ds" and "cached_at ds f b i" and "i < length (ds ! b)"
  shows "cached_at ds (f\<lparr>f_offset := add64 (f_offset f) 1\<rparr>) b (Suc i)"
proof -
  have b: "b < length ds" and f: "f_offset f = offset_of b i"
    using assms(2) by (simp_all add: cached_at_def)
  note d = dir_fitsD [OF assms(1) b]
  have "add64 (offset_of b i) 1 = offset_of b (Suc i)"
    using offset_less [of b "Suc i"] d assms(3) by (subst add64_exact) (simp_all add: offset_of_def)
  then show ?thesis
    using assms(2,3) f by (simp add: cached_at_def)
qed

lemma cached_next:
  assumes "dir_fits ds" and "cached_at ds f b i" and "Suc b < length ds"
  shows "cached_at ds (f\<lparr>dp_dir := Some (Suc b), dp_id := u32 (dp_id f + 1), f_offset := push_bit 32 (u32 (dp_id f + 1))\<rparr>) (Suc b) 0"
proof -
  have "b < length ds" "dp_id f = b"
    using assms(2) by (simp_all add: cached_at_def)
  moreover have "u32 (Suc b) = Suc b"
    using dir_fitsD(3) [OF assms(1,3)] by (simp add: u32_exact)
  ultimately show ?thesis
    using assms(3) by (simp add: cached_at_def offset_of_def push_bit_eq_mult)
qed

text \<open>How the loop ends, with the records \<open>xs\<close> still to come and \<open>data\<close> in the buffer.\<close>

definition loop_result ::
  "(nat \<Rightarrow> inode option) \<Rightarrow> pmemfile_dirent list list \<Rightarrow> nat \<Rightarrow> byte list \<Rightarrow> (pmemfile_dirent \<times> nat) list \<Rightarrow> dir_file
    \<Rightarrow> (int \<times> byte list \<times> dir_file) option \<Rightarrow> bool" where
  "loop_result I ds count data xs f res \<longleftrightarrow>
     (let ys = take_fit (count - length data) xs; data' = data @ concat (map (enc64 I) ys) in
      \<exists>f' b i. res = Some (if data' \<noteq> [] then int (length data') else if xs = [] then - int ENOENT else - int EINVAL, data', f') \<and>
        cached_at ds f' b i \<and> listing ds b i = drop (length ys) xs \<and> f_flags f' = f_flags f)"

lemma loop_resultI:
  assumes "ys = take_fit (count - length data) xs" and "data' = data @ concat (map (enc64 I) ys)"
    and "res = Some (if data' \<noteq> [] then int (length data') else if xs = [] then - int ENOENT else - int EINVAL, data', f')"
    and "cached_at ds f' b i" and "listing ds b i = drop (length ys) xs" and "f_flags f' = f_flags f"
  shows "loop_result I ds count data xs f res"
  unfolding loop_result_def Let_def assms(1,2) [symmetric] using assms(3-6) by blast

lemma getdents_loop_ok:
  assumes fits: "dir_fits ds" and ents: "\<And>b i. b < length ds \<Longrightarrow> i < length (ds ! b) \<Longrightarrow> d_inode (ds ! b ! i) \<noteq> 0 \<Longrightarrow> entry_fits I (ds ! b ! i)"
    and "cached_at ds f b i" and "length data \<le> count"
  shows "loop_result I ds count data (listing ds b i) f (getdents_loop (fill_dirent64 I) ds count b i data f)"
  using assms
proof (induction "fill_dirent64 I" ds count b i data f rule: getdents_loop.induct)
  case (1 ds count b i data f)
  note P = 1(4-)
  have b: "b < length ds" "i \<le> length (ds ! b)" "f_offset f = offset_of b i"
    using P(3) by (simp_all add: cached_at_def)
  show ?case
  proof (cases "length (ds ! b) \<le> i")
    case i: True
    show ?thesis
    proof (cases "Suc b < length ds")
      case True
      note n = dir_fitsD(1) [OF P(1) True]
      let ?f = "f\<lparr>dp_dir := Some (Suc b), dp_id := u32 (dp_id f + 1), f_offset := push_bit 32 (u32 (dp_id f + 1))\<rparr>"
      have "loop_result I ds count data (listing ds (Suc b) 0) ?f (getdents_loop (fill_dirent64 I) ds count (Suc b) 0 data ?f)"
        by (rule 1(1) [OF b(1) i True n P(1,2) cached_next [OF P(1,3) True] P(4)]) assumption+
      then show ?thesis
        using b(1) i True n by (subst getdents_loop.simps) (simp add: listing_next loop_result_def)
    next
      case False
      then show ?thesis
        using b(1) i P(3)
        by (intro loop_resultI [OF refl refl, of _ _ _ _ _ f _ b i]) (subst getdents_loop.simps, simp_all add: listing_next)
    qed
  next
    case False
    then have i: "i < length (ds ! b)"
      by simp
    let ?d = "ds ! b ! i" and ?f = "f\<lparr>f_offset := add64 (f_offset f) 1\<rparr>" and ?off = "next_off ds b i"
    note at = cached_step [OF P(1,3) i]
    show ?thesis
    proof (cases "d_inode ?d = 0")
      case True
      have "loop_result I ds count data (listing ds b (Suc i)) ?f (getdents_loop (fill_dirent64 I) ds count b (Suc i) data ?f)"
        by (rule 1(2) [OF b(1) False refl refl True P(1,2) at P(4)]) assumption+
      then show ?thesis
        using b(1) i True by (subst getdents_loop.simps) (simp add: listing_here loop_result_def Let_def)
    next
      case used: False
      have off: "get_next_dirent_off (f_offset f) (length (ds ! b)) i = ?off"
        unfolding b(3) by (rule get_next_dirent_off_eq [OF P(1) b(1) i])
      note fill = fill_dirent64_eq [OF P(2) [OF b(1) i used], of ?off "count - length data"]
      show ?thesis
      proof (cases "size64 ?d > count - length data")
        case True
        then show ?thesis
          using b(1) i used P(3)
          by (intro loop_resultI [OF refl refl, of _ _ _ _ _ f _ b i])
            (subst getdents_loop.simps, simp_all add: listing_here Let_def off fill)
      next
        case room: False
        have s: "size64 ?d \<noteq> 0"
          using size64_bounds(3) [of ?d] by simp
        have e: "enc64 I (?d, ?off) \<noteq> []"
          using s length_enc64 [of I ?d ?off] by fastforce
        have len: "length (data @ enc64 I (?d, ?off)) \<le> count"
          using room P(4) by (simp add: length_enc64)
        have "loop_result I ds count (data @ enc64 I (?d, ?off)) (listing ds b (Suc i)) ?f
            (getdents_loop (fill_dirent64 I) ds count b (Suc i) (data @ enc64 I (?d, ?off)) ?f)"
          by (rule 1(3) [OF b(1) False refl refl used, of "(size64 ?d, enc64 I (?d, ?off))"])
            (use room s P(1,2) at len in \<open>simp_all add: off fill\<close>)
        moreover have "getdents_loop (fill_dirent64 I) ds count b i data f = getdents_loop (fill_dirent64 I) ds count b (Suc i) (data @ enc64 I (?d, ?off)) ?f"
          using b(1) i used room s by (subst getdents_loop.simps) (simp add: Let_def off fill)
        ultimately show ?thesis
          using i used room e by (simp add: listing_here loop_result_def length_enc64 Let_def)
      qed
    qed
  qed
qed

lemma file_seek_dir_eq:
  assumes "dir_fits ds" and "pos_at ds f b i"
  obtains f1 where "file_seek_dir ds f = Some (seek_batch ds b i f1)" and "cached_at ds f1 b i" and "f_flags f1 = f_flags f"
proof -
  have P: "b < length ds" "i \<le> length (ds ! b)" "f_offset f = offset_of b i" "f_offset f = 0 \<or> dp_id f \<noteq> b \<or> dp_dir f = Some b"
    using assms(2) unfolding pos_at_def by blast+
  have i: "i < W32"
    using P(2) dir_fitsD(2) [OF assms(1) P(1)] by simp
  note parts = offset_parts [OF i, of b]
  show thesis
  proof (cases "f_offset f = 0 \<or> dp_id f \<noteq> b")
    case True
    let ?f = "f\<lparr>dp_dir := Some b, dp_id := b\<rparr>"
    have "file_seek_dir ds f = Some (seek_batch ds b i ?f)"
    proof (cases "f_offset f = 0")
      case zero: True
      then have "b = 0" "i = 0"
        using P(3) by (simp_all add: offset_of_def)
      then show ?thesis
        using zero parts(2) P(3) by (simp add: file_seek_dir_def)
    next
      case False
      then show ?thesis
        using True parts P(1,3) by (auto simp: file_seek_dir_def Let_def)
    qed
    then show thesis
      using P by (intro that [of ?f]) (simp_all add: cached_at_def)
  next
    case False
    then have "file_seek_dir ds f = Some (seek_batch ds b i f)" "cached_at ds f b i"
      using parts P by (simp_all add: file_seek_dir_def cached_at_def)
    then show thesis
      by (rule that) simp
  qed
qed

lemma seek_batch_ok:
  assumes "dir_fits ds" and "cached_at ds f b i"
  shows "if i = length (ds ! b) \<and> Suc b = length ds then seek_batch ds b i f = (None, f)
    else \<exists>c j f'. seek_batch ds b i f = (Some (c, j), f') \<and> cached_at ds f' c j \<and> listing ds c j = listing ds b i \<and> f_flags f' = f_flags f"
proof -
  have P: "b < length ds" "i \<le> length (ds ! b)" "f_offset f = offset_of b i" "dp_id f = b"
    using assms(2) by (simp_all add: cached_at_def)
  have i: "i < W32"
    using P(2) dir_fitsD(2) [OF assms(1) P(1)] by simp
  consider "i < length (ds ! b)" | "i = length (ds ! b)" "Suc b < length ds" | "i = length (ds ! b)" "Suc b = length ds"
    using P by linarith
  then show ?thesis
  proof cases
    case 1
    then have "seek_batch ds b i f = (Some (b, i), f)"
      using P offset_parts(3) [OF i, of b] by (subst seek_batch.simps) simp
    then show ?thesis
      using 1 assms(2) by simp
  next
    case 2
    let ?f = "f\<lparr>dp_dir := Some (Suc b), dp_id := u32 (dp_id f + 1), f_offset := push_bit 32 (u32 (dp_id f + 1))\<rparr>"
    have n: "ds ! Suc b \<noteq> []"
      by (rule dir_fitsD(1) [OF assms(1) 2(2)])
    have "seek_batch ds b i f = (Some (Suc b, 0), ?f)"
      using 2 P n by (subst seek_batch.simps, subst seek_batch.simps) simp
    then show ?thesis
      using 2 cached_next [OF assms 2(2)] by (auto simp: listing_next)
  next
    case 3
    then show ?thesis
      by (subst seek_batch.simps) simp
  qed
qed

section \<open>A call\<close>

text \<open>The entries of a directory of the pool fit into their records.\<close>

definition dir_readable :: "pool \<Rightarrow> nat \<Rightarrow> bool" where
  "dir_readable p n \<longleftrightarrow> (\<exists>i. p_inodes p n = Some i \<and> inode_is_dir i) \<and> dir_fits (p_dir p n) \<and>
     (\<forall>d \<in> set (concat (p_dir p n)). d_inode d \<noteq> 0 \<longrightarrow> entry_fits (p_inodes p) d)"

lemma dir_readable_entry:
  assumes "dir_readable p n" and "b < length (p_dir p n)" and "i < length (p_dir p n ! b)" and "d_inode (p_dir p n ! b ! i) \<noteq> 0"
  shows "entry_fits (p_inodes p) (p_dir p n ! b ! i)"
  using assms(1,4) nth_mem [OF assms(2)] nth_mem [OF assms(3)] unfolding dir_readable_def set_concat by blast

lemma listing_entries:
  assumes "dir_readable p n" and "b < length (p_dir p n)" and "x \<in> set (listing (p_dir p n) b i)"
  shows "entry_fits (p_inodes p) (fst x) \<and> snd x < W64"
proof -
  obtain c j where x: "x = (p_dir p n ! c ! j, next_off (p_dir p n) c j)" "d_inode (p_dir p n ! c ! j) \<noteq> 0" "(c, j) \<in> set (places (p_dir p n) b i)"
    using assms(3) by (auto simp: listing_def)
  then have "c < length (p_dir p n)" "j < length (p_dir p n ! c)"
    using assms(2) by (auto simp: places_def)
  then show ?thesis
    using dir_readable_entry [OF assms(1)] x(1,2) next_off_less assms(1) by (auto simp: dir_readable_def)
qed

lemma worker_ok:
  assumes "dir_readable p n" and "pos_at (p_dir p n) f b i"
  obtains r bs f' c j where
    "pmemfile_getdents_worker (fill_dirent64 (p_inodes p)) (p_dir p n) count f = Some (r, bs, f')" and "pos_at (p_dir p n) f' c j"
    and "f_flags f' = f_flags f"
    and "bs = concat (map (enc64 (p_inodes p)) (take_fit count (listing (p_dir p n) b i)))"
    and "listing (p_dir p n) c j = drop (length (take_fit count (listing (p_dir p n) b i))) (listing (p_dir p n) b i)"
    and "r = (if bs \<noteq> [] then int (length bs) else if listing (p_dir p n) b i \<noteq> [] then - int EINVAL else r)"
    and "r = int (length bs) \<or> listing (p_dir p n) b i = [] \<and> r = - int ENOENT \<or> r = - int EINVAL \<and> listing (p_dir p n) b i \<noteq> []"
proof -
  let ?ds = "p_dir p n"
  have fits: "dir_fits ?ds"
    using assms(1) by (simp add: dir_readable_def)
  obtain f1 where f1: "file_seek_dir ?ds f = Some (seek_batch ?ds b i f1)" "cached_at ?ds f1 b i" "f_flags f1 = f_flags f"
    by (rule file_seek_dir_eq [OF fits assms(2)])
  show thesis
  proof (cases "i = length (?ds ! b) \<and> Suc b = length ?ds")
    case True
    then have "listing ?ds b i = []"
      by (simp add: listing_next)
    then show thesis
      using True f1 seek_batch_ok [OF fits f1(2)] cached_pos [OF f1(2)]
      by (intro that [where r = 0 and bs = "[]" and f' = f1 and c = b and j = i]) (simp_all add: pmemfile_getdents_worker_def)
  next
    case False
    then obtain c j f2 where f2: "seek_batch ?ds b i f1 = (Some (c, j), f2)" "cached_at ?ds f2 c j"
        "listing ?ds c j = listing ?ds b i" "f_flags f2 = f_flags f1"
      using seek_batch_ok [OF fits f1(2)] by auto
    have "loop_result (p_inodes p) ?ds count [] (listing ?ds b i) f2
        (getdents_loop (fill_dirent64 (p_inodes p)) ?ds count c j [] f2)"
      using getdents_loop_ok [OF fits dir_readable_entry [OF assms(1)] f2(2), of "[]" count] f2(3) by simp
    then obtain r bs f3 b' i' where r: "getdents_loop (fill_dirent64 (p_inodes p)) ?ds count c j [] f2 = Some (r, bs, f3)"
        "bs = concat (map (enc64 (p_inodes p)) (take_fit count (listing ?ds b i)))"
        "r = (if bs \<noteq> [] then int (length bs) else if listing ?ds b i = [] then - int ENOENT else - int EINVAL)"
        and f3: "cached_at ?ds f3 b' i'" "listing ?ds b' i' = drop (length (take_fit count (listing ?ds b i))) (listing ?ds b i)"
        "f_flags f3 = f_flags f2"
      unfolding loop_result_def Let_def list.size diff_zero append_Nil by blast
    have "pmemfile_getdents_worker (fill_dirent64 (p_inodes p)) ?ds count f = Some (r, bs, f3)"
      using r(1) f1(1) f2(1) by (simp add: pmemfile_getdents_worker_def)
    then show thesis
      by (rule that [OF _ cached_pos [OF f3(1)] _ r(2) f3(2)]) (use r(3) f1(3) f2(4) f3(3) in simp_all)
  qed
qed

lemma concat_enc64_empty: "concat (map (enc64 I) xs) = [] \<longleftrightarrow> xs = []"
proof -
  have "enc64 I x \<noteq> []" for x
    using length_enc64 [of I "fst x" "snd x"] size64_bounds(3) [of "fst x"] by fastforce
  then show ?thesis
    by (cases xs) simp_all
qed

lemma getdents64_ok:
  assumes "dir_readable p n" and "pos_at (p_dir p n) f b i" and "f_flags f AND PFILE_READ \<noteq> 0" and "count \<le> INT_MAX"
  obtains r bs f' c j where
    "pmemfile_getdents64 (Some p) (Some (n, f)) True count = Some (r, bs, Some (n, f'))" and "pos_at (p_dir p n) f' c j"
    and "f_flags f' = f_flags f"
    and "decode64 bs = Some (map (rec64 (p_inodes p)) (take_fit count (listing (p_dir p n) b i)))"
    and "listing (p_dir p n) c j = drop (length (take_fit count (listing (p_dir p n) b i))) (listing (p_dir p n) b i)"
    and "take_fit count (listing (p_dir p n) b i) \<noteq> [] \<Longrightarrow> r = Inr (length bs)"
    and "take_fit count (listing (p_dir p n) b i) = [] \<Longrightarrow> listing (p_dir p n) b i \<noteq> [] \<Longrightarrow> r = Inl EINVAL"
    and "listing (p_dir p n) b i = [] \<Longrightarrow> r = Inr 0 \<or> r = Inl ENOENT"
proof -
  let ?xs = "listing (p_dir p n) b i"
  obtain r bs f' c j where W:
    "pmemfile_getdents_worker (fill_dirent64 (p_inodes p)) (p_dir p n) count f = Some (r, bs, f')" "pos_at (p_dir p n) f' c j"
    "f_flags f' = f_flags f"
    "bs = concat (map (enc64 (p_inodes p)) (take_fit count ?xs))"
    "listing (p_dir p n) c j = drop (length (take_fit count ?xs)) ?xs"
    "r = (if bs \<noteq> [] then int (length bs) else if ?xs \<noteq> [] then - int EINVAL else r)"
    "r = int (length bs) \<or> ?xs = [] \<and> r = - int ENOENT \<or> r = - int EINVAL \<and> ?xs \<noteq> []"
    by (rule worker_ok [OF assms(1,2)]) (rule that)
  have bs: "bs = [] \<longleftrightarrow> take_fit count ?xs = []"
    unfolding W(4) by (rule concat_enc64_empty)
  have "entry_fits (p_inodes p) (fst x) \<and> snd x < W64" if "x \<in> set (take_fit count ?xs)" for x
    using that listing_entries [OF assms(1), of b x i] take_fit_prefix [of count ?xs] assms(2) in_set_takeD [of x]
    by (metis pos_at_def)
  then have d: "decode64 bs = Some (map (rec64 (p_inodes p)) (take_fit count ?xs))"
    unfolding W(4) by (intro decode64_records)
  have "pmemfile_getdents64 (Some p) (Some (n, f)) True count =
      Some (if r < 0 then Inl (nat (- r)) else Inr (nat r), bs, Some (n, f'))"
    using assms(1,3,4) W(1) by (auto simp: pmemfile_getdents64_def pmemfile_getdents_generic_def dir_readable_def)
  then show thesis
    by (rule that [OF _ W(2,3) d W(5)]) (use W(6,7) bs in \<open>auto split: if_splits\<close>)
qed

section \<open>Reading a whole directory\<close>

text \<open>One call after another, with buffers of the given sizes.\<close>

fun read_dir :: "pool \<Rightarrow> nat \<Rightarrow> nat list \<Rightarrow> dir_file \<Rightarrow> (dent list \<times> dir_file) option" where
  "read_dir p n [] f = Some ([], f)"
| "read_dir p n (c # cs) f =
     (case pmemfile_getdents64 (Some p) (Some (n, f)) True c of
        Some (r, bs, Some (_, f')) \<Rightarrow>
          (case decode64 bs of
             None \<Rightarrow> None
           | Some es \<Rightarrow> map_option (\<lambda>(fs, f''). (es @ fs, f'')) (read_dir p n cs f'))
      | _ \<Rightarrow> None)"

lemma take_fit_progress:
  assumes "280 \<le> c" and "xs \<noteq> []" and "\<And>x. x \<in> set xs \<Longrightarrow> entry_fits I (fst x)"
  shows "take_fit c xs \<noteq> []"
  using assms(1,2) assms(3) [of "hd xs"] size64_bounds(2) [of "fst (hd xs)"] by (cases xs) (auto simp: entry_fits_def)

lemma read_dir_ok:
  assumes "dir_readable p n" and "pos_at (p_dir p n) f b i" and "f_flags f AND PFILE_READ \<noteq> 0"
    and "\<And>c. c \<in> set cs \<Longrightarrow> 280 \<le> c \<and> c \<le> INT_MAX" and "length (listing (p_dir p n) b i) \<le> length cs"
  shows "\<exists>f'. read_dir p n cs f = Some (map (rec64 (p_inodes p)) (listing (p_dir p n) b i), f')"
  using assms(2-)
proof (induction cs arbitrary: f b i)
  case (Cons c cs)
  let ?xs = "listing (p_dir p n) b i"
  have "c \<le> INT_MAX" "280 \<le> c"
    using Cons.prems(3) by auto
  then obtain r bs f' b' i' where G:
    "pmemfile_getdents64 (Some p) (Some (n, f)) True c = Some (r, bs, Some (n, f'))" "pos_at (p_dir p n) f' b' i'"
    "f_flags f' = f_flags f" "decode64 bs = Some (map (rec64 (p_inodes p)) (take_fit c ?xs))"
    "listing (p_dir p n) b' i' = drop (length (take_fit c ?xs)) ?xs"
    using getdents64_ok [OF assms(1) Cons.prems(1,2), of c] by metis
  have "b < length (p_dir p n)"
    using Cons.prems(1) by (simp add: pos_at_def)
  then have "?xs \<noteq> [] \<Longrightarrow> take_fit c ?xs \<noteq> []"
    using take_fit_progress [OF \<open>280 \<le> c\<close>] listing_entries [OF assms(1)] by metis
  then have len: "length (listing (p_dir p n) b' i') \<le> length cs"
    using Cons.prems(4) G(5) by (cases "?xs = []") (auto simp: neq_Nil_conv)
  have "f_flags f' AND PFILE_READ \<noteq> 0"
    using Cons.prems(2) G(3) by simp
  from Cons.IH [OF G(2) this _ len] Cons.prems(3)
  obtain f'' where "read_dir p n cs f' = Some (map (rec64 (p_inodes p)) (listing (p_dir p n) b' i'), f'')"
    by auto
  moreover have "take_fit c ?xs @ drop (length (take_fit c ?xs)) ?xs = ?xs"
    using take_fit_prefix [of c ?xs] append_take_drop_id by metis
  ultimately show ?case
    using G by (simp flip: map_append)
qed simp

lemma places_all: "ds \<noteq> [] \<Longrightarrow> places ds 0 0 = concat (map (\<lambda>c. map (Pair c) [0..<length (ds ! c)]) [0..<length ds])"
  by (simp add: places_def upt_conv_Cons)

lemma map_places: "ds \<noteq> [] \<Longrightarrow> map (\<lambda>(c, j). ds ! c ! j) (places ds 0 0) = concat ds"
proof -
  assume "ds \<noteq> []"
  have "map (\<lambda>c. map (\<lambda>(c, j). ds ! c ! j) (map (Pair c) [0..<length (ds ! c)])) [0..<length ds] = map (\<lambda>c. ds ! c) [0..<length ds]"
    by (simp add: comp_def map_nth)
  then show ?thesis
    unfolding places_all [OF \<open>ds \<noteq> []\<close>] map_concat map_map comp_def by (simp add: comp_def map_nth)
qed

lemma listing_all: "ds \<noteq> [] \<Longrightarrow> map fst (listing ds 0 0) = filter (\<lambda>d. d_inode d \<noteq> 0) (concat ds)"
  by (subst map_places [symmetric]) (simp_all add: listing_def filter_map comp_def split_def)

lemma entry_map_of:
  assumes "\<And>d. d \<in> set es \<Longrightarrow> d_inode d = 0 \<longleftrightarrow> d_name d = []" and "name \<noteq> []"
  shows "map_of (map (\<lambda>d. (d_name d, d_inode d)) (filter (\<lambda>d. d_inode d \<noteq> 0) es)) name = map_option d_inode (find (\<lambda>d. d_name d = name) es)"
  using assms(1)
proof (induction es)
  case (Cons d es)
  then have "d_inode d = 0 \<longleftrightarrow> d_name d = []"
    by simp
  then show ?case
    using Cons assms(2) by auto
qed simp

lemma distinct_used:
  assumes "\<And>d. d \<in> set es \<Longrightarrow> d_inode d = 0 \<longleftrightarrow> d_name d = []" and "distinct (filter (\<lambda>s. s \<noteq> []) (map d_name es))"
  shows "distinct (map d_name (filter (\<lambda>d. d_inode d \<noteq> 0) es))"
proof -
  have "filter (\<lambda>d. d_inode d \<noteq> 0) es = filter (\<lambda>d. d_name d \<noteq> []) es"
    using assms(1) by (intro filter_cong) simp_all
  then show ?thesis
    using assms(2) by (simp add: filter_map comp_def)
qed

lemma pool_ok_readable:
  assumes "pool_ok p ext" and "p_inodes p n = Some i" and "inode_is_dir i" and "dir_fits (p_dir p n)"
    and "\<And>m. p_inodes p m \<noteq> None \<Longrightarrow> m < W64"
  shows "dir_readable p n"
    and "\<And>d. d \<in> set (concat (p_dir p n)) \<Longrightarrow> d_inode d = 0 \<longleftrightarrow> d_name d = []"
    and "distinct (filter (\<lambda>s. s \<noteq> []) (map d_name (concat (p_dir p n))))"
proof -
  have "dir_ok (p_inodes p) (p_dir p) n i"
    using assms(1-3) by (auto simp: pool_ok_def pool_inv_def ns_inv_def)
  then have d: "\<And>d. d \<in> set (concat (p_dir p n)) \<Longrightarrow> dirent_ok (p_inodes p) d"
    and "distinct (filter (\<lambda>s. s \<noteq> []) (map d_name (concat (p_dir p n))))"
    unfolding dir_ok_def by blast+
  then show "distinct (filter (\<lambda>s. s \<noteq> []) (map d_name (concat (p_dir p n))))"
    by simp
  show "d_inode d = 0 \<longleftrightarrow> d_name d = []" if "d \<in> set (concat (p_dir p n))" for d
    using d [OF that] unfolding dirent_ok_def by blast
  have "entry_fits (p_inodes p) d" if "d \<in> set (concat (p_dir p n))" "d_inode d \<noteq> 0" for d
    using d [OF that(1)] that(2) assms(5) unfolding dirent_ok_def entry_fits_def PMEMFILE_MAX_FILE_NAME_def by blast
  then show "dir_readable p n"
    using assms(2-4) unfolding dir_readable_def by blast
qed

lemma read_dir_all_ok:
  assumes "pool_ok p ext" and "p_inodes p n = Some i" and "inode_is_dir i" and "dir_fits (p_dir p n)"
    and "\<And>m. p_inodes p m \<noteq> None \<Longrightarrow> m < W64"
    and "f_offset f = 0" and "f_flags f AND PFILE_READ \<noteq> 0"
    and "\<And>c. c \<in> set cs \<Longrightarrow> 280 \<le> c \<and> c \<le> INT_MAX" and "length (concat (p_dir p n)) \<le> length cs"
  shows "\<exists>es f'. read_dir p n cs f = Some (es, f') \<and> distinct (map de_name es) \<and>
    (\<forall>name. name \<noteq> [] \<longrightarrow> map_of (map (\<lambda>e. (de_name e, de_ino e)) es) name = entry (p_dir p n) name) \<and>
    (\<forall>e \<in> set es. de_type e = inode_type (the (p_inodes p (de_ino e))))"
proof -
  let ?xs = "listing (p_dir p n) 0 0" and ?ds = "filter (\<lambda>d. d_inode d \<noteq> 0) (concat (p_dir p n))"
  have R: "dir_readable p n" and names: "\<And>d. d \<in> set (concat (p_dir p n)) \<Longrightarrow> d_inode d = 0 \<longleftrightarrow> d_name d = []"
    and once: "distinct (filter (\<lambda>s. s \<noteq> []) (map d_name (concat (p_dir p n))))"
    using pool_ok_readable [OF assms(1-4)] assms(5) by blast+
  have ds: "p_dir p n \<noteq> []"
    using assms(4) by (simp add: dir_fits_def)
  then have all: "map fst ?xs = ?ds"
    by (rule listing_all)
  have pos: "pos_at (p_dir p n) f 0 0"
    using assms(6) ds by (simp add: pos_at_def offset_of_def)
  have "length ?xs \<le> length cs"
    unfolding length_map [of fst, symmetric] all by (rule order.trans [OF length_filter_le assms(9)])
  from read_dir_ok [OF R pos assms(7,8) this]
  obtain f' where "read_dir p n cs f = Some (map (rec64 (p_inodes p)) ?xs, f')"
    by blast
  moreover have "map de_name (map (rec64 (p_inodes p)) ?xs) = map d_name ?ds"
    unfolding all [symmetric] by (simp add: rec64_def case_prod_beta)
  moreover have "map (\<lambda>e. (de_name e, de_ino e)) (map (rec64 (p_inodes p)) ?xs) = map (\<lambda>d. (d_name d, d_inode d)) ?ds"
    unfolding all [symmetric] by (simp add: rec64_def case_prod_beta)
  moreover have "\<forall>e \<in> set (map (rec64 (p_inodes p)) ?xs). de_type e = inode_type (the (p_inodes p (de_ino e)))"
    by (auto simp: rec64_def)
  ultimately show ?thesis
    using distinct_used [OF names once] entry_map_of [OF names] unfolding entry_def
    by (intro exI [of _ "map (rec64 (p_inodes p)) ?xs"] exI [of _ f'] conjI allI impI) (simp_all only:)
qed


definition opened :: dir_file where
  "opened = \<lparr>f_flags = PFILE_READ, f_offset = 0, block_pointer_cache = None, invalidation_observed = 0, dp_dir = None, dp_id = 0\<rparr>"

lemma sample_small: "\<forall>m. p_inodes sample m \<noteq> None \<longrightarrow> m < W64"
  by (auto simp: sample_inodes_def W64_def split: if_splits)


end
