(* ===== verification/Spec2Isabelle.thy ===== *)
theory Spec2Isabelle
  imports Write_Crash Path_Action Suspend Getdents_Correct
begin

text \<open>
  Verification of pmemfile, a user-space file system on persistent memory.

  \<^bold>\<open>The program.\<close> \<^verbatim>\<open>src/libpmemfile-posix\<close> implements files, directories and permissions on
  top of an object store with transactions; \<^verbatim>\<open>src/libpmemfile\<close> routes the system calls of a
  process to it.

  \<^bold>\<open>Theories.\<close>
  \<^item> \<open>Pmf_Prelude\<close>: error numbers, unsigned arithmetic, the C allocator.
  \<^item> \<open>Blocks\<close>: block sizes and rounding (\<^verbatim>\<open>blocks.c\<close>, \<^verbatim>\<open>blocks.h\<close>, start-up in
    \<^verbatim>\<open>pmemfile-posix.c\<close>).
  \<^item> \<open>Offset_Mapping\<close>, \<open>Offset_Mapping_Correct\<close>: the radix tree from offsets to blocks
    (\<^verbatim>\<open>offset_mapping.c\<close>).
\<close>

end
